(* ===== verification/Prelude.thy ===== *)
theory Prelude
  imports Main "HOL-Library.Word"
begin

text \<open>
  Shared vocabulary of the development: the machine integers of the 32-bit Cortex-M7 target,
  the kernel's error codes (\<^verbatim>\<open>rt-thread/include/rtdef.h\<close>), byte memories and the
  generic lemmas on lists, words and memory ranges that several components use.

  Conventions used throughout:
  \<^item> an address or an index that the code never lets wrap around is a \<open>nat\<close>; a value whose
    width matters is a word;
  \<^item> an operation that can hit \<open>RT_ASSERT\<close> (which loops forever in
    \<open>rt_assert_handler\<close>) or an access outside the object has an \<open>option\<close> result:
    \<open>None\<close> is the halted or undefined execution;
  \<^item> return codes keep the C sign: \<open>- RT_EFULL\<close> is the value the code returns.
\<close>

unbundle bit_operations_syntax

named_theorems mem_simps \<open>facts about reads and writes of byte memories\<close>

section \<open>Machine integers and codes\<close>

type_synonym u8 = "8 word"
type_synonym u16 = "16 word"
type_synonym u32 = "32 word"

abbreviation RT_EOK :: int where "RT_EOK \<equiv> 0"
abbreviation RT_ERROR :: int where "RT_ERROR \<equiv> 1"
abbreviation RT_ETIMEOUT :: int where "RT_ETIMEOUT \<equiv> 2"
abbreviation RT_EFULL :: int where "RT_EFULL \<equiv> 3"
abbreviation RT_EEMPTY :: int where "RT_EEMPTY \<equiv> 4"
abbreviation RT_ENOMEM :: int where "RT_ENOMEM \<equiv> 5"
abbreviation RT_ENOSYS :: int where "RT_ENOSYS \<equiv> 6"
abbreviation RT_EBUSY :: int where "RT_EBUSY \<equiv> 7"
abbreviation RT_EIO :: int where "RT_EIO \<equiv> 8"
abbreviation RT_EINTR :: int where "RT_EINTR \<equiv> 9"
abbreviation RT_EINVAL :: int where "RT_EINVAL \<equiv> 10"

text \<open>\<open>RT_ALIGN(size, align)\<close> and \<open>RT_ALIGN_DOWN(size, align)\<close> of rtdef.h on 32-bit
  values.\<close>

definition RT_ALIGN :: "u32 \<Rightarrow> u32 \<Rightarrow> u32" where
  "RT_ALIGN sz align = (sz + align - 1) AND NOT (align - 1)"

definition RT_ALIGN_DOWN :: "u32 \<Rightarrow> u32 \<Rightarrow> u32" where
  "RT_ALIGN_DOWN sz align = sz AND NOT (align - 1)"

lemma word_and_not_mask_eq:
  fixes w :: "'a::len word"
  shows "w AND NOT (mask n) = push_bit n (drop_bit n w)"
  by (rule bit_word_eqI) (auto simp: bit_simps)

lemma unat_and_not_mask:
  fixes w :: "'a::len word"
  shows "unat (w AND NOT (mask n)) = unat w div 2 ^ n * 2 ^ n"
proof -
  have "unat (w AND NOT (mask n)) = unat (w - take_bit n w)"
    by (metis word_and_not_mask_eq bits_ident add_diff_cancel_right')
  also have "\<dots> = unat w - unat (take_bit n w)"
    by (rule unat_sub) (simp add: word_le_nat_alt unsigned_take_bit_eq)
  also have "unat (take_bit n w) = unat w mod 2 ^ n"
    by (simp only: unsigned_take_bit_eq) (simp add: take_bit_eq_mod)
  finally show ?thesis by (simp add: minus_mod_eq_div_mult)
qed

text \<open>With the configured \<open>RT_ALIGN_SIZE = 4\<close>.\<close>

abbreviation RT_ALIGN_SIZE :: u32 where "RT_ALIGN_SIZE \<equiv> 4"

lemma mask_2_u32: "(3 :: u32) = mask 2"
  by (simp add: mask_eq_exp_minus_1)

lemma unat_RT_ALIGN_DOWN: "unat (RT_ALIGN_DOWN w 4) = unat w div 4 * 4"
  using unat_and_not_mask [of w 2] by (simp add: RT_ALIGN_DOWN_def mask_2_u32)

lemma unat_RT_ALIGN:
  assumes "unat w + 3 < 2 ^ 32"
  shows "unat (RT_ALIGN w 4) = (unat w + 3) div 4 * 4"
proof -
  have "unat (w + 3) = unat w + 3"
    using assms by (simp add: unat_word_ariths)
  then show ?thesis
    using unat_and_not_mask [of "w + 3" 2] by (simp add: RT_ALIGN_def mask_2_u32 add.commute)
qed

lemma unat_diff_u32:
  fixes x y :: u32
  shows "unat (x - y) = (if unat y \<le> unat x then unat x - unat y else 2 ^ 32 + unat x - unat y)"
proof (cases "unat y \<le> unat x")
  case True
  then show ?thesis by (simp add: unat_sub word_le_nat_alt)
next
  case False
  define s where "s = unat (x - y) + unat y"
  have "unat ((x - y) + y) = s mod 2 ^ 32" unfolding s_def by (simp only: unat_word_ariths) simp
  then have m: "s mod 2 ^ 32 = unat x" by simp
  have b: "unat (x - y) < 2 ^ 32" "unat y < 2 ^ 32" using unsigned_less [of "x - y", where ?'a = nat] unsigned_less [of y, where ?'a = nat] by simp_all
  have "s = unat x + 2 ^ 32"
  proof -
    have "s < 2 * 2 ^ 32" using b by (simp add: s_def)
    moreover have "\<not> s < 2 ^ 32"
    proof
      assume "s < 2 ^ 32"
      then have "s = unat x" using m by simp
      then show False using False by (simp add: s_def)
    qed
    ultimately have "s mod 2 ^ 32 = s - 2 ^ 32" by (simp add: mod_if)
    with m \<open>\<not> s < 2 ^ 32\<close> show ?thesis by simp
  qed
  then show ?thesis using False by (simp add: s_def)
qed

section \<open>Byte memories\<close>

text \<open>\<open>mem_store a bs m\<close> writes the bytes \<open>bs\<close> from address \<open>a\<close> on;
  \<open>mem_load a n m\<close> reads \<open>n\<close> bytes.\<close>

type_synonym mem = "nat \<Rightarrow> u8"

fun mem_store :: "nat \<Rightarrow> u8 list \<Rightarrow> mem \<Rightarrow> mem" where
  "mem_store a [] m = m"
| "mem_store a (b # bs) m = mem_store (Suc a) bs (m(a := b))"

definition mem_load :: "nat \<Rightarrow> nat \<Rightarrow> mem \<Rightarrow> u8 list" where
  "mem_load a n m = map (\<lambda>i. m (a + i)) [0..<n]"

lemma mem_store_apply [mem_simps]:
  "mem_store a bs m x = (if a \<le> x \<and> x < a + length bs then bs ! (x - a) else m x)"
proof (induction bs arbitrary: a m)
  case (Cons b bs)
  then show ?case by (auto simp: nth_Cons' Suc_diff_Suc not_less_eq_eq le_Suc_eq)
qed auto

lemma length_mem_load [simp]: "length (mem_load a n m) = n"
  by (simp add: mem_load_def)

lemma nth_mem_load [mem_simps]: "i < n \<Longrightarrow> mem_load a n m ! i = m (a + i)"
  by (simp add: mem_load_def)

lemma mem_load_cong: "(\<And>i. i < n \<Longrightarrow> m (a + i) = m' (a' + i)) \<Longrightarrow> mem_load a n m = mem_load a' n m'"
  by (simp add: mem_load_def)

lemma mem_load_store: "length bs = n \<Longrightarrow> mem_load a n (mem_store a bs m) = bs"
  by (rule nth_equalityI) (simp_all add: mem_simps)

section \<open>Arrays\<close>

text \<open>\<open>memcpy\<close> into and out of an array held as a list: an access outside of it is undefined.\<close>

definition arr_write :: "'a list \<Rightarrow> nat \<Rightarrow> 'a list \<Rightarrow> 'a list option" where
  "arr_write xs i ys =
    (if i + length ys \<le> length xs then Some (take i xs @ ys @ drop (i + length ys) xs) else None)"

definition arr_read :: "'a list \<Rightarrow> nat \<Rightarrow> nat \<Rightarrow> 'a list option" where
  "arr_read xs i n = (if i + n \<le> length xs then Some (take n (drop i xs)) else None)"

lemma arr_writeD:
  "arr_write xs i ys = Some zs \<Longrightarrow> length zs = length xs \<and> i + length ys \<le> length xs"
  by (auto simp: arr_write_def split: if_splits)

lemma arr_readD: "arr_read xs i n = Some ys \<Longrightarrow> length ys = n \<and> i + n \<le> length xs"
  by (auto simp: arr_read_def split: if_splits)

lemma int_align_down: "0 \<le> (x::int) \<Longrightarrow> x AND NOT 3 = x div 4 * 4"
proof -
  have "x AND NOT (mask 2) = x div 4 * 4"
  proof -
    have "x AND NOT (mask 2) = push_bit 2 (drop_bit 2 x)"
      by (rule bit_eqI) (auto simp: bit_simps not_less dest: le_Suc_ex)
    then show ?thesis by (simp add: push_bit_eq_mult drop_bit_eq_div)
  qed
  then show ?thesis by (simp add: mask_eq_exp_minus_1)
qed

section \<open>Guarded steps\<close>

text \<open>\<open>assert_that b\<close> is \<open>RT_ASSERT(b)\<close>: the execution goes on only when \<open>b\<close> holds.\<close>

definition assert_that :: "bool \<Rightarrow> unit option" where
  "assert_that b = (if b then Some () else None)"

lemma assert_that_Some [simp]: "assert_that b = Some u \<longleftrightarrow> b"
  by (simp add: assert_that_def)

lemma bind_assert_that [simp]:
  "Option.bind (assert_that b) f = (if b then f () else None)"
  by (simp add: assert_that_def)

end
