(* ===== verification/AppMain.thy ===== *)
theory AppMain
  imports Prelude
begin

text \<open>
  The application, \<^verbatim>\<open>applications/main.c\<close>: loading the Live2D model from the SD card
  into the PainterEngine memory pool, the rendering loop that walks through the animations
  \<open>action01\<close> .. \<open>action32\<close>, and the conversion of the rendered surface to the RGB565 frame
  buffer of the LCD.

  PainterEngine is a git submodule that is not part of the tree; its functions
  (\<open>MP_Malloc\<close>, \<open>MP_Free\<close>, \<open>PX_SurfaceClear\<close>, \<open>PX_LiveFrameworkRender\<close>,
  \<open>PX_LiveFrameworkPlayAnimationByName\<close>) and the file system calls are arguments of the
  definitions.
\<close>

section \<open>Loading a file into the memory pool\<close>

record PX_IO_Data =
  io_buffer :: "nat option"
  io_size :: u32

record 'fs file_api =
  sys_open :: "string \<Rightarrow> 'fs \<Rightarrow> int \<times> 'fs"
  sys_fstat_size :: "int \<Rightarrow> 'fs \<Rightarrow> int"
  sys_read :: "int \<Rightarrow> int \<Rightarrow> 'fs \<Rightarrow> u8 list \<times> 'fs"
  sys_close :: "int \<Rightarrow> 'fs \<Rightarrow> 'fs"

record 'mp pool_api =
  MP_Malloc :: "u32 \<Rightarrow> 'mp \<Rightarrow> nat option \<times> 'mp"
  MP_Free :: "nat \<Rightarrow> 'mp \<Rightarrow> 'mp"

record ('fs, 'mp) app_world =
  w_fs :: 'fs
  w_pool :: 'mp
  w_mem :: mem

definition PX_LoadFileToIOData ::
  "'fs file_api \<Rightarrow> 'mp pool_api \<Rightarrow> string \<Rightarrow> ('fs, 'mp) app_world
    \<Rightarrow> PX_IO_Data \<times> ('fs, 'mp) app_world" where
  "PX_LoadFileToIOData fa pa path w =
    (let (pf, fs1) = sys_open fa path (w_fs w)
     in if pf = -1
        then (\<lparr>io_buffer = None, io_size = 0\<rparr>, w\<lparr>w_fs := fs1\<rparr>)
        else
          let filesize = sys_fstat_size fa pf fs1;
              (ptr, mp1) = MP_Malloc pa (word_of_int (filesize + 1)) (w_pool w)
          in case ptr of
               None \<Rightarrow> (\<lparr>io_buffer = None, io_size = 0\<rparr>, w\<lparr>w_fs := fs1, w_pool := mp1\<rparr>)
             | Some buf \<Rightarrow>
                 let (bytes, fs2) = sys_read fa pf filesize fs1;
                     m1 = mem_store buf bytes (w_mem w);
                     fs3 = sys_close fa pf fs2;
                     m2 = m1(buf + nat filesize := 0)
                 in (\<lparr>io_buffer = Some buf, io_size = word_of_int filesize\<rparr>,
                     \<lparr>w_fs = fs3, w_pool = mp1, w_mem = m2\<rparr>))"

definition PX_FreeIOData ::
  "'mp pool_api \<Rightarrow> PX_IO_Data \<Rightarrow> 'mp \<Rightarrow> PX_IO_Data \<times> 'mp" where
  "PX_FreeIOData pa io mp =
    (case io_buffer io of
       None \<Rightarrow> (io, mp)
     | Some buf \<Rightarrow>
         if io_size io \<noteq> 0
         then (\<lparr>io_buffer = None, io_size = 0\<rparr>, MP_Free pa buf mp)
         else (io, mp))"

section \<open>RGB565 conversion\<close>

text \<open>The four channels of \<open>px_color._argb\<close>.\<close>

record px_color =
  col_a :: u8
  col_r :: u8
  col_g :: u8
  col_b :: u8

definition rgb565 :: "px_color \<Rightarrow> u16" where
  "rgb565 c =
    ucast (push_bit 11 (drop_bit 3 (ucast (col_r c) :: u32))
           OR push_bit 5 (drop_bit 2 (ucast (col_g c)))
           OR drop_bit 3 (ucast (col_b c)))"

text \<open>The conversion loop \<open>for (int i = 0; i < width * height; i++)\<close>; an index outside one
  of the two buffers is \<open>None\<close>.\<close>

function convert_loop :: "nat \<Rightarrow> nat \<Rightarrow> px_color list \<Rightarrow> u16 list \<Rightarrow> u16 list option" where
  "convert_loop i n surf fb =
    (if i < n
     then if i < length surf \<and> i < length fb
          then convert_loop (Suc i) n surf (fb[i := rgb565 (surf ! i)])
          else None
     else Some fb)"
  by pat_completeness auto
termination
  by (relation "measure (\<lambda>(i, n, _, _). n - i)") auto

declare convert_loop.simps [simp del]

section \<open>The rendering loop\<close>

text \<open>Decimal rendering, as \<open>sprintf\<close> with \<open>%u\<close> produces it.\<close>

fun dec_string :: "nat \<Rightarrow> string" where
  "dec_string n =
    (if n < 10 then [char_of (48 + n)] else dec_string (n div 10) @ [char_of (48 + n mod 10)])"

declare dec_string.simps [simp del]

record app =
  count :: int
  anim_index :: int
  lastUpdateTime :: u32

definition INT_MAX :: int where "INT_MAX = 2 ^ 31 - 1"

definition main_init :: "u32 \<Rightarrow> app" where
  "main_init t0 = \<lparr>count = 1, anim_index = 1, lastUpdateTime = t0\<rparr>"

definition action_name :: "int \<Rightarrow> string" where
  "action_name i =
    (if i < 10 then ''action0'' @ dec_string (nat i) else ''action'' @ dec_string (nat i))"

text \<open>
  One evaluation of the guard \<open>count++\<close> and, when it holds, the state part of the body:
  the result is the elapsed time and the animation to select, if any. The increment of
  \<open>INT_MAX\<close> is a signed overflow (\<open>None\<close>); \<open>Some None\<close> is the exit of the loop.
\<close>

definition main_step :: "u32 \<Rightarrow> app \<Rightarrow> (app \<times> u32 \<times> string option) option option" where
  "main_step now a =
    (if count a = INT_MAX then None
     else if count a = 0 then Some None
     else
       let c = count a + 1;
           elapsed = now - lastUpdateTime a;
           a1 = a\<lparr>count := c, lastUpdateTime := now\<rparr>
       in if c mod 8 = 0
          then let i1 = anim_index a + 1; i2 = (if i1 > 32 then 1 else i1)
               in Some (Some (a1\<lparr>anim_index := i2\<rparr>, elapsed, Some (action_name i2)))
          else Some (Some (a1, elapsed, None)))"

text \<open>The loop over the clock readings of its iterations.\<close>

fun main_run :: "u32 list \<Rightarrow> app \<Rightarrow> (app \<times> (u32 \<times> string option) list) option" where
  "main_run [] a = Some (a, [])"
| "main_run (now # ts) a =
    (case main_step now a of
       None \<Rightarrow> None
     | Some None \<Rightarrow> Some (a, [])
     | Some (Some (a', out)) \<Rightarrow>
         (case main_run ts a' of None \<Rightarrow> None | Some (a'', outs) \<Rightarrow> Some (a'', out # outs)))"

text \<open>One whole iteration with the renderer: the selected animation is started, the surface
  cleared, rendered and converted.\<close>

record 'lv live_api =
  live_play :: "string \<Rightarrow> 'lv \<Rightarrow> bool \<times> 'lv"
  surface_clear :: "px_color list \<Rightarrow> px_color list"
  live_render :: "u32 \<Rightarrow> 'lv \<Rightarrow> px_color list \<Rightarrow> 'lv \<times> px_color list"

record 'lv screen =
  sc_live :: 'lv
  sc_surface :: "px_color list"
  sc_framebuffer :: "u16 list"

definition main_frame ::
  "'lv live_api \<Rightarrow> nat \<Rightarrow> nat \<Rightarrow> u32 \<Rightarrow> string option \<Rightarrow> 'lv screen \<Rightarrow> 'lv screen option" where
  "main_frame la width height elapsed act s =
    (let lv1 = (case act of None \<Rightarrow> sc_live s | Some name \<Rightarrow> snd (live_play la name (sc_live s)));
         surf1 = surface_clear la (sc_surface s);
         (lv2, surf2) = live_render la elapsed lv1 surf1
     in case convert_loop 0 (width * height) surf2 (sc_framebuffer s) of
          None \<Rightarrow> None
        | Some fb \<Rightarrow> Some \<lparr>sc_live = lv2, sc_surface = surf2, sc_framebuffer = fb\<rparr>)"

section \<open>Lemmas\<close>

lemma convert_loop_eq:
  assumes "i \<le> n" "n \<le> length surf" "n \<le> length fb"
  shows "convert_loop i n surf fb =
     Some (take i fb @ map rgb565 (drop i (take n surf)) @ drop n fb)"
  using assms
proof (induction i n surf fb rule: convert_loop.induct)
  case (1 i n surf fb)
  show ?case
  proof (cases "i < n")
    case True
    with 1 have "convert_loop i n surf fb =
        Some (take (Suc i) (fb[i := rgb565 (surf ! i)]) @ map rgb565 (drop (Suc i) (take n surf))
              @ drop n (fb[i := rgb565 (surf ! i)]))"
      by (subst convert_loop.simps) simp
    moreover have "drop i (take n surf) = surf ! i # drop (Suc i) (take n surf)"
      using True "1.prems" by (simp add: Cons_nth_drop_Suc [symmetric])
    ultimately show ?thesis
      using True "1.prems" by (simp add: take_Suc_conv_app_nth)
  qed (use 1 in \<open>simp add: convert_loop.simps\<close>)
qed

lemma rgb565_channels:
  shows "drop_bit 11 (rgb565 c) = ucast (drop_bit 3 (col_r c))"
    and "drop_bit 5 (rgb565 c) AND mask 6 = ucast (drop_bit 2 (col_g c))"
    and "rgb565 c AND mask 5 = ucast (drop_bit 3 (col_b c))"
  by (rule bit_word_eqI, auto simp: rgb565_def bit_simps dest: bit_imp_le_length)+


text \<open>The animation index after \<open>k\<close> iterations.\<close>

definition anim_after :: "nat \<Rightarrow> nat" where
  "anim_after k = (k + 1) div 8 mod 32 + 1"

lemma anim_after_step:
  "(if (k + 2) mod 8 = 0 then (if anim_after k + 1 > 32 then 1 else anim_after k + 1) else anim_after k)
    = anim_after (Suc k)"
proof (cases "(k + 2) mod 8 = 0")
  case True
  then obtain q where q: "k + 2 = 8 * q" by (metis mod_0_imp_dvd dvdE)
  then obtain r where r: "q = Suc r" by (cases q) auto
  have k: "k = 8 * r + 6" using q r by simp
  have "anim_after k = r mod 32 + 1" "anim_after (Suc k) = Suc r mod 32 + 1"
    by (simp_all add: anim_after_def k)
  with True show ?thesis by (auto simp: mod_Suc)
next
  case False
  then have "(Suc k + 1) div 8 = (k + 1) div 8" using div_Suc [of "Suc k" 8] by simp
  with False show ?thesis by (simp add: anim_after_def)
qed

lemma main_step_at:
  assumes c: "count a = 1 + int k" and k: "int k < INT_MAX - 1" and i: "anim_index a = int (anim_after k)"
  shows "main_step now a =
    Some (Some (\<lparr>count = 1 + int (Suc k), anim_index = int (anim_after (Suc k)), lastUpdateTime = now\<rparr>,
      now - lastUpdateTime a,
      if (k + 2) mod 8 = 0 then Some (action_name (int (anim_after (Suc k)))) else None))"
proof -
  have nz: "count a \<noteq> INT_MAX" "count a \<noteq> 0" using c k by auto
  have m8: "((count a + 1) mod 8 = 0) = ((k + 2) mod 8 = 0)" unfolding c by presburger
  have w: "(if int (anim_after k) + 1 > 32 then 1 else int (anim_after k) + 1)
      = int (if anim_after k + 1 > 32 then 1 else anim_after k + 1)" by simp
  have a: "a\<lparr>count := count a + 1, lastUpdateTime := now\<rparr>
      = \<lparr>count = 1 + int (Suc k), anim_index = anim_index a, lastUpdateTime = now\<rparr>"
    using c by (cases a) simp
  show ?thesis
  proof (cases "(k + 2) mod 8 = 0")
    case True
    have e: "(if int (anim_after k) + 1 > 32 then 1 else int (anim_after k) + 1) = int (anim_after (Suc k))"
      unfolding w using anim_after_step [of k] by (simp only: True if_True simp_thms)
    show ?thesis
      unfolding main_step_def Let_def if_not_P [OF nz(1)] if_not_P [OF nz(2)] m8 if_P [OF True] a i e
      app.select_convs app.update_convs ..
  next
    case False
    have e: "anim_after (Suc k) = anim_after k"
      using anim_after_step [of k] by (simp only: False if_False simp_thms)
    show ?thesis
      unfolding main_step_def Let_def if_not_P [OF nz(1)] if_not_P [OF nz(2)] m8 if_not_P [OF False] a i e ..
  qed
qed

lemma main_run_at:
  assumes "count a = 1 + int k" "int k + int (length ts) < INT_MAX" "anim_index a = int (anim_after k)"
  shows "\<exists>a' outs. main_run ts a = Some (a', outs) \<and> length outs = length ts
    \<and> anim_index a' = int (anim_after (k + length ts))
    \<and> lastUpdateTime a' = lastUpdateTime a + sum_list (map fst outs)
    \<and> (\<forall>j < length ts. snd (outs ! j) =
         (if (k + j + 2) mod 8 = 0 then Some (action_name (int (anim_after (k + j + 1)))) else None))"
  using assms
proof (induction ts arbitrary: a k)
  case (Cons now ts)
  let ?a = "\<lparr>count = 1 + int (Suc k), anim_index = int (anim_after (Suc k)), lastUpdateTime = now\<rparr>"
  from Cons.prems have st: "main_step now a = Some (Some (?a, now - lastUpdateTime a,
      if (k + 2) mod 8 = 0 then Some (action_name (int (anim_after (Suc k)))) else None))"
    by (intro main_step_at) auto
  have "\<exists>a' outs. main_run ts ?a = Some (a', outs) \<and> length outs = length ts
    \<and> anim_index a' = int (anim_after (Suc k + length ts))
    \<and> lastUpdateTime a' = lastUpdateTime ?a + sum_list (map fst outs)
    \<and> (\<forall>j < length ts. snd (outs ! j) =
         (if (Suc k + j + 2) mod 8 = 0 then Some (action_name (int (anim_after (Suc k + j + 1)))) else None))"
    by (rule Cons.IH) (use Cons.prems in auto)
  then obtain a' outs where r: "main_run ts ?a = Some (a', outs)" "length outs = length ts"
    "anim_index a' = int (anim_after (Suc k + length ts))"
    "lastUpdateTime a' = now + sum_list (map fst outs)"
    "\<And>j. j < length ts \<Longrightarrow> snd (outs ! j) =
         (if (Suc k + j + 2) mod 8 = 0 then Some (action_name (int (anim_after (Suc k + j + 1)))) else None)"
    by auto
  show ?case
  proof (intro exI conjI)
    show "main_run (now # ts) a = Some (a', (now - lastUpdateTime a,
        if (k + 2) mod 8 = 0 then Some (action_name (int (anim_after (Suc k)))) else None) # outs)"
      using st r(1) by simp
    show "\<forall>j < length (now # ts). snd (((now - lastUpdateTime a,
        if (k + 2) mod 8 = 0 then Some (action_name (int (anim_after (Suc k)))) else None) # outs) ! j) =
        (if (k + j + 2) mod 8 = 0 then Some (action_name (int (anim_after (k + j + 1)))) else None)"
    proof (intro allI impI)
      fix j assume "j < length (now # ts)"
      then show "snd (((now - lastUpdateTime a,
        if (k + 2) mod 8 = 0 then Some (action_name (int (anim_after (Suc k)))) else None) # outs) ! j) =
        (if (k + j + 2) mod 8 = 0 then Some (action_name (int (anim_after (k + j + 1)))) else None)"
        using r(5) [of "j - 1"] by (cases j) simp_all
    qed
  qed (use r in auto)
qed simp

lemma main_run_schedule:
  assumes "int (length ts) < INT_MAX"
  obtains a outs where "main_run ts (main_init t0) = Some (a, outs)" "length outs = length ts"
    "anim_index a = int (anim_after (length ts))"
    "lastUpdateTime a = t0 + sum_list (map fst outs)"
    "\<And>j. j < length ts \<Longrightarrow> snd (outs ! j) =
         (if (j + 2) mod 8 = 0 then Some (action_name (int (anim_after (j + 1)))) else None)"
  using main_run_at [of "main_init t0" 0 ts] assms
  by (fastforce simp: main_init_def anim_after_def)

lemma anim_after_range: "1 \<le> anim_after k \<and> anim_after k \<le> 32"
  by (simp add: anim_after_def Suc_leI)

lemma length_dec_string: "n < 100 \<Longrightarrow> length (dec_string n) = (if n < 10 then 1 else 2)"
proof -
  assume "n < 100"
  then have "n div 10 < 10" by simp
  then show ?thesis by (simp add: dec_string.simps [of n] dec_string.simps [of "n div 10"])
qed

lemma length_action_name:
  "0 \<le> i \<Longrightarrow> i \<le> 32 \<Longrightarrow> length (action_name i) = 8"
  by (auto simp: action_name_def length_dec_string)

section \<open>Properties\<close>

text \<open>C38: the conversion loop never leaves its buffers and writes exactly the RGB565 image of
  the surface: pixel \<open>i\<close> of the frame buffer is \<open>rgb565\<close> of pixel \<open>i\<close> of the surface,
  the rest of the frame buffer is untouched, and the three colour fields carry the leading
  5, 6 and 5 bits of the channels.\<close>

theorem convert_frame:
  assumes "n \<le> length surf" and "n \<le> length fb"
  shows "convert_loop 0 n surf fb = Some (map rgb565 (take n surf) @ drop n fb)
    \<and> drop_bit 11 (rgb565 c) = ucast (drop_bit 3 (col_r c))
    \<and> drop_bit 5 (rgb565 c) AND mask 6 = ucast (drop_bit 2 (col_g c))
    \<and> rgb565 c AND mask 5 = ucast (drop_bit 3 (col_b c))"
  using convert_loop_eq [of 0 n surf fb] assms rgb565_channels [of c] by simp

theorem convert_frame_witness:
  "let c = \<lparr>col_a = 255, col_r = 255, col_g = 0, col_b = 128\<rparr>
   in convert_loop 0 2 [c, c] [0, 0, 7] = Some [rgb565 c, rgb565 c, 7]"
  using convert_frame [of 2 "[\<lparr>col_a = 255, col_r = 255, col_g = 0, col_b = 128\<rparr>,
      \<lparr>col_a = 255, col_r = 255, col_g = 0, col_b = 128\<rparr>]" "[0, 0, 7]"] by (simp add: Let_def)



text \<open>When the file opens, the pool has room and the read delivers the file, the model is in
  the pool followed by a NUL byte, no other byte of the memory changes, the recorded size is the
  length of the file and the descriptor has been closed.\<close>

theorem load_ok:
  assumes "sys_open fa path (w_fs w) = (pf, fs1)" "pf \<noteq> -1"
    and "sys_fstat_size fa pf fs1 = int (length content)"
    and "MP_Malloc pa (word_of_int (int (length content) + 1)) (w_pool w) = (Some buf, mp1)"
    and "sys_read fa pf (int (length content)) fs1 = (content, fs2)"
  shows "PX_LoadFileToIOData fa pa path w =
     (\<lparr>io_buffer = Some buf, io_size = word_of_nat (length content)\<rparr>,
      \<lparr>w_fs = sys_close fa pf fs2, w_pool = mp1, w_mem = mem_store buf (content @ [0]) (w_mem w)\<rparr>)"
  using assms by (auto simp: PX_LoadFileToIOData_def mem_simps fun_eq_iff nth_append less_Suc_eq)

definition demo_files :: "nat file_api" where
  "demo_files = \<lparr>sys_open = (\<lambda>_ n. (3, Suc n)), sys_fstat_size = (\<lambda>_ _. 2),
     sys_read = (\<lambda>_ _ n. ([65, 66], n)), sys_close = (\<lambda>_ n. n - 1)\<rparr>"

definition demo_pool :: "nat pool_api" where
  "demo_pool = \<lparr>MP_Malloc = (\<lambda>sz n. if n < 100 then (Some n, n + unat sz) else (None, n)),
     MP_Free = (\<lambda>_ n. n)\<rparr>"

theorem load_ok_witness:
  "PX_LoadFileToIOData demo_files demo_pool ''m'' \<lparr>w_fs = 0, w_pool = 16, w_mem = (\<lambda>_. 255)\<rparr> =
     (\<lparr>io_buffer = Some 16, io_size = 2\<rparr>,
      \<lparr>w_fs = 0, w_pool = 19, w_mem = mem_store 16 [65, 66, 0] (\<lambda>_. 255)\<rparr>)"
  using load_ok [of demo_files "''m''" "\<lparr>w_fs = 0, w_pool = 16, w_mem = (\<lambda>_. 255)\<rparr>" 3 1 "[65, 66]"
      demo_pool 16 19 1]
  by (simp add: demo_files_def demo_pool_def)

text \<open>The two ways in which the loader leaks: when the pool is exhausted the file stays open
  (the \<open>goto _ERROR\<close> skips \<open>close\<close>), and an empty file leaves its one-byte buffer allocated,
  because \<open>PX_FreeIOData\<close> tests the size.\<close>

lemma load_no_memory_leaves_file_open:
  assumes "sys_open fa path (w_fs w) = (pf, fs1)" "pf \<noteq> -1"
    and "MP_Malloc pa (word_of_int (sys_fstat_size fa pf fs1 + 1)) (w_pool w) = (None, mp1)"
  shows "w_fs (snd (PX_LoadFileToIOData fa pa path w)) = fs1"
  using assms by (simp add: PX_LoadFileToIOData_def)

lemma free_keeps_empty_file_buffer:
  "PX_FreeIOData pa \<lparr>io_buffer = Some b, io_size = 0\<rparr> mp = (\<lparr>io_buffer = Some b, io_size = 0\<rparr>, mp)"
  by (simp add: PX_FreeIOData_def)

end
