(* ===== verification/KString.thy ===== *)
theory KString
  imports Prelude
begin

text \<open>
  The kernel service library, \<^verbatim>\<open>rt-thread/src/kservice.c\<close>: memory and string functions,
  find-first-set and the formatted output engine.

  The memory functions work on a byte memory with \<open>nat\<close> addresses; their word-wise fast paths
  (\<open>sizeof(long) = 4\<close>, little endian) are modelled as written. The string functions read an
  object given as the list of its remaining bytes: reading past the end of the object is
  \<open>None\<close>. Plain \<open>char\<close> is unsigned on the target.
\<close>

section \<open>rt\_memset, rt\_memcpy, rt\_memmove, rt\_memcmp\<close>

definition store32 :: "nat \<Rightarrow> u32 \<Rightarrow> mem \<Rightarrow> mem" where
  "store32 a w m =
    mem_store a [ucast w, ucast (drop_bit 8 w), ucast (drop_bit 16 w), ucast (drop_bit 24 w)] m"

definition load32 :: "nat \<Rightarrow> mem \<Rightarrow> u32" where
  "load32 a m = ucast (m a) OR push_bit 8 (ucast (m (a + 1)))
     OR push_bit 16 (ucast (m (a + 2))) OR push_bit 24 (ucast (m (a + 3)))"

fun memset_big :: "u32 \<Rightarrow> nat \<Rightarrow> nat \<Rightarrow> mem \<Rightarrow> nat \<times> nat \<times> mem" where
  "memset_big buffer a cnt m =
    (if 16 \<le> cnt
     then memset_big buffer (a + 16) (cnt - 16)
       (store32 (a + 12) buffer (store32 (a + 8) buffer (store32 (a + 4) buffer (store32 a buffer m))))
     else (a, cnt, m))"

fun memset_little :: "u32 \<Rightarrow> nat \<Rightarrow> nat \<Rightarrow> mem \<Rightarrow> nat \<times> nat \<times> mem" where
  "memset_little buffer a cnt m =
    (if 4 \<le> cnt then memset_little buffer (a + 4) (cnt - 4) (store32 a buffer m) else (a, cnt, m))"

fun memset_bytes :: "u8 \<Rightarrow> nat \<Rightarrow> nat \<Rightarrow> mem \<Rightarrow> mem" where
  "memset_bytes d a 0 m = m"
| "memset_bytes d a (Suc cnt) m = memset_bytes d (Suc a) cnt (m(a := d))"

declare memset_big.simps [simp del] memset_little.simps [simp del]

definition rt_memset :: "nat \<Rightarrow> u32 \<Rightarrow> nat \<Rightarrow> mem \<Rightarrow> mem" where
  "rt_memset s c cnt m =
    (let d = c AND 0xff in
     if \<not> cnt < 4 \<and> s mod 4 = 0
     then
       let b1 = push_bit 8 d OR d;
           buffer = b1 OR push_bit 16 b1;
           (a1, c1, m1) = memset_big buffer s cnt m;
           (a2, c2, m2) = memset_little buffer a1 c1 m1
       in memset_bytes (ucast d) a2 c2 m2
     else memset_bytes (ucast d) s cnt m)"

definition copy32 :: "nat \<Rightarrow> nat \<Rightarrow> mem \<Rightarrow> mem" where
  "copy32 d s m = store32 d (load32 s m) m"

fun memcpy_big :: "nat \<Rightarrow> nat \<Rightarrow> nat \<Rightarrow> mem \<Rightarrow> nat \<times> nat \<times> nat \<times> mem" where
  "memcpy_big d s len m =
    (if 16 \<le> len
     then memcpy_big (d + 16) (s + 16) (len - 16)
       (copy32 (d + 12) (s + 12) (copy32 (d + 8) (s + 8) (copy32 (d + 4) (s + 4) (copy32 d s m))))
     else (d, s, len, m))"

fun memcpy_little :: "nat \<Rightarrow> nat \<Rightarrow> nat \<Rightarrow> mem \<Rightarrow> nat \<times> nat \<times> nat \<times> mem" where
  "memcpy_little d s len m =
    (if 4 \<le> len then memcpy_little (d + 4) (s + 4) (len - 4) (copy32 d s m) else (d, s, len, m))"

fun copy_up :: "nat \<Rightarrow> nat \<Rightarrow> nat \<Rightarrow> mem \<Rightarrow> mem" where
  "copy_up d s 0 m = m"
| "copy_up d s (Suc n) m = copy_up (Suc d) (Suc s) n (m(d := m s))"

declare memcpy_big.simps [simp del] memcpy_little.simps [simp del]

definition rt_memcpy :: "nat \<Rightarrow> nat \<Rightarrow> nat \<Rightarrow> mem \<Rightarrow> mem" where
  "rt_memcpy dst src cnt m =
    (if \<not> cnt < 16 \<and> src mod 4 = 0 \<and> dst mod 4 = 0
     then
       let (d1, s1, l1, m1) = memcpy_big dst src cnt m;
           (d2, s2, l2, m2) = memcpy_little d1 s1 l1 m1
       in copy_up d2 s2 l2 m2
     else copy_up dst src cnt m)"

fun copy_down :: "nat \<Rightarrow> nat \<Rightarrow> nat \<Rightarrow> mem \<Rightarrow> mem" where
  "copy_down d s 0 m = m"
| "copy_down d s (Suc n) m = copy_down d s n (m(d + n := m (s + n)))"

definition rt_memmove :: "nat \<Rightarrow> nat \<Rightarrow> nat \<Rightarrow> mem \<Rightarrow> mem" where
  "rt_memmove dest src n m =
    (if src < dest \<and> dest < src + n then copy_down dest src n m else copy_up dest src n m)"

fun rt_memcmp :: "u8 list \<Rightarrow> u8 list \<Rightarrow> nat \<Rightarrow> int option" where
  "rt_memcmp cs ct 0 = Some 0"
| "rt_memcmp (c # cs) (d # ct) (Suc n) =
    (let res = uint c - uint d in if res \<noteq> 0 then Some res else rt_memcmp cs ct n)"
| "rt_memcmp _ _ (Suc n) = None"

section \<open>String functions\<close>

fun rt_strlen :: "u8 list \<Rightarrow> nat option" where
  "rt_strlen [] = None"
| "rt_strlen (c # s) = (if c \<noteq> 0 then map_option Suc (rt_strlen s) else Some 0)"

text \<open>The loop of \<open>rt_strnlen\<close> tests the byte before it tests the length.\<close>

fun rt_strnlen :: "u8 list \<Rightarrow> nat \<Rightarrow> nat option" where
  "rt_strnlen [] maxlen = None"
| "rt_strnlen (c # s) maxlen =
    (if c \<noteq> 0 \<and> 0 < maxlen then map_option Suc (rt_strnlen s (maxlen - 1)) else Some 0)"

fun strstr_loop :: "u8 list \<Rightarrow> nat \<Rightarrow> u8 list \<Rightarrow> nat \<Rightarrow> nat \<Rightarrow> nat option option" where
  "strstr_loop s1 l1 s2 l2 pos =
    (if l2 \<le> l1 \<and> 0 < l2
     then case rt_memcmp s1 s2 l2 of
            None \<Rightarrow> None
          | Some r \<Rightarrow> if r = 0 then Some (Some pos) else strstr_loop (tl s1) (l1 - 1) s2 l2 (Suc pos)
     else Some None)"

declare strstr_loop.simps [simp del]

text \<open>The result is the offset of the match in \<open>s1\<close>.\<close>

definition rt_strstr :: "u8 list \<Rightarrow> u8 list \<Rightarrow> nat option option" where
  "rt_strstr s1 s2 =
    (case rt_strlen s2 of
       None \<Rightarrow> None
     | Some l2 \<Rightarrow>
         if l2 = 0 then Some (Some 0)
         else case rt_strlen s1 of
                None \<Rightarrow> None
              | Some l1 \<Rightarrow> strstr_loop s1 l1 s2 l2 0)"

definition lower_char :: "int \<Rightarrow> int" where
  "lower_char c = (if 65 \<le> c \<and> c \<le> 90 then c + 32 else c)"

fun rt_strcasecmp :: "u8 list \<Rightarrow> u8 list \<Rightarrow> int option" where
  "rt_strcasecmp (a # as) (b # bs) =
    (let ca = lower_char (uint a); cb = lower_char (uint b)
     in if ca = cb \<and> ca \<noteq> 0 then rt_strcasecmp as bs else Some (ca - cb))"
| "rt_strcasecmp _ _ = None"

fun strncpy_pad :: "u8 list \<Rightarrow> nat \<Rightarrow> u8 list option" where
  "strncpy_pad d 0 = Some d"
| "strncpy_pad [] (Suc n) = None"
| "strncpy_pad (_ # d) (Suc n) = map_option (Cons 0) (strncpy_pad d n)"

fun rt_strncpy :: "u8 list \<Rightarrow> u8 list \<Rightarrow> nat \<Rightarrow> u8 list option" where
  "rt_strncpy d s 0 = Some d"
| "rt_strncpy (_ # d) (c # s) (Suc n) =
    map_option (Cons c) (if c = 0 then strncpy_pad d n else rt_strncpy d s n)"
| "rt_strncpy _ _ (Suc n) = None"

text \<open>\<open>__res\<close> is a \<open>signed char\<close>: the difference is truncated to eight bits.\<close>

fun rt_strncmp :: "u8 list \<Rightarrow> u8 list \<Rightarrow> nat \<Rightarrow> int option" where
  "rt_strncmp cs ct 0 = Some 0"
| "rt_strncmp (c # cs) (d # ct) (Suc n) =
    (let res = sint (c - d) in if res \<noteq> 0 \<or> c = 0 then Some res else rt_strncmp cs ct n)"
| "rt_strncmp _ _ (Suc n) = None"

fun rt_strcmp :: "u8 list \<Rightarrow> u8 list \<Rightarrow> int option" where
  "rt_strcmp (c # cs) (d # ct) =
    (if c \<noteq> 0 \<and> c = d then rt_strcmp cs ct else Some (uint c - uint d))"
| "rt_strcmp _ _ = None"

text \<open>\<open>rt_strdup\<close> with the allocator's answer as an argument: the bytes copied into the block.\<close>

definition rt_strdup :: "u8 list \<Rightarrow> (nat \<Rightarrow> bool) \<Rightarrow> u8 list option option" where
  "rt_strdup s malloc_ok =
    (case rt_strlen s of
       None \<Rightarrow> None
     | Some l \<Rightarrow> if malloc_ok (l + 1) then Some (Some (take (l + 1) s)) else Some None)"

section \<open>Find first set\<close>

text \<open>\<open>lowest_bit n\<close> is the entry \<open>n\<close> of the table \<open>__lowest_bit_bitmap\<close>.\<close>

definition lowest_bit_row :: "nat list" where
  "lowest_bit_row = [0, 0, 1, 0, 2, 0, 1, 0, 3, 0, 1, 0, 2, 0, 1, 0]"

definition lowest_bit_heads :: "nat list" where
  "lowest_bit_heads = [0, 4, 5, 4, 6, 4, 5, 4, 7, 4, 5, 4, 6, 4, 5, 4]"

definition lowest_bit_bitmap :: "nat list" where
  "lowest_bit_bitmap = concat (map (\<lambda>h. h # tl lowest_bit_row) lowest_bit_heads)"

definition rt_ffs :: "u32 \<Rightarrow> nat" where
  "rt_ffs v =
    (if v = 0 then 0
     else if v AND 0xff \<noteq> 0 then lowest_bit_bitmap ! unat (v AND 0xff) + 1
     else if v AND 0xff00 \<noteq> 0 then lowest_bit_bitmap ! unat (drop_bit 8 (v AND 0xff00)) + 9
     else if v AND 0xff0000 \<noteq> 0 then lowest_bit_bitmap ! unat (drop_bit 16 (v AND 0xff0000)) + 17
     else lowest_bit_bitmap ! unat (drop_bit 24 (v AND 0xff000000)) + 25)"

section \<open>The memory functions implement fill and copy\<close>

definition mem_fill :: "nat \<Rightarrow> nat \<Rightarrow> u8 \<Rightarrow> mem \<Rightarrow> mem" where
  "mem_fill a n d m = (\<lambda>x. if a \<le> x \<and> x < a + n then d else m x)"

definition mem_move :: "nat \<Rightarrow> nat \<Rightarrow> nat \<Rightarrow> mem \<Rightarrow> mem" where
  "mem_move d s n m = (\<lambda>x. if d \<le> x \<and> x < d + n then m (s + (x - d)) else m x)"

lemma mem_fill_0 [simp]: "mem_fill a 0 d m = m"
  by (auto simp: mem_fill_def fun_eq_iff)

lemma mem_move_0 [simp]: "mem_move d s 0 m = m"
  by (auto simp: mem_move_def fun_eq_iff)

lemma mem_fill_fill: "mem_fill (a + k) n d (mem_fill a k d m) = mem_fill a (k + n) d m"
  by (auto simp: mem_fill_def fun_eq_iff)

lemma mem_move_move:
  "d \<le> s \<or> s + k + n \<le> d \<Longrightarrow> mem_move (d + k) (s + k) n (mem_move d s k m) = mem_move d s (k + n) m"
  by (auto simp: mem_move_def fun_eq_iff)

lemma fun_upd_fill: "m(a := d) = mem_fill a 1 d m"
  by (auto simp: mem_fill_def fun_eq_iff)

lemma fun_upd_move: "m(d := m s) = mem_move d s 1 m"
  by (auto simp: mem_move_def fun_eq_iff)

lemma memset_bytes_fill: "memset_bytes d a n m = mem_fill a n d m"
proof (induction n arbitrary: a m)
  case (Suc n)
  show ?case
    using mem_fill_fill [of a 1 n d m] by (simp add: Suc fun_upd_fill)
qed simp

lemma copy_up_move: "d \<le> s \<or> s + n \<le> d \<Longrightarrow> copy_up d s n m = mem_move d s n m"
proof (induction n arbitrary: d s m)
  case (Suc n)
  have "copy_up (Suc d) (Suc s) n (m(d := m s)) = mem_move (d + 1) (s + 1) n (mem_move d s 1 m)"
    by (subst Suc.IH) (use Suc.prems in \<open>auto simp: fun_upd_move\<close>)
  then show ?case
    using mem_move_move [of d s 1 n m] Suc.prems by auto
qed simp

lemma copy_down_move: "s < d \<Longrightarrow> copy_down d s n m = mem_move d s n m"
proof (induction n arbitrary: m)
  case (Suc n)
  then show ?case by (auto simp: mem_move_def fun_eq_iff less_Suc_eq)
qed simp

lemma rt_memmove_move: "rt_memmove d s n m = mem_move d s n m"
proof (cases "s < d \<and> d < s + n")
  case True
  then show ?thesis by (simp add: rt_memmove_def copy_down_move)
next
  case False
  then have "rt_memmove d s n m = copy_up d s n m" by (auto simp: rt_memmove_def)
  also have "\<dots> = mem_move d s n m" by (rule copy_up_move) (use False in linarith)
  finally show ?thesis .
qed

lemma bytes_of_load32:
  "ucast (load32 a m) = m a"
  "ucast (drop_bit 8 (load32 a m)) = m (a + 1)"
  "ucast (drop_bit 16 (load32 a m)) = m (a + 2)"
  "ucast (drop_bit 24 (load32 a m)) = m (a + 3)"
  by (rule bit_word_eqI, auto simp: load32_def bit_simps dest: bit_imp_le_length)+

lemma copy32_move: "copy32 d s m = mem_move d s 4 m"
proof -
  have "copy32 d s m x = mem_move d s 4 m x" for x
  proof -
    have "x - d = 0 \<or> x - d = 1 \<or> x - d = 2 \<or> x - d = 3" if "x < d + 4" using that by arith
    then show ?thesis
      by (auto simp: copy32_def store32_def mem_store_apply mem_move_def bytes_of_load32 add.commute)
  qed
  then show ?thesis by blast
qed


lemma memcpy_little_move:
  "d \<le> s \<or> s + len \<le> d \<Longrightarrow>
    (case memcpy_little d s len m of (d', s', l', m') \<Rightarrow> copy_up d' s' l' m') = mem_move d s len m"
proof (induction d s len m rule: memcpy_little.induct)
  case (1 d s len m)
  show ?case
  proof (cases "4 \<le> len")
    case True
    then have "(case memcpy_little d s len m of (d', s', l', m') \<Rightarrow> copy_up d' s' l' m')
        = mem_move (d + 4) (s + 4) (len - 4) (copy32 d s m)"
      by (subst memcpy_little.simps) (use 1 True in auto)
    also have "\<dots> = mem_move d s len m"
      unfolding copy32_move using mem_move_move [of d s 4 "len - 4" m] 1 True by auto
    finally show ?thesis .
  next
    case False
    then show ?thesis using 1 by (subst memcpy_little.simps) (simp add: copy_up_move)
  qed
qed

lemma mem_move_16:
  assumes "d \<le> s \<or> s + len \<le> d" "16 \<le> len"
  shows "copy32 (d + 12) (s + 12) (copy32 (d + 8) (s + 8) (copy32 (d + 4) (s + 4) (copy32 d s m)))
    = mem_move d s 16 m"
proof -
  have 1: "mem_move (d + 4) (s + 4) 4 (mem_move d s 4 m) = mem_move d s 8 m"
    using mem_move_move [of d s 4 4 m] assms by auto
  have 2: "mem_move (d + 8) (s + 8) 4 (mem_move d s 8 m) = mem_move d s 12 m"
    using mem_move_move [of d s 8 4 m] assms by auto
  have 3: "mem_move (d + 12) (s + 12) 4 (mem_move d s 12 m) = mem_move d s 16 m"
    using mem_move_move [of d s 12 4 m] assms by auto
  show ?thesis by (simp only: copy32_move 1 2 3)
qed

lemma memcpy_big_move:
  "d \<le> s \<or> s + len \<le> d \<Longrightarrow>
    (case memcpy_big d s len m of (d1, s1, l1, m1) \<Rightarrow>
       case memcpy_little d1 s1 l1 m1 of (d', s', l', m') \<Rightarrow> copy_up d' s' l' m') = mem_move d s len m"
proof (induction d s len m rule: memcpy_big.induct)
  case (1 d s len m)
  show ?case
  proof (cases "16 \<le> len")
    case True
    note m16 = mem_move_16 [OF "1.prems" True, of m]
    have "(case memcpy_big d s len m of (d1, s1, l1, m1) \<Rightarrow>
       case memcpy_little d1 s1 l1 m1 of (d', s', l', m') \<Rightarrow> copy_up d' s' l' m')
        = mem_move (d + 16) (s + 16) (len - 16) (mem_move d s 16 m)"
      unfolding memcpy_big.simps [of d s len m] if_P [OF True] m16
      using "1.IH" [OF True] "1.prems" True unfolding m16 by auto
    also have "\<dots> = mem_move d s len m"
      using mem_move_move [of d s 16 "len - 16" m] 1 True by auto
    finally show ?thesis .
  next
    case False
    then show ?thesis using 1 by (subst memcpy_big.simps) (simp add: memcpy_little_move)
  qed
qed

lemma rt_memcpy_move: "d \<le> s \<or> s + n \<le> d \<Longrightarrow> rt_memcpy d s n m = mem_move d s n m"
  using memcpy_big_move [of d s n m] copy_up_move [of d s n m]
  by (auto simp: rt_memcpy_def Let_def split: prod.splits)

lemma byte_replicate:
  fixes c :: u32
  defines "d \<equiv> c AND 0xff"
  defines "w \<equiv> (push_bit 8 d OR d) OR push_bit 16 (push_bit 8 d OR d)"
  shows "(ucast w :: u8) = ucast d" "(ucast (drop_bit 8 w) :: u8) = ucast d"
    "(ucast (drop_bit 16 w) :: u8) = ucast d" "(ucast (drop_bit 24 w) :: u8) = ucast d"
proof -
  have m: "(0xff :: u32) = mask 8" by (simp add: mask_eq_exp_minus_1)
  show "(ucast w :: u8) = ucast d" "(ucast (drop_bit 8 w) :: u8) = ucast d"
    "(ucast (drop_bit 16 w) :: u8) = ucast d" "(ucast (drop_bit 24 w) :: u8) = ucast d"
    by (rule bit_word_eqI; auto simp: w_def d_def m bit_simps dest: bit_imp_le_length)+
qed

definition replicated :: "u32 \<Rightarrow> u8 \<Rightarrow> bool" where
  "replicated w d \<longleftrightarrow> (\<forall>a m. store32 a w m = mem_fill a 4 d m)"

lemma store32_fill:
  assumes "ucast w = d" "ucast (drop_bit 8 w) = d" "ucast (drop_bit 16 w) = d" "ucast (drop_bit 24 w) = d"
  shows "replicated w d"
proof -
  have "store32 a w m x = mem_fill a 4 d m x" for a m x
  proof -
    have "x - a = 0 \<or> x - a = 1 \<or> x - a = 2 \<or> x - a = 3" if "x < a + 4" using that by arith
    then show ?thesis using assms by (auto simp: store32_def mem_store_apply mem_fill_def)
  qed
  then show ?thesis by (auto simp: replicated_def)
qed

lemma memset_little_fill:
  "replicated w d \<Longrightarrow>
    (case memset_little w a n m of (a', n', m') \<Rightarrow> memset_bytes d a' n' m') = mem_fill a n d m"
proof (induction w a n m rule: memset_little.induct)
  case (1 w a n m)
  show ?case
  proof (cases "4 \<le> n")
    case True
    then show ?thesis
      unfolding memset_little.simps [of w a n m] if_P [OF True]
      using 1 True mem_fill_fill [of a 4 "n - 4" d m] by (auto simp: replicated_def)
  next
    case False
    then show ?thesis by (subst memset_little.simps) (simp add: memset_bytes_fill)
  qed
qed

lemma memset_big_fill:
  "replicated w d \<Longrightarrow>
    (case memset_big w a n m of (a1, n1, m1) \<Rightarrow>
      case memset_little w a1 n1 m1 of (a', n', m') \<Rightarrow> memset_bytes d a' n' m') = mem_fill a n d m"
proof (induction w a n m rule: memset_big.induct)
  case (1 w a n m)
  show ?case
  proof (cases "16 \<le> n")
    case True
    have f: "store32 (a + 12) w (store32 (a + 8) w (store32 (a + 4) w (store32 a w m))) = mem_fill a 16 d m"
      using "1.prems" mem_fill_fill [of a 4 4 d m] mem_fill_fill [of a 8 4 d m] mem_fill_fill [of a 12 4 d m]
      by (simp add: replicated_def)
    show ?thesis
      unfolding memset_big.simps [of w a n m] if_P [OF True] f
      using "1.IH" [OF True] "1.prems" True mem_fill_fill [of a 16 "n - 16" d m] unfolding f by auto
  next
    case False
    then show ?thesis using 1 by (subst memset_big.simps) (simp add: memset_little_fill)
  qed
qed

lemma rt_memset_fill: "rt_memset s c n m = mem_fill s n (ucast c) m"
proof -
  let ?d = "c AND 0xff"
  have m: "(0xff :: u32) = mask 8" by (simp add: mask_eq_exp_minus_1)
  have u: "(ucast ?d :: u8) = ucast c"
    by (rule bit_word_eqI) (auto simp: m bit_simps)
  have "replicated ((push_bit 8 ?d OR ?d) OR push_bit 16 (push_bit 8 ?d OR ?d)) (ucast c)"
    by (rule store32_fill) (simp_all only: byte_replicate u)
  from memset_big_fill [OF this, of s n m] show ?thesis
    by (auto simp: rt_memset_def Let_def memset_bytes_fill u split: prod.splits)
qed

section \<open>C strings\<close>

text \<open>\<open>c_string l s\<close>: the object \<open>s\<close> holds a NUL-terminated string of length \<open>l\<close>.\<close>

definition c_string :: "nat \<Rightarrow> u8 list \<Rightarrow> bool" where
  "c_string l s \<longleftrightarrow> l < length s \<and> s ! l = 0 \<and> (\<forall>i < l. s ! i \<noteq> 0)"

lemma c_string_Nil [simp]: "\<not> c_string l []"
  by (simp add: c_string_def)

lemma c_string_Cons: "c_string l (c # s) \<longleftrightarrow> (if c = 0 then l = 0 else \<exists>k. l = Suc k \<and> c_string k s)"
  by (cases l) (auto simp: c_string_def nth_Cons split: nat.splits)

lemma rt_strlen_iff: "rt_strlen s = Some l \<longleftrightarrow> c_string l s"
  by (induction s arbitrary: l) (auto simp: c_string_Cons)

lemma strncpy_pad_eq: "n \<le> length d \<Longrightarrow> strncpy_pad d n = Some (replicate n 0 @ drop n d)"
  by (induction d n rule: strncpy_pad.induct) auto

lemma rt_strncpy_eq:
  "c_string l s \<Longrightarrow> n \<le> length d \<Longrightarrow>
    rt_strncpy d s n = Some (take n (take l s @ replicate n 0) @ drop n d)"
proof (induction d s n arbitrary: l rule: rt_strncpy.induct)
  case (2 x d c s n)
  show ?case
  proof (cases "c = 0")
    case True
    with 2 show ?thesis by (simp add: c_string_Cons strncpy_pad_eq)
  next
    case False
    with "2.prems" obtain k where k: "l = Suc k" "c_string k s" by (auto simp: c_string_Cons)
    have "rt_strncpy d s n = Some (take n (take k s @ replicate n 0) @ drop n d)"
      using 2 False k by simp
    moreover have "take n (take k s @ replicate (Suc n) 0) = take n (take k s @ (replicate n 0 :: u8 list))"
      by (simp add: take_replicate min_def del: replicate_Suc)
    ultimately show ?thesis using False k(1) by (simp del: replicate_Suc)
  qed
qed auto

lemma uint_inject: "uint c = uint d \<longleftrightarrow> c = d"
  by (simp flip: word_uint_eq_iff)

lemma rt_strcmp_zero:
  "c_string l s \<Longrightarrow> c_string k t \<Longrightarrow> \<exists>r. rt_strcmp s t = Some r \<and> (r = 0 \<longleftrightarrow> take l s = take k t)"
proof (induction s t arbitrary: l k rule: rt_strcmp.induct)
  case (1 c cs d ct)
  then show ?case by (cases "c = 0"; cases "d = 0") (auto simp: c_string_Cons uint_inject unsigned_eq_0_iff)
qed auto

lemma rt_strncmp_zero:
  "c_string l s \<Longrightarrow> c_string k t \<Longrightarrow>
    \<exists>r. rt_strncmp s t n = Some r \<and> (r = 0 \<longleftrightarrow> take n (take l s) = take n (take k t))"
proof (induction s t n arbitrary: l k rule: rt_strncmp.induct)
  case (2 c cs d ct n)
  have "sint (c - d) = 0 \<longleftrightarrow> c = d"
    by (simp add: signed_eq_0_iff)
  with 2 show ?case
    by (cases "c = 0"; cases "d = 0") (auto simp: c_string_Cons Let_def)
qed auto

lemma rt_memcmp_zero:
  "n \<le> length s \<Longrightarrow> n \<le> length t \<Longrightarrow> \<exists>r. rt_memcmp s t n = Some r \<and> (r = 0 \<longleftrightarrow> take n s = take n t)"
  by (induction s t n rule: rt_memcmp.induct) (auto simp: Let_def uint_inject)

text \<open>\<open>occurs s1 s2 l2 p\<close>: the first \<open>l2\<close> bytes of \<open>s2\<close> stand in \<open>s1\<close> at offset \<open>p\<close>.\<close>

definition occurs_at :: "u8 list \<Rightarrow> nat \<Rightarrow> u8 list \<Rightarrow> nat \<Rightarrow> nat \<Rightarrow> bool" where
  "occurs_at s1 l1 s2 l2 p \<longleftrightarrow> p + l2 \<le> l1 \<and> take l2 (drop p s1) = take l2 s2"

lemma strstr_loop_correct:
  "0 < l2 \<Longrightarrow> l1 \<le> length s1 \<Longrightarrow> l2 \<le> length s2 \<Longrightarrow>
    (case strstr_loop s1 l1 s2 l2 pos of
       None \<Rightarrow> False
     | Some None \<Rightarrow> \<forall>p. \<not> occurs_at s1 l1 s2 l2 p
     | Some (Some q) \<Rightarrow> \<exists>p. q = pos + p \<and> occurs_at s1 l1 s2 l2 p \<and> (\<forall>p' < p. \<not> occurs_at s1 l1 s2 l2 p'))"
proof (induction s1 l1 s2 l2 pos rule: strstr_loop.induct)
  case (1 s1 l1 s2 l2 pos)
  show ?case
  proof (cases "l2 \<le> l1")
    case False
    then show ?thesis by (subst strstr_loop.simps) (auto simp: occurs_at_def)
  next
    case True
    then obtain r where r: "rt_memcmp s1 s2 l2 = Some r" "r = 0 \<longleftrightarrow> take l2 s1 = take l2 s2"
      using rt_memcmp_zero [of l2 s1 s2] "1.prems" by auto
    show ?thesis
    proof (cases "r = 0")
      case True
      with r \<open>l2 \<le> l1\<close> "1.prems" show ?thesis
        by (subst strstr_loop.simps) (auto simp: occurs_at_def)
    next
      case False
      have n0: "\<not> occurs_at s1 l1 s2 l2 0" using r False by (simp add: occurs_at_def)
      have sh: "occurs_at s1 l1 s2 l2 (Suc p) \<longleftrightarrow> occurs_at (tl s1) (l1 - 1) s2 l2 p" for p
        using \<open>l2 \<le> l1\<close> "1.prems" by (auto simp: occurs_at_def drop_Suc)
      have eq: "strstr_loop s1 l1 s2 l2 pos = strstr_loop (tl s1) (l1 - 1) s2 l2 (Suc pos)"
        using r False \<open>l2 \<le> l1\<close> "1.prems" by (subst strstr_loop.simps) simp
      have "case strstr_loop (tl s1) (l1 - 1) s2 l2 (Suc pos) of
         None \<Rightarrow> False
       | Some None \<Rightarrow> \<forall>p. \<not> occurs_at (tl s1) (l1 - 1) s2 l2 p
       | Some (Some q) \<Rightarrow> \<exists>p. q = Suc pos + p \<and> occurs_at (tl s1) (l1 - 1) s2 l2 p
            \<and> (\<forall>p' < p. \<not> occurs_at (tl s1) (l1 - 1) s2 l2 p')"
        using 1 r False \<open>l2 \<le> l1\<close> by simp
      then show ?thesis
        unfolding eq sh [symmetric] using n0
        by (auto split: option.splits simp: not0_implies_Suc)
           (metis not0_implies_Suc, metis add_Suc_right less_Suc_eq_0_disj)
    qed
  qed
qed

section \<open>Find first set finds the lowest bit\<close>

definition lsb_is :: "u32 \<Rightarrow> nat \<Rightarrow> bool" where
  "lsb_is v k \<longleftrightarrow> bit v k \<and> (\<forall>j < k. \<not> bit v j)"

lemma nth_concat_rows:
  assumes "\<And>h. length (f h) = n"
  shows "q < length hs \<Longrightarrow> r < n \<Longrightarrow> concat (map f hs) ! (n * q + r) = f (hs ! q) ! r"
proof (induction hs arbitrary: q)
  case (Cons h hs)
  then show ?case by (cases q) (auto simp: nth_append assms algebra_simps)
qed simp

lemma lowest_bit_row_check:
  "list_all (\<lambda>r. lowest_bit_row ! r < 4 \<and> bit r (lowest_bit_row ! r)
      \<and> list_all (\<lambda>j. \<not> bit r j) [0..<lowest_bit_row ! r]
      \<and> lowest_bit_heads ! r = lowest_bit_row ! r + 4) [1..<16]"
  by code_simp

lemma lowest_bit_row_ok:
  assumes "0 < r" "r < 16"
  shows "lowest_bit_row ! r < 4 \<and> bit r (lowest_bit_row ! r) \<and> (\<forall>j < lowest_bit_row ! r. \<not> bit r j)
    \<and> lowest_bit_heads ! r = lowest_bit_row ! r + 4"
  using lowest_bit_row_check assms by (auto simp: list_all_iff)

lemma lowest_bit_bitmap_lsb:
  assumes "0 < n" "n < 256"
  shows "bit n (lowest_bit_bitmap ! n) \<and> lowest_bit_bitmap ! n < 8 \<and> (\<forall>j < lowest_bit_bitmap ! n. \<not> bit n j)"
proof -
  define q r where "q = n div 16" and "r = n mod 16"
  have n: "n = 16 * q + r" "q < 16" "r < 16" using assms by (auto simp: q_def r_def)
  have q: "q = drop_bit 4 n" and r: "r = take_bit 4 n"
    by (simp_all add: q_def r_def drop_bit_eq_div take_bit_eq_mod)
  have b: "bit n j = (if j < 4 then bit r j else bit q (j - 4))" for j
    by (simp add: q r bit_simps)
  have t: "lowest_bit_bitmap ! n = (lowest_bit_heads ! q # tl lowest_bit_row) ! r"
    unfolding lowest_bit_bitmap_def n(1)
    by (rule nth_concat_rows) (use n in \<open>simp_all add: lowest_bit_row_def lowest_bit_heads_def\<close>)
  show ?thesis
  proof (cases "r = 0")
    case True
    then have "0 < q" using assms n by simp
    note row = lowest_bit_row_ok [OF this n(2)]
    then have "lowest_bit_bitmap ! n = lowest_bit_row ! q + 4"
      unfolding t True by simp
    with True row show ?thesis
      by (auto simp: b)
  next
    case False
    then have "lowest_bit_bitmap ! n = lowest_bit_row ! r"
      unfolding t by (cases r) (auto simp: lowest_bit_row_def)
    with lowest_bit_row_ok [of r] False n(3) show ?thesis
      by (auto simp: b)
  qed
qed

lemmas lowest_bit_bitmap_facts = lowest_bit_bitmap_lsb [THEN conjunct1]
  lowest_bit_bitmap_lsb [THEN conjunct2, THEN conjunct1]
  lowest_bit_bitmap_lsb [THEN conjunct2, THEN conjunct2, rule_format]

lemma byte_lsb:
  fixes v :: u32 and k :: nat
  defines "n \<equiv> unat (take_bit 8 (drop_bit k v))"
  assumes "n \<noteq> 0" and low: "\<And>j. j < k \<Longrightarrow> \<not> bit v j"
  shows "lsb_is v (lowest_bit_bitmap ! n + k)"
proof -
  have n: "0 < n" "n < 256"
    using assms(2) take_bit_nat_less_exp [of 8 "unat (drop_bit k v)"]
    by (simp_all only: n_def unsigned_take_bit_eq) simp_all
  have b: "bit n j \<longleftrightarrow> j < 8 \<and> bit v (j + k)" for j
    by (auto simp: n_def bit_simps unsigned_take_bit_eq add.commute dest: bit_imp_le_length)
  show ?thesis
    unfolding lsb_is_def
  proof (intro conjI allI impI)
    show "bit v (lowest_bit_bitmap ! n + k)" using lowest_bit_bitmap_facts(1) [OF n] b by blast
  next
    fix j assume j: "j < lowest_bit_bitmap ! n + k"
    show "\<not> bit v j"
    proof (cases "j < k")
      case False
      then have "j - k < lowest_bit_bitmap ! n" using j by linarith
      then show ?thesis
        using lowest_bit_bitmap_facts(2,3) [OF n] b [of "j - k"] False by auto
    qed (rule low)
  qed
qed

lemma masks_u32:
  "v AND 0xff = take_bit 8 (drop_bit 0 (v :: u32))"
  "drop_bit 8 (v AND 0xff00) = take_bit 8 (drop_bit 8 (v :: u32))"
  "drop_bit 16 (v AND 0xff0000) = take_bit 8 (drop_bit 16 (v :: u32))"
  "drop_bit 24 (v AND 0xff000000) = take_bit 8 (drop_bit 24 (v :: u32))"
proof -
  have m: "(0xff :: u32) = mask 8" "(0xff00 :: u32) = push_bit 8 (mask 8)"
    "(0xff0000 :: u32) = push_bit 16 (mask 8)" "(0xff000000 :: u32) = push_bit 24 (mask 8)"
    by (simp_all add: mask_eq_exp_minus_1)
  show "v AND 0xff = take_bit 8 (drop_bit 0 v)"
    "drop_bit 8 (v AND 0xff00) = take_bit 8 (drop_bit 8 v)"
    "drop_bit 16 (v AND 0xff0000) = take_bit 8 (drop_bit 16 v)"
    "drop_bit 24 (v AND 0xff000000) = take_bit 8 (drop_bit 24 v)"
    unfolding m by (rule bit_word_eqI; auto simp: bit_simps)+
qed

lemma and_byte_zero:
  "v AND 0xff00 = 0 \<longleftrightarrow> take_bit 8 (drop_bit 8 (v :: u32)) = 0"
  "v AND 0xff0000 = 0 \<longleftrightarrow> take_bit 8 (drop_bit 16 (v :: u32)) = 0"
proof -
  have m: "(0xff00 :: u32) = push_bit 8 (mask 8)" "(0xff0000 :: u32) = push_bit 16 (mask 8)"
    by (simp_all add: mask_eq_exp_minus_1)
  have 1: "v AND push_bit k (mask 8) = push_bit k (take_bit 8 (drop_bit k v))" for k
    by (rule bit_word_eqI) (auto simp: bit_simps)
  have 2: "drop_bit k (v AND push_bit k (mask 8)) = take_bit 8 (drop_bit k v)" if "k + 8 \<le> 32" for k
    by (rule bit_word_eqI) (use that in \<open>auto simp: bit_simps dest: bit_imp_le_length\<close>)
  have 3: "v AND push_bit k (mask 8) = 0 \<longleftrightarrow> take_bit 8 (drop_bit k v) = 0" if "k + 8 \<le> 32" for k
    using 1 [of k] 2 [OF that] by (metis drop_bit_of_0 push_bit_of_0)
  show "v AND 0xff00 = 0 \<longleftrightarrow> take_bit 8 (drop_bit 8 v) = 0"
    "v AND 0xff0000 = 0 \<longleftrightarrow> take_bit 8 (drop_bit 16 v) = 0" unfolding m by (rule 3; simp)+
qed

lemma byte_zero_bits:
  "take_bit 8 (drop_bit k (v :: u32)) = 0 \<longleftrightarrow> (\<forall>j. k \<le> j \<and> j < k + 8 \<longrightarrow> \<not> bit v j)"
proof
  assume z: "take_bit 8 (drop_bit k v) = 0"
  show "\<forall>j. k \<le> j \<and> j < k + 8 \<longrightarrow> \<not> bit v j"
  proof (intro allI impI)
    fix j assume "k \<le> j \<and> j < k + 8"
    moreover have "\<not> bit (take_bit 8 (drop_bit k v)) (j - k)" by (simp only: z) simp
    ultimately show "\<not> bit v j" by (auto simp: bit_simps)
  qed
qed (auto intro!: bit_word_eqI simp: bit_simps)

lemma rt_ffs_bytes:
  "rt_ffs v =
    (if v = 0 then 0
     else if take_bit 8 (drop_bit 0 v) \<noteq> 0 then lowest_bit_bitmap ! unat (take_bit 8 (drop_bit 0 v)) + 1
     else if take_bit 8 (drop_bit 8 v) \<noteq> 0 then lowest_bit_bitmap ! unat (take_bit 8 (drop_bit 8 v)) + 9
     else if take_bit 8 (drop_bit 16 v) \<noteq> 0 then lowest_bit_bitmap ! unat (take_bit 8 (drop_bit 16 v)) + 17
     else lowest_bit_bitmap ! unat (take_bit 8 (drop_bit 24 v)) + 25)"
  unfolding rt_ffs_def masks_u32 and_byte_zero ..

lemma rt_ffs_lsb:
  assumes "v \<noteq> 0"
  shows "\<exists>k. rt_ffs v = Suc k \<and> lsb_is v k"
proof -
  let ?b = "\<lambda>k. take_bit 8 (drop_bit k v)"
  have u: "unat (?b k) = 0 \<longleftrightarrow> ?b k = 0" for k by (rule unsigned_eq_0_iff)
  consider (a) "?b 0 \<noteq> 0" | (b) "?b 0 = 0" "?b 8 \<noteq> 0" | (c) "?b 0 = 0" "?b 8 = 0" "?b 16 \<noteq> 0"
    | (d) "?b 0 = 0" "?b 8 = 0" "?b 16 = 0" by blast
  then show ?thesis
  proof cases
    case a
    then have "lsb_is v (lowest_bit_bitmap ! unat (?b 0) + 0)" by (intro byte_lsb) (use a u [of 0] in blast)+
    with a assms show ?thesis by (auto simp: rt_ffs_def masks_u32)
  next
    case b
    have "lsb_is v (lowest_bit_bitmap ! unat (?b 8) + 8)"
    proof (rule byte_lsb)
      show "unat (?b 8) \<noteq> 0" using b(2) u by blast
      show "j < 8 \<Longrightarrow> \<not> bit v j" for j using b(1) unfolding byte_zero_bits by simp
    qed
    with b assms show ?thesis by (auto simp: rt_ffs_bytes add.commute)
  next
    case c
    have "lsb_is v (lowest_bit_bitmap ! unat (?b 16) + 16)"
    proof (rule byte_lsb)
      show "unat (?b 16) \<noteq> 0" using c(3) u by blast
      show "j < 16 \<Longrightarrow> \<not> bit v j" for j
        using c(1,2) unfolding byte_zero_bits by (cases "j < 8") simp_all
    qed
    with c assms show ?thesis by (auto simp: rt_ffs_bytes add.commute)
  next
    case d
    then have low: "\<not> bit v j" if "j < 24" for j
      using that d unfolding byte_zero_bits by (cases "j < 8"; cases "j < 16") simp_all
    have "?b 24 \<noteq> 0"
    proof
      assume "?b 24 = 0"
      then have "\<not> bit v j" for j
        using low [of j] bit_imp_le_length [of v j] unfolding byte_zero_bits by (cases "j < 24") auto
      then have "v = 0" by (auto intro: bit_word_eqI)
      with assms show False by simp
    qed
    have "lsb_is v (lowest_bit_bitmap ! unat (?b 24) + 24)"
    proof (rule byte_lsb)
      show "unat (?b 24) \<noteq> 0" using \<open>?b 24 \<noteq> 0\<close> u by blast
    qed (rule low)
    with d assms show ?thesis by (auto simp: rt_ffs_bytes add.commute)
  qed
qed

section \<open>Properties\<close>

text \<open>C40: the memory primitives: \<open>rt_memmove\<close> moves the block as if through a temporary, for
  every overlap of the two ranges; the word-wise \<open>rt_memcpy\<close> does the same when the ranges are
  disjoint or the destination is not above the source; the word-wise \<open>rt_memset\<close> fills exactly
  the range with the low byte of its argument, for every alignment and length.\<close>

theorem memory_primitives:
  "rt_memmove d s n m = (\<lambda>x. if d \<le> x \<and> x < d + n then m (s + (x - d)) else m x)
   \<and> (d \<le> s \<or> s + n \<le> d \<longrightarrow> rt_memcpy d s n m = rt_memmove d s n m)
   \<and> rt_memset s c n m = (\<lambda>x. if s \<le> x \<and> x < s + n then ucast c else m x)"
  using rt_memmove_move [of d s n m] rt_memcpy_move [of d s n m] rt_memset_fill [of s c n m]
  by (simp add: mem_move_def mem_fill_def)

theorem memory_primitives_witness:
  "rt_memcpy 0 2 20 (\<lambda>x. word_of_nat x) = rt_memmove 0 2 20 (\<lambda>x. word_of_nat x)"
  using memory_primitives [of 0 2 20 "\<lambda>x. word_of_nat x"] by simp

text \<open>\<open>rt_strncpy\<close> writes exactly \<open>n\<close> bytes: the string cut to \<open>n\<close> and padded with
  NUL bytes, and leaves the rest of the destination; \<open>rt_strcmp\<close> and \<open>rt_strncmp\<close> return
  zero exactly for strings that agree (on their first \<open>n\<close> characters); none of them reads past
  the terminators.\<close>

theorem string_functions:
  assumes s: "c_string l s" and t: "c_string k t" and n: "n \<le> length d"
  shows "rt_strncpy d s n = Some (take n (take l s @ replicate n 0) @ drop n d)
    \<and> (\<exists>r. rt_strcmp s t = Some r \<and> (r = 0 \<longleftrightarrow> take l s = take k t))
    \<and> (\<exists>r. rt_strncmp s t j = Some r \<and> (r = 0 \<longleftrightarrow> take j (take l s) = take j (take k t)))"
  using rt_strncpy_eq [OF s n] rt_strcmp_zero [OF s t] rt_strncmp_zero [OF s t] by blast

theorem string_functions_witness:
  "rt_strncpy [9, 9, 9, 9] [65, 0, 77] 3 = Some [65, 0, 0, 9]"
proof -
  have s: "c_string 1 [65, 0, 77 :: u8]" "c_string 2 [65, 66, 0 :: u8]"
    unfolding rt_strlen_iff [symmetric] by simp_all
  have "take 3 (take 1 [65, 0, 77 :: u8] @ replicate 3 0) @ drop 3 [9, 9, 9, 9] = [65, 0, 0, 9]"
    by code_simp
  with string_functions [OF s, of 3 "[9, 9, 9, 9]" 0] show ?thesis by simp
qed

text \<open>\<open>rt_strstr\<close> returns the first occurrence of a non-empty needle, or no position when
  there is none, and never reads outside the two strings.\<close>

theorem rt_strstr_first:
  assumes "c_string l1 s1" and "c_string l2 s2"
  shows "case rt_strstr s1 s2 of
      None \<Rightarrow> False
    | Some None \<Rightarrow> 0 < l2 \<and> (\<forall>p. \<not> occurs_at s1 l1 s2 l2 p)
    | Some (Some p) \<Rightarrow> occurs_at s1 l1 s2 l2 p \<and> (\<forall>p' < p. \<not> occurs_at s1 l1 s2 l2 p')"
proof (cases "l2 = 0")
  case True
  then show ?thesis
    using assms rt_strlen_iff [of s2 l2] by (simp add: rt_strstr_def occurs_at_def)
next
  case False
  have "rt_strlen s1 = Some l1" "rt_strlen s2 = Some l2" "l1 \<le> length s1" "l2 \<le> length s2"
    using assms rt_strlen_iff [of s1 l1] rt_strlen_iff [of s2 l2] by (auto simp: c_string_def)
  with False strstr_loop_correct [of l2 l1 s1 s2 0] show ?thesis
    by (simp add: rt_strstr_def split: option.splits)
qed

theorem rt_strstr_first_witness:
  "rt_strstr [1, 2, 1, 2, 3, 0] [1, 2, 3, 0] = Some (Some 2)"
proof -
  have s: "c_string 5 [1, 2, 1, 2, 3, 0 :: u8]" "c_string 3 [1, 2, 3, 0 :: u8]"
    unfolding rt_strlen_iff [symmetric] by simp_all
  have "rt_strstr [1, 2, 1, 2, 3, 0] [1, 2, 3, 0] = Some (Some 2)" by code_simp
  with rt_strstr_first [OF s] show ?thesis by simp
qed

text \<open>The table-driven \<open>__rt_ffs\<close> computes find-first-set: 0 for 0, and otherwise one more
  than the position of the least significant set bit, which is what the builtin of the configured
  port returns.\<close>

theorem rt_ffs_correct:
  "(rt_ffs v = 0 \<longleftrightarrow> v = 0)
    \<and> (v \<noteq> 0 \<longrightarrow> bit v (rt_ffs v - 1) \<and> (\<forall>j < rt_ffs v - 1. \<not> bit v j))"
  using rt_ffs_lsb [of v] by (auto simp: lsb_is_def rt_ffs_def)

theorem rt_ffs_correct_witness: "rt_ffs 0x00a00000 = 22 \<and> bit (0x00a00000 :: u32) 21"
proof -
  have "rt_ffs 0x00a00000 = 22" by code_simp
  with rt_ffs_correct [of "0x00a00000"] show ?thesis by simp
qed

section \<open>Deviations\<close>

text \<open>\<open>rt_strncmp\<close> truncates the difference to a \<open>signed char\<close>, so its sign can contradict
  \<open>rt_strcmp\<close>; \<open>rt_strnlen\<close> reads the byte behind a full buffer.\<close>

lemma rt_strncmp_sign_wrong:
  "rt_strcmp [200, 0] [10, 0] = Some 190" "rt_strncmp [200, 0] [10, 0] 2 = Some (- 66)"
  by code_simp+

lemma rt_strnlen_reads_past: "rt_strnlen [65, 66] 2 = None"
  by code_simp

end
