(* ===== verification/KPrintf.thy ===== *)
theory KPrintf
  imports Prelude
begin

text \<open>
  The formatted output engine of \<^verbatim>\<open>rt-thread/src/kservice.c\<close>: \<open>print_number\<close> and
  \<open>rt_vsnprintf\<close> with \<open>RT_PRINTF_PRECISION\<close> defined and \<open>RT_PRINTF_LONGLONG\<close>,
  \<open>RT_PRINTF_SPECIAL\<close> undefined, as the file configures itself.

  The output goes to a memory of characters; \<open>str\<close> runs ahead of the buffer and a character is
  stored only while \<open>str < end\<close>. The variable arguments are a list of values; taking an
  argument of the wrong kind, or one too many, is undefined (\<open>None\<close>).
\<close>

section \<open>Numbers\<close>

abbreviation ZEROPAD :: u8 where "ZEROPAD \<equiv> 1"
abbreviation SIGN :: u8 where "SIGN \<equiv> 2"
abbreviation PLUS :: u8 where "PLUS \<equiv> 4"
abbreviation SPACE :: u8 where "SPACE \<equiv> 8"
abbreviation LEFT :: u8 where "LEFT \<equiv> 16"
abbreviation SPECIAL :: u8 where "SPECIAL \<equiv> 32"
abbreviation LARGE :: u8 where "LARGE \<equiv> 64"

abbreviation has :: "u8 \<Rightarrow> u8 \<Rightarrow> bool" where "has fl f \<equiv> fl AND f \<noteq> 0"

type_synonym out = "nat \<times> (nat \<Rightarrow> char)"

text \<open>\<open>if (str < end) *str = c; ++str;\<close>\<close>

definition put :: "nat \<Rightarrow> char \<Rightarrow> out \<Rightarrow> out" where
  "put e c st = (case st of (str, m) \<Rightarrow> (Suc str, if str < e then m(str := c) else m))"

text \<open>\<open>while (size-- > 0) put(c)\<close> with the value of \<open>size\<close> left behind.\<close>

function pad_loop :: "nat \<Rightarrow> char \<Rightarrow> int \<Rightarrow> out \<Rightarrow> int \<times> out" where
  "pad_loop e c sz st = (if sz > 0 then pad_loop e c (sz - 1) (put e c st) else (sz - 1, st))"
  by pat_completeness auto
termination by (relation "measure (\<lambda>(_, _, sz, _). nat sz)") auto

declare pad_loop.simps [simp del]

definition divide :: "u32 \<Rightarrow> int \<Rightarrow> nat \<times> u32" where
  "divide n base = (if base = 10 then (unat (n mod 10), n div 10) else (unat (n mod 16), n div 16))"

definition small_digits :: string where "small_digits = ''0123456789abcdef''"
definition large_digits :: string where "large_digits = ''0123456789ABCDEF''"

text \<open>\<open>while (num != 0) tmp[i++] = digits[divide(&num, base)]\<close>: the digits, lowest first.\<close>

function digits_loop :: "string \<Rightarrow> int \<Rightarrow> u32 \<Rightarrow> string" where
  "digits_loop digits base num =
    (if num \<noteq> 0 then case divide num base of (r, num') \<Rightarrow> digits ! r # digits_loop digits base num' else [])"
  by pat_completeness auto
termination
  by (relation "measure (\<lambda>(_, _, num). unat num)")
    (auto simp: divide_def unat_div unat_gt_0 split: if_splits)

declare digits_loop.simps [simp del]

text \<open>\<open>while (i < precision--) put('0')\<close>.\<close>

function zero_loop :: "nat \<Rightarrow> int \<Rightarrow> int \<Rightarrow> out \<Rightarrow> out" where
  "zero_loop e i precision st =
    (if i < precision then zero_loop e i (precision - 1) (put e (CHR ''0'') st) else st)"
  by pat_completeness auto
termination by (relation "measure (\<lambda>(_, i, p, _). nat (p - i))") auto

declare zero_loop.simps [simp del]

definition print_number :: "nat \<Rightarrow> u32 \<Rightarrow> int \<Rightarrow> int \<Rightarrow> int \<Rightarrow> u8 \<Rightarrow> out \<Rightarrow> out" where
  "print_number e num base s precision type0 st =
    (let digits = (if has type0 LARGE then large_digits else small_digits);
         type = (if has type0 LEFT then type0 AND NOT ZEROPAD else type0);
         c = (if has type ZEROPAD then CHR ''0'' else CHR '' '');
         (sign, num) =
           (if has type SIGN
            then if sint num < 0 then (Some (CHR ''-''), - num)
                 else if has type PLUS then (Some (CHR ''+''), num)
                 else if has type SPACE then (Some (CHR '' ''), num)
                 else (None, num)
            else (None, num));
         tmp = (if num = 0 then ''0'' else digits_loop digits base num);
         i = int (length tmp);
         prec = (if i > precision then i else precision);
         size0 = s - prec;
         (size1, st1) =
           (if \<not> has type (ZEROPAD OR LEFT)
            then pad_loop e (CHR '' '') (if sign \<noteq> None \<and> size0 > 0 then size0 - 1 else size0) st
            else (size0, st));
         (size2, st2) = (case sign of None \<Rightarrow> (size1, st1) | Some sg \<Rightarrow> (size1 - 1, put e sg st1));
         (size3, st3) = (if \<not> has type LEFT then pad_loop e c size2 st2 else (size2, st2));
         st4 = zero_loop e i prec st3;
         st5 = (if precision \<noteq> 0 then fold (put e) (rev tmp) st4 else st4)
     in snd (pad_loop e (CHR '' '') size3 st5))"

section \<open>Format strings\<close>

datatype va = VInt u32 | VPtr u32 | VStr "string option"

definition is_digit :: "char \<Rightarrow> bool" where
  "is_digit c \<longleftrightarrow> 48 \<le> (of_char c :: nat) \<and> (of_char c :: nat) < 58"

fun skip_atoi_loop :: "int \<Rightarrow> string \<Rightarrow> int \<times> string" where
  "skip_atoi_loop i (c # s) =
    (if is_digit c then skip_atoi_loop (i * 10 + of_char c - 48) s else (i, c # s))"
| "skip_atoi_loop i [] = (i, [])"

definition skip_atoi :: "string \<Rightarrow> int \<times> string" where
  "skip_atoi s = skip_atoi_loop 0 s"

text \<open>The flag characters after \<open>%\<close>; the pointer stands on the first character that is none.\<close>

fun parse_flags :: "u8 \<Rightarrow> string \<Rightarrow> u8 \<times> string" where
  "parse_flags fl (c # s) =
    (if c = CHR ''-'' then parse_flags (fl OR LEFT) s
     else if c = CHR ''+'' then parse_flags (fl OR PLUS) s
     else if c = CHR '' '' then parse_flags (fl OR SPACE) s
     else if c = CHR ''#'' then parse_flags (fl OR SPECIAL) s
     else if c = CHR ''0'' then parse_flags (fl OR ZEROPAD) s
     else (fl, c # s))"
| "parse_flags fl [] = (fl, [])"

definition starts :: "(char \<Rightarrow> bool) \<Rightarrow> string \<Rightarrow> bool" where
  "starts P s = (case s of [] \<Rightarrow> False | c # _ \<Rightarrow> P c)"

definition parse_width :: "u8 \<Rightarrow> string \<Rightarrow> va list \<Rightarrow> (int \<times> u8 \<times> string \<times> va list) option" where
  "parse_width fl s args =
    (if starts is_digit s then (case skip_atoi s of (w, s') \<Rightarrow> Some (w, fl, s', args))
     else if starts (\<lambda>c. c = CHR ''*'') s
     then (case args of
             VInt v # args' \<Rightarrow>
               (if sint v < 0 then Some (- sint v, fl OR LEFT, tl s, args')
                else Some (sint v, fl, tl s, args'))
           | _ \<Rightarrow> None)
     else Some (-1, fl, s, args))"

definition parse_precision :: "string \<Rightarrow> va list \<Rightarrow> (int \<times> string \<times> va list) option" where
  "parse_precision s args =
    (if starts (\<lambda>c. c = CHR ''.'') s
     then let s1 = tl s in
       if starts is_digit s1 then (case skip_atoi s1 of (p, s') \<Rightarrow> Some (if p < 0 then 0 else p, s', args))
       else if starts (\<lambda>c. c = CHR ''*'') s1
       then (case args of
               VInt v # args' \<Rightarrow> Some (if sint v < 0 then 0 else sint v, tl s1, args')
             | _ \<Rightarrow> None)
       else Some (0, s1, args)
     else Some (-1, s, args))"

definition parse_qualifier :: "string \<Rightarrow> char option \<times> string" where
  "parse_qualifier s =
    (case s of
       [] \<Rightarrow> (None, [])
     | c # s' \<Rightarrow> if c = CHR ''h'' \<or> c = CHR ''l'' then (Some c, s') else (None, c # s'))"

section \<open>Conversions\<close>

text \<open>\<open>while (--field_width > 0) put(' ')\<close>.\<close>

function prepad_loop :: "nat \<Rightarrow> int \<Rightarrow> out \<Rightarrow> int \<times> out" where
  "prepad_loop e w st =
    (let w' = w - 1 in if w' > 0 then prepad_loop e w' (put e (CHR '' '') st) else (w', st))"
  by pat_completeness auto
termination by (relation "measure (\<lambda>(_, w, _). nat w)") auto

declare prepad_loop.simps [simp del]

text \<open>\<open>while (len < field_width--) put(' ')\<close>.\<close>

function width_loop :: "nat \<Rightarrow> int \<Rightarrow> int \<Rightarrow> out \<Rightarrow> int \<times> out" where
  "width_loop e len w st =
    (if len < w then width_loop e len (w - 1) (put e (CHR '' '') st) else (w - 1, st))"
  by pat_completeness auto
termination by (relation "measure (\<lambda>(_, len, w, _). nat (w - len))") auto

declare width_loop.simps [simp del]

text \<open>\<open>for (len = 0; (len != field_width) && (s[len] != 0); len++)\<close>.\<close>

fun scan_len :: "int \<Rightarrow> int \<Rightarrow> string \<Rightarrow> int" where
  "scan_len w len [] = len"
| "scan_len w len (c # s) = (if len \<noteq> w \<and> c \<noteq> CHR 0x00 then scan_len w (len + 1) s else len)"

definition conv_char :: "nat \<Rightarrow> u8 \<Rightarrow> int \<Rightarrow> u32 \<Rightarrow> out \<Rightarrow> out" where
  "conv_char e fl w v st =
    (let (w1, st1) = (if \<not> has fl LEFT then prepad_loop e w st else (w, st));
         st2 = put e (char_of (unat (ucast v :: u8))) st1
     in snd (prepad_loop e w1 st2))"

definition conv_string :: "nat \<Rightarrow> u8 \<Rightarrow> int \<Rightarrow> int \<Rightarrow> string option \<Rightarrow> out \<Rightarrow> out" where
  "conv_string e fl w precision so st =
    (let s = (case so of None \<Rightarrow> ''(NULL)'' | Some s \<Rightarrow> s);
         len0 = scan_len w 0 s;
         len = (if precision > 0 \<and> len0 > precision then precision else len0);
         (w1, st1) = (if \<not> has fl LEFT then width_loop e len w st else (w, st));
         st2 = fold (put e) (take (nat len) s) st1
     in snd (width_loop e len w1 st2))"

definition num_value :: "u8 \<Rightarrow> char option \<Rightarrow> u32 \<Rightarrow> u32" where
  "num_value fl q v =
    (if q = Some (CHR ''h'')
     then if has fl SIGN then scast (ucast v :: u16) else ucast (ucast v :: u16)
     else v)"

text \<open>The \<open>switch (*fmt)\<close> and what follows it: the new output, the rest of the format and of the
  arguments.\<close>

definition conversion ::
  "nat \<Rightarrow> u8 \<Rightarrow> int \<Rightarrow> int \<Rightarrow> char option \<Rightarrow> string \<Rightarrow> va list \<Rightarrow> out
    \<Rightarrow> (out \<times> string \<times> va list) option" where
  "conversion e fl w precision q s args st =
    (case s of
       [] \<Rightarrow> Some (put e (CHR ''%'') st, [], args)
     | c # s' \<Rightarrow>
       let number = (\<lambda>base fl.
             case args of
               VInt v # args' \<Rightarrow>
                 Some (print_number e (num_value fl q v) base w precision fl st, s', args')
             | _ \<Rightarrow> None)
       in
       if c = CHR ''c''
       then (case args of VInt v # args' \<Rightarrow> Some (conv_char e fl w v st, s', args') | _ \<Rightarrow> None)
       else if c = CHR ''s''
       then (case args of VStr so # args' \<Rightarrow> Some (conv_string e fl w precision so st, s', args') | _ \<Rightarrow> None)
       else if c = CHR ''p''
       then (case args of
               VPtr v # args' \<Rightarrow>
                 (if w = -1 then Some (print_number e v 16 8 precision (fl OR ZEROPAD) st, s', args')
                  else Some (print_number e v 16 w precision fl st, s', args'))
             | _ \<Rightarrow> None)
       else if c = CHR ''%'' then Some (put e (CHR ''%'') st, s', args)
       else if c = CHR ''o'' then number 8 fl
       else if c = CHR ''X'' then number 16 (fl OR LARGE)
       else if c = CHR ''x'' then number 16 fl
       else if c = CHR ''d'' \<or> c = CHR ''i'' then number 10 (fl OR SIGN)
       else if c = CHR ''u'' then number 10 fl
       else Some (put e c (put e (CHR ''%'') st), s', args))"

definition directive ::
  "nat \<Rightarrow> string \<Rightarrow> va list \<Rightarrow> out \<Rightarrow> (out \<times> string \<times> va list) option" where
  "directive e s args st =
    (case parse_flags 0 s of (fl0, s0) \<Rightarrow>
     case parse_width fl0 s0 args of None \<Rightarrow> None | Some (w, fl, s1, args1) \<Rightarrow>
     case parse_precision s1 args1 of None \<Rightarrow> None | Some (precision, s2, args2) \<Rightarrow>
     case parse_qualifier s2 of (q, s3) \<Rightarrow> conversion e fl w precision q s3 args2 st)"

lemma parse_flags_length: "parse_flags fl s = (fl', s') \<Longrightarrow> length s' \<le> length s"
  by (induction fl s rule: parse_flags.induct) (auto split: if_splits)

lemma skip_atoi_loop_length: "skip_atoi_loop i s = (j, s') \<Longrightarrow> length s' \<le> length s"
  by (induction i s rule: skip_atoi_loop.induct) (auto split: if_splits)

lemma parse_width_length: "parse_width fl s args = Some (w, fl', s', args') \<Longrightarrow> length s' \<le> length s"
  by (auto simp: parse_width_def skip_atoi_def split: if_splits list.splits va.splits prod.splits
      dest: skip_atoi_loop_length)

lemma parse_precision_length: "parse_precision s args = Some (p, s', args') \<Longrightarrow> length s' \<le> length s"
  by (fastforce simp: parse_precision_def skip_atoi_def Let_def split: if_splits list.splits va.splits prod.splits
      dest: skip_atoi_loop_length)

lemma parse_qualifier_length: "parse_qualifier s = (q, s') \<Longrightarrow> length s' \<le> length s"
  by (auto simp: parse_qualifier_def split: if_splits list.splits)

lemma conversion_length: "conversion e fl w p q s args st = Some (st', s', args') \<Longrightarrow> length s' \<le> length s"
  by (auto simp: conversion_def Let_def split: if_splits list.splits va.splits)

lemma directive_length: "directive e s args st = Some (st', s', args') \<Longrightarrow> length s' \<le> length s"
  by (fastforce simp: directive_def split: prod.splits option.splits
      dest: parse_flags_length parse_width_length parse_precision_length parse_qualifier_length
        conversion_length)

function format_loop :: "nat \<Rightarrow> string \<Rightarrow> va list \<Rightarrow> out \<Rightarrow> out option" where
  "format_loop e [] args st = Some st"
| "format_loop e (c # s) args st =
    (if c \<noteq> CHR ''%'' then format_loop e s args (put e c st)
     else case directive e s args st of
            None \<Rightarrow> None
          | Some (st', s', args') \<Rightarrow> format_loop e s' args' st')"
  by pat_completeness auto
termination
  by (relation "measure (\<lambda>(_, s, _, _). length s)") (auto intro: le_imp_less_Suc dest: directive_length)

definition rt_vsnprintf ::
  "nat \<Rightarrow> nat \<Rightarrow> string \<Rightarrow> va list \<Rightarrow> (nat \<Rightarrow> char) \<Rightarrow> (nat \<times> (nat \<Rightarrow> char)) option" where
  "rt_vsnprintf buf sz fmt args m =
    (let (e, sz) = (if buf + sz < 2 ^ 32 then (buf + sz, sz) else (2 ^ 32 - 1, 2 ^ 32 - 1 - buf))
     in case format_loop e fmt args (buf, m) of
          None \<Rightarrow> None
        | Some (str, m1) \<Rightarrow>
            Some (str - buf,
              if 0 < sz then if str < e then m1(str := CHR 0x00) else m1(e - 1 := CHR 0x00) else m1))"

definition rt_snprintf ::
  "nat \<Rightarrow> nat \<Rightarrow> string \<Rightarrow> va list \<Rightarrow> (nat \<Rightarrow> char) \<Rightarrow> (nat \<times> (nat \<Rightarrow> char)) option" where
  "rt_snprintf buf sz fmt args m = rt_vsnprintf buf sz fmt args m"

definition rt_vsprintf ::
  "nat \<Rightarrow> string \<Rightarrow> va list \<Rightarrow> (nat \<Rightarrow> char) \<Rightarrow> (nat \<times> (nat \<Rightarrow> char)) option" where
  "rt_vsprintf buf fmt args m = rt_vsnprintf buf (2 ^ 32 - 1) fmt args m"

definition rt_sprintf ::
  "nat \<Rightarrow> string \<Rightarrow> va list \<Rightarrow> (nat \<Rightarrow> char) \<Rightarrow> (nat \<times> (nat \<Rightarrow> char)) option" where
  "rt_sprintf buf fmt args m = rt_vsprintf buf fmt args m"

section \<open>Everything written goes through \<open>put\<close>\<close>

lemma fold_put:
  "fold (put e) xs (p, m) =
    (p + length xs, \<lambda>x. if p \<le> x \<and> x < p + length xs \<and> x < e then xs ! (x - p) else m x)"
  by (induction xs arbitrary: p m) (auto simp: put_def fun_eq_iff nth_Cons' Suc_diff_Suc not_less_eq_eq le_Suc_eq)

lemma pad_loop_eq:
  "pad_loop e c sz st = ((if sz > 0 then -1 else sz - 1), fold (put e) (replicate (nat sz) c) st)"
proof (induction e c sz st rule: pad_loop.induct)
  case (1 e c sz st)
  show ?case
  proof (cases "sz > 0")
    case True
    then have "nat sz = Suc (nat (sz - 1))" by simp
    with True 1 show ?thesis by (subst pad_loop.simps) simp
  next
    case False
    then show ?thesis by (subst pad_loop.simps) simp
  qed
qed

lemma zero_loop_eq: "zero_loop e i p st = fold (put e) (replicate (nat (p - i)) (CHR ''0'')) st"
proof (induction e i p st rule: zero_loop.induct)
  case (1 e i p st)
  show ?case
  proof (cases "i < p")
    case True
    then have "nat (p - i) = Suc (nat (p - 1 - i))" by simp
    with True 1 show ?thesis by (subst zero_loop.simps) simp
  next
    case False
    then show ?thesis by (subst zero_loop.simps) simp
  qed
qed

lemma prepad_loop_eq:
  "prepad_loop e w st = ((if w > 0 then 0 else w - 1), fold (put e) (replicate (nat (w - 1)) (CHR '' '')) st)"
proof (induction e w st rule: prepad_loop.induct)
  case (1 e w st)
  show ?case
  proof (cases "w - 1 > 0")
    case True
    then have "nat (w - 1) = Suc (nat (w - 1 - 1))" by simp
    with True 1 show ?thesis by (subst prepad_loop.simps) (simp add: Let_def)
  next
    case False
    then show ?thesis by (subst prepad_loop.simps) (simp add: Let_def)
  qed
qed

lemma width_loop_eq:
  "width_loop e len w st = ((if len < w then len - 1 else w - 1), fold (put e) (replicate (nat (w - len)) (CHR '' '')) st)"
proof (induction e len w st rule: width_loop.induct)
  case (1 e len w st)
  show ?case
  proof (cases "len < w")
    case True
    then have "nat (w - len) = Suc (nat (w - 1 - len))" by simp
    with True 1 show ?thesis by (subst width_loop.simps) simp
  next
    case False
    then show ?thesis by (subst width_loop.simps) simp
  qed
qed

lemmas loop_eqs = pad_loop_eq zero_loop_eq prepad_loop_eq width_loop_eq

text \<open>\<open>writes F xs\<close>: whatever the end of the buffer and the output so far, \<open>F\<close> appends \<open>xs\<close>.\<close>

definition writes :: "(nat \<Rightarrow> out \<Rightarrow> out) \<Rightarrow> string \<Rightarrow> bool" where
  "writes F xs \<longleftrightarrow> (\<forall>e st. F e st = fold (put e) xs st)"


definition number_sign :: "u32 \<Rightarrow> u8 \<Rightarrow> char option" where
  "number_sign num fl =
    (if has fl SIGN
     then if sint num < 0 then Some (CHR ''-'') else if has fl PLUS then Some (CHR ''+'')
          else if has fl SPACE then Some (CHR '' '') else None
     else None)"

definition number_digits :: "u32 \<Rightarrow> int \<Rightarrow> u8 \<Rightarrow> string" where
  "number_digits num base fl =
    (let n = (if has fl SIGN \<and> sint num < 0 then - num else num)
     in if n = 0 then ''0''
        else rev (digits_loop (if has fl LARGE then large_digits else small_digits) base n))"

definition opt_list :: "'a option \<Rightarrow> 'a list" where
  "opt_list x = (case x of None \<Rightarrow> [] | Some a \<Rightarrow> [a])"

text \<open>The text of a number: sign, zeros and digits, padded to the width on the left with spaces
  or zeros, or on the right with spaces.\<close>

definition number_text :: "u32 \<Rightarrow> int \<Rightarrow> int \<Rightarrow> int \<Rightarrow> u8 \<Rightarrow> string" where
  "number_text num base s precision fl =
    (let sg = opt_list (number_sign num fl); ds = number_digits num base fl;
         prec = max (int (length ds)) precision;
         pad = nat (s - prec - int (length sg));
         body = replicate (nat (prec - int (length ds))) (CHR ''0'') @ (if precision \<noteq> 0 then ds else [])
     in if has fl LEFT then sg @ body @ replicate pad (CHR '' '')
        else if has fl ZEROPAD then sg @ replicate pad (CHR ''0'') @ body
        else replicate pad (CHR '' '') @ sg @ body)"

lemma has_clear_zeropad:
  "has (fl AND NOT ZEROPAD) SIGN = has fl SIGN" "has (fl AND NOT ZEROPAD) PLUS = has fl PLUS"
  "has (fl AND NOT ZEROPAD) SPACE = has fl SPACE" "has (fl AND NOT ZEROPAD) LEFT = has fl LEFT"
  "has (fl AND NOT ZEROPAD) ZEROPAD = False"
  by (simp_all add: and.assoc)

lemma has_or: "has fl (a OR b) \<longleftrightarrow> has fl a \<or> has fl b"
  by (simp add: bit.conj_disj_distrib or_eq_0_iff)

lemma sign_num_eq:
  "(if has fl SIGN
    then if sint num < 0 then (Some (CHR ''-''), - num)
         else if has fl PLUS then (Some (CHR ''+''), num)
         else if has fl SPACE then (Some (CHR '' ''), num) else (None, num)
    else (None, num))
   = (number_sign num fl, if has fl SIGN \<and> sint num < 0 then - num else num)"
  by (simp add: number_sign_def)

lemma print_number_text: "print_number e num base s p fl st = fold (put e) (number_text num base s p fl) st"
proof -
  define fl' where "fl' = (if has fl LEFT then fl AND NOT ZEROPAD else fl)"
  have h: "has fl' SIGN = has fl SIGN" "has fl' PLUS = has fl PLUS" "has fl' SPACE = has fl SPACE"
    "has fl' LEFT = has fl LEFT" "has fl' ZEROPAD = (has fl ZEROPAD \<and> \<not> has fl LEFT)"
    "has fl' (ZEROPAD OR LEFT) = (has fl ZEROPAD \<or> has fl LEFT)"
    unfolding has_or unfolding fl'_def
    by (cases "has fl LEFT"; simp only: has_clear_zeropad if_True if_False simp_thms; blast)+
  have sg: "number_sign num fl' = number_sign num fl"
    unfolding number_sign_def h ..
  define ds where "ds = number_digits num base fl"
  define n where "n = (if has fl SIGN \<and> sint num < 0 then - num else num)"
  have tmp: "(if n = 0 then ''0'' else digits_loop (if has fl LARGE then large_digits else small_digits) base n)
      = rev ds"
    by (simp add: ds_def number_digits_def Let_def n_def)
  have len: "length (rev ds) = length ds" by simp
  define M where "M = max (int (length ds)) p"
  have mx: "(if p < int (length ds) then int (length ds) else p) = M" by (auto simp: M_def)
  show ?thesis
    unfolding print_number_def Let_def fl'_def [symmetric] sign_num_eq h sg prod.case n_def [symmetric] tmp
      loop_eqs len mx number_text_def ds_def [symmetric] M_def [symmetric]
    by (cases "number_sign num fl"; cases "has fl LEFT"; cases "has fl ZEROPAD")
      (simp_all add: opt_list_def)
qed


text \<open>\<open>textual F\<close>: \<open>F\<close> appends a text and returns a value, or is undefined, and neither depends
  on the output so far nor on the end of the buffer.\<close>

definition textual :: "(nat \<Rightarrow> out \<Rightarrow> (out \<times> 'a) option) \<Rightarrow> bool" where
  "textual F \<longleftrightarrow> (\<exists>r. \<forall>e st. F e st = map_option (\<lambda>(xs, y). (fold (put e) xs st, y)) r)"

lemma textualI: "(\<And>e st. F e st = Some (fold (put e) xs st, y)) \<Longrightarrow> textual F"
  unfolding textual_def by (rule exI [of _ "Some (xs, y)"]) simp

lemma textual_None [intro]: "textual (\<lambda>e st. None)"
  unfolding textual_def by (rule exI [of _ None]) simp

lemma conv_char_text: "\<exists>xs. \<forall>e st. conv_char e fl w v st = fold (put e) xs st"
proof -
  define c :: char where "c = char_of (unat (ucast v :: u8))"
  have "conv_char e fl w v st = fold (put e) ((if \<not> has fl LEFT then replicate (nat (w - 1)) (CHR '' '') else [])
     @ [c] @ replicate (nat ((if \<not> has fl LEFT then (if w > 0 then 0 else w - 1) else w) - 1)) (CHR '' '')) st" for e st
    by (simp add: conv_char_def loop_eqs Let_def c_def)
  then show ?thesis by blast
qed

lemma conv_string_text: "\<exists>xs. \<forall>e st. conv_string e fl w p so st = fold (put e) xs st"
proof -
  define s where "s = (case so of None \<Rightarrow> ''(NULL)'' | Some s \<Rightarrow> s)"
  define l where "l = (if p > 0 \<and> scan_len w 0 s > p then p else scan_len w 0 s)"
  have "conv_string e fl w p so st = fold (put e)
     ((if \<not> has fl LEFT then replicate (nat (w - l)) (CHR '' '') else []) @ take (nat l) s
     @ replicate (nat ((if \<not> has fl LEFT then (if l < w then l - 1 else w - 1) else w) - l)) (CHR '' '')) st" for e st
    unfolding conv_string_def s_def [symmetric] Let_def l_def [symmetric] loop_eqs by simp
  then show ?thesis by blast
qed

lemma textual_VInt:
  assumes "\<And>v. \<exists>xs. \<forall>e st. F e v st = fold (put e) xs st"
  shows "textual (\<lambda>e st. case args of VInt v # args' \<Rightarrow> Some (F e v st, s', args') | _ \<Rightarrow> None)"
proof (cases "\<exists>v as. args = VInt v # as")
  case True
  then obtain v as where a: "args = VInt v # as" by blast
  obtain xs where x: "\<And>e st. F e v st = fold (put e) xs st" using assms by blast
  show ?thesis by (rule textualI [of _ xs "(s', as)"]) (simp add: a x)
next
  case False
  then have "(case args of VInt v # args' \<Rightarrow> Some (F e v st, s', args') | _ \<Rightarrow> None) = None" for e st
    by (auto split: list.split va.split)
  then show ?thesis by (simp add: textual_None)
qed

lemma textual_VStr:
  assumes "\<And>v. \<exists>xs. \<forall>e st. F e v st = fold (put e) xs st"
  shows "textual (\<lambda>e st. case args of VStr v # args' \<Rightarrow> Some (F e v st, s', args') | _ \<Rightarrow> None)"
proof (cases "\<exists>v as. args = VStr v # as")
  case True
  then obtain v as where a: "args = VStr v # as" by blast
  obtain xs where x: "\<And>e st. F e v st = fold (put e) xs st" using assms by blast
  show ?thesis by (rule textualI [of _ xs "(s', as)"]) (simp add: a x)
next
  case False
  then have "(case args of VStr v # args' \<Rightarrow> Some (F e v st, s', args') | _ \<Rightarrow> None) = None" for e st
    by (auto split: list.split va.split)
  then show ?thesis by (simp add: textual_None)
qed

lemma conversion_textual: "textual (\<lambda>e st. conversion e fl w p q s args st)"
proof (cases s)
  case Nil
  then show ?thesis
    by (intro textualI [of _ "[CHR ''%'']"]) (simp add: conversion_def)
next
  case (Cons c s')
  have n: "textual (\<lambda>e st. case args of VInt v # args' \<Rightarrow>
      Some (print_number e (num_value fl' q v) base w p fl' st, s', args') | _ \<Rightarrow> None)" for base fl'
    by (cases args; (cases "hd args")?) (auto simp: print_number_text intro: textualI)
  have c: "textual (\<lambda>e st. case args of VInt v # args' \<Rightarrow> Some (conv_char e fl w v st, s', args') | _ \<Rightarrow> None)"
    by (rule textual_VInt) (rule conv_char_text)
  have st: "textual (\<lambda>e st. case args of VStr so # args' \<Rightarrow> Some (conv_string e fl w p so st, s', args') | _ \<Rightarrow> None)"
    by (rule textual_VStr) (rule conv_string_text)
  have pt: "textual (\<lambda>e st. case args of
               VPtr v # args' \<Rightarrow>
                 (if w = -1 then Some (print_number e v 16 8 p (fl OR ZEROPAD) st, s', args')
                  else Some (print_number e v 16 w p fl st, s', args'))
             | _ \<Rightarrow> None)"
    by (cases args; (cases "hd args")?; cases "w = -1") (auto simp: print_number_text intro: textualI)
  have l: "textual (\<lambda>e st. Some (put e (CHR ''%'') st, y))" for y :: "string \<times> va list"
    by (rule textualI [of _ "[CHR ''%'']"]) simp
  have d: "textual (\<lambda>e st. Some (put e c (put e (CHR ''%'') st), y))" for y :: "string \<times> va list"
    by (rule textualI [of _ "[CHR ''%'', c]"]) simp
  have t_if: "textual F \<Longrightarrow> textual G \<Longrightarrow> textual (\<lambda>e st. if b then F e st else G e st)"
    for b and F G :: "nat \<Rightarrow> out \<Rightarrow> (out \<times> string \<times> va list) option"
    by (cases b) simp_all
  show ?thesis
    unfolding conversion_def Cons list.case Let_def
    by (intro t_if n c st pt l d)
qed

lemma directive_textual: "textual (\<lambda>e st. directive e s args st)"
proof -
  obtain fl0 s0 where 0: "parse_flags 0 s = (fl0, s0)" by fastforce
  show ?thesis
  proof (cases "parse_width fl0 s0 args")
    case (Some a)
    obtain w fl s1 args1 where 1: "a = (w, fl, s1, args1)" by (cases a)
    show ?thesis
    proof (cases "parse_precision s1 args1")
      case Some': (Some b)
      obtain p s2 args2 where 2: "b = (p, s2, args2)" by (cases b)
      obtain q s3 where 3: "parse_qualifier s2 = (q, s3)" by fastforce
      show ?thesis by (simp add: directive_def 0 1 2 3 Some Some' conversion_textual)
    qed (auto simp: directive_def 0 1 Some)
  qed (auto simp: directive_def 0)
qed

lemma format_loop_text:
  "\<exists>r. \<forall>e st. format_loop e fmt args st = map_option (\<lambda>xs. fold (put e) xs st) r"
proof (induction "length fmt" arbitrary: fmt args rule: less_induct)
  case less
  show ?case
  proof (cases fmt)
    case Nil
    then show ?thesis by (intro exI [of _ "Some []"]) simp
  next
    case (Cons c s)
    show ?thesis
    proof (cases "c = CHR ''%''")
      case False
      from less [of s args] Cons obtain r where
        r: "\<And>e st. format_loop e s args st = map_option (\<lambda>xs. fold (put e) xs st) r" by auto
      show ?thesis
        by (intro exI [of _ "map_option (Cons c) r"] allI)
          (simp only: Cons format_loop.simps False not_False_eq_True if_True r option.map_comp o_def fold_simps)
    next
      case True
      obtain d where d: "\<And>e st. directive e s args st = map_option (\<lambda>(xs, y). (fold (put e) xs st, y)) d"
        using directive_textual [of s args] by (auto simp: textual_def)
      show ?thesis
      proof (cases d)
        case None
        with d True Cons show ?thesis by (intro exI [of _ None]) simp
      next
        case (Some x)
        obtain xs s' args' where x: "x = (xs, s', args')" by (cases x)
        have "directive 0 s args (0, \<lambda>_. c) = Some (fold (put 0) xs (0, \<lambda>_. c), s', args')"
          using d Some x by simp
        then have "length s' < length fmt" using directive_length Cons by fastforce
        from less [OF this, of args'] obtain r where
          r: "\<And>e st. format_loop e s' args' st = map_option (\<lambda>xs. fold (put e) xs st) r" by blast
        show ?thesis
          by (intro exI [of _ "map_option (\<lambda>ys. xs @ ys) r"] allI)
            (simp add: Cons True d Some x r option.map_comp o_def)
      qed
    qed
  qed
qed

section \<open>Decimal round trip\<close>

lemma digits_loop_chars:
  "list_all is_digit (digits_loop digits 10 n) \<or> digits \<noteq> small_digits"
proof (cases "digits = small_digits")
  case True
  have dig: "is_digit (small_digits ! r)" if "r < 10" for r
  proof -
    have "list_all (\<lambda>r. is_digit (small_digits ! r)) [0..<10]" by code_simp
    with that show ?thesis by (simp add: list_all_iff)
  qed
  have "list_all is_digit (digits_loop small_digits 10 n)"
  proof (induction "unat n" arbitrary: n rule: less_induct)
    case less
    have "unat (n mod 10) < 10" by (simp add: unat_mod)
    moreover have "n \<noteq> 0 \<Longrightarrow> unat (n div 10) < unat n" by (simp add: unat_div unat_gt_0)
    ultimately show ?case
      using less by (subst digits_loop.simps) (auto simp: divide_def dig)
  qed
  with True show ?thesis by simp
qed simp

lemma skip_atoi_loop_append:
  "list_all is_digit xs \<Longrightarrow> skip_atoi_loop i (xs @ ys) =
    skip_atoi_loop (foldl (\<lambda>i c. i * 10 + of_char c - 48) i xs) ys"
  by (induction xs arbitrary: i) auto

lemma digits_value:
  "foldl (\<lambda>i c. i * 10 + of_char c - 48) 0 (rev (digits_loop small_digits 10 n)) = uint n"
proof (induction "unat n" arbitrary: n rule: less_induct)
  case less
  have dig: "(of_char (small_digits ! r) :: int) - 48 = int r" if "r < 10" for r
  proof -
    have "list_all (\<lambda>r. (of_char (small_digits ! r) :: int) - 48 = int r) [0..<10]" by code_simp
    with that show ?thesis by (simp add: list_all_iff)
  qed
  show ?case
  proof (cases "n = 0")
    case True
    then show ?thesis by (subst digits_loop.simps) simp
  next
    case False
    have r: "unat (n mod 10) < 10" by (simp add: unat_mod)
    have "unat (n div 10) < unat n" using False by (simp add: unat_div unat_gt_0)
    from less [OF this] have "foldl (\<lambda>i c. i * 10 + of_char c - 48) 0 (rev (digits_loop small_digits 10 n))
        = uint (n div 10) * 10 + int (unat (n mod 10))"
      using False dig [OF r] by (subst digits_loop.simps) (simp add: divide_def)
    also have "\<dots> = uint n"
    proof -
      have "int (unat (n mod 10)) = uint n mod 10" "uint (n div 10) = uint n div 10"
        by (simp_all add: uint_mod uint_div)
      then show ?thesis by presburger
    qed
    finally show ?thesis .
  qed
qed


lemma length_digits_loop: "unat n < 10 ^ k \<Longrightarrow> length (digits_loop digits 10 n) \<le> k"
proof (induction k arbitrary: n)
  case 0
  then have "n = 0" by (simp add: unsigned_eq_0_iff)
  then show ?case by (subst digits_loop.simps) simp
next
  case (Suc k)
  then have "unat (n div 10) < 10 ^ k" by (auto simp: unat_div less_mult_imp_div_less mult.commute)
  from Suc.IH [OF this] show ?case by (subst digits_loop.simps) (simp add: divide_def)
qed

definition dec_digits :: "u32 \<Rightarrow> string" where
  "dec_digits n = (if n = 0 then ''0'' else rev (digits_loop small_digits 10 n))"

lemma dec_digits_facts:
  "skip_atoi (dec_digits n) = (uint n, [])" "length (dec_digits n) \<le> 10" "dec_digits n \<noteq> []"
proof -
  have "is_digit (CHR ''0'')" by (simp add: is_digit_def)
  moreover have "list_all is_digit (rev (digits_loop small_digits 10 n))"
    using digits_loop_chars [of small_digits n] by simp
  ultimately show "skip_atoi (dec_digits n) = (uint n, [])"
    using skip_atoi_loop_append [of "rev (digits_loop small_digits 10 n)" 0 "[]"] digits_value [of n]
    by (simp add: dec_digits_def skip_atoi_def)
  have "unat n < 10 ^ 10" using unsigned_less [of n, where ?'a = nat] by simp
  from length_digits_loop [OF this] show "length (dec_digits n) \<le> 10"
    by (simp add: dec_digits_def)
  show "dec_digits n \<noteq> []"
    by (subst (asm) digits_loop.simps | simp add: dec_digits_def digits_loop.simps [of _ _ n] split: prod.split)+
qed

lemma number_text_plain:
  "number_text v 10 (-1) (-1) fl =
    (if has fl LEFT \<or> has fl LARGE \<or> has fl PLUS \<or> has fl SPACE then number_text v 10 (-1) (-1) fl
     else if has fl SIGN \<and> sint v < 0 then CHR ''-'' # dec_digits (- v) else dec_digits v)"
proof -
  have d: "nat (max (int k) (- 1) - int k) = 0" "nat (- 1 - max (int k) (- 1) - j) = 0" if "0 \<le> j" for k :: nat and j
    using that by auto
  have "sint v < 0 \<Longrightarrow> v \<noteq> 0" by auto
  then show ?thesis
    by (auto simp: number_text_def Let_def number_sign_def number_digits_def opt_list_def dec_digits_def d)
qed

lemma format_decimal:
  "format_loop e ''%d'' [VInt v] st =
     Some (fold (put e) (if sint v < 0 then CHR ''-'' # dec_digits (- v) else dec_digits v) st)"
  "format_loop e ''%u'' [VInt v] st = Some (fold (put e) (dec_digits v) st)"
proof -
  have n: "number_text v 10 (- 1) (- 1) SIGN = (if sint v < 0 then CHR ''-'' # dec_digits (- v) else dec_digits v)"
    "number_text v 10 (- 1) (- 1) 0 = dec_digits v"
    using number_text_plain [of v 0] number_text_plain [of v SIGN] by simp_all
  have dir: "directive e ''d'' [VInt v] st = Some (fold (put e) (number_text v 10 (- 1) (- 1) SIGN) st, [], [])"
    "directive e ''u'' [VInt v] st = Some (fold (put e) (number_text v 10 (- 1) (- 1) 0) st, [], [])"
    by (simp_all add: directive_def parse_width_def parse_precision_def parse_qualifier_def starts_def
      is_digit_def conversion_def num_value_def print_number_text)
  show
    "format_loop e ''%d'' [VInt v] st =
     Some (fold (put e) (if sint v < 0 then CHR ''-'' # dec_digits (- v) else dec_digits v) st)"
    "format_loop e ''%u'' [VInt v] st = Some (fold (put e) (dec_digits v) st)"
    by (simp_all add: dir n)
qed

lemma sint_neg_uint:
  fixes v :: u32
  shows "sint v < 0 \<Longrightarrow> uint (- v) = - sint v" "0 \<le> sint v \<Longrightarrow> uint v = sint v"
proof -
  have u: "v = word_of_int (sint v)" by simp
  have r: "- (2 ^ 31) \<le> sint v" "sint v < 2 ^ 31"
    using sint_greater_eq [of v] sint_less [of v] by simp_all
  have "- v = word_of_int (- sint v)" by (subst u) (simp only: wi_hom_neg)
  then have "uint (- v) = (- sint v) mod 2 ^ 32"
    by (simp only: uint_word_of_int) simp
  then show "sint v < 0 \<Longrightarrow> uint (- v) = - sint v" using r by simp
  have "uint v = sint v mod 2 ^ 32"
    by (subst u) (simp only: uint_word_of_int, simp)
  then show "0 \<le> sint v \<Longrightarrow> uint v = sint v" using r by simp
qed

lemma vsnprintf_memory:
  assumes "\<And>e st. format_loop e fmt args st = Some (fold (put e) out st)" "buf + sz < 2 ^ 32"
  shows "rt_vsnprintf buf sz fmt args m = Some (length out,
    \<lambda>x. if buf \<le> x \<and> x < buf + min (length out) (sz - 1) then out ! (x - buf)
        else if 0 < sz \<and> x = buf + min (length out) (sz - 1) then CHR 0x00 else m x)"
  using assms by (auto simp: rt_vsnprintf_def fold_put fun_eq_iff min_def)

lemma format_loop_cases:
  obtains "\<And>e st. format_loop e fmt args st = None"
  | out where "\<And>e st. format_loop e fmt args st = Some (fold (put e) out st)"
proof -
  obtain r where r: "\<And>e st. format_loop e fmt args st = map_option (\<lambda>xs. fold (put e) xs st) r"
    using format_loop_text [of fmt args] by blast
  show thesis using r that by (cases r) simp_all
qed

lemma divide_octal: "divide n 8 = divide n 16"
  by (simp add: divide_def)

lemma digits_octal: "digits_loop digits 8 n = digits_loop digits 16 n"
proof (induction "unat n" arbitrary: n rule: less_induct)
  case less
  show ?case
  proof (cases "n = 0")
    case False
    then have "unat (n div 16) < unat n" by (simp add: unat_div unat_gt_0)
    from less [OF this] show ?thesis
      by (subst (1 2) digits_loop.simps) (simp add: divide_def)
  qed (simp add: digits_loop.simps)
qed

text \<open>\<open>divide\<close> knows the bases 10 and 16 only, so \<open>%o\<close> prints hexadecimal digits.\<close>

lemma octal_prints_hexadecimal:
  "format_loop e ''%o'' [VInt v] st = format_loop e ''%x'' [VInt v] st"
proof -
  have "number_text v 8 (- 1) (- 1) 0 = number_text v 16 (- 1) (- 1) 0"
    by (simp add: number_text_def number_digits_def digits_octal)
  then have "directive e ''o'' [VInt v] st = directive e ''x'' [VInt v] st"
    by (simp add: directive_def parse_width_def parse_precision_def parse_qualifier_def starts_def
      is_digit_def conversion_def num_value_def print_number_text)
  then show ?thesis by simp
qed

text \<open>The loop that measures a string stops at the field width, so \<open>%3s\<close> truncates.\<close>

lemma width_truncates_string: "conv_string e 0 3 (- 1) (Some ''hello'') st = fold (put e) ''hel'' st"
  by (simp add: conv_string_def loop_eqs)

section \<open>Properties\<close>



text \<open>Decimal output round-trips: what \<open>rt_snprintf\<close> prints for \<open>%d\<close> into a 16 byte buffer
  is the sign and the digits of the argument read as a signed number, complete and NUL-terminated,
  and \<open>skip_atoi\<close> reads the digits back to its absolute value; this covers \<open>INT_MIN\<close>.\<close>

theorem decimal_roundtrip:
  assumes "buf + 16 < 2 ^ 32"
  shows "\<exists>ds n m'. rt_snprintf buf 16 ''%d'' [VInt v] m = Some (n, m')
    \<and> map m' [buf..<buf + n] = (if sint v < 0 then CHR ''-'' # ds else ds)
    \<and> m' (buf + n) = CHR 0x00 \<and> skip_atoi ds = (\<bar>sint v\<bar>, [])"
proof -
  define ds where "ds = (if sint v < 0 then dec_digits (- v) else dec_digits v)"
  define out where "out = (if sint v < 0 then CHR ''-'' # ds else ds)"
  have "format_loop e ''%d'' [VInt v] st = Some (fold (put e) out st)" for e st
    using format_decimal(1) [of e v st] by (simp only: out_def ds_def if_distrib) (metis (full_types))
  note r = vsnprintf_memory [OF this assms, of m]
  have len: "length out \<le> 11" using dec_digits_facts(2) [of v] dec_digits_facts(2) [of "- v"] by (simp add: out_def ds_def)
  have abs: "skip_atoi ds = (\<bar>sint v\<bar>, [])"
  proof (cases "sint v < 0")
    case True
    then have "uint (- v) = - sint v" by (rule sint_neg_uint)
    with True show ?thesis by (simp add: ds_def dec_digits_facts)
  next
    case False
    then have "uint v = sint v" by (simp add: sint_neg_uint)
    with False show ?thesis by (simp add: ds_def dec_digits_facts)
  qed
  show ?thesis
    using r len abs
    by (intro exI [of _ ds] exI) (auto simp: rt_snprintf_def out_def [symmetric] intro!: nth_equalityI)
qed

theorem decimal_roundtrip_witness:
  "\<exists>ds n m'. rt_snprintf 0 16 ''%d'' [VInt 0x80000000] (\<lambda>_. CHR ''?'') = Some (n, m')
    \<and> map m' [0..<n] = CHR ''-'' # ds \<and> m' n = CHR 0x00 \<and> skip_atoi ds = (2147483648, [])"
proof -
  have "sint (0x80000000 :: u32) = - 2147483648" by simp
  then show ?thesis
    using decimal_roundtrip [where buf = 0 and v = "0x80000000" and m = "\<lambda>_. CHR ''?''"] by simp
qed

end
