(* ===== verification/RingBuffer.thy ===== *)
theory RingBuffer
  imports Prelude
begin

text \<open>
  The byte ring buffer of \<^verbatim>\<open>rt-thread/components/drivers/src/ringbuffer.c\<close>.

  \<^item> the interface \<open>byte_queue\<close>: what a client of a bounded byte queue relies on, and the
    end-to-end theorem about any sequence of writes and reads;
  \<^item> the model of the code: \<open>ringbuffer\<close> with its mirror bits and indices, each operation with
    its two-piece \<open>memcpy\<close>s (a copy outside of the pool or of the caller's buffer is
    \<open>None\<close>);
  \<^item> the refinement: \<open>rb_content\<close> reads the stored bytes off the state, \<open>rb_ok\<close> is the
    invariant, and every operation acts on the content as the queue it stands for.
\<close>

section \<open>The interface of a bounded byte queue\<close>

datatype qop = QPut "u8 list" | QGet nat

text \<open>A run collects the bytes the queue accepted and the bytes it delivered.\<close>

fun queue_run ::
  "('s \<Rightarrow> u8 list \<Rightarrow> (nat \<times> 's) option) \<Rightarrow> ('s \<Rightarrow> nat \<Rightarrow> (u8 list \<times> 's) option) \<Rightarrow> qop list \<Rightarrow> 's
    \<Rightarrow> (u8 list \<times> u8 list \<times> 's) option" where
  "queue_run put get [] s = Some ([], [], s)"
| "queue_run put get (QPut bs # ops) s =
    (case put s bs of None \<Rightarrow> None
     | Some (n, s1) \<Rightarrow> map_option (\<lambda>(i, out, s2). (take n bs @ i, out, s2)) (queue_run put get ops s1))"
| "queue_run put get (QGet k # ops) s =
    (case get s k of None \<Rightarrow> None
     | Some (bs, s1) \<Rightarrow> map_option (\<lambda>(i, out, s2). (i, bs @ out, s2)) (queue_run put get ops s1))"

definition qop_ok :: "qop \<Rightarrow> bool" where
  "qop_ok oper = (case oper of QPut bs \<Rightarrow> length bs < 2 ^ 16 | QGet k \<Rightarrow> k < 2 ^ 16)"

locale byte_queue =
  fixes ok :: "'s \<Rightarrow> bool"
    and content :: "'s \<Rightarrow> u8 list"
    and cap :: "'s \<Rightarrow> nat"
    and put :: "'s \<Rightarrow> u8 list \<Rightarrow> (nat \<times> 's) option"
    and get :: "'s \<Rightarrow> nat \<Rightarrow> (u8 list \<times> 's) option"
  assumes bounded: "ok s \<Longrightarrow> length (content s) \<le> cap s"
    and put_spec: "ok s \<Longrightarrow> length bs < 2 ^ 16 \<Longrightarrow> n = min (length bs) (cap s - length (content s)) \<Longrightarrow>
      \<exists>s'. put s bs = Some (n, s') \<and> ok s' \<and> cap s' = cap s \<and> content s' = content s @ take n bs"
    and get_spec: "ok s \<Longrightarrow> k < 2 ^ 16 \<Longrightarrow>
      \<exists>s'. get s k = Some (take k (content s), s') \<and> ok s' \<and> cap s' = cap s \<and> content s' = drop k (content s)"
begin

lemma run_fifo:
  assumes "ok s" "list_all qop_ok ops"
  shows "\<exists>acc del s'. queue_run put get ops s = Some (acc, del, s') \<and> ok s' \<and> cap s' = cap s
    \<and> content s @ acc = del @ content s'"
  using assms
proof (induction ops arbitrary: s)
  case (Cons oper ops)
  show ?case
  proof (cases oper)
    case (QPut bs)
    then have "length bs < 2 ^ 16" using Cons.prems by (simp add: qop_ok_def)
    from put_spec [OF Cons.prems(1) this refl] obtain s1 where
      s1: "put s bs = Some (min (length bs) (cap s - length (content s)), s1)" "ok s1" "cap s1 = cap s"
        "content s1 = content s @ take (min (length bs) (cap s - length (content s))) bs" by blast
    from Cons.IH [OF s1(2)] Cons.prems obtain acc del s' where
      "queue_run put get ops s1 = Some (acc, del, s')" "ok s'" "cap s' = cap s1" "content s1 @ acc = del @ content s'"
      by auto
    with s1 QPut show ?thesis by auto
  next
    case (QGet k)
    then have "k < 2 ^ 16" using Cons.prems by (simp add: qop_ok_def)
    from get_spec [OF Cons.prems(1) this] obtain s1 where
      s1: "get s k = Some (take k (content s), s1)" "ok s1" "cap s1 = cap s"
        "content s1 = drop k (content s)" by blast
    from Cons.IH [OF s1(2)] Cons.prems obtain acc del s' where
      r: "queue_run put get ops s1 = Some (acc, del, s')" "ok s'" "cap s' = cap s1" "content s1 @ acc = del @ content s'"
      by auto
    have "content s @ acc = (take k (content s) @ del) @ content s'"
      using r(4) s1(4) by (metis append.assoc append_take_drop_id)
    with s1 r QGet show ?thesis by auto
  qed
qed simp

end

section \<open>The ring buffer\<close>

text \<open>The bit fields \<open>read_index\<close> and \<open>write_index\<close> are 15 bits wide, \<open>buffer_size\<close> is a
  signed 16 bit value.\<close>

record ringbuffer =
  buffer_ptr :: "u8 list"
  read_mirror :: bool
  read_index :: nat
  write_mirror :: bool
  write_index :: nat
  buffer_size :: int

abbreviation bits15 :: "int \<Rightarrow> nat" where "bits15 x \<equiv> nat (x mod 2 ^ 15)"

datatype rt_ringbuffer_state = RT_RINGBUFFER_EMPTY | RT_RINGBUFFER_FULL | RT_RINGBUFFER_HALFFULL

definition rt_ringbuffer_status :: "ringbuffer \<Rightarrow> rt_ringbuffer_state" where
  "rt_ringbuffer_status rb =
    (if read_index rb = write_index rb
     then if read_mirror rb = write_mirror rb then RT_RINGBUFFER_EMPTY else RT_RINGBUFFER_FULL
     else RT_RINGBUFFER_HALFFULL)"

definition rt_ringbuffer_data_len :: "ringbuffer \<Rightarrow> nat" where
  "rt_ringbuffer_data_len rb =
    (case rt_ringbuffer_status rb of
       RT_RINGBUFFER_EMPTY \<Rightarrow> 0
     | RT_RINGBUFFER_FULL \<Rightarrow> nat (buffer_size rb mod 2 ^ 32)
     | RT_RINGBUFFER_HALFFULL \<Rightarrow>
         let wi = write_index rb; ri = read_index rb
         in if wi > ri then wi - ri else nat ((buffer_size rb - int (ri - wi)) mod 2 ^ 32))"

text \<open>The macro \<open>rt_ringbuffer_space_len\<close>, an unsigned 32 bit difference.\<close>

definition rt_ringbuffer_space_len :: "ringbuffer \<Rightarrow> nat" where
  "rt_ringbuffer_space_len rb = nat ((buffer_size rb - int (rt_ringbuffer_data_len rb)) mod 2 ^ 32)"

definition rt_ringbuffer_get_size :: "ringbuffer \<Rightarrow> nat" where
  "rt_ringbuffer_get_size rb = nat (buffer_size rb mod 2 ^ 16)"

definition rt_ringbuffer_init :: "u8 list \<Rightarrow> int \<Rightarrow> ringbuffer option" where
  "rt_ringbuffer_init pool sz = Option.bind (assert_that (sz > 0)) (\<lambda>_.
     Some \<lparr>buffer_ptr = pool, read_mirror = False, read_index = 0, write_mirror = False,
       write_index = 0, buffer_size = sz AND NOT 3\<rparr>)"

definition rt_ringbuffer_reset :: "ringbuffer \<Rightarrow> ringbuffer" where
  "rt_ringbuffer_reset rb =
    rb\<lparr>read_mirror := False, read_index := 0, write_mirror := False, write_index := 0\<rparr>"

text \<open>The copy that \<open>rt_ringbuffer_put\<close> and \<open>rt_ringbuffer_put_force\<close> end with: in one piece
  when the bytes fit before the end of the pool, in two pieces otherwise.\<close>

definition write_bytes :: "ringbuffer \<Rightarrow> u8 list \<Rightarrow> nat \<Rightarrow> ringbuffer option" where
  "write_bytes rb ptr len =
    (let room = buffer_size rb - int (write_index rb) in
     if room > int len
     then Option.bind (arr_read ptr 0 len) (\<lambda>bs.
          Option.bind (arr_write (buffer_ptr rb) (write_index rb) bs) (\<lambda>buf.
          Some (rb\<lparr>buffer_ptr := buf, write_index := bits15 (int (write_index rb) + int len)\<rparr>)))
     else Option.bind (arr_read ptr 0 (nat room)) (\<lambda>bs1.
          Option.bind (arr_write (buffer_ptr rb) (write_index rb) bs1) (\<lambda>buf1.
          Option.bind (arr_read ptr (nat room) (nat (int len - room))) (\<lambda>bs2.
          Option.bind (arr_write buf1 0 bs2) (\<lambda>buf2.
          Some (rb\<lparr>buffer_ptr := buf2, write_mirror := \<not> write_mirror rb,
                   write_index := bits15 (int len - room)\<rparr>))))))"

definition rt_ringbuffer_put :: "ringbuffer \<Rightarrow> u8 list \<Rightarrow> nat \<Rightarrow> (nat \<times> ringbuffer) option" where
  "rt_ringbuffer_put rb ptr len =
    (let sz = rt_ringbuffer_space_len rb mod 2 ^ 16 in
     if sz = 0 then Some (0, rb)
     else let len = (if sz < len then sz else len)
          in map_option (\<lambda>rb'. (len, rb')) (write_bytes rb ptr len))"

definition rt_ringbuffer_put_force :: "ringbuffer \<Rightarrow> u8 list \<Rightarrow> nat \<Rightarrow> (nat \<times> ringbuffer) option" where
  "rt_ringbuffer_put_force rb ptr len =
    (let space_length = rt_ringbuffer_space_len rb mod 2 ^ 16;
         (ptr, len) =
           (if int len > buffer_size rb
            then (drop (nat (int len - buffer_size rb)) ptr, nat (buffer_size rb mod 2 ^ 16))
            else (ptr, len));
         wrapped = \<not> buffer_size rb - int (write_index rb) > int len
     in map_option (\<lambda>rb'.
          (len,
           if len > space_length
           then if wrapped
                then rb'\<lparr>read_mirror := (if write_index rb' \<le> read_index rb' then \<not> read_mirror rb' else read_mirror rb'),
                         read_index := write_index rb'\<rparr>
                else rb'\<lparr>read_index := write_index rb'\<rparr>
           else rb'))
        (write_bytes rb ptr len))"

text \<open>The bytes delivered to the caller's buffer are part of the result.\<close>

definition rt_ringbuffer_get :: "ringbuffer \<Rightarrow> nat \<Rightarrow> (nat \<times> u8 list \<times> ringbuffer) option" where
  "rt_ringbuffer_get rb len =
    (let sz = rt_ringbuffer_data_len rb in
     if sz = 0 then Some (0, [], rb)
     else let len = (if sz < len then sz else len);
              room = buffer_size rb - int (read_index rb)
          in if room > int len
             then Option.bind (arr_read (buffer_ptr rb) (read_index rb) len) (\<lambda>bs.
                  Some (len, bs, rb\<lparr>read_index := bits15 (int (read_index rb) + int len)\<rparr>))
             else Option.bind (arr_read (buffer_ptr rb) (read_index rb) (nat room)) (\<lambda>bs1.
                  Option.bind (arr_read (buffer_ptr rb) 0 (nat (int len - room))) (\<lambda>bs2.
                  Some (len, bs1 @ bs2,
                    rb\<lparr>read_mirror := \<not> read_mirror rb, read_index := bits15 (int len - room)\<rparr>))))"

text \<open>\<open>*ptr\<close> is a position in the pool, or null.\<close>

definition rt_ringbuffer_peak :: "ringbuffer \<Rightarrow> nat \<times> nat option \<times> ringbuffer" where
  "rt_ringbuffer_peak rb =
    (let sz = rt_ringbuffer_data_len rb in
     if sz = 0 then (0, None, rb)
     else let ptr = Some (read_index rb); room = buffer_size rb - int (read_index rb)
          in if nat (room mod 2 ^ 32) > sz
             then (sz, ptr, rb\<lparr>read_index := bits15 (int (read_index rb) + int sz)\<rparr>)
             else (nat (room mod 2 ^ 32), ptr, rb\<lparr>read_mirror := \<not> read_mirror rb, read_index := 0\<rparr>))"

definition rt_ringbuffer_putchar :: "ringbuffer \<Rightarrow> u8 \<Rightarrow> (nat \<times> ringbuffer) option" where
  "rt_ringbuffer_putchar rb ch =
    (if rt_ringbuffer_space_len rb = 0 then Some (0, rb)
     else Option.bind (arr_write (buffer_ptr rb) (write_index rb) [ch]) (\<lambda>buf.
       let rb1 = rb\<lparr>buffer_ptr := buf\<rparr>
       in if int (write_index rb1) = buffer_size rb1 - 1
          then Some (1, rb1\<lparr>write_mirror := \<not> write_mirror rb1, write_index := 0\<rparr>)
          else Some (1, rb1\<lparr>write_index := bits15 (int (write_index rb1) + 1)\<rparr>)))"

definition rt_ringbuffer_putchar_force :: "ringbuffer \<Rightarrow> u8 \<Rightarrow> (nat \<times> ringbuffer) option" where
  "rt_ringbuffer_putchar_force rb ch =
    (let old_state = rt_ringbuffer_status rb in
     Option.bind (arr_write (buffer_ptr rb) (write_index rb) [ch]) (\<lambda>buf.
       let rb1 = rb\<lparr>buffer_ptr := buf\<rparr>
       in if int (write_index rb1) = buffer_size rb1 - 1
          then let rb2 = rb1\<lparr>write_mirror := \<not> write_mirror rb1, write_index := 0\<rparr>
               in Some (1, if old_state = RT_RINGBUFFER_FULL
                           then rb2\<lparr>read_mirror := \<not> read_mirror rb2, read_index := write_index rb2\<rparr>
                           else rb2)
          else let rb2 = rb1\<lparr>write_index := bits15 (int (write_index rb1) + 1)\<rparr>
               in Some (1, if old_state = RT_RINGBUFFER_FULL
                           then rb2\<lparr>read_index := write_index rb2\<rparr> else rb2)))"

definition rt_ringbuffer_getchar :: "ringbuffer \<Rightarrow> (nat \<times> u8 option \<times> ringbuffer) option" where
  "rt_ringbuffer_getchar rb =
    (if rt_ringbuffer_data_len rb = 0 then Some (0, None, rb)
     else Option.bind (arr_read (buffer_ptr rb) (read_index rb) 1) (\<lambda>bs.
       if int (read_index rb) = buffer_size rb - 1
       then Some (1, Some (hd bs), rb\<lparr>read_mirror := \<not> read_mirror rb, read_index := 0\<rparr>)
       else Some (1, Some (hd bs), rb\<lparr>read_index := bits15 (int (read_index rb) + 1)\<rparr>)))"

section \<open>The stored bytes\<close>

definition rb_cap :: "ringbuffer \<Rightarrow> nat" where
  "rb_cap rb = nat (buffer_size rb)"

definition rb_ring :: "ringbuffer \<Rightarrow> u8 list" where
  "rb_ring rb = take (rb_cap rb) (buffer_ptr rb)"

definition rb_content :: "ringbuffer \<Rightarrow> u8 list" where
  "rb_content rb = take (rt_ringbuffer_data_len rb) (rotate (read_index rb) (rb_ring rb))"

definition rb_ok :: "ringbuffer \<Rightarrow> bool" where
  "rb_ok rb \<longleftrightarrow> 0 < buffer_size rb \<and> buffer_size rb < 2 ^ 15 \<and> rb_cap rb \<le> length (buffer_ptr rb) \<and>
     read_index rb < rb_cap rb \<and> write_index rb < rb_cap rb \<and>
     (if read_mirror rb = write_mirror rb then read_index rb \<le> write_index rb
      else write_index rb \<le> read_index rb)"

lemma rb_okD:
  assumes "rb_ok rb"
  shows "buffer_size rb = int (rb_cap rb)" "0 < rb_cap rb" "rb_cap rb < 2 ^ 15"
    "rb_cap rb \<le> length (buffer_ptr rb)" "read_index rb < rb_cap rb" "write_index rb < rb_cap rb"
    "length (rb_ring rb) = rb_cap rb"
  using assms by (auto simp: rb_ok_def rb_cap_def rb_ring_def)

lemma data_len_eq:
  assumes "rb_ok rb"
  shows "rt_ringbuffer_data_len rb =
    (if read_mirror rb = write_mirror rb then write_index rb - read_index rb
     else rb_cap rb + write_index rb - read_index rb)"
proof -
  note d = rb_okD [OF assms]
  have m: "nat (int (rb_cap rb) mod 4294967296) = rb_cap rb" using d(3) by simp
  have m2: "nat ((int (rb_cap rb) - int (read_index rb - write_index rb)) mod 4294967296)
      = rb_cap rb + write_index rb - read_index rb" if "write_index rb \<le> read_index rb"
  proof -
    have "int (rb_cap rb) - int (read_index rb - write_index rb) = int (rb_cap rb + write_index rb - read_index rb)"
      using d that by simp
    moreover have "rb_cap rb + write_index rb - read_index rb < 4294967296" using d that by simp
    ultimately show ?thesis by simp
  qed
  show ?thesis
    using assms d m m2
    by (cases "read_mirror rb"; cases "write_mirror rb")
      (auto simp: rt_ringbuffer_data_len_def rt_ringbuffer_status_def Let_def rb_ok_def)
qed

text \<open>The two indices and the mirror bits in terms of the read index and the number of bytes.\<close>

lemma rb_rep:
  assumes "rb_ok rb"
  defines "d \<equiv> rt_ringbuffer_data_len rb"
  shows "d \<le> rb_cap rb" "write_index rb = (read_index rb + d) mod rb_cap rb"
    "read_mirror rb \<noteq> write_mirror rb \<longleftrightarrow> rb_cap rb \<le> read_index rb + d"
proof -
  note r = rb_okD [OF assms(1)]
  have le: "if read_mirror rb = write_mirror rb then read_index rb \<le> write_index rb
      else write_index rb \<le> read_index rb"
    using assms(1) by (simp add: rb_ok_def)
  show "d \<le> rb_cap rb" using r le by (auto simp: d_def data_len_eq [OF assms(1)] split: if_splits)
  show "write_index rb = (read_index rb + d) mod rb_cap rb"
    using r le by (auto simp: d_def data_len_eq [OF assms(1)] split: if_splits)
  show "read_mirror rb \<noteq> write_mirror rb \<longleftrightarrow> rb_cap rb \<le> read_index rb + d"
    using r le by (auto simp: d_def data_len_eq [OF assms(1)] split: if_splits)
qed

lemma rb_ok_rep:
  assumes "0 < N" "N < 2 ^ 15" "buffer_size rb = int N" "N \<le> length (buffer_ptr rb)"
    "read_index rb < N" "d \<le> N" "write_index rb = (read_index rb + d) mod N"
    "read_mirror rb \<noteq> write_mirror rb \<longleftrightarrow> N \<le> read_index rb + d"
  shows "rb_ok rb" "rt_ringbuffer_data_len rb = d" "rb_cap rb = N"
proof -
  show c: "rb_cap rb = N" using assms by (simp add: rb_cap_def)
  have w: "write_index rb = (if N \<le> read_index rb + d then read_index rb + d - N else read_index rb + d)"
    using assms(5-7) by (simp add: mod_if)
  show ok: "rb_ok rb" using assms w by (auto simp: rb_ok_def c)
  show "rt_ringbuffer_data_len rb = d"
    using assms w by (auto simp: data_len_eq [OF ok] c)
qed

lemma length_rb_content: "rb_ok rb \<Longrightarrow> length (rb_content rb) = rt_ringbuffer_data_len rb"
  using rb_rep(1) [of rb] rb_okD(7) [of rb] by (simp add: rb_content_def)

lemma space_len_eq: "rb_ok rb \<Longrightarrow> rt_ringbuffer_space_len rb = rb_cap rb - length (rb_content rb)"
proof -
  assume ok: "rb_ok rb"
  define k where "k = rb_cap rb - rt_ringbuffer_data_len rb"
  have "buffer_size rb - int (rt_ringbuffer_data_len rb) = int k"
    using rb_rep(1) [OF ok] rb_okD(1) [OF ok] by (simp add: k_def)
  moreover have "k < 2 ^ 32" using rb_okD(3) [OF ok] by (simp add: k_def)
  ultimately show ?thesis
    by (simp add: rt_ringbuffer_space_len_def length_rb_content [OF ok] k_def [symmetric])
qed

lemma rotate_eq: "p < length xs \<Longrightarrow> rotate p xs = drop p xs @ take p xs"
  by (simp add: rotate_drop_take)

lemma rotate_mod_add: "length X = N \<Longrightarrow> rotate ((r + d) mod N) X = rotate d (rotate r X)"
  using rotate_conv_mod [of "r + d" X] by (simp add: rotate_rotate add.commute)

text \<open>What a write of \<open>n\<close> bytes at the write index does to the ring, and what it leaves at the
  read index.\<close>

lemma ring_write_room:
  assumes "length L = N" "length L' = N" "0 < N" "p = (r + d) mod N" "r < N" "d + length bs \<le> N"
    "rotate p L' = bs @ drop (length bs) (rotate p L)"
  shows "take (d + length bs) (rotate r L') = take d (rotate r L) @ bs"
proof -
  define M where "M = rotate r L"
  define M' where "M' = rotate r L'"
  have len: "length M = N" "length M' = N" using assms(1,2) by (simp_all add: M_def M'_def)
  have rot: "rotate p X = rotate d (rotate r X)" if "length X = N" for X :: "'a list"
    unfolding assms(4) by (rule rotate_mod_add [OF that])
  have "rotate d M' = bs @ drop (length bs) (rotate d M)"
    using assms(7) rot [OF assms(1)] rot [OF assms(2)] by (simp add: M_def M'_def)
  moreover have "rotate d M = drop d M @ take d M"
    using len assms(3,6) by (cases "d = N") (simp_all add: rotate_eq)
  ultimately have e: "rotate d M' = bs @ drop (d + length bs) M @ take d M"
    using len assms(6) by (simp add: add.commute)
  have "M' = rotate (N - d) (rotate d M')"
    using len assms(6) by (simp add: rotate_rotate)
  also have "\<dots> = take d M @ bs @ drop (d + length bs) M"
  proof -
    have "length (bs @ drop (d + length bs) M) = N - d" using len assms(6) by simp
    then show ?thesis unfolding e by (metis append.assoc rotate_append)
  qed
  finally show ?thesis using len assms(6) unfolding M_def [symmetric] M'_def [symmetric] by simp
qed

lemma ring_write_over:
  assumes "length L = N" "length L' = N" "0 < N" "p = (r + d) mod N" "r < N" "d \<le> N" "length bs \<le> N"
    "N < d + length bs" "rotate p L' = bs @ drop (length bs) (rotate p L)"
  shows "rotate ((p + length bs) mod N) L' = drop (d + length bs - N) (take d (rotate r L)) @ bs"
proof -
  define M where "M = rotate r L"
  have len: "length M = N" using assms(1) by (simp add: M_def)
  have "rotate p L = rotate d M"
    unfolding M_def assms(4) by (rule rotate_mod_add [OF assms(1)])
  also have "\<dots> = drop d M @ take d M"
    using len assms(6) by (cases "d = N") (simp_all add: rotate_eq)
  finally have m: "rotate p L = drop d M @ take d M" .
  have "rotate ((p + length bs) mod N) L' = rotate (length bs) (rotate p L')"
    by (rule rotate_mod_add [OF assms(2)])
  also have "\<dots> = drop (length bs) (rotate p L) @ bs"
    by (simp add: assms(9) rotate_append)
  also have "\<dots> = drop (d + length bs - N) (take d M) @ bs"
    using len assms(6,8) by (simp add: m add.commute)
  finally show ?thesis by (simp add: M_def)
qed

lemma diff_bits15:
  assumes "k \<le> n" "n - k < 2 ^ 15"
  shows "\<not> int k > int n" "nat (int n - int k) = n - k" "nat ((int n - int k) mod 2 ^ 15) = n - k"
proof -
  have "int n - int k = int (n - k)" using assms by simp
  then show "\<not> int k > int n" "nat (int n - int k) = n - k" "nat ((int n - int k) mod 2 ^ 15) = n - k"
    using assms by simp_all
qed

lemma write_bytes_ring:
  assumes ok: "rb_ok rb" and n: "n \<le> rb_cap rb" "n \<le> length ptr"
  obtains buf where "write_bytes rb ptr n = Some (rb\<lparr>buffer_ptr := buf,
      write_mirror := (write_mirror rb \<noteq> (rb_cap rb \<le> write_index rb + n)),
      write_index := (write_index rb + n) mod rb_cap rb\<rparr>)"
    "length buf = length (buffer_ptr rb)"
    "rotate (write_index rb) (take (rb_cap rb) buf) = take n ptr @ drop n (rotate (write_index rb) (rb_ring rb))"
proof -
  define N where "N = rb_cap rb"
  define w where "w = write_index rb"
  note d = rb_okD [OF ok, folded N_def w_def]
  have room: "buffer_size rb - int (write_index rb) = int (N - w)"
    using d by (simp add: w_def)
  show thesis
  proof (cases "n < N - w")
    case True
    define buf where "buf = take w (buffer_ptr rb) @ take n ptr @ drop (w + n) (buffer_ptr rb)"
    have "write_bytes rb ptr n = Some (rb\<lparr>buffer_ptr := buf, write_index := w + n\<rparr>)"
      using True d n less_imp_of_nat_less [OF True, where ?'a = int] unfolding write_bytes_def room Let_def
      by (simp add: arr_read_def arr_write_def buf_def w_def [symmetric] min_absorb2)
    moreover have "rotate w (take N buf) = take n ptr @ drop n (rotate w (rb_ring rb))"
    proof -
      have "take N buf = take w (rb_ring rb) @ take n ptr @ drop (w + n) (rb_ring rb)"
        using True d n by (simp add: buf_def rb_ring_def N_def [symmetric] drop_take)
      moreover have "length (take w (rb_ring rb)) = w" using d by simp
      ultimately have "rotate w (take N buf) = take n ptr @ drop (w + n) (rb_ring rb) @ take w (rb_ring rb)"
        by (metis append.assoc rotate_append)
      then show ?thesis using True d by (simp add: rotate_eq add.commute)
    qed
    moreover have "length buf = length (buffer_ptr rb)" using True d n by (simp add: buf_def)
    moreover have "rb\<lparr>buffer_ptr := buf, write_mirror := write_mirror rb \<noteq> (N \<le> w + n),
        write_index := (w + n) mod N\<rparr> = rb\<lparr>buffer_ptr := buf, write_index := w + n\<rparr>"
      using True by (cases rb) auto
    ultimately show thesis
      by (intro that [of buf]) (simp_all add: N_def [symmetric] w_def [symmetric])
  next
    case False
    define k where "k = N - w"
    have k: "k \<le> n" "w + k = N" "n - k \<le> w" using False d n by (auto simp: k_def N_def)
    define buf where "buf = take (n - k) (drop k ptr) @ drop (n - k) (take w (buffer_ptr rb) @ take k ptr @ drop N (buffer_ptr rb))"
    have "n - k < 2 ^ 15" using k(3) d by simp
    note i = diff_bits15 [OF k(1) this]
    have "write_bytes rb ptr n = Some (rb\<lparr>buffer_ptr := buf, write_mirror := \<not> write_mirror rb, write_index := n - k\<rparr>)"
    proof -
      have "k \<le> length ptr" "n - k \<le> length ptr - k" "k + (n - k) = n" using k n by simp_all
      then show ?thesis
        using k d n unfolding write_bytes_def room k_def [symmetric] Let_def i
        by (simp add: arr_read_def arr_write_def buf_def w_def [symmetric] min_absorb2)
    qed
    moreover have "rotate w (take N buf) = take n ptr @ drop n (rotate w (rb_ring rb))"
    proof -
      have "take N buf = (take (n - k) (drop k ptr) @ drop (n - k) (take w (rb_ring rb))) @ take k ptr"
      proof -
        have "k \<le> length ptr" "n - k \<le> length ptr - k" using k n by simp_all
        then show ?thesis using k d by (simp add: buf_def rb_ring_def N_def [symmetric] min_absorb1 min_absorb2)
      qed
      moreover have "length (take (n - k) (drop k ptr) @ drop (n - k) (take w (rb_ring rb))) = w" using k d n by simp
      ultimately have "rotate w (take N buf) = take k ptr @ take (n - k) (drop k ptr) @ drop (n - k) (take w (rb_ring rb))"
        by (metis append.assoc rotate_append)
      moreover have "take k ptr @ take (n - k) (drop k ptr) = take n ptr"
        using k by (metis le_add_diff_inverse take_add)
      moreover have "n + w - N = n - k" using k by simp
      ultimately show ?thesis using k d by (simp add: rotate_eq flip: append.assoc)
    qed
    moreover have "length buf = length (buffer_ptr rb)" using k d n by (simp add: buf_def)
    moreover have "(w + n) mod N = n - k"
    proof -
      have "w + n = N + (n - k)" using k by simp
      moreover have "n - k < N" using k d by simp
      ultimately show ?thesis by simp
    qed
    moreover have "N \<le> w + n" using k by simp
    ultimately show thesis
      by (intro that [of buf]) (simp_all add: N_def [symmetric] w_def [symmetric])
  qed
qed


text \<open>The state after \<open>write_bytes\<close>, in terms of the read index, the old length and the bytes.\<close>

lemma write_room_state:
  assumes ok: "rb_ok rb" and n: "n \<le> length ptr" "length (rb_content rb) + n \<le> rb_cap rb"
  obtains rb' where "write_bytes rb ptr n = Some rb'" "rb_ok rb'" "rb_cap rb' = rb_cap rb"
    "rb_content rb' = rb_content rb @ take n ptr"
proof -
  define d where "d = rt_ringbuffer_data_len rb"
  define N where "N = rb_cap rb"
  note r = rb_okD [OF ok, folded N_def] and rep = rb_rep [OF ok, folded d_def N_def]
  have dn: "d + n \<le> N" using n(2) by (simp add: length_rb_content [OF ok] d_def N_def)
  have nN: "n \<le> rb_cap rb" using dn by (simp add: N_def)
  obtain buf where b: "write_bytes rb ptr n = Some (rb\<lparr>buffer_ptr := buf,
      write_mirror := (write_mirror rb \<noteq> (rb_cap rb \<le> write_index rb + n)),
      write_index := (write_index rb + n) mod rb_cap rb\<rparr>)"
    "length buf = length (buffer_ptr rb)"
    "rotate (write_index rb) (take (rb_cap rb) buf) = take n ptr @ drop n (rotate (write_index rb) (rb_ring rb))"
    by (rule write_bytes_ring [OF ok nN n(1)])
  define rb' where "rb' = rb\<lparr>buffer_ptr := buf,
      write_mirror := (write_mirror rb \<noteq> (rb_cap rb \<le> write_index rb + n)),
      write_index := (write_index rb + n) mod rb_cap rb\<rparr>"
  have w: "write_index rb' = (read_index rb' + (d + n)) mod N"
    by (simp add: rb'_def rep(2) N_def [symmetric] mod_add_left_eq add.assoc)
  have m: "read_mirror rb' \<noteq> write_mirror rb' \<longleftrightarrow> N \<le> read_index rb' + (d + n)"
  proof (cases "N \<le> read_index rb + d")
    case True
    then have "write_index rb = read_index rb + d - N" using rep(1,2) r(2,5) by (simp add: mod_if)
    then have "\<not> N \<le> write_index rb + n" using True dn r(5) by simp
    then show ?thesis using True rep(3) by (auto simp: rb'_def N_def [symmetric])
  next
    case False
    then have "write_index rb = read_index rb + d" using rep(2) by simp
    then show ?thesis using False rep(3) by (auto simp: rb'_def N_def [symmetric] add.assoc)
  qed
  have st: "rb_ok rb'" "rt_ringbuffer_data_len rb' = d + n" "rb_cap rb' = N"
    using rb_ok_rep [of N rb' "d + n", OF _ _ _ _ _ dn w m] r b(2) by (simp_all add: rb'_def)
  have "take (d + length (take n ptr)) (rotate (read_index rb) (take N buf))
      = take d (rotate (read_index rb) (rb_ring rb)) @ take n ptr"
    using b(3) r b(2) n dn rep(2)
    by (intro ring_write_room [where N = N and p = "write_index rb"]) (simp_all add: N_def [symmetric])
  then have "rb_content rb' = rb_content rb @ take n ptr"
    using n(1) by (simp add: rb_content_def rb_ring_def st d_def [symmetric] N_def [symmetric]) (simp add: rb'_def)
  with st b(1) show thesis by (intro that [of rb']) (simp_all add: rb'_def N_def)
qed

lemma put_spec:
  assumes ok: "rb_ok rb" and len: "len \<le> length ptr" "len < 2 ^ 16"
    and n: "n = min len (rb_cap rb - length (rb_content rb))"
  shows "\<exists>rb'. rt_ringbuffer_put rb ptr len = Some (n, rb') \<and> rb_ok rb' \<and> rb_cap rb' = rb_cap rb \<and>
    rb_content rb' = rb_content rb @ take n ptr"
proof -
  have sp: "rt_ringbuffer_space_len rb mod 2 ^ 16 = rb_cap rb - length (rb_content rb)"
    using rb_okD(3) [OF ok] by (simp add: space_len_eq [OF ok])
  show ?thesis
  proof (cases "rb_cap rb - length (rb_content rb) = 0")
    case True
    with n ok show ?thesis unfolding rt_ringbuffer_put_def sp by simp
  next
    case False
    have c: "(if rb_cap rb - length (rb_content rb) < len then rb_cap rb - length (rb_content rb) else len) = n"
      using n by auto
    have "n \<le> length ptr" "length (rb_content rb) + n \<le> rb_cap rb" using n len False by auto
    from write_room_state [OF ok this] obtain rb' where
      "write_bytes rb ptr n = Some rb'" "rb_ok rb'" "rb_cap rb' = rb_cap rb"
      "rb_content rb' = rb_content rb @ take n ptr" .
    with False show ?thesis unfolding rt_ringbuffer_put_def sp Let_def c by simp
  qed
qed

lemma get_spec:
  assumes ok: "rb_ok rb" and len: "len < 2 ^ 16" and n: "n = min len (length (rb_content rb))"
  shows "\<exists>rb'. rt_ringbuffer_get rb len = Some (n, take len (rb_content rb), rb') \<and> rb_ok rb' \<and>
    rb_cap rb' = rb_cap rb \<and> rb_content rb' = drop len (rb_content rb)"
proof -
  define d where "d = rt_ringbuffer_data_len rb"
  define N where "N = rb_cap rb"
  define M where "M = rotate (read_index rb) (rb_ring rb)"
  note r = rb_okD [OF ok, folded N_def] and rep = rb_rep [OF ok, folded d_def N_def]
  have lc: "length (rb_content rb) = d" by (simp add: length_rb_content [OF ok] d_def)
  have cont: "rb_content rb = take d M" by (simp add: rb_content_def M_def d_def)
  have lM: "length M = N" using r(7) by (simp add: M_def)
  show ?thesis
  proof (cases "d = 0")
    case True
    with lc n ok show ?thesis by (simp add: rt_ringbuffer_get_def d_def)
  next
    case False
    define rb' where "rb' = rb\<lparr>read_mirror := (read_mirror rb \<noteq> (N \<le> read_index rb + n)),
       read_index := (read_index rb + n) mod N\<rparr>"
    have nd: "n \<le> d" and l: "(if d < len then d else len) = n" using n lc by auto
    have room: "buffer_size rb - int (read_index rb) = int (N - read_index rb)"
      using r(1,5) by simp
    have bs: "take n M = take n (drop (read_index rb) (rb_ring rb)) @ take (n - (N - read_index rb)) (rb_ring rb)"
    proof -
      have "n + read_index rb - N \<le> read_index rb" using nd rep(1) by simp
      then show ?thesis using r(5,7) by (simp add: M_def rotate_eq min_absorb1)
    qed
    have g: "rt_ringbuffer_get rb len = Some (n, take n M, rb')"
    proof (cases "n < N - read_index rb")
      case True
      then have "(read_index rb + n) mod N = read_index rb + n" "\<not> N \<le> read_index rb + n" by auto
      moreover have "take n (drop (read_index rb) (buffer_ptr rb)) = take n (drop (read_index rb) (rb_ring rb))"
        using True by (simp add: rb_ring_def N_def [symmetric] drop_take min_def)
      moreover have "rb\<lparr>read_mirror := read_mirror rb, read_index := x\<rparr> = rb\<lparr>read_index := x\<rparr>" for x
        by (cases rb) simp
      ultimately show ?thesis
        using True False r(3,4) less_imp_of_nat_less [OF True, where ?'a = int] bs
        unfolding rt_ringbuffer_get_def Let_def room d_def [symmetric] l
        by (simp add: arr_read_def rb'_def)
    next
      case False': False
      define k where "k = N - read_index rb"
      have k: "k \<le> n" "read_index rb + k = N" "n - k < N" using False' r(5) nd rep(1) r(2) by (auto simp: k_def)
      have "n - k < 2 ^ 15" using k(3) r(3) by simp
      note i = diff_bits15 [OF k(1) this]
      have w: "(read_index rb + n) mod N = n - k" "N \<le> read_index rb + n"
      proof -
        have "read_index rb + n = N + (n - k)" using k by simp
        with k(3) show "(read_index rb + n) mod N = n - k" "N \<le> read_index rb + n" by simp_all
      qed
      have p: "take n (drop (read_index rb) (rb_ring rb)) = take k (drop (read_index rb) (buffer_ptr rb))"
        "take (n - k) (rb_ring rb) = take (n - k) (buffer_ptr rb)"
        using k r(4) by (simp_all add: rb_ring_def N_def [symmetric] drop_take k_def [symmetric] min_def)
      show ?thesis
        using False k r(4) bs unfolding rt_ringbuffer_get_def room k_def [symmetric] d_def [symmetric] Let_def l i
        by (simp add: arr_read_def rb'_def w p)
    qed
    have w: "write_index rb' = (read_index rb' + (d - n)) mod N"
      using nd mod_add_left_eq [of "read_index rb + n" N "d - n"] by (simp add: rb'_def rep(2))
    have m: "read_mirror rb' \<noteq> write_mirror rb' \<longleftrightarrow> N \<le> read_index rb' + (d - n)"
    proof (cases "N \<le> read_index rb + n")
      case True
      then have "(read_index rb + n) mod N = read_index rb + n - N" using r(5) nd rep(1) by (simp add: mod_if)
      moreover have "\<not> N \<le> read_index rb + n - N + (d - n)" using True rep(1) r(5) nd by simp
      ultimately show ?thesis using True rep(3) nd by (auto simp: rb'_def)
    next
      case False
      then show ?thesis using rep(3) nd by (auto simp: rb'_def)
    qed
    have dN: "d - n \<le> N" using rep(1) by simp
    have st: "rb_ok rb'" "rt_ringbuffer_data_len rb' = d - n" "rb_cap rb' = N"
      using rb_ok_rep [of N rb' "d - n", OF _ _ _ _ _ dN w m] r by (simp_all add: rb'_def)
    have "rotate ((read_index rb + n) mod N) (rb_ring rb) = rotate n M"
      unfolding M_def by (rule rotate_mod_add [OF r(7)])
    then have "rb_content rb' = take (d - n) (rotate n M)"
      by (simp add: rb_content_def st) (simp add: rb'_def rb_ring_def rb_cap_def)
    also have "\<dots> = drop n (take d M)"
      using nd rep(1) lM by (cases "n = N") (simp_all add: rotate_eq drop_take)
    finally have "rb_content rb' = drop n (rb_content rb)" by (simp add: cont)
    moreover have "drop n (rb_content rb) = drop len (rb_content rb)" "take n M = take len (rb_content rb)"
      using n lc nd lM rep(1) by (simp_all add: cont min_def)
    ultimately show ?thesis using g st by (simp add: N_def)
  qed
qed


lemma write_over_state:
  assumes ok: "rb_ok rb" and n: "n \<le> length ptr" "n \<le> rb_cap rb" "rb_cap rb < length (rb_content rb) + n"
  obtains rb' where "write_bytes rb ptr n = Some rb'" "rb_cap rb' = rb_cap rb" "read_mirror rb' = read_mirror rb"
    "read_index rb' = read_index rb" "\<And>m. m \<noteq> write_mirror rb' \<Longrightarrow>
       rb_ok (rb'\<lparr>read_mirror := m, read_index := write_index rb'\<rparr>) \<and>
       rb_content (rb'\<lparr>read_mirror := m, read_index := write_index rb'\<rparr>) =
         drop (length (rb_content rb) + n - rb_cap rb) (rb_content rb) @ take n ptr"
    "buffer_size rb - int (write_index rb) > int n \<Longrightarrow> read_mirror rb' \<noteq> write_mirror rb'"
    "\<not> buffer_size rb - int (write_index rb) > int n \<Longrightarrow>
       (read_mirror rb' \<noteq> write_mirror rb') = (\<not> write_index rb' \<le> read_index rb')"
proof -
  define d where "d = rt_ringbuffer_data_len rb"
  define N where "N = rb_cap rb"
  note r = rb_okD [OF ok, folded N_def] and rep = rb_rep [OF ok, folded d_def N_def]
  have lc: "length (rb_content rb) = d" by (simp add: length_rb_content [OF ok] d_def)
  have dn: "N < d + n" "n \<le> N" using n lc by (simp_all add: N_def)
  obtain buf where b: "write_bytes rb ptr n = Some (rb\<lparr>buffer_ptr := buf,
      write_mirror := (write_mirror rb \<noteq> (rb_cap rb \<le> write_index rb + n)),
      write_index := (write_index rb + n) mod rb_cap rb\<rparr>)"
    "length buf = length (buffer_ptr rb)"
    "rotate (write_index rb) (take (rb_cap rb) buf) = take n ptr @ drop n (rotate (write_index rb) (rb_ring rb))"
    by (rule write_bytes_ring [OF ok n(2,1)])
  define rb' where "rb' = rb\<lparr>buffer_ptr := buf,
      write_mirror := (write_mirror rb \<noteq> (rb_cap rb \<le> write_index rb + n)),
      write_index := (write_index rb + n) mod rb_cap rb\<rparr>"
  have full: "rb_ok rb2 \<and> rb_content rb2 = drop (d + n - N) (rb_content rb) @ take n ptr"
    if m: "m \<noteq> write_mirror rb'" and rb2: "rb2 = rb'\<lparr>read_mirror := m, read_index := write_index rb'\<rparr>" for m rb2
  proof -
    have st: "rb_ok rb2" "rt_ringbuffer_data_len rb2 = N" "rb_cap rb2 = N"
      using rb_ok_rep [of N rb2 N] m r b(2) by (simp_all add: rb2 rb'_def N_def [symmetric])
    have "rb_content rb2 = rotate ((write_index rb + n) mod N) (take N buf)"
      using r b(2) by (simp add: rb_content_def st rb_ring_def) (simp add: rb2 rb'_def N_def [symmetric])
    also have "\<dots> = rotate ((write_index rb + length (take n ptr)) mod N) (take N buf)"
      using n(1) by (simp add: min_absorb2)
    also have "\<dots> = drop (d + length (take n ptr) - N) (take d (rotate (read_index rb) (rb_ring rb))) @ take n ptr"
      using n(1) dn r rep(1,2) b(2,3)
      by (intro ring_write_over [where r = "read_index rb"]) (simp_all add: N_def [symmetric] min_absorb2)
    finally show ?thesis using st n(1) by (simp add: rb_content_def d_def min_absorb2)
  qed
  have w: "write_index rb = (if N \<le> read_index rb + d then read_index rb + d - N else read_index rb + d)"
    using rep(1,2) r(5) by (simp add: mod_if)
  have gt: "(buffer_size rb - int (write_index rb) > int n) = (write_index rb + n < N)"
    using r(1) by auto
  show thesis
  proof (rule that [of rb'])
    show "buffer_size rb - int (write_index rb) > int n \<Longrightarrow> read_mirror rb' \<noteq> write_mirror rb'"
      using w dn rep(3) gt by (auto simp: rb'_def N_def [symmetric] split: if_splits)
    show "(read_mirror rb' \<noteq> write_mirror rb') = (\<not> write_index rb' \<le> read_index rb')"
      if a: "\<not> buffer_size rb - int (write_index rb) > int n"
    proof -
      have "write_index rb' = write_index rb + n - N" "N \<le> write_index rb + n"
        using a gt dn r(6) by (auto simp: rb'_def N_def [symmetric] mod_if)
      moreover have "(write_index rb + n - N \<le> read_index rb) = (N \<le> read_index rb + d)"
        using w dn rep(1) r(5) by (cases "N \<le> read_index rb + d") simp_all
      ultimately show ?thesis using rep(3) by (simp add: rb'_def N_def [symmetric])
    qed
    show "rb_ok (rb'\<lparr>read_mirror := m, read_index := write_index rb'\<rparr>) \<and>
       rb_content (rb'\<lparr>read_mirror := m, read_index := write_index rb'\<rparr>) =
         drop (length (rb_content rb) + n - rb_cap rb) (rb_content rb) @ take n ptr"
      if "m \<noteq> write_mirror rb'" for m
      using full [OF that refl] lc by (simp add: N_def)
  qed (simp_all add: b(1) rb'_def rb_cap_def)
qed


lemma put_force_spec:
  assumes ok: "rb_ok rb" and len: "len \<le> length ptr" "len < 2 ^ 16"
  defines "all \<equiv> rb_content rb @ take len ptr"
  shows "\<exists>rb'. rt_ringbuffer_put_force rb ptr len = Some (min len (rb_cap rb), rb') \<and> rb_ok rb' \<and>
    rb_cap rb' = rb_cap rb \<and> rb_content rb' = drop (length all - rb_cap rb) all"
proof -
  define N where "N = rb_cap rb"
  define n where "n = min len N"
  define q where "q = (if len > N then drop (len - N) ptr else ptr)"
  note r = rb_okD [OF ok, folded N_def]
  have cN: "length (rb_content rb) \<le> N" using rb_rep(1) [OF ok] by (simp add: length_rb_content [OF ok] N_def)
  have sp: "rt_ringbuffer_space_len rb mod 2 ^ 16 = N - length (rb_content rb)"
    using r(3) by (simp add: space_len_eq [OF ok] N_def)
  have iN: "nat (int N mod 2 ^ 16) = N" using r(3) by simp
  have cut: "(if int len > buffer_size rb
       then (drop (nat (int len - buffer_size rb)) ptr, nat (buffer_size rb mod 2 ^ 16)) else (ptr, len)) = (q, n)"
    using r(1) iN by (auto simp: q_def n_def nat_diff_distrib)
  have nq: "n \<le> length q" "n \<le> rb_cap rb" using len by (auto simp: n_def q_def N_def)
  have tq: "take n q = drop (len - N) (take len ptr)"
    using len by (auto simp: n_def q_def drop_take min_def)
  have lall: "length all = length (rb_content rb) + len" using len by (simp add: all_def)
  have unf: "rt_ringbuffer_put_force rb ptr len = map_option (\<lambda>rb'.
      (n, if n > N - length (rb_content rb)
          then if \<not> buffer_size rb - int (write_index rb) > int n
               then rb'\<lparr>read_mirror := (if write_index rb' \<le> read_index rb' then \<not> read_mirror rb' else read_mirror rb'),
                        read_index := write_index rb'\<rparr>
               else rb'\<lparr>read_index := write_index rb'\<rparr>
          else rb')) (write_bytes rb q n)"
    unfolding rt_ringbuffer_put_force_def sp Let_def cut prod.case by (rule refl)
  show ?thesis
  proof (cases "length (rb_content rb) + n \<le> N")
    case True
    from write_room_state [OF ok nq(1) True [unfolded N_def]] obtain rb' where
      w: "write_bytes rb q n = Some rb'" "rb_ok rb'" "rb_cap rb' = rb_cap rb"
      "rb_content rb' = rb_content rb @ take n q" .
    have "len \<le> N \<or> rb_content rb = []" using True by (auto simp: n_def min_def split: if_splits)
    then have "rb_content rb @ take n q = drop (length all - N) all"
      using True unfolding tq by (auto simp: lall) (auto simp: all_def n_def)
    moreover have "rt_ringbuffer_put_force rb ptr len = Some (n, rb')"
      using True unfolding unf w(1) by simp
    ultimately show ?thesis using w by (simp add: n_def N_def)
  next
    case False
    then have over: "rb_cap rb < length (rb_content rb) + n" by (simp add: N_def)
    have tail: "drop (length (rb_content rb) + n - N) (rb_content rb) @ take n q = drop (length all - N) all"
      using False cN unfolding tq by (cases "len \<le> N") (simp_all add: lall n_def, simp_all add: all_def)
    obtain rb' where w: "write_bytes rb q n = Some rb'" "rb_cap rb' = rb_cap rb"
      "\<And>m. m \<noteq> write_mirror rb' \<Longrightarrow>
         rb_ok (rb'\<lparr>read_mirror := m, read_index := write_index rb'\<rparr>) \<and>
         rb_content (rb'\<lparr>read_mirror := m, read_index := write_index rb'\<rparr>) =
           drop (length (rb_content rb) + n - rb_cap rb) (rb_content rb) @ take n q"
      "buffer_size rb - int (write_index rb) > int n \<Longrightarrow> read_mirror rb' \<noteq> write_mirror rb'"
      "\<not> buffer_size rb - int (write_index rb) > int n \<Longrightarrow>
         (read_mirror rb' \<noteq> write_mirror rb') = (\<not> write_index rb' \<le> read_index rb')"
      by (rule write_over_state [OF ok nq over]) metis
    define m where "m = (if \<not> buffer_size rb - int (write_index rb) > int n \<and> write_index rb' \<le> read_index rb'
      then \<not> read_mirror rb' else read_mirror rb')"
    have m: "m \<noteq> write_mirror rb'"
      using w(4,5) by (auto simp: m_def)
    have "rt_ringbuffer_put_force rb ptr len = Some (n, rb'\<lparr>read_mirror := m, read_index := write_index rb'\<rparr>)"
    proof -
      have "n > N - length (rb_content rb)" using False cN by simp
      then show ?thesis unfolding unf w(1) m_def by (cases rb') simp
    qed
    moreover have "rb_cap (rb'\<lparr>read_mirror := m, read_index := write_index rb'\<rparr>) = rb_cap rb"
      using w(2) by (simp add: rb_cap_def)
    ultimately show ?thesis
      using w(3) [OF m] tail by (simp add: n_def N_def)
  qed
qed

text \<open>The single-byte operations are the one-byte cases.\<close>

lemma pool_write_1: "length xs = n \<Longrightarrow> i < n \<Longrightarrow> arr_write xs i [c] = Some (xs[i := c])"
  by (simp add: arr_write_def upd_conv_take_nth_drop)

lemma write_bytes_1:
  assumes "rb_ok rb"
  shows "write_bytes rb [ch] 1 = Option.bind (arr_write (buffer_ptr rb) (write_index rb) [ch]) (\<lambda>buf.
    Some (if int (write_index rb) = buffer_size rb - 1
      then rb\<lparr>buffer_ptr := buf, write_mirror := \<not> write_mirror rb, write_index := 0\<rparr>
      else rb\<lparr>buffer_ptr := buf, write_index := bits15 (int (write_index rb) + 1)\<rparr>))"
  using rb_okD [OF assms] by (auto simp: write_bytes_def arr_read_def arr_write_def Let_def)

lemma pool_write_ok:
  "rb_ok rb \<Longrightarrow> arr_write (buffer_ptr rb) (write_index rb) [ch] = Some ((buffer_ptr rb)[write_index rb := ch])"
  using rb_okD(4,6) [of rb] by (intro pool_write_1 [OF refl]) simp

lemma putchar_eq: "rb_ok rb \<Longrightarrow> rt_ringbuffer_putchar rb ch = rt_ringbuffer_put rb [ch] 1"
proof -
  assume ok: "rb_ok rb"
  have sp: "rt_ringbuffer_space_len rb mod 2 ^ 16 = rt_ringbuffer_space_len rb"
    using rb_okD(3) [OF ok] by (simp add: space_len_eq [OF ok])
  have one: "(if x < 1 then x else 1) = (1::nat)" if "x \<noteq> 0" for x using that by auto
  show ?thesis
    using one [of "rt_ringbuffer_space_len rb"]
    unfolding rt_ringbuffer_putchar_def rt_ringbuffer_put_def sp Let_def
    by (cases "rt_ringbuffer_space_len rb = 0")
      (simp_all only: write_bytes_1 [OF ok] pool_write_ok [OF ok] bind.simps option.map if_True if_False
        ringbuffer.simps split: if_split, simp_all)
qed

lemma putchar_force_eq: "rb_ok rb \<Longrightarrow> rt_ringbuffer_putchar_force rb ch = rt_ringbuffer_put_force rb [ch] 1"
proof -
  assume ok: "rb_ok rb"
  note r = rb_okD [OF ok]
  have cN: "length (rb_content rb) \<le> rb_cap rb" using rb_rep(1) [OF ok] by (simp add: length_rb_content [OF ok])
  have sp: "rt_ringbuffer_space_len rb mod 2 ^ 16 = rb_cap rb - length (rb_content rb)"
    using r(3) by (simp add: space_len_eq [OF ok])
  have full: "rt_ringbuffer_status rb = RT_RINGBUFFER_FULL \<longleftrightarrow> 1 > rb_cap rb - length (rb_content rb)"
    using ok r(2,5,6)
    unfolding rt_ringbuffer_status_def length_rb_content [OF ok] data_len_eq [OF ok] rb_ok_def
    by (cases "read_mirror rb = write_mirror rb") auto
  have cut: "(int 1 > buffer_size rb) = False" using r by simp
  have wr: "\<not> buffer_size rb - int (write_index rb) > int 1 \<longleftrightarrow> int (write_index rb) = buffer_size rb - 1"
    using r by auto
  show ?thesis
    unfolding rt_ringbuffer_putchar_force_def rt_ringbuffer_put_force_def sp Let_def cut if_False prod.case
      wr full [symmetric] write_bytes_1 [OF ok] pool_write_ok [OF ok]
    by (auto simp: rt_ringbuffer_status_def simp del: One_nat_def)
qed

lemma getchar_eq:
  assumes ok: "rb_ok rb"
  shows "rt_ringbuffer_getchar rb =
    map_option (\<lambda>(n, bs, rb'). (n, (case bs of [] \<Rightarrow> None | b # _ \<Rightarrow> Some b), rb')) (rt_ringbuffer_get rb 1)"
proof -
  note r = rb_okD [OF ok]
  have one: "(if x < 1 then x else 1) = (1::nat)" if "x \<noteq> 0" for x using that by auto
  have rd: "arr_read (buffer_ptr rb) (read_index rb) 1 = Some [buffer_ptr rb ! read_index rb]"
    using r by (simp add: arr_read_def take_Suc_conv_app_nth hd_drop_conv_nth take_Suc drop_eq_Nil)
  have wr: "buffer_size rb - int (read_index rb) > int 1 \<longleftrightarrow> int (read_index rb) \<noteq> buffer_size rb - 1"
    using r by auto
  show ?thesis
    using one [of "rt_ringbuffer_data_len rb"] rd wr
    unfolding rt_ringbuffer_getchar_def rt_ringbuffer_get_def Let_def
    by (auto simp: arr_read_def)
qed


lemma init_ok:
  assumes "4 \<le> sz" "sz < 2 ^ 15" "sz \<le> int (length pool)"
  obtains rb where "rt_ringbuffer_init pool sz = Some rb" "rb_ok rb" "rb_content rb = []"
    "rb_cap rb = nat (sz div 4 * 4)"
proof -
  define rb where "rb = \<lparr>buffer_ptr = pool, read_mirror = False, read_index = 0, write_mirror = False,
       write_index = 0, buffer_size = sz div 4 * 4\<rparr>"
  have "rt_ringbuffer_init pool sz = Some rb"
    using assms int_align_down [of sz] by (simp only: rt_ringbuffer_init_def rb_def bind_assert_that) simp
  moreover have "rb_ok rb" "rb_cap rb = nat (sz div 4 * 4)"
    using assms by (auto simp: rb_ok_def rb_cap_def rb_def)
  moreover have "rb_content rb = []"
    by (simp add: rb_content_def rb_def rt_ringbuffer_data_len_def rt_ringbuffer_status_def)
  ultimately show thesis using that by blast
qed

lemma reset_ok:
  assumes "rb_ok rb"
  shows "rb_ok (rt_ringbuffer_reset rb)" "rb_content (rt_ringbuffer_reset rb) = []"
    "rb_cap (rt_ringbuffer_reset rb) = rb_cap rb"
  using assms by (simp_all add: rt_ringbuffer_reset_def rb_ok_def rb_cap_def rb_content_def
      rt_ringbuffer_data_len_def rt_ringbuffer_status_def)

lemma peak_spec:
  assumes ok: "rb_ok rb"
  defines "n \<equiv> min (length (rb_content rb)) (rb_cap rb - read_index rb)"
  obtains rb' where
    "rt_ringbuffer_peak rb = (n, (if rb_content rb = [] then None else Some (read_index rb)), rb')"
    "rb_ok rb'" "rb_cap rb' = rb_cap rb" "rb_content rb' = drop n (rb_content rb)"
    "take n (drop (read_index rb) (buffer_ptr rb)) = take n (rb_content rb)"
proof -
  define d where "d = rt_ringbuffer_data_len rb"
  define N where "N = rb_cap rb"
  note r = rb_okD [OF ok, folded N_def] and rep = rb_rep [OF ok, folded d_def N_def]
  have lc: "length (rb_content rb) = d" by (simp add: length_rb_content [OF ok] d_def)
  have n: "n = min d (N - read_index rb)" by (simp add: n_def lc N_def)
  have n16: "n < 2 ^ 16" using n r(3) by simp
  obtain rb' where g: "rt_ringbuffer_get rb n = Some (n, take n (rb_content rb), rb')"
    "rb_ok rb'" "rb_cap rb' = rb_cap rb" "rb_content rb' = drop n (rb_content rb)"
    using get_spec [OF ok n16, of n] n lc by auto
  have bs: "take n (drop (read_index rb) (buffer_ptr rb)) = take n (rb_content rb)"
  proof -
    have "take n (drop (read_index rb) (buffer_ptr rb)) = take n (drop (read_index rb) (rb_ring rb))"
      using n by (simp add: rb_ring_def N_def [symmetric] drop_take min_absorb1)
    also have "\<dots> = take n (rb_content rb)"
      using n r(5,7) by (simp add: rb_content_def rotate_eq d_def [symmetric] min_absorb1)
    finally show ?thesis .
  qed
  have "rt_ringbuffer_peak rb = (n, (if rb_content rb = [] then None else Some (read_index rb)), rb')"
  proof (cases "d = 0")
    case True
    then have "rt_ringbuffer_data_len rb = 0" "n = 0" "rb_content rb = []" using n lc by (simp_all add: d_def)
    then show ?thesis using g(1) by (simp add: rt_ringbuffer_peak_def rt_ringbuffer_get_def)
  next
    case False
    define k where "k = N - read_index rb"
    have k: "buffer_size rb - int (read_index rb) = int k" "0 < k" "k < 2 ^ 15"
      using r(1,3,5) by (simp_all add: k_def)
    have ne: "(rb_content rb = []) = False" using False lc by auto
    have dn: "(d < n) = False" using n by simp
    have d0: "(d = 0) = False" using False by simp
    have kk: "nat (int k mod 2 ^ 32) = k" using k(3) by simp
    show ?thesis
    proof (cases "k > d")
      case True
      then have nn: "n = d" using n by (simp add: k_def)
      have "int k > int d" using True by simp
      then show ?thesis
        using g(1) True unfolding rt_ringbuffer_peak_def rt_ringbuffer_get_def d_def [symmetric] Let_def k d0 kk ne dn if_False nn
        by (auto split: bind_splits)
    next
      case False
      then have nn: "n = k" using n by (simp add: k_def)
      have "\<not> int k > int k" "nat (int k - int k) = 0" by simp_all
      then show ?thesis
        using g(1) False dn unfolding rt_ringbuffer_peak_def rt_ringbuffer_get_def d_def [symmetric] Let_def k d0 kk ne nn if_False
        by (auto split: bind_splits if_splits)
    qed
  qed
  with g bs show thesis by (intro that [of rb'])
qed

section \<open>The ring buffer is a byte queue\<close>

definition rb_put :: "ringbuffer \<Rightarrow> u8 list \<Rightarrow> (nat \<times> ringbuffer) option" where
  "rb_put rb bs = rt_ringbuffer_put rb bs (length bs)"

definition rb_get :: "ringbuffer \<Rightarrow> nat \<Rightarrow> (u8 list \<times> ringbuffer) option" where
  "rb_get rb k = map_option snd (rt_ringbuffer_get rb k)"

interpretation ring: byte_queue rb_ok rb_content rb_cap rb_put rb_get
proof unfold_locales
  show "length (rb_content s) \<le> rb_cap s" if "rb_ok s" for s
    using rb_rep(1) [OF that] by (simp add: length_rb_content [OF that])
  show "\<exists>s'. rb_put s bs = Some (n, s') \<and> rb_ok s' \<and> rb_cap s' = rb_cap s \<and>
      rb_content s' = rb_content s @ take n bs"
    if "rb_ok s" "length bs < 2 ^ 16" "n = min (length bs) (rb_cap s - length (rb_content s))" for s bs n
    unfolding rb_put_def using put_spec [OF that(1) order_refl that(2,3)] .
  show "\<exists>s'. rb_get s k = Some (take k (rb_content s), s') \<and> rb_ok s' \<and> rb_cap s' = rb_cap s \<and>
      rb_content s' = drop k (rb_content s)"
    if "rb_ok s" "k < 2 ^ 16" for s k
    using get_spec [OF that refl] by (auto simp: rb_get_def)
qed

section \<open>Properties\<close>

text \<open>C29: every operation of the ring buffer implements the bounded byte queue of capacity
  \<open>buffer_size\<close>, with no access outside of the pool and the invariant kept:
  \<open>rt_ringbuffer_put\<close> appends as much as fits and returns that count,
  \<open>rt_ringbuffer_get\<close> delivers and removes the oldest bytes, \<open>rt_ringbuffer_putchar\<close> and
  \<open>rt_ringbuffer_getchar\<close> are their one-byte cases and \<open>rt_ringbuffer_data_len\<close> is the number
  of stored bytes.\<close>

theorem ringbuffer_refines_queue:
  assumes "rb_ok rb" "len \<le> length ptr" "len < 2 ^ 16"
  shows "(\<exists>rb'. rt_ringbuffer_put rb ptr len = Some (min len (rb_cap rb - length (rb_content rb)), rb') \<and> rb_ok rb'
      \<and> rb_content rb' = rb_content rb @ take (min len (rb_cap rb - length (rb_content rb))) ptr)
    \<and> (\<exists>rb'. rt_ringbuffer_get rb len = Some (min len (length (rb_content rb)), take len (rb_content rb), rb')
      \<and> rb_ok rb' \<and> rb_content rb' = drop len (rb_content rb))
    \<and> (\<exists>rb'. rt_ringbuffer_putchar rb ch = Some (if length (rb_content rb) < rb_cap rb then 1 else 0, rb') \<and> rb_ok rb'
      \<and> rb_content rb' = (if length (rb_content rb) < rb_cap rb then rb_content rb @ [ch] else rb_content rb))
    \<and> (\<exists>rb'. rt_ringbuffer_getchar rb =
        (case rb_content rb of [] \<Rightarrow> Some (0, None, rb') | c # cs \<Rightarrow> Some (1, Some c, rb'))
      \<and> rb_ok rb' \<and> rb_content rb' = tl (rb_content rb))
    \<and> rt_ringbuffer_data_len rb = length (rb_content rb)"
proof (intro conjI)
  show "\<exists>rb'. rt_ringbuffer_put rb ptr len = Some (min len (rb_cap rb - length (rb_content rb)), rb') \<and> rb_ok rb'
      \<and> rb_content rb' = rb_content rb @ take (min len (rb_cap rb - length (rb_content rb))) ptr"
    using put_spec [OF assms refl] by blast
  show "\<exists>rb'. rt_ringbuffer_get rb len = Some (min len (length (rb_content rb)), take len (rb_content rb), rb')
      \<and> rb_ok rb' \<and> rb_content rb' = drop len (rb_content rb)"
    using get_spec [OF assms(1,3) refl] by blast
  have "(1::nat) \<le> length [ch]" "(1::nat) < 2 ^ 16" by simp_all
  from put_spec [OF assms(1) this refl]
  show "\<exists>rb'. rt_ringbuffer_putchar rb ch = Some (if length (rb_content rb) < rb_cap rb then 1 else 0, rb') \<and> rb_ok rb'
      \<and> rb_content rb' = (if length (rb_content rb) < rb_cap rb then rb_content rb @ [ch] else rb_content rb)"
    unfolding putchar_eq [OF assms(1)]
    by (cases "length (rb_content rb) < rb_cap rb") (auto simp: min_absorb1)
  from get_spec [OF assms(1) \<open>1 < 2 ^ 16\<close> refl]
  show "\<exists>rb'. rt_ringbuffer_getchar rb =
        (case rb_content rb of [] \<Rightarrow> Some (0, None, rb') | c # cs \<Rightarrow> Some (1, Some c, rb'))
      \<and> rb_ok rb' \<and> rb_content rb' = tl (rb_content rb)"
    unfolding getchar_eq [OF assms(1)] by (cases "rb_content rb") auto
qed (simp add: length_rb_content assms(1))

theorem ringbuffer_refines_queue_witness:
  "\<exists>rb rb'. rt_ringbuffer_init (replicate 8 0) 8 = Some rb \<and> rt_ringbuffer_put rb [1, 2, 3, 4, 5, 6, 7, 8, 9] 9 = Some (8, rb')
    \<and> rb_content rb' = [1, 2, 3, 4, 5, 6, 7, 8]"
proof -
  obtain rb where rb: "rt_ringbuffer_init (replicate 8 0) 8 = Some rb" "rb_ok rb" "rb_content rb = []" "rb_cap rb = 8"
    by (rule init_ok [of 8 "replicate 8 (0 :: u8)"]) simp_all
  have "(9::nat) \<le> length [1, 2, 3, 4, 5, 6, 7, 8, 9 :: u8]" "(9::nat) < 2 ^ 16" by simp_all
  from ringbuffer_refines_queue [OF rb(2) this] rb show ?thesis by auto
qed

text \<open>\<open>rt_ringbuffer_put_force\<close> never refuses data: afterwards the buffer holds the last
  \<open>buffer_size\<close> bytes of the old content followed by the new data, whatever the position of the
  indices and of the mirror bits, and the count is the number of new bytes kept;
  \<open>rt_ringbuffer_putchar_force\<close> is the one-byte case.\<close>

theorem put_force_keeps_latest:
  assumes "rb_ok rb" "len \<le> length ptr" "len < 2 ^ 16"
  shows "(\<exists>rb'. rt_ringbuffer_put_force rb ptr len = Some (min len (rb_cap rb), rb') \<and> rb_ok rb' \<and>
      rb_content rb' = drop (length (rb_content rb) + len - rb_cap rb) (rb_content rb @ take len ptr))
    \<and> (\<exists>rb'. rt_ringbuffer_putchar_force rb ch = Some (1, rb') \<and> rb_ok rb' \<and>
      rb_content rb' = drop (length (rb_content rb) + 1 - rb_cap rb) (rb_content rb @ [ch]))"
proof (intro conjI)
  show "\<exists>rb'. rt_ringbuffer_put_force rb ptr len = Some (min len (rb_cap rb), rb') \<and> rb_ok rb' \<and>
      rb_content rb' = drop (length (rb_content rb) + len - rb_cap rb) (rb_content rb @ take len ptr)"
    using put_force_spec [OF assms] assms(2) by (auto simp: min_absorb2)
  have "(1::nat) \<le> length [ch]" "(1::nat) < 2 ^ 16" "min 1 (rb_cap rb) = 1"
    using rb_okD(2) [OF assms(1)] by simp_all
  with put_force_spec [OF assms(1) this(1,2)]
  show "\<exists>rb'. rt_ringbuffer_putchar_force rb ch = Some (1, rb') \<and> rb_ok rb' \<and>
      rb_content rb' = drop (length (rb_content rb) + 1 - rb_cap rb) (rb_content rb @ [ch])"
    unfolding putchar_force_eq [OF assms(1)] by auto
qed

theorem put_force_keeps_latest_witness:
  "\<exists>rb rb'. rt_ringbuffer_init (replicate 4 0) 4 = Some rb \<and> rt_ringbuffer_put_force rb [1, 2, 3, 4, 5, 6] 6 = Some (4, rb')
    \<and> rb_content rb' = [3, 4, 5, 6]"
proof -
  obtain rb where rb: "rt_ringbuffer_init (replicate 4 0) 4 = Some rb" "rb_ok rb" "rb_content rb = []" "rb_cap rb = 4"
    by (rule init_ok [of 4 "replicate 4 (0 :: u8)"]) simp_all
  have "(6::nat) \<le> length [1, 2, 3, 4, 5, 6 :: u8]" "(6::nat) < 2 ^ 16" by simp_all
  from put_force_keeps_latest [OF rb(2) this] rb show ?thesis by auto
qed

text \<open>A ring buffer is a lossless first-in first-out byte stream: after any sequence of
  \<open>rt_ringbuffer_put\<close> and \<open>rt_ringbuffer_get\<close> calls on a freshly initialised buffer, none of
  which goes wrong, the bytes the puts accepted are exactly the bytes the gets delivered followed
  by the bytes still stored.\<close>

theorem ringbuffer_stream:
  assumes "4 \<le> sz" "sz < 2 ^ 15" "sz \<le> int (length pool)" "list_all qop_ok ops"
  shows "\<exists>rb acc del rb'. rt_ringbuffer_init pool sz = Some rb \<and>
    queue_run rb_put rb_get ops rb = Some (acc, del, rb') \<and> rb_ok rb' \<and> acc = del @ rb_content rb'"
proof -
  obtain rb where rb: "rt_ringbuffer_init pool sz = Some rb" "rb_ok rb" "rb_content rb = []"
    by (rule init_ok [OF assms(1-3)])
  with ring.run_fifo [OF rb(2) assms(4)] show ?thesis by auto
qed

theorem ringbuffer_stream_witness:
  "\<exists>rb acc del rb'. rt_ringbuffer_init (replicate 4 0) 4 = Some rb \<and>
    queue_run rb_put rb_get [QPut [1, 2, 3], QGet 2, QPut [4, 5, 6, 7], QGet 9] rb = Some (acc, del, rb')
    \<and> rb_ok rb' \<and> acc = del @ rb_content rb'"
  by (rule ringbuffer_stream) (simp_all add: qop_ok_def)

section \<open>Small buffers\<close>

text \<open>A pool of fewer than four bytes passes the check of \<open>rt_ringbuffer_init\<close> but its size is
  rounded down to nothing; then \<open>rt_ringbuffer_putchar_force\<close> runs off the pool.\<close>

lemma init_rounds_to_zero:
  "\<exists>rb rb1. rt_ringbuffer_init [0] 1 = Some rb \<and> buffer_size rb = 0 \<and>
    rt_ringbuffer_putchar_force rb 7 = Some (1, rb1) \<and> rt_ringbuffer_putchar_force rb1 8 = None"
proof -
  have "(1::int) AND NOT 3 = 0" by simp
  then show ?thesis
    by (simp add: rt_ringbuffer_init_def rt_ringbuffer_putchar_force_def rt_ringbuffer_status_def arr_write_def Let_def)
qed

end
