(* ===== verification/RtList.thy ===== *)
theory RtList
  imports Prelude
begin

text \<open>
  The intrusive lists of \<^verbatim>\<open>rt-thread/include/rtservice.h\<close> at the level of their links:
  nodes are addresses, the circular doubly linked list \<open>rt_list_t\<close> is a pair of link maps and
  the singly linked \<open>rt_slist_t\<close> one map to optional nodes. The abstraction \<open>dlist\<close> reads the
  HOL list off a head, and each operation is shown to act on it as the list operation with which
  the kernel theories model it (\<open>insert_before\<close> on a head appends, \<open>insert_after\<close> pushes in
  front, \<open>remove\<close> deletes the node wherever it is); links of other lists are untouched. Loops
  over the links are partial functions, so that running around a broken list is \<open>None\<close>.
\<close>

section \<open>Doubly linked lists\<close>

record links =
  lnext :: "nat \<Rightarrow> nat"
  lprev :: "nat \<Rightarrow> nat"

definition rt_list_init :: "nat \<Rightarrow> links \<Rightarrow> links" where
  "rt_list_init l h = (let h = h\<lparr>lprev := (lprev h)(l := l)\<rparr> in h\<lparr>lnext := (lnext h)(l := l)\<rparr>)"

definition rt_list_insert_after :: "nat \<Rightarrow> nat \<Rightarrow> links \<Rightarrow> links" where
  "rt_list_insert_after l n h =
    (let h = h\<lparr>lprev := (lprev h)(lnext h l := n)\<rparr>;
         h = h\<lparr>lnext := (lnext h)(n := lnext h l)\<rparr>;
         h = h\<lparr>lnext := (lnext h)(l := n)\<rparr>
     in h\<lparr>lprev := (lprev h)(n := l)\<rparr>)"

definition rt_list_insert_before :: "nat \<Rightarrow> nat \<Rightarrow> links \<Rightarrow> links" where
  "rt_list_insert_before l n h =
    (let h = h\<lparr>lnext := (lnext h)(lprev h l := n)\<rparr>;
         h = h\<lparr>lprev := (lprev h)(n := lprev h l)\<rparr>;
         h = h\<lparr>lprev := (lprev h)(l := n)\<rparr>
     in h\<lparr>lnext := (lnext h)(n := l)\<rparr>)"

definition rt_list_remove :: "nat \<Rightarrow> links \<Rightarrow> links" where
  "rt_list_remove n h =
    (let h = h\<lparr>lprev := (lprev h)(lnext h n := lprev h n)\<rparr>;
         h = h\<lparr>lnext := (lnext h)(lprev h n := lnext h n)\<rparr>;
         h = h\<lparr>lprev := (lprev h)(n := n)\<rparr>
     in h\<lparr>lnext := (lnext h)(n := n)\<rparr>)"

definition rt_list_isempty :: "nat \<Rightarrow> links \<Rightarrow> bool" where
  "rt_list_isempty l h \<longleftrightarrow> lnext h l = l"

partial_function (option) list_len_loop :: "links \<Rightarrow> nat \<Rightarrow> nat \<Rightarrow> nat \<Rightarrow> nat option" where
  "list_len_loop h l p len =
    (if lnext h p \<noteq> l then list_len_loop h l (lnext h p) (Suc len) else Some len)"

definition rt_list_len :: "nat \<Rightarrow> links \<Rightarrow> nat option" where
  "rt_list_len l h = list_len_loop h l l 0"

text \<open>\<open>chain h a xs b\<close>: the links lead from \<open>a\<close> through \<open>xs\<close> to \<open>b\<close> and back.\<close>

fun chain :: "links \<Rightarrow> nat \<Rightarrow> nat list \<Rightarrow> nat \<Rightarrow> bool" where
  "chain h a [] b \<longleftrightarrow> lnext h a = b \<and> lprev h b = a"
| "chain h a (x # xs) b \<longleftrightarrow> lnext h a = x \<and> lprev h x = a \<and> chain h x xs b"

definition dlist :: "links \<Rightarrow> nat \<Rightarrow> nat list \<Rightarrow> bool" where
  "dlist h l xs \<longleftrightarrow> distinct (l # xs) \<and> chain h l xs l"

lemma chain_append: "chain h a (xs @ y # ys) b \<longleftrightarrow> chain h a xs y \<and> chain h y ys b"
  by (induction xs arbitrary: a) auto

lemma chain_frame:
  "chain h a xs b \<Longrightarrow> (\<And>x. x \<in> insert a (set xs) \<Longrightarrow> lnext h' x = lnext h x) \<Longrightarrow>
    (\<And>x. x \<in> insert b (set xs) \<Longrightarrow> lprev h' x = lprev h x) \<Longrightarrow> chain h' a xs b"
  by (induction xs arbitrary: a) auto

lemma chain_last: "chain h a xs b \<Longrightarrow> lprev h b = last (a # xs)"
  by (induction xs arbitrary: a) auto

text \<open>The end of a chain moved to another node.\<close>

lemma chain_retarget:
  "chain h a xs b \<Longrightarrow> distinct (a # xs) \<Longrightarrow> q \<notin> set xs \<Longrightarrow>
    (\<And>x. x \<in> set (butlast (a # xs)) \<Longrightarrow> lnext h' x = lnext h x) \<Longrightarrow>
    (\<And>x. x \<in> set xs \<Longrightarrow> lprev h' x = lprev h x) \<Longrightarrow>
    lnext h' (last (a # xs)) = q \<Longrightarrow> lprev h' q = last (a # xs) \<Longrightarrow> chain h' a xs q"
  by (induction xs arbitrary: a) (auto split: if_splits)

lemma chain_head:
  "chain h a xs b \<Longrightarrow> lnext h a = hd (xs @ [b]) \<and> lprev h (hd (xs @ [b])) = a"
  by (cases xs) auto

lemma init_dlist: "dlist (rt_list_init l h) l []"
  by (simp add: dlist_def rt_list_init_def Let_def)

lemma isempty_dlist: "dlist h l xs \<Longrightarrow> rt_list_isempty l h \<longleftrightarrow> xs = []"
  by (cases xs) (auto simp: dlist_def rt_list_isempty_def)

lemma insert_after_links:
  assumes "n \<noteq> l"
  shows "lnext (rt_list_insert_after l n h) = (lnext h)(n := lnext h l, l := n)"
    "lprev (rt_list_insert_after l n h) = (lprev h)(lnext h l := n, n := l)"
  using assms by (auto simp: rt_list_insert_after_def Let_def fun_eq_iff)

lemma insert_before_links:
  assumes "n \<noteq> l"
  shows "lnext (rt_list_insert_before l n h) = (lnext h)(lprev h l := n, n := l)"
    "lprev (rt_list_insert_before l n h) = (lprev h)(n := lprev h l, l := n)"
  using assms by (auto simp: rt_list_insert_before_def Let_def fun_eq_iff)

lemma insert_after_dlist:
  assumes d: "dlist h l xs" and n: "n \<notin> insert l (set xs)"
  shows "dlist (rt_list_insert_after l n h) l (n # xs)"
proof -
  have nl: "n \<noteq> l" using n by simp
  note k = insert_after_links [OF nl]
  show ?thesis
  proof (cases xs)
    case Nil
    then show ?thesis using d n by (auto simp: dlist_def k)
  next
    case (Cons x ys)
    have x: "lnext h l = x" "chain h x ys l" using d Cons by (auto simp: dlist_def)
    have "chain (rt_list_insert_after l n h) x ys l"
      using x(2) by (rule chain_frame) (use d n Cons x(1) in \<open>auto simp: dlist_def k\<close>)
    then show ?thesis using d n Cons x(1) by (auto simp: dlist_def k)
  qed
qed

lemma insert_before_dlist:
  assumes d: "dlist h l xs" and n: "n \<notin> insert l (set xs)"
  shows "dlist (rt_list_insert_before l n h) l (xs @ [n])"
proof -
  have nl: "n \<noteq> l" using n by simp
  note k = insert_before_links [OF nl]
  have c: "chain h l xs l" and dist: "distinct (l # xs)" using d by (simp_all add: dlist_def)
  have last: "lprev h l = last (l # xs)" using chain_last [OF c] .
  have "last (l # xs) \<noteq> n" using n by (metis last_in_set list.discI list.set(2))
  have "chain (rt_list_insert_before l n h) l xs n"
  proof (rule chain_retarget [OF c dist])
    show "n \<notin> set xs" using n by simp
    fix x
    have ne: "x \<noteq> last (l # xs)" if "x \<in> set (butlast (l # xs))"
      using that dist by (metis append_butlast_last_id distinct_append disjoint_iff list.discI list.set_intros(1))
    show "lnext (rt_list_insert_before l n h) x = lnext h x" if "x \<in> set (butlast (l # xs))"
      using ne that n by (auto simp: k last dest: in_set_butlastD split: if_splits)
    show "lprev (rt_list_insert_before l n h) x = lprev h x" if "x \<in> set xs"
      using that n dist by (auto simp: k)
  qed (use \<open>last (l # xs) \<noteq> n\<close> nl in \<open>simp_all add: k last\<close>)
  moreover have "chain (rt_list_insert_before l n h) n [] l" using nl by (simp add: k)
  ultimately show ?thesis using dist n by (auto simp: dlist_def chain_append)
qed

lemma remove_links:
  assumes "lnext h n \<noteq> n" "lprev h n \<noteq> n"
  shows "lnext (rt_list_remove n h) = (lnext h)(lprev h n := lnext h n, n := n)"
    "lprev (rt_list_remove n h) = (lprev h)(lnext h n := lprev h n, n := n)"
  using assms by (auto simp: rt_list_remove_def Let_def fun_eq_iff)

lemma filter_neq_split:
  "n \<notin> set ys \<Longrightarrow> n \<notin> set zs \<Longrightarrow> filter (\<lambda>x. x \<noteq> n) (ys @ n # zs) = ys @ zs"
proof -
  assume "n \<notin> set ys" "n \<notin> set zs"
  then have "filter (\<lambda>x. x \<noteq> n) ys = ys" "filter (\<lambda>x. x \<noteq> n) zs = zs" by (auto intro: filter_True)
  then show ?thesis by simp
qed

lemma remove_dlist:
  assumes d: "dlist h l xs" and n: "n \<in> set xs"
  shows "dlist (rt_list_remove n h) l (filter (\<lambda>x. x \<noteq> n) xs)" "dlist (rt_list_remove n h) n []"
proof -
  obtain ys zs where xs: "xs = ys @ n # zs" using n by (meson split_list)
  have dist: "distinct (l # ys @ n # zs)" using d by (simp add: dlist_def xs)
  have c1: "chain h l ys n" and c2: "chain h n zs l"
    using d by (simp_all add: dlist_def xs chain_append)
  define p where "p = last (l # ys)"
  define q where "q = hd (zs @ [l])"
  have pq: "lprev h n = p" "lnext h n = q" "lprev h q = n"
    using chain_last [OF c1] chain_head [OF c2] by (simp_all add: p_def q_def)
  have p_in: "p \<in> insert l (set ys)" by (simp add: p_def)
  have q_in: "q \<in> insert l (set zs)" by (cases zs) (simp_all add: q_def)
  have ne: "lnext h n \<noteq> n" "lprev h n \<noteq> n" using p_in q_in dist by (auto simp: pq)
  note k = remove_links [OF ne, unfolded pq]
  have q_ys: "q \<notin> set ys" "p \<notin> set zs" using q_in p_in dist by auto
  have b1: "chain (rt_list_remove n h) l ys q"
  proof (rule chain_retarget [OF c1])
    show "distinct (l # ys)" "q \<notin> set ys" using dist q_ys by simp_all
    show "lnext (rt_list_remove n h) x = lnext h x" if "x \<in> set (butlast (l # ys))" for x
    proof -
      have "x \<in> insert l (set ys)" using in_set_butlastD [OF that] by simp
      moreover have "x \<noteq> p" unfolding p_def
        using that dist by (metis append_butlast_last_id distinct_append disjoint_iff list.discI
            list.set_intros(1) append_Cons)
      ultimately show ?thesis using dist by (auto simp: k)
    qed
    show "lprev (rt_list_remove n h) x = lprev h x" if "x \<in> set ys" for x
      using that dist q_ys by (auto simp: k)
    show "lnext (rt_list_remove n h) (last (l # ys)) = q" "lprev (rt_list_remove n h) q = last (l # ys)"
      using p_in q_in dist unfolding p_def [symmetric] by (auto simp: k)
  qed
  have "chain (rt_list_remove n h) l (ys @ zs) l"
  proof (cases zs)
    case Nil
    then show ?thesis using b1 by (simp add: q_def)
  next
    case (Cons z zs')
    have qz: "q = z" by (simp add: q_def Cons)
    have "chain h z zs' l" using c2 by (simp add: Cons)
    then have "chain (rt_list_remove n h) z zs' l"
    proof (rule chain_frame)
      show "lnext (rt_list_remove n h) x = lnext h x" if "x \<in> insert z (set zs')" for x
        using that dist q_ys by (auto simp: k Cons)
      show "lprev (rt_list_remove n h) x = lprev h x" if "x \<in> insert l (set zs')" for x
        using that dist qz by (auto simp: k Cons)
    qed
    then show ?thesis using b1 qz by (simp add: Cons chain_append)
  qed
  moreover have "filter (\<lambda>x. x \<noteq> n) xs = ys @ zs"
    using dist unfolding xs by (intro filter_neq_split) auto
  ultimately show "dlist (rt_list_remove n h) l (filter (\<lambda>x. x \<noteq> n) xs)"
    using dist by (simp add: dlist_def)
  show "dlist (rt_list_remove n h) n []" by (simp add: dlist_def k)
qed

text \<open>A node that is in no list (its links lead to itself) may be removed again.\<close>

lemma remove_alone: "dlist h n [] \<Longrightarrow> rt_list_remove n h = h"
  by (simp add: rt_list_remove_def dlist_def Let_def fun_upd_idem)

text \<open>Lists with other nodes keep their links.\<close>

lemma dlist_frame:
  assumes "dlist h l xs" "\<And>x. x \<in> insert l (set xs) \<Longrightarrow> lnext h' x = lnext h x \<and> lprev h' x = lprev h x"
  shows "dlist h' l xs"
  using assms by (auto simp: dlist_def intro: chain_frame)

lemma list_len_chain:
  "chain h p xs l \<Longrightarrow> l \<notin> set xs \<Longrightarrow> list_len_loop h l p k = Some (k + length xs)"
proof (induction xs arbitrary: p k)
  case Nil
  then show ?case by (subst list_len_loop.simps) simp
next
  case (Cons x xs)
  then show ?case by (subst list_len_loop.simps) auto
qed

section \<open>Singly linked lists\<close>

type_synonym snext = "nat \<Rightarrow> nat option"

definition rt_slist_init :: "nat \<Rightarrow> snext \<Rightarrow> snext" where
  "rt_slist_init l h = h(l := None)"

partial_function (option) slist_end :: "snext \<Rightarrow> nat \<Rightarrow> nat option" where
  "slist_end h node = (case h node of None \<Rightarrow> Some node | Some n \<Rightarrow> slist_end h n)"

definition rt_slist_append :: "nat \<Rightarrow> nat \<Rightarrow> snext \<Rightarrow> snext option" where
  "rt_slist_append l n h =
    (case slist_end h l of None \<Rightarrow> None | Some node \<Rightarrow> Some (h(node := Some n, n := None)))"

definition rt_slist_insert :: "nat \<Rightarrow> nat \<Rightarrow> snext \<Rightarrow> snext" where
  "rt_slist_insert l n h = (let h = h(n := h l) in h(l := Some n))"

partial_function (option) slist_len_loop :: "snext \<Rightarrow> nat option \<Rightarrow> nat \<Rightarrow> nat option" where
  "slist_len_loop h p len =
    (case p of None \<Rightarrow> Some len | Some n \<Rightarrow> slist_len_loop h (h n) (Suc len))"

definition rt_slist_len :: "nat \<Rightarrow> snext \<Rightarrow> nat option" where
  "rt_slist_len l h = slist_len_loop h (h l) 0"

text \<open>\<open>while (node->next && node->next != n) node = node->next\<close>\<close>

partial_function (option) slist_find :: "snext \<Rightarrow> nat \<Rightarrow> nat \<Rightarrow> nat option" where
  "slist_find h n node =
    (case h node of None \<Rightarrow> Some node | Some m \<Rightarrow> if m \<noteq> n then slist_find h n m else Some node)"

definition rt_slist_remove :: "nat \<Rightarrow> nat \<Rightarrow> snext \<Rightarrow> snext option" where
  "rt_slist_remove l n h =
    (case slist_find h n l of None \<Rightarrow> None
     | Some node \<Rightarrow> (case h node of None \<Rightarrow> Some h | Some m \<Rightarrow> Some (h(node := h m))))"

definition rt_slist_tail :: "nat \<Rightarrow> snext \<Rightarrow> nat option" where
  "rt_slist_tail l h = slist_end h l"

definition rt_slist_first :: "nat \<Rightarrow> snext \<Rightarrow> nat option" where
  "rt_slist_first l h = h l"

definition rt_slist_next :: "nat \<Rightarrow> snext \<Rightarrow> nat option" where
  "rt_slist_next n h = h n"

definition rt_slist_isempty :: "nat \<Rightarrow> snext \<Rightarrow> bool" where
  "rt_slist_isempty l h \<longleftrightarrow> h l = None"

fun schain :: "snext \<Rightarrow> nat \<Rightarrow> nat list \<Rightarrow> bool" where
  "schain h a [] \<longleftrightarrow> h a = None"
| "schain h a (x # xs) \<longleftrightarrow> h a = Some x \<and> schain h x xs"

definition slist :: "snext \<Rightarrow> nat \<Rightarrow> nat list \<Rightarrow> bool" where
  "slist h l xs \<longleftrightarrow> distinct (l # xs) \<and> schain h l xs"

lemma schain_frame:
  "schain h a xs \<Longrightarrow> (\<And>x. x \<in> insert a (set xs) \<Longrightarrow> h' x = h x) \<Longrightarrow> schain h' a xs"
  by (induction xs arbitrary: a) auto

lemma slist_end_chain: "schain h a xs \<Longrightarrow> slist_end h a = Some (last (a # xs))"
  by (induction xs arbitrary: a) (subst slist_end.simps, simp)+

lemma slist_len_chain: "schain h a xs \<Longrightarrow> slist_len_loop h (h a) k = Some (k + length xs)"
  by (induction xs arbitrary: a k) (subst slist_len_loop.simps, simp)+

lemma schain_append_last:
  "schain h a xs \<Longrightarrow> distinct (a # xs) \<Longrightarrow> n \<notin> insert a (set xs) \<Longrightarrow>
    schain (h(last (a # xs) := Some n, n := None)) a (xs @ [n])"
proof (induction xs arbitrary: a)
  case (Cons x xs)
  define h' where "h' = h(last (x # xs) := Some n, n := None)"
  from Cons.prems have "schain h' x (xs @ [n])" unfolding h'_def by (intro Cons.IH) auto
  moreover have "a \<noteq> last (x # xs)" using Cons.prems(2) by (metis distinct.simps(2) last_in_set list.discI)
  then have "h' a = Some x" using Cons.prems by (simp add: h'_def del: last.simps)
  moreover have "h(last (a # x # xs) := Some n, n := None) = h'" by (simp add: h'_def)
  ultimately show ?case by (simp only: append_Cons schain.simps simp_thms)
qed auto

lemma append_slist:
  assumes "slist h l xs" "n \<notin> insert l (set xs)"
  shows "\<exists>h'. rt_slist_append l n h = Some h' \<and> slist h' l (xs @ [n])"
proof -
  have "schain h l xs" "distinct (l # xs)" using assms(1) by (simp_all add: slist_def)
  then show ?thesis
    using schain_append_last [of h l xs n] slist_end_chain [of h l xs] assms
    by (simp add: rt_slist_append_def slist_def del: last.simps)
qed

lemma insert_slist: "slist h l xs \<Longrightarrow> n \<notin> insert l (set xs) \<Longrightarrow> slist (rt_slist_insert l n h) l (n # xs)"
  unfolding slist_def rt_slist_insert_def Let_def
  by (cases xs) (auto intro: schain_frame [where h = h])

lemma slist_find_chain:
  "schain h a xs \<Longrightarrow> distinct (a # xs) \<Longrightarrow>
    \<exists>b ys zs. slist_find h n a = Some b \<and> (if n \<in> set xs then xs = ys @ n # zs \<and> b = last (a # ys) else h b = None)"
proof (induction xs arbitrary: a)
  case Nil
  then show ?case by (subst slist_find.simps) simp
next
  case (Cons x xs)
  show ?case
  proof (cases "x = n")
    case True
    then show ?thesis using Cons.prems
      by (subst slist_find.simps) (auto intro: exI [of _ "[]"])
  next
    case False
    obtain b ys zs where "slist_find h n x = Some b"
      "if n \<in> set xs then xs = ys @ n # zs \<and> b = last (x # ys) else h b = None"
      using Cons.IH [of x] Cons.prems by auto
    with False Cons.prems show ?thesis
      by (subst slist_find.simps, intro exI [of _ b] exI [of _ "x # ys"] exI [of _ zs])
        (simp split: if_splits)
  qed
qed

lemma schain_remove:
  "schain h a (ys @ n # zs) \<Longrightarrow> distinct (a # ys @ n # zs) \<Longrightarrow> schain (h(last (a # ys) := h n)) a (ys @ zs)"
proof (induction ys arbitrary: a)
  case Nil
  then show ?case by (cases zs) (auto intro: schain_frame [where h = h])
next
  case (Cons y ys)
  define h' where "h' = h(last (y # ys) := h n)"
  from Cons.prems have "schain h' y (ys @ zs)" unfolding h'_def by (intro Cons.IH) auto
  moreover have "a \<noteq> last (y # ys)" using Cons.prems(2)
    by (metis append_Cons distinct.simps(2) in_set_conv_decomp last_in_set list.discI set_append Un_iff)
  then have "h' a = Some y" using Cons.prems by (simp add: h'_def del: last.simps)
  moreover have "h(last (a # y # ys) := h n) = h'" by (simp add: h'_def)
  ultimately show ?case by (simp only: append_Cons schain.simps simp_thms)
qed

lemma remove_slist:
  assumes "slist h l xs"
  shows "\<exists>h'. rt_slist_remove l n h = Some h' \<and> slist h' l (filter (\<lambda>x. x \<noteq> n) xs)"
proof -
  have c: "schain h l xs" and d: "distinct (l # xs)" using assms by (simp_all add: slist_def)
  obtain b ys zs where f: "slist_find h n l = Some b"
    "if n \<in> set xs then xs = ys @ n # zs \<and> b = last (l # ys) else h b = None"
    using slist_find_chain [OF c d, of n] by blast
  show ?thesis
  proof (cases "n \<in> set xs")
    case True
    then have xs: "xs = ys @ n # zs" and b: "b = last (l # ys)" using f(2) by simp_all
    have "h b = Some n"
      using c unfolding xs b
    proof (induction ys arbitrary: l)
      case (Cons y ys)
      then show ?case by (metis append_Cons last_ConsR list.discI schain.simps(2))
    qed simp
    moreover have "filter (\<lambda>x. x \<noteq> n) xs = ys @ zs" using d unfolding xs by (intro filter_neq_split) auto
    moreover have "schain (h(b := h n)) l (ys @ zs)"
      using schain_remove [of h l ys n zs] c d unfolding xs b by blast
    ultimately show ?thesis using f(1) d by (auto simp: rt_slist_remove_def slist_def xs)
  next
    case False
    then have "filter (\<lambda>x. x \<noteq> n) xs = xs" by (auto simp: filter_id_conv)
    then show ?thesis using False f assms by (simp add: rt_slist_remove_def)
  qed
qed

section \<open>Properties\<close>

text \<open>The circular intrusive list implements the HOL list it is modelled by: on a well-formed
  list, \<open>rt_list_insert_before\<close> of a new node on the head appends it, \<open>rt_list_insert_after\<close> puts
  it in front, \<open>rt_list_remove\<close> deletes exactly the node and leaves it linked to itself,
  \<open>rt_list_isempty\<close> tests emptiness and \<open>rt_list_len\<close> returns, with the length.\<close>

theorem rt_list_refines:
  assumes "dlist h l xs"
  shows "(n \<notin> insert l (set xs) \<longrightarrow> dlist (rt_list_insert_before l n h) l (xs @ [n])
        \<and> dlist (rt_list_insert_after l n h) l (n # xs))
    \<and> (n \<in> set xs \<longrightarrow> dlist (rt_list_remove n h) l (filter (\<lambda>x. x \<noteq> n) xs) \<and> dlist (rt_list_remove n h) n [])
    \<and> rt_list_isempty l h = (xs = []) \<and> rt_list_len l h = Some (length xs)"
  using insert_before_dlist [OF assms] insert_after_dlist [OF assms] remove_dlist [OF assms]
    isempty_dlist [OF assms] list_len_chain [of h l xs l 0] assms
  by (simp add: dlist_def rt_list_len_def)

theorem rt_list_refines_witness:
  "dlist (rt_list_remove 7 (rt_list_insert_before 1 9 (rt_list_insert_before 1 7 (rt_list_init 1 (links.make id id))))) 1 [9]"
proof -
  have 1: "dlist (rt_list_insert_before 1 7 (rt_list_init 1 (links.make id id))) 1 [7]"
    using rt_list_refines [OF init_dlist, of 7 1] by simp
  have "dlist (rt_list_insert_before 1 9 (rt_list_insert_before 1 7 (rt_list_init 1 (links.make id id)))) 1 [7, 9]"
    using rt_list_refines [OF 1, of 9] by simp
  from rt_list_refines [OF this, of 7] show ?thesis by simp
qed

text \<open>The singly linked list likewise: on a well-formed list \<open>rt_slist_append\<close>,
  \<open>rt_slist_insert\<close>, \<open>rt_slist_remove\<close>, \<open>rt_slist_len\<close> and \<open>rt_slist_tail\<close> terminate and
  act as append at the end, insertion in front, deletion of the node, length and last node.\<close>

theorem rt_slist_refines:
  assumes "slist h l xs"
  shows "(n \<notin> insert l (set xs) \<longrightarrow> (\<exists>h'. rt_slist_append l n h = Some h' \<and> slist h' l (xs @ [n]))
        \<and> slist (rt_slist_insert l n h) l (n # xs))
    \<and> (\<exists>h'. rt_slist_remove l n h = Some h' \<and> slist h' l (filter (\<lambda>x. x \<noteq> n) xs))
    \<and> rt_slist_len l h = Some (length xs) \<and> rt_slist_tail l h = Some (last (l # xs))
    \<and> rt_slist_isempty l h = (xs = [])"
proof -
  have "rt_slist_isempty l h = (xs = [])"
    using assms by (cases xs) (simp_all add: slist_def rt_slist_isempty_def)
  moreover have "rt_slist_len l h = Some (length xs)" "rt_slist_tail l h = Some (last (l # xs))"
    using assms slist_len_chain [of h l xs 0] slist_end_chain [of h l xs]
    by (simp_all add: slist_def rt_slist_len_def rt_slist_tail_def)
  ultimately show ?thesis
    using append_slist [OF assms] insert_slist [OF assms] remove_slist [OF assms] by blast
qed

theorem rt_slist_refines_witness:
  "\<exists>h. rt_slist_append 1 5 (\<lambda>_. None) = Some h \<and> slist h 1 [5] \<and> rt_slist_len 1 h = Some 1"
proof -
  have "slist (\<lambda>_. None) 1 []" by (simp add: slist_def)
  from rt_slist_refines [OF this, of 5] obtain h where
    h: "rt_slist_append 1 5 (\<lambda>_. None) = Some h" "slist h 1 [5]" by auto
  with rt_slist_refines [OF h(2), of 6] show ?thesis by auto
qed

end
