(* ===== verification/KState.thy ===== *)
theory KState
  imports Prelude KString "HOL-Library.Monad_Syntax"
begin

text \<open>
  The state of the kernel, shared by the scheduler, timer, thread and IPC theories: the structures
  of \<^verbatim>\<open>rt-thread/include/rtdef.h\<close> and the globals of scheduler.c, timer.c, clock.c, idle.c and
  irq.c, for the configuration of the repository (32 priorities, one CPU, soft timers, no signals,
  no modules).

  \<^item> A thread is named by a number; the \<open>tlist\<close> node of a thread is in at most one of the kernel's
    lists, so the lists are HOL lists of thread names under a list reference: the ready queues
    \<open>Ready p\<close> and the suspend lists of IPC objects \<open>Waiting i\<close> and \<open>Senders i\<close>. Theory RtList
    shows that the intrusive links implement these list operations.
  \<^item> A timer is the embedded timer of a thread or a user timer; the timer lists are treated the
    same way. \<open>HardLocal\<close> and \<open>SoftLocal\<close> are the local lists of the two timer checks.
  \<^item> A kernel function maps a state to \<open>Some\<close> new state, or to \<open>None\<close> when it stops in
    \<open>RT_ASSERT\<close> or in the stack check, or goes out of bounds. Interrupts are disabled around every
    update in the code, so the functions are atomic. The calls to the context switch assembly
    (\<open>switches\<close>) and to the cleanup functions of threads (\<open>cleaned\<close>) are recorded in order.
\<close>

section \<open>Structures\<close>

abbreviation RT_THREAD_INIT :: u8 where "RT_THREAD_INIT \<equiv> 0"
abbreviation RT_THREAD_READY :: u8 where "RT_THREAD_READY \<equiv> 1"
abbreviation RT_THREAD_SUSPEND :: u8 where "RT_THREAD_SUSPEND \<equiv> 2"
abbreviation RT_THREAD_RUNNING :: u8 where "RT_THREAD_RUNNING \<equiv> 3"
abbreviation RT_THREAD_CLOSE :: u8 where "RT_THREAD_CLOSE \<equiv> 4"
abbreviation RT_THREAD_STAT_MASK :: u8 where "RT_THREAD_STAT_MASK \<equiv> 7"
abbreviation RT_THREAD_STAT_YIELD :: u8 where "RT_THREAD_STAT_YIELD \<equiv> 8"

abbreviation RT_TIMER_FLAG_ACTIVATED :: u8 where "RT_TIMER_FLAG_ACTIVATED \<equiv> 1"
abbreviation RT_TIMER_FLAG_PERIODIC :: u8 where "RT_TIMER_FLAG_PERIODIC \<equiv> 2"
abbreviation RT_TIMER_FLAG_SOFT_TIMER :: u8 where "RT_TIMER_FLAG_SOFT_TIMER \<equiv> 4"

abbreviation RT_THREAD_PRIORITY_MAX :: nat where "RT_THREAD_PRIORITY_MAX \<equiv> 32"

text \<open>Object types: the class with the bit \<open>RT_Object_Class_Static\<close>.\<close>

abbreviation CLASS_STATIC :: u8 where "CLASS_STATIC \<equiv> 0x80"
abbreviation CLASS_THREAD :: u8 where "CLASS_THREAD \<equiv> 1"
abbreviation CLASS_TIMER :: u8 where "CLASS_TIMER \<equiv> 10"

record thread =
  th_type :: u8
  sp :: u32
  stack_addr :: u32
  stack_size :: u32
  stack_guard :: u8
  th_error :: int
  stat :: u8
  current_priority :: nat
  init_priority :: nat
  number_mask :: u32
  event_set :: u32
  event_info :: u8
  th_init_tick :: u32
  remaining_tick :: u32
  has_cleanup :: bool

record timer =
  tm_type :: u8
  tm_flag :: u8
  tm_init_tick :: u32
  timeout_tick :: u32

datatype lref = Ready nat | Waiting nat | Senders nat

datatype tmid = ThreadTimer nat | UserTimer nat

datatype tmref = HardList | SoftList | HardLocal | SoftLocal

datatype ctx = CtxSwitch nat nat | CtxSwitchInterrupt nat nat | CtxSwitchTo nat

record kernel =
  threads :: "nat \<Rightarrow> thread"
  timers :: "tmid \<Rightarrow> timer"
  tlists :: "lref \<Rightarrow> nat list"
  tmlists :: "tmref \<Rightarrow> tmid list"
  ready_group :: u32
  current_thread :: "nat option"
  current_prio :: nat
  lock_nest :: int
  interrupt_nest :: nat
  tick :: u32
  soft_busy :: bool
  defunct :: "nat list"
  cleaned :: "nat list"
  switches :: "ctx list"

text \<open>The statically allocated kernel before anything runs: zeroed memory, empty lists.\<close>

definition zero_thread :: thread where
  "zero_thread = \<lparr>th_type = 0, sp = 0, stack_addr = 0, stack_size = 0, stack_guard = 0, th_error = 0,
     stat = 0, current_priority = 0, init_priority = 0, number_mask = 0, event_set = 0, event_info = 0,
     th_init_tick = 0, remaining_tick = 0, has_cleanup = False\<rparr>"

definition zero_timer :: timer where
  "zero_timer = \<lparr>tm_type = 0, tm_flag = 0, tm_init_tick = 0, timeout_tick = 0\<rparr>"

definition boot_kernel :: kernel where
  "boot_kernel = \<lparr>threads = (\<lambda>_. zero_thread), timers = (\<lambda>_. zero_timer), tlists = (\<lambda>_. []),
     tmlists = (\<lambda>_. []), ready_group = 0, current_thread = None, current_prio = 0, lock_nest = 0,
     interrupt_nest = 0, tick = 0, soft_busy = False, defunct = [], cleaned = [], switches = []\<rparr>"

text \<open>The scheduler state of a thread, and updates of one thread or timer.\<close>

abbreviation state_of :: "kernel \<Rightarrow> nat \<Rightarrow> u8" where
  "state_of k t \<equiv> stat (threads k t) AND RT_THREAD_STAT_MASK"

definition upd_thread :: "nat \<Rightarrow> (thread \<Rightarrow> thread) \<Rightarrow> kernel \<Rightarrow> kernel" where
  "upd_thread t f k = k\<lparr>threads := (threads k)(t := f (threads k t))\<rparr>"

definition upd_timer :: "tmid \<Rightarrow> (timer \<Rightarrow> timer) \<Rightarrow> kernel \<Rightarrow> kernel" where
  "upd_timer m f k = k\<lparr>timers := (timers k)(m := f (timers k m))\<rparr>"

text \<open>\<open>rt_list_remove(&thread->tlist)\<close> and \<open>rt_list_remove(&timer->row[0])\<close>.\<close>

definition unlink :: "nat \<Rightarrow> kernel \<Rightarrow> kernel" where
  "unlink t k = k\<lparr>tlists := (\<lambda>l. filter (\<lambda>x. x \<noteq> t) (tlists k l))\<rparr>"

definition unlink_timer :: "tmid \<Rightarrow> kernel \<Rightarrow> kernel" where
  "unlink_timer m k = k\<lparr>tmlists := (\<lambda>l. filter (\<lambda>x. x \<noteq> m) (tmlists k l))\<rparr>"

definition append_to :: "lref \<Rightarrow> nat \<Rightarrow> kernel \<Rightarrow> kernel" where
  "append_to l t k = k\<lparr>tlists := (tlists k)(l := tlists k l @ [t])\<rparr>"

text \<open>\<open>thread->stat = s | (thread->stat & ~RT_THREAD_STAT_MASK)\<close>\<close>

definition set_state :: "u8 \<Rightarrow> nat \<Rightarrow> kernel \<Rightarrow> kernel" where
  "set_state s t = upd_thread t (\<lambda>th. th\<lparr>stat := s OR (stat th AND NOT RT_THREAD_STAT_MASK)\<rparr>)"

text \<open>\<open>1L << prio\<close>, undefined when the priority is not below the word size.\<close>

definition mask_of :: "nat \<Rightarrow> u32 option" where
  "mask_of p = (if p < RT_THREAD_PRIORITY_MAX then Some (push_bit p 1) else None)"

definition signed16 :: "int \<Rightarrow> int" where
  "signed16 x = (x + 2 ^ 15) mod 2 ^ 16 - 2 ^ 15"

lemma upd_thread_simps [simp]:
  "threads (upd_thread t f k) = (threads k)(t := f (threads k t))"
  "timers (upd_thread t f k) = timers k" "tlists (upd_thread t f k) = tlists k"
  "tmlists (upd_thread t f k) = tmlists k" "ready_group (upd_thread t f k) = ready_group k"
  "current_thread (upd_thread t f k) = current_thread k" "current_prio (upd_thread t f k) = current_prio k"
  "lock_nest (upd_thread t f k) = lock_nest k" "interrupt_nest (upd_thread t f k) = interrupt_nest k"
  "tick (upd_thread t f k) = tick k" "soft_busy (upd_thread t f k) = soft_busy k"
  "defunct (upd_thread t f k) = defunct k" "cleaned (upd_thread t f k) = cleaned k" "switches (upd_thread t f k) = switches k"
  by (simp_all add: upd_thread_def)

lemma upd_timer_simps [simp]:
  "timers (upd_timer m g k) = (timers k)(m := g (timers k m))"
  "threads (upd_timer m g k) = threads k" "tlists (upd_timer m g k) = tlists k"
  "tmlists (upd_timer m g k) = tmlists k" "ready_group (upd_timer m g k) = ready_group k"
  "current_thread (upd_timer m g k) = current_thread k" "current_prio (upd_timer m g k) = current_prio k"
  "lock_nest (upd_timer m g k) = lock_nest k" "interrupt_nest (upd_timer m g k) = interrupt_nest k"
  "tick (upd_timer m g k) = tick k" "soft_busy (upd_timer m g k) = soft_busy k"
  "defunct (upd_timer m g k) = defunct k" "cleaned (upd_timer m g k) = cleaned k" "switches (upd_timer m g k) = switches k"
  by (simp_all add: upd_timer_def)

lemma unlink_simps [simp]:
  "tlists (unlink t k) l = filter (\<lambda>x. x \<noteq> t) (tlists k l)"
  "threads (unlink t k) = threads k" "timers (unlink t k) = timers k" "tmlists (unlink t k) = tmlists k"
  "ready_group (unlink t k) = ready_group k" "current_thread (unlink t k) = current_thread k"
  "current_prio (unlink t k) = current_prio k" "lock_nest (unlink t k) = lock_nest k"
  "interrupt_nest (unlink t k) = interrupt_nest k" "tick (unlink t k) = tick k"
  "soft_busy (unlink t k) = soft_busy k" "defunct (unlink t k) = defunct k" "cleaned (unlink t k) = cleaned k" "switches (unlink t k) = switches k"
  by (simp_all add: unlink_def)

lemma unlink_timer_simps [simp]:
  "tmlists (unlink_timer m k) r = filter (\<lambda>x. x \<noteq> m) (tmlists k r)"
  "threads (unlink_timer m k) = threads k" "timers (unlink_timer m k) = timers k" "tlists (unlink_timer m k) = tlists k"
  "ready_group (unlink_timer m k) = ready_group k" "current_thread (unlink_timer m k) = current_thread k"
  "current_prio (unlink_timer m k) = current_prio k" "lock_nest (unlink_timer m k) = lock_nest k"
  "interrupt_nest (unlink_timer m k) = interrupt_nest k" "tick (unlink_timer m k) = tick k"
  "soft_busy (unlink_timer m k) = soft_busy k" "defunct (unlink_timer m k) = defunct k" "cleaned (unlink_timer m k) = cleaned k"
  "switches (unlink_timer m k) = switches k"
  by (simp_all add: unlink_timer_def)

lemma append_to_simps [simp]:
  "tlists (append_to l t k) = (tlists k)(l := tlists k l @ [t])"
  "threads (append_to l t k) = threads k" "timers (append_to l t k) = timers k" "tmlists (append_to l t k) = tmlists k"
  "ready_group (append_to l t k) = ready_group k" "current_thread (append_to l t k) = current_thread k"
  "current_prio (append_to l t k) = current_prio k" "lock_nest (append_to l t k) = lock_nest k"
  "interrupt_nest (append_to l t k) = interrupt_nest k" "tick (append_to l t k) = tick k"
  "soft_busy (append_to l t k) = soft_busy k" "defunct (append_to l t k) = defunct k" "cleaned (append_to l t k) = cleaned k"
  "switches (append_to l t k) = switches k"
  by (simp_all add: append_to_def)

section \<open>Status words\<close>

lemma stat_bits: "(s OR (x AND NOT 7)) AND (7 :: u8) = s AND 7"
  by (rule bit_word_eqI) (auto simp: bit_simps)

lemma stat_yield: "(s OR (x AND NOT 7)) AND (8 :: u8) = (s OR x) AND 8"
proof -
  have "(NOT 7) AND (8 :: u8) = 8" by simp
  then have "(x AND NOT 7) AND 8 = x AND (8 :: u8)" by (simp only: and.assoc)
  then show ?thesis by (simp only: bit.conj_disj_distrib2)
qed

lemma clear_yield_state: "(x AND NOT 8) AND (7 :: u8) = x AND 7"
proof -
  have "(NOT 8) AND (7 :: u8) = 7" by simp
  then show ?thesis by (simp only: and.assoc)
qed

lemma clear_keeps_yield: "(x AND NOT 7) AND (8 :: u8) = x AND 8"
proof -
  have "(NOT 7) AND (8 :: u8) = 8" by simp
  then show ?thesis by (simp only: and.assoc)
qed

lemma clear_yield: "(x AND NOT 8) AND (8 :: u8) = 0"
proof -
  have "(NOT 8) AND (8 :: u8) = 0" by simp
  then show ?thesis by (simp only: and.assoc and_zero_eq)
qed

lemma set_yield_state: "(x OR 8) AND (7 :: u8) = x AND 7"
  by (simp add: bit.conj_disj_distrib2)

lemma stat_norms [simp]:
  "(s OR (x AND - 8)) AND 7 = s AND (7 :: u8)"
  "(s OR (x AND - 8)) AND 8 = (s OR x) AND (8 :: u8)"
  "(x AND - 9) AND 7 = x AND (7 :: u8)"
  "(x AND - 9) AND 8 = (0 :: u8)"
  "(x OR 8) AND 7 = x AND (7 :: u8)"
  using stat_bits [of s x] stat_yield [of s x] clear_yield_state [of x] clear_yield [of x] set_yield_state [of x]
  by simp_all

lemma state_set [simp]:
  "stat (threads (set_state s t k) t) AND RT_THREAD_STAT_MASK = s AND RT_THREAD_STAT_MASK"
  by (simp add: set_state_def)

end
