(* ===== verification/Scheduler.thy ===== *)
theory Scheduler
  imports KState
begin

text \<open>
  The scheduler of \<^verbatim>\<open>rt-thread/src/scheduler.c\<close> (the uniprocessor half): a ready queue per
  priority, the bitmap of the non-empty ones, and the choice of the next thread.

  \<open>sched_inv X\<close> is the invariant: the bitmap describes the queues, a thread is in at most one list,
  \<open>READY\<close> threads and only those are in the queue of their priority, only the current thread is
  \<open>RUNNING\<close>; the threads of \<open>X\<close> are between two lists. The lemmas follow each operation through
  it; the properties show that a call of \<open>rt_schedule\<close> leaves the processor to a thread of the
  highest priority and how threads of equal priority take turns.
\<close>

section \<open>Operations\<close>

text \<open>\<open>_rt_scheduler_stack_check\<close>: a thread whose guard byte is overwritten or whose stack
  pointer left the stack stops the system.\<close>

definition stack_sound :: "thread \<Rightarrow> bool" where
  "stack_sound th \<longleftrightarrow>
     \<not> (stack_guard th \<noteq> 0x23 \<or> sp th \<le> stack_addr th \<or> sp th > stack_addr th + stack_size th)"

definition rt_scheduler_stack_check :: "nat \<Rightarrow> kernel \<Rightarrow> unit option" where
  "rt_scheduler_stack_check t k = assert_that (stack_sound (threads k t))"

text \<open>The first node of an empty queue is its head, which is no thread.\<close>

definition highest_priority_thread :: "kernel \<Rightarrow> (nat \<times> nat) option" where
  "highest_priority_thread k =
    (if ready_group k = 0 then None
     else let p = rt_ffs (ready_group k) - 1
          in case tlists k (Ready p) of [] \<Rightarrow> None | t # _ \<Rightarrow> Some (t, p))"

definition rt_schedule_insert_thread :: "nat \<Rightarrow> kernel \<Rightarrow> kernel option" where
  "rt_schedule_insert_thread t k =
    (if current_thread k = Some t then Some (set_state RT_THREAD_RUNNING t k)
     else let k1 = set_state RT_THREAD_READY t k; p = current_priority (threads k t)
          in do {
            _ \<leftarrow> assert_that (p < RT_THREAD_PRIORITY_MAX);
            let k2 = append_to (Ready p) t k1;
            Some (k2\<lparr>ready_group := ready_group k2 OR number_mask (threads k2 t)\<rparr>)
          })"

definition rt_schedule_remove_thread :: "nat \<Rightarrow> kernel \<Rightarrow> kernel option" where
  "rt_schedule_remove_thread t k =
    (let k1 = unlink t k; p = current_priority (threads k t)
     in do {
       _ \<leftarrow> assert_that (p < RT_THREAD_PRIORITY_MAX);
       Some (if tlists k1 (Ready p) = []
             then k1\<lparr>ready_group := ready_group k1 AND NOT (number_mask (threads k1 t))\<rparr> else k1)
     })"

definition clear_yield_mark :: "nat \<Rightarrow> kernel \<Rightarrow> kernel" where
  "clear_yield_mark t = upd_thread t (\<lambda>th. th\<lparr>stat := stat th AND NOT RT_THREAD_STAT_YIELD\<rparr>)"

text \<open>The decision of \<open>rt_schedule\<close>: the next thread, whether the running thread has to be put
  back, and the state with the yield mark cleared.\<close>

definition schedule_choice :: "nat \<Rightarrow> nat \<Rightarrow> nat \<Rightarrow> kernel \<Rightarrow> nat \<times> bool \<times> kernel" where
  "schedule_choice cur to_thread prio k =
    (let th = threads k cur in
     if state_of k cur = RT_THREAD_RUNNING
     then let k1 = clear_yield_mark cur k
          in if current_priority th < prio then (cur, False, k1)
             else if current_priority th = prio \<and> stat th AND RT_THREAD_STAT_YIELD = 0
             then (cur, False, k1)
             else (to_thread, True, k1)
     else (to_thread, False, k))"

definition rt_schedule :: "kernel \<Rightarrow> kernel option" where
  "rt_schedule k =
    (if lock_nest k = 0 \<and> ready_group k \<noteq> 0
     then do {
       (high, prio) \<leftarrow> highest_priority_thread k;
       cur \<leftarrow> current_thread k;
       let (to_thread, need_insert, k1) = schedule_choice cur high prio k;
       if to_thread \<noteq> cur
       then do {
         let k2 = k1\<lparr>current_prio := prio mod 256, current_thread := Some to_thread\<rparr>;
         k3 \<leftarrow> (if need_insert then rt_schedule_insert_thread cur k2 else Some k2);
         k4 \<leftarrow> rt_schedule_remove_thread to_thread k3;
         let k5 = set_state RT_THREAD_RUNNING to_thread k4;
         _ \<leftarrow> rt_scheduler_stack_check to_thread k5;
         Some (k5\<lparr>switches := switches k5 @
           [if interrupt_nest k5 = 0 then CtxSwitch cur to_thread else CtxSwitchInterrupt cur to_thread]\<rparr>)
       }
       else do {
         k2 \<leftarrow> rt_schedule_remove_thread cur k1;
         Some (set_state RT_THREAD_RUNNING cur k2)
       }
     }
     else Some k)"

definition rt_system_scheduler_init :: "kernel \<Rightarrow> kernel" where
  "rt_system_scheduler_init k =
    k\<lparr>lock_nest := 0,
      tlists := (\<lambda>l. case l of Ready p \<Rightarrow> if p < RT_THREAD_PRIORITY_MAX then [] else tlists k l | _ \<Rightarrow> tlists k l),
      ready_group := 0\<rparr>"

definition rt_system_scheduler_start :: "kernel \<Rightarrow> kernel option" where
  "rt_system_scheduler_start k = do {
     (t, prio) \<leftarrow> highest_priority_thread k;
     let k1 = k\<lparr>current_thread := Some t\<rparr>;
     k2 \<leftarrow> rt_schedule_remove_thread t k1;
     let k3 = upd_thread t (\<lambda>th. th\<lparr>stat := RT_THREAD_RUNNING\<rparr>) k2;
     Some (k3\<lparr>switches := switches k3 @ [CtxSwitchTo t]\<rparr>)
   }"

definition rt_enter_critical :: "kernel \<Rightarrow> kernel" where
  "rt_enter_critical k = k\<lparr>lock_nest := signed16 (lock_nest k + 1)\<rparr>"

definition rt_exit_critical :: "kernel \<Rightarrow> kernel option" where
  "rt_exit_critical k =
    (let k1 = k\<lparr>lock_nest := signed16 (lock_nest k - 1)\<rparr>
     in if lock_nest k1 \<le> 0
        then let k2 = k1\<lparr>lock_nest := 0\<rparr>
             in if current_thread k2 \<noteq> None then rt_schedule k2 else Some k2
        else Some k1)"

definition rt_critical_level :: "kernel \<Rightarrow> nat" where
  "rt_critical_level k = nat (lock_nest k mod 2 ^ 16)"

definition rt_thread_self :: "kernel \<Rightarrow> nat option" where
  "rt_thread_self k = current_thread k"

section \<open>The invariant\<close>

definition linked :: "nat \<Rightarrow> kernel \<Rightarrow> bool" where
  "linked t k \<longleftrightarrow> (\<exists>l. t \<in> set (tlists k l))"

definition prio_ok :: "thread \<Rightarrow> bool" where
  "prio_ok th \<longleftrightarrow> mask_of (current_priority th) = Some (number_mask th)"

definition group_ok :: "kernel \<Rightarrow> bool" where
  "group_ok k \<longleftrightarrow> (\<forall>p. bit (ready_group k) p \<longleftrightarrow> tlists k (Ready p) \<noteq> [])"

definition sched_inv :: "nat set \<Rightarrow> kernel \<Rightarrow> bool" where
  "sched_inv X k \<longleftrightarrow>
     group_ok k \<and>
     (\<forall>l. distinct (tlists k l)) \<and>
     (\<forall>l l' t. t \<in> set (tlists k l) \<longrightarrow> t \<in> set (tlists k l') \<longrightarrow> l = l') \<and>
     (\<forall>p t. t \<in> set (tlists k (Ready p)) \<longrightarrow> p = current_priority (threads k t) \<and> state_of k t = RT_THREAD_READY) \<and>
     (\<forall>i t. t \<in> set (tlists k (Waiting i)) \<union> set (tlists k (Senders i)) \<longrightarrow> state_of k t = RT_THREAD_SUSPEND) \<and>
     (\<forall>t \<in> X. \<not> linked t k) \<and>
     (\<forall>t. t \<notin> X \<longrightarrow> state_of k t = RT_THREAD_READY \<longrightarrow> t \<in> set (tlists k (Ready (current_priority (threads k t))))) \<and>
     (\<forall>t. t \<notin> X \<longrightarrow> state_of k t = RT_THREAD_RUNNING \<longrightarrow> current_thread k = Some t) \<and>
     (\<forall>t. t \<notin> X \<longrightarrow> state_of k t \<in> {RT_THREAD_READY, RT_THREAD_SUSPEND, RT_THREAD_RUNNING} \<longrightarrow> prio_ok (threads k t))"

lemma sched_invD:
  assumes "sched_inv X k"
  shows "group_ok k" "distinct (tlists k l)"
    "t \<in> set (tlists k l) \<Longrightarrow> t \<in> set (tlists k l') \<Longrightarrow> l = l'"
    "t \<in> set (tlists k (Ready p)) \<Longrightarrow> p = current_priority (threads k t) \<and> state_of k t = RT_THREAD_READY"
    "t \<in> set (tlists k (Waiting i)) \<Longrightarrow> state_of k t = RT_THREAD_SUSPEND"
    "t \<in> set (tlists k (Senders i)) \<Longrightarrow> state_of k t = RT_THREAD_SUSPEND"
    "t \<in> X \<Longrightarrow> \<not> linked t k"
    "t \<notin> X \<Longrightarrow> state_of k t = RT_THREAD_READY \<Longrightarrow> t \<in> set (tlists k (Ready (current_priority (threads k t))))"
    "t \<notin> X \<Longrightarrow> state_of k t = RT_THREAD_RUNNING \<Longrightarrow> current_thread k = Some t"
    "t \<notin> X \<Longrightarrow> state_of k t \<in> {RT_THREAD_READY, RT_THREAD_SUSPEND, RT_THREAD_RUNNING} \<Longrightarrow> prio_ok (threads k t)"
  using assms unfolding sched_inv_def by blast+

text \<open>The invariant reads the state of the threads, the thread lists, the bitmap and the current
  thread only.\<close>

lemma sched_inv_cong:
  assumes "\<And>t. state_of k' t = state_of k t" "\<And>t. current_priority (threads k' t) = current_priority (threads k t)"
    "\<And>t. number_mask (threads k' t) = number_mask (threads k t)" "tlists k' = tlists k"
    "ready_group k' = ready_group k" "current_thread k' = current_thread k"
  shows "sched_inv X k' \<longleftrightarrow> sched_inv X k"
  unfolding sched_inv_def group_ok_def linked_def prio_ok_def assms ..

lemma linked_state:
  assumes "sched_inv X k" "linked t k"
  shows "state_of k t = RT_THREAD_READY \<or> state_of k t = RT_THREAD_SUSPEND"
proof -
  obtain l where "t \<in> set (tlists k l)" using assms(2) by (auto simp: linked_def)
  then show ?thesis using sched_invD(4-6) [OF assms(1)] by (cases l) blast+
qed

lemma running_unlinked: "sched_inv X k \<Longrightarrow> state_of k t = RT_THREAD_RUNNING \<Longrightarrow> \<not> linked t k"
  using linked_state [of X k t] by auto

lemma sched_inv_exempt: "sched_inv X k \<Longrightarrow> \<not> linked t k \<Longrightarrow> sched_inv (insert t X) k"
  unfolding sched_inv_def by simp

lemma bit_mask_of: "mask_of p = Some w \<Longrightarrow> bit w n \<longleftrightarrow> n = p"
  by (auto simp: mask_of_def bit_simps split: if_splits)

lemma remove_spec:
  assumes inv: "sched_inv X k" and ok: "prio_ok (threads k t)"
  shows "\<exists>g. rt_schedule_remove_thread t k = Some ((unlink t k)\<lparr>ready_group := g\<rparr>) \<and>
    sched_inv (insert t X) ((unlink t k)\<lparr>ready_group := g\<rparr>)"
proof -
  define p where "p = current_priority (threads k t)"
  have p: "p < RT_THREAD_PRIORITY_MAX" using ok by (auto simp: prio_ok_def mask_of_def p_def split: if_splits)
  have bm: "bit (number_mask (threads k t)) n \<longleftrightarrow> n = p" for n
    using ok bit_mask_of [of p] by (simp add: prio_ok_def p_def)
  define g where "g = (if tlists (unlink t k) (Ready p) = [] then ready_group k AND NOT (number_mask (threads k t)) else ready_group k)"
  have "rt_schedule_remove_thread t k = Some ((unlink t k)\<lparr>ready_group := g\<rparr>)"
    using p by (simp add: rt_schedule_remove_thread_def p_def [symmetric] Let_def g_def)
  moreover have "group_ok ((unlink t k)\<lparr>ready_group := g\<rparr>)"
    unfolding group_ok_def
  proof
    fix q
    have b: "bit (ready_group k) q \<longleftrightarrow> tlists k (Ready q) \<noteq> []"
      using sched_invD(1) [OF inv] by (simp add: group_ok_def)
    have q32: "bit (ready_group k) q \<Longrightarrow> q < 32" using bit_imp_le_length by force
    have other: "filter (\<lambda>x. x \<noteq> t) (tlists k (Ready q)) = tlists k (Ready q)" if "q \<noteq> p"
    proof -
      have "t \<notin> set (tlists k (Ready q))" using sched_invD(4) [OF inv, of t q] that by (auto simp: p_def)
      then show ?thesis by (auto intro: filter_True)
    qed
    have gq: "bit g q \<longleftrightarrow> (if tlists (unlink t k) (Ready p) = [] then bit (ready_group k) q \<and> q \<noteq> p else bit (ready_group k) q)"
      using q32 by (auto simp: g_def bit_simps bm)
    show "bit (ready_group ((unlink t k)\<lparr>ready_group := g\<rparr>)) q \<longleftrightarrow> tlists ((unlink t k)\<lparr>ready_group := g\<rparr>) (Ready q) \<noteq> []"
      using gq b other by (cases "q = p") (auto split: if_splits)
  qed
  ultimately show ?thesis
    using inv unfolding sched_inv_def linked_def by (intro exI [of _ g]) (simp, blast)
qed

lemma insert_ready_spec:
  assumes inv: "sched_inv X k" and t: "t \<in> X" and ok: "prio_ok (threads k t)" and cur: "current_thread k \<noteq> Some t"
  shows "\<exists>g. rt_schedule_insert_thread t k =
      Some ((append_to (Ready (current_priority (threads k t))) t (set_state RT_THREAD_READY t k))\<lparr>ready_group := g\<rparr>)
    \<and> sched_inv (X - {t}) ((append_to (Ready (current_priority (threads k t))) t (set_state RT_THREAD_READY t k))\<lparr>ready_group := g\<rparr>)"
proof -
  define p where "p = current_priority (threads k t)"
  define g where "g = ready_group k OR number_mask (threads k t)"
  define k' where "k' = (append_to (Ready p) t (set_state RT_THREAD_READY t k))\<lparr>ready_group := g\<rparr>"
  have p: "p < RT_THREAD_PRIORITY_MAX" using ok by (auto simp: prio_ok_def mask_of_def p_def split: if_splits)
  have bm: "bit (number_mask (threads k t)) n \<longleftrightarrow> n = p" for n
    using ok bit_mask_of [of p] by (simp add: prio_ok_def p_def)
  have "rt_schedule_insert_thread t k = Some k'"
    using cur p by (simp add: rt_schedule_insert_thread_def p_def [symmetric] Let_def k'_def g_def set_state_def)
  have st: "state_of k' x = (if x = t then RT_THREAD_READY else state_of k x)" for x
    by (simp add: k'_def set_state_def)
  have pr: "current_priority (threads k' x) = current_priority (threads k x)"
    "number_mask (threads k' x) = number_mask (threads k x)" for x
    by (simp_all add: k'_def set_state_def)
  have un: "t \<notin> set (tlists k l)" for l using sched_invD(7) [OF inv t] by (auto simp: linked_def)
  have lists: "tlists k' = (tlists k)(Ready p := tlists k (Ready p) @ [t])" "current_thread k' = current_thread k"
    by (simp_all add: k'_def set_state_def)
  have "group_ok k'"
    using sched_invD(1) [OF inv] by (auto simp: group_ok_def k'_def g_def bit_simps bm set_state_def)
  moreover have "distinct (tlists k' l)" for l
    using sched_invD(2) [OF inv] un by (simp add: lists)
  moreover have "l = l'" if "x \<in> set (tlists k' l)" "x \<in> set (tlists k' l')" for x l l'
    using that sched_invD(3) [OF inv, of x l l'] un by (auto simp: lists split: if_splits)
  moreover have "q = current_priority (threads k' x) \<and> state_of k' x = RT_THREAD_READY"
    if "x \<in> set (tlists k' (Ready q))" for x q
    using that sched_invD(4) [OF inv, of x q] un by (auto simp: lists st pr p_def split: if_splits)
  moreover have "state_of k' x = RT_THREAD_SUSPEND"
    if "x \<in> set (tlists k' (Waiting i)) \<union> set (tlists k' (Senders i))" for x i
    using that sched_invD(5,6) [OF inv, of x i] un by (auto simp: lists st split: if_splits)
  moreover have "\<not> linked x k'" if "x \<in> X - {t}" for x
    using that sched_invD(7) [OF inv, of x] by (auto simp: linked_def lists split: if_splits)
  moreover have "x \<in> set (tlists k' (Ready (current_priority (threads k' x))))"
    if "x \<notin> X - {t}" "state_of k' x = RT_THREAD_READY" for x
    using that sched_invD(8) [OF inv, of x] by (auto simp: lists st pr p_def split: if_splits)
  moreover have "current_thread k' = Some x" if "x \<notin> X - {t}" "state_of k' x = RT_THREAD_RUNNING" for x
    using that sched_invD(9) [OF inv, of x] by (auto simp: lists st split: if_splits)
  moreover have "prio_ok (threads k' x)"
    if "x \<notin> X - {t}" "state_of k' x \<in> {RT_THREAD_READY, RT_THREAD_SUSPEND, RT_THREAD_RUNNING}" for x
    using that sched_invD(10) [OF inv, of x] ok by (auto simp: st prio_ok_def pr split: if_splits)
  ultimately have "sched_inv (X - {t}) k'" unfolding sched_inv_def by blast
  with \<open>rt_schedule_insert_thread t k = Some k'\<close> show ?thesis
    unfolding k'_def p_def by blast
qed

text \<open>A thread outside of all lists is given a state that needs no list.\<close>

lemma set_state_inv:
  assumes inv: "sched_inv X k" and t: "t \<in> X"
    and s: "s AND 7 \<noteq> RT_THREAD_READY" "s AND 7 = RT_THREAD_RUNNING \<Longrightarrow> current_thread k = Some t"
    and ok: "s AND 7 \<in> {RT_THREAD_SUSPEND, RT_THREAD_RUNNING} \<Longrightarrow> prio_ok (threads k t)"
    and st: "\<And>th. stat (f th) AND 7 = s AND 7" "\<And>th. current_priority (f th) = current_priority th"
      "\<And>th. number_mask (f th) = number_mask th"
  shows "sched_inv (X - {t}) (upd_thread t f k)"
proof -
  define k' where "k' = upd_thread t f k"
  have s': "state_of k' x = (if x = t then s AND 7 else state_of k x)" for x
    by (simp add: k'_def st)
  have pr: "current_priority (threads k' x) = current_priority (threads k x)"
    "number_mask (threads k' x) = number_mask (threads k x)" for x
    by (simp_all add: k'_def st)
  have un: "t \<notin> set (tlists k l)" for l using sched_invD(7) [OF inv t] by (auto simp: linked_def)
  have lists: "tlists k' = tlists k" "current_thread k' = current_thread k" by (simp_all add: k'_def)
  have "group_ok k'" using sched_invD(1) [OF inv] by (simp add: group_ok_def k'_def)
  moreover have "distinct (tlists k' l)" for l using sched_invD(2) [OF inv] by (simp add: lists)
  moreover have "l = l'" if "x \<in> set (tlists k' l)" "x \<in> set (tlists k' l')" for x l l'
    using that sched_invD(3) [OF inv, of x l l'] by (simp add: lists)
  moreover have "q = current_priority (threads k' x) \<and> state_of k' x = RT_THREAD_READY"
    if "x \<in> set (tlists k' (Ready q))" for x q
    using that sched_invD(4) [OF inv, of x q] un by (auto simp: lists s' pr)
  moreover have "state_of k' x = RT_THREAD_SUSPEND"
    if "x \<in> set (tlists k' (Waiting i)) \<union> set (tlists k' (Senders i))" for x i
    using that sched_invD(5,6) [OF inv, of x i] un by (auto simp: lists s')
  moreover have "\<not> linked x k'" if "x \<in> X - {t}" for x
    using that sched_invD(7) [OF inv, of x] by (auto simp: linked_def lists)
  moreover have "x \<in> set (tlists k' (Ready (current_priority (threads k' x))))"
    if "x \<notin> X - {t}" "state_of k' x = RT_THREAD_READY" for x
    using that sched_invD(8) [OF inv, of x] s(1) by (cases "x = t") (simp_all add: lists s' pr)
  moreover have "current_thread k' = Some x" if "x \<notin> X - {t}" "state_of k' x = RT_THREAD_RUNNING" for x
    using that sched_invD(9) [OF inv, of x] s(2) by (cases "x = t") (simp_all add: lists s')
  moreover have "prio_ok (threads k' x)"
    if x: "x \<notin> X - {t}" "state_of k' x \<in> {RT_THREAD_READY, RT_THREAD_SUSPEND, RT_THREAD_RUNNING}" for x
  proof (cases "x = t")
    case True
    then have "s AND 7 \<in> {RT_THREAD_SUSPEND, RT_THREAD_RUNNING}" using x(2) s(1) by (simp add: s')
    from ok [OF this] show ?thesis unfolding True prio_ok_def pr .
  next
    case False
    then have "prio_ok (threads k x)" using sched_invD(10) [OF inv, of x] x by (simp add: s')
    then show ?thesis unfolding prio_ok_def pr .
  qed
  ultimately have "sched_inv (X - {t}) k'" unfolding sched_inv_def by blast
  then show ?thesis by (simp add: k'_def)
qed

lemma set_state_eq:
  "set_state s t k = upd_thread t (\<lambda>th. th\<lparr>stat := s OR (stat th AND NOT RT_THREAD_STAT_MASK)\<rparr>) k"
  by (simp add: set_state_def)

lemma set_state_inv':
  assumes "sched_inv X k" "t \<in> X" "s AND 7 \<noteq> RT_THREAD_READY" "s AND 7 = RT_THREAD_RUNNING \<Longrightarrow> current_thread k = Some t"
    "s AND 7 \<in> {RT_THREAD_SUSPEND, RT_THREAD_RUNNING} \<Longrightarrow> prio_ok (threads k t)"
  shows "sched_inv (X - {t}) (set_state s t k)"
  unfolding set_state_eq using assms by (intro set_state_inv [where s = s]) (simp_all add: stat_bits)

lemma sched_inv_exempt_running:
  "sched_inv X k \<Longrightarrow> state_of k t = RT_THREAD_RUNNING \<Longrightarrow> sched_inv (insert t X) k"
  by (rule sched_inv_exempt) (auto dest: running_unlinked)

text \<open>The current thread may change while the old one is between two states.\<close>

lemma set_current_inv:
  assumes inv: "sched_inv X k"
    and old: "\<And>c. current_thread k = Some c \<Longrightarrow> c \<in> X \<or> state_of k c \<noteq> RT_THREAD_RUNNING"
  shows "sched_inv X (k\<lparr>current_prio := p, current_thread := Some t\<rparr>)"
  using inv old unfolding sched_inv_def group_ok_def linked_def prio_ok_def
  by (auto simp del: de_Morgan_disj)

section \<open>Choosing the next thread\<close>

lemma highest_spec:
  assumes inv: "sched_inv X k" and g: "ready_group k \<noteq> 0"
  obtains t p ts where "highest_priority_thread k = Some (t, p)" "tlists k (Ready p) = t # ts" "p < 32"
    "t \<notin> X" "state_of k t = RT_THREAD_READY" "current_priority (threads k t) = p" "prio_ok (threads k t)"
    "\<And>q. q < p \<Longrightarrow> tlists k (Ready q) = []"
proof -
  obtain p where p: "rt_ffs (ready_group k) = Suc p" "lsb_is (ready_group k) p"
    using rt_ffs_lsb [OF g] by blast
  have b: "bit (ready_group k) q \<longleftrightarrow> tlists k (Ready q) \<noteq> []" for q
    using sched_invD(1) [OF inv] by (simp add: group_ok_def)
  have bp: "bit (ready_group k) p" "\<And>q. q < p \<Longrightarrow> \<not> bit (ready_group k) q"
    using p(2) by (auto simp: lsb_is_def)
  obtain t ts where ts: "tlists k (Ready p) = t # ts" using b [of p] bp(1) by (cases "tlists k (Ready p)") auto
  have t: "current_priority (threads k t) = p" "state_of k t = RT_THREAD_READY"
    using sched_invD(4) [OF inv, of t p] ts by auto
  have tX: "t \<notin> X" using sched_invD(7) [OF inv, of t] ts unfolding linked_def by (metis list.set_intros(1))
  have "highest_priority_thread k = Some (t, p)" using g by (simp add: highest_priority_thread_def p(1) ts)
  moreover have "p < 32" using bit_imp_le_length [OF bp(1)] by simp
  moreover have "prio_ok (threads k t)" using sched_invD(10) [OF inv tX] t(2) by simp
  moreover have "tlists k (Ready q) = []" if "q < p" for q using b [of q] bp(2) [OF that] by simp
  ultimately show thesis using that ts t tX by blast
qed

definition sched_frame :: "kernel \<Rightarrow> kernel \<Rightarrow> bool" where
  "sched_frame k k' \<longleftrightarrow> timers k' = timers k \<and> tmlists k' = tmlists k \<and> lock_nest k' = lock_nest k \<and>
     interrupt_nest k' = interrupt_nest k \<and> tick k' = tick k \<and> soft_busy k' = soft_busy k \<and> defunct k' = defunct k \<and> cleaned k' = cleaned k \<and>
     (\<forall>x. threads k' x = (threads k x)\<lparr>stat := stat (threads k' x)\<rparr>)"

lemma sched_frame_refl [simp, intro]: "sched_frame k k"
  by (simp add: sched_frame_def)

lemma sched_frame_trans: "sched_frame k k1 \<Longrightarrow> sched_frame k1 k2 \<Longrightarrow> sched_frame k k2"
  unfolding sched_frame_def by (metis thread.surjective thread.update_convs(7))

lemma sched_frame_threads:
  assumes "sched_frame k k'"
  shows "current_priority (threads k' x) = current_priority (threads k x)"
    "number_mask (threads k' x) = number_mask (threads k x)" "th_error (threads k' x) = th_error (threads k x)"
    "th_type (threads k' x) = th_type (threads k x)" "prio_ok (threads k' x) = prio_ok (threads k x)"
    "stack_sound (threads k' x) = stack_sound (threads k x)"
    "init_priority (threads k' x) = init_priority (threads k x)"
    "th_init_tick (threads k' x) = th_init_tick (threads k x)"
    "remaining_tick (threads k' x) = remaining_tick (threads k x)"
    "event_set (threads k' x) = event_set (threads k x)" "event_info (threads k' x) = event_info (threads k x)"
    "has_cleanup (threads k' x) = has_cleanup (threads k x)"
proof -
  have e: "threads k' x = (threads k x)\<lparr>stat := stat (threads k' x)\<rparr>" using assms by (simp add: sched_frame_def)
  show "current_priority (threads k' x) = current_priority (threads k x)"
    "number_mask (threads k' x) = number_mask (threads k x)" "th_error (threads k' x) = th_error (threads k x)"
    "th_type (threads k' x) = th_type (threads k x)" "prio_ok (threads k' x) = prio_ok (threads k x)"
    "stack_sound (threads k' x) = stack_sound (threads k x)"
    "init_priority (threads k' x) = init_priority (threads k x)"
    "th_init_tick (threads k' x) = th_init_tick (threads k x)"
    "remaining_tick (threads k' x) = remaining_tick (threads k x)"
    "event_set (threads k' x) = event_set (threads k x)" "event_info (threads k' x) = event_info (threads k x)"
    "has_cleanup (threads k' x) = has_cleanup (threads k x)"
    by (subst e, simp add: prio_ok_def stack_sound_def)+
qed

text \<open>Whether the current thread keeps the processor against a ready thread of priority \<open>p\<close>.\<close>

definition keeps_cpu :: "kernel \<Rightarrow> nat \<Rightarrow> nat \<Rightarrow> bool" where
  "keeps_cpu k cur p \<longleftrightarrow> state_of k cur = RT_THREAD_RUNNING \<and>
     (current_priority (threads k cur) < p \<or>
      current_priority (threads k cur) = p \<and> stat (threads k cur) AND RT_THREAD_STAT_YIELD = 0)"

lemma schedule_choice_eq:
  "schedule_choice cur t p k =
    (if keeps_cpu k cur p then cur else t, state_of k cur = RT_THREAD_RUNNING \<and> \<not> keeps_cpu k cur p,
     if state_of k cur = RT_THREAD_RUNNING
     then clear_yield_mark cur k else k)"
  by (simp add: schedule_choice_def keeps_cpu_def Let_def)

lemma clear_yield_simps [simp]:
  "tlists (clear_yield_mark t k) = tlists k" "timers (clear_yield_mark t k) = timers k"
  "tmlists (clear_yield_mark t k) = tmlists k" "ready_group (clear_yield_mark t k) = ready_group k"
  "current_thread (clear_yield_mark t k) = current_thread k" "lock_nest (clear_yield_mark t k) = lock_nest k"
  "interrupt_nest (clear_yield_mark t k) = interrupt_nest k" "tick (clear_yield_mark t k) = tick k"
  "soft_busy (clear_yield_mark t k) = soft_busy k" "defunct (clear_yield_mark t k) = defunct k" "cleaned (clear_yield_mark t k) = cleaned k"
  "switches (clear_yield_mark t k) = switches k"
  "state_of (clear_yield_mark t k) x = state_of k x"
  "x \<noteq> t \<Longrightarrow> threads (clear_yield_mark t k) x = threads k x"
  "current_priority (threads (clear_yield_mark t k) x) = current_priority (threads k x)"
  "number_mask (threads (clear_yield_mark t k) x) = number_mask (threads k x)"
  "(threads k x)\<lparr>stat := stat (threads (clear_yield_mark t k) x)\<rparr> = threads (clear_yield_mark t k) x"
  "(threads (clear_yield_mark t k) x)\<lparr>stat := v\<rparr> = (threads k x)\<lparr>stat := v\<rparr>"
  by (simp_all add: clear_yield_mark_def)

lemma clear_yield_inv: "sched_inv X (clear_yield_mark t k) = sched_inv X k"
  by (rule sched_inv_cong) simp_all

lemma unlink_unlinked: "\<not> linked t k \<Longrightarrow> tlists (unlink t k) = tlists k"
  by (auto simp: linked_def fun_eq_iff intro: filter_True)

text \<open>The case of \<open>rt_schedule\<close> in which the current thread goes on.\<close>

lemma schedule_same:
  assumes inv: "sched_inv {} k" and s: "lock_nest k = 0" "ready_group k \<noteq> 0" "current_thread k = Some cur"
    and h: "highest_priority_thread k = Some (t, p)" and stay: "keeps_cpu k cur p \<or> t = cur"
  shows "\<exists>k'. rt_schedule k = Some k' \<and> sched_inv {} k' \<and> sched_frame k k' \<and>
    tlists k' = (\<lambda>l. filter (\<lambda>x. x \<noteq> cur) (tlists k l)) \<and>
    current_thread k' = Some cur \<and> switches k' = switches k \<and> state_of k' cur = RT_THREAD_RUNNING \<and>
    (\<forall>x. x \<noteq> cur \<longrightarrow> threads k' x = threads k x)"
proof -
  define k1 where "k1 = (if state_of k cur = RT_THREAD_RUNNING then clear_yield_mark cur k else k)"
  have inv1: "sched_inv {} k1" using inv by (simp add: k1_def clear_yield_inv)
  have "state_of k t = RT_THREAD_READY" using h highest_spec [OF inv s(2)] by (metis option.inject prod.inject)
  then have "state_of k cur \<in> {RT_THREAD_READY, RT_THREAD_RUNNING}" using stay by (auto simp: keeps_cpu_def)
  then have st1: "state_of k1 cur \<in> {RT_THREAD_READY, RT_THREAD_RUNNING}" by (auto simp: k1_def)
  have ok1: "prio_ok (threads k1 cur)" using sched_invD(10) [OF inv1, of cur] st1 by blast
  from remove_spec [OF inv1 ok1] obtain g where
    g: "rt_schedule_remove_thread cur k1 = Some ((unlink cur k1)\<lparr>ready_group := g\<rparr>)"
    "sched_inv {cur} ((unlink cur k1)\<lparr>ready_group := g\<rparr>)" by auto
  define k2 where "k2 = (unlink cur k1)\<lparr>ready_group := g\<rparr>"
  have inv2: "sched_inv {cur} k2" using g(2) by (simp add: k2_def)
  have f2: "threads k2 = threads k1" "tlists k2 = (\<lambda>l. filter (\<lambda>x. x \<noteq> cur) (tlists k l))" "current_thread k2 = Some cur"
    using s by (auto simp: k2_def k1_def fun_eq_iff)
  have "sched_inv ({cur} - {cur}) (set_state RT_THREAD_RUNNING cur k2)"
    by (rule set_state_inv' [OF inv2]) (simp_all add: f2 ok1)
  moreover have "rt_schedule k = Some (set_state RT_THREAD_RUNNING cur k2)"
    using s h stay by (auto simp: rt_schedule_def schedule_choice_eq k1_def [symmetric] g(1) k2_def)
  ultimately show ?thesis
    using s by (simp add: sched_frame_def set_state_def f2 k1_def) (simp add: k2_def k1_def)
qed

text \<open>The case in which the processor is given to the head of the highest ready queue.\<close>

lemma schedule_switch:
  assumes inv: "sched_inv {} k" and s: "lock_nest k = 0" "ready_group k \<noteq> 0" "current_thread k = Some cur"
    and h: "highest_priority_thread k = Some (t, p)" and go: "\<not> keeps_cpu k cur p" and sound: "stack_sound (threads k t)"
    and ne: "t \<noteq> cur"
  defines "run \<equiv> state_of k cur = RT_THREAD_RUNNING" and "pc \<equiv> current_priority (threads k cur)"
  shows "\<exists>k'. rt_schedule k = Some k' \<and> sched_inv {} k' \<and> sched_frame k k' \<and>
    tlists k' = (\<lambda>l. filter (\<lambda>x. x \<noteq> t) (((tlists k)(Ready pc := tlists k (Ready pc) @ (if run then [cur] else []))) l)) \<and>
    current_thread k' = Some t \<and> state_of k' t = RT_THREAD_RUNNING \<and>
    switches k' = switches k @ [if interrupt_nest k = 0 then CtxSwitch cur t else CtxSwitchInterrupt cur t] \<and>
    state_of k' cur = (if run then RT_THREAD_READY else state_of k cur) \<and>
    (\<forall>x. x \<noteq> cur \<longrightarrow> x \<noteq> t \<longrightarrow> threads k' x = threads k x)"
proof -
  define k1 where "k1 = (if run then clear_yield_mark cur k else k)"
  define k2 where "k2 = k1\<lparr>current_prio := p mod 256, current_thread := Some t\<rparr>"
  have inv1: "sched_inv {} k1" using inv by (cases run) (simp_all only: k1_def clear_yield_inv if_True if_False)
  have f1: "tlists k1 = tlists k" "lock_nest k1 = lock_nest k" "switches k1 = switches k" "interrupt_nest k1 = interrupt_nest k"
    "sched_frame k k1" "state_of k1 x = state_of k x" "current_thread k1 = Some cur" for x
    using s by (simp_all add: k1_def sched_frame_def)
  have ht: "prio_ok (threads k t)" "state_of k t = RT_THREAD_READY"
    using h highest_spec [OF inv s(2)] by (metis option.inject prod.inject)+
  obtain k3 where k3: "(if run then rt_schedule_insert_thread cur k2 else Some k2) = Some k3"
    "sched_inv {} k3" "tlists k3 = (tlists k)(Ready pc := tlists k (Ready pc) @ (if run then [cur] else []))"
    "current_thread k3 = Some t" "sched_frame k k3" "switches k3 = switches k"
    "state_of k3 cur = (if run then RT_THREAD_READY else state_of k cur)"
    "\<And>x. x \<noteq> cur \<Longrightarrow> threads k3 x = threads k x"
  proof (cases run)
    case True
    then have run1: "state_of k1 cur = RT_THREAD_RUNNING" by (simp add: f1 run_def)
    have "sched_inv {cur} k1" using sched_inv_exempt_running [OF inv1 run1] .
    then have inv2: "sched_inv {cur} k2" unfolding k2_def
      by (rule set_current_inv) (simp add: f1)
    have ok2: "prio_ok (threads k2 cur)" "current_thread k2 \<noteq> Some cur"
      using sched_invD(10) [OF inv1, of cur] run1 ne by (simp_all add: k2_def)
    have pc2: "current_priority (threads k2 cur) = pc" by (simp add: k2_def k1_def pc_def)
    from insert_ready_spec [OF inv2 _ ok2] obtain g where
      "rt_schedule_insert_thread cur k2 =
        Some ((append_to (Ready pc) cur (set_state RT_THREAD_READY cur k2))\<lparr>ready_group := g\<rparr>)"
      "sched_inv ({cur} - {cur}) ((append_to (Ready pc) cur (set_state RT_THREAD_READY cur k2))\<lparr>ready_group := g\<rparr>)"
      unfolding pc2 by auto
    with True show thesis
      by (intro that [of "(append_to (Ready pc) cur (set_state RT_THREAD_READY cur k2))\<lparr>ready_group := g\<rparr>"]) (simp_all add: set_state_def k2_def k1_def f1 sched_frame_def)
  next
    case False
    have "sched_inv {} k2" unfolding k2_def
      by (rule set_current_inv [OF inv1]) (use False in \<open>auto simp: f1 run_def\<close>)
    with False show thesis
      by (intro that [of k2]) (simp_all add: k2_def f1, simp_all add: k1_def sched_frame_def)
  qed
  have tt: "prio_ok (threads k3 t)" using ht ne by (simp add: k3(8))
  from remove_spec [OF k3(2) tt] obtain g where
    g: "rt_schedule_remove_thread t k3 = Some ((unlink t k3)\<lparr>ready_group := g\<rparr>)"
    "sched_inv {t} ((unlink t k3)\<lparr>ready_group := g\<rparr>)" by auto
  define k4 where "k4 = (unlink t k3)\<lparr>ready_group := g\<rparr>"
  have "sched_inv ({t} - {t}) (set_state RT_THREAD_RUNNING t k4)"
    by (rule set_state_inv') (use g(2) in \<open>simp_all add: k4_def k3(4) tt\<close>)
  then have inv5: "sched_inv {} (set_state RT_THREAD_RUNNING t k4)" by simp
  have "rt_scheduler_stack_check t (set_state RT_THREAD_RUNNING t k4) = Some ()"
    using sound ne by (simp add: rt_scheduler_stack_check_def k4_def set_state_def stack_sound_def k3(8))
  moreover have "interrupt_nest k4 = interrupt_nest k" using k3(5) by (simp add: k4_def sched_frame_def)
  ultimately have r: "rt_schedule k = Some ((set_state RT_THREAD_RUNNING t k4)\<lparr>switches := switches k @
      [if interrupt_nest k = 0 then CtxSwitch cur t else CtxSwitchInterrupt cur t]\<rparr>)"
    using s h go ne k3(1,6) g(1) unfolding rt_schedule_def schedule_choice_eq
    by (simp add: run_def [symmetric] k1_def [symmetric] k2_def [symmetric] k4_def [symmetric])
      (simp add: set_state_def k4_def)
  define k5 where "k5 = (set_state RT_THREAD_RUNNING t k4)\<lparr>switches := switches k @
      [if interrupt_nest k = 0 then CtxSwitch cur t else CtxSwitchInterrupt cur t]\<rparr>"
  have "sched_inv {} k5" using inv5 unfolding k5_def by (subst sched_inv_cong) simp_all
  moreover have "sched_frame k k5"
  proof -
    have "threads k5 x = (threads k x)\<lparr>stat := stat (threads k5 x)\<rparr>" for x
      using k3(5) ne by (cases "x = t") (simp_all add: k5_def set_state_def k4_def k3(8) sched_frame_def)
    with k3(5) show ?thesis by (simp add: sched_frame_def k5_def set_state_def k4_def)
  qed
  moreover have "tlists k5 = (\<lambda>l. filter (\<lambda>x. x \<noteq> t) (((tlists k)(Ready pc := tlists k (Ready pc) @ (if run then [cur] else []))) l))"
    by (simp add: k5_def set_state_def k4_def fun_eq_iff k3(3))
  moreover have "current_thread k5 = Some t" "state_of k5 t = RT_THREAD_RUNNING"
    by (simp_all add: k5_def set_state_def k4_def k3(4))
  moreover have "state_of k5 cur = (if run then RT_THREAD_READY else state_of k cur)"
    using k3(7) ne by (simp add: k5_def set_state_def k4_def)
  moreover have "threads k5 x = threads k x" if "x \<noteq> cur" "x \<noteq> t" for x
    using that by (simp add: k5_def set_state_def k4_def k3(8))
  ultimately show ?thesis unfolding r k5_def [symmetric] by (simp add: k5_def)
qed


lemma filter_unlinked: "\<not> linked t k \<Longrightarrow> (\<lambda>l. filter (\<lambda>x. x \<noteq> t) (tlists k l)) = tlists k"
  by (auto simp: linked_def fun_eq_iff intro: filter_True)

lemma schedule_idle: "lock_nest k \<noteq> 0 \<or> ready_group k = 0 \<Longrightarrow> rt_schedule k = Some k"
  by (auto simp: rt_schedule_def)

lemma ready_group_zero:
  "sched_inv X k \<Longrightarrow> ready_group k = 0 \<Longrightarrow> t \<notin> X \<Longrightarrow> state_of k t \<noteq> RT_THREAD_READY"
  using sched_invD(1) [of X k] sched_invD(8) [of X k t] by (auto simp: group_ok_def)

text \<open>In every case the invariant is kept and nothing else changes.\<close>

lemma schedule_ok:
  assumes inv: "sched_inv {} k" and cur: "current_thread k = Some cur" and sound: "\<And>t. state_of k t = RT_THREAD_READY \<Longrightarrow> stack_sound (threads k t)"
  shows "\<exists>k'. rt_schedule k = Some k' \<and> sched_inv {} k' \<and> sched_frame k k' \<and> current_thread k' \<noteq> None"
proof (cases "lock_nest k = 0 \<and> ready_group k \<noteq> 0")
  case True
  obtain t p where h: "highest_priority_thread k = Some (t, p)" "state_of k t = RT_THREAD_READY"
    using highest_spec [OF inv] True by metis
  show ?thesis
  proof (cases "keeps_cpu k cur p \<or> t = cur")
    case c: True
    show ?thesis using schedule_same [OF inv _ _ cur h(1) c] True by blast
  next
    case c: False
    show ?thesis using schedule_switch [OF inv _ _ cur h(1) _ sound [OF h(2)]] c True by blast
  qed
qed (use inv cur schedule_idle in auto)

text \<open>A concrete state: thread 1 runs and thread 2 is ready, both with priority 3.\<close>

definition two_threads :: kernel where
  "two_threads = boot_kernel\<lparr>
     threads := (\<lambda>_. zero_thread)(
       1 := zero_thread\<lparr>stat := RT_THREAD_RUNNING OR RT_THREAD_STAT_YIELD, current_priority := 3, number_mask := push_bit 3 1,
              stack_guard := 0x23, sp := 0x400, stack_size := 0x800\<rparr>,
       2 := zero_thread\<lparr>stat := RT_THREAD_READY, current_priority := 3, number_mask := push_bit 3 1,
              stack_guard := 0x23, sp := 0x400, stack_size := 0x800\<rparr>),
     tlists := (\<lambda>_. [])(Ready 3 := [2]), ready_group := push_bit 3 1, current_thread := Some 1\<rparr>"

lemma two_threads_inv: "sched_inv {} two_threads"
proof -
  have st: "state_of two_threads t = (if t = 1 then RT_THREAD_RUNNING else if t = 2 then RT_THREAD_READY else RT_THREAD_INIT)" for t
    by (simp add: two_threads_def zero_thread_def)
  have pr: "current_priority (threads two_threads t) = (if t = 1 \<or> t = 2 then 3 else 0)"
    "prio_ok (threads two_threads t) = (t = 1 \<or> t = 2)" for t
    by (simp_all add: two_threads_def prio_ok_def mask_of_def zero_thread_def)
  have l: "tlists two_threads = (\<lambda>_. [])(Ready 3 := [2])" "current_thread two_threads = Some 1"
    by (simp_all add: two_threads_def)
  have "group_ok two_threads"
    using bit_mask_of [of 3 "push_bit 3 1"] unfolding group_ok_def two_threads_def mask_of_def by simp
  then show ?thesis unfolding sched_inv_def linked_def st pr l by (auto split: if_splits)
qed

section \<open>Properties\<close>

text \<open>The choice of the scheduler.\<close>

lemma schedule_picks:
  assumes inv: "sched_inv {} k" and cur: "current_thread k = Some cur" and lock: "lock_nest k = 0"
    and can: "ready_group k \<noteq> 0 \<or> state_of k cur = RT_THREAD_RUNNING" and sound: "\<And>t. state_of k t = RT_THREAD_READY \<Longrightarrow> stack_sound (threads k t)"
  shows "\<exists>k' c. rt_schedule k = Some k' \<and> sched_inv {} k' \<and> current_thread k' = Some c \<and>
    state_of k' c = RT_THREAD_RUNNING \<and>
    (\<forall>t. state_of k' t = RT_THREAD_READY \<longrightarrow> current_priority (threads k' c) \<le> current_priority (threads k' t))"
proof (cases "ready_group k = 0")
  case True
  then show ?thesis
    using assms ready_group_zero [OF inv True] by (auto simp: schedule_idle intro!: exI [of _ k])
next
  case g: False
  obtain t p ts where h: "highest_priority_thread k = Some (t, p)" "tlists k (Ready p) = t # ts"
    "state_of k t = RT_THREAD_READY" "current_priority (threads k t) = p"
    and low: "\<And>q. q < p \<Longrightarrow> tlists k (Ready q) = []"
    by (rule highest_spec [OF inv g]) metis
  have ready_le: "p \<le> current_priority (threads k x)" if "state_of k x = RT_THREAD_READY" for x
    using low [of "current_priority (threads k x)"] sched_invD(8) [OF inv _ that] by (metis empty_iff empty_set not_less)
  show ?thesis
  proof (cases "keeps_cpu k cur p \<or> t = cur")
    case True
    from schedule_same [OF inv lock g cur h(1) True] obtain k' where
      k': "rt_schedule k = Some k'" "sched_inv {} k'" "sched_frame k k'" "current_thread k' = Some cur"
      "state_of k' cur = RT_THREAD_RUNNING" "\<And>x. x \<noteq> cur \<Longrightarrow> threads k' x = threads k x" by blast
    have "current_priority (threads k cur) \<le> p" using True h(4) by (auto simp: keeps_cpu_def)
    then have "current_priority (threads k' cur) \<le> current_priority (threads k' x)" if "state_of k' x = RT_THREAD_READY" for x
      using that ready_le [of x] k'(5,6) sched_frame_threads(1) [OF k'(3)] by (cases "x = cur") auto
    with k' show ?thesis by blast
  next
    case False
    then have nk: "\<not> keeps_cpu k cur p" and ne: "t \<noteq> cur" by auto
    from schedule_switch [OF inv lock g cur h(1) nk sound [OF h(3)] ne] obtain k' where
      k': "rt_schedule k = Some k'" "sched_inv {} k'" "sched_frame k k'" "current_thread k' = Some t"
      "state_of k' t = RT_THREAD_RUNNING"
      "state_of k' cur = (if state_of k cur = RT_THREAD_RUNNING then RT_THREAD_READY else state_of k cur)"
      "\<And>x. x \<noteq> cur \<Longrightarrow> x \<noteq> t \<Longrightarrow> threads k' x = threads k x" by blast
    have "p \<le> current_priority (threads k cur)" if "state_of k cur = RT_THREAD_RUNNING"
      using nk that by (auto simp: keeps_cpu_def)
    then have "current_priority (threads k' t) \<le> current_priority (threads k' x)" if "state_of k' x = RT_THREAD_READY" for x
      using that ready_le [of x] k'(5-7) h(4) sched_frame_threads(1) [OF k'(3)]
      by (cases "x = t"; cases "x = cur") (auto split: if_splits)
    with k' show ?thesis by blast
  qed
qed

text \<open>C3: priority scheduling: from a state satisfying the invariant, with the scheduler unlocked
  and some thread able to run, \<open>rt_schedule\<close> does not go wrong, keeps the invariant, and leaves the
  processor to a \<open>RUNNING\<close> thread with no ready thread of higher priority (a smaller number).\<close>

theorem schedule_highest:
  assumes inv: "sched_inv {} k" and cur: "current_thread k = Some cur" and lock: "lock_nest k = 0"
    and can: "ready_group k \<noteq> 0 \<or> state_of k cur = RT_THREAD_RUNNING" and sound: "\<And>t. state_of k t = RT_THREAD_READY \<Longrightarrow> stack_sound (threads k t)"
  shows "\<exists>k' c. rt_schedule k = Some k' \<and> sched_inv {} k' \<and> current_thread k' = Some c \<and>
    state_of k' c = RT_THREAD_RUNNING \<and>
    (\<forall>t. state_of k' t = RT_THREAD_READY \<longrightarrow> current_priority (threads k' c) \<le> current_priority (threads k' t))"
  by (rule schedule_picks [OF assms])

theorem schedule_highest_witness:
  "\<exists>k' c. rt_schedule two_threads = Some k' \<and> current_thread k' = Some c \<and> state_of k' c = RT_THREAD_RUNNING"
proof -
  have "stack_sound (threads two_threads t)" if "state_of two_threads t = RT_THREAD_READY" for t
    using that by (auto simp: two_threads_def stack_sound_def zero_thread_def split: if_splits)
  from schedule_highest [OF two_threads_inv _ _ _ this, of 1]
  show ?thesis by (auto simp: two_threads_def boot_kernel_def)
qed

text \<open>C27: time slicing: a running thread that asked to yield, or used up its slice, is put at the end of
  the ready queue of its priority and the processor goes to the head of that queue, provided no
  thread of a higher priority is ready; one that did not ask goes on and the queues are unchanged.\<close>

theorem schedule_round_robin:
  assumes inv: "sched_inv {} k" and cur: "current_thread k = Some cur" "state_of k cur = RT_THREAD_RUNNING"
    and lock: "lock_nest k = 0" and p: "p = current_priority (threads k cur)" "tlists k (Ready p) = t # ts"
    and high: "\<And>q. q < p \<Longrightarrow> tlists k (Ready q) = []" and sound: "stack_sound (threads k t)"
  shows "(stat (threads k cur) AND RT_THREAD_STAT_YIELD \<noteq> 0 \<longrightarrow>
      (\<exists>k'. rt_schedule k = Some k' \<and> current_thread k' = Some t \<and> tlists k' (Ready p) = ts @ [cur] \<and>
        state_of k' t = RT_THREAD_RUNNING \<and> state_of k' cur = RT_THREAD_READY))
    \<and> (stat (threads k cur) AND RT_THREAD_STAT_YIELD = 0 \<longrightarrow>
      (\<exists>k'. rt_schedule k = Some k' \<and> current_thread k' = Some cur \<and> tlists k' = tlists k \<and>
        state_of k' cur = RT_THREAD_RUNNING))"
proof -
  have g: "ready_group k \<noteq> 0" using sched_invD(1) [OF inv] p(2) unfolding group_ok_def by (metis bit_0_eq bot_apply bot_bool_def list.discI)
  obtain t' p' ts' where h: "highest_priority_thread k = Some (t', p')" "tlists k (Ready p') = t' # ts'"
    and low: "\<And>q. q < p' \<Longrightarrow> tlists k (Ready q) = []"
    by (rule highest_spec [OF inv g]) metis
  have "p' = p" using high [of p'] low [of p] h(2) p(2) by (metis linorder_neqE_nat list.discI)
  with h p(2) have h: "highest_priority_thread k = Some (t, p)" by simp
  have ul: "\<not> linked cur k" by (rule running_unlinked [OF inv cur(2)])
  then have ne: "t \<noteq> cur" using p(2) unfolding linked_def by (metis list.set_intros(1))
  have dist: "t \<notin> set ts" using sched_invD(2) [OF inv, of "Ready p"] p(2) by simp
  show ?thesis
  proof (intro conjI impI)
    assume y: "stat (threads k cur) AND RT_THREAD_STAT_YIELD \<noteq> 0"
    then have "\<not> keeps_cpu k cur p" using p(1) by (simp add: keeps_cpu_def)
    from schedule_switch [OF inv lock g cur(1) h this sound ne] obtain k' where k':
      "rt_schedule k = Some k'" "current_thread k' = Some t" "state_of k' t = RT_THREAD_RUNNING"
      "tlists k' = (\<lambda>l. filter (\<lambda>x. x \<noteq> t) (((tlists k)(Ready (current_priority (threads k cur)) :=
          tlists k (Ready (current_priority (threads k cur))) @ (if state_of k cur = RT_THREAD_RUNNING then [cur] else []))) l))"
      "state_of k' cur = (if state_of k cur = RT_THREAD_RUNNING then RT_THREAD_READY else state_of k cur)" by blast
    have "tlists k' (Ready p) = ts @ [cur]"
      using dist ne p cur(2) by (simp add: k'(4)) (auto intro: filter_True)
    with k' cur(2) show "\<exists>k'. rt_schedule k = Some k' \<and> current_thread k' = Some t \<and> tlists k' (Ready p) = ts @ [cur] \<and>
        state_of k' t = RT_THREAD_RUNNING \<and> state_of k' cur = RT_THREAD_READY" by auto
  next
    assume "stat (threads k cur) AND RT_THREAD_STAT_YIELD = 0"
    then have "keeps_cpu k cur p \<or> t = cur" using p(1) cur(2) by (simp add: keeps_cpu_def)
    from schedule_same [OF inv lock g cur(1) h this]
    show "\<exists>k'. rt_schedule k = Some k' \<and> current_thread k' = Some cur \<and> tlists k' = tlists k \<and>
        state_of k' cur = RT_THREAD_RUNNING"
      unfolding filter_unlinked [OF ul] by blast
  qed
qed

theorem schedule_round_robin_witness:
  "\<exists>k'. rt_schedule two_threads = Some k' \<and> current_thread k' = Some 2 \<and> tlists k' (Ready 3) = [1]"
proof -
  have "\<exists>k'. rt_schedule two_threads = Some k' \<and> current_thread k' = Some 2 \<and> tlists k' (Ready 3) = [] @ [1] \<and>
        state_of k' 2 = RT_THREAD_RUNNING \<and> state_of k' 1 = RT_THREAD_READY"
    by (rule schedule_round_robin [OF two_threads_inv, THEN conjunct1, rule_format])
      (simp_all add: two_threads_def stack_sound_def boot_kernel_def zero_thread_def)
  then show ?thesis by auto
qed

text \<open>C35: a critical section defers scheduling: while it is held \<open>rt_schedule\<close> changes nothing; a
  nested section leaves the scheduler locked, and leaving the outermost one schedules.\<close>

theorem critical_section_defers:
  assumes "0 \<le> lock_nest k" "lock_nest k < 2 ^ 15 - 1" "current_thread k \<noteq> None"
  shows "rt_schedule (rt_enter_critical k) = Some (rt_enter_critical k)
    \<and> rt_exit_critical (rt_enter_critical k) = (if lock_nest k = 0 then rt_schedule k else Some k)"
proof -
  have "signed16 (lock_nest k + 1) = lock_nest k + 1" "signed16 (lock_nest k) = lock_nest k"
    using assms by (simp_all add: signed16_def)
  note s16 = this
  show ?thesis
  proof (cases "lock_nest k = 0")
    case True
    then have "k\<lparr>lock_nest := 0\<rparr> = k" by (cases k) simp
    then have "rt_schedule (k\<lparr>lock_nest := 0\<rparr>) = rt_schedule k" by (rule arg_cong)
    with True assms s16 show ?thesis
      by (simp add: schedule_idle rt_enter_critical_def rt_exit_critical_def Let_def)
  next
    case False
    with assms s16 show ?thesis
      by (simp add: schedule_idle rt_enter_critical_def rt_exit_critical_def Let_def)
  qed
qed

theorem critical_section_defers_witness:
  "rt_exit_critical (rt_enter_critical (two_threads\<lparr>lock_nest := 1\<rparr>)) = Some (two_threads\<lparr>lock_nest := 1\<rparr>)"
  using critical_section_defers [of "two_threads\<lparr>lock_nest := 1\<rparr>"] by (simp add: two_threads_def)

end
