(* ===== verification/Timer.thy ===== *)
theory Timer
  imports Scheduler "HOL-Library.Multiset"
begin

text \<open>
  The timers of \<^verbatim>\<open>rt-thread/src/timer.c\<close> with the suspension and wake-up of threads from
  \<^verbatim>\<open>rt-thread/src/thread.c\<close> they are entangled with. The skip list has one level
  (\<open>RT_TIMER_SKIP_LIST_LEVEL\<close> is 1), so a timer list is one list sorted by time-out; ticks are 32 bit
  words and wrap around.

  The function a timer calls is \<open>rt_thread_timeout\<close> for the timer of a thread and a function of the
  application, the parameter \<open>cb\<close>, for the others. The locale \<open>timeout_functions\<close> is the contract
  between the timer check and those functions.
\<close>

section \<open>Objects\<close>

text \<open>\<open>rt_object_get_type\<close> and \<open>rt_object_is_systemobject\<close>.\<close>

definition obj_is :: "u8 \<Rightarrow> u8 \<Rightarrow> bool" where
  "obj_is c ty \<longleftrightarrow> ty AND NOT CLASS_STATIC = c"

definition is_system :: "u8 \<Rightarrow> bool" where
  "is_system ty \<longleftrightarrow> ty AND CLASS_STATIC \<noteq> 0"

abbreviation is_thread :: "kernel \<Rightarrow> nat \<Rightarrow> bool" where
  "is_thread k t \<equiv> obj_is CLASS_THREAD (th_type (threads k t))"

abbreviation is_timer :: "kernel \<Rightarrow> tmid \<Rightarrow> bool" where
  "is_timer k m \<equiv> obj_is CLASS_TIMER (tm_type (timers k m))"

section \<open>Timers\<close>

abbreviation HALF_TICK :: u32 where "HALF_TICK \<equiv> 0x7fffffff"

definition set_flag :: "u8 \<Rightarrow> tmid \<Rightarrow> kernel \<Rightarrow> kernel" where
  "set_flag f m = upd_timer m (\<lambda>tm. tm\<lparr>tm_flag := tm_flag tm OR f\<rparr>)"

definition clear_flag :: "u8 \<Rightarrow> tmid \<Rightarrow> kernel \<Rightarrow> kernel" where
  "clear_flag f m = upd_timer m (\<lambda>tm. tm\<lparr>tm_flag := tm_flag tm AND NOT f\<rparr>)"

definition flagged :: "u8 \<Rightarrow> tmid \<Rightarrow> kernel \<Rightarrow> bool" where
  "flagged f m k \<longleftrightarrow> tm_flag (timers k m) AND f \<noteq> 0"

text \<open>\<open>_timer_init\<close>; the row of the timer is initialised, so it is in no list.\<close>

definition timer_init :: "tmid \<Rightarrow> u32 \<Rightarrow> u8 \<Rightarrow> kernel \<Rightarrow> kernel" where
  "timer_init m time flag k =
    upd_timer m (\<lambda>tm. tm\<lparr>tm_flag := flag AND NOT RT_TIMER_FLAG_ACTIVATED, timeout_tick := 0, tm_init_tick := time\<rparr>) k"

definition rt_timer_init :: "tmid \<Rightarrow> u32 \<Rightarrow> u8 \<Rightarrow> kernel \<Rightarrow> kernel" where
  "rt_timer_init m time flag k =
    timer_init m time flag (upd_timer m (\<lambda>tm. tm\<lparr>tm_type := CLASS_TIMER OR CLASS_STATIC\<rparr>) k)"

definition rt_timer_create :: "bool \<Rightarrow> tmid \<Rightarrow> u32 \<Rightarrow> u8 \<Rightarrow> kernel \<Rightarrow> tmid option \<times> kernel" where
  "rt_timer_create allocated m time flag k =
    (if \<not> allocated then (None, k)
     else (Some m, timer_init m time flag (upd_timer m (\<lambda>tm. tm\<lparr>tm_type := CLASS_TIMER\<rparr>) k)))"

definition rt_timer_detach :: "tmid \<Rightarrow> kernel \<Rightarrow> kernel option" where
  "rt_timer_detach m k = do {
     _ \<leftarrow> assert_that (is_timer k m);
     _ \<leftarrow> assert_that (is_system (tm_type (timers k m)));
     let k1 = clear_flag RT_TIMER_FLAG_ACTIVATED m (unlink_timer m k);
     Some (upd_timer m (\<lambda>tm. tm\<lparr>tm_type := 0\<rparr>) k1)
   }"

definition rt_timer_delete :: "tmid \<Rightarrow> kernel \<Rightarrow> kernel option" where
  "rt_timer_delete m k = do {
     _ \<leftarrow> assert_that (is_timer k m);
     _ \<leftarrow> assert_that (\<not> is_system (tm_type (timers k m)));
     let k1 = clear_flag RT_TIMER_FLAG_ACTIVATED m (unlink_timer m k);
     Some (upd_timer m (\<lambda>tm. tm\<lparr>tm_type := 0\<rparr>) k1)
   }"

definition rt_timer_stop :: "tmid \<Rightarrow> kernel \<Rightarrow> (int \<times> kernel) option" where
  "rt_timer_stop m k = do {
     _ \<leftarrow> assert_that (is_timer k m);
     Some (if \<not> flagged RT_TIMER_FLAG_ACTIVATED m k then (- RT_ERROR, k)
           else (RT_EOK, clear_flag RT_TIMER_FLAG_ACTIVATED m (unlink_timer m k)))
   }"

datatype timer_cmd = GetTime | SetTime u32 | SetOneshot | SetPeriodic | GetState | OtherCmd

text \<open>The value stored through \<open>arg\<close>, if any, and the state.\<close>

definition rt_timer_control :: "tmid \<Rightarrow> timer_cmd \<Rightarrow> kernel \<Rightarrow> (u32 option \<times> kernel) option" where
  "rt_timer_control m cmd k = do {
     _ \<leftarrow> assert_that (is_timer k m);
     Some (case cmd of
             GetTime \<Rightarrow> (Some (tm_init_tick (timers k m)), k)
           | SetTime v \<Rightarrow> (None, upd_timer m (\<lambda>tm. tm\<lparr>tm_init_tick := v\<rparr>) k)
           | SetOneshot \<Rightarrow> (None, clear_flag RT_TIMER_FLAG_PERIODIC m k)
           | SetPeriodic \<Rightarrow> (None, set_flag RT_TIMER_FLAG_PERIODIC m k)
           | GetState \<Rightarrow> (Some (if flagged RT_TIMER_FLAG_ACTIVATED m k then 1 else 0), k)
           | OtherCmd \<Rightarrow> (None, k))
   }"

section \<open>Suspending and resuming a thread\<close>

definition rt_thread_suspend :: "nat \<Rightarrow> kernel \<Rightarrow> (int \<times> kernel) option" where
  "rt_thread_suspend t k = do {
     _ \<leftarrow> assert_that (is_thread k t);
     let st = state_of k t;
     if st \<noteq> RT_THREAD_READY \<and> st \<noteq> RT_THREAD_RUNNING then Some (- RT_ERROR, k)
     else do {
       _ \<leftarrow> assert_that (st = RT_THREAD_RUNNING \<longrightarrow> rt_thread_self k = Some t);
       k1 \<leftarrow> rt_schedule_remove_thread t k;
       let k2 = set_state RT_THREAD_SUSPEND t k1;
       (_, k3) \<leftarrow> rt_timer_stop (ThreadTimer t) k2;
       Some (RT_EOK, k3)
     }
   }"

definition rt_thread_resume :: "nat \<Rightarrow> kernel \<Rightarrow> (int \<times> kernel) option" where
  "rt_thread_resume t k = do {
     _ \<leftarrow> assert_that (is_thread k t);
     if state_of k t \<noteq> RT_THREAD_SUSPEND then Some (- RT_ERROR, k)
     else do {
       let k1 = unlink t k;
       (_, k2) \<leftarrow> rt_timer_stop (ThreadTimer t) k1;
       k3 \<leftarrow> rt_schedule_insert_thread t k2;
       Some (RT_EOK, k3)
     }
   }"

definition rt_thread_timeout :: "nat \<Rightarrow> kernel \<Rightarrow> kernel option" where
  "rt_thread_timeout t k = do {
     _ \<leftarrow> assert_that (state_of k t = RT_THREAD_SUSPEND);
     _ \<leftarrow> assert_that (is_thread k t);
     let k1 = upd_thread t (\<lambda>th. th\<lparr>th_error := - RT_ETIMEOUT\<rparr>) k;
     k2 \<leftarrow> rt_schedule_insert_thread t (unlink t k1);
     rt_schedule k2
   }"

section \<open>Starting a timer\<close>

text \<open>The name of \<open>_timer_thread\<close>, the thread of the soft timers.\<close>

definition timer_thread :: nat where "timer_thread = 0"

text \<open>The insertion loop, over the time-outs of the timers in the list.\<close>

fun timer_insert :: "(tmid \<Rightarrow> u32) \<Rightarrow> u32 \<Rightarrow> tmid \<Rightarrow> tmid list \<Rightarrow> tmid list" where
  "timer_insert timeout new m [] = [m]"
| "timer_insert timeout new m (t # ts) =
    (if timeout t - new = 0 then t # timer_insert timeout new m ts
     else if timeout t - new < HALF_TICK then m # t # ts
     else t # timer_insert timeout new m ts)"

definition rt_timer_start :: "tmid \<Rightarrow> kernel \<Rightarrow> kernel option" where
  "rt_timer_start m k = do {
     _ \<leftarrow> assert_that (is_timer k m);
     let k1 = clear_flag RT_TIMER_FLAG_ACTIVATED m (unlink_timer m k);
     _ \<leftarrow> assert_that (tm_init_tick (timers k1 m) < HALF_TICK);
     let new = tick k1 + tm_init_tick (timers k1 m);
     let k2 = upd_timer m (\<lambda>tm. tm\<lparr>timeout_tick := new\<rparr>) k1;
     let r = (if flagged RT_TIMER_FLAG_SOFT_TIMER m k2 then SoftList else HardList);
     let k3 = k2\<lparr>tmlists := (tmlists k2)(r := timer_insert (\<lambda>x. timeout_tick (timers k2 x)) new m (tmlists k2 r))\<rparr>;
     let k4 = set_flag RT_TIMER_FLAG_ACTIVATED m k3;
     if flagged RT_TIMER_FLAG_SOFT_TIMER m k4 \<and> \<not> soft_busy k4 \<and> state_of k4 timer_thread = RT_THREAD_SUSPEND
     then do {
       (_, k5) \<leftarrow> rt_thread_resume timer_thread k4;
       rt_schedule k5
     }
     else Some k4
   }"

section \<open>Checking the timers\<close>

definition timeout_func :: "(nat \<Rightarrow> kernel \<Rightarrow> kernel option) \<Rightarrow> tmid \<Rightarrow> kernel \<Rightarrow> kernel option" where
  "timeout_func cb m = (case m of ThreadTimer t \<Rightarrow> rt_thread_timeout t | UserTimer n \<Rightarrow> cb n)"

text \<open>The timer is taken out of the list, and into the local list, before its function is called.\<close>

definition take_timer :: "tmref \<Rightarrow> tmid \<Rightarrow> kernel \<Rightarrow> kernel" where
  "take_timer loc m k =
    (let k1 = unlink_timer m k;
         k2 = (if \<not> flagged RT_TIMER_FLAG_PERIODIC m k1 then clear_flag RT_TIMER_FLAG_ACTIVATED m k1 else k1)
     in k2\<lparr>tmlists := (tmlists k2)(loc := m # tmlists k2 loc)\<rparr>)"

text \<open>After the call: nothing when the function touched the timer; otherwise a periodic timer that
  is still active is started again.\<close>

definition rearm_timer :: "tmref \<Rightarrow> tmid \<Rightarrow> kernel \<Rightarrow> kernel option" where
  "rearm_timer loc m k =
    (if tmlists k loc = [] then Some k
     else let k1 = unlink_timer m k
          in if flagged RT_TIMER_FLAG_PERIODIC m k1 \<and> flagged RT_TIMER_FLAG_ACTIVATED m k1
             then rt_timer_start m (clear_flag RT_TIMER_FLAG_ACTIVATED m k1)
             else Some k1)"

partial_function (option) timer_check_loop ::
  "(tmid \<Rightarrow> kernel \<Rightarrow> kernel option) \<Rightarrow> u32 \<Rightarrow> kernel \<Rightarrow> kernel option" where
  "timer_check_loop tf current_tick k =
    (case tmlists k HardList of
       [] \<Rightarrow> Some k
     | m # _ \<Rightarrow>
         if current_tick - timeout_tick (timers k m) < HALF_TICK
         then Option.bind (tf m (take_timer HardLocal m k)) (\<lambda>k1.
              Option.bind (rearm_timer HardLocal m k1) (\<lambda>k2. timer_check_loop tf (tick k1) k2))
         else Some k)"

definition rt_timer_check :: "(nat \<Rightarrow> kernel \<Rightarrow> kernel option) \<Rightarrow> kernel \<Rightarrow> kernel option" where
  "rt_timer_check cb k =
    timer_check_loop (timeout_func cb) (tick k) (k\<lparr>tmlists := (tmlists k)(HardLocal := [])\<rparr>)"

definition timer_list_next_timeout :: "tmref \<Rightarrow> kernel \<Rightarrow> u32" where
  "timer_list_next_timeout r k =
    (case tmlists k r of [] \<Rightarrow> 0xffffffff | m # _ \<Rightarrow> timeout_tick (timers k m))"

definition rt_timer_next_timeout_tick :: "kernel \<Rightarrow> u32" where
  "rt_timer_next_timeout_tick k = timer_list_next_timeout HardList k"

partial_function (option) soft_timer_check_loop ::
  "(tmid \<Rightarrow> kernel \<Rightarrow> kernel option) \<Rightarrow> kernel \<Rightarrow> kernel option" where
  "soft_timer_check_loop tf k =
    (case tmlists k SoftList of
       [] \<Rightarrow> Some k
     | m # _ \<Rightarrow>
         if tick k - timeout_tick (timers k m) < HALF_TICK
         then Option.bind (tf m ((take_timer SoftLocal m k)\<lparr>soft_busy := True\<rparr>)) (\<lambda>k1.
              Option.bind (rearm_timer SoftLocal m (k1\<lparr>soft_busy := False\<rparr>)) (\<lambda>k2. soft_timer_check_loop tf k2))
         else Some k)"

definition rt_soft_timer_check :: "(nat \<Rightarrow> kernel \<Rightarrow> kernel option) \<Rightarrow> kernel \<Rightarrow> kernel option" where
  "rt_soft_timer_check cb k =
    soft_timer_check_loop (timeout_func cb) (k\<lparr>tmlists := (tmlists k)(SoftLocal := [])\<rparr>)"

definition rt_system_timer_init :: "kernel \<Rightarrow> kernel" where
  "rt_system_timer_init k = k\<lparr>tmlists := (tmlists k)(HardList := [])\<rparr>"

section \<open>Timer lists stay sorted across the wrap-around\<close>

text \<open>The distance of a time-out from the tick before the current one; every active timer is less
  than half the range away.\<close>

definition due :: "u32 \<Rightarrow> u32 \<Rightarrow> nat" where
  "due now timeout = unat (timeout - now + 1)"

lemma due_diff:
  assumes "due now a < 2 ^ 31" "due now b < 2 ^ 31" "0 < due now b"
  shows "a - b = 0 \<longleftrightarrow> due now a = due now b" "a - b < HALF_TICK \<longleftrightarrow> due now b \<le> due now a"
proof -
  define x where "x = a - now + 1"
  define y where "y = b - now + 1"
  have ab: "a - b = x - y" by (simp add: x_def y_def)
  have d: "due now a = unat x" "due now b = unat y" by (simp_all add: due_def x_def y_def)
  show "a - b = 0 \<longleftrightarrow> due now a = due now b"
    unfolding ab d word_unat_eq_iff [symmetric] by simp
  show "a - b < HALF_TICK \<longleftrightarrow> due now b \<le> due now a"
    using assms unfolding ab d word_less_nat_alt unat_diff_u32 by auto
qed

lemma expired_due:
  assumes "due now a < 2 ^ 31"
  shows "now - a < HALF_TICK \<longleftrightarrow> due now a \<le> 1"
proof -
  define x where "x = a - now + 1"
  have n: "now - a = 1 - x" by (simp add: x_def)
  have d: "due now a = unat x" by (simp add: due_def x_def)
  show ?thesis using assms unfolding n d word_less_nat_alt unat_diff_u32 by auto
qed

lemma due_new:
  assumes "v < HALF_TICK"
  shows "due now (now + v) = Suc (unat v)" "due now (now + v) < 2 ^ 31"
proof -
  have v: "unat v < 2 ^ 31 - 1" using assms by (simp add: word_less_nat_alt)
  then have "unat (v + 1) = unat v + 1" by (simp add: unat_word_ariths)
  then show "due now (now + v) = Suc (unat v)" by (simp add: due_def)
  with v show "due now (now + v) < 2 ^ 31" by simp
qed

lemma due_tick: "0 < due now a \<Longrightarrow> due (now + 1) a = due now a - 1"
proof -
  assume "0 < due now a"
  have "a - (now + 1) + 1 = (a - now + 1) - 1" by simp
  then have "due (now + 1) a = unat ((a - now + 1) - 1)" unfolding due_def by (rule arg_cong)
  also have "\<dots> = due now a - 1" using \<open>0 < due now a\<close> unfolding unat_diff_u32 due_def by simp
  finally show ?thesis .
qed

text \<open>The insertion loop puts the new timer behind all timers that are not due later.\<close>

lemma timer_insert_eq:
  assumes "\<And>t. t \<in> set ts \<Longrightarrow> due now (timeout t) < 2 ^ 31" "0 < due now new" "due now new < 2 ^ 31"
  shows "timer_insert timeout new m ts =
    takeWhile (\<lambda>t. due now (timeout t) \<le> due now new) ts @ m # dropWhile (\<lambda>t. due now (timeout t) \<le> due now new) ts"
  using assms(1)
proof (induction ts)
  case (Cons t ts)
  have "due now (timeout t) < 2 ^ 31" using Cons.prems by simp
  from due_diff [OF this assms(3,2)] Cons show ?case by auto
qed simp

lemma sorted_insert:
  assumes "sorted (map f ts)"
  shows "sorted (map f (takeWhile (\<lambda>t. f t \<le> f m) ts @ m # dropWhile (\<lambda>t. f t \<le> f m) ts))"
  using assms
proof (induction ts)
  case (Cons t ts)
  show ?case
  proof (cases "f t \<le> f m")
    case True
    define L where "L = takeWhile (\<lambda>t. f t \<le> f m) ts @ m # dropWhile (\<lambda>t. f t \<le> f m) ts"
    have "set L = insert m (set ts)"
      unfolding L_def by (metis Un_insert_right list.set(2) set_append takeWhile_dropWhile_id)
    moreover have "sorted (map f L)" using Cons by (simp add: L_def)
    ultimately have "sorted (map f (t # L))" using Cons.prems True by simp
    with True show ?thesis by (simp add: L_def)
  next
    case False
    with Cons.prems show ?thesis by (auto intro: order_trans [of "f m" "f t"])
  qed
qed simp

section \<open>The invariant of the timers\<close>

definition timer_inv :: "nat \<Rightarrow> kernel \<Rightarrow> bool" where
  "timer_inv b k \<longleftrightarrow>
     (\<forall>r. distinct (tmlists k r)) \<and>
     (\<forall>r r' m. m \<in> set (tmlists k r) \<longrightarrow> m \<in> set (tmlists k r') \<longrightarrow> r = r') \<and>
     (\<forall>m \<in> set (tmlists k HardList) \<union> set (tmlists k SoftList).
        is_timer k m \<and> flagged RT_TIMER_FLAG_ACTIVATED m k) \<and>
     (\<forall>m \<in> set (tmlists k HardList). \<not> flagged RT_TIMER_FLAG_SOFT_TIMER m k \<and>
        b \<le> due (tick k) (timeout_tick (timers k m)) \<and> due (tick k) (timeout_tick (timers k m)) < 2 ^ 31) \<and>
     sorted (map (\<lambda>m. due (tick k) (timeout_tick (timers k m))) (tmlists k HardList)) \<and>
     (\<forall>m \<in> set (tmlists k SoftList). flagged RT_TIMER_FLAG_SOFT_TIMER m k) \<and>
     (\<forall>t. ThreadTimer t \<in> set (tmlists k HardList) \<longrightarrow> state_of k t = RT_THREAD_SUSPEND \<and> is_thread k t) \<and>
     (\<forall>t. \<not> flagged RT_TIMER_FLAG_SOFT_TIMER (ThreadTimer t) k \<and> \<not> flagged RT_TIMER_FLAG_PERIODIC (ThreadTimer t) k)"

lemma timer_invD:
  assumes "timer_inv b k"
  shows "distinct (tmlists k r)" "m \<in> set (tmlists k r) \<Longrightarrow> m \<in> set (tmlists k r') \<Longrightarrow> r = r'"
    "m \<in> set (tmlists k HardList) \<union> set (tmlists k SoftList) \<Longrightarrow> is_timer k m \<and> flagged RT_TIMER_FLAG_ACTIVATED m k"
    "m \<in> set (tmlists k HardList) \<Longrightarrow> \<not> flagged RT_TIMER_FLAG_SOFT_TIMER m k \<and>
        b \<le> due (tick k) (timeout_tick (timers k m)) \<and> due (tick k) (timeout_tick (timers k m)) < 2 ^ 31"
    "sorted (map (\<lambda>m. due (tick k) (timeout_tick (timers k m))) (tmlists k HardList))"
    "m \<in> set (tmlists k SoftList) \<Longrightarrow> flagged RT_TIMER_FLAG_SOFT_TIMER m k"
    "ThreadTimer t \<in> set (tmlists k HardList) \<Longrightarrow> state_of k t = RT_THREAD_SUSPEND \<and> is_thread k t"
    "\<not> flagged RT_TIMER_FLAG_SOFT_TIMER (ThreadTimer t) k" "\<not> flagged RT_TIMER_FLAG_PERIODIC (ThreadTimer t) k"
  using assms unfolding timer_inv_def by blast+

lemma timer_inv_mono: "timer_inv b k \<Longrightarrow> b' \<le> b \<Longrightarrow> timer_inv b' k"
  unfolding timer_inv_def by (meson order_trans)

text \<open>Changes that leave the timers alone.\<close>

lemma timer_inv_cong:
  assumes "timer_inv b k" "timers k' = timers k" "tmlists k' = tmlists k" "tick k' = tick k"
    "\<And>t. ThreadTimer t \<in> set (tmlists k HardList) \<Longrightarrow> state_of k' t = RT_THREAD_SUSPEND \<and> is_thread k' t"
  shows "timer_inv b k'"
  using assms(1,5) unfolding timer_inv_def flagged_def assms(2-4) by blast

text \<open>A timer is taken out of its list.\<close>

lemma unlink_timer_inv: "timer_inv b k \<Longrightarrow> timer_inv b (unlink_timer m k)"
proof -
  assume i: "timer_inv b k"
  note d = timer_invD [OF i]
  have "sorted (map (\<lambda>m. due (tick k) (timeout_tick (timers k m))) (filter (\<lambda>x. x \<noteq> m) (tmlists k HardList)))"
    using d(5) by (rule sorted_filter)
  then show ?thesis
    unfolding timer_inv_def using d(1-4,6-9) by (auto simp: flagged_def)
qed

lemma upd_timer_inv:
  assumes i: "timer_inv b k" and m: "m \<notin> set (tmlists k HardList)" "m \<notin> set (tmlists k SoftList)"
    and fl: "\<And>t. m = ThreadTimer t \<Longrightarrow> tm_flag (f (timers k m)) AND RT_TIMER_FLAG_SOFT_TIMER = 0 \<and>
      tm_flag (f (timers k m)) AND RT_TIMER_FLAG_PERIODIC = 0"
  shows "timer_inv b (upd_timer m f k)"
proof -
  note d = timer_invD [OF i]
  have s: "map (\<lambda>x. due (tick (upd_timer m f k)) (timeout_tick (timers (upd_timer m f k) x))) (tmlists (upd_timer m f k) HardList)
      = map (\<lambda>x. due (tick k) (timeout_tick (timers k x))) (tmlists k HardList)"
    using m by (auto intro!: map_cong)
  show ?thesis
    unfolding timer_inv_def s using d m fl by (auto simp: flagged_def)
qed

section \<open>The invariant of the kernel\<close>

definition live :: "kernel \<Rightarrow> nat \<Rightarrow> bool" where
  "live k t \<longleftrightarrow> state_of k t \<in> {RT_THREAD_READY, RT_THREAD_SUSPEND, RT_THREAD_RUNNING}"

text \<open>Threads that have been started are thread objects with an intact stack and their timer.\<close>

definition obj_inv :: "kernel \<Rightarrow> bool" where
  "obj_inv k \<longleftrightarrow> (\<forall>t. live k t \<longrightarrow> is_thread k t \<and> stack_sound (threads k t) \<and>
     is_timer k (ThreadTimer t) \<and> is_system (tm_type (timers k (ThreadTimer t))))"

text \<open>The bound \<open>b\<close> is 2 right after the timer check, 1 otherwise and 0 inside of it.\<close>

definition kinv :: "nat \<Rightarrow> kernel \<Rightarrow> bool" where
  "kinv b k \<longleftrightarrow> sched_inv {} k \<and> timer_inv b k \<and> obj_inv k"

lemma kinvD: "kinv b k \<Longrightarrow> sched_inv {} k" "kinv b k \<Longrightarrow> timer_inv b k" "kinv b k \<Longrightarrow> obj_inv k"
  by (simp_all add: kinv_def)

lemma kinv_mono: "kinv b k \<Longrightarrow> b' \<le> b \<Longrightarrow> kinv b' k"
  using timer_inv_mono by (auto simp: kinv_def)

lemma obj_invD:
  "obj_inv k \<Longrightarrow> live k t \<Longrightarrow> is_thread k t" "obj_inv k \<Longrightarrow> live k t \<Longrightarrow> stack_sound (threads k t)"
  "obj_inv k \<Longrightarrow> live k t \<Longrightarrow> is_timer k (ThreadTimer t)"
  "obj_inv k \<Longrightarrow> live k t \<Longrightarrow> is_system (tm_type (timers k (ThreadTimer t)))"
  by (simp_all add: obj_inv_def)

text \<open>What the operations of this theory leave alone: everything but the states of threads, the
  lists and the timers.\<close>

definition kframe :: "kernel \<Rightarrow> kernel \<Rightarrow> bool" where
  "kframe k k' \<longleftrightarrow> lock_nest k' = lock_nest k \<and> interrupt_nest k' = interrupt_nest k \<and> tick k' = tick k \<and>
     soft_busy k' = soft_busy k \<and> defunct k' = defunct k \<and> cleaned k' = cleaned k \<and> (\<forall>m. tm_type (timers k' m) = tm_type (timers k m)) \<and>
     (\<forall>x. threads k' x = (threads k x)\<lparr>stat := stat (threads k' x)\<rparr>)"

lemma kframe_refl [simp, intro]: "kframe k k"
  by (simp add: kframe_def)

lemma kframe_trans: "kframe k k1 \<Longrightarrow> kframe k1 k2 \<Longrightarrow> kframe k k2"
  unfolding kframe_def by (metis thread.surjective thread.update_convs(7))

lemma sched_kframe: "sched_frame k k' \<Longrightarrow> kframe k k'"
  by (simp add: sched_frame_def kframe_def)

lemma kframe_threads:
  assumes "kframe k k'"
  shows "current_priority (threads k' x) = current_priority (threads k x)"
    "number_mask (threads k' x) = number_mask (threads k x)" "th_error (threads k' x) = th_error (threads k x)"
    "th_type (threads k' x) = th_type (threads k x)" "prio_ok (threads k' x) = prio_ok (threads k x)"
    "stack_sound (threads k' x) = stack_sound (threads k x)"
    "init_priority (threads k' x) = init_priority (threads k x)"
    "th_init_tick (threads k' x) = th_init_tick (threads k x)"
    "remaining_tick (threads k' x) = remaining_tick (threads k x)"
    "event_set (threads k' x) = event_set (threads k x)" "event_info (threads k' x) = event_info (threads k x)"
    "is_timer k' m = is_timer k m" "tm_type (timers k' m) = tm_type (timers k m)"
proof -
  have e: "threads k' x = (threads k x)\<lparr>stat := stat (threads k' x)\<rparr>" using assms by (simp add: kframe_def)
  show "current_priority (threads k' x) = current_priority (threads k x)"
    "number_mask (threads k' x) = number_mask (threads k x)" "th_error (threads k' x) = th_error (threads k x)"
    "th_type (threads k' x) = th_type (threads k x)" "prio_ok (threads k' x) = prio_ok (threads k x)"
    "stack_sound (threads k' x) = stack_sound (threads k x)"
    "init_priority (threads k' x) = init_priority (threads k x)"
    "th_init_tick (threads k' x) = th_init_tick (threads k x)"
    "remaining_tick (threads k' x) = remaining_tick (threads k x)"
    "event_set (threads k' x) = event_set (threads k x)" "event_info (threads k' x) = event_info (threads k x)"
    by (subst e, simp add: prio_ok_def stack_sound_def)+
  show "is_timer k' m = is_timer k m" "tm_type (timers k' m) = tm_type (timers k m)"
    using assms by (simp_all add: kframe_def)
qed

lemma obj_inv_kframe:
  assumes "obj_inv k" "kframe k k'" "\<And>t. live k' t \<Longrightarrow> live k t"
  shows "obj_inv k'"
  using assms(1,3) kframe_threads(4,6,12,13) [OF assms(2)] by (simp add: obj_inv_def)

section \<open>Stopping and starting a timer\<close>

lemma timer_stop_spec:
  assumes i: "timer_inv b k" and ty: "is_timer k m"
  obtains e k' where "rt_timer_stop m k = Some (e, k')" "timer_inv b k'"
    "m \<notin> set (tmlists k' HardList)" "m \<notin> set (tmlists k' SoftList)"
    "sched_frame k (k'\<lparr>timers := timers k, tmlists := tmlists k\<rparr>)" "threads k' = threads k" "tlists k' = tlists k"
    "ready_group k' = ready_group k" "current_thread k' = current_thread k" "switches k' = switches k" "kframe k k'"
    "\<And>x. x \<noteq> m \<Longrightarrow> timers k' x = timers k x" "tmlists k' HardList = filter (\<lambda>x. x \<noteq> m) (tmlists k HardList)"
    "tmlists k' SoftList = filter (\<lambda>x. x \<noteq> m) (tmlists k SoftList)"
proof (cases "flagged RT_TIMER_FLAG_ACTIVATED m k")
  case True
  define k' where "k' = clear_flag RT_TIMER_FLAG_ACTIVATED m (unlink_timer m k)"
  have "timer_inv b (unlink_timer m k)" using unlink_timer_inv [OF i] .
  moreover have "tm_flag (timers k m) AND NOT RT_TIMER_FLAG_ACTIVATED AND RT_TIMER_FLAG_SOFT_TIMER =
      tm_flag (timers k m) AND RT_TIMER_FLAG_SOFT_TIMER"
    "tm_flag (timers k m) AND NOT RT_TIMER_FLAG_ACTIVATED AND RT_TIMER_FLAG_PERIODIC =
      tm_flag (timers k m) AND RT_TIMER_FLAG_PERIODIC"
    by (simp_all add: and.assoc)
  ultimately have "timer_inv b k'"
    unfolding k'_def clear_flag_def
    by (intro upd_timer_inv) (use timer_invD(8,9) [OF i] in \<open>auto simp: flagged_def and.assoc\<close>)
  moreover have "rt_timer_stop m k = Some (RT_EOK, k')"
    using True ty by (simp add: rt_timer_stop_def k'_def)
  ultimately show thesis
    by (intro that [of RT_EOK k']) (simp_all add: k'_def clear_flag_def sched_frame_def kframe_def)
next
  case False
  then have n: "m \<notin> set (tmlists k HardList)" "m \<notin> set (tmlists k SoftList)"
    using timer_invD(3) [OF i, of m] by auto
  then have "filter (\<lambda>x. x \<noteq> m) (tmlists k HardList) = tmlists k HardList"
    "filter (\<lambda>x. x \<noteq> m) (tmlists k SoftList) = tmlists k SoftList" by (auto intro: filter_True)
  with False ty n i show thesis
    by (intro that [of "- RT_ERROR" k]) (simp_all add: rt_timer_stop_def sched_frame_def)
qed

text \<open>Inserting a taken-out hard timer.\<close>

lemma timer_insert_inv:
  assumes i: "timer_inv b k" and m: "m \<notin> set (tmlists k HardList)" "m \<notin> set (tmlists k SoftList)"
    "m \<notin> set (tmlists k HardLocal)" "m \<notin> set (tmlists k SoftLocal)" "is_timer k m" "flagged RT_TIMER_FLAG_ACTIVATED m k"
    "\<not> flagged RT_TIMER_FLAG_SOFT_TIMER m k" and b: "b \<le> 1"
    and due: "1 \<le> due (tick k) (timeout_tick (timers k m))" "due (tick k) (timeout_tick (timers k m)) < 2 ^ 31"
    and th: "\<And>t. m = ThreadTimer t \<Longrightarrow> state_of k t = RT_THREAD_SUSPEND \<and> is_thread k t"
  shows "timer_inv b (k\<lparr>tmlists := (tmlists k)(HardList :=
      timer_insert (\<lambda>x. timeout_tick (timers k x)) (timeout_tick (timers k m)) m (tmlists k HardList))\<rparr>)"
proof -
  note d = timer_invD [OF i]
  define f where "f x = due (tick k) (timeout_tick (timers k x))" for x
  define L where "L = timer_insert (\<lambda>x. timeout_tick (timers k x)) (timeout_tick (timers k m)) m (tmlists k HardList)"
  have L: "L = takeWhile (\<lambda>t. f t \<le> f m) (tmlists k HardList) @ m # dropWhile (\<lambda>t. f t \<le> f m) (tmlists k HardList)"
    unfolding L_def f_def by (rule timer_insert_eq) (use d(4) due in auto)
  have set_L: "set L = insert m (set (tmlists k HardList))"
    unfolding L by (metis Un_insert_right list.set(2) set_append takeWhile_dropWhile_id)
  have sorted_L: "sorted (map f L)" unfolding L by (rule sorted_insert) (use d(5) in \<open>simp add: f_def [abs_def]\<close>)
  have "mset L = add_mset m (mset (tmlists k HardList))"
    unfolding L by (metis mset.simps(2) mset_append takeWhile_dropWhile_id union_mset_add_mset_right)
  then have "distinct L" using m(1) d(1) [of HardList]
    by (metis mset_eq_imp_distinct_iff distinct.simps(2) mset.simps(2))
  have un: "m \<notin> set (tmlists k r)" for r using m by (cases r) auto
  define k' where "k' = k\<lparr>tmlists := (tmlists k)(HardList := L)\<rparr>"
  have l': "tmlists k' = (tmlists k)(HardList := L)" "timers k' = timers k" "tick k' = tick k" "threads k' = threads k"
    by (simp_all add: k'_def)
  have "timer_inv b k'"
    unfolding timer_inv_def
  proof (intro conjI allI impI ballI)
    show "distinct (tmlists k' r)" for r using d(1) \<open>distinct L\<close> by (simp add: l')
    show "r = r'" if "x \<in> set (tmlists k' r)" "x \<in> set (tmlists k' r')" for x r r'
      using that d(2) [of x r r'] un set_L by (auto simp: l' split: if_splits)
    show "is_timer k' x" "flagged RT_TIMER_FLAG_ACTIVATED x k'"
      if "x \<in> set (tmlists k' HardList) \<union> set (tmlists k' SoftList)" for x
      using that d(3) [of x] m(5,6) set_L by (auto simp: l' flagged_def)
    show "\<not> flagged RT_TIMER_FLAG_SOFT_TIMER x k'" "b \<le> due (tick k') (timeout_tick (timers k' x))"
      "due (tick k') (timeout_tick (timers k' x)) < 2 ^ 31" if "x \<in> set (tmlists k' HardList)" for x
      using that d(4) [of x] m(7) b due set_L by (auto simp: l' flagged_def)
    show "sorted (map (\<lambda>m. due (tick k') (timeout_tick (timers k' m))) (tmlists k' HardList))"
      using sorted_L by (simp add: l' f_def [abs_def])
    show "flagged RT_TIMER_FLAG_SOFT_TIMER x k'" if "x \<in> set (tmlists k' SoftList)" for x
      using that d(6) [of x] by (simp add: l' flagged_def)
    show "state_of k' t = RT_THREAD_SUSPEND" "is_thread k' t" if "ThreadTimer t \<in> set (tmlists k' HardList)" for t
      using that d(7) [of t] th [of t] set_L by (auto simp: l')
    show "\<not> flagged RT_TIMER_FLAG_SOFT_TIMER (ThreadTimer t) k'" "\<not> flagged RT_TIMER_FLAG_PERIODIC (ThreadTimer t) k'" for t
      using d(8,9) [of t] by (simp_all add: l' flagged_def)
  qed
  then show ?thesis by (simp add: k'_def L_def)
qed

lemma timer_start_spec:
  assumes i: "timer_inv b k" and ty: "is_timer k m" and tck: "tm_init_tick (timers k m) < HALF_TICK"
    and hard: "\<not> flagged RT_TIMER_FLAG_SOFT_TIMER m k" and b: "b \<le> 1"
    and th: "\<And>t. m = ThreadTimer t \<Longrightarrow> state_of k t = RT_THREAD_SUSPEND \<and> is_thread k t"
  obtains k' where "rt_timer_start m k = Some k'" "timer_inv b k'" "kframe k k'" "threads k' = threads k"
    "tlists k' = tlists k" "ready_group k' = ready_group k" "current_thread k' = current_thread k"
    "switches k' = switches k" "timeout_tick (timers k' m) = tick k + tm_init_tick (timers k m)"
    "\<And>x. x \<noteq> m \<Longrightarrow> timers k' x = timers k x" "m \<in> set (tmlists k' HardList)"
    "set (tmlists k' HardList) = insert m (set (tmlists k HardList))"
    "tm_init_tick (timers k' m) = tm_init_tick (timers k m)"
    "\<And>r. r \<noteq> HardList \<Longrightarrow> tmlists k' r = filter (\<lambda>x. x \<noteq> m) (tmlists k r)"
    "flagged RT_TIMER_FLAG_PERIODIC m k' = flagged RT_TIMER_FLAG_PERIODIC m k"
proof -
  define new where "new = tick k + tm_init_tick (timers k m)"
  define k0 where "k0 = unlink_timer m k"
  define g where "g tm = tm\<lparr>tm_flag := (tm_flag tm AND NOT RT_TIMER_FLAG_ACTIVATED) OR RT_TIMER_FLAG_ACTIVATED, timeout_tick := new\<rparr>" for tm :: timer
  define k1 where "k1 = upd_timer m g k0"
  have fl: "tm_flag (g tm) AND RT_TIMER_FLAG_SOFT_TIMER = tm_flag tm AND RT_TIMER_FLAG_SOFT_TIMER"
    "tm_flag (g tm) AND RT_TIMER_FLAG_PERIODIC = tm_flag tm AND RT_TIMER_FLAG_PERIODIC"
    "tm_flag (g tm) AND RT_TIMER_FLAG_ACTIVATED \<noteq> 0" for tm
    by (simp_all add: g_def bit.conj_disj_distrib2 and.assoc)
  have un: "m \<notin> set (tmlists k0 r)" for r by (simp add: k0_def)
  have i1: "timer_inv b k1"
    unfolding k1_def
    by (rule upd_timer_inv) (use un unlink_timer_inv [OF i] timer_invD(8,9) [OF i] in \<open>auto simp: k0_def fl flagged_def\<close>)
  define k' where "k' = k1\<lparr>tmlists := (tmlists k1)(HardList :=
      timer_insert (\<lambda>x. timeout_tick (timers k1 x)) (timeout_tick (timers k1 m)) m (tmlists k1 HardList))\<rparr>"
  have i': "timer_inv b k'"
    unfolding k'_def
  proof (rule timer_insert_inv [OF i1])
    show "m \<notin> set (tmlists k1 HardList)" "m \<notin> set (tmlists k1 SoftList)"
      "m \<notin> set (tmlists k1 HardLocal)" "m \<notin> set (tmlists k1 SoftLocal)" using un by (simp_all add: k1_def)
    show "is_timer k1 m" using ty by (simp add: k1_def k0_def g_def)
    show "flagged RT_TIMER_FLAG_ACTIVATED m k1" by (simp add: flagged_def k1_def fl)
    show "\<not> flagged RT_TIMER_FLAG_SOFT_TIMER m k1" using hard by (simp add: flagged_def k1_def fl k0_def)
    have "timeout_tick (timers k1 m) = tick k1 + tm_init_tick (timers k m)" by (simp add: k1_def k0_def g_def new_def)
    then show "1 \<le> due (tick k1) (timeout_tick (timers k1 m))" "due (tick k1) (timeout_tick (timers k1 m)) < 2 ^ 31"
      using due_new [OF tck] by simp_all
    show "state_of k1 t = RT_THREAD_SUSPEND \<and> is_thread k1 t" if "m = ThreadTimer t" for t
      using th [OF that] by (simp add: k1_def k0_def)
  qed (rule b)
  have nsoft: "\<not> flagged RT_TIMER_FLAG_SOFT_TIMER m k'" using hard by (simp add: flagged_def k'_def k1_def fl k0_def)
  have sets: "set (timer_insert h w m xs) = insert m (set xs)" for h w and xs :: "tmid list"
    by (induction xs) auto
  have "rt_timer_start m k = Some k'"
  proof -
    define a where "a = clear_flag RT_TIMER_FLAG_ACTIVATED m (unlink_timer m k)"
    define a2 where "a2 = upd_timer m (\<lambda>tm. tm\<lparr>timeout_tick := new\<rparr>) a"
    have e: "tm_init_tick (timers a m) = tm_init_tick (timers k m)" "tick a = tick k"
      "\<not> flagged RT_TIMER_FLAG_SOFT_TIMER m a2"
      using hard by (simp_all add: a_def clear_flag_def a2_def flagged_def and.assoc)
    have f: "set_flag RT_TIMER_FLAG_ACTIVATED m (a2\<lparr>tmlists := (tmlists a2)(HardList :=
        timer_insert (\<lambda>x. timeout_tick (timers a2 x)) new m (tmlists a2 HardList))\<rparr>) = k'"
    proof -
      have "(\<lambda>x. timeout_tick (timers a2 x)) = (\<lambda>x. timeout_tick (timers k1 x))" "tmlists a2 = tmlists k1"
        "timeout_tick (timers k1 m) = new"
        by (auto simp: a2_def a_def k1_def k0_def clear_flag_def g_def fun_eq_iff)
      then show ?thesis
        unfolding k'_def by (simp add: a2_def a_def k1_def k0_def clear_flag_def set_flag_def g_def upd_timer_def unlink_timer_def fun_eq_iff)
    qed
    show ?thesis
      unfolding rt_timer_start_def bind_assert_that a_def [symmetric] Let_def e(1,2) new_def [symmetric] a2_def [symmetric]
      by (simp only: ty tck e(3) if_True if_False f nsoft simp_thms)
  qed
  moreover have "kframe k k'" by (simp add: kframe_def k'_def k1_def k0_def g_def)
  ultimately show thesis
    using i' by (intro that [of k'])
      (auto simp: k'_def k1_def k0_def sets new_def g_def [abs_def] flagged_def bit.conj_disj_distrib2 and.assoc)
qed

section \<open>Waking and suspending threads\<close>

lemma insert_any_spec:
  assumes inv: "sched_inv X k" and t: "t \<in> X" and ok: "prio_ok (threads k t)"
  obtains k' where "rt_schedule_insert_thread t k = Some k'" "sched_inv (X - {t}) k'" "sched_frame k k'"
    "current_thread k' = current_thread k" "switches k' = switches k"
    "state_of k' t = (if current_thread k = Some t then RT_THREAD_RUNNING else RT_THREAD_READY)"
    "\<And>x. x \<noteq> t \<Longrightarrow> threads k' x = threads k x"
    "tlists k' = (if current_thread k = Some t then tlists k
       else (tlists k)(Ready (current_priority (threads k t)) := tlists k (Ready (current_priority (threads k t))) @ [t]))"
proof (cases "current_thread k = Some t")
  case True
  have "sched_inv (X - {t}) (set_state RT_THREAD_RUNNING t k)"
    by (rule set_state_inv' [OF inv t]) (simp_all add: True ok)
  with True show thesis
    by (intro that [of "set_state RT_THREAD_RUNNING t k"])
      (simp_all add: rt_schedule_insert_thread_def, simp_all add: set_state_def sched_frame_def)
next
  case False
  from insert_ready_spec [OF inv t ok False] obtain g where
    g: "rt_schedule_insert_thread t k =
      Some ((append_to (Ready (current_priority (threads k t))) t (set_state RT_THREAD_READY t k))\<lparr>ready_group := g\<rparr>)"
    "sched_inv (X - {t}) ((append_to (Ready (current_priority (threads k t))) t (set_state RT_THREAD_READY t k))\<lparr>ready_group := g\<rparr>)"
    by blast
  with False show thesis
    by (intro that [of "(append_to (Ready (current_priority (threads k t))) t (set_state RT_THREAD_READY t k))\<lparr>ready_group := g\<rparr>"])
      (simp_all add: set_state_def sched_frame_def)
qed

text \<open>A thread taken out of the list it waits in is between two lists.\<close>

lemma unlink_inv:
  assumes inv: "sched_inv X k" and st: "state_of k t = RT_THREAD_SUSPEND"
  shows "sched_inv (insert t X) (unlink t k)"
proof -
  have n: "t \<notin> set (tlists k (Ready p))" for p using sched_invD(4) [OF inv, of t p] st by auto
  have r: "tlists (unlink t k) (Ready p) = tlists k (Ready p)" for p using n [of p] by (auto intro: filter_True)
  have "group_ok (unlink t k)" using sched_invD(1) [OF inv] unfolding group_ok_def r by simp
  then show ?thesis
    using inv unfolding sched_inv_def linked_def by simp blast
qed

lemma thread_resume_spec:
  assumes kinv: "kinv b k" and st: "state_of k t = RT_THREAD_SUSPEND"
  obtains k' where "rt_thread_resume t k = Some (RT_EOK, k')" "kinv b k'" "kframe k k'"
    "current_thread k' = current_thread k" "switches k' = switches k"
    "state_of k' t = (if current_thread k = Some t then RT_THREAD_RUNNING else RT_THREAD_READY)"
    "\<And>x. x \<noteq> t \<Longrightarrow> threads k' x = threads k x"
    "tlists k' = (if current_thread k = Some t then tlists (unlink t k)
       else (tlists (unlink t k))(Ready (current_priority (threads k t)) := tlists k (Ready (current_priority (threads k t))) @ [t]))"
    "tmlists k' HardList = filter (\<lambda>x. x \<noteq> ThreadTimer t) (tmlists k HardList)"
    "tmlists k' SoftList = tmlists k SoftList"
    "\<And>x. x \<noteq> ThreadTimer t \<Longrightarrow> timers k' x = timers k x"
proof -
  note i = kinvD [OF kinv]
  have lv: "live k t" using st by (simp add: live_def)
  note o = obj_invD [OF i(3) lv]
  have nr: "t \<notin> set (tlists k (Ready p))" for p using sched_invD(4) [OF i(1), of t p] st by auto
  have i1: "sched_inv {t} (unlink t k)" using unlink_inv [OF i(1) st] .
  have t1: "timer_inv b (unlink t k)" by (rule timer_inv_cong [OF i(2)]) (use timer_invD(7) [OF i(2)] in auto)
  have ty: "is_timer (unlink t k) (ThreadTimer t)" using o(3) by simp
  obtain e k2 where k2: "rt_timer_stop (ThreadTimer t) (unlink t k) = Some (e, k2)" "timer_inv b k2"
    "ThreadTimer t \<notin> set (tmlists k2 HardList)" "threads k2 = threads (unlink t k)"
    "tlists k2 = tlists (unlink t k)" "ready_group k2 = ready_group (unlink t k)"
    "current_thread k2 = current_thread (unlink t k)" "switches k2 = switches (unlink t k)" "kframe (unlink t k) k2"
    "\<And>x. x \<noteq> ThreadTimer t \<Longrightarrow> timers k2 x = timers (unlink t k) x"
    "tmlists k2 HardList = filter (\<lambda>x. x \<noteq> ThreadTimer t) (tmlists (unlink t k) HardList)"
    "tmlists k2 SoftList = filter (\<lambda>x. x \<noteq> ThreadTimer t) (tmlists (unlink t k) SoftList)"
    by (rule timer_stop_spec [OF t1 ty]) metis
  have soft: "ThreadTimer t \<notin> set (tmlists k SoftList)"
    using timer_invD(6,8) [OF i(2)] by blast
  have i2: "sched_inv {t} k2" using i1 by (subst sched_inv_cong) (simp_all add: k2)
  have ok2: "prio_ok (threads k2 t)" using sched_invD(10) [OF i(1), of t] st by (simp add: k2)
  obtain k3 where k3: "rt_schedule_insert_thread t k2 = Some k3" "sched_inv ({t} - {t}) k3" "sched_frame k2 k3"
    "current_thread k3 = current_thread k2" "switches k3 = switches k2"
    "state_of k3 t = (if current_thread k2 = Some t then RT_THREAD_RUNNING else RT_THREAD_READY)"
    "\<And>x. x \<noteq> t \<Longrightarrow> threads k3 x = threads k2 x"
    "tlists k3 = (if current_thread k2 = Some t then tlists k2
       else (tlists k2)(Ready (current_priority (threads k2 t)) := tlists k2 (Ready (current_priority (threads k2 t))) @ [t]))"
    by (rule insert_any_spec [OF i2 _ ok2]) auto
  have f3: "timers k3 = timers k2" "tmlists k3 = tmlists k2" "tick k3 = tick k2" using k3(3) by (simp_all add: sched_frame_def)
  have fr: "kframe k k3"
    using kframe_trans [OF k2(9) sched_kframe [OF k3(3)]] by (simp add: kframe_def)
  have "timer_inv b k3"
  proof (rule timer_inv_cong [OF k2(2) f3])
    fix x assume x: "ThreadTimer x \<in> set (tmlists k2 HardList)"
    then have "x \<noteq> t" using k2(3) by auto
    then show "state_of k3 x = RT_THREAD_SUSPEND \<and> is_thread k3 x"
      using timer_invD(7) [OF k2(2) x] by (simp add: k3(7))
  qed
  moreover have "obj_inv k3"
  proof (rule obj_inv_kframe [OF i(3) fr])
    fix x assume "live k3 x"
    then show "live k x" using lv k3(7) [of x] k2(4) by (cases "x = t") (simp_all add: live_def)
  qed
  ultimately have "kinv b k3" using k3(2) by (simp add: kinv_def)
  moreover have "rt_thread_resume t k = Some (RT_EOK, k3)"
    using o(1) st k2(1) k3(1) by (simp add: rt_thread_resume_def)
  moreover have "tlists k3 = (if current_thread k = Some t then tlists (unlink t k)
       else (tlists (unlink t k))(Ready (current_priority (threads k t)) := tlists k (Ready (current_priority (threads k t))) @ [t]))"
  proof -
    have "filter (\<lambda>x. x \<noteq> t) (tlists k (Ready p)) = tlists k (Ready p)" for p using nr [of p] by (auto intro: filter_True)
    then show ?thesis by (simp add: k3(8) k2)
  qed
  moreover have "filter (\<lambda>x. x \<noteq> ThreadTimer t) (tmlists k SoftList) = tmlists k SoftList"
    using soft by (auto intro: filter_True)
  ultimately show thesis
    using fr k3 k2 f3 by (intro that [of k3]) simp_all
qed

lemma schedule_kinv:
  assumes kinv: "kinv b k" and cur: "current_thread k \<noteq> None"
  obtains k' where "rt_schedule k = Some k'" "kinv b k'" "kframe k k'" "current_thread k' \<noteq> None"
    "timers k' = timers k" "tmlists k' = tmlists k" "\<And>x. live k' x = live k x"
    "\<And>x. state_of k' x = RT_THREAD_SUSPEND \<longleftrightarrow> state_of k x = RT_THREAD_SUSPEND"
    "\<And>i. tlists k' (Waiting i) = tlists k (Waiting i)" "\<And>i. tlists k' (Senders i) = tlists k (Senders i)"
proof -
  note i = kinvD [OF kinv]
  obtain cur where cur: "current_thread k = Some cur" using cur by blast
  have "\<exists>k'. rt_schedule k = Some k' \<and> sched_inv {} k' \<and> sched_frame k k' \<and> current_thread k' \<noteq> None \<and>
    (\<forall>x. live k' x = live k x) \<and> (\<forall>x. state_of k' x = RT_THREAD_SUSPEND \<longleftrightarrow> state_of k x = RT_THREAD_SUSPEND) \<and>
    (\<forall>i. tlists k' (Waiting i) = tlists k (Waiting i) \<and> tlists k' (Senders i) = tlists k (Senders i))"
  proof (cases "lock_nest k = 0 \<and> ready_group k \<noteq> 0")
    case True
    then have l: "lock_nest k = 0" "ready_group k \<noteq> 0" by simp_all
    obtain t p ts where h: "highest_priority_thread k = Some (t, p)" "tlists k (Ready p) = t # ts" "state_of k t = RT_THREAD_READY"
      using highest_spec [OF i(1) l(2)] by metis
    have other: "filter (\<lambda>x. x \<noteq> t) (tlists k (Waiting i)) = tlists k (Waiting i)"
      "filter (\<lambda>x. x \<noteq> t) (tlists k (Senders i)) = tlists k (Senders i)" for i
      using sched_invD(5,6) [OF i(1), of t i] h(3) by (auto intro: filter_True)
    show ?thesis
    proof (cases "keeps_cpu k cur p \<or> t = cur")
      case c: True
      then have c': "state_of k cur = RT_THREAD_READY \<or> state_of k cur = RT_THREAD_RUNNING" using h(3) by (auto simp: keeps_cpu_def)
      then have oc: "filter (\<lambda>x. x \<noteq> cur) (tlists k (Waiting i)) = tlists k (Waiting i)"
        "filter (\<lambda>x. x \<noteq> cur) (tlists k (Senders i)) = tlists k (Senders i)" for i
        using sched_invD(5,6) [OF i(1), of cur i] by (auto intro: filter_True)
      from schedule_same [OF i(1) l cur h(1) c] obtain k' where k': "rt_schedule k = Some k'" "sched_inv {} k'" "sched_frame k k'"
        "tlists k' = (\<lambda>l. filter (\<lambda>x. x \<noteq> cur) (tlists k l))" "current_thread k' = Some cur"
        "state_of k' cur = RT_THREAD_RUNNING" "\<And>x. x \<noteq> cur \<Longrightarrow> threads k' x = threads k x" by blast
      have "live k' x = live k x" "state_of k' x = RT_THREAD_SUSPEND \<longleftrightarrow> state_of k x = RT_THREAD_SUSPEND" for x
        using k'(6) k'(7) [of x] c' by (cases "x = cur"; auto simp: live_def)+
      with k' oc show ?thesis by (intro exI [of _ k']) simp
    next
      case c: False
      then have nk: "\<not> keeps_cpu k cur p" and ne: "t \<noteq> cur" by auto
      have "stack_sound (threads k t)" using obj_invD(2) [OF i(3), of t] h(3) by (simp add: live_def)
      from schedule_switch [OF i(1) l cur h(1) nk this ne] obtain k' where
        k': "rt_schedule k = Some k'" "sched_inv {} k'" "sched_frame k k'"
        "tlists k' = (\<lambda>l. filter (\<lambda>x. x \<noteq> t) (((tlists k)(Ready (current_priority (threads k cur)) :=
          tlists k (Ready (current_priority (threads k cur))) @ (if state_of k cur = RT_THREAD_RUNNING then [cur] else []))) l))"
        "current_thread k' = Some t" "state_of k' t = RT_THREAD_RUNNING"
        "state_of k' cur = (if state_of k cur = RT_THREAD_RUNNING then RT_THREAD_READY else state_of k cur)"
        "\<And>x. x \<noteq> cur \<Longrightarrow> x \<noteq> t \<Longrightarrow> threads k' x = threads k x" by blast
      have "live k' x = live k x \<and> (state_of k' x = RT_THREAD_SUSPEND \<longleftrightarrow> state_of k x = RT_THREAD_SUSPEND)" for x
      proof -
        consider "x = t" | "x = cur" | "x \<noteq> t" "x \<noteq> cur" by blast
        then show ?thesis
          by cases (use k'(6-8) h(3) in \<open>simp_all add: live_def\<close>)
      qed
      with k' other show ?thesis by (intro exI [of _ k']) simp
    qed
  qed (use i(1) cur schedule_idle in auto)
  then obtain k' where k': "rt_schedule k = Some k'" "sched_inv {} k'" "sched_frame k k'" "current_thread k' \<noteq> None"
    "\<And>x. live k' x = live k x" "\<And>x. state_of k' x = RT_THREAD_SUSPEND \<longleftrightarrow> state_of k x = RT_THREAD_SUSPEND"
    "\<And>i. tlists k' (Waiting i) = tlists k (Waiting i)" "\<And>i. tlists k' (Senders i) = tlists k (Senders i)" by blast
  have f: "timers k' = timers k" "tmlists k' = tmlists k" "tick k' = tick k" using k'(3) by (simp_all add: sched_frame_def)
  have "timer_inv b k'"
    by (rule timer_inv_cong [OF i(2) f])
      (use timer_invD(7) [OF i(2)] k'(6) sched_frame_threads(4) [OF k'(3)] in auto)
  moreover have "obj_inv k'" by (rule obj_inv_kframe [OF i(3) sched_kframe [OF k'(3)]]) (simp add: k'(5))
  ultimately show thesis
    using k' f by (intro that [of k']) (simp_all add: kinv_def sched_kframe)
qed

lemma set_stat_tail: "s AND 7 = s' AND 7 \<Longrightarrow> s = s' \<Longrightarrow> s AND 7 = (s' AND 7 :: u8)"
  by simp

lemma thread_suspend_spec:
  assumes kinv: "kinv b k" and st: "state_of k t = RT_THREAD_READY \<or> state_of k t = RT_THREAD_RUNNING"
  obtains k' where "rt_thread_suspend t k = Some (RT_EOK, k')" "kinv b k'" "kframe k k'"
    "current_thread k' = current_thread k" "switches k' = switches k" "state_of k' t = RT_THREAD_SUSPEND" "\<not> linked t k'"
    "\<And>x. x \<noteq> t \<Longrightarrow> threads k' x = threads k x" "tlists k' = tlists (unlink t k)"
    "tmlists k' HardList = tmlists k HardList" "tmlists k' SoftList = tmlists k SoftList"
    "\<And>x. x \<noteq> ThreadTimer t \<Longrightarrow> timers k' x = timers k x"
proof -
  note i = kinvD [OF kinv]
  have lv: "live k t" using st by (auto simp: live_def)
  note o = obj_invD [OF i(3) lv]
  have self: "state_of k t = RT_THREAD_RUNNING \<longrightarrow> rt_thread_self k = Some t"
    using sched_invD(9) [OF i(1), of t] by (simp add: rt_thread_self_def)
  have ok: "prio_ok (threads k t)" using sched_invD(10) [OF i(1), of t] st by blast
  have nt: "ThreadTimer t \<notin> set (tmlists k HardList)" using timer_invD(7) [OF i(2), of t] st by auto
  have ns: "ThreadTimer t \<notin> set (tmlists k SoftList)" using timer_invD(6,8) [OF i(2)] by blast
  from remove_spec [OF i(1) ok] obtain g where
    g: "rt_schedule_remove_thread t k = Some ((unlink t k)\<lparr>ready_group := g\<rparr>)"
    "sched_inv {t} ((unlink t k)\<lparr>ready_group := g\<rparr>)" by auto
  define k1 where "k1 = (unlink t k)\<lparr>ready_group := g\<rparr>"
  define k2 where "k2 = set_state RT_THREAD_SUSPEND t k1"
  have i2: "sched_inv {} k2"
    using set_state_inv' [of "{t}" k1 t RT_THREAD_SUSPEND] g(2) ok by (simp add: k1_def k2_def)
  have f2: "timers k2 = timers k" "tmlists k2 = tmlists k" "tick k2 = tick k" "kframe k k2"
    "tlists k2 = tlists (unlink t k)" "current_thread k2 = current_thread k" "switches k2 = switches k"
    "state_of k2 t = RT_THREAD_SUSPEND" "\<And>x. x \<noteq> t \<Longrightarrow> threads k2 x = threads k x"
    by (simp_all add: k2_def k1_def set_state_def kframe_def fun_eq_iff)
  have t2: "timer_inv b k2"
  proof (rule timer_inv_cong [OF i(2) f2(1-3)])
    fix x assume x: "ThreadTimer x \<in> set (tmlists k HardList)"
    then have "x \<noteq> t" using nt by auto
    then show "state_of k2 x = RT_THREAD_SUSPEND \<and> is_thread k2 x"
      using timer_invD(7) [OF i(2) x] by (simp add: f2(9))
  qed
  have ty: "is_timer k2 (ThreadTimer t)" using o(3) by (simp add: f2(1))
  obtain e k3 where k3: "rt_timer_stop (ThreadTimer t) k2 = Some (e, k3)" "timer_inv b k3" "threads k3 = threads k2"
    "tlists k3 = tlists k2" "ready_group k3 = ready_group k2" "current_thread k3 = current_thread k2"
    "switches k3 = switches k2" "kframe k2 k3" "\<And>x. x \<noteq> ThreadTimer t \<Longrightarrow> timers k3 x = timers k2 x"
    "tmlists k3 HardList = filter (\<lambda>x. x \<noteq> ThreadTimer t) (tmlists k2 HardList)"
    "tmlists k3 SoftList = filter (\<lambda>x. x \<noteq> ThreadTimer t) (tmlists k2 SoftList)"
    by (rule timer_stop_spec [OF t2 ty]) metis
  have fr: "kframe k k3" using kframe_trans [OF f2(4) k3(8)] .
  have "sched_inv {} k3" using i2 by (subst sched_inv_cong) (simp_all add: k3)
  moreover have "obj_inv k3"
  proof (rule obj_inv_kframe [OF i(3) fr])
    fix x assume "live k3 x"
    then show "live k x" using lv f2(9) [of x] by (cases "x = t") (simp_all add: live_def k3(3))
  qed
  ultimately have "kinv b k3" using k3(2) by (simp add: kinv_def)
  moreover have "rt_thread_suspend t k = Some (RT_EOK, k3)"
    using o(1) st self g(1) k3(1)
    unfolding rt_thread_suspend_def by (auto simp: Let_def k1_def [symmetric] k2_def [symmetric])
  moreover have "filter (\<lambda>x. x \<noteq> ThreadTimer t) (tmlists k HardList) = tmlists k HardList"
    "filter (\<lambda>x. x \<noteq> ThreadTimer t) (tmlists k SoftList) = tmlists k SoftList"
    using nt ns by (auto intro: filter_True)
  moreover have "\<not> linked t k3" by (simp add: linked_def k3(4) f2(5))
  ultimately show thesis
    using fr f2 k3 by (intro that [of k3]) simp_all
qed

text \<open>The call of \<open>rt_thread_timeout\<close> for a timer that was taken out of the list.\<close>

lemma thread_timeout_start:
  assumes kinv: "kinv b k" and st: "state_of k t = RT_THREAD_SUSPEND"
    and nt: "ThreadTimer t \<notin> set (tmlists k HardList)"
  obtains k3 where "rt_thread_timeout t k = rt_schedule k3" "kinv b k3" "current_thread k3 = current_thread k"
    "timers k3 = timers k" "tmlists k3 = tmlists k" "tick k3 = tick k" "th_error (threads k3 t) = - RT_ETIMEOUT"
    "state_of k3 t \<in> {RT_THREAD_READY, RT_THREAD_RUNNING}" "lock_nest k3 = lock_nest k"
    "\<And>x. live k3 x = live k x" "\<And>x. x \<noteq> t \<Longrightarrow> threads k3 x = threads k x"
    "interrupt_nest k3 = interrupt_nest k" "soft_busy k3 = soft_busy k"
    "\<And>i. tlists k3 (Waiting i) = filter (\<lambda>x. x \<noteq> t) (tlists k (Waiting i))"
    "\<And>i. tlists k3 (Senders i) = filter (\<lambda>x. x \<noteq> t) (tlists k (Senders i))"
    "event_set (threads k3 t) = event_set (threads k t)" "event_info (threads k3 t) = event_info (threads k t)"
proof -
  note i = kinvD [OF kinv]
  have lv: "live k t" using st by (simp add: live_def)
  note o = obj_invD [OF i(3) lv]
  define k1 where "k1 = upd_thread t (\<lambda>th. th\<lparr>th_error := - RT_ETIMEOUT\<rparr>) k"
  have f1: "timers k1 = timers k" "tmlists k1 = tmlists k" "tick k1 = tick k" "current_thread k1 = current_thread k"
    "\<And>x. state_of k1 x = state_of k x" "\<And>x. x \<noteq> t \<Longrightarrow> threads k1 x = threads k x"
    "th_error (threads k1 t) = - RT_ETIMEOUT" "lock_nest k1 = lock_nest k"
    "interrupt_nest k1 = interrupt_nest k" "soft_busy k1 = soft_busy k"
    by (simp_all add: k1_def)
  have s1: "sched_inv {} k1" using i(1) by (subst sched_inv_cong) (simp_all add: k1_def)
  have o1: "obj_inv k1" using i(3) by (simp add: obj_inv_def live_def k1_def stack_sound_def)
  have t1: "timer_inv b k1"
    by (rule timer_inv_cong [OF i(2) f1(1-3)]) (use timer_invD(7) [OF i(2)] in \<open>auto simp: k1_def\<close>)
  have s2: "sched_inv {t} (unlink t k1)" using unlink_inv [OF s1, of t] st by (simp add: f1)
  have ok: "prio_ok (threads (unlink t k1) t)" using sched_invD(10) [OF s1, of t] st by (simp add: f1)
  obtain k3 where k3: "rt_schedule_insert_thread t (unlink t k1) = Some k3" "sched_inv ({t} - {t}) k3"
    "sched_frame (unlink t k1) k3" "current_thread k3 = current_thread (unlink t k1)"
    "state_of k3 t = (if current_thread (unlink t k1) = Some t then RT_THREAD_RUNNING else RT_THREAD_READY)"
    "\<And>x. x \<noteq> t \<Longrightarrow> threads k3 x = threads (unlink t k1) x"
    "tlists k3 = (if current_thread (unlink t k1) = Some t then tlists (unlink t k1)
      else (tlists (unlink t k1))(Ready (current_priority (threads (unlink t k1) t)) :=
        tlists (unlink t k1) (Ready (current_priority (threads (unlink t k1) t))) @ [t]))"
    by (rule insert_any_spec [OF s2 _ ok]) auto
  have f3: "timers k3 = timers k" "tmlists k3 = tmlists k" "tick k3 = tick k" "current_thread k3 = current_thread k"
    "lock_nest k3 = lock_nest k" "interrupt_nest k3 = interrupt_nest k" "soft_busy k3 = soft_busy k"
    using k3(3,4) f1 by (simp_all add: sched_frame_def)
  have lv3: "live k3 x = live k x" for x
    using lv k3(5) k3(6) [of x] f1(6) [of x] by (cases "x = t") (auto simp: live_def)
  have t3: "timer_inv b k3"
  proof (rule timer_inv_cong [OF i(2) f3(1-3)])
    fix x assume x: "ThreadTimer x \<in> set (tmlists k HardList)"
    then have "x \<noteq> t" using nt by auto
    then show "state_of k3 x = RT_THREAD_SUSPEND \<and> is_thread k3 x"
      using timer_invD(7) [OF i(2) x] by (simp add: k3(6) f1(6))
  qed
  have "obj_inv k3"
    by (rule obj_inv_kframe [OF o1]) (use k3(3) lv3 in \<open>auto simp: kframe_def sched_frame_def live_def f1(5)\<close>)
  then have k3i: "kinv b k3" using k3(2) t3 by (simp add: kinv_def)
  have run: "rt_thread_timeout t k = rt_schedule k3"
    using st o(1) k3(1) by (simp add: rt_thread_timeout_def k1_def)
  have e3: "th_error (threads k3 t) = - RT_ETIMEOUT" "event_set (threads k3 t) = event_set (threads k t)" "event_info (threads k3 t) = event_info (threads k t)"
    using sched_frame_threads [OF k3(3), of t] f1(7) by (simp_all add: k1_def)
  have w: "tlists k3 (Waiting i) = filter (\<lambda>x. x \<noteq> t) (tlists k (Waiting i))" "tlists k3 (Senders i) = filter (\<lambda>x. x \<noteq> t) (tlists k (Senders i))" for i
    by (simp_all add: k3(7) k1_def)
  have s3: "state_of k3 t \<in> {RT_THREAD_READY, RT_THREAD_RUNNING}" by (simp add: k3(5))
  have x3: "threads k3 x = threads k x" if "x \<noteq> t" for x using k3(6) [OF that] f1(6) [OF that] by simp
  show thesis by (rule that [OF run k3i f3(4,1-3) e3(1) s3 f3(5) lv3 x3 f3(6,7) w e3(2,3)])
qed

lemma thread_timeout_spec:
  assumes kinv: "kinv b k" and st: "state_of k t = RT_THREAD_SUSPEND" and cur: "current_thread k \<noteq> None"
    and nt: "ThreadTimer t \<notin> set (tmlists k HardList)"
  obtains k' where "rt_thread_timeout t k = Some k'" "kinv b k'" "current_thread k' \<noteq> None"
    "timers k' = timers k" "tmlists k' = tmlists k" "tick k' = tick k" "th_error (threads k' t) = - RT_ETIMEOUT"
    "state_of k' t \<in> {RT_THREAD_READY, RT_THREAD_RUNNING}" "lock_nest k' = lock_nest k"
    "\<And>x. live k' x = live k x"
    "\<And>x. x \<noteq> t \<Longrightarrow> state_of k' x = RT_THREAD_SUSPEND \<longleftrightarrow> state_of k x = RT_THREAD_SUSPEND"
    "\<And>x. x \<noteq> t \<Longrightarrow> th_error (threads k' x) = th_error (threads k x)"
    "interrupt_nest k' = interrupt_nest k" "soft_busy k' = soft_busy k"
proof -
  have lv: "live k t" using st by (simp add: live_def)
  obtain k3 where k3: "rt_thread_timeout t k = rt_schedule k3" "kinv b k3" "current_thread k3 = current_thread k"
    "timers k3 = timers k" "tmlists k3 = tmlists k" "tick k3 = tick k" "th_error (threads k3 t) = - RT_ETIMEOUT"
    "state_of k3 t \<in> {RT_THREAD_READY, RT_THREAD_RUNNING}" "lock_nest k3 = lock_nest k"
    "\<And>x. live k3 x = live k x" "\<And>x. x \<noteq> t \<Longrightarrow> threads k3 x = threads k x"
    "interrupt_nest k3 = interrupt_nest k" "soft_busy k3 = soft_busy k"
    by (rule thread_timeout_start [OF kinv st nt]) blast
  have cur3: "current_thread k3 \<noteq> None" using cur k3(3) by simp
  obtain k' where k': "rt_schedule k3 = Some k'" "kinv b k'" "kframe k3 k'" "current_thread k' \<noteq> None"
    "timers k' = timers k3" "tmlists k' = tmlists k3" "\<And>x. live k' x = live k3 x"
    "\<And>x. state_of k' x = RT_THREAD_SUSPEND \<longleftrightarrow> state_of k3 x = RT_THREAD_SUSPEND"
    by (rule schedule_kinv [OF k3(2) cur3]) metis
  have "state_of k' t \<in> {RT_THREAD_READY, RT_THREAD_RUNNING}"
  proof -
    have "live k' t" "state_of k' t \<noteq> RT_THREAD_SUSPEND" using k'(7,8) k3(8,10) lv by auto
    then show ?thesis by (auto simp: live_def)
  qed
  moreover have "state_of k' x = RT_THREAD_SUSPEND \<longleftrightarrow> state_of k x = RT_THREAD_SUSPEND" if "x \<noteq> t" for x
    using k'(8) [of x] k3(11) [OF that] by simp
  moreover have "th_error (threads k' x) = th_error (threads k3 x)" for x by (rule kframe_threads(3) [OF k'(3)])
  ultimately show thesis
    using k' k3 by (intro that [of k']) (simp_all add: kframe_def)
qed

section \<open>The timer check\<close>

text \<open>A periodic timer needs a period; a timer in the course of its call.\<close>

definition period_ok :: "kernel \<Rightarrow> tmid \<Rightarrow> bool" where
  "period_ok k m \<longleftrightarrow> (flagged RT_TIMER_FLAG_PERIODIC m k \<longrightarrow>
     0 < tm_init_tick (timers k m) \<and> tm_init_tick (timers k m) < HALF_TICK)"

definition periods_ok :: "kernel \<Rightarrow> bool" where
  "periods_ok k \<longleftrightarrow> (\<forall>m \<in> set (tmlists k HardList). period_ok k m)"

definition fired :: "tmid \<Rightarrow> kernel \<Rightarrow> bool" where
  "fired m k \<longleftrightarrow> m \<notin> set (tmlists k HardList) \<and> m \<notin> set (tmlists k SoftList) \<and> tmlists k HardLocal = [m] \<and>
     is_timer k m \<and> \<not> flagged RT_TIMER_FLAG_SOFT_TIMER m k \<and> period_ok k m \<and>
     (\<forall>t. m = ThreadTimer t \<longrightarrow> state_of k t = RT_THREAD_SUSPEND)"

definition late_timers :: "kernel \<Rightarrow> nat" where
  "late_timers k = length (filter (\<lambda>m. due (tick k) (timeout_tick (timers k m)) \<le> 1) (tmlists k HardList))"

text \<open>What the timer check relies on: a time-out function keeps the invariant and the tick, starts
  no timer that is due at once, and leaves its own timer alone or takes it out of the local list.\<close>

locale timeout_functions =
  fixes tf :: "tmid \<Rightarrow> kernel \<Rightarrow> kernel option"
  assumes tf_ok: "kinv 0 k \<Longrightarrow> periods_ok k \<Longrightarrow> current_thread k \<noteq> None \<Longrightarrow> fired m k \<Longrightarrow>
    \<exists>k'. tf m k = Some k' \<and> kinv 0 k' \<and> periods_ok k' \<and> current_thread k' \<noteq> None \<and> tick k' = tick k \<and>
      late_timers k' \<le> late_timers k \<and>
      (tmlists k' HardLocal = [] \<or> tmlists k' HardLocal = [m] \<and> is_timer k' m \<and>
        \<not> flagged RT_TIMER_FLAG_SOFT_TIMER m k' \<and> period_ok k' m)"

lemma take_timer_simps:
  "threads (take_timer loc m k) = threads k" "tlists (take_timer loc m k) = tlists k"
  "ready_group (take_timer loc m k) = ready_group k" "current_thread (take_timer loc m k) = current_thread k"
  "tick (take_timer loc m k) = tick k" "lock_nest (take_timer loc m k) = lock_nest k"
  "interrupt_nest (take_timer loc m k) = interrupt_nest k" "soft_busy (take_timer loc m k) = soft_busy k"
  "x \<noteq> m \<Longrightarrow> timers (take_timer loc m k) x = timers k x"
  "timeout_tick (timers (take_timer loc m k) x) = timeout_tick (timers k x)"
  "tm_init_tick (timers (take_timer loc m k) x) = tm_init_tick (timers k x)"
  "tm_type (timers (take_timer loc m k) x) = tm_type (timers k x)"
  "flagged RT_TIMER_FLAG_SOFT_TIMER x (take_timer loc m k) = flagged RT_TIMER_FLAG_SOFT_TIMER x k"
  "flagged RT_TIMER_FLAG_PERIODIC x (take_timer loc m k) = flagged RT_TIMER_FLAG_PERIODIC x k"
  "tmlists (take_timer loc m k) r =
    (if r = loc then m # filter (\<lambda>x. x \<noteq> m) (tmlists k r) else filter (\<lambda>x. x \<noteq> m) (tmlists k r))"
  by (auto simp: take_timer_def clear_flag_def Let_def flagged_def and.assoc)

lemma kinv_timers:
  assumes "kinv b k" "timer_inv b' k'" "threads k' = threads k" "tlists k' = tlists k" "ready_group k' = ready_group k"
    "current_thread k' = current_thread k" "\<And>m. tm_type (timers k' m) = tm_type (timers k m)"
  shows "kinv b' k'"
proof -
  have "sched_inv {} k'" using kinvD(1) [OF assms(1)] by (subst sched_inv_cong [of _ k]) (simp_all add: assms)
  moreover have "obj_inv k'" using kinvD(3) [OF assms(1)] by (simp add: obj_inv_def live_def assms(3,7))
  ultimately show ?thesis using assms(2) by (simp add: kinv_def)
qed

lemma take_timer_inv:
  assumes kinv: "kinv b k" and m: "m \<in> set (tmlists k HardList)" and loc: "tmlists k HardLocal = []"
  shows "kinv b (take_timer HardLocal m k)"
proof -
  note i = kinvD(2) [OF kinv]
  define k1 where "k1 = unlink_timer m k"
  define k2 where "k2 = (if \<not> flagged RT_TIMER_FLAG_PERIODIC m k1 then clear_flag RT_TIMER_FLAG_ACTIVATED m k1 else k1)"
  have i1: "timer_inv b k1" unfolding k1_def by (rule unlink_timer_inv [OF i])
  have i2: "timer_inv b k2"
    unfolding k2_def clear_flag_def
    using i1 timer_invD(8,9) [OF i1]
    by (auto intro!: upd_timer_inv simp: k1_def flagged_def and.assoc)
  have l: "take_timer HardLocal m k = k2\<lparr>tmlists := (tmlists k2)(HardLocal := [m])\<rparr>"
    using loc by (simp add: take_timer_def Let_def k1_def k2_def clear_flag_def)
  have un: "m \<notin> set (tmlists k2 r)" for r by (simp add: k2_def k1_def clear_flag_def)
  have "timer_inv b (k2\<lparr>tmlists := (tmlists k2)(HardLocal := [m])\<rparr>)"
    using timer_invD [OF i2] un unfolding timer_inv_def flagged_def by simp metis
  then have "timer_inv b (take_timer HardLocal m k)" by (simp only: l)
  then show ?thesis by (rule kinv_timers [OF kinv]) (simp_all add: take_timer_simps)
qed

lemma sorted_due_head:
  assumes "timer_inv b k" "tmlists k HardList = m # ms" "x \<in> set (tmlists k HardList)"
  shows "due (tick k) (timeout_tick (timers k m)) \<le> due (tick k) (timeout_tick (timers k x))"
  using timer_invD(5) [OF assms(1)] assms(2,3) by auto

text \<open>When the head of the list is not due, nothing in the list is.\<close>

lemma check_stops:
  assumes i: "timer_inv 0 k" and stop: "case tmlists k HardList of [] \<Rightarrow> True
      | m # _ \<Rightarrow> \<not> tick k - timeout_tick (timers k m) < HALF_TICK"
  shows "timer_inv 2 k"
proof -
  have "2 \<le> due (tick k) (timeout_tick (timers k x))" if x: "x \<in> set (tmlists k HardList)" for x
  proof -
    obtain m ms where m: "tmlists k HardList = m # ms" using x by (cases "tmlists k HardList") auto
    have "due (tick k) (timeout_tick (timers k m)) < 2 ^ 31" using timer_invD(4) [OF i, of m] m by simp
    from expired_due [OF this] stop m have "2 \<le> due (tick k) (timeout_tick (timers k m))" by simp
    with sorted_due_head [OF i m x] show ?thesis by simp
  qed
  then show ?thesis using timer_invD [OF i] unfolding timer_inv_def by simp
qed

lemma late_timers_card:
  assumes "timer_inv b k"
  shows "late_timers k = card {x \<in> set (tmlists k HardList). due (tick k) (timeout_tick (timers k x)) \<le> 1}"
  using distinct_card [OF distinct_filter [OF timer_invD(1) [OF assms]]] unfolding late_timers_def
  by (simp only: set_filter)

lemma rearm_spec:
  assumes kinv: "kinv 0 k" and per: "periods_ok k"
    and loc: "tmlists k HardLocal = [] \<or> tmlists k HardLocal = [m] \<and> is_timer k m \<and>
        \<not> flagged RT_TIMER_FLAG_SOFT_TIMER m k \<and> period_ok k m"
  obtains k' where "rearm_timer HardLocal m k = Some k'" "kinv 0 k'" "periods_ok k'" "current_thread k' = current_thread k"
    "tick k' = tick k" "tmlists k' HardLocal = []" "late_timers k' \<le> late_timers k"
proof (cases "tmlists k HardLocal = []")
  case True
  with kinv per show thesis by (intro that [of k]) (simp_all add: rearm_timer_def)
next
  case False
  note i = kinvD(2) [OF kinv]
  have m: "tmlists k HardLocal = [m]" "is_timer k m" "\<not> flagged RT_TIMER_FLAG_SOFT_TIMER m k" "period_ok k m"
    using loc False by auto
  then have un: "m \<notin> set (tmlists k HardList)" using timer_invD(2) [OF i, of m HardLocal HardList] by auto
  have fm: "filter (\<lambda>x. x \<noteq> m) (tmlists k HardList) = tmlists k HardList" using un by (auto intro: filter_True)
  define k1 where "k1 = unlink_timer m k"
  have i1: "timer_inv 0 k1" unfolding k1_def by (rule unlink_timer_inv [OF i])
  have k1: "kinv 0 k1" by (rule kinv_timers [OF kinv i1]) (simp_all add: k1_def)
  have late1: "late_timers k1 = late_timers k" by (simp add: late_timers_def k1_def fm)
  have per1: "periods_ok k1" using per by (simp add: periods_ok_def period_ok_def k1_def flagged_def fm)
  show thesis
  proof (cases "flagged RT_TIMER_FLAG_PERIODIC m k1 \<and> flagged RT_TIMER_FLAG_ACTIVATED m k1")
    case False
    with m k1 per1 late1 show thesis
      by (intro that [of k1]) (auto simp: rearm_timer_def k1_def)
  next
    case True
    define k2 where "k2 = clear_flag RT_TIMER_FLAG_ACTIVATED m k1"
    have i2: "timer_inv 0 k2"
      unfolding k2_def clear_flag_def
      using i1 timer_invD(8,9) [OF i1] by (auto intro!: upd_timer_inv simp: k1_def flagged_def and.assoc)
    have p: "0 < tm_init_tick (timers k m)" "tm_init_tick (timers k m) < HALF_TICK"
      using True m(4) by (simp_all add: period_ok_def k1_def flagged_def)
    have nth: "m \<noteq> ThreadTimer t" for t
      using True timer_invD(9) [OF i1, of t] by auto
    obtain k3 where k3: "rt_timer_start m k2 = Some k3" "timer_inv 0 k3" "kframe k2 k3" "threads k3 = threads k2"
      "tlists k3 = tlists k2" "ready_group k3 = ready_group k2" "current_thread k3 = current_thread k2"
      "timeout_tick (timers k3 m) = tick k2 + tm_init_tick (timers k2 m)"
      "\<And>x. x \<noteq> m \<Longrightarrow> timers k3 x = timers k2 x"
      "set (tmlists k3 HardList) = insert m (set (tmlists k2 HardList))"
      "tm_init_tick (timers k3 m) = tm_init_tick (timers k2 m)"
      "tmlists k3 HardLocal = filter (\<lambda>x. x \<noteq> m) (tmlists k2 HardLocal)"
      by (rule timer_start_spec [OF i2, of m])
        (use m p nth in \<open>auto simp: k2_def k1_def clear_flag_def flagged_def and.assoc\<close>)
    have f2: "tmlists k2 = tmlists k1" "tick k2 = tick k" "tm_init_tick (timers k2 m) = tm_init_tick (timers k m)"
      "\<And>x. timeout_tick (timers k2 x) = timeout_tick (timers k x)"
      "current_thread k2 = current_thread k" "\<And>x. x \<noteq> m \<Longrightarrow> timers k2 x = timers k x"
      by (simp_all add: k2_def k1_def clear_flag_def)
    have f3: "tick k3 = tick k" using k3(3) f2(2) by (simp add: kframe_def)
    have k3i: "kinv 0 k3"
      by (rule kinv_timers [OF kinv k3(2)])
        (use k3(3-7) in \<open>simp_all add: kframe_def k2_def k1_def clear_flag_def\<close>)
    have "periods_ok k3"
      unfolding periods_ok_def
    proof
      fix x assume "x \<in> set (tmlists k3 HardList)"
      then show "period_ok k3 x"
        using k3(10) per1 p k3(9,11) f2
        by (cases "x = m") (auto simp: period_ok_def periods_ok_def k1_def flagged_def)
    qed
    moreover have "late_timers k3 \<le> late_timers k"
    proof -
      have "due (tick k) (timeout_tick (timers k3 m)) \<ge> 2"
        using due_new(1) [OF p(2), of "tick k"] p(1) by (simp add: k3(8) f2 unat_gt_0 Suc_le_eq)
      note big = this
      have eq: "{x \<in> set (tmlists k3 HardList). due (tick k) (timeout_tick (timers k3 x)) \<le> 1}
          = {x \<in> set (tmlists k HardList). due (tick k) (timeout_tick (timers k x)) \<le> 1}"
      proof (rule Collect_cong)
        fix x
        show "(x \<in> set (tmlists k3 HardList) \<and> due (tick k) (timeout_tick (timers k3 x)) \<le> 1) =
            (x \<in> set (tmlists k HardList) \<and> due (tick k) (timeout_tick (timers k x)) \<le> 1)"
        proof (cases "x = m")
          case True
          with big un show ?thesis by simp
        next
          case False
          then have "timers k3 x = timers k x" "x \<in> set (tmlists k3 HardList) \<longleftrightarrow> x \<in> set (tmlists k HardList)"
            using k3(9) f2(6) by (simp_all add: k3(10) f2(1) k1_def)
          then show ?thesis by simp
        qed
      qed
      from late_timers_card [OF k3(2)] late_timers_card [OF i] eq f3 show ?thesis by simp
    qed
    moreover have "rearm_timer HardLocal m k = Some k3"
      using m(1) True k3(1) by (simp add: rearm_timer_def k1_def [symmetric] k2_def [symmetric] Let_def)
    moreover have "tmlists k3 HardLocal = []" by (simp add: k3(12) f2(1) k1_def m(1))
    ultimately show thesis using k3i f3 k3(7) f2(5) by (intro that [of k3]) simp_all
  qed
qed

text \<open>One round of the check takes the head out of the late timers.\<close>

lemma late_take:
  assumes i: "timer_inv b k" and m: "tmlists k HardList = m # ms" and late: "due (tick k) (timeout_tick (timers k m)) \<le> 1"
    and loc: "tmlists k HardLocal = []"
  shows "late_timers (take_timer HardLocal m k) < late_timers k"
proof -
  have "m \<notin> set ms" using timer_invD(1) [OF i, of HardList] m by simp
  then have "filter (\<lambda>x. x \<noteq> m) ms = ms" by (auto intro: filter_True)
  then show ?thesis using m late by (simp add: late_timers_def take_timer_simps)
qed

context timeout_functions
begin

lemma timer_check_ok:
  assumes "kinv 0 k" "periods_ok k" "current_thread k \<noteq> None" "tmlists k HardLocal = []"
  shows "\<exists>k'. timer_check_loop tf (tick k) k = Some k' \<and> kinv 2 k' \<and> periods_ok k' \<and>
    current_thread k' \<noteq> None \<and> tick k' = tick k"
  using assms
proof (induction "late_timers k" arbitrary: k rule: less_induct)
  case less
  note i = kinvD(2) [OF less.prems(1)]
  show ?case
  proof (cases "case tmlists k HardList of [] \<Rightarrow> True
      | m # _ \<Rightarrow> \<not> tick k - timeout_tick (timers k m) < HALF_TICK")
    case True
    then have "timer_check_loop tf (tick k) k = Some k"
      by (subst timer_check_loop.simps) (simp split: list.splits)
    moreover have "kinv 2 k"
      using check_stops [OF i True] kinvD [OF less.prems(1)] by (simp add: kinv_def)
    ultimately show ?thesis using less.prems by blast
  next
    case False
    then obtain m ms where m: "tmlists k HardList = m # ms" "tick k - timeout_tick (timers k m) < HALF_TICK"
      by (auto split: list.splits)
    have mem: "m \<in> set (tmlists k HardList)" using m by simp
    have "due (tick k) (timeout_tick (timers k m)) < 2 ^ 31" using timer_invD(4) [OF i mem] by blast
    then have late: "due (tick k) (timeout_tick (timers k m)) \<le> 1" using expired_due m(2) by blast
    define k0 where "k0 = take_timer HardLocal m k"
    have k0: "kinv 0 k0" unfolding k0_def by (rule take_timer_inv [OF less.prems(1) mem less.prems(4)])
    have per0: "periods_ok k0"
      using less.prems(2) by (auto simp: periods_ok_def period_ok_def k0_def take_timer_simps)
    have cur0: "current_thread k0 \<noteq> None" using less.prems(3) by (simp add: k0_def take_timer_simps)
    have "m \<notin> set (tmlists k SoftList)" using timer_invD(2) [OF i mem, of SoftList] by auto
    moreover have "period_ok k m" using less.prems(2) mem by (simp add: periods_ok_def)
    ultimately have "fired m k0"
      using timer_invD(3,4) [OF i, of m] timer_invD(7) [OF i] mem less.prems(4)
      by (auto simp: fired_def k0_def take_timer_simps period_ok_def)
    from tf_ok [OF k0 per0 cur0 this] obtain k1 where
      k1: "tf m k0 = Some k1" "kinv 0 k1" "periods_ok k1" "current_thread k1 \<noteq> None" "tick k1 = tick k0"
        "late_timers k1 \<le> late_timers k0"
        "tmlists k1 HardLocal = [] \<or> tmlists k1 HardLocal = [m] \<and> is_timer k1 m \<and>
          \<not> flagged RT_TIMER_FLAG_SOFT_TIMER m k1 \<and> period_ok k1 m" by blast
    obtain k2 where k2: "rearm_timer HardLocal m k1 = Some k2" "kinv 0 k2" "periods_ok k2"
      "current_thread k2 = current_thread k1" "tick k2 = tick k1" "tmlists k2 HardLocal = []" "late_timers k2 \<le> late_timers k1"
      by (rule rearm_spec [OF k1(2,3,7)])
    have "late_timers k0 < late_timers k" unfolding k0_def by (rule late_take [OF i m(1) late less.prems(4)])
    then have "late_timers k2 < late_timers k" using k1(6) k2(7) by simp
    moreover have "current_thread k2 \<noteq> None" using k1(4) k2(4) by simp
    ultimately obtain k' where k': "timer_check_loop tf (tick k2) k2 = Some k'" "kinv 2 k'" "periods_ok k'"
      "current_thread k' \<noteq> None" "tick k' = tick k2"
      using less.hyps [OF _ k2(2,3) _ k2(6)] by blast
    have t: "tick k1 = tick k" "tick k2 = tick k" using k1(5) k2(5) by (simp_all add: k0_def take_timer_simps)
    have "timer_check_loop tf (tick k) k = timer_check_loop tf (tick k1) k2"
      using m k1(1) k2(1) by (subst timer_check_loop.simps) (simp add: k0_def)
    with k' t show ?thesis by auto
  qed
qed

end

text \<open>\<open>rt_thread_timeout\<close> meets the contract, so it is enough that the functions of the user timers
  do.\<close>

lemma thread_timeout_fits:
  assumes "kinv 0 k" "periods_ok k" "current_thread k \<noteq> None" "fired (ThreadTimer t) k"
  shows "\<exists>k'. rt_thread_timeout t k = Some k' \<and> kinv 0 k' \<and> periods_ok k' \<and> current_thread k' \<noteq> None \<and>
    tick k' = tick k \<and> late_timers k' \<le> late_timers k \<and>
    (tmlists k' HardLocal = [] \<or> tmlists k' HardLocal = [ThreadTimer t] \<and> is_timer k' (ThreadTimer t) \<and>
      \<not> flagged RT_TIMER_FLAG_SOFT_TIMER (ThreadTimer t) k' \<and> period_ok k' (ThreadTimer t))"
proof -
  have f: "state_of k t = RT_THREAD_SUSPEND" "ThreadTimer t \<notin> set (tmlists k HardList)"
    using assms(4) by (simp_all add: fired_def)
  obtain k' where k': "rt_thread_timeout t k = Some k'" "kinv 0 k'" "current_thread k' \<noteq> None"
    "timers k' = timers k" "tmlists k' = tmlists k" "tick k' = tick k"
    by (rule thread_timeout_spec [OF assms(1) f(1) assms(3) f(2)]) metis
  then show ?thesis
    using assms(2,4)
    by (intro exI [of _ k'])
      (simp add: fired_def periods_ok_def period_ok_def flagged_def late_timers_def)
qed

locale timer_callbacks =
  fixes cb :: "nat \<Rightarrow> kernel \<Rightarrow> kernel option"
  assumes cb_ok: "kinv 0 k \<Longrightarrow> periods_ok k \<Longrightarrow> current_thread k \<noteq> None \<Longrightarrow> fired (UserTimer n) k \<Longrightarrow>
    \<exists>k'. cb n k = Some k' \<and> kinv 0 k' \<and> periods_ok k' \<and> current_thread k' \<noteq> None \<and> tick k' = tick k \<and>
      late_timers k' \<le> late_timers k \<and>
      (tmlists k' HardLocal = [] \<or> tmlists k' HardLocal = [UserTimer n] \<and> is_timer k' (UserTimer n) \<and>
        \<not> flagged RT_TIMER_FLAG_SOFT_TIMER (UserTimer n) k' \<and> period_ok k' (UserTimer n))"

sublocale timer_callbacks \<subseteq> timeouts: timeout_functions "timeout_func cb"
proof unfold_locales
  fix k m
  assume a: "kinv 0 k" "periods_ok k" "current_thread k \<noteq> None" "fired m k"
  show "\<exists>k'. timeout_func cb m k = Some k' \<and> kinv 0 k' \<and> periods_ok k' \<and> current_thread k' \<noteq> None \<and>
      tick k' = tick k \<and> late_timers k' \<le> late_timers k \<and>
      (tmlists k' HardLocal = [] \<or> tmlists k' HardLocal = [m] \<and> is_timer k' m \<and>
        \<not> flagged RT_TIMER_FLAG_SOFT_TIMER m k' \<and> period_ok k' m)"
    using a thread_timeout_fits cb_ok by (cases m) (auto simp: timeout_func_def)
qed

text \<open>The kernel itself registers no hard user timer.\<close>

interpretation kernel_timers: timer_callbacks "\<lambda>_ k. Some k"
  by unfold_locales (auto simp: fired_def)

text \<open>When only thread timers are pending, exactly the threads whose time-out has come are woken.\<close>

lemma rearm_thread_timer:
  assumes "timer_inv 0 k" "tmlists k HardLocal = [ThreadTimer t]"
  shows "rearm_timer HardLocal (ThreadTimer t) k = Some (unlink_timer (ThreadTimer t) k)"
  using timer_invD(9) [OF assms(1), of t] assms(2)
  by (simp add: rearm_timer_def Let_def flagged_def)

definition only_thread_timers :: "kernel \<Rightarrow> bool" where
  "only_thread_timers k \<longleftrightarrow> (\<forall>m \<in> set (tmlists k HardList). \<exists>t. m = ThreadTimer t)"

definition due_in :: "kernel \<Rightarrow> nat \<Rightarrow> nat" where
  "due_in k t = due (tick k) (timeout_tick (timers k (ThreadTimer t)))"

text \<open>The effect of the check on such a state.\<close>

definition woke :: "kernel \<Rightarrow> kernel \<Rightarrow> bool" where
  "woke k k' \<longleftrightarrow> current_thread k' \<noteq> None \<and>
    tick k' = tick k \<and> lock_nest k' = lock_nest k \<and> interrupt_nest k' = interrupt_nest k \<and> soft_busy k' = soft_busy k \<and>
    (\<forall>x. timeout_tick (timers k' x) = timeout_tick (timers k x)) \<and>
    set (tmlists k' HardList) = {x \<in> set (tmlists k HardList). 1 < due (tick k) (timeout_tick (timers k x))} \<and>
    tmlists k' HardLocal = [] \<and> (\<forall>x. live k' x = live k x) \<and>
    (\<forall>x. ThreadTimer x \<in> set (tmlists k HardList) \<longrightarrow> due_in k x \<le> 1 \<longrightarrow>
       th_error (threads k' x) = - RT_ETIMEOUT \<and> state_of k' x \<noteq> RT_THREAD_SUSPEND) \<and>
    (\<forall>x. \<not> (ThreadTimer x \<in> set (tmlists k HardList) \<and> due_in k x \<le> 1) \<longrightarrow>
       th_error (threads k' x) = th_error (threads k x) \<and>
       (state_of k' x = RT_THREAD_SUSPEND \<longleftrightarrow> state_of k x = RT_THREAD_SUSPEND))"

lemma thread_check:
  assumes "kinv 0 k" "only_thread_timers k" "current_thread k \<noteq> None" "tmlists k HardLocal = []"
  shows "\<exists>k'. timer_check_loop (timeout_func cb) (tick k) k = Some k' \<and> kinv 2 k' \<and> woke k k'"
  using assms
proof (induction "late_timers k" arbitrary: k rule: less_induct)
  case less
  note i = kinvD(2) [OF less.prems(1)]
  show ?case
  proof (cases "case tmlists k HardList of [] \<Rightarrow> True
      | m # _ \<Rightarrow> \<not> tick k - timeout_tick (timers k m) < HALF_TICK")
    case True
    then have "timer_check_loop (timeout_func cb) (tick k) k = Some k"
      by (subst timer_check_loop.simps) (simp split: list.splits)
    moreover have "kinv 2 k"
      using check_stops [OF i True] kinvD [OF less.prems(1)] by (simp add: kinv_def)
    moreover have gt: "1 < due (tick k) (timeout_tick (timers k x))" if "x \<in> set (tmlists k HardList)" for x
      using timer_invD(4) [OF check_stops [OF i True] that] by simp
    moreover have "\<not> (ThreadTimer x \<in> set (tmlists k HardList) \<and> due_in k x \<le> 1)" for x
      using gt [of "ThreadTimer x"] by (auto simp: due_in_def)
    ultimately show ?thesis using less.prems unfolding woke_def by (intro exI [of _ k]) blast
  next
    case False
    then obtain m ms where m: "tmlists k HardList = m # ms" "tick k - timeout_tick (timers k m) < HALF_TICK"
      by (auto split: list.splits)
    then obtain t where t: "m = ThreadTimer t" using less.prems(2) by (auto simp: only_thread_timers_def)
    have mem: "m \<in> set (tmlists k HardList)" using m by simp
    have dist: "distinct (m # ms)" using timer_invD(1) [OF i, of HardList] m(1) by simp
    then have fms: "filter (\<lambda>x. x \<noteq> m) ms = ms" by (auto intro: filter_True)
    have "due (tick k) (timeout_tick (timers k m)) < 2 ^ 31" using timer_invD(4) [OF i mem] by blast
    then have late: "due (tick k) (timeout_tick (timers k m)) \<le> 1" using expired_due m(2) by blast
    define k0 where "k0 = take_timer HardLocal m k"
    have k0: "kinv 0 k0" unfolding k0_def by (rule take_timer_inv [OF less.prems(1) mem less.prems(4)])
    have l0: "tmlists k0 HardList = ms" "tmlists k0 HardLocal = [m]" "threads k0 = threads k" "tick k0 = tick k"
      "current_thread k0 = current_thread k" "\<And>x. timeout_tick (timers k0 x) = timeout_tick (timers k x)"
      "lock_nest k0 = lock_nest k" "interrupt_nest k0 = interrupt_nest k" "soft_busy k0 = soft_busy k"
      using m(1) fms less.prems(4) by (simp_all add: k0_def take_timer_simps)
    have st: "state_of k0 t = RT_THREAD_SUSPEND" using timer_invD(7) [OF i, of t] mem by (simp add: t l0)
    have cur0: "current_thread k0 \<noteq> None" using less.prems(3) by (simp add: l0)
    have nt: "ThreadTimer t \<notin> set (tmlists k0 HardList)" using dist by (simp add: l0 t)
    obtain k1 where k1: "rt_thread_timeout t k0 = Some k1" "kinv 0 k1" "current_thread k1 \<noteq> None"
      "timers k1 = timers k0" "tmlists k1 = tmlists k0" "tick k1 = tick k0" "th_error (threads k1 t) = - RT_ETIMEOUT"
      "state_of k1 t \<in> {RT_THREAD_READY, RT_THREAD_RUNNING}" "lock_nest k1 = lock_nest k0" "\<And>x. live k1 x = live k0 x"
      "\<And>x. x \<noteq> t \<Longrightarrow> state_of k1 x = RT_THREAD_SUSPEND \<longleftrightarrow> state_of k0 x = RT_THREAD_SUSPEND"
      "\<And>x. x \<noteq> t \<Longrightarrow> th_error (threads k1 x) = th_error (threads k0 x)"
      "interrupt_nest k1 = interrupt_nest k0" "soft_busy k1 = soft_busy k0"
      by (rule thread_timeout_spec [OF k0 st cur0 nt]) metis
    define k2 where "k2 = unlink_timer m k1"
    have r: "rearm_timer HardLocal m k1 = Some k2"
      unfolding k2_def t by (rule rearm_thread_timer [OF kinvD(2) [OF k1(2)]]) (simp add: k1(5) l0 t)
    have k2: "kinv 0 k2"
      unfolding k2_def by (rule kinv_timers [OF k1(2) unlink_timer_inv [OF kinvD(2) [OF k1(2)]]]) simp_all
    have l2: "tmlists k2 HardList = ms" "tmlists k2 HardLocal = []" "tick k2 = tick k" "threads k2 = threads k1"
      "current_thread k2 \<noteq> None" "lock_nest k2 = lock_nest k" "interrupt_nest k2 = interrupt_nest k" "soft_busy k2 = soft_busy k"
      "\<And>x. timeout_tick (timers k2 x) = timeout_tick (timers k x)" "\<And>x. live k2 x = live k x"
      using k1 l0 fms by (simp_all add: k2_def live_def)
    have "late_timers k0 < late_timers k" unfolding k0_def by (rule late_take [OF i m(1) late less.prems(4)])
    then have "late_timers k2 < late_timers k" by (simp add: late_timers_def l0 l2)
    moreover have "only_thread_timers k2" using less.prems(2) m(1) by (simp add: only_thread_timers_def l2)
    ultimately obtain k' where
      w: "timer_check_loop (timeout_func cb) (tick k2) k2 = Some k'" "kinv 2 k'" "woke k2 k'"
      using less.hyps [OF _ k2 _ l2(5) l2(2)] by blast
    have k': "timer_check_loop (timeout_func cb) (tick k2) k2 = Some k'" "kinv 2 k'" "current_thread k' \<noteq> None"
      "tick k' = tick k2" "lock_nest k' = lock_nest k2" "interrupt_nest k' = interrupt_nest k2" "soft_busy k' = soft_busy k2"
      "\<And>x. timeout_tick (timers k' x) = timeout_tick (timers k2 x)"
      "set (tmlists k' HardList) = {x \<in> set (tmlists k2 HardList). 1 < due (tick k2) (timeout_tick (timers k2 x))}"
      "tmlists k' HardLocal = []" "\<And>x. live k' x = live k2 x"
      "\<And>x. ThreadTimer x \<in> set (tmlists k2 HardList) \<Longrightarrow> due_in k2 x \<le> 1 \<Longrightarrow>
        th_error (threads k' x) = - RT_ETIMEOUT \<and> state_of k' x \<noteq> RT_THREAD_SUSPEND"
      "\<And>x. \<not> (ThreadTimer x \<in> set (tmlists k2 HardList) \<and> due_in k2 x \<le> 1) \<Longrightarrow>
        th_error (threads k' x) = th_error (threads k2 x) \<and>
        (state_of k' x = RT_THREAD_SUSPEND \<longleftrightarrow> state_of k2 x = RT_THREAD_SUSPEND)"
      using w unfolding woke_def by blast+
    have take_eq: "take_timer HardLocal (ThreadTimer t) k = k0" by (simp add: k0_def t)
    have run: "timer_check_loop (timeout_func cb) (tick k) k = Some k'"
      using m k1(1) r k'(1) l2(3) k1(6) l0(4)
      by (subst timer_check_loop.simps) (simp add: take_eq timeout_func_def t)
    have di: "due_in k2 x = due_in k x" for x by (simp add: due_in_def l2)
    have woken: "th_error (threads k' x) = - RT_ETIMEOUT \<and> state_of k' x \<noteq> RT_THREAD_SUSPEND"
      if "ThreadTimer x \<in> set (tmlists k HardList)" "due_in k x \<le> 1" for x
    proof (cases "x = t")
      case True
      have "\<not> (ThreadTimer t \<in> set (tmlists k2 HardList) \<and> due_in k2 t \<le> 1)" using dist by (simp add: l2 t)
      from k'(13) [OF this] show ?thesis using k1(7,8) True by (auto simp: l2)
    next
      case False
      then have "ThreadTimer x \<in> set (tmlists k2 HardList)" using that(1) m(1) by (simp add: l2 t)
      from k'(12) [OF this] that(2) show ?thesis by (simp add: di)
    qed
    have others: "th_error (threads k' x) = th_error (threads k x) \<and>
        (state_of k' x = RT_THREAD_SUSPEND \<longleftrightarrow> state_of k x = RT_THREAD_SUSPEND)"
      if n: "\<not> (ThreadTimer x \<in> set (tmlists k HardList) \<and> due_in k x \<le> 1)" for x
    proof -
      have ne: "x \<noteq> t" using n mem late by (auto simp: t due_in_def)
      have "\<not> (ThreadTimer x \<in> set (tmlists k2 HardList) \<and> due_in k2 x \<le> 1)" using n m(1) by (auto simp: l2 di)
      from k'(13) [OF this] k1(11,12) [OF ne] show ?thesis by (simp add: l2 l0)
    qed
    have "set (tmlists k' HardList) = {x \<in> set (tmlists k HardList). 1 < due (tick k) (timeout_tick (timers k x))}"
      unfolding k'(9) l2(1,3,9) m(1) using late by auto
    then have "woke k k'" unfolding woke_def using k' l2 woken others by simp
    with run k'(2) show ?thesis by blast
  qed
qed

section \<open>Properties\<close>

lemma timer_insert_cong:
  assumes "\<And>x. x \<in> set ts \<Longrightarrow> f x = g x"
  shows "timer_insert f new m ts = timer_insert g new m ts"
  using assms by (induction ts) auto

lemma timer_start_list:
  assumes "rt_timer_start m k = Some k'" "\<not> flagged RT_TIMER_FLAG_SOFT_TIMER m k"
  shows "tmlists k' HardList = timer_insert (\<lambda>x. timeout_tick (timers k x)) (tick k + tm_init_tick (timers k m)) m
      (filter (\<lambda>x. x \<noteq> m) (tmlists k HardList))" "flagged RT_TIMER_FLAG_ACTIVATED m k'"
proof -
  define a where "a = clear_flag RT_TIMER_FLAG_ACTIVATED m (unlink_timer m k)"
  define a2 where "a2 = upd_timer m (\<lambda>tm. tm\<lparr>timeout_tick := tick k + tm_init_tick (timers k m)\<rparr>) a"
  define a3 where "a3 = a2\<lparr>tmlists := (tmlists a2)(HardList :=
      timer_insert (\<lambda>x. timeout_tick (timers a2 x)) (tick k + tm_init_tick (timers k m)) m (tmlists a2 HardList))\<rparr>"
  have e: "tm_init_tick (timers a m) = tm_init_tick (timers k m)" "tick a = tick k"
      "\<not> flagged RT_TIMER_FLAG_SOFT_TIMER m a2" "\<not> flagged RT_TIMER_FLAG_SOFT_TIMER m (set_flag RT_TIMER_FLAG_ACTIVATED m a3)"
    using assms(2) by (simp_all add: a_def clear_flag_def set_flag_def a2_def a3_def flagged_def bit.conj_disj_distrib2 and.assoc)
  have k': "k' = set_flag RT_TIMER_FLAG_ACTIVATED m a3"
    using assms(1)
    unfolding rt_timer_start_def bind_assert_that a_def [symmetric] Let_def e(1,2) a2_def [symmetric]
    by (simp only: e(3) if_False a3_def [symmetric] e(4) simp_thms split: if_splits) simp_all
  have "timer_insert (\<lambda>x. timeout_tick (timers a2 x)) n m (filter (\<lambda>x. x \<noteq> m) ts)
      = timer_insert (\<lambda>x. timeout_tick (timers k x)) n m (filter (\<lambda>x. x \<noteq> m) ts)" for n ts
    by (rule timer_insert_cong) (auto simp: a2_def a_def clear_flag_def)
  then show "tmlists k' HardList = timer_insert (\<lambda>x. timeout_tick (timers k x)) (tick k + tm_init_tick (timers k m)) m
      (filter (\<lambda>x. x \<noteq> m) (tmlists k HardList))"
    by (simp add: k' set_flag_def a3_def) (simp add: a2_def a_def clear_flag_def)
  show "flagged RT_TIMER_FLAG_ACTIVATED m k'"
    by (simp add: k' flagged_def set_flag_def bit.conj_disj_distrib2)
qed

text \<open>A concrete state just before the tick wraps around: thread 1 runs, thread 2 is ready, thread 3
  sleeps until tick 1 and thread 4 is suspended with a timer of 2 ticks.\<close>

definition demo_thread :: "u8 \<Rightarrow> nat \<Rightarrow> thread" where
  "demo_thread st p = zero_thread\<lparr>th_type := CLASS_THREAD, stat := st, current_priority := p, number_mask := push_bit p 1,
     init_priority := p, stack_guard := 0x23, sp := 0x400, stack_size := 0x800\<rparr>"

definition four_threads :: kernel where
  "four_threads = boot_kernel\<lparr>
     threads := (\<lambda>_. zero_thread)(1 := demo_thread RT_THREAD_RUNNING 3, 2 := demo_thread RT_THREAD_READY 3,
       3 := demo_thread RT_THREAD_SUSPEND 2, 4 := demo_thread RT_THREAD_SUSPEND 5),
     timers := (\<lambda>_. zero_timer\<lparr>tm_type := CLASS_TIMER OR CLASS_STATIC\<rparr>)(
       ThreadTimer 3 := \<lparr>tm_type = CLASS_TIMER OR CLASS_STATIC, tm_flag = RT_TIMER_FLAG_ACTIVATED,
         tm_init_tick = 3, timeout_tick = 1\<rparr>,
       ThreadTimer 4 := \<lparr>tm_type = CLASS_TIMER OR CLASS_STATIC, tm_flag = 0, tm_init_tick = 2, timeout_tick = 0\<rparr>),
     tlists := (\<lambda>_. [])(Ready 3 := [2]), tmlists := (\<lambda>_. [])(HardList := [ThreadTimer 3]),
     ready_group := push_bit 3 1, current_thread := Some 1, tick := 0xfffffffe\<rparr>"

lemma four_threads_simps:
  "state_of four_threads t = (if t = 1 then RT_THREAD_RUNNING else if t = 2 then RT_THREAD_READY
     else if t = 3 \<or> t = 4 then RT_THREAD_SUSPEND else RT_THREAD_INIT)"
  "current_priority (threads four_threads t) = (if t = 1 \<or> t = 2 then 3 else if t = 3 then 2 else if t = 4 then 5 else 0)"
  "prio_ok (threads four_threads t) = (t \<in> {1, 2, 3, 4})" "stack_sound (threads four_threads t) = (t \<in> {1, 2, 3, 4})"
  "is_thread four_threads t = (t \<in> {1, 2, 3, 4})" "is_timer four_threads m"
  "is_system (tm_type (timers four_threads m))"
  "tlists four_threads = (\<lambda>_. [])(Ready 3 := [2])" "current_thread four_threads = Some 1"
  "tmlists four_threads = (\<lambda>_. [])(HardList := [ThreadTimer 3])" "tick four_threads = 0xfffffffe"
  "ready_group four_threads = push_bit 3 1"
  "tm_init_tick (timers four_threads (ThreadTimer 4)) = 2" "timeout_tick (timers four_threads (ThreadTimer 3)) = 1"
  "flagged f m four_threads = (m = ThreadTimer 3 \<and> f AND RT_TIMER_FLAG_ACTIVATED \<noteq> 0)"
  by (simp_all add: four_threads_def demo_thread_def zero_thread_def zero_timer_def boot_kernel_def prio_ok_def mask_of_def
      stack_sound_def obj_is_def is_system_def flagged_def and.commute)

lemma four_threads_inv: "kinv 1 four_threads"
proof -
  note s = four_threads_simps
  have "group_ok four_threads"
    using bit_mask_of [of 3 "push_bit 3 1"] unfolding group_ok_def s mask_of_def by simp
  then have "sched_inv {} four_threads" unfolding sched_inv_def linked_def s by (auto split: if_splits)
  moreover have "timer_inv 1 four_threads" unfolding timer_inv_def s by (simp add: s due_def)
  moreover have "obj_inv four_threads" unfolding obj_inv_def live_def s by (simp add: s)
  ultimately show ?thesis by (simp add: kinv_def)
qed

text \<open>C21: starting a hard timer does not go wrong, activates it with the time-out \<open>init_tick\<close> ticks ahead (as a
  32-bit sum) and links it behind all timers that are not due later and before the others, so the
  list stays sorted by the distance from now also when the tick wraps around.\<close>

theorem timer_start_ordered:
  assumes "timer_inv b k" "b \<le> 1" "is_timer k m" "tm_init_tick (timers k m) < HALF_TICK"
    "\<not> flagged RT_TIMER_FLAG_SOFT_TIMER m k" "\<And>t. m = ThreadTimer t \<Longrightarrow> state_of k t = RT_THREAD_SUSPEND \<and> is_thread k t"
  shows "\<exists>k'. rt_timer_start m k = Some k' \<and> timer_inv b k' \<and> flagged RT_TIMER_FLAG_ACTIVATED m k' \<and>
    timeout_tick (timers k' m) = tick k + tm_init_tick (timers k m) \<and>
    (let dist = (\<lambda>x. due (tick k) (timeout_tick (timers k x))); n = unat (tm_init_tick (timers k m)) + 1;
         others = filter (\<lambda>x. x \<noteq> m) (tmlists k HardList)
     in sorted (map dist others) \<and>
        tmlists k' HardList = filter (\<lambda>x. dist x \<le> n) others @ m # filter (\<lambda>x. n < dist x) others)"
proof -
  obtain k' where k': "rt_timer_start m k = Some k'" "timer_inv b k'"
    "timeout_tick (timers k' m) = tick k + tm_init_tick (timers k m)"
    by (rule timer_start_spec [OF assms(1,3,4,5,2,6)]) metis
  define dist where "dist x = due (tick k) (timeout_tick (timers k x))" for x
  define n where "n = unat (tm_init_tick (timers k m)) + 1"
  define others where "others = filter (\<lambda>x. x \<noteq> m) (tmlists k HardList)"
  have s: "sorted (map dist others)"
    using timer_invD(5) [OF assms(1)] unfolding others_def dist_def [abs_def] by (rule sorted_filter)
  have n: "due (tick k) (tick k + tm_init_tick (timers k m)) = n" "n < 2 ^ 31"
    using due_new [OF assms(4), of "tick k"] by (simp_all add: n_def)
  have "tmlists k' HardList = takeWhile (\<lambda>x. dist x \<le> n) others @ m # dropWhile (\<lambda>x. dist x \<le> n) others"
    unfolding timer_start_list(1) [OF k'(1) assms(5)] others_def [symmetric]
    by (subst timer_insert_eq [where now = "tick k"])
      (use n timer_invD(4) [OF assms(1)] in \<open>auto simp: others_def dist_def n_def\<close>)
  moreover have "takeWhile (\<lambda>x. dist x \<le> n) xs = filter (\<lambda>x. dist x \<le> n) xs \<and>
      dropWhile (\<lambda>x. dist x \<le> n) xs = filter (\<lambda>x. n < dist x) xs" if "sorted (map dist xs)" for xs
    using that
  proof (induction xs)
    case (Cons a xs)
    then show ?case by (cases "dist a \<le> n") (auto simp: filter_empty_conv intro!: filter_True [symmetric] filter_False [symmetric])
  qed simp
  ultimately show ?thesis
    using k' s timer_start_list(2) [OF k'(1) assms(5)]
    by (intro exI [of _ k']) (simp add: dist_def [abs_def] n_def others_def Let_def)
qed

theorem timer_start_ordered_witness:
  "\<exists>k'. rt_timer_start (ThreadTimer 4) four_threads = Some k' \<and> timeout_tick (timers k' (ThreadTimer 4)) = 0 \<and>
    tmlists k' HardList = [ThreadTimer 4, ThreadTimer 3]"
proof -
  have wrap: "(4294967296 :: u32) = 0" by transfer simp
  from timer_start_ordered [OF kinvD(2) [OF four_threads_inv], of "ThreadTimer 4"] show ?thesis
    by (simp add: four_threads_simps due_def Let_def wrap) blast
qed

text \<open>C4: the timer check of the tick interrupt is safe and terminates: when no pending periodic timer has the period
  0, it returns, keeps the invariant of the kernel, and leaves no due timer behind.\<close>

theorem timer_check_safe:
  assumes "kinv 0 k" "periods_ok k" "current_thread k \<noteq> None"
  shows "\<exists>k'. rt_timer_check (\<lambda>_ k. Some k) k = Some k' \<and> kinv 2 k' \<and> periods_ok k' \<and> tick k' = tick k"
proof -
  define k0 where "k0 = k\<lparr>tmlists := (tmlists k)(HardLocal := [])\<rparr>"
  have "timer_inv 0 k0"
    using timer_invD [OF kinvD(2) [OF assms(1)]] unfolding timer_inv_def k0_def flagged_def by simp
  then have "kinv 0 k0" by (rule kinv_timers [OF assms(1)]) (simp_all add: k0_def)
  moreover have "periods_ok k0" using assms(2) by (simp add: periods_ok_def period_ok_def k0_def flagged_def)
  ultimately show ?thesis
    using kernel_timers.timeouts.timer_check_ok [of k0] assms(3) by (auto simp: rt_timer_check_def k0_def)
qed

theorem timer_check_safe_witness:
  "\<exists>k'. rt_timer_check (\<lambda>_ k. Some k) (four_threads\<lparr>tick := 1\<rparr>) = Some k' \<and> kinv 2 k'"
proof -
  note s = four_threads_simps
  have "timer_inv 0 (four_threads\<lparr>tick := 1\<rparr>)"
    unfolding timer_inv_def using s(15) by (simp add: s due_def flagged_def)
  then have "kinv 0 (four_threads\<lparr>tick := 1\<rparr>)" by (rule kinv_timers [OF four_threads_inv]) simp_all
  moreover have "periods_ok (four_threads\<lparr>tick := 1\<rparr>)"
    using s(15) by (simp add: periods_ok_def period_ok_def s flagged_def)
  moreover have "current_thread (four_threads\<lparr>tick := 1\<rparr>) \<noteq> None" by (simp add: s)
  ultimately show ?thesis using timer_check_safe by blast
qed

end
