(* ===== verification/Clock.thy ===== *)
theory Clock
  imports Timer
begin

text \<open>
  The system tick of \<^verbatim>\<open>rt-thread/src/clock.c\<close>, the interrupt nesting of \<^verbatim>\<open>rt-thread/src/irq.c\<close>
  and the SysTick handler of the board (\<^verbatim>\<open>drivers/drv_common.c\<close>): what a tick does to the running
  thread and to the sleeping ones. \<open>HAL_IncTick\<close> counts for the vendored HAL only and is left out.
\<close>

section \<open>The tick\<close>

abbreviation RT_TICK_PER_SECOND :: int where "RT_TICK_PER_SECOND \<equiv> 1000"
abbreviation RT_WAITING_FOREVER :: u32 where "RT_WAITING_FOREVER \<equiv> 0xffffffff"

definition rt_tick_get :: "kernel \<Rightarrow> u32" where
  "rt_tick_get k = tick k"

definition rt_tick_set :: "u32 \<Rightarrow> kernel \<Rightarrow> kernel" where
  "rt_tick_set t k = k\<lparr>tick := t\<rparr>"

text \<open>The accounting of the running thread in \<open>rt_tick_increase\<close>: the new state, and whether its
  time slice is used up.\<close>

definition charge_slice :: "nat \<Rightarrow> kernel \<Rightarrow> bool \<times> kernel" where
  "charge_slice t k =
    (let k1 = upd_thread t (\<lambda>th. th\<lparr>remaining_tick := remaining_tick th - 1\<rparr>) k
     in if remaining_tick (threads k1 t) = 0
        then (True, upd_thread t (\<lambda>th. th\<lparr>remaining_tick := th_init_tick th, stat := stat th OR RT_THREAD_STAT_YIELD\<rparr>) k1)
        else (False, k1))"

definition rt_tick_increase :: "(nat \<Rightarrow> kernel \<Rightarrow> kernel option) \<Rightarrow> kernel \<Rightarrow> kernel option" where
  "rt_tick_increase cb k = do {
     let k1 = k\<lparr>tick := tick k + 1\<rparr>;
     t \<leftarrow> rt_thread_self k1;
     let (expired, k2) = charge_slice t k1;
     k3 \<leftarrow> (if expired then rt_schedule k2 else Some k2);
     rt_timer_check cb k3
   }"

text \<open>The arithmetic is that of a 32-bit \<open>int\<close>; no intermediate result leaves its range.\<close>

definition rt_tick_from_millisecond :: "int \<Rightarrow> u32" where
  "rt_tick_from_millisecond ms =
    (if ms < 0 then RT_WAITING_FOREVER
     else word_of_int (RT_TICK_PER_SECOND * (ms div 1000)) + word_of_int ((RT_TICK_PER_SECOND * (ms mod 1000) + 999) div 1000))"

definition rt_tick_get_millisecond :: "kernel \<Rightarrow> u32" where
  "rt_tick_get_millisecond k = rt_tick_get k * word_of_int (1000 div RT_TICK_PER_SECOND)"

section \<open>Interrupts\<close>

text \<open>\<open>rt_interrupt_nest\<close> has eight bits.\<close>

definition rt_interrupt_enter :: "kernel \<Rightarrow> kernel" where
  "rt_interrupt_enter k = k\<lparr>interrupt_nest := (interrupt_nest k + 1) mod 256\<rparr>"

definition rt_interrupt_leave :: "kernel \<Rightarrow> kernel" where
  "rt_interrupt_leave k = k\<lparr>interrupt_nest := (interrupt_nest k + 255) mod 256\<rparr>"

definition rt_interrupt_get_nest :: "kernel \<Rightarrow> nat" where
  "rt_interrupt_get_nest k = interrupt_nest k"

definition SysTick_Handler :: "(nat \<Rightarrow> kernel \<Rightarrow> kernel option) \<Rightarrow> kernel \<Rightarrow> kernel option" where
  "SysTick_Handler cb k = map_option rt_interrupt_leave (rt_tick_increase cb (rt_interrupt_enter k))"

section \<open>A tick keeps the invariant\<close>

text \<open>Changes to a thread that the invariant does not look at.\<close>

lemma upd_thread_kinv:
  assumes kinv: "kinv b k"
    and f: "stat (f (threads k t)) AND 7 = stat (threads k t) AND 7" "current_priority (f (threads k t)) = current_priority (threads k t)"
      "number_mask (f (threads k t)) = number_mask (threads k t)" "th_type (f (threads k t)) = th_type (threads k t)"
      "stack_sound (f (threads k t)) = stack_sound (threads k t)"
  shows "kinv b (upd_thread t f k)"
proof -
  have "sched_inv {} (upd_thread t f k)"
    using kinvD(1) [OF kinv] by (subst sched_inv_cong [of _ k]) (simp_all add: f)
  moreover have "timer_inv b (upd_thread t f k)"
    using timer_invD(7) [OF kinvD(2) [OF kinv]] by (intro timer_inv_cong [OF kinvD(2) [OF kinv]]) (auto simp: f)
  moreover have "obj_inv (upd_thread t f k)"
    using kinvD(3) [OF kinv] by (simp add: obj_inv_def live_def f)
  ultimately show ?thesis by (simp add: kinv_def)
qed

lemma tick_timer_inv:
  assumes i: "timer_inv (Suc b) k"
  shows "timer_inv b (k\<lparr>tick := tick k + 1\<rparr>)"
proof -
  define f where "f m = due (tick k) (timeout_tick (timers k m))" for m
  have d: "due (tick k + 1) (timeout_tick (timers k m)) = f m - 1" "Suc b \<le> f m" "f m < 2 ^ 31" if "m \<in> set (tmlists k HardList)" for m
    using timer_invD(4) [OF i that] due_tick by (simp_all add: f_def)
  have "map (\<lambda>m. due (tick k + 1) (timeout_tick (timers k m))) (tmlists k HardList) = map (\<lambda>x. x - 1) (map f (tmlists k HardList))"
    using d(1) by simp
  moreover have "sorted (map f (tmlists k HardList))" using timer_invD(5) [OF i] by (simp add: f_def [abs_def])
  ultimately have "sorted (map (\<lambda>m. due (tick k + 1) (timeout_tick (timers k m))) (tmlists k HardList))"
    by (simp add: sorted_map diff_le_mono sorted_wrt_map) (erule sorted_wrt_mono_rel [rotated], simp)
  moreover have "b \<le> due (tick k + 1) (timeout_tick (timers k m)) \<and> due (tick k + 1) (timeout_tick (timers k m)) < 2 ^ 31"
    if "m \<in> set (tmlists k HardList)" for m
    unfolding d(1) [OF that] using d(2,3) [OF that] by linarith
  ultimately show ?thesis
    using timer_invD [OF i] unfolding timer_inv_def flagged_def by simp
qed

lemma tick_kinv: "kinv (Suc b) k \<Longrightarrow> kinv b (k\<lparr>tick := tick k + 1\<rparr>)"
  by (rule kinv_timers [OF _ tick_timer_inv [OF kinvD(2)]]) simp_all

lemma charge_slice_spec:
  assumes "kinv b k" "charge_slice t k = (e, k')"
  shows "kinv b k'" "timers k' = timers k" "tmlists k' = tmlists k" "current_thread k' = current_thread k" "tick k' = tick k"
    "lock_nest k' = lock_nest k" "interrupt_nest k' = interrupt_nest k" "soft_busy k' = soft_busy k"
    "state_of k' x = state_of k x" "th_error (threads k' x) = th_error (threads k x)" "live k' x = live k x"
proof -
  define k1 where "k1 = upd_thread t (\<lambda>th. th\<lparr>remaining_tick := remaining_tick th - 1\<rparr>) k"
  have k1: "kinv b k1" unfolding k1_def by (rule upd_thread_kinv [OF assms(1)]) (simp_all add: stack_sound_def)
  have "kinv b (upd_thread t (\<lambda>th. th\<lparr>remaining_tick := th_init_tick th, stat := stat th OR RT_THREAD_STAT_YIELD\<rparr>) k1)"
    by (rule upd_thread_kinv [OF k1]) (simp_all add: stack_sound_def)
  with k1 assms(2) show "kinv b k'" "timers k' = timers k" "tmlists k' = tmlists k" "current_thread k' = current_thread k"
    "tick k' = tick k" "lock_nest k' = lock_nest k" "interrupt_nest k' = interrupt_nest k" "soft_busy k' = soft_busy k"
    "state_of k' x = state_of k x" "th_error (threads k' x) = th_error (threads k x)" "live k' x = live k x"
    by (auto simp: charge_slice_def Let_def live_def k1_def split: if_splits)
qed

text \<open>The state in which the timer check of a tick runs.\<close>

lemma tick_start:
  assumes kinv: "kinv 1 k" and cur: "current_thread k \<noteq> None"
  obtains k3 where "\<And>cb. rt_tick_increase cb k = timer_check_loop (timeout_func cb) (tick k3) k3" "kinv 0 k3" "current_thread k3 \<noteq> None"
    "timers k3 = timers k" "\<And>r. r \<noteq> HardLocal \<Longrightarrow> tmlists k3 r = tmlists k r" "tmlists k3 HardLocal = []" "tick k3 = tick k + 1"
    "lock_nest k3 = lock_nest k" "interrupt_nest k3 = interrupt_nest k" "soft_busy k3 = soft_busy k"
    "\<And>x. state_of k3 x = RT_THREAD_SUSPEND \<longleftrightarrow> state_of k x = RT_THREAD_SUSPEND"
    "\<And>x. th_error (threads k3 x) = th_error (threads k x)" "\<And>x. live k3 x = live k x"
proof -
  obtain t where t: "current_thread k = Some t" using cur by auto
  define k1 where "k1 = k\<lparr>tick := tick k + 1\<rparr>"
  have k1: "kinv 0 k1" unfolding k1_def by (rule tick_kinv) (use kinv in simp)
  obtain e k2 where ck: "charge_slice t k1 = (e, k2)" by fastforce
  note k2 = charge_slice_spec [OF k1 ck]
  have "\<exists>k3. (if e then rt_schedule k2 else Some k2) = Some k3 \<and> kinv 0 k3 \<and> kframe k2 k3 \<and> current_thread k3 \<noteq> None \<and>
      timers k3 = timers k2 \<and> tmlists k3 = tmlists k2 \<and> (\<forall>x. live k3 x = live k2 x) \<and>
      (\<forall>x. state_of k3 x = RT_THREAD_SUSPEND \<longleftrightarrow> state_of k2 x = RT_THREAD_SUSPEND)"
  proof (cases e)
    case True
    have "current_thread k2 \<noteq> None" using k2(4) cur by (simp add: k1_def)
    from schedule_kinv [OF k2(1) this] obtain k3 where "rt_schedule k2 = Some k3" "kinv 0 k3" "kframe k2 k3"
      "current_thread k3 \<noteq> None" "timers k3 = timers k2" "tmlists k3 = tmlists k2" "\<And>x. live k3 x = live k2 x"
      "\<And>x. state_of k3 x = RT_THREAD_SUSPEND \<longleftrightarrow> state_of k2 x = RT_THREAD_SUSPEND" by metis
    with True show ?thesis by simp
  qed (use k2 cur in \<open>simp add: k1_def\<close>)
  then obtain k3 where k3: "(if e then rt_schedule k2 else Some k2) = Some k3" "kinv 0 k3" "kframe k2 k3" "current_thread k3 \<noteq> None"
      "timers k3 = timers k2" "tmlists k3 = tmlists k2" "\<And>x. live k3 x = live k2 x"
      "\<And>x. state_of k3 x = RT_THREAD_SUSPEND \<longleftrightarrow> state_of k2 x = RT_THREAD_SUSPEND" by blast
  define k4 where "k4 = k3\<lparr>tmlists := (tmlists k3)(HardLocal := [])\<rparr>"
  have "timer_inv 0 k4"
    using timer_invD [OF kinvD(2) [OF k3(2)]] unfolding timer_inv_def k4_def flagged_def by simp
  then have k4: "kinv 0 k4" by (rule kinv_timers [OF k3(2)]) (simp_all add: k4_def)
  have run: "rt_tick_increase cb k = timer_check_loop (timeout_func cb) (tick k4) k4" for cb
    using t k3(1) ck by (simp add: rt_tick_increase_def rt_thread_self_def k1_def [symmetric] rt_timer_check_def k4_def)
      (simp add: k1_def)
  have e3: "th_error (threads k3 x) = th_error (threads k2 x)" for x by (rule kframe_threads(3) [OF k3(3)])
  show thesis
    using run k4 k3 k2 e3
    by (intro that [of k4]) (simp_all add: k4_def k1_def kframe_def live_def)
qed

context timer_callbacks
begin

lemma tick_ok:
  assumes "kinv 1 k" "periods_ok k" "current_thread k \<noteq> None"
  shows "\<exists>k'. rt_tick_increase cb k = Some k' \<and> kinv 2 k' \<and> periods_ok k' \<and> current_thread k' \<noteq> None \<and> tick k' = tick k + 1"
proof -
  obtain k3 where k3: "rt_tick_increase cb k = timer_check_loop (timeout_func cb) (tick k3) k3" "kinv 0 k3" "current_thread k3 \<noteq> None"
    "timers k3 = timers k" "tmlists k3 HardList = tmlists k HardList" "tmlists k3 HardLocal = []" "tick k3 = tick k + 1"
    by (rule tick_start [OF assms(1,3)]) (metis tmref.distinct(3))
  have "periods_ok k3" using assms(2) by (simp add: periods_ok_def period_ok_def flagged_def k3)
  from timeouts.timer_check_ok [OF k3(2) this k3(3,6)] show ?thesis by (simp add: k3)
qed

end

text \<open>When only threads sleep, a tick brings every sleeping thread one step closer and wakes those
  whose time has come.\<close>

lemma tick_sleepers:
  assumes kinv: "kinv 1 k" and cur: "current_thread k \<noteq> None" and only: "only_thread_timers k"
  obtains k' where "rt_tick_increase cb k = Some k'" "kinv 2 k'" "current_thread k' \<noteq> None" "only_thread_timers k'"
    "tick k' = tick k + 1" "lock_nest k' = lock_nest k" "interrupt_nest k' = interrupt_nest k" "\<And>x. live k' x = live k x"
    "\<And>x. ThreadTimer x \<in> set (tmlists k HardList) \<Longrightarrow> due_in k x \<le> 2 \<Longrightarrow>
       th_error (threads k' x) = - RT_ETIMEOUT \<and> state_of k' x \<noteq> RT_THREAD_SUSPEND"
    "\<And>x. ThreadTimer x \<in> set (tmlists k HardList) \<Longrightarrow> 2 < due_in k x \<Longrightarrow>
       ThreadTimer x \<in> set (tmlists k' HardList) \<and> due_in k' x = due_in k x - 1 \<and> state_of k' x = RT_THREAD_SUSPEND"
    "\<And>x. ThreadTimer x \<notin> set (tmlists k HardList) \<Longrightarrow> ThreadTimer x \<notin> set (tmlists k' HardList) \<and>
       (state_of k' x = RT_THREAD_SUSPEND \<longleftrightarrow> state_of k x = RT_THREAD_SUSPEND) \<and> th_error (threads k' x) = th_error (threads k x)"
proof -
  obtain k3 where k3: "rt_tick_increase cb k = timer_check_loop (timeout_func cb) (tick k3) k3" "kinv 0 k3" "current_thread k3 \<noteq> None"
    "timers k3 = timers k" "tmlists k3 HardList = tmlists k HardList" "tmlists k3 HardLocal = []" "tick k3 = tick k + 1"
    "lock_nest k3 = lock_nest k" "interrupt_nest k3 = interrupt_nest k"
    "\<And>x. state_of k3 x = RT_THREAD_SUSPEND \<longleftrightarrow> state_of k x = RT_THREAD_SUSPEND"
    "\<And>x. th_error (threads k3 x) = th_error (threads k x)" "\<And>x. live k3 x = live k x"
    by (rule tick_start [OF kinv cur]) (metis tmref.distinct(3))
  have only3: "only_thread_timers k3" using only by (simp add: only_thread_timers_def k3)
  obtain k' where k': "timer_check_loop (timeout_func cb) (tick k3) k3 = Some k'" "kinv 2 k'" "woke k3 k'"
    using thread_check [OF k3(2) only3 k3(3,6)] by blast
  have d: "due_in k3 x = due_in k x - 1" "0 < due_in k x" if "ThreadTimer x \<in> set (tmlists k HardList)" for x
    using timer_invD(4) [OF kinvD(2) [OF kinv] that] due_tick by (simp_all add: due_in_def k3)
  have w: "current_thread k' \<noteq> None" "tick k' = tick k3" "lock_nest k' = lock_nest k3" "interrupt_nest k' = interrupt_nest k3"
    "\<And>x. timeout_tick (timers k' x) = timeout_tick (timers k3 x)"
    "set (tmlists k' HardList) = {x \<in> set (tmlists k3 HardList). 1 < due (tick k3) (timeout_tick (timers k3 x))}"
    "\<And>x. live k' x = live k3 x"
    "\<And>x. ThreadTimer x \<in> set (tmlists k3 HardList) \<Longrightarrow> due_in k3 x \<le> 1 \<Longrightarrow>
       th_error (threads k' x) = - RT_ETIMEOUT \<and> state_of k' x \<noteq> RT_THREAD_SUSPEND"
    "\<And>x. \<not> (ThreadTimer x \<in> set (tmlists k3 HardList) \<and> due_in k3 x \<le> 1) \<Longrightarrow>
       th_error (threads k' x) = th_error (threads k3 x) \<and>
       (state_of k' x = RT_THREAD_SUSPEND \<longleftrightarrow> state_of k3 x = RT_THREAD_SUSPEND)"
    using k'(3) unfolding woke_def by blast+
  show thesis
  proof (rule that)
    show "rt_tick_increase cb k = Some k'" "kinv 2 k'" using k3(1) k'(1,2) by simp_all
    show "current_thread k' \<noteq> None" "tick k' = tick k + 1" "lock_nest k' = lock_nest k" "interrupt_nest k' = interrupt_nest k"
      "live k' x = live k x" for x using w k3 by simp_all
    show "only_thread_timers k'" using only3 by (auto simp: only_thread_timers_def w(6))
    show "th_error (threads k' x) = - RT_ETIMEOUT \<and> state_of k' x \<noteq> RT_THREAD_SUSPEND"
      if "ThreadTimer x \<in> set (tmlists k HardList)" "due_in k x \<le> 2" for x
      using w(8) [of x] d [OF that(1)] that by (simp add: k3)
    show "ThreadTimer x \<in> set (tmlists k' HardList) \<and> due_in k' x = due_in k x - 1 \<and> state_of k' x = RT_THREAD_SUSPEND"
      if x: "ThreadTimer x \<in> set (tmlists k HardList)" "2 < due_in k x" for x
    proof -
      have "1 < due_in k3 x" using d [OF x(1)] x(2) by simp
      moreover from this have "state_of k' x = RT_THREAD_SUSPEND"
        using w(9) [of x] k3(10) [of x] timer_invD(7) [OF kinvD(2) [OF kinv] x(1)] by simp
      moreover have "due_in k' x = due_in k3 x" by (simp add: due_in_def w)
      ultimately show ?thesis using x(1) d [OF x(1)] by (simp add: w(6) k3(5) due_in_def)
    qed
    show "ThreadTimer x \<notin> set (tmlists k' HardList) \<and>
       (state_of k' x = RT_THREAD_SUSPEND \<longleftrightarrow> state_of k x = RT_THREAD_SUSPEND) \<and> th_error (threads k' x) = th_error (threads k x)"
      if "ThreadTimer x \<notin> set (tmlists k HardList)" for x
      using w(9) [of x] that by (simp add: k3 w(6))
  qed
qed

end
