(* ===== verification/Dispatch.thy ===== *)
theory Dispatch
  imports Clock
begin

text \<open>
  Who has the processor. A state is \<open>busy\<close> when the current thread is running and the idle thread is able to
  run; it is \<open>urgent\<close> when, outside of critical sections, no ready thread has a higher priority than
  the current one. Every operation that changes the set of ready threads ends in a call of the scheduler,
  which is the relation \<open>resched\<close>, and this is enough to get both back.
\<close>

definition idle_thread :: nat where "idle_thread = 1"

definition awake :: "kernel \<Rightarrow> nat \<Rightarrow> bool" where
  "awake k x \<longleftrightarrow> state_of k x = RT_THREAD_READY \<or> state_of k x = RT_THREAD_RUNNING"

definition busy :: "kernel \<Rightarrow> bool" where
  "busy k \<longleftrightarrow> (\<exists>t. current_thread k = Some t \<and> state_of k t = RT_THREAD_RUNNING) \<and> awake k idle_thread"

definition urgent :: "kernel \<Rightarrow> bool" where
  "urgent k \<longleftrightarrow> (lock_nest k = 0 \<longrightarrow> (\<forall>t x. current_thread k = Some t \<longrightarrow> state_of k x = RT_THREAD_READY \<longrightarrow>
     current_priority (threads k t) \<le> current_priority (threads k x)))"

text \<open>The threads \<open>S\<close> may have been suspended, others woken, before the scheduler is called.\<close>

definition resched :: "nat set \<Rightarrow> kernel \<Rightarrow> kernel \<Rightarrow> bool" where
  "resched S k k' \<longleftrightarrow> (\<exists>k1. kinv 0 k1 \<and> current_thread k1 = current_thread k \<and> lock_nest k1 = lock_nest k \<and>
     (\<forall>x. x \<notin> S \<longrightarrow> (awake k x \<longrightarrow> awake k1 x) \<and> (state_of k x = RT_THREAD_RUNNING \<longrightarrow> state_of k1 x = RT_THREAD_RUNNING)) \<and>
     rt_schedule k1 = Some k')"

lemma reschedI:
  assumes "rt_schedule k1 = Some k'" "kinv b k1" "current_thread k1 = current_thread k" "lock_nest k1 = lock_nest k"
    "\<And>x. x \<notin> S \<Longrightarrow> awake k x \<Longrightarrow> awake k1 x" "\<And>x. x \<notin> S \<Longrightarrow> state_of k x = RT_THREAD_RUNNING \<Longrightarrow> state_of k1 x = RT_THREAD_RUNNING"
  shows "resched S k k'"
  using assms kinv_mono [OF assms(2), of 0] unfolding resched_def by blast

lemma schedule_unlocked:
  assumes k1: "kinv b k1" "current_thread k1 \<noteq> None" "lock_nest k1 = 0" and i: "awake k1 idle_thread" and r: "rt_schedule k1 = Some k'"
  shows "busy k'" "urgent k'"
proof -
  note inv = kinvD [OF k1(1)]
  obtain cur where cur: "current_thread k1 = Some cur" using k1(2) by blast
  have can: "ready_group k1 \<noteq> 0 \<or> state_of k1 cur = RT_THREAD_RUNNING"
    using i ready_group_zero [OF inv(1), of idle_thread] sched_invD(9) [OF inv(1), of idle_thread] cur by (auto simp: awake_def)
  have sound: "stack_sound (threads k1 t)" if "state_of k1 t = RT_THREAD_READY" for t
    using obj_invD(2) [OF inv(3), of t] that by (simp add: live_def)
  obtain c where c: "current_thread k' = Some c" "state_of k' c = RT_THREAD_RUNNING"
    "\<forall>t. state_of k' t = RT_THREAD_READY \<longrightarrow> current_priority (threads k' c) \<le> current_priority (threads k' t)"
    using schedule_picks [OF inv(1) cur k1(3) can sound] r by auto
  have "awake k' idle_thread"
  proof -
    obtain k2 where k2: "rt_schedule k1 = Some k2" "\<And>x. live k2 x = live k1 x"
      "\<And>x. state_of k2 x = RT_THREAD_SUSPEND \<longleftrightarrow> state_of k1 x = RT_THREAD_SUSPEND"
      by (rule schedule_kinv [OF k1(1,2)]) blast
    have "live k' idle_thread" "state_of k' idle_thread \<noteq> RT_THREAD_SUSPEND"
      using r k2(1,2,3) i by (auto simp: awake_def live_def)
    then show ?thesis by (auto simp: awake_def live_def)
  qed
  then show "busy k'" using c by (auto simp: busy_def)
  show "urgent k'" using c by (auto simp: urgent_def)
qed

lemma resched_fair:
  assumes r: "resched S k k'" and b: "busy k" and s: "idle_thread \<notin> S" "S \<noteq> {} \<Longrightarrow> lock_nest k = 0"
  shows "busy k'" "urgent k'"
proof -
  obtain k1 where k1: "kinv 0 k1" "current_thread k1 = current_thread k" "lock_nest k1 = lock_nest k"
    "\<And>x. x \<notin> S \<Longrightarrow> awake k x \<Longrightarrow> awake k1 x" "\<And>x. x \<notin> S \<Longrightarrow> state_of k x = RT_THREAD_RUNNING \<Longrightarrow> state_of k1 x = RT_THREAD_RUNNING"
    "rt_schedule k1 = Some k'" using r unfolding resched_def by blast
  have i: "awake k1 idle_thread" using b k1(4) [OF s(1)] by (simp add: busy_def)
  have c: "current_thread k1 \<noteq> None" using b k1(2) by (auto simp: busy_def)
  have "busy k' \<and> urgent k'"
  proof (cases "lock_nest k = 0")
    case True
    then have "lock_nest k1 = 0" by (simp add: k1(3))
    from schedule_unlocked [OF k1(1) c this i k1(6)] show ?thesis by simp
  next
    case False
    then have "k' = k1" using k1(3,6) by (simp add: schedule_idle)
    moreover have "S = {}" using False s(2) by blast
    ultimately show ?thesis using b k1(2,3,5) i False by (auto simp: busy_def urgent_def)
  qed
  then show "busy k'" "urgent k'" by simp_all
qed

text \<open>A step that changes neither the states nor the priorities.\<close>

definition calm :: "kernel \<Rightarrow> kernel \<Rightarrow> bool" where
  "calm k k' \<longleftrightarrow> current_thread k' = current_thread k \<and> lock_nest k' = lock_nest k \<and>
     (\<forall>x. state_of k' x = state_of k x \<and> current_priority (threads k' x) = current_priority (threads k x))"

lemma calm_fair: "calm k k' \<Longrightarrow> busy k \<Longrightarrow> busy k'" "calm k k' \<Longrightarrow> urgent k \<Longrightarrow> urgent k'"
  by (auto simp: calm_def busy_def urgent_def awake_def)

lemma calm_refl [simp, intro]: "calm k k"
  by (simp add: calm_def)

lemma calm_trans: "calm k k1 \<Longrightarrow> calm k1 k2 \<Longrightarrow> calm k k2"
  by (simp add: calm_def)

lemma calm_resched: "calm k k1 \<Longrightarrow> resched S k1 k' \<Longrightarrow> resched S k k'"
  by (auto simp: calm_def resched_def awake_def)

text \<open>A step that wakes threads or changes priorities only.\<close>

definition keeps :: "kernel \<Rightarrow> kernel \<Rightarrow> bool" where
  "keeps k k' \<longleftrightarrow> current_thread k' = current_thread k \<and> lock_nest k' = lock_nest k \<and>
     (\<forall>x. (awake k x \<longrightarrow> awake k' x) \<and> (state_of k x = RT_THREAD_RUNNING \<longrightarrow> state_of k' x = RT_THREAD_RUNNING))"

lemma keeps_busy: "keeps k k' \<Longrightarrow> busy k \<Longrightarrow> busy k'"
  by (auto simp: keeps_def busy_def)

lemma keeps_resched: "keeps k k1 \<Longrightarrow> resched S k1 k' \<Longrightarrow> resched S k k'"
  by (auto simp: keeps_def resched_def)

lemma calm_keeps: "calm k k' \<Longrightarrow> keeps k k'"
  by (auto simp: calm_def keeps_def awake_def)

lemma keeps_trans: "keeps k k1 \<Longrightarrow> keeps k1 k2 \<Longrightarrow> keeps k k2"
  by (auto simp: keeps_def)

text \<open>What every operation of a thread promises: the processor stays in good hands.\<close>

definition fair :: "kernel \<Rightarrow> kernel \<Rightarrow> bool" where
  "fair k k' \<longleftrightarrow> busy k \<longrightarrow> busy k' \<and> (urgent k \<longrightarrow> urgent k')"

lemma fairI: "calm k k' \<Longrightarrow> fair k k'" "resched {} k k' \<Longrightarrow> fair k k'"
  "resched {t} k k' \<Longrightarrow> t \<noteq> idle_thread \<Longrightarrow> lock_nest k = 0 \<Longrightarrow> fair k k'"
  using calm_fair resched_fair [of "{}" k k'] resched_fair [of "{t}" k k'] by (auto simp: fair_def)

end
