(* ===== verification/Thread.thy ===== *)
theory Thread
  imports Dispatch
begin

text \<open>
  The life of a thread: \<^verbatim>\<open>rt-thread/src/thread.c\<close> (suspend, resume and the time-out are in
  theory Timer), the clean-up of dead threads of \<^verbatim>\<open>rt-thread/src/idle.c\<close> and the timer
  thread of \<^verbatim>\<open>rt-thread/src/timer.c\<close>.

  A call that blocks is modelled up to the \<open>rt_schedule\<close> that gives the processor away; what the
  thread does when it is scheduled again is a second function (\<open>sleep_return\<close>).
\<close>

section \<open>Creating and starting\<close>

text \<open>\<open>RT_OBJECT\<close> bookkeeping: \<open>rt_object_init\<close> and \<open>rt_object_allocate\<close> set the type of the
  object, \<open>rt_object_detach\<close> and \<open>rt_object_delete\<close> clear it.\<close>

definition set_type :: "u8 \<Rightarrow> nat \<Rightarrow> kernel \<Rightarrow> kernel" where
  "set_type ty t = upd_thread t (\<lambda>th. th\<lparr>th_type := ty\<rparr>)"

text \<open>\<open>rt_hw_stack_init\<close> of \<^verbatim>\<open>libcpu/arm/cortex-m7/cpuport.c\<close>: the frame of 17 words at the aligned top
  of the stack, from which the first context switch loads the registers.\<close>

definition initial_sp :: "u32 \<Rightarrow> u32" where
  "initial_sp addr = RT_ALIGN_DOWN (addr + 4) 8 - 68"

definition initial_frame :: "u32 \<Rightarrow> u32 \<Rightarrow> u32 \<Rightarrow> u32 list" where
  "initial_frame tentry parameter texit =
    (let frame0 = replicate 17 0xdeadbeef
     in frame0[9 := parameter, 10 := 0, 11 := 0, 12 := 0, 13 := 0, 14 := texit, 15 := tentry, 16 := 0x01000000, 0 := 0])"

definition rt_hw_stack_init :: "u32 \<Rightarrow> u32 \<Rightarrow> u32 \<Rightarrow> u32 \<Rightarrow> mem \<Rightarrow> u32 \<times> mem" where
  "rt_hw_stack_init tentry parameter addr texit m =
    (let stk = initial_sp addr
     in (stk, fold (\<lambda>(i, w). store32 (unat stk + 4 * i) w) (enumerate 0 (initial_frame tentry parameter texit)) m))"

text \<open>\<open>_thread_init\<close>, for a thread that is in no list.\<close>

definition thread_init :: "nat \<Rightarrow> u32 \<Rightarrow> u32 \<Rightarrow> nat \<Rightarrow> u32 \<Rightarrow> kernel \<Rightarrow> kernel option" where
  "thread_init t stack_start ssize prio tck k = do {
     _ \<leftarrow> assert_that (prio < RT_THREAD_PRIORITY_MAX);
     let k1 = upd_thread t (\<lambda>th. th\<lparr>stack_addr := stack_start, stack_size := ssize, stack_guard := 0x23,
           sp := initial_sp (stack_start + ssize - 4),
           init_priority := prio, current_priority := prio, number_mask := 0,
           th_init_tick := tck, remaining_tick := tck, th_error := RT_EOK,
           stat := RT_THREAD_INIT, has_cleanup := False\<rparr>) k;
     Some (rt_timer_init (ThreadTimer t) 0 0 k1)
   }"

definition rt_thread_init :: "nat \<Rightarrow> u32 \<Rightarrow> u32 \<Rightarrow> nat \<Rightarrow> u32 \<Rightarrow> kernel \<Rightarrow> kernel option" where
  "rt_thread_init t stack_start ssize prio tck k = do {
     _ \<leftarrow> assert_that (stack_start \<noteq> 0);
     thread_init t stack_start ssize prio tck (set_type (CLASS_THREAD OR CLASS_STATIC) t k)
   }"

text \<open>\<open>rt_thread_create\<close>: \<open>object\<close> and \<open>stack_start\<close> are the answers of the allocator.\<close>

definition rt_thread_create :: "nat option \<Rightarrow> u32 option \<Rightarrow> u32 \<Rightarrow> nat \<Rightarrow> u32 \<Rightarrow> kernel \<Rightarrow> (nat option \<times> kernel) option" where
  "rt_thread_create object stack_start ssize prio tck k =
    (case object of
       None \<Rightarrow> Some (None, k)
     | Some t \<Rightarrow>
         let k1 = set_type CLASS_THREAD t k
         in case stack_start of
              None \<Rightarrow> Some (None, set_type 0 t k1)
            | Some s \<Rightarrow> map_option (Pair (Some t)) (thread_init t s ssize prio tck k1))"

definition rt_thread_startup :: "nat \<Rightarrow> kernel \<Rightarrow> (int \<times> kernel) option" where
  "rt_thread_startup t k = do {
     _ \<leftarrow> assert_that (state_of k t = RT_THREAD_INIT);
     _ \<leftarrow> assert_that (is_thread k t);
     m \<leftarrow> mask_of (init_priority (threads k t));
     let k1 = upd_thread t (\<lambda>th. th\<lparr>current_priority := init_priority th, number_mask := m, stat := RT_THREAD_SUSPEND\<rparr>) k;
     (_, k2) \<leftarrow> rt_thread_resume t k1;
     k3 \<leftarrow> (if rt_thread_self k2 \<noteq> None then rt_schedule k2 else Some k2);
     Some (RT_EOK, k3)
   }"

section \<open>Ending a thread\<close>

definition thread_cleanup_execute :: "nat \<Rightarrow> kernel \<Rightarrow> kernel" where
  "thread_cleanup_execute t k = (if has_cleanup (threads k t) then k\<lparr>cleaned := cleaned k @ [t]\<rparr> else k)"

definition rt_thread_defunct_enqueue :: "nat \<Rightarrow> kernel \<Rightarrow> kernel" where
  "rt_thread_defunct_enqueue t k = k\<lparr>defunct := t # defunct k\<rparr>"

definition rt_thread_defunct_dequeue :: "kernel \<Rightarrow> nat option \<times> kernel" where
  "rt_thread_defunct_dequeue k = (case defunct k of [] \<Rightarrow> (None, k) | t # ts \<Rightarrow> (Some t, k\<lparr>defunct := ts\<rparr>))"

text \<open>\<open>_thread_exit\<close>, the return address of every thread.\<close>

definition thread_exit :: "kernel \<Rightarrow> kernel option" where
  "thread_exit k = do {
     t \<leftarrow> rt_thread_self k;
     k2 \<leftarrow> rt_schedule_remove_thread t (thread_cleanup_execute t k);
     k3 \<leftarrow> rt_timer_detach (ThreadTimer t) (upd_thread t (\<lambda>th. th\<lparr>stat := RT_THREAD_CLOSE\<rparr>) k2);
     rt_schedule (if is_system (th_type (threads k3 t)) then set_type 0 t k3 else rt_thread_defunct_enqueue t k3)
   }"

definition rt_thread_detach :: "nat \<Rightarrow> kernel \<Rightarrow> (int \<times> kernel) option" where
  "rt_thread_detach t k = do {
     _ \<leftarrow> assert_that (is_thread k t);
     _ \<leftarrow> assert_that (is_system (th_type (threads k t)));
     if state_of k t = RT_THREAD_CLOSE then Some (RT_EOK, k)
     else do {
       k1 \<leftarrow> (if state_of k t \<noteq> RT_THREAD_INIT then rt_schedule_remove_thread t k else Some k);
       k2 \<leftarrow> rt_timer_detach (ThreadTimer t) (thread_cleanup_execute t k1);
       let k3 = upd_thread t (\<lambda>th. th\<lparr>stat := RT_THREAD_CLOSE\<rparr>) k2;
       Some (RT_EOK, if is_system (th_type (threads k3 t)) then set_type 0 t k3 else rt_thread_defunct_enqueue t k3)
     }
   }"

definition rt_thread_delete :: "nat \<Rightarrow> kernel \<Rightarrow> (int \<times> kernel) option" where
  "rt_thread_delete t k = do {
     _ \<leftarrow> assert_that (is_thread k t);
     _ \<leftarrow> assert_that (\<not> is_system (th_type (threads k t)));
     if state_of k t = RT_THREAD_CLOSE then Some (RT_EOK, k)
     else do {
       k1 \<leftarrow> (if state_of k t \<noteq> RT_THREAD_INIT then rt_schedule_remove_thread t k else Some k);
       k2 \<leftarrow> rt_timer_detach (ThreadTimer t) (thread_cleanup_execute t k1);
       Some (RT_EOK, rt_thread_defunct_enqueue t (upd_thread t (\<lambda>th. th\<lparr>stat := RT_THREAD_CLOSE\<rparr>) k2))
     }
   }"

text \<open>The loop of \<open>rt_defunct_execute\<close>, run by the idle thread: the objects of dead threads are
  released; \<open>rt_object_delete\<close> and \<open>rt_object_detach\<close> both end the object.\<close>

definition reap_thread :: "nat \<Rightarrow> kernel \<Rightarrow> kernel" where
  "reap_thread t k = set_type 0 t (thread_cleanup_execute t k)"

function rt_defunct_execute :: "kernel \<Rightarrow> kernel" where
  "rt_defunct_execute k =
    (case rt_thread_defunct_dequeue k of
       (None, k1) \<Rightarrow> k1
     | (Some t, k1) \<Rightarrow> rt_defunct_execute (reap_thread t k1))"
  by pat_completeness auto
termination
  by (relation "measure (\<lambda>k. length (defunct k))")
    (auto simp: rt_thread_defunct_dequeue_def reap_thread_def thread_cleanup_execute_def set_type_def split: list.splits)

declare rt_defunct_execute.simps [simp del]

section \<open>Waiting\<close>

definition rt_thread_yield :: "kernel \<Rightarrow> kernel option" where
  "rt_thread_yield k = do {
     t \<leftarrow> rt_thread_self k;
     rt_schedule (upd_thread t (\<lambda>th. th\<lparr>remaining_tick := th_init_tick th, stat := stat th OR RT_THREAD_STAT_YIELD\<rparr>) k)
   }"

text \<open>The part of \<open>rt_thread_sleep\<close> and \<open>rt_thread_delay_until\<close> that suspends the thread for a
  number of ticks.\<close>

definition sleep_for :: "nat \<Rightarrow> u32 \<Rightarrow> kernel \<Rightarrow> kernel option" where
  "sleep_for t n k = do {
     (_, k1) \<leftarrow> rt_thread_suspend t k;
     (_, k2) \<leftarrow> rt_timer_control (ThreadTimer t) (SetTime n) k1;
     k3 \<leftarrow> rt_timer_start (ThreadTimer t) k2;
     rt_schedule k3
   }"

definition rt_thread_sleep :: "u32 \<Rightarrow> kernel \<Rightarrow> kernel option" where
  "rt_thread_sleep n k = do {
     t \<leftarrow> rt_thread_self k;
     _ \<leftarrow> assert_that (is_thread k t);
     sleep_for t n k
   }"

definition sleep_return :: "nat \<Rightarrow> kernel \<Rightarrow> kernel" where
  "sleep_return t k =
    (if th_error (threads k t) = - RT_ETIMEOUT then upd_thread t (\<lambda>th. th\<lparr>th_error := RT_EOK\<rparr>) k else k)"

definition rt_thread_delay :: "u32 \<Rightarrow> kernel \<Rightarrow> kernel option" where
  "rt_thread_delay n k = rt_thread_sleep n k"

text \<open>\<open>*tick\<close> is an argument and a result; the flag says whether the thread was suspended.\<close>

definition rt_thread_delay_until :: "u32 \<Rightarrow> u32 \<Rightarrow> kernel \<Rightarrow> (u32 \<times> bool \<times> kernel) option" where
  "rt_thread_delay_until start inc_tick k = do {
     t \<leftarrow> rt_thread_self k;
     _ \<leftarrow> assert_that (is_thread k t);
     let cur_tick = rt_tick_get k;
     if cur_tick - start < inc_tick
     then map_option (\<lambda>k'. (start + inc_tick, True, k')) (sleep_for t (start + inc_tick - cur_tick) k)
     else Some (cur_tick, False, k)
   }"

definition rt_thread_mdelay :: "int \<Rightarrow> kernel \<Rightarrow> kernel option" where
  "rt_thread_mdelay ms k = rt_thread_sleep (rt_tick_from_millisecond ms) k"

section \<open>Control\<close>

datatype thread_cmd = ChangePriority u8 | Startup | Close | OtherThreadCmd

definition set_priority :: "nat \<Rightarrow> nat \<Rightarrow> kernel \<Rightarrow> kernel option" where
  "set_priority t p k = do {
     m \<leftarrow> mask_of p;
     Some (upd_thread t (\<lambda>th. th\<lparr>current_priority := p, number_mask := m\<rparr>) k)
   }"

definition rt_thread_control :: "nat \<Rightarrow> thread_cmd \<Rightarrow> kernel \<Rightarrow> (int \<times> kernel) option" where
  "rt_thread_control t cmd k = do {
     _ \<leftarrow> assert_that (is_thread k t);
     case cmd of
       ChangePriority p \<Rightarrow>
         if state_of k t = RT_THREAD_READY
         then do {
           k1 \<leftarrow> rt_schedule_remove_thread t k;
           k2 \<leftarrow> set_priority t (unat p) k1;
           k3 \<leftarrow> rt_schedule_insert_thread t k2;
           Some (RT_EOK, k3)
         }
         else map_option (Pair RT_EOK) (set_priority t (unat p) k)
     | Startup \<Rightarrow> rt_thread_startup t k
     | Close \<Rightarrow> do {
         (err, k1) \<leftarrow> (if is_system (th_type (threads k t)) then rt_thread_detach t k else rt_thread_delete t k);
         k2 \<leftarrow> rt_schedule k1;
         Some (err, k2)
       }
     | OtherThreadCmd \<Rightarrow> Some (RT_EOK, k)
   }"

section \<open>The threads of the kernel\<close>

text \<open>\<open>stack\<close> is the address of the static stack of the thread.\<close>

definition rt_thread_idle_init :: "u32 \<Rightarrow> kernel \<Rightarrow> kernel option" where
  "rt_thread_idle_init stack k = do {
     k1 \<leftarrow> rt_thread_init idle_thread stack 256 (RT_THREAD_PRIORITY_MAX - 1) 32 k;
     (_, k2) \<leftarrow> rt_thread_startup idle_thread k1;
     Some k2
   }"

definition rt_system_timer_thread_init :: "u32 \<Rightarrow> kernel \<Rightarrow> kernel option" where
  "rt_system_timer_thread_init stack k = do {
     k1 \<leftarrow> rt_thread_init timer_thread stack 512 4 10 (k\<lparr>tmlists := (tmlists k)(SoftList := [])\<rparr>);
     (_, k2) \<leftarrow> rt_thread_startup timer_thread k1;
     Some k2
   }"

text \<open>One round of \<open>_timer_thread_entry\<close> up to the point where it waits; it goes on with
  \<open>rt_soft_timer_check\<close>.\<close>

definition timer_thread_wait :: "kernel \<Rightarrow> kernel option" where
  "timer_thread_wait k =
    (let next_timeout = timer_list_next_timeout SoftList k
     in if next_timeout = 0xffffffff
        then do {
          t \<leftarrow> rt_thread_self k;
          (_, k1) \<leftarrow> rt_thread_suspend t k;
          rt_schedule k1
        }
        else let current_tick = rt_tick_get k
             in if next_timeout - current_tick < HALF_TICK
                then rt_thread_delay (next_timeout - current_tick) k
                else Some k)"

section \<open>Idle hooks\<close>

abbreviation RT_IDLE_HOOK_LIST_SIZE :: nat where "RT_IDLE_HOOK_LIST_SIZE \<equiv> 4"

text \<open>The table \<open>idle_hook_list\<close>; a hook is named by a number.\<close>

fun rt_thread_idle_sethook :: "nat \<Rightarrow> nat option list \<Rightarrow> int \<times> nat option list" where
  "rt_thread_idle_sethook hook [] = (- RT_EFULL, [])"
| "rt_thread_idle_sethook hook (None # hs) = (RT_EOK, Some hook # hs)"
| "rt_thread_idle_sethook hook (Some h # hs) =
    (case rt_thread_idle_sethook hook hs of (e, hs') \<Rightarrow> (e, Some h # hs'))"

fun rt_thread_idle_delhook :: "nat \<Rightarrow> nat option list \<Rightarrow> int \<times> nat option list" where
  "rt_thread_idle_delhook hook [] = (- RT_ENOSYS, [])"
| "rt_thread_idle_delhook hook (h # hs) =
    (if h = Some hook then (RT_EOK, None # hs)
     else case rt_thread_idle_delhook hook hs of (e, hs') \<Rightarrow> (e, h # hs'))"

text \<open>The hooks one round of the idle thread calls, in order.\<close>

definition idle_round :: "nat option list \<Rightarrow> nat list" where
  "idle_round hs = map the (filter (\<lambda>h. h \<noteq> None) hs)"

section \<open>The initial stack\<close>

lemma initial_sp_bounds:
  assumes "unat start + unat sz < 2 ^ 32" "76 \<le> sz"
  shows "start < initial_sp (start + sz - 4)" "initial_sp (start + sz - 4) \<le> start + sz" "unat (initial_sp (start + sz - 4)) mod 4 = 0"
proof -
  define top where "top = RT_ALIGN_DOWN (start + sz) 8"
  have e: "start + sz - 4 + 4 = start + sz" by simp
  have s: "unat (start + sz) = unat start + unat sz" using assms(1) by (simp add: unat_word_ariths)
  have sz: "76 \<le> unat sz" using assms(2) by (simp add: word_le_nat_alt)
  have "(8 :: u32) - 1 = mask 3" by (simp add: mask_eq_exp_minus_1)
  then have t: "unat top = unat (start + sz) div 8 * 8"
    unfolding top_def RT_ALIGN_DOWN_def using unat_and_not_mask [of "start + sz" 3] by simp
  have "unat (start + sz) < unat top + 8" "unat top \<le> unat (start + sz)"
    unfolding t by (presburger, simp)
  then have i: "unat (initial_sp (start + sz - 4)) = unat top - 68" "68 \<le> unat top"
    using sz s unfolding initial_sp_def e top_def [symmetric] unat_diff_u32 by auto
  show "start < initial_sp (start + sz - 4)" "initial_sp (start + sz - 4) \<le> start + sz"
    unfolding word_less_nat_alt word_le_nat_alt i s
    using \<open>unat (start + sz) < unat top + 8\<close> \<open>unat top \<le> unat (start + sz)\<close> sz by (simp_all add: s)
  show "unat (initial_sp (start + sz - 4)) mod 4 = 0" using i(2) unfolding i(1) t by presburger
qed

section \<open>The life of a thread keeps the invariant\<close>

text \<open>A thread that is in no list may get another state, or other data.\<close>

lemma upd_unlinked_inv:
  assumes inv: "sched_inv X k" and un: "\<not> linked t k" and s: "stat (f (threads k t)) AND 7 \<noteq> RT_THREAD_READY"
    "stat (f (threads k t)) AND 7 = RT_THREAD_RUNNING \<Longrightarrow> current_thread k = Some t"
    "stat (f (threads k t)) AND 7 \<in> {RT_THREAD_SUSPEND, RT_THREAD_RUNNING} \<Longrightarrow> prio_ok (f (threads k t))"
  shows "sched_inv (X - {t}) (upd_thread t f k)"
proof -
  note d = sched_invD [OF inv]
  have ul: "t \<notin> set (tlists k l)" for l using un by (simp add: linked_def)
  show ?thesis
    unfolding sched_inv_def
  proof (intro conjI allI impI ballI)
    show "group_ok (upd_thread t f k)" using d(1) by (simp add: group_ok_def)
    show "distinct (tlists (upd_thread t f k) l)" for l using d(2) by simp
    show "l = l'" if "x \<in> set (tlists (upd_thread t f k) l)" "x \<in> set (tlists (upd_thread t f k) l')" for l l' x
      using that d(3) by simp
    show "p = current_priority (threads (upd_thread t f k) x)" "state_of (upd_thread t f k) x = RT_THREAD_READY"
      if "x \<in> set (tlists (upd_thread t f k) (Ready p))" for p x
      using that d(4) [of x p] ul by auto
    show "state_of (upd_thread t f k) x = RT_THREAD_SUSPEND"
      if "x \<in> set (tlists (upd_thread t f k) (Waiting i)) \<union> set (tlists (upd_thread t f k) (Senders i))" for i x
      using that d(5,6) [of x i] ul by auto
    show "\<not> linked x (upd_thread t f k)" if "x \<in> X - {t}" for x using that d(7) [of x] by (simp add: linked_def)
    show "x \<in> set (tlists (upd_thread t f k) (Ready (current_priority (threads (upd_thread t f k) x))))"
      if "x \<notin> X - {t}" "state_of (upd_thread t f k) x = RT_THREAD_READY" for x
      using that d(8) [of x] s(1) by (cases "x = t") auto
    show "current_thread (upd_thread t f k) = Some x"
      if "x \<notin> X - {t}" "state_of (upd_thread t f k) x = RT_THREAD_RUNNING" for x
      using that d(9) [of x] s(2) by (cases "x = t") auto
    show "prio_ok (threads (upd_thread t f k) x)"
      if "x \<notin> X - {t}" "state_of (upd_thread t f k) x \<in> {RT_THREAD_READY, RT_THREAD_SUSPEND, RT_THREAD_RUNNING}" for x
      using that d(10) [of x] s(1,3) by (cases "x = t") auto
  qed
qed

text \<open>The same for the whole invariant.\<close>

lemma upd_unlinked_kinv:
  assumes kinv: "kinv b k" and un: "\<not> linked t k" and nt: "ThreadTimer t \<notin> set (tmlists k HardList)"
    and s: "stat (f (threads k t)) AND 7 \<noteq> RT_THREAD_READY"
    "stat (f (threads k t)) AND 7 = RT_THREAD_RUNNING \<Longrightarrow> current_thread k = Some t"
    "stat (f (threads k t)) AND 7 \<in> {RT_THREAD_SUSPEND, RT_THREAD_RUNNING} \<Longrightarrow> prio_ok (f (threads k t)) \<and>
      obj_is CLASS_THREAD (th_type (f (threads k t))) \<and> stack_sound (f (threads k t)) \<and>
      is_timer k (ThreadTimer t) \<and> is_system (tm_type (timers k (ThreadTimer t)))"
  shows "kinv b (upd_thread t f k)"
proof -
  note i = kinvD [OF kinv]
  have "sched_inv {} (upd_thread t f k)" using upd_unlinked_inv [OF i(1) un, of f] s by auto
  moreover have "timer_inv b (upd_thread t f k)"
    by (rule timer_inv_cong [OF i(2)]) (use timer_invD(7) [OF i(2)] nt in auto)
  moreover have "obj_inv (upd_thread t f k)"
    unfolding obj_inv_def
  proof (intro allI impI)
    fix x assume x: "live (upd_thread t f k) x"
    show "is_thread (upd_thread t f k) x \<and> stack_sound (threads (upd_thread t f k) x) \<and>
       is_timer (upd_thread t f k) (ThreadTimer x) \<and> is_system (tm_type (timers (upd_thread t f k) (ThreadTimer x)))"
    proof (cases "x = t")
      case True
      with x s show ?thesis by (auto simp: live_def)
    next
      case False
      with x have "live k x" by (simp add: live_def)
      from obj_invD [OF i(3) this] False show ?thesis by simp
    qed
  qed
  ultimately show ?thesis by (simp add: kinv_def)
qed

lemma not_live_unlinked: "kinv b k \<Longrightarrow> \<not> live k t \<Longrightarrow> \<not> linked t k"
  using linked_state [OF kinvD(1)] by (auto simp: live_def)

lemma not_live_no_timer:
  assumes "kinv b k" "\<not> live k t"
  shows "ThreadTimer t \<notin> set (tmlists k HardList)" "ThreadTimer t \<notin> set (tmlists k SoftList)"
  using timer_invD(7) [OF kinvD(2) [OF assms(1)], of t] assms(2) timer_invD(6,8) [OF kinvD(2) [OF assms(1)]]
  by (auto simp: live_def)

lemma timer_dead_kinv:
  assumes kinv: "kinv b k" and dead: "\<not> live k t"
    and f: "tm_flag (f (timers k (ThreadTimer t))) AND RT_TIMER_FLAG_SOFT_TIMER = 0"
      "tm_flag (f (timers k (ThreadTimer t))) AND RT_TIMER_FLAG_PERIODIC = 0"
  shows "kinv b (upd_timer (ThreadTimer t) f k)"
proof -
  note i = kinvD [OF kinv]
  have "sched_inv {} (upd_timer (ThreadTimer t) f k)" using i(1) by (subst sched_inv_cong [of _ k]) simp_all
  moreover have "timer_inv b (upd_timer (ThreadTimer t) f k)"
    by (rule upd_timer_inv [OF i(2)]) (use not_live_no_timer [OF kinv dead] f in auto)
  moreover have "obj_inv (upd_timer (ThreadTimer t) f k)"
    using i(3) dead by (auto simp: obj_inv_def live_def)
  ultimately show ?thesis by (simp add: kinv_def)
qed

lemma set_type_kinv:
  assumes "kinv b k" "\<not> live k t"
  shows "kinv b (set_type ty t k)" "\<not> live (set_type ty t k) t"
proof -
  show "\<not> live (set_type ty t k) t" using assms(2) by (simp add: set_type_def live_def)
  show "kinv b (set_type ty t k)"
    unfolding set_type_def
    by (rule upd_unlinked_kinv [OF assms(1) not_live_unlinked [OF assms]])
      (use not_live_no_timer [OF assms] assms(2) in \<open>auto simp: live_def\<close>)
qed

lemma thread_init_spec:
  assumes kinv: "kinv b k" and dead: "\<not> live k t" and p: "p < RT_THREAD_PRIORITY_MAX"
    and st: "unat start + unat sz < 2 ^ 32" "76 \<le> sz"
  obtains k' where "thread_init t start sz p tck k = Some k'" "kinv b k'" "state_of k' t = RT_THREAD_INIT"
    "init_priority (threads k' t) = p" "stack_sound (threads k' t)" "th_type (threads k' t) = th_type (threads k t)"
    "is_timer k' (ThreadTimer t)" "is_system (tm_type (timers k' (ThreadTimer t)))" "tlists k' = tlists k" "tmlists k' = tmlists k"
    "\<And>x. x \<noteq> t \<Longrightarrow> threads k' x = threads k x" "\<And>x. x \<noteq> ThreadTimer t \<Longrightarrow> timers k' x = timers k x"
    "current_thread k' = current_thread k" "defunct k' = defunct k" "cleaned k' = cleaned k" "\<not> has_cleanup (threads k' t)"
    "tick k' = tick k" "lock_nest k' = lock_nest k" "interrupt_nest k' = interrupt_nest k"
    "event_set (threads k' t) = event_set (threads k t)" "event_info (threads k' t) = event_info (threads k t)"
proof -
  define f where "f th = th\<lparr>stack_addr := start, stack_size := sz, stack_guard := 0x23,
           sp := initial_sp (start + sz - 4), init_priority := p, current_priority := p, number_mask := 0,
           th_init_tick := tck, remaining_tick := tck, th_error := RT_EOK,
           stat := RT_THREAD_INIT, has_cleanup := False\<rparr>" for th :: thread
  define g where "g tm = (tm\<lparr>tm_type := CLASS_TIMER OR CLASS_STATIC\<rparr>)\<lparr>tm_flag := 0 AND NOT RT_TIMER_FLAG_ACTIVATED, timeout_tick := 0, tm_init_tick := 0\<rparr>" for tm :: timer
  define k1 where "k1 = upd_thread t f k"
  define k' where "k' = upd_timer (ThreadTimer t) g k1"
  have k1: "kinv b k1"
    unfolding k1_def
    by (rule upd_unlinked_kinv [OF kinv not_live_unlinked [OF kinv dead]])
      (use not_live_no_timer [OF kinv dead] in \<open>auto simp: f_def\<close>)
  have "kinv b k'"
    unfolding k'_def by (rule timer_dead_kinv [OF k1]) (simp_all add: k1_def live_def f_def g_def)
  moreover have "thread_init t start sz p tck k = Some k'"
    using p by (simp add: thread_init_def k'_def k1_def rt_timer_init_def timer_init_def upd_timer_def g_def f_def upd_thread_def)
  moreover have "stack_sound (f th)" for th
    using initial_sp_bounds [OF st] st by (simp add: f_def stack_sound_def not_le not_less)
  ultimately show thesis
    by (intro that [of k']) (simp_all add: k'_def k1_def f_def g_def obj_is_def is_system_def)
qed

lemma startup_spec:
  assumes kinv: "kinv b k" and st: "state_of k t = RT_THREAD_INIT" and p: "init_priority (threads k t) < RT_THREAD_PRIORITY_MAX"
    and o: "is_thread k t" "stack_sound (threads k t)" "is_timer k (ThreadTimer t)" "is_system (tm_type (timers k (ThreadTimer t)))"
  obtains k' where "rt_thread_startup t k = Some (RT_EOK, k')" "kinv b k'" "live k' t"
    "tmlists k' HardList = tmlists k HardList" "tmlists k' SoftList = tmlists k SoftList"
    "\<And>x. x \<noteq> ThreadTimer t \<Longrightarrow> timers k' x = timers k x"
    "\<And>x. x \<noteq> t \<Longrightarrow> live k' x = live k x" "current_thread k' \<noteq> None \<longleftrightarrow> current_thread k \<noteq> None" "tick k' = tick k"
    "defunct k' = defunct k" "cleaned k' = cleaned k" "lock_nest k' = lock_nest k" "interrupt_nest k' = interrupt_nest k"
    "current_thread k \<noteq> None \<Longrightarrow> resched {} k k'" "\<And>x. current_thread k = None \<Longrightarrow> awake k' x \<longleftrightarrow> x = t \<or> awake k x"
    "\<And>i. tlists k' (Waiting i) = tlists k (Waiting i)" "\<And>i. tlists k' (Senders i) = tlists k (Senders i)"
    "\<And>x. event_set (threads k' x) = event_set (threads k x)" "\<And>x. event_info (threads k' x) = event_info (threads k x)"
proof -
  have dead: "\<not> live k t" using st by (simp add: live_def)
  define m where "m = (push_bit (init_priority (threads k t)) 1 :: u32)"
  define k1 where "k1 = upd_thread t (\<lambda>th. th\<lparr>current_priority := init_priority th, number_mask := m, stat := RT_THREAD_SUSPEND\<rparr>) k"
  have m: "mask_of (init_priority (threads k t)) = Some m" using p by (simp add: mask_of_def m_def)
  have k1: "kinv b k1"
    unfolding k1_def
    by (rule upd_unlinked_kinv [OF kinv not_live_unlinked [OF kinv dead] not_live_no_timer(1) [OF kinv dead]])
      (use m o in \<open>auto simp: prio_ok_def stack_sound_def\<close>)
  have s1: "state_of k1 t = RT_THREAD_SUSPEND" by (simp add: k1_def)
  obtain k2 where k2: "rt_thread_resume t k1 = Some (RT_EOK, k2)" "kinv b k2" "kframe k1 k2"
    "current_thread k2 = current_thread k1" "state_of k2 t = (if current_thread k1 = Some t then RT_THREAD_RUNNING else RT_THREAD_READY)"
    "\<And>x. x \<noteq> t \<Longrightarrow> threads k2 x = threads k1 x"
    "tlists k2 = (if current_thread k1 = Some t then tlists (unlink t k1)
       else (tlists (unlink t k1))(Ready (current_priority (threads k1 t)) := tlists k1 (Ready (current_priority (threads k1 t))) @ [t]))"
    "tmlists k2 HardList = filter (\<lambda>x. x \<noteq> ThreadTimer t) (tmlists k1 HardList)"
    "tmlists k2 SoftList = tmlists k1 SoftList" "\<And>x. x \<noteq> ThreadTimer t \<Longrightarrow> timers k2 x = timers k1 x"
    by (rule thread_resume_spec [OF k1 s1]) iprover
  have "tlists (unlink t k1) = tlists k1" by (rule unlink_unlinked) (use not_live_unlinked [OF kinv dead] in \<open>simp add: linked_def k1_def\<close>)
  then have w2: "tlists k2 (Waiting i) = tlists k (Waiting i)" "tlists k2 (Senders i) = tlists k (Senders i)" for i
    by (simp_all add: k2(7) k1_def)
  have a2: "awake k2 x \<longleftrightarrow> x = t \<or> awake k x" "state_of k x = RT_THREAD_RUNNING \<Longrightarrow> state_of k2 x = RT_THREAD_RUNNING" for x
    using k2(5) k2(6) [of x] st by (cases "x = t"; simp add: awake_def k1_def)+
  have lv: "live k2 t" using k2(5) by (simp add: live_def)
  have fl: "filter (\<lambda>x. x \<noteq> ThreadTimer t) (tmlists k HardList) = tmlists k HardList"
    using not_live_no_timer(1) [OF kinv dead] by (auto intro: filter_True)
  obtain k3 where k3: "(if rt_thread_self k2 \<noteq> None then rt_schedule k2 else Some k2) = Some k3" "kinv b k3" "kframe k2 k3"
    "current_thread k3 \<noteq> None \<longleftrightarrow> current_thread k2 \<noteq> None" "timers k3 = timers k2" "tmlists k3 = tmlists k2" "\<And>x. live k3 x = live k2 x"
    "\<And>i. tlists k3 (Waiting i) = tlists k2 (Waiting i)" "\<And>i. tlists k3 (Senders i) = tlists k2 (Senders i)"
    "current_thread k2 = None \<longrightarrow> k3 = k2" "current_thread k2 \<noteq> None \<longrightarrow> rt_schedule k2 = Some k3"
  proof (cases "current_thread k2 = None")
    case True
    with k2 that [of k2] show thesis by (simp add: rt_thread_self_def)
  next
    case False
    obtain k3 where "rt_schedule k2 = Some k3" "kinv b k3" "kframe k2 k3" "current_thread k3 \<noteq> None"
      "timers k3 = timers k2" "tmlists k3 = tmlists k2" "\<And>x. live k3 x = live k2 x"
      "\<And>i. tlists k3 (Waiting i) = tlists k2 (Waiting i)" "\<And>i. tlists k3 (Senders i) = tlists k2 (Senders i)"
      by (rule schedule_kinv [OF k2(2) False]) metis
    moreover obtain y where "current_thread k2 = Some y" using False by blast
    ultimately show thesis by (intro that [of k3]) (simp_all add: rt_thread_self_def)
  qed
  have fr: "kframe k1 k3" by (rule kframe_trans [OF k2(3) k3(3)])
  have run: "rt_thread_startup t k = Some (RT_EOK, k3)"
    using st o(1) m k2(1) k3(1) by (simp add: rt_thread_startup_def k1_def [symmetric])
  have lx: "live k3 x = live k x" if "x \<noteq> t" for x unfolding k3(7) using that by (simp add: live_def k2(6) k1_def)
  have rs: "resched {} k k3" if "current_thread k \<noteq> None"
  proof -
    have "rt_schedule k2 = Some k3" using k3(11) k2(4) that by (simp add: k1_def)
    then show ?thesis by (rule reschedI [OF _ k2(2)]) (use that k2(3,4) a2 in \<open>simp_all add: k1_def kframe_def\<close>)
  qed
  have aw: "awake k3 x \<longleftrightarrow> x = t \<or> awake k x" if "current_thread k = None" for x
    using k3(10) a2(1) that k2(4) by (simp add: k1_def)
  have ev: "event_set (threads k3 x) = event_set (threads k x)" "event_info (threads k3 x) = event_info (threads k x)" for x
    using kframe_threads(10,11) [OF fr] by (simp_all add: k1_def)
  show thesis
    using run k3 lv lx fl fr k2(4,8-10) rs aw ev w2
    by (intro that [of k3]) (simp_all add: kframe_def k1_def)
qed

text \<open>What all the ways of ending a thread have in common; \<open>g\<close> is the new bitmap.\<close>

definition closed :: "nat \<Rightarrow> u32 \<Rightarrow> kernel \<Rightarrow> kernel" where
  "closed t g k =
    (let k1 = thread_cleanup_execute t ((unlink t k)\<lparr>ready_group := g\<rparr>);
         k2 = clear_flag RT_TIMER_FLAG_ACTIVATED (ThreadTimer t) (unlink_timer (ThreadTimer t) k1);
         k3 = upd_timer (ThreadTimer t) (\<lambda>tm. tm\<lparr>tm_type := 0\<rparr>) k2
     in upd_thread t (\<lambda>th. th\<lparr>stat := RT_THREAD_CLOSE\<rparr>) k3)"

lemma cleanup_simps [simp]:
  "threads (thread_cleanup_execute t k) = threads k" "timers (thread_cleanup_execute t k) = timers k"
  "tlists (thread_cleanup_execute t k) = tlists k" "tmlists (thread_cleanup_execute t k) = tmlists k"
  "ready_group (thread_cleanup_execute t k) = ready_group k" "current_thread (thread_cleanup_execute t k) = current_thread k"
  "current_prio (thread_cleanup_execute t k) = current_prio k" "lock_nest (thread_cleanup_execute t k) = lock_nest k"
  "interrupt_nest (thread_cleanup_execute t k) = interrupt_nest k" "tick (thread_cleanup_execute t k) = tick k"
  "soft_busy (thread_cleanup_execute t k) = soft_busy k" "defunct (thread_cleanup_execute t k) = defunct k"
  "switches (thread_cleanup_execute t k) = switches k"
  "cleaned (thread_cleanup_execute t k) = cleaned k @ (if has_cleanup (threads k t) then [t] else [])"
  by (simp_all add: thread_cleanup_execute_def)

lemma closed_simps:
  "threads (closed t g k) = (threads k)(t := (threads k t)\<lparr>stat := RT_THREAD_CLOSE\<rparr>)"
  "timers (closed t g k) = (timers k)(ThreadTimer t := (timers k (ThreadTimer t))\<lparr>tm_flag := tm_flag (timers k (ThreadTimer t)) AND NOT 1, tm_type := 0\<rparr>)"
  "tlists (closed t g k) l = filter (\<lambda>x. x \<noteq> t) (tlists k l)"
  "tmlists (closed t g k) r = filter (\<lambda>x. x \<noteq> ThreadTimer t) (tmlists k r)"
  "current_thread (closed t g k) = current_thread k" "tick (closed t g k) = tick k" "lock_nest (closed t g k) = lock_nest k"
  "interrupt_nest (closed t g k) = interrupt_nest k" "soft_busy (closed t g k) = soft_busy k"
  "defunct (closed t g k) = defunct k"
  "cleaned (closed t g k) = cleaned k @ (if has_cleanup (threads k t) then [t] else [])"
  by (simp_all add: closed_def Let_def clear_flag_def fun_eq_iff)

lemma closed_kinv:
  assumes kinv: "kinv b k" and inv: "sched_inv {t} ((unlink t k)\<lparr>ready_group := g\<rparr>)"
  shows "kinv b (closed t g k)"
proof -
  note i = kinvD [OF kinv]
  define k1 where "k1 = (unlink t k)\<lparr>ready_group := g\<rparr>"
  define f where "f tm = (tm\<lparr>tm_flag := tm_flag tm AND NOT RT_TIMER_FLAG_ACTIVATED\<rparr>)\<lparr>tm_type := 0\<rparr>" for tm :: timer
  define k2 where "k2 = upd_timer (ThreadTimer t) f (unlink_timer (ThreadTimer t) k)"
  have un: "\<not> linked t k1" using sched_invD(7) [OF inv, of t] by (simp add: k1_def)
  have "sched_inv ({t} - {t}) (upd_thread t (\<lambda>th. th\<lparr>stat := RT_THREAD_CLOSE\<rparr>) k1)"
    by (rule upd_unlinked_inv [OF inv [folded k1_def] un]) simp_all
  then have "sched_inv {} (closed t g k)"
    by (subst (asm) sched_inv_cong [of _ "closed t g k"])
      (simp_all add: closed_def Let_def clear_flag_def k1_def)
  moreover have "timer_inv b (closed t g k)"
  proof (rule timer_inv_cong)
    show "timer_inv b k2"
      unfolding k2_def
      by (rule upd_timer_inv [OF unlink_timer_inv [OF i(2)]])
        (use timer_invD(8,9) [OF i(2)] in \<open>auto simp: f_def flagged_def and.assoc\<close>)
    show "timers (closed t g k) = timers k2" "tmlists (closed t g k) = tmlists k2" "tick (closed t g k) = tick k2"
      by (simp_all add: closed_simps fun_eq_iff k2_def f_def)
    show "state_of (closed t g k) x = RT_THREAD_SUSPEND \<and> is_thread (closed t g k) x"
      if "ThreadTimer x \<in> set (tmlists k2 HardList)" for x
      using that timer_invD(7) [OF i(2), of x] by (auto simp: closed_simps k2_def)
  qed
  moreover have "obj_inv (closed t g k)"
    unfolding obj_inv_def
  proof (intro allI impI)
    fix x assume x: "live (closed t g k) x"
    then have "x \<noteq> t" "live k x" by (auto simp: live_def closed_simps split: if_splits)
    then show "is_thread (closed t g k) x \<and> stack_sound (threads (closed t g k) x) \<and> is_timer (closed t g k) (ThreadTimer x) \<and>
        is_system (tm_type (timers (closed t g k) (ThreadTimer x)))"
      using obj_invD [OF i(3), of x] by (simp add: closed_simps)
  qed
  ultimately show ?thesis by (simp add: kinv_def)
qed

text \<open>Ending the object of a dead thread, or handing it to the idle thread.\<close>

lemma defunct_kinv: "kinv b (rt_thread_defunct_enqueue t k) = kinv b k"
proof -
  have "kinv b k' \<longleftrightarrow> kinv b k" if "k' = k\<lparr>defunct := d\<rparr>" for k' d
    unfolding that kinv_def sched_inv_def timer_inv_def obj_inv_def live_def linked_def group_ok_def flagged_def by simp
  then show ?thesis by (simp add: rt_thread_defunct_enqueue_def)
qed

definition finished :: "nat \<Rightarrow> kernel \<Rightarrow> kernel" where
  "finished t k = (if is_system (th_type (threads k t)) then set_type 0 t k else rt_thread_defunct_enqueue t k)"

lemma finished_kinv: "kinv b k \<Longrightarrow> \<not> live k t \<Longrightarrow> kinv b (finished t k)"
  by (simp add: finished_def defunct_kinv set_type_kinv)

lemma finished_simps:
  "live (finished t k) x = live k x" "current_thread (finished t k) = current_thread k" "tick (finished t k) = tick k"
  "state_of (finished t k) x = state_of k x" "timers (finished t k) = timers k" "tlists (finished t k) = tlists k"
  "tmlists (finished t k) = tmlists k" "cleaned (finished t k) = cleaned k" "lock_nest (finished t k) = lock_nest k"
  "interrupt_nest (finished t k) = interrupt_nest k" "x \<noteq> t \<Longrightarrow> threads (finished t k) x = threads k x"
  "defunct (finished t k) = (if is_system (th_type (threads k t)) then defunct k else t # defunct k)"
  "th_type (threads (finished t k) t) = (if is_system (th_type (threads k t)) then 0 else th_type (threads k t))"
  by (simp_all add: finished_def set_type_def rt_thread_defunct_enqueue_def live_def)

lemma timer_detach_eq:
  "is_timer k m \<Longrightarrow> is_system (tm_type (timers k m)) \<Longrightarrow> rt_timer_detach m k =
    Some (upd_timer m (\<lambda>tm. tm\<lparr>tm_type := 0\<rparr>) (clear_flag RT_TIMER_FLAG_ACTIVATED m (unlink_timer m k)))"
  by (simp add: rt_timer_detach_def)

lemma remove_cleanup:
  assumes "rt_schedule_remove_thread t k = Some ((unlink t k)\<lparr>ready_group := g\<rparr>)"
  shows "rt_schedule_remove_thread t (thread_cleanup_execute t k) = Some (thread_cleanup_execute t ((unlink t k)\<lparr>ready_group := g\<rparr>))"
proof -
  have p: "current_priority (threads k t) < RT_THREAD_PRIORITY_MAX"
    using assms by (auto simp: rt_schedule_remove_thread_def Let_def assert_that_def split: if_splits)
  have g: "g = (if tlists (unlink t k) (Ready (current_priority (threads k t))) = []
      then ready_group k AND NOT (number_mask (threads k t)) else ready_group k)"
    using arg_cong [OF assms, of "map_option ready_group"] p by (auto simp: rt_schedule_remove_thread_def Let_def)
  show ?thesis using p by (simp add: rt_schedule_remove_thread_def Let_def g thread_cleanup_execute_def unlink_def)
qed

text \<open>The running thread ends.\<close>

lemma exit_spec:
  assumes kinv: "kinv b k" and cur: "current_thread k = Some t" and lv: "live k t"
  obtains k' where "thread_exit k = Some k'" "kinv b k'" "current_thread k' \<noteq> None" "tick k' = tick k"
    "\<And>x. live k' x \<longleftrightarrow> live k x \<and> x \<noteq> t" "cleaned k' = cleaned k @ (if has_cleanup (threads k t) then [t] else [])"
    "defunct k' = (if is_system (th_type (threads k t)) then defunct k else t # defunct k)"
    "lock_nest k' = lock_nest k" "interrupt_nest k' = interrupt_nest k"
    "tmlists k' HardList = filter (\<lambda>x. x \<noteq> ThreadTimer t) (tmlists k HardList)"
    "th_type (threads k' t) = (if is_system (th_type (threads k t)) then 0 else th_type (threads k t))"
    "resched {t} k k'" "\<And>i. tlists k' (Waiting i) = filter (\<lambda>x. x \<noteq> t) (tlists k (Waiting i))"
    "\<And>i. tlists k' (Senders i) = filter (\<lambda>x. x \<noteq> t) (tlists k (Senders i))"
    "\<And>x. event_set (threads k' x) = event_set (threads k x)" "\<And>x. event_info (threads k' x) = event_info (threads k x)"
proof -
  note i = kinvD [OF kinv]
  note o = obj_invD [OF i(3) lv]
  have ok: "prio_ok (threads k t)" using sched_invD(10) [OF i(1), of t] lv by (simp add: live_def)
  from remove_spec [OF i(1) ok] obtain g where g: "rt_schedule_remove_thread t k = Some ((unlink t k)\<lparr>ready_group := g\<rparr>)"
    "sched_inv {t} ((unlink t k)\<lparr>ready_group := g\<rparr>)" by auto
  define kc where "kc = closed t g k"
  have kc: "kinv b kc" unfolding kc_def by (rule closed_kinv [OF kinv g(2)])
  have dead: "\<not> live kc t" by (simp add: live_def kc_def closed_simps)
  define k4 where "k4 = finished t kc"
  have k4: "kinv b k4" unfolding k4_def by (rule finished_kinv [OF kc dead])
  have c4: "current_thread k4 \<noteq> None" by (simp add: k4_def finished_simps kc_def closed_simps cur)
  obtain k' where k': "rt_schedule k4 = Some k'" "kinv b k'" "kframe k4 k'" "current_thread k' \<noteq> None"
    "timers k' = timers k4" "tmlists k' = tmlists k4" "\<And>x. live k' x = live k4 x"
    "\<And>x. state_of k' x = RT_THREAD_SUSPEND \<longleftrightarrow> state_of k4 x = RT_THREAD_SUSPEND"
    "\<And>i. tlists k' (Waiting i) = tlists k4 (Waiting i)" "\<And>i. tlists k' (Senders i) = tlists k4 (Senders i)"
    by (rule schedule_kinv [OF k4 c4]) metis
  have oth: "threads k4 x = threads k x" if "x \<noteq> t" for x
    using that by (simp add: k4_def finished_simps kc_def closed_simps)
  have rs: "resched {t} k k'"
    by (rule reschedI [OF k'(1) k4]) (use oth in \<open>simp_all add: awake_def\<close>, simp_all add: k4_def finished_simps kc_def closed_simps)
  have ev4: "event_set (threads k4 x) = event_set (threads k x)" "event_info (threads k4 x) = event_info (threads k x)" for x
    by (simp_all add: k4_def finished_def set_type_def rt_thread_defunct_enqueue_def kc_def closed_simps)
  have ev: "event_set (threads k' x) = event_set (threads k x)" "event_info (threads k' x) = event_info (threads k x)" for x
    using kframe_threads(10,11) [OF k'(3)] ev4 by simp_all
  define kr where "kr = thread_cleanup_execute t ((unlink t k)\<lparr>ready_group := g\<rparr>)"
  have "rt_timer_detach (ThreadTimer t) (upd_thread t (\<lambda>th. th\<lparr>stat := RT_THREAD_CLOSE\<rparr>) kr) = Some kc"
    using o(3,4) by (subst timer_detach_eq)
      (simp_all add: kr_def kc_def closed_def Let_def clear_flag_def upd_thread_def upd_timer_def unlink_timer_def)
  then have run: "thread_exit k = Some k'"
    using cur remove_cleanup [OF g(1)] k'(1)
    by (simp add: thread_exit_def rt_thread_self_def kr_def [symmetric] k4_def finished_def)
  have ty: "th_type (threads k' t) = th_type (threads k4 t)" by (rule kframe_threads(4) [OF k'(3)])
  have lv': "live k' x \<longleftrightarrow> live k x \<and> x \<noteq> t" for x
    unfolding k'(7) k4_def finished_simps by (auto simp: live_def kc_def closed_simps)
  show thesis
    using run k' ty lv' rs ev
    by (intro that [of k']) (simp_all add: kframe_def k4_def finished_simps kc_def closed_simps)
qed

text \<open>Another thread, or the running one, is ended.\<close>

lemma end_spec:
  assumes kinv: "kinv b k" and lv: "live k t \<or> state_of k t = RT_THREAD_INIT"
    and o: "is_thread k t" "is_timer k (ThreadTimer t)" "is_system (tm_type (timers k (ThreadTimer t)))"
  obtains k' where "rt_thread_detach t k = (if is_system (th_type (threads k t)) then Some (RT_EOK, k') else None)"
    "rt_thread_delete t k = (if is_system (th_type (threads k t)) then None else Some (RT_EOK, k'))"
    "kinv b k'" "current_thread k' = current_thread k" "tick k' = tick k"
    "\<And>x. live k' x \<longleftrightarrow> live k x \<and> x \<noteq> t" "cleaned k' = cleaned k @ (if has_cleanup (threads k t) then [t] else [])"
    "defunct k' = (if is_system (th_type (threads k t)) then defunct k else t # defunct k)"
    "lock_nest k' = lock_nest k" "interrupt_nest k' = interrupt_nest k"
    "tmlists k' HardList = filter (\<lambda>x. x \<noteq> ThreadTimer t) (tmlists k HardList)"
    "th_type (threads k' t) = (if is_system (th_type (threads k t)) then 0 else th_type (threads k t))"
    "\<not> linked t k'"
proof -
  note i = kinvD [OF kinv]
  obtain g where g: "(if state_of k t \<noteq> RT_THREAD_INIT then rt_schedule_remove_thread t k else Some k) =
      Some ((unlink t k)\<lparr>ready_group := g\<rparr>)" "sched_inv {t} ((unlink t k)\<lparr>ready_group := g\<rparr>)"
  proof (cases "state_of k t = RT_THREAD_INIT")
    case True
    then have dead: "\<not> live k t" by (simp add: live_def)
    have "tlists (unlink t k) = tlists k" by (rule unlink_unlinked [OF not_live_unlinked [OF kinv dead]])
    then have u: "(unlink t k)\<lparr>ready_group := ready_group k\<rparr> = k" by (simp add: unlink_def)
    show thesis
      by (rule that [of "ready_group k"]) (simp_all only: u True simp_thms if_False sched_inv_exempt [OF i(1) not_live_unlinked [OF kinv dead]])
  next
    case False
    with lv have "prio_ok (threads k t)" using sched_invD(10) [OF i(1), of t] by (simp add: live_def)
    from remove_spec [OF i(1) this] that False show thesis by auto
  qed
  define kr where "kr = (unlink t k)\<lparr>ready_group := g\<rparr>"
  define kc where "kc = closed t g k"
  have kc: "kinv b kc" unfolding kc_def by (rule closed_kinv [OF kinv g(2)])
  have dead: "\<not> live kc t" by (simp add: live_def kc_def closed_simps)
  define k' where "k' = finished t kc"
  have k': "kinv b k'" unfolding k'_def by (rule finished_kinv [OF kc dead])
  define kd where "kd = upd_timer (ThreadTimer t) (\<lambda>tm. tm\<lparr>tm_type := 0\<rparr>)
      (clear_flag RT_TIMER_FLAG_ACTIVATED (ThreadTimer t) (unlink_timer (ThreadTimer t) (thread_cleanup_execute t kr)))"
  have d: "rt_timer_detach (ThreadTimer t) (thread_cleanup_execute t kr) = Some kd"
    unfolding kd_def by (rule timer_detach_eq) (simp_all add: kr_def o)
  have kc_eq: "upd_thread t (\<lambda>th. th\<lparr>stat := RT_THREAD_CLOSE\<rparr>) kd = kc" by (simp add: kc_def closed_def Let_def kd_def kr_def)
  have ns: "state_of k t \<noteq> RT_THREAD_CLOSE" using lv by (auto simp: live_def)
  have sy: "th_type (threads kc t) = th_type (threads k t)" "th_type (threads kd t) = th_type (threads k t)"
    by (simp_all add: kc_def closed_simps kd_def kr_def clear_flag_def)
  have r1: "rt_thread_detach t k = (if is_system (th_type (threads k t)) then Some (RT_EOK, k') else None)"
    using o(1) ns d unfolding rt_thread_detach_def g(1) kr_def [symmetric]
    by (simp add: kr_def [symmetric] kc_eq k'_def finished_def sy)
  have r2: "rt_thread_delete t k = (if is_system (th_type (threads k t)) then None else Some (RT_EOK, k'))"
    using o(1) ns d unfolding rt_thread_delete_def g(1) kr_def [symmetric]
    by (simp add: kr_def [symmetric] kc_eq k'_def finished_def sy)
  have lv': "live k' x \<longleftrightarrow> live k x \<and> x \<noteq> t" for x
    unfolding k'_def finished_simps by (auto simp: live_def kc_def closed_simps)
  show thesis
    using r1 r2 k' lv'
    by (intro that [of k']) (simp_all add: k'_def finished_simps kc_def closed_simps linked_def)
qed

text \<open>The timer of a suspended thread is set and started.\<close>

lemma thread_timer_start_spec:
  assumes kinv: "kinv b k" and b: "b \<le> 1" and st: "state_of k t = RT_THREAD_SUSPEND" and n: "n < HALF_TICK"
  obtains k1 k' where "rt_timer_control (ThreadTimer t) (SetTime n) k = Some (None, k1)" "rt_timer_start (ThreadTimer t) k1 = Some k'"
    "kinv b k'" "kframe k k'" "threads k' = threads k" "tlists k' = tlists k" "current_thread k' = current_thread k"
    "switches k' = switches k" "timeout_tick (timers k' (ThreadTimer t)) = tick k + n"
    "\<And>x. x \<noteq> ThreadTimer t \<Longrightarrow> timers k' x = timers k x"
    "set (tmlists k' HardList) = insert (ThreadTimer t) (set (tmlists k HardList))" "ready_group k' = ready_group k"
proof -
  note i = kinvD [OF kinv]
  have lv: "live k t" using st by (simp add: live_def)
  note o = obj_invD [OF i(3) lv]
  define k1 where "k1 = upd_timer (ThreadTimer t) (\<lambda>tm. tm\<lparr>tm_init_tick := n\<rparr>) k"
  have "tm_flag (timers k1 m) = tm_flag (timers k m)" "tm_type (timers k1 m) = tm_type (timers k m)"
    "timeout_tick (timers k1 m) = timeout_tick (timers k m)" for m by (simp_all add: k1_def)
  note same = this
  have "threads k1 = threads k" "tmlists k1 = tmlists k" "tick k1 = tick k" by (simp_all add: k1_def)
  then have t1: "timer_inv b k1" using i(2) unfolding timer_inv_def flagged_def same by simp
  have ty: "is_timer k1 (ThreadTimer t)" using o(3) by (simp add: k1_def)
  obtain k' where k': "rt_timer_start (ThreadTimer t) k1 = Some k'" "timer_inv b k'" "kframe k1 k'" "threads k' = threads k1"
    "tlists k' = tlists k1" "ready_group k' = ready_group k1" "current_thread k' = current_thread k1" "switches k' = switches k1"
    "timeout_tick (timers k' (ThreadTimer t)) = tick k1 + tm_init_tick (timers k1 (ThreadTimer t))"
    "\<And>x. x \<noteq> ThreadTimer t \<Longrightarrow> timers k' x = timers k1 x"
    "set (tmlists k' HardList) = insert (ThreadTimer t) (set (tmlists k1 HardList))"
    by (rule timer_start_spec [OF t1 ty])
      (use n b st o(1) timer_invD(8) [OF t1] in \<open>auto simp: k1_def\<close>)
  have fr: "kframe k k'" using k'(3) by (simp add: kframe_def k1_def)
  have "kinv b k'"
    by (rule kinv_timers [OF kinv k'(2)]) (use k'(3-7) in \<open>simp_all add: kframe_def k1_def\<close>)
  moreover have "rt_timer_control (ThreadTimer t) (SetTime n) k = Some (None, k1)"
    using o(3) by (simp add: rt_timer_control_def k1_def)
  ultimately show thesis
    using k' fr by (intro that [of k1 k']) (simp_all add: k1_def)
qed

text \<open>The running thread goes to sleep.\<close>

lemma sleep_for_spec:
  assumes kinv: "kinv b k" and b: "b \<le> 1" and cur: "current_thread k = Some t" and st: "state_of k t = RT_THREAD_RUNNING" and n: "n < HALF_TICK"
  obtains k' where "sleep_for t n k = Some k'" "kinv b k'" "current_thread k' \<noteq> None" "tick k' = tick k"
    "lock_nest k' = lock_nest k" "interrupt_nest k' = interrupt_nest k" "\<And>x. live k' x = live k x"
    "set (tmlists k' HardList) = insert (ThreadTimer t) (set (tmlists k HardList))"
    "timeout_tick (timers k' (ThreadTimer t)) = tick k + n" "\<And>x. x \<noteq> ThreadTimer t \<Longrightarrow> timers k' x = timers k x"
    "\<And>x. state_of k' x = RT_THREAD_SUSPEND \<longleftrightarrow> x = t \<or> state_of k x = RT_THREAD_SUSPEND" "kframe k k'"
    "\<And>i. tlists k' (Waiting i) = tlists k (Waiting i)" "\<And>i. tlists k' (Senders i) = tlists k (Senders i)" "resched {t} k k'"
proof -
  have st': "state_of k t = RT_THREAD_READY \<or> state_of k t = RT_THREAD_RUNNING" using st by simp
  have lv: "live k t" using st by (simp add: live_def)
  obtain k1 where k1: "rt_thread_suspend t k = Some (RT_EOK, k1)" "kinv b k1" "kframe k k1"
    "current_thread k1 = current_thread k" "state_of k1 t = RT_THREAD_SUSPEND" "\<And>x. x \<noteq> t \<Longrightarrow> threads k1 x = threads k x"
    "tmlists k1 HardList = tmlists k HardList" "tlists k1 = tlists (unlink t k)"
    "\<And>x. x \<noteq> ThreadTimer t \<Longrightarrow> timers k1 x = timers k x"
    by (rule thread_suspend_spec [OF kinv st']) metis
  have l1: "tlists k1 = tlists k" using k1(8) unlink_unlinked [OF running_unlinked [OF kinvD(1) [OF kinv] st]] by simp
  obtain k2 k3 where k3: "rt_timer_control (ThreadTimer t) (SetTime n) k1 = Some (None, k2)" "rt_timer_start (ThreadTimer t) k2 = Some k3"
    "kinv b k3" "kframe k1 k3" "threads k3 = threads k1" "tlists k3 = tlists k1" "current_thread k3 = current_thread k1"
    "timeout_tick (timers k3 (ThreadTimer t)) = tick k1 + n" "\<And>x. x \<noteq> ThreadTimer t \<Longrightarrow> timers k3 x = timers k1 x"
    "set (tmlists k3 HardList) = insert (ThreadTimer t) (set (tmlists k1 HardList))"
    by (rule thread_timer_start_spec [OF k1(2) b k1(5) n]) metis
  have c3: "current_thread k3 \<noteq> None" by (simp add: k3(7) k1(4) cur)
  obtain k4 where k4: "rt_schedule k3 = Some k4" "kinv b k4" "kframe k3 k4" "current_thread k4 \<noteq> None"
    "timers k4 = timers k3" "tmlists k4 = tmlists k3" "\<And>x. live k4 x = live k3 x"
    "\<And>x. state_of k4 x = RT_THREAD_SUSPEND \<longleftrightarrow> state_of k3 x = RT_THREAD_SUSPEND"
    "\<And>i. tlists k4 (Waiting i) = tlists k3 (Waiting i)" "\<And>i. tlists k4 (Senders i) = tlists k3 (Senders i)"
    by (rule schedule_kinv [OF k3(3) c3]) metis
  have run: "sleep_for t n k = Some k4"
    by (simp add: sleep_for_def k1(1) k3(1,2) k4(1))
  have lx: "live k4 x = live k x" for x
    unfolding k4(7) using k1(5,6) lv by (cases "x = t") (simp_all add: live_def k3(5))
  have sx: "state_of k4 x = RT_THREAD_SUSPEND \<longleftrightarrow> x = t \<or> state_of k x = RT_THREAD_SUSPEND" for x
    unfolding k4(8) using k1(5,6) by (cases "x = t") (simp_all add: k3(5))
  have fr: "kframe k k4" by (rule kframe_trans [OF k1(3) kframe_trans [OF k3(4) k4(3)]])
  have "lock_nest k3 = lock_nest k" using k1(3) k3(4) by (simp add: kframe_def)
  then have rs: "resched {t} k k4"
    by (intro reschedI [OF k4(1) k3(3)]) (use k1(4,6) k3(5,7) in \<open>simp_all add: awake_def\<close>)
  have "tick k1 = tick k" using k1(3) by (simp add: kframe_def)
  with run k4(2,4) fr lx sx rs show thesis
    using k3(8-10) by (intro that [of k4]) (simp_all add: k4(5,6,9,10) k1(1-7,9) k3(6) l1 kframe_def)
qed

section \<open>Sleeping\<close>

text \<open>A number of tick interrupts; the kernel has no hard user timer.\<close>

fun run_ticks :: "nat \<Rightarrow> kernel \<Rightarrow> kernel option" where
  "run_ticks 0 k = Some k"
| "run_ticks (Suc n) k = Option.bind (SysTick_Handler (\<lambda>_ k. Some k) k) (run_ticks n)"

lemma nest_kinv: "kinv b (k\<lparr>interrupt_nest := n\<rparr>) = kinv b k"
  unfolding kinv_def sched_inv_def timer_inv_def obj_inv_def live_def linked_def group_ok_def flagged_def by simp

lemma systick_sleepers:
  assumes kinv: "kinv 1 k" and cur: "current_thread k \<noteq> None" and only: "only_thread_timers k" and nest: "interrupt_nest k < 256"
  obtains k' where "SysTick_Handler (\<lambda>_ k. Some k) k = Some k'" "kinv 1 k'" "current_thread k' \<noteq> None" "only_thread_timers k'"
    "tick k' = tick k + 1" "lock_nest k' = lock_nest k" "interrupt_nest k' = interrupt_nest k" "\<And>x. live k' x = live k x"
    "\<And>x. ThreadTimer x \<in> set (tmlists k HardList) \<Longrightarrow> due_in k x \<le> 2 \<Longrightarrow>
       th_error (threads k' x) = - RT_ETIMEOUT \<and> state_of k' x \<noteq> RT_THREAD_SUSPEND"
    "\<And>x. ThreadTimer x \<in> set (tmlists k HardList) \<Longrightarrow> 2 < due_in k x \<Longrightarrow>
       ThreadTimer x \<in> set (tmlists k' HardList) \<and> due_in k' x = due_in k x - 1 \<and> state_of k' x = RT_THREAD_SUSPEND"
proof -
  define k0 where "k0 = rt_interrupt_enter k"
  have k0: "kinv 1 k0" "current_thread k0 \<noteq> None" "only_thread_timers k0"
    using assms by (simp_all add: k0_def rt_interrupt_enter_def nest_kinv only_thread_timers_def)
  have same: "timers k0 = timers k" "tmlists k0 = tmlists k" "threads k0 = threads k" "tick k0 = tick k" "lock_nest k0 = lock_nest k"
    "interrupt_nest k0 = (interrupt_nest k + 1) mod 256"
    by (simp_all add: k0_def rt_interrupt_enter_def)
  obtain k1 where k1: "rt_tick_increase (\<lambda>_ k. Some k) k0 = Some k1" "kinv 2 k1" "current_thread k1 \<noteq> None" "only_thread_timers k1"
    "tick k1 = tick k0 + 1" "lock_nest k1 = lock_nest k0" "interrupt_nest k1 = interrupt_nest k0" "\<And>x. live k1 x = live k0 x"
    "\<And>x. ThreadTimer x \<in> set (tmlists k0 HardList) \<Longrightarrow> due_in k0 x \<le> 2 \<Longrightarrow>
       th_error (threads k1 x) = - RT_ETIMEOUT \<and> state_of k1 x \<noteq> RT_THREAD_SUSPEND"
    "\<And>x. ThreadTimer x \<in> set (tmlists k0 HardList) \<Longrightarrow> 2 < due_in k0 x \<Longrightarrow>
       ThreadTimer x \<in> set (tmlists k1 HardList) \<and> due_in k1 x = due_in k0 x - 1 \<and> state_of k1 x = RT_THREAD_SUSPEND"
    by (rule tick_sleepers [OF k0, where cb = "\<lambda>_ k. Some k"]) metis
  define k' where "k' = rt_interrupt_leave k1"
  have "SysTick_Handler (\<lambda>_ k. Some k) k = Some k'" using k1(1) by (simp add: SysTick_Handler_def k0_def k'_def)
  moreover have "kinv 1 k'" using kinv_mono [OF k1(2), of 1] by (simp add: k'_def rt_interrupt_leave_def nest_kinv)
  moreover have "interrupt_nest k' = interrupt_nest k"
    using nest by (simp add: k'_def rt_interrupt_leave_def k1(7) same mod_simps)
  ultimately show thesis
    using k1 by (intro that [of k']) (simp_all add: k'_def rt_interrupt_leave_def same only_thread_timers_def live_def due_in_def)
qed

text \<open>A sleeping thread is woken at the tick of its time-out and not before.\<close>

lemma run_ticks_sleep:
  assumes "kinv 1 k" "current_thread k \<noteq> None" "only_thread_timers k" "interrupt_nest k < 256"
    "ThreadTimer t \<in> set (tmlists k HardList)" "d = due_in k t"
  shows "(\<forall>j < max 1 (d - 1). \<exists>k'. run_ticks j k = Some k' \<and> state_of k' t = RT_THREAD_SUSPEND) \<and>
    (\<exists>k'. run_ticks (max 1 (d - 1)) k = Some k' \<and> kinv 1 k' \<and> state_of k' t \<in> {RT_THREAD_READY, RT_THREAD_RUNNING} \<and>
      th_error (threads k' t) = - RT_ETIMEOUT \<and> tick k' = tick k + of_nat (max 1 (d - 1)))"
  using assms
proof (induction d arbitrary: k)
  case 0
  then show ?case using timer_invD(4) [OF kinvD(2) [OF "0.prems"(1)] "0.prems"(5)] by (simp add: due_in_def)
next
  case (Suc d)
  have st: "state_of k t = RT_THREAD_SUSPEND" using timer_invD(7) [OF kinvD(2) [OF Suc.prems(1)] Suc.prems(5)] by simp
  then have lv: "live k t" by (simp add: live_def)
  obtain k1 where k1: "SysTick_Handler (\<lambda>_ k. Some k) k = Some k1" "kinv 1 k1" "current_thread k1 \<noteq> None" "only_thread_timers k1"
    "tick k1 = tick k + 1" "lock_nest k1 = lock_nest k" "interrupt_nest k1 = interrupt_nest k" "\<And>x. live k1 x = live k x"
    "\<And>x. ThreadTimer x \<in> set (tmlists k HardList) \<Longrightarrow> due_in k x \<le> 2 \<Longrightarrow>
       th_error (threads k1 x) = - RT_ETIMEOUT \<and> state_of k1 x \<noteq> RT_THREAD_SUSPEND"
    "\<And>x. ThreadTimer x \<in> set (tmlists k HardList) \<Longrightarrow> 2 < due_in k x \<Longrightarrow>
       ThreadTimer x \<in> set (tmlists k1 HardList) \<and> due_in k1 x = due_in k x - 1 \<and> state_of k1 x = RT_THREAD_SUSPEND"
    by (rule systick_sleepers [OF Suc.prems(1-4)]) metis
  show ?case
  proof (cases "Suc d \<le> 2")
    case True
    then have m: "max 1 (Suc d - 1) = 1" by simp
    have "due_in k t \<le> 2" using True Suc.prems(6) by simp
    from k1(9) [OF Suc.prems(5) this] have w: "th_error (threads k1 t) = - RT_ETIMEOUT" "state_of k1 t \<noteq> RT_THREAD_SUSPEND" by auto
    have "live k1 t" using lv by (simp add: k1(8))
    with w have "state_of k1 t \<in> {RT_THREAD_READY, RT_THREAD_RUNNING}" by (auto simp: live_def)
    with w k1 st show ?thesis unfolding m by simp
  next
    case False
    then have "2 < due_in k t" using Suc.prems(6) by simp
    from k1(10) [OF Suc.prems(5) this] have n: "ThreadTimer t \<in> set (tmlists k1 HardList)" "d = due_in k1 t" "state_of k1 t = RT_THREAD_SUSPEND"
      using Suc.prems(6) by simp_all
    have nest: "interrupt_nest k1 < 256" using Suc.prems(4) k1(7) by simp
    note IH = Suc.IH [OF k1(2,3,4) nest n(1,2)]
    have d: "max 1 (d - 1) = d - 1" "max 1 (Suc d - 1) = d" using False by auto
    have "\<exists>k'. run_ticks j k = Some k' \<and> state_of k' t = RT_THREAD_SUSPEND" if "j < d" for j
    proof (cases j)
      case (Suc i)
      then have "i < d - 1" using that by simp
      with IH d(1) Suc k1(1) show ?thesis by simp
    qed (simp add: st)
    moreover obtain k' where k': "run_ticks (d - 1) k1 = Some k'" "kinv 1 k'" "state_of k' t \<in> {RT_THREAD_READY, RT_THREAD_RUNNING}"
      "th_error (threads k' t) = - RT_ETIMEOUT" "tick k' = tick k1 + of_nat (d - 1)" using IH d(1) by auto
    moreover have "run_ticks d k = Some k'" using False k1(1) k'(1) by (cases d) simp_all
    moreover have "tick k' = tick k + of_nat d" using k'(5) k1(5) False by (simp add: of_nat_diff)
    ultimately show ?thesis unfolding d(2) by blast
  qed
qed

lemma sleep_for_wakes:
  assumes "kinv 1 k" "current_thread k = Some t" "state_of k t = RT_THREAD_RUNNING" "only_thread_timers k"
    "interrupt_nest k < 256" "n < HALF_TICK"
  shows "\<exists>k0. sleep_for t n k = Some k0 \<and> kinv 1 k0 \<and>
    (\<forall>j < max 1 (unat n). \<exists>k'. run_ticks j k0 = Some k' \<and> state_of k' t = RT_THREAD_SUSPEND) \<and>
    (\<exists>k'. run_ticks (max 1 (unat n)) k0 = Some k' \<and> kinv 1 k' \<and> state_of k' t \<in> {RT_THREAD_READY, RT_THREAD_RUNNING} \<and>
      tick k' = tick k + of_nat (max 1 (unat n)) \<and> th_error (threads k' t) = - RT_ETIMEOUT)"
proof -
  obtain k0 where k0: "sleep_for t n k = Some k0" "kinv 1 k0" "current_thread k0 \<noteq> None" "tick k0 = tick k"
    "interrupt_nest k0 = interrupt_nest k" "set (tmlists k0 HardList) = insert (ThreadTimer t) (set (tmlists k HardList))"
    "timeout_tick (timers k0 (ThreadTimer t)) = tick k + n"
    by (rule sleep_for_spec [OF assms(1) order_refl assms(2,3,6)]) metis
  have only: "only_thread_timers k0" using assms(4) by (auto simp: only_thread_timers_def k0(6))
  have d: "due_in k0 t = Suc (unat n)" using due_new(1) [OF assms(6)] by (simp add: due_in_def k0(4,7))
  have "ThreadTimer t \<in> set (tmlists k0 HardList)" by (simp add: k0(6))
  from run_ticks_sleep [OF k0(2,3) only _ this refl] assms(5) k0(5) k0(1,2) show ?thesis
    unfolding d diff_Suc_1 by (intro exI [of _ k0]) (auto simp: k0(4))
qed

lemma running_is_thread: "kinv b k \<Longrightarrow> state_of k t = RT_THREAD_RUNNING \<Longrightarrow> is_thread k t"
  using obj_invD(1) [OF kinvD(3)] by (simp add: live_def)

text \<open>C12: a sleeping thread is woken exactly in time: when only threads wait on hard timers, \<open>rt_thread_sleep n\<close> suspends
  the running thread, it stays suspended for the next \<open>n - 1\<close> tick interrupts whatever the other threads
  that wake up do to the schedule, and the \<open>n\<close>-th (the first when \<open>n\<close> is 0) makes it ready or running,
  with the time-out error that \<open>rt_thread_sleep\<close> clears when it returns.\<close>

theorem sleep_wakes_in_time:
  assumes "kinv 1 k" "current_thread k = Some t" "state_of k t = RT_THREAD_RUNNING" "only_thread_timers k"
    "interrupt_nest k < 256" "n < HALF_TICK"
  shows "\<exists>k0. rt_thread_sleep n k = Some k0 \<and> kinv 1 k0 \<and>
    (\<forall>j < max 1 (unat n). \<exists>k'. run_ticks j k0 = Some k' \<and> state_of k' t = RT_THREAD_SUSPEND) \<and>
    (\<exists>k'. run_ticks (max 1 (unat n)) k0 = Some k' \<and> kinv 1 k' \<and> state_of k' t \<in> {RT_THREAD_READY, RT_THREAD_RUNNING} \<and>
      tick k' = tick k + of_nat (max 1 (unat n)) \<and> th_error (threads k' t) = - RT_ETIMEOUT \<and>
      th_error (threads (sleep_return t k') t) = RT_EOK)"
  using sleep_for_wakes [OF assms] running_is_thread [OF assms(1,3)] assms(2)
  by (auto simp: rt_thread_sleep_def rt_thread_self_def sleep_return_def)

theorem sleep_wakes_in_time_witness:
  "\<exists>k0 k'. rt_thread_sleep 5 four_threads = Some k0 \<and> run_ticks 5 k0 = Some k' \<and>
    state_of k' 1 \<in> {RT_THREAD_READY, RT_THREAD_RUNNING} \<and> tick k' = 3"
proof -
  have only: "only_thread_timers four_threads" by (simp add: only_thread_timers_def four_threads_simps)
  have nest: "interrupt_nest four_threads < 256" by (simp add: four_threads_def boot_kernel_def)
  have st: "current_thread four_threads = Some 1" "state_of four_threads 1 = RT_THREAD_RUNNING" "(5 :: u32) < HALF_TICK"
    by (simp_all add: four_threads_simps)
  have "tick four_threads + of_nat (max 1 (unat (5 :: u32))) = 3" by (simp add: four_threads_simps)
  with sleep_wakes_in_time [OF four_threads_inv st(1,2) only nest st(3)] show ?thesis
    by (simp del: of_nat_numeral) blast
qed



section \<open>Changing the priority of a thread\<close>

lemma upd_exempt_inv:
  assumes inv: "sched_inv X k" and t: "t \<in> X"
  shows "sched_inv X (upd_thread t f k)"
proof -
  note d = sched_invD [OF inv]
  have ul: "t \<notin> set (tlists k l)" for l using d(7) [OF t] by (simp add: linked_def)
  show ?thesis
    unfolding sched_inv_def
  proof (intro conjI allI impI ballI)
    show "group_ok (upd_thread t f k)" using d(1) by (simp add: group_ok_def)
    show "distinct (tlists (upd_thread t f k) l)" for l using d(2) by simp
    show "l = l'" if "x \<in> set (tlists (upd_thread t f k) l)" "x \<in> set (tlists (upd_thread t f k) l')" for l l' x
      using that d(3) by simp
    show "p = current_priority (threads (upd_thread t f k) x)" "state_of (upd_thread t f k) x = RT_THREAD_READY"
      if "x \<in> set (tlists (upd_thread t f k) (Ready p))" for p x
      using that d(4) [of x p] ul by auto
    show "state_of (upd_thread t f k) x = RT_THREAD_SUSPEND"
      if "x \<in> set (tlists (upd_thread t f k) (Waiting i)) \<union> set (tlists (upd_thread t f k) (Senders i))" for i x
      using that d(5,6) [of x i] ul by auto
    show "\<not> linked x (upd_thread t f k)" if "x \<in> X" for x using d(7) [OF that] by (simp add: linked_def)
    show "x \<in> set (tlists (upd_thread t f k) (Ready (current_priority (threads (upd_thread t f k) x))))"
      if "x \<notin> X" "state_of (upd_thread t f k) x = RT_THREAD_READY" for x
      using that d(8) [of x] t by (cases "x = t") auto
    show "current_thread (upd_thread t f k) = Some x" if "x \<notin> X" "state_of (upd_thread t f k) x = RT_THREAD_RUNNING" for x
      using that d(9) [of x] t by (cases "x = t") auto
    show "prio_ok (threads (upd_thread t f k) x)"
      if "x \<notin> X" "state_of (upd_thread t f k) x \<in> {RT_THREAD_READY, RT_THREAD_SUSPEND, RT_THREAD_RUNNING}" for x
      using that d(10) [of x] t by (cases "x = t") auto
  qed
qed

text \<open>A thread that is in no ready queue may get another priority where it is.\<close>

lemma upd_priority_inv:
  assumes inv: "sched_inv X k" and st: "state_of k t \<noteq> RT_THREAD_READY"
    and f: "stat (f (threads k t)) = stat (threads k t)" "prio_ok (f (threads k t))"
  shows "sched_inv X (upd_thread t f k)"
proof -
  note d = sched_invD [OF inv]
  have ul: "t \<notin> set (tlists k (Ready p))" for p using d(4) [of t p] st by auto
  show ?thesis
    unfolding sched_inv_def
  proof (intro conjI allI impI ballI)
    show "group_ok (upd_thread t f k)" using d(1) by (simp add: group_ok_def)
    show "distinct (tlists (upd_thread t f k) l)" for l using d(2) by simp
    show "l = l'" if "x \<in> set (tlists (upd_thread t f k) l)" "x \<in> set (tlists (upd_thread t f k) l')" for l l' x
      using that d(3) by simp
    show "p = current_priority (threads (upd_thread t f k) x)" "state_of (upd_thread t f k) x = RT_THREAD_READY"
      if "x \<in> set (tlists (upd_thread t f k) (Ready p))" for p x
      using that d(4) [of x p] ul by auto
    show "state_of (upd_thread t f k) x = RT_THREAD_SUSPEND"
      if "x \<in> set (tlists (upd_thread t f k) (Waiting i)) \<union> set (tlists (upd_thread t f k) (Senders i))" for i x
      using that d(5,6) [of x i] by (cases "x = t") (auto simp: f)
    show "\<not> linked x (upd_thread t f k)" if "x \<in> X" for x using d(7) [OF that] by (simp add: linked_def)
    show "x \<in> set (tlists (upd_thread t f k) (Ready (current_priority (threads (upd_thread t f k) x))))"
      if "x \<notin> X" "state_of (upd_thread t f k) x = RT_THREAD_READY" for x
      using that d(8) [of x] st by (cases "x = t") (auto simp: f)
    show "current_thread (upd_thread t f k) = Some x" if "x \<notin> X" "state_of (upd_thread t f k) x = RT_THREAD_RUNNING" for x
      using that d(9) [of x] by (cases "x = t") (auto simp: f)
    show "prio_ok (threads (upd_thread t f k) x)"
      if "x \<notin> X" "state_of (upd_thread t f k) x \<in> {RT_THREAD_READY, RT_THREAD_SUSPEND, RT_THREAD_RUNNING}" for x
      using that d(10) [of x] f(2) by (cases "x = t") (auto simp: f)
  qed
qed

lemma set_priority_eq:
  assumes "p < RT_THREAD_PRIORITY_MAX"
  shows "set_priority t p k = Some (upd_thread t (\<lambda>th. th\<lparr>current_priority := p, number_mask := push_bit p 1\<rparr>) k)"
  using assms by (simp add: set_priority_def mask_of_def)

lemma priority_roundtrip: "p < RT_THREAD_PRIORITY_MAX \<Longrightarrow> unat (of_nat p :: u8) = p"
  by (simp add: unat_of_nat)

lemma change_priority_spec:
  assumes kinv: "kinv b k" and lv: "live k t" and p: "p < RT_THREAD_PRIORITY_MAX"
  obtains k' where "rt_thread_control t (ChangePriority (of_nat p)) k = Some (RT_EOK, k')" "kinv b k'"
    "current_thread k' = current_thread k" "timers k' = timers k" "tmlists k' = tmlists k" "tick k' = tick k"
    "lock_nest k' = lock_nest k" "interrupt_nest k' = interrupt_nest k" "soft_busy k' = soft_busy k"
    "\<And>x. x \<noteq> t \<Longrightarrow> threads k' x = threads k x" "current_priority (threads k' t) = p" "th_error (threads k' t) = th_error (threads k t)"
    "event_set (threads k' t) = event_set (threads k t)" "event_info (threads k' t) = event_info (threads k t)"
    "live k' t" "state_of k' t = RT_THREAD_SUSPEND \<longleftrightarrow> state_of k t = RT_THREAD_SUSPEND"
    "state_of k t = RT_THREAD_RUNNING \<Longrightarrow> state_of k' t = RT_THREAD_RUNNING"
    "\<And>i. tlists k' (Waiting i) = tlists k (Waiting i)" "\<And>i. tlists k' (Senders i) = tlists k (Senders i)"
proof -
  note i = kinvD [OF kinv]
  note o = obj_invD [OF i(3) lv]
  define f :: "thread \<Rightarrow> thread" where "f = (\<lambda>th. th\<lparr>current_priority := p, number_mask := push_bit p 1\<rparr>)"
  have pf: "prio_ok (f th)" for th using p by (simp add: prio_ok_def f_def mask_of_def)
  have ok: "prio_ok (threads k t)" using sched_invD(10) [OF i(1), of t] lv by (simp add: live_def)
  note u = priority_roundtrip [OF p]
  have obj: "kinv b k'" if "sched_inv {} k'" "timers k' = timers k" "tmlists k' = tmlists k" "tick k' = tick k"
      "\<And>x. x \<noteq> t \<Longrightarrow> threads k' x = threads k x" "is_thread k' t" "stack_sound (threads k' t)"
      "state_of k' t = RT_THREAD_SUSPEND \<longleftrightarrow> state_of k t = RT_THREAD_SUSPEND" for k'
  proof -
    have tt: "is_thread k' x" if "is_thread k x" for x using that \<open>is_thread k' t\<close> \<open>\<And>x. x \<noteq> t \<Longrightarrow> threads k' x = threads k x\<close> [of x]
      by (cases "x = t") auto
    have st: "state_of k' x = RT_THREAD_SUSPEND" if "state_of k x = RT_THREAD_SUSPEND" for x
      using that \<open>state_of k' t = RT_THREAD_SUSPEND \<longleftrightarrow> _\<close> \<open>\<And>x. x \<noteq> t \<Longrightarrow> threads k' x = threads k x\<close> [of x] by (cases "x = t") auto
    have "timer_inv b k'"
      by (rule timer_inv_cong [OF i(2) that(2,3,4)]) (use timer_invD(7) [OF i(2)] tt st in blast)
    moreover have "obj_inv k'"
      unfolding obj_inv_def
    proof (intro allI impI)
      fix x assume x: "live k' x"
      show "is_thread k' x \<and> stack_sound (threads k' x) \<and> is_timer k' (ThreadTimer x) \<and> is_system (tm_type (timers k' (ThreadTimer x)))"
      proof (cases "x = t")
        case False
        with x that(5) [of x] have "live k x" by (simp add: live_def)
        from obj_invD [OF i(3) this] show ?thesis using that(5) [OF False] that(2) by simp
      qed (use that(2,6,7) o in simp)
    qed
    ultimately show ?thesis using that(1) by (simp add: kinv_def)
  qed
  show thesis
  proof (cases "state_of k t = RT_THREAD_READY")
    case False
    define k' where "k' = upd_thread t f k"
    have run: "rt_thread_control t (ChangePriority (of_nat p)) k = Some (RT_EOK, k')"
      using o(1) False by (simp only: rt_thread_control_def thread_cmd.case u set_priority_eq [OF p]) (simp add: k'_def f_def)
    have "sched_inv {} k'" unfolding k'_def by (rule upd_priority_inv [OF i(1) False _ pf]) (simp add: f_def)
    then have kv: "kinv b k'"
      by (rule obj) (use o in \<open>simp_all add: k'_def f_def stack_sound_def\<close>)
    show thesis
      by (rule that [OF run kv]) (use lv in \<open>simp_all add: k'_def f_def live_def\<close>)
  next
    case True
    from remove_spec [OF i(1) ok] obtain g where
      g: "rt_schedule_remove_thread t k = Some ((unlink t k)\<lparr>ready_group := g\<rparr>)"
      "sched_inv {t} ((unlink t k)\<lparr>ready_group := g\<rparr>)" by auto
    define k1 where "k1 = (unlink t k)\<lparr>ready_group := g\<rparr>"
    have i1: "sched_inv {t} (upd_thread t f k1)" using upd_exempt_inv [OF g(2)] by (simp add: k1_def)
    have pf1: "prio_ok (threads (upd_thread t f k1) t)" by (simp add: pf)
    obtain k2 where k2: "rt_schedule_insert_thread t (upd_thread t f k1) = Some k2" "sched_inv ({t} - {t}) k2"
      "sched_frame (upd_thread t f k1) k2" "current_thread k2 = current_thread (upd_thread t f k1)"
      "state_of k2 t = (if current_thread (upd_thread t f k1) = Some t then RT_THREAD_RUNNING else RT_THREAD_READY)"
      "\<And>x. x \<noteq> t \<Longrightarrow> threads k2 x = threads (upd_thread t f k1) x"
      "tlists k2 = (if current_thread (upd_thread t f k1) = Some t then tlists (upd_thread t f k1)
       else (tlists (upd_thread t f k1))(Ready (current_priority (threads (upd_thread t f k1) t)) := tlists (upd_thread t f k1) (Ready (current_priority (threads (upd_thread t f k1) t))) @ [t]))"
      by (rule insert_any_spec [OF i1 _ pf1]) (simp, blast)
    have run: "rt_thread_control t (ChangePriority (of_nat p)) k = Some (RT_EOK, k2)"
      using o(1) True k2(1) by (simp only: rt_thread_control_def thread_cmd.case u set_priority_eq [OF p] g(1)) (simp add: k1_def f_def)
    have w: "filter (\<lambda>x. x \<noteq> t) (tlists k (Waiting j)) = tlists k (Waiting j)" "filter (\<lambda>x. x \<noteq> t) (tlists k (Senders j)) = tlists k (Senders j)" for j
      using sched_invD(5,6) [OF i(1), of t j] True by (auto intro: filter_True)
    have ths: "threads k2 t = (f (threads k t))\<lparr>stat := stat (threads k2 t)\<rparr>"
    proof -
      have t1: "threads k1 = threads k" by (simp add: k1_def)
      have "\<forall>x. threads k2 x = (threads (upd_thread t f k1) x)\<lparr>stat := stat (threads k2 x)\<rparr>"
        using k2(3) unfolding sched_frame_def by blast
      then show ?thesis unfolding upd_thread_simps t1 by (metis fun_upd_same)
    qed
    have tf: "current_priority (threads k2 t) = p" "th_error (threads k2 t) = th_error (threads k t)"
      "event_set (threads k2 t) = event_set (threads k t)" "event_info (threads k2 t) = event_info (threads k t)"
      "th_type (threads k2 t) = th_type (threads k t)" "stack_sound (threads k2 t) = stack_sound (threads k t)"
      by (subst ths, simp add: f_def stack_sound_def)+
    have fr: "timers k2 = timers k" "tmlists k2 = tmlists k" "tick k2 = tick k" "lock_nest k2 = lock_nest k"
      "interrupt_nest k2 = interrupt_nest k" "soft_busy k2 = soft_busy k"
      using k2(3) by (simp_all add: sched_frame_def k1_def)
    have ox: "threads k2 x = threads k x" if "x \<noteq> t" for x using k2(6) [OF that] that by (simp add: k1_def)
    have ns: "state_of k2 t = RT_THREAD_SUSPEND \<longleftrightarrow> state_of k t = RT_THREAD_SUSPEND" using True by (simp add: k2(5))
    have kv: "kinv b k2" by (rule obj [OF _ fr(1-3) ox _ _ ns]) (use k2(2) tf o in simp_all)
    have "live k2 t" by (simp add: live_def k2(5))
    moreover have "tlists k2 (Waiting j) = tlists k (Waiting j)" "tlists k2 (Senders j) = tlists k (Senders j)" for j
      by (simp_all add: k2(7) k1_def w)
    ultimately show thesis
      by (intro that [OF run kv _ fr ox tf(1-4) _ ns]) (use k2(4) True in \<open>simp_all add: k1_def\<close>)
  qed
qed

end
