(* ===== verification/IpcBase.thy ===== *)
theory IpcBase
  imports Thread
begin

text \<open>
  What the IPC objects of \<^verbatim>\<open>rt-thread/src/ipc.c\<close> share: the suspend list of an object
  (\<open>_ipc_list_suspend\<close>, \<open>_ipc_list_resume\<close>, \<open>_ipc_list_resume_all\<close>) and the sequence in which a
  thread blocks on it with an optional time limit.

  An object is a record of its own; its suspend list is the kernel list \<open>Waiting i\<close>, and the list
  of the suspended senders of a mailbox or a message queue is \<open>Senders i\<close>. An operation takes the
  number \<open>i\<close>, the object and the kernel. The outcome of an operation that can block is \<open>Blocked\<close> when
  it has given the processor away, with what it does on its return as a function of its own.
\<close>

section \<open>Objects and outcomes\<close>

datatype 'a outcome = Done 'a | Blocked

abbreviation RT_IPC_FLAG_FIFO :: u8 where "RT_IPC_FLAG_FIFO \<equiv> 0"
abbreviation RT_IPC_FLAG_PRIO :: u8 where "RT_IPC_FLAG_PRIO \<equiv> 1"
abbreviation RT_UINT16_MAX :: nat where "RT_UINT16_MAX \<equiv> 65535"

abbreviation CLASS_SEMAPHORE :: u8 where "CLASS_SEMAPHORE \<equiv> 2"
abbreviation CLASS_MUTEX :: u8 where "CLASS_MUTEX \<equiv> 3"
abbreviation CLASS_EVENT :: u8 where "CLASS_EVENT \<equiv> 4"
abbreviation CLASS_MAILBOX :: u8 where "CLASS_MAILBOX \<equiv> 5"
abbreviation CLASS_MESSAGEQUEUE :: u8 where "CLASS_MESSAGEQUEUE \<equiv> 6"

text \<open>\<open>struct rt_ipc_object\<close>: the object header and the suspend list, which is \<open>Waiting i\<close>.\<close>

record ipc_object =
  ipc_type :: u8
  ipc_flag :: u8

text \<open>The commands of the control functions: \<open>RT_IPC_CMD_RESET\<close> with its argument, or another one.\<close>

datatype ipc_cmd = ResetCmd u32 | OtherIpcCmd

text \<open>\<open>_ipc_object_init\<close>\<close>

definition ipc_object_init :: "lref \<Rightarrow> kernel \<Rightarrow> kernel" where
  "ipc_object_init l k = k\<lparr>tlists := (tlists k)(l := [])\<rparr>"

text \<open>\<open>RT_DEBUG_NOT_IN_INTERRUPT\<close> and \<open>RT_DEBUG_IN_THREAD_CONTEXT\<close>.\<close>

definition not_in_interrupt :: "kernel \<Rightarrow> unit option" where
  "not_in_interrupt k = assert_that (rt_interrupt_get_nest k = 0)"

definition in_thread_context :: "kernel \<Rightarrow> unit option" where
  "in_thread_context k = do {
     _ \<leftarrow> assert_that (rt_thread_self k \<noteq> None);
     not_in_interrupt k
   }"

definition set_error :: "nat \<Rightarrow> int \<Rightarrow> kernel \<Rightarrow> kernel" where
  "set_error t e = upd_thread t (\<lambda>th. th\<lparr>th_error := e\<rparr>)"

section \<open>The suspend list\<close>

text \<open>The search of \<open>RT_IPC_FLAG_PRIO\<close>: before the first thread of a lower priority.\<close>

fun insert_prio :: "(nat \<Rightarrow> nat) \<Rightarrow> nat \<Rightarrow> nat list \<Rightarrow> nat list" where
  "insert_prio prio t [] = [t]"
| "insert_prio prio t (s # ss) = (if prio t < prio s then t # s # ss else s # insert_prio prio t ss)"

definition ipc_list_suspend :: "lref \<Rightarrow> nat \<Rightarrow> u8 \<Rightarrow> kernel \<Rightarrow> kernel option" where
  "ipc_list_suspend l t flag k = do {
     (_, k1) \<leftarrow> rt_thread_suspend t k;
     if flag = RT_IPC_FLAG_FIFO then Some (append_to l t k1)
     else if flag = RT_IPC_FLAG_PRIO
     then Some (k1\<lparr>tlists := (tlists k1)(l := insert_prio (\<lambda>x. current_priority (threads k1 x)) t (tlists k1 l))\<rparr>)
     else None
   }"

definition ipc_list_resume :: "lref \<Rightarrow> kernel \<Rightarrow> kernel option" where
  "ipc_list_resume l k = (case tlists k l of [] \<Rightarrow> None | t # _ \<Rightarrow> map_option snd (rt_thread_resume t k))"

partial_function (option) ipc_list_resume_all :: "lref \<Rightarrow> kernel \<Rightarrow> kernel option" where
  "ipc_list_resume_all l k =
    (case tlists k l of
       [] \<Rightarrow> Some k
     | t # _ \<Rightarrow> Option.bind (rt_thread_resume t (set_error t (- RT_ERROR) k)) (\<lambda>r. ipc_list_resume_all l (snd r)))"

text \<open>The thread is linked into the list, its timer is started when the waiting time is limited,
  and the processor is given away.\<close>

definition ipc_block :: "lref \<Rightarrow> nat \<Rightarrow> u8 \<Rightarrow> int \<Rightarrow> kernel \<Rightarrow> kernel option" where
  "ipc_block l t flag time k = do {
     k1 \<leftarrow> ipc_list_suspend l t flag k;
     k2 \<leftarrow> (if time > 0
           then do {
             (_, k') \<leftarrow> rt_timer_control (ThreadTimer t) (SetTime (word_of_int time)) k1;
             rt_timer_start (ThreadTimer t) k'
           }
           else Some k1);
     rt_schedule k2
   }"

text \<open>The last part of a release, send or receive: one waiting thread is woken.\<close>

definition wake_one :: "lref \<Rightarrow> kernel \<Rightarrow> kernel option" where
  "wake_one l k = (if tlists k l \<noteq> [] then Option.bind (ipc_list_resume l k) rt_schedule else Some k)"

text \<open>The remaining time of a sender or receiver that was woken but has to wait again.\<close>

definition time_left :: "int \<Rightarrow> u32 \<Rightarrow> kernel \<Rightarrow> int" where
  "time_left timeout tick_delta k =
    (if timeout > 0
     then let left = sint (word_of_int timeout - (rt_tick_get k - tick_delta) :: u32)
          in if left < 0 then 0 else left
     else timeout)"

section \<open>The order of the waiting threads\<close>

definition enqueue :: "u8 \<Rightarrow> (nat \<Rightarrow> nat) \<Rightarrow> nat \<Rightarrow> nat list \<Rightarrow> nat list" where
  "enqueue flag prio t xs = (if flag = RT_IPC_FLAG_FIFO then xs @ [t] else insert_prio prio t xs)"

lemma insert_prio_eq:
  "insert_prio p t xs = takeWhile (\<lambda>s. p s \<le> p t) xs @ t # dropWhile (\<lambda>s. p s \<le> p t) xs"
  by (induction xs) auto

lemma mset_insert_prio: "mset (insert_prio p t xs) = add_mset t (mset xs)"
  by (induction xs) auto

lemma set_insert_prio [simp]: "set (insert_prio p t xs) = insert t (set xs)"
  by (induction xs) auto

lemma distinct_insert_prio [simp]: "distinct (insert_prio p t xs) \<longleftrightarrow> t \<notin> set xs \<and> distinct xs"
  by (induction xs) auto

lemma sorted_insert_prio: "sorted (map p xs) \<Longrightarrow> sorted (map p (insert_prio p t xs))"
  unfolding insert_prio_eq by (rule sorted_insert)

lemma enqueue_simps [simp]:
  "set (enqueue fl p t xs) = insert t (set xs)" "distinct (enqueue fl p t xs) \<longleftrightarrow> t \<notin> set xs \<and> distinct xs"
  "enqueue fl p t xs \<noteq> []"
  by (auto simp: enqueue_def simp flip: set_empty)

section \<open>Blocking and waking keep the invariant\<close>

definition wait_list :: "lref \<Rightarrow> bool" where
  "wait_list l \<longleftrightarrow> (\<exists>i. l = Waiting i \<or> l = Senders i)"

lemma wait_list_simps [simp]: "wait_list (Waiting i)" "wait_list (Senders i)" "\<not> wait_list (Ready p)"
  by (simp_all add: wait_list_def)

lemma waiting_suspended: "kinv b k \<Longrightarrow> wait_list l \<Longrightarrow> t \<in> set (tlists k l) \<Longrightarrow> state_of k t = RT_THREAD_SUSPEND"
  using sched_invD(5,6) [OF kinvD(1)] by (auto simp: wait_list_def)

lemma link_inv:
  assumes inv: "sched_inv {} k" and un: "\<not> linked t k" and st: "state_of k t = RT_THREAD_SUSPEND" and wl: "wait_list l"
    and xs: "set xs = insert t (set (tlists k l))" "distinct xs"
  shows "sched_inv {} (k\<lparr>tlists := (tlists k)(l := xs)\<rparr>)"
proof -
  note d = sched_invD [OF inv]
  have ul: "t \<notin> set (tlists k l')" for l' using un by (simp add: linked_def)
  have nr: "l \<noteq> Ready p" for p using wl by auto
  show ?thesis
    unfolding sched_inv_def
  proof (intro conjI allI impI ballI)
    show "group_ok (k\<lparr>tlists := (tlists k)(l := xs)\<rparr>)" using d(1) nr by (auto simp: group_ok_def)
    show "distinct (tlists (k\<lparr>tlists := (tlists k)(l := xs)\<rparr>) l')" for l' using d(2) xs(2) by simp
    show "l1 = l2" if "x \<in> set (tlists (k\<lparr>tlists := (tlists k)(l := xs)\<rparr>) l1)" "x \<in> set (tlists (k\<lparr>tlists := (tlists k)(l := xs)\<rparr>) l2)" for l1 l2 x
      using that d(3) [of x l1 l2] d(3) [of x l l2] d(3) [of x l1 l] ul xs(1) by (auto split: if_splits)
    show "p = current_priority (threads (k\<lparr>tlists := (tlists k)(l := xs)\<rparr>) x)" "state_of (k\<lparr>tlists := (tlists k)(l := xs)\<rparr>) x = RT_THREAD_READY"
      if "x \<in> set (tlists (k\<lparr>tlists := (tlists k)(l := xs)\<rparr>) (Ready p))" for p x
      using that d(4) [of x p] nr [of p] by auto
    show "state_of (k\<lparr>tlists := (tlists k)(l := xs)\<rparr>) x = RT_THREAD_SUSPEND"
      if "x \<in> set (tlists (k\<lparr>tlists := (tlists k)(l := xs)\<rparr>) (Waiting i)) \<union> set (tlists (k\<lparr>tlists := (tlists k)(l := xs)\<rparr>) (Senders i))" for i x
      using that d(5,6) [of x i] xs(1) st by (auto split: if_splits)
    show "x \<in> set (tlists (k\<lparr>tlists := (tlists k)(l := xs)\<rparr>) (Ready (current_priority (threads (k\<lparr>tlists := (tlists k)(l := xs)\<rparr>) x))))"
      if "x \<notin> {}" "state_of (k\<lparr>tlists := (tlists k)(l := xs)\<rparr>) x = RT_THREAD_READY" for x
      using that d(8) [of x] nr [of "current_priority (threads k x)"] by auto
    show "current_thread (k\<lparr>tlists := (tlists k)(l := xs)\<rparr>) = Some x"
      if "x \<notin> {}" "state_of (k\<lparr>tlists := (tlists k)(l := xs)\<rparr>) x = RT_THREAD_RUNNING" for x
      using that d(9) [of x] by simp
    show "prio_ok (threads (k\<lparr>tlists := (tlists k)(l := xs)\<rparr>) x)"
      if "x \<notin> {}" "state_of (k\<lparr>tlists := (tlists k)(l := xs)\<rparr>) x \<in> {RT_THREAD_READY, RT_THREAD_SUSPEND, RT_THREAD_RUNNING}" for x
      using that d(10) [of x] by simp
  qed simp_all
qed

lemma kinv_tlists: "kinv b k \<Longrightarrow> sched_inv {} (k\<lparr>tlists := f\<rparr>) \<Longrightarrow> kinv b (k\<lparr>tlists := f\<rparr>)"
  unfolding kinv_def timer_inv_def obj_inv_def live_def flagged_def by simp

lemma set_error_kinv: "kinv b k \<Longrightarrow> kinv b (set_error t e k)"
  unfolding set_error_def by (rule upd_thread_kinv) (simp_all add: stack_sound_def)

lemma set_error_simps [simp]:
  "timers (set_error t e k) = timers k" "tlists (set_error t e k) = tlists k" "tmlists (set_error t e k) = tmlists k"
  "current_thread (set_error t e k) = current_thread k" "tick (set_error t e k) = tick k" "lock_nest (set_error t e k) = lock_nest k"
  "interrupt_nest (set_error t e k) = interrupt_nest k" "state_of (set_error t e k) x = state_of k x"
  "current_priority (threads (set_error t e k) x) = current_priority (threads k x)"
  "event_set (threads (set_error t e k) x) = event_set (threads k x)" "event_info (threads (set_error t e k) x) = event_info (threads k x)"
  "th_error (threads (set_error t e k) x) = (if x = t then e else th_error (threads k x))"
  "th_type (threads (set_error t e k) x) = th_type (threads k x)" "live (set_error t e k) x = live k x"
  "soft_busy (set_error t e k) = soft_busy k"
  by (simp_all add: set_error_def live_def)

text \<open>The running thread blocks, up to the place that it gets in the list: \<open>xs\<close> is the list with the thread in it.\<close>

definition block_on :: "lref \<Rightarrow> nat \<Rightarrow> nat list \<Rightarrow> int \<Rightarrow> kernel \<Rightarrow> kernel option" where
  "block_on l t xs time k = do {
     (_, k1) \<leftarrow> rt_thread_suspend t k;
     k2 \<leftarrow> (if time > 0
           then do {
             (_, k') \<leftarrow> rt_timer_control (ThreadTimer t) (SetTime (word_of_int time)) (k1\<lparr>tlists := (tlists k1)(l := xs)\<rparr>);
             rt_timer_start (ThreadTimer t) k'
           }
           else Some (k1\<lparr>tlists := (tlists k1)(l := xs)\<rparr>));
     rt_schedule k2
   }"

lemma suspend_running_spec:
  assumes kinv: "kinv b k" and st: "state_of k t = RT_THREAD_RUNNING"
  obtains k1 where "rt_thread_suspend t k = Some (RT_EOK, k1)" "kinv b k1" "kframe k k1"
    "current_thread k1 = current_thread k" "state_of k1 t = RT_THREAD_SUSPEND" "\<not> linked t k1" "\<And>x. x \<noteq> t \<Longrightarrow> threads k1 x = threads k x"
    "tlists k1 = tlists k" "tmlists k1 HardList = tmlists k HardList" "\<And>x. x \<noteq> ThreadTimer t \<Longrightarrow> timers k1 x = timers k x"
proof -
  have st': "state_of k t = RT_THREAD_READY \<or> state_of k t = RT_THREAD_RUNNING" using st by simp
  obtain k1 where k1: "rt_thread_suspend t k = Some (RT_EOK, k1)" "kinv b k1" "kframe k k1"
    "current_thread k1 = current_thread k" "state_of k1 t = RT_THREAD_SUSPEND" "\<not> linked t k1" "\<And>x. x \<noteq> t \<Longrightarrow> threads k1 x = threads k x"
    "tlists k1 = tlists (unlink t k)" "tmlists k1 HardList = tmlists k HardList"
    "\<And>x. x \<noteq> ThreadTimer t \<Longrightarrow> timers k1 x = timers k x"
    by (rule thread_suspend_spec [OF kinv st']) metis
  have "tlists k1 = tlists k" using k1(8) unlink_unlinked [OF running_unlinked [OF kinvD(1) [OF kinv] st]] by simp
  with k1 show thesis by (intro that [of k1]) simp_all
qed

lemma ipc_block_on:
  assumes kinv: "kinv b k" and st: "state_of k t = RT_THREAD_RUNNING" and fl: "flag \<in> {RT_IPC_FLAG_FIFO, RT_IPC_FLAG_PRIO}"
  shows "ipc_block l t flag time k = block_on l t (enqueue flag (\<lambda>x. current_priority (threads k x)) t (tlists k l)) time k"
proof -
  obtain k1 where k1: "rt_thread_suspend t k = Some (RT_EOK, k1)" "kframe k k1" "tlists k1 = tlists k"
    by (rule suspend_running_spec [OF kinv st]) blast
  have "(\<lambda>x. current_priority (threads k1 x)) = (\<lambda>x. current_priority (threads k x))" using kframe_threads(1) [OF k1(2)] by simp
  then show ?thesis
    using fl k1(1) by (auto simp: ipc_block_def ipc_list_suspend_def block_on_def enqueue_def append_to_def k1(3))
qed

text \<open>Up to the call of the scheduler, and with it.\<close>

lemma block_on_start:
  assumes kinv: "kinv b k" and b: "b \<le> 1" and cur: "current_thread k = Some t" and st: "state_of k t = RT_THREAD_RUNNING"
    and wl: "wait_list l" and xs: "set xs = insert t (set (tlists k l))" "distinct xs \<or> t \<in> set (tlists k l)" and time: "time < 2 ^ 31 - 1"
  obtains k2 where "block_on l t xs time k = rt_schedule k2" "kinv b k2" "kframe k k2" "current_thread k2 = Some t"
    "state_of k2 t = RT_THREAD_SUSPEND" "\<And>x. x \<noteq> t \<Longrightarrow> threads k2 x = threads k x" "tlists k2 = (tlists k)(l := xs)"
    "\<And>x. x \<noteq> ThreadTimer t \<Longrightarrow> timers k2 x = timers k x"
    "set (tmlists k2 HardList) = (if time > 0 then insert (ThreadTimer t) (set (tmlists k HardList)) else set (tmlists k HardList))"
    "time > 0 \<Longrightarrow> timeout_tick (timers k2 (ThreadTimer t)) = tick k + word_of_int time"
proof -
  obtain k0 where k0: "rt_thread_suspend t k = Some (RT_EOK, k0)" "kinv b k0" "kframe k k0"
    "current_thread k0 = current_thread k" "state_of k0 t = RT_THREAD_SUSPEND" "\<not> linked t k0" "\<And>x. x \<noteq> t \<Longrightarrow> threads k0 x = threads k x"
    "tlists k0 = tlists k" "tmlists k0 HardList = tmlists k HardList" "\<And>x. x \<noteq> ThreadTimer t \<Longrightarrow> timers k0 x = timers k x"
    by (rule suspend_running_spec [OF kinv st]) blast
  define k1 where "k1 = k0\<lparr>tlists := (tlists k0)(l := xs)\<rparr>"
  have "t \<notin> set (tlists k l)" using k0(6) by (simp add: linked_def k0(8))
  then have k1: "kinv b k1"
    unfolding k1_def by (intro kinv_tlists [OF k0(2) link_inv [OF kinvD(1) [OF k0(2)] k0(6,5) wl]]) (use xs in \<open>simp_all add: k0(8)\<close>)
  have s1: "kframe k k1" "current_thread k1 = Some t" "threads k1 = threads k0" "tlists k1 = (tlists k)(l := xs)"
    "tmlists k1 = tmlists k0" "timers k1 = timers k0" "tick k1 = tick k"
    using k0(3) cur by (simp_all add: k1_def k0(4,8) kframe_def)
  have st1: "state_of k1 t = RT_THREAD_SUSPEND" using k0(5) by (simp add: s1)
  show thesis
  proof (cases "time > 0")
    case True
    then have n: "(word_of_int time :: u32) < HALF_TICK" using time by (simp add: word_less_def uint_word_of_int)
    obtain ka kb where kb: "rt_timer_control (ThreadTimer t) (SetTime (word_of_int time)) k1 = Some (None, ka)" "rt_timer_start (ThreadTimer t) ka = Some kb"
      "kinv b kb" "kframe k1 kb" "threads kb = threads k1" "tlists kb = tlists k1" "current_thread kb = current_thread k1"
      "timeout_tick (timers kb (ThreadTimer t)) = tick k1 + word_of_int time" "\<And>x. x \<noteq> ThreadTimer t \<Longrightarrow> timers kb x = timers k1 x"
      "set (tmlists kb HardList) = insert (ThreadTimer t) (set (tmlists k1 HardList))"
      by (rule thread_timer_start_spec [OF k1 b st1 n]) metis
    have "block_on l t xs time k = rt_schedule kb" using True by (simp add: block_on_def k0(1) k1_def [symmetric] kb(1,2))
    then show thesis
      using True kframe_trans [OF s1(1) kb(4)] by (intro that [of kb]) (simp_all add: kb s1 k0)
  next
    case False
    then have "block_on l t xs time k = rt_schedule k1" by (simp add: block_on_def k0(1) k1_def)
    then show thesis using False k1 by (intro that [of k1]) (simp_all add: s1 k0)
  qed
qed

lemma block_on_spec:
  assumes kinv: "kinv b k" and b: "b \<le> 1" and cur: "current_thread k = Some t" and st: "state_of k t = RT_THREAD_RUNNING"
    and wl: "wait_list l" and xs: "set xs = insert t (set (tlists k l))" "distinct xs \<or> t \<in> set (tlists k l)" and time: "time < 2 ^ 31 - 1"
  obtains k' where "block_on l t xs time k = Some k'" "kinv b k'" "kframe k k'" "current_thread k' \<noteq> None"
    "\<And>x. live k' x = live k x" "\<And>x. state_of k' x = RT_THREAD_SUSPEND \<longleftrightarrow> x = t \<or> state_of k x = RT_THREAD_SUSPEND"
    "\<And>l'. wait_list l' \<Longrightarrow> tlists k' l' = (if l' = l then xs else tlists k l')"
    "\<And>x. x \<noteq> ThreadTimer t \<Longrightarrow> timers k' x = timers k x"
    "set (tmlists k' HardList) = (if time > 0 then insert (ThreadTimer t) (set (tmlists k HardList)) else set (tmlists k HardList))"
    "time > 0 \<Longrightarrow> timeout_tick (timers k' (ThreadTimer t)) = tick k + word_of_int time" "resched {t} k k'"
proof -
  have lv: "live k t" using st by (simp add: live_def)
  obtain k2 where k2: "block_on l t xs time k = rt_schedule k2" "kinv b k2" "kframe k k2" "current_thread k2 = Some t"
    "state_of k2 t = RT_THREAD_SUSPEND" "\<And>x. x \<noteq> t \<Longrightarrow> threads k2 x = threads k x" "tlists k2 = (tlists k)(l := xs)"
    "\<And>x. x \<noteq> ThreadTimer t \<Longrightarrow> timers k2 x = timers k x"
    "set (tmlists k2 HardList) = (if time > 0 then insert (ThreadTimer t) (set (tmlists k HardList)) else set (tmlists k HardList))"
    "time > 0 \<Longrightarrow> timeout_tick (timers k2 (ThreadTimer t)) = tick k + word_of_int time"
    by (rule block_on_start [OF assms]) blast
  obtain k3 where k3: "rt_schedule k2 = Some k3" "kinv b k3" "kframe k2 k3" "current_thread k3 \<noteq> None"
    "timers k3 = timers k2" "tmlists k3 = tmlists k2" "\<And>x. live k3 x = live k2 x"
    "\<And>x. state_of k3 x = RT_THREAD_SUSPEND \<longleftrightarrow> state_of k2 x = RT_THREAD_SUSPEND"
    "\<And>i. tlists k3 (Waiting i) = tlists k2 (Waiting i)" "\<And>i. tlists k3 (Senders i) = tlists k2 (Senders i)"
    by (rule schedule_kinv [OF k2(2)]) (use k2(4) in simp, metis)
  have run: "block_on l t xs time k = Some k3" by (simp only: k2(1) k3(1))
  have lx: "live k3 x = live k x" for x
    unfolding k3(7) using k2(5,6) lv by (cases "x = t") (simp_all add: live_def)
  have sx: "state_of k3 x = RT_THREAD_SUSPEND \<longleftrightarrow> x = t \<or> state_of k x = RT_THREAD_SUSPEND" for x
    unfolding k3(8) using k2(5,6) by (cases "x = t") simp_all
  have wx: "tlists k3 l' = tlists k2 l'" if "wait_list l'" for l' using that k3(9,10) by (auto simp: wait_list_def)
  have rs: "resched {t} k k3"
    by (rule reschedI [OF k3(1) k2(2)]) (use k2(3,4,6) cur in \<open>simp_all add: kframe_def awake_def\<close>)
  show thesis
    by (rule that [OF run k3(2) kframe_trans [OF k2(3) k3(3)] k3(4) lx sx]) (use rs in \<open>simp_all add: wx k2 k3(5,6)\<close>)
qed

text \<open>A waiting thread is woken.\<close>

lemma resume_waiting_spec:
  assumes kinv: "kinv b k" and wl: "wait_list l" and t: "t \<in> set (tlists k l)"
  obtains k' where "rt_thread_resume t k = Some (RT_EOK, k')" "kinv b k'" "kframe k k'" "current_thread k' = current_thread k"
    "state_of k' t \<in> {RT_THREAD_READY, RT_THREAD_RUNNING}" "\<And>x. x \<noteq> t \<Longrightarrow> threads k' x = threads k x"
    "tlists k' l = filter (\<lambda>x. x \<noteq> t) (tlists k l)" "\<And>l'. wait_list l' \<Longrightarrow> l' \<noteq> l \<Longrightarrow> tlists k' l' = tlists k l'"
    "tmlists k' HardList = filter (\<lambda>x. x \<noteq> ThreadTimer t) (tmlists k HardList)"
    "\<And>x. x \<noteq> ThreadTimer t \<Longrightarrow> timers k' x = timers k x" "\<And>x. live k' x = live k x"
proof -
  have st: "state_of k t = RT_THREAD_SUSPEND" using waiting_suspended [OF kinv wl t] .
  then have lv: "live k t" by (simp add: live_def)
  obtain k' where k': "rt_thread_resume t k = Some (RT_EOK, k')" "kinv b k'" "kframe k k'"
    "current_thread k' = current_thread k" "switches k' = switches k"
    "state_of k' t = (if current_thread k = Some t then RT_THREAD_RUNNING else RT_THREAD_READY)"
    "\<And>x. x \<noteq> t \<Longrightarrow> threads k' x = threads k x"
    "tlists k' = (if current_thread k = Some t then tlists (unlink t k)
       else (tlists (unlink t k))(Ready (current_priority (threads k t)) := tlists k (Ready (current_priority (threads k t))) @ [t]))"
    "tmlists k' HardList = filter (\<lambda>x. x \<noteq> ThreadTimer t) (tmlists k HardList)"
    "tmlists k' SoftList = tmlists k SoftList"
    "\<And>x. x \<noteq> ThreadTimer t \<Longrightarrow> timers k' x = timers k x"
    by (rule thread_resume_spec [OF kinv st]) iprover
  note d = sched_invD [OF kinvD(1) [OF kinv]]
  have out: "t \<notin> set (tlists k l')" if "l' \<noteq> l" for l' using d(3) [of t l' l] t that by auto
  have f: "tlists k' l' = filter (\<lambda>x. x \<noteq> t) (tlists k l')" if "wait_list l'" for l'
  proof -
    have "l' \<noteq> Ready p" for p using that by auto
    then show ?thesis by (simp add: k'(8))
  qed
  have w: "tlists k' l' = tlists k l'" if "wait_list l'" "l' \<noteq> l" for l'
    unfolding f [OF that(1)] using out [OF that(2)] by (auto intro: filter_True)
  have s': "state_of k' t \<in> {RT_THREAD_READY, RT_THREAD_RUNNING}" by (simp add: k'(6))
  have lx: "live k' x = live k x" for x
    using s' lv k'(7) [of x] by (cases "x = t") (auto simp: live_def)
  show thesis by (rule that [OF k'(1-4) s' k'(7) f [OF wl] w k'(9,11) lx])
qed

lemma resume_list_spec:
  assumes kinv: "kinv b k" and wl: "wait_list l" and l: "tlists k l = t # ts"
  obtains k' where "ipc_list_resume l k = Some k'" "kinv b k'" "kframe k k'" "current_thread k' = current_thread k"
    "state_of k' t \<in> {RT_THREAD_READY, RT_THREAD_RUNNING}" "\<And>x. x \<noteq> t \<Longrightarrow> threads k' x = threads k x"
    "\<And>l'. wait_list l' \<Longrightarrow> tlists k' l' = (if l' = l then ts else tlists k l')"
    "tmlists k' HardList = filter (\<lambda>x. x \<noteq> ThreadTimer t) (tmlists k HardList)"
    "\<And>x. x \<noteq> ThreadTimer t \<Longrightarrow> timers k' x = timers k x" "\<And>x. live k' x = live k x"
proof -
  have t: "t \<in> set (tlists k l)" by (simp add: l)
  obtain k' where k': "rt_thread_resume t k = Some (RT_EOK, k')" "kinv b k'" "kframe k k'" "current_thread k' = current_thread k"
    "state_of k' t \<in> {RT_THREAD_READY, RT_THREAD_RUNNING}" "\<And>x. x \<noteq> t \<Longrightarrow> threads k' x = threads k x"
    "tlists k' l = filter (\<lambda>x. x \<noteq> t) (tlists k l)" "\<And>l'. wait_list l' \<Longrightarrow> l' \<noteq> l \<Longrightarrow> tlists k' l' = tlists k l'"
    "tmlists k' HardList = filter (\<lambda>x. x \<noteq> ThreadTimer t) (tmlists k HardList)"
    "\<And>x. x \<noteq> ThreadTimer t \<Longrightarrow> timers k' x = timers k x" "\<And>x. live k' x = live k x"
    by (rule resume_waiting_spec [OF kinv wl t]) blast
  have "t \<notin> set ts" using sched_invD(2) [OF kinvD(1) [OF kinv], of l] l by simp
  then have "filter (\<lambda>x. x \<noteq> t) (tlists k l) = ts" by (auto simp: l intro: filter_True)
  then have w: "tlists k' l' = (if l' = l then ts else tlists k l')" if "wait_list l'" for l' using k'(7,8) that by simp
  have run: "ipc_list_resume l k = Some k'" by (simp add: ipc_list_resume_def l k'(1))
  show thesis by (rule that [OF run k'(2-6) w k'(9-11)])
qed

section \<open>What an operation leaves alone\<close>

text \<open>An operation on the lists \<open>L\<close> by the threads \<open>T\<close>: the clock, the locks, the other wait lists,
  the user timers and what other threads wait for stay as they are, and no thread starts or ends.\<close>

definition ipc_frame :: "lref set \<Rightarrow> nat set \<Rightarrow> kernel \<Rightarrow> kernel \<Rightarrow> bool" where
  "ipc_frame L T k k' \<longleftrightarrow> tick k' = tick k \<and> lock_nest k' = lock_nest k \<and> interrupt_nest k' = interrupt_nest k \<and>
     soft_busy k' = soft_busy k \<and> (\<forall>x. live k' x = live k x) \<and>
     (\<forall>l. wait_list l \<longrightarrow> l \<notin> L \<longrightarrow> tlists k' l = tlists k l) \<and>
     (\<forall>x. x \<notin> T \<longrightarrow> event_set (threads k' x) = event_set (threads k x) \<and> event_info (threads k' x) = event_info (threads k x)) \<and>
     (\<forall>n. timers k' (UserTimer n) = timers k (UserTimer n)) \<and>
     set (tmlists k' HardList) \<subseteq> set (tmlists k HardList) \<union> range ThreadTimer"

lemma ipc_frame_refl [simp, intro]: "ipc_frame L T k k"
  by (auto simp: ipc_frame_def)

lemma ipc_frame_trans: "ipc_frame L T k k1 \<Longrightarrow> ipc_frame L T k1 k2 \<Longrightarrow> ipc_frame L T k k2"
  unfolding ipc_frame_def by (elim conjE, intro conjI) (simp_all, blast)

lemma ipc_frame_mono: "ipc_frame L T k k' \<Longrightarrow> L \<subseteq> L' \<Longrightarrow> T \<subseteq> T' \<Longrightarrow> ipc_frame L' T' k k'"
  unfolding ipc_frame_def by blast

lemma ipc_frameD:
  assumes "ipc_frame L T k k'"
  shows "tick k' = tick k" "lock_nest k' = lock_nest k" "interrupt_nest k' = interrupt_nest k" "live k' x = live k x"
    "wait_list l \<Longrightarrow> l \<notin> L \<Longrightarrow> tlists k' l = tlists k l"
    "x \<notin> T \<Longrightarrow> event_set (threads k' x) = event_set (threads k x)"
    "x \<notin> T \<Longrightarrow> event_info (threads k' x) = event_info (threads k x)"
    "only_thread_timers k \<Longrightarrow> only_thread_timers k'"
  using assms unfolding ipc_frame_def only_thread_timers_def by blast+

lemma ipc_frameI:
  assumes "kframe k k'" "\<And>x. live k' x = live k x" "\<And>l. wait_list l \<Longrightarrow> l \<notin> L \<Longrightarrow> tlists k' l = tlists k l"
    "\<And>n. timers k' (UserTimer n) = timers k (UserTimer n)" "set (tmlists k' HardList) \<subseteq> set (tmlists k HardList) \<union> range ThreadTimer"
  shows "ipc_frame L T k k'"
  using assms(2-) kframe_threads(10,11) [OF assms(1)] assms(1) unfolding ipc_frame_def kframe_def by blast

lemma set_error_frame [simp]: "ipc_frame L T k (set_error t e k)"
  by (auto simp: ipc_frame_def)

lemma schedule_frame:
  assumes kinv: "kinv b k" and cur: "current_thread k \<noteq> None"
  obtains k' where "rt_schedule k = Some k'" "kinv b k'" "kframe k k'" "ipc_frame {} {} k k'" "current_thread k' \<noteq> None"
    "timers k' = timers k" "tmlists k' = tmlists k" "\<And>l. wait_list l \<Longrightarrow> tlists k' l = tlists k l"
    "\<And>x. state_of k' x = RT_THREAD_SUSPEND \<longleftrightarrow> state_of k x = RT_THREAD_SUSPEND"
proof -
  obtain k' where k': "rt_schedule k = Some k'" "kinv b k'" "kframe k k'" "current_thread k' \<noteq> None"
    "timers k' = timers k" "tmlists k' = tmlists k" "\<And>x. live k' x = live k x"
    "\<And>x. state_of k' x = RT_THREAD_SUSPEND \<longleftrightarrow> state_of k x = RT_THREAD_SUSPEND"
    "\<And>i. tlists k' (Waiting i) = tlists k (Waiting i)" "\<And>i. tlists k' (Senders i) = tlists k (Senders i)"
    by (rule schedule_kinv [OF kinv cur]) blast
  have w: "tlists k' l = tlists k l" if "wait_list l" for l using that k'(9,10) by (auto simp: wait_list_def)
  have "ipc_frame {} {} k k'" by (rule ipc_frameI [OF k'(3,7) w]) (auto simp: k'(5,6))
  then show thesis by (rule that [OF k'(1-3) _ k'(4-6) w k'(8)])
qed

text \<open>The first waiting thread is woken and the scheduler runs.\<close>

lemma wake_one_spec:
  assumes kinv: "kinv b k" and cur: "current_thread k \<noteq> None" and wl: "wait_list l"
  obtains k' where "wake_one l k = Some k'" "kinv b k'" "ipc_frame {l} {} k k'" "current_thread k' \<noteq> None"
    "tlists k' l = tl (tlists k l)" "\<And>x. th_error (threads k' x) = th_error (threads k x)"
    "\<And>x. current_priority (threads k' x) = current_priority (threads k x)"
    "\<And>x. state_of k' x = RT_THREAD_SUSPEND \<longleftrightarrow> state_of k x = RT_THREAD_SUSPEND \<and> x \<notin> set (take 1 (tlists k l))"
proof (cases "tlists k l")
  case Nil
  then show thesis using kinv cur by (intro that [of k]) (auto simp: wake_one_def)
next
  case (Cons t ts)
  obtain k1 where k1: "ipc_list_resume l k = Some k1" "kinv b k1" "kframe k k1" "current_thread k1 = current_thread k"
    "state_of k1 t \<in> {RT_THREAD_READY, RT_THREAD_RUNNING}" "\<And>x. x \<noteq> t \<Longrightarrow> threads k1 x = threads k x"
    "\<And>l'. wait_list l' \<Longrightarrow> tlists k1 l' = (if l' = l then ts else tlists k l')"
    "tmlists k1 HardList = filter (\<lambda>x. x \<noteq> ThreadTimer t) (tmlists k HardList)"
    "\<And>x. x \<noteq> ThreadTimer t \<Longrightarrow> timers k1 x = timers k x" "\<And>x. live k1 x = live k x"
    by (rule resume_list_spec [OF kinv wl Cons]) blast
  obtain k2 where k2: "rt_schedule k1 = Some k2" "kinv b k2" "kframe k1 k2" "ipc_frame {} {} k1 k2" "current_thread k2 \<noteq> None"
    "\<And>l. wait_list l \<Longrightarrow> tlists k2 l = tlists k1 l" "\<And>x. state_of k2 x = RT_THREAD_SUSPEND \<longleftrightarrow> state_of k1 x = RT_THREAD_SUSPEND"
    by (rule schedule_frame [OF k1(2)]) (use cur k1(4) in simp, blast)
  have f1: "ipc_frame {l} {} k k1"
    by (rule ipc_frameI [OF k1(3,10)]) (auto simp: k1(7,8,9))
  have f: "ipc_frame {l} {} k k2" by (rule ipc_frame_trans [OF f1 ipc_frame_mono [OF k2(4)]]) auto
  have run: "wake_one l k = Some k2" using k1(1) k2(1) Cons by (simp add: wake_one_def)
  have e: "th_error (threads k2 x) = th_error (threads k x)" "current_priority (threads k2 x) = current_priority (threads k x)" for x
    using kframe_threads(1,3) [OF k1(3)] kframe_threads(1,3) [OF k2(3)] by simp_all
  have s: "state_of k2 x = RT_THREAD_SUSPEND \<longleftrightarrow> state_of k x = RT_THREAD_SUSPEND \<and> x \<notin> set (take 1 (tlists k l))" for x
    unfolding k2(7) using k1(5) k1(6) [of x] by (cases "x = t") (auto simp: Cons)
  have l2: "tlists k2 l = tl (tlists k l)" by (simp add: k2(6) k1(7) wl Cons)
  show thesis by (rule that [OF run k2(2) f k2(5) l2 e s])
qed

text \<open>The running thread blocks on a list after its fields have been set.\<close>

lemma block_on_frame:
  assumes kinv: "kinv b k" and b: "b \<le> 1" and cur: "current_thread k = Some t" and st: "state_of k t = RT_THREAD_RUNNING"
    and wl: "wait_list l" and xs: "set xs = insert t (set (tlists k l))" "distinct xs \<or> t \<in> set (tlists k l)" and time: "time < 2 ^ 31 - 1"
  obtains k' where "block_on l t xs time k = Some k'" "kinv b k'" "ipc_frame {l} {} k k'" "current_thread k' \<noteq> None"
    "tlists k' l = xs" "state_of k' t = RT_THREAD_SUSPEND" "\<And>x. th_error (threads k' x) = th_error (threads k x)"
    "\<And>x. current_priority (threads k' x) = current_priority (threads k x)"
    "time > 0 \<Longrightarrow> ThreadTimer t \<in> set (tmlists k' HardList) \<and> timeout_tick (timers k' (ThreadTimer t)) = tick k + word_of_int time"
    "\<And>x. event_set (threads k' x) = event_set (threads k x)" "\<And>x. event_info (threads k' x) = event_info (threads k x)"
    "resched {t} k k'"
proof -
  obtain k' where k': "block_on l t xs time k = Some k'" "kinv b k'" "kframe k k'" "current_thread k' \<noteq> None"
    "\<And>x. live k' x = live k x" "\<And>x. state_of k' x = RT_THREAD_SUSPEND \<longleftrightarrow> x = t \<or> state_of k x = RT_THREAD_SUSPEND"
    "\<And>l'. wait_list l' \<Longrightarrow> tlists k' l' = (if l' = l then xs else tlists k l')"
    "\<And>x. x \<noteq> ThreadTimer t \<Longrightarrow> timers k' x = timers k x"
    "set (tmlists k' HardList) = (if time > 0 then insert (ThreadTimer t) (set (tmlists k HardList)) else set (tmlists k HardList))"
    "time > 0 \<Longrightarrow> timeout_tick (timers k' (ThreadTimer t)) = tick k + word_of_int time" "resched {t} k k'"
    by (rule block_on_spec [OF assms]) blast
  have f: "ipc_frame {l} {} k k'"
    by (rule ipc_frameI [OF k'(3,5)]) (auto simp: k'(7,8,9))
  show thesis
    by (rule that [OF k'(1,2) f k'(4)]) (use k'(11) in \<open>simp_all add: k'(6,7,9,10) wl kframe_threads(1,3,10,11) [OF k'(3)]\<close>)
qed

lemma block_frame:
  assumes kinv: "kinv b k" and b: "b \<le> 1" and cur: "current_thread k = Some t" and st: "state_of k t = RT_THREAD_RUNNING"
    and wl: "wait_list l" and fl: "flag \<in> {RT_IPC_FLAG_FIFO, RT_IPC_FLAG_PRIO}" and time: "time < 2 ^ 31 - 1"
  obtains k' where "ipc_block l t flag time k = Some k'" "kinv b k'" "ipc_frame {l} {} k k'" "current_thread k' \<noteq> None"
    "tlists k' l = enqueue flag (\<lambda>x. current_priority (threads k x)) t (tlists k l)"
    "state_of k' t = RT_THREAD_SUSPEND" "\<And>x. th_error (threads k' x) = th_error (threads k x)"
    "\<And>x. current_priority (threads k' x) = current_priority (threads k x)"
    "time > 0 \<Longrightarrow> ThreadTimer t \<in> set (tmlists k' HardList) \<and> timeout_tick (timers k' (ThreadTimer t)) = tick k + word_of_int time"
    "\<And>x. event_set (threads k' x) = event_set (threads k x)" "\<And>x. event_info (threads k' x) = event_info (threads k x)"
    "resched {t} k k'"
  by (rule block_on_frame [OF kinv b cur st wl _ _ time, of "enqueue flag (\<lambda>x. current_priority (threads k x)) t (tlists k l)"])
    (use sched_invD(2) [OF kinvD(1) [OF kinv]] in \<open>simp_all add: ipc_block_on [OF kinv st fl]\<close>)

text \<open>All waiting threads are woken with an error.\<close>

lemma resume_all_spec:
  assumes "kinv b k" and wl: "wait_list l"
  shows "\<exists>k'. ipc_list_resume_all l k = Some k' \<and> kinv b k' \<and> current_thread k' = current_thread k \<and> ipc_frame {l} {} k k' \<and>
    tlists k' l = [] \<and>
    (\<forall>x. current_priority (threads k' x) = current_priority (threads k x)) \<and>
    (\<forall>x \<in> set (tlists k l). th_error (threads k' x) = - RT_ERROR \<and> state_of k' x \<in> {RT_THREAD_READY, RT_THREAD_RUNNING}) \<and>
    (\<forall>x. x \<notin> set (tlists k l) \<longrightarrow> threads k' x = threads k x)"
  using assms(1)
proof (induction "tlists k l" arbitrary: k)
  case Nil
  then have "ipc_list_resume_all l k = Some k" by (subst ipc_list_resume_all.simps) simp
  with Nil show ?case by (intro exI [of _ k]) (auto simp flip: Nil.hyps)
next
  case (Cons t ts)
  note l = Cons.hyps(2) [symmetric]
  define k1 where "k1 = set_error t (- RT_ERROR) k"
  have k1: "kinv b k1" unfolding k1_def by (rule set_error_kinv [OF Cons.prems])
  have l1: "tlists k1 l = t # ts" by (simp add: k1_def l)
  obtain k2 where k2: "ipc_list_resume l k1 = Some k2" "kinv b k2" "kframe k1 k2" "current_thread k2 = current_thread k1"
    "state_of k2 t \<in> {RT_THREAD_READY, RT_THREAD_RUNNING}" "\<And>x. x \<noteq> t \<Longrightarrow> threads k2 x = threads k1 x"
    "\<And>l'. wait_list l' \<Longrightarrow> tlists k2 l' = (if l' = l then ts else tlists k1 l')"
    "tmlists k2 HardList = filter (\<lambda>x. x \<noteq> ThreadTimer t) (tmlists k1 HardList)"
    "\<And>x. x \<noteq> ThreadTimer t \<Longrightarrow> timers k2 x = timers k1 x" "\<And>x. live k2 x = live k1 x"
    by (rule resume_list_spec [OF k1 wl l1]) blast
  have f1: "ipc_frame {l} {} k1 k2"
    by (rule ipc_frameI [OF k2(3,10)]) (auto simp: k2(7,8,9))
  have fr: "ipc_frame {l} {} k k2" by (rule ipc_frame_trans [OF _ f1]) (simp add: k1_def)
  have l2: "ts = tlists k2 l" using k2(7) [OF wl] by simp
  obtain k' where k': "ipc_list_resume_all l k2 = Some k'" "kinv b k'" "current_thread k' = current_thread k2"
    "ipc_frame {l} {} k2 k'" "tlists k' l = []"
    "\<And>x. current_priority (threads k' x) = current_priority (threads k2 x)"
    "\<And>x. x \<in> set ts \<Longrightarrow> th_error (threads k' x) = - RT_ERROR \<and> state_of k' x \<in> {RT_THREAD_READY, RT_THREAD_RUNNING}"
    "\<And>x. x \<notin> set ts \<Longrightarrow> threads k' x = threads k2 x"
    using Cons.hyps(1) [OF l2 k2(2)] unfolding l2 [symmetric] by blast
  obtain e where e: "rt_thread_resume t k1 = Some (e, k2)"
    using k2(1) by (auto simp: ipc_list_resume_def l1)
  have run: "ipc_list_resume_all l k = Some k'"
    using e k'(1) by (subst ipc_list_resume_all.simps) (simp add: l k1_def)
  have nt: "t \<notin> set ts" using sched_invD(2) [OF kinvD(1) [OF Cons.prems], of l] l by simp
  have et: "th_error (threads k2 t) = - RT_ERROR" using kframe_threads(3) [OF k2(3), of t] by (simp add: k1_def)
  have pr: "current_priority (threads k2 x) = current_priority (threads k x)" for x
    using kframe_threads(1) [OF k2(3), of x] by (simp add: k1_def)
  have ox: "threads k2 x = threads k x" if "x \<noteq> t" for x using k2(6) [OF that] that by (simp add: k1_def set_error_def)
  have t': "th_error (threads k' t) = - RT_ERROR \<and> state_of k' t \<in> {RT_THREAD_READY, RT_THREAD_RUNNING}"
    using et k2(5) k'(8) [OF nt] by simp
  show ?case
  proof (intro exI conjI allI impI ballI)
    show "ipc_list_resume_all l k = Some k'" "kinv b k'" "tlists k' l = []" using run k'(2,5) by simp_all
    show "current_thread k' = current_thread k" using k'(3) k2(4) by (simp add: k1_def)
    show "ipc_frame {l} {} k k'" by (rule ipc_frame_trans [OF fr k'(4)])
    show "current_priority (threads k' x) = current_priority (threads k x)" for x using k'(6) pr by simp
    show "th_error (threads k' x) = - RT_ERROR" "state_of k' x \<in> {RT_THREAD_READY, RT_THREAD_RUNNING}" if "x \<in> set (tlists k l)" for x
      using that t' k'(7) [of x] by (auto simp: l)
    show "threads k' x = threads k x" if "x \<notin> set (tlists k l)" for x
      using that k'(8) [of x] ox [of x] by (simp add: l)
  qed
qed

lemma resume_all_frame:
  assumes kinv: "kinv b k" and cur: "current_thread k \<noteq> None" and wl: "wait_list l"
  obtains k' where "ipc_list_resume_all l k = Some k'" "kinv b k'" "current_thread k' \<noteq> None"
    "ipc_frame {l} {} k k'" "tlists k' l = []"
    "\<And>x. x \<in> set (tlists k l) \<Longrightarrow> th_error (threads k' x) = - RT_ERROR"
  using resume_all_spec [OF kinv wl] cur by auto

text \<open>The thread runs outside of interrupts, so it may block.\<close>

definition runs :: "nat \<Rightarrow> kernel \<Rightarrow> bool" where
  "runs t k \<longleftrightarrow> current_thread k = Some t \<and> state_of k t = RT_THREAD_RUNNING \<and> interrupt_nest k = 0"

lemma runs_context: "runs t k \<Longrightarrow> in_thread_context k = Some ()" "runs t k \<Longrightarrow> rt_thread_self k = Some t"
  by (simp_all add: runs_def in_thread_context_def not_in_interrupt_def rt_thread_self_def rt_interrupt_get_nest_def)

section \<open>The time-out of a blocked thread\<close>

lemma blocked_times_out:
  assumes "kinv 1 k" "current_thread k \<noteq> None" "only_thread_timers k" "interrupt_nest k = 0"
    and tm: "ThreadTimer t \<in> set (tmlists k HardList)" "timeout_tick (timers k (ThreadTimer t)) = tick k + word_of_int time"
    and time: "0 < time" "time < 2 ^ 31 - 1"
  shows "\<And>j. j < nat time \<Longrightarrow> \<exists>k'. run_ticks j k = Some k' \<and> state_of k' t = RT_THREAD_SUSPEND"
    "\<exists>k'. run_ticks (nat time) k = Some k' \<and> kinv 1 k' \<and> state_of k' t \<in> {RT_THREAD_READY, RT_THREAD_RUNNING} \<and>
      th_error (threads k' t) = - RT_ETIMEOUT"
proof -
  define w where "w = (word_of_int time :: u32)"
  have u: "unat w = nat time" using time by (simp add: w_def unat_eq_nat_uint uint_word_of_int)
  then have "w < HALF_TICK" using time by (simp add: word_less_nat_alt)
  then have "due (tick k) (tick k + w) = Suc (nat time)" using due_new(1) [of w "tick k"] u by simp
  then have d: "Suc (nat time) = due_in k t" by (simp add: due_in_def tm(2) w_def)
  have m: "max 1 (Suc (nat time) - 1) = nat time" using time by simp
  have "interrupt_nest k < 256" using assms(4) by simp
  note r = run_ticks_sleep [OF assms(1-3) this tm(1) d, unfolded m]
  show "\<exists>k'. run_ticks j k = Some k' \<and> state_of k' t = RT_THREAD_SUSPEND" if "j < nat time" for j using r that by blast
  show "\<exists>k'. run_ticks (nat time) k = Some k' \<and> kinv 1 k' \<and> state_of k' t \<in> {RT_THREAD_READY, RT_THREAD_RUNNING} \<and>
      th_error (threads k' t) = - RT_ETIMEOUT" using r by blast
qed

lemma runs_tail: "runs t k \<Longrightarrow> current_thread k \<noteq> None"
  by (simp add: runs_def)

lemma demo_runs: "runs 1 four_threads"
  by (simp add: runs_def four_threads_simps) (simp add: four_threads_def boot_kernel_def)

lemma demo_facts: "only_thread_timers four_threads" "interrupt_nest four_threads = 0" "tlists four_threads (Waiting i) = []"
  "tlists four_threads (Senders i) = []" "lock_nest four_threads = 0"
  by (simp_all add: only_thread_timers_def four_threads_simps) (simp_all add: four_threads_def boot_kernel_def)

text \<open>A sound kernel in which thread 4 waits on the list 0, for the witnesses.\<close>

definition one_waits :: kernel where
  "one_waits = four_threads\<lparr>tlists := (tlists four_threads)(Waiting 0 := [4])\<rparr>"

lemma one_waits_inv: "kinv 1 one_waits"
  unfolding one_waits_def
  by (rule kinv_tlists [OF four_threads_inv], rule link_inv [OF kinvD(1) [OF four_threads_inv], of 4])
    (auto simp: linked_def four_threads_simps)

lemma one_waits_simps: "runs 1 one_waits" "tlists one_waits (Waiting 0) = [4]" "threads one_waits = threads four_threads"
  "tick one_waits = tick four_threads" "current_thread one_waits = Some 1" "interrupt_nest one_waits = 0"
  "only_thread_timers one_waits" "tlists one_waits (Senders i) = []" "state_of one_waits 4 = RT_THREAD_SUSPEND"
  using demo_runs demo_facts by (simp_all add: one_waits_def runs_def four_threads_simps only_thread_timers_def)

section \<open>Who gets the processor\<close>

lemma set_error_calm [simp, intro]: "calm k (set_error t e k)"
  by (simp add: calm_def)

lemma upd_thread_calm: "(\<And>th. stat (f th) = stat th) \<Longrightarrow> (\<And>th. current_priority (f th) = current_priority th) \<Longrightarrow> calm k (upd_thread t f k)"
  by (simp add: calm_def)

lemma resume_list_resched:
  assumes kinv: "kinv b k" and wl: "wait_list l" and ne: "tlists k l \<noteq> []" and r: "ipc_list_resume l k = Some k1" "rt_schedule k1 = Some k'"
  shows "resched {} k k'"
proof -
  obtain t ts where l: "tlists k l = t # ts" using ne by (cases "tlists k l") simp_all
  obtain k2 where k2: "ipc_list_resume l k = Some k2" "kinv b k2" "kframe k k2" "current_thread k2 = current_thread k"
    "state_of k2 t \<in> {RT_THREAD_READY, RT_THREAD_RUNNING}" "\<And>x. x \<noteq> t \<Longrightarrow> threads k2 x = threads k x"
    by (rule resume_list_spec [OF kinv wl l]) blast
  have "state_of k t = RT_THREAD_SUSPEND" by (rule waiting_suspended [OF kinv wl]) (simp add: l)
  then have s: "x \<noteq> t" if "state_of k x = RT_THREAD_RUNNING" for x using that by auto
  show ?thesis
  proof (rule reschedI [OF r(2)])
    show "kinv b k1" "current_thread k1 = current_thread k" "lock_nest k1 = lock_nest k" using r(1) k2(1-4) by (simp_all add: kframe_def)
    show "awake k1 x" if "awake k x" for x using that r(1) k2(1,5,6) by (cases "x = t") (auto simp: awake_def)
    show "state_of k1 x = RT_THREAD_RUNNING" if "state_of k x = RT_THREAD_RUNNING" for x
      using that r(1) k2(1) k2(6) [OF s [OF that]] by simp
  qed
qed

lemma wake_one_fair:
  assumes "kinv b k" "wait_list l" "wake_one l k = Some k'"
  shows "fair k k'"
proof (cases "tlists k l")
  case (Cons t ts)
  then obtain k1 where k1: "ipc_list_resume l k = Some k1" "rt_schedule k1 = Some k'"
    using assms(3) by (auto simp: wake_one_def bind_eq_Some_conv)
  show ?thesis by (rule fairI(2) [OF resume_list_resched [OF assms(1,2) _ k1]]) (simp add: Cons)
qed (use assms(3) in \<open>simp add: wake_one_def fairI\<close>)

text \<open>A thread may block when it is not the idle thread and no critical section is entered.\<close>

definition may_block :: "nat \<Rightarrow> kernel \<Rightarrow> bool" where
  "may_block t k \<longleftrightarrow> t \<noteq> idle_thread \<and> lock_nest k = 0"

lemma block_resched:
  assumes "kinv b k" "b \<le> 1" "current_thread k = Some t" "state_of k t = RT_THREAD_RUNNING" "wait_list l"
    "flag \<in> {RT_IPC_FLAG_FIFO, RT_IPC_FLAG_PRIO}" "time < 2 ^ 31 - 1" "ipc_block l t flag time k = Some k'"
  shows "resched {t} k k'"
proof -
  obtain k1 where "ipc_block l t flag time k = Some k1" "resched {t} k k1"
    by (rule block_frame [OF assms(1-7)]) blast
  with assms(8) show ?thesis by simp
qed

lemma block_fair:
  assumes "kinv b k" "b \<le> 1" "runs t k" "wait_list l" "flag \<in> {RT_IPC_FLAG_FIFO, RT_IPC_FLAG_PRIO}" "time < 2 ^ 31 - 1"
    "may_block t k" "calm k k1" "kinv b k1" "ipc_block l t flag time k1 = Some k'"
  shows "fair k k'"
proof -
  have "current_thread k1 = Some t" "state_of k1 t = RT_THREAD_RUNNING" using assms(3,8) by (simp_all add: runs_def calm_def)
  from block_resched [OF assms(9,2) this assms(4-6,10)] have "resched {t} k k'" by (rule calm_resched [OF assms(8)])
  then show ?thesis using assms(7) by (intro fairI(3) [of t]) (simp_all add: may_block_def)
qed

end
