(* ===== verification/Ticks.thy ===== *)
theory Ticks
  imports IpcBase
begin

text \<open>
  What a tick interrupt may do behind the back of the threads: the relation \<open>drift\<close>. Time-outs take threads out of the
  lists they wait in; nothing else that an IPC object looks at changes, and the processor stays in good hands.
\<close>

section \<open>What a tick interrupt does\<close>

text \<open>The waiting threads may time out, so the lists shrink; the processor stays in good hands.\<close>

definition drift :: "kernel \<Rightarrow> kernel \<Rightarrow> bool" where
  "drift k k' \<longleftrightarrow> fair k k' \<and> lock_nest k' = lock_nest k \<and>
     (\<forall>i. set (tlists k' (Waiting i)) \<subseteq> set (tlists k (Waiting i)) \<and> set (tlists k' (Senders i)) \<subseteq> set (tlists k (Senders i))) \<and>
     (\<forall>x. live k' x = live k x \<and> event_set (threads k' x) = event_set (threads k x) \<and> event_info (threads k' x) = event_info (threads k x))"

lemma fair_trans: "fair k k1 \<Longrightarrow> fair k1 k2 \<Longrightarrow> fair k k2"
  by (auto simp: fair_def)

lemma drift_trans: "drift k k1 \<Longrightarrow> drift k1 k2 \<Longrightarrow> drift k k2"
  unfolding drift_def by (elim conjE, intro conjI) (simp_all add: fair_trans [of k k1 k2], blast)

lemma drift_quiet: "threads k' = threads k \<Longrightarrow> tlists k' = tlists k \<Longrightarrow> current_thread k' = current_thread k \<Longrightarrow>
    lock_nest k' = lock_nest k \<Longrightarrow> drift k k'"
  by (simp add: drift_def fairI calm_def live_def)

text \<open>A call of the scheduler.\<close>

lemma schedule_drift:
  assumes "kinv b k" "current_thread k \<noteq> None" "rt_schedule k = Some k'"
  shows "drift k k'"
proof -
  obtain k1 where k1: "rt_schedule k = Some k1" "kframe k k1" "\<And>x. live k1 x = live k x"
    "\<And>i. tlists k1 (Waiting i) = tlists k (Waiting i)" "\<And>i. tlists k1 (Senders i) = tlists k (Senders i)"
    by (rule schedule_kinv [OF assms(1,2)]) blast
  have "resched {} k k'" by (rule reschedI [OF assms(3,1)]) simp_all
  then show ?thesis
    using k1 assms(3) kframe_threads(10,11) [OF k1(2)] by (simp add: drift_def fairI kframe_def)
qed

lemma timeout_drift:
  assumes kinv: "kinv b k" and st: "state_of k t = RT_THREAD_SUSPEND" and cur: "current_thread k \<noteq> None"
    and nt: "ThreadTimer t \<notin> set (tmlists k HardList)" and r: "rt_thread_timeout t k = Some k'"
  shows "drift k k'"
proof -
  obtain k3 where k3: "rt_thread_timeout t k = rt_schedule k3" "kinv b k3" "current_thread k3 = current_thread k"
    "state_of k3 t \<in> {RT_THREAD_READY, RT_THREAD_RUNNING}" "lock_nest k3 = lock_nest k"
    "\<And>x. live k3 x = live k x" "\<And>x. x \<noteq> t \<Longrightarrow> threads k3 x = threads k x"
    "\<And>i. tlists k3 (Waiting i) = filter (\<lambda>x. x \<noteq> t) (tlists k (Waiting i))"
    "\<And>i. tlists k3 (Senders i) = filter (\<lambda>x. x \<noteq> t) (tlists k (Senders i))"
    "event_set (threads k3 t) = event_set (threads k t)" "event_info (threads k3 t) = event_info (threads k t)"
    by (rule thread_timeout_start [OF kinv st nt]) blast
  have s: "rt_schedule k3 = Some k'" using r k3(1) by simp
  have d: "drift k3 k'" by (rule schedule_drift [OF k3(2) _ s]) (simp add: k3(3) cur)
  have nr: "x \<noteq> t" if "state_of k x = RT_THREAD_RUNNING" for x using that st by auto
  have "resched {} k k'"
  proof (rule reschedI [OF s k3(2,3,5)])
    show "awake k3 x" if "awake k x" for x using that k3(4) k3(7) [of x] by (cases "x = t") (auto simp: awake_def)
    show "state_of k3 x = RT_THREAD_RUNNING" if "state_of k x = RT_THREAD_RUNNING" for x using that k3(7) [OF nr [OF that]] by simp
  qed
  moreover have "event_set (threads k3 x) = event_set (threads k x)" "event_info (threads k3 x) = event_info (threads k x)" for x
    using k3(7,10,11) by (cases "x = t"; simp)+
  ultimately show ?thesis using d k3(5,6,8,9) unfolding drift_def by (auto simp: fairI)
qed

lemma check_round_drift:
  assumes kinv: "kinv 0 k" and m: "tmlists k HardList = m # ms" and cur: "current_thread k \<noteq> None" and lo: "tmlists k HardLocal = []"
    and t: "m = ThreadTimer t" and r: "rt_thread_timeout t (take_timer HardLocal m k) = Some k1" "rearm_timer HardLocal m k1 = Some k2"
  shows "drift k k2" "kinv 0 k2" "tmlists k2 HardList = ms" "tmlists k2 HardLocal = []" "current_thread k2 \<noteq> None"
proof -
  note i = kinvD(2) [OF kinv]
  have mem: "m \<in> set (tmlists k HardList)" by (simp add: m)
  have dist: "distinct (m # ms)" using timer_invD(1) [OF i, of HardList] m by simp
  then have fms: "filter (\<lambda>x. x \<noteq> m) ms = ms" by (auto intro: filter_True)
  define k0 where "k0 = take_timer HardLocal m k"
  have k0: "kinv 0 k0" unfolding k0_def by (rule take_timer_inv [OF kinv mem lo])
  have l0: "tmlists k0 HardList = ms" "tmlists k0 HardLocal = [m]" "threads k0 = threads k" "tick k0 = tick k"
    "current_thread k0 = current_thread k" "lock_nest k0 = lock_nest k" "tlists k0 = tlists k"
    using m fms lo by (simp_all add: k0_def take_timer_simps)
  have st: "state_of k0 t = RT_THREAD_SUSPEND" using timer_invD(7) [OF i, of t] mem by (simp add: t l0)
  have cur0: "current_thread k0 \<noteq> None" using cur by (simp add: l0)
  have nt: "ThreadTimer t \<notin> set (tmlists k0 HardList)" using dist by (simp add: l0 t)
  have r0: "rt_thread_timeout t k0 = Some k1" using r(1) by (simp add: k0_def)
  obtain k1' where k1: "rt_thread_timeout t k0 = Some k1'" "kinv 0 k1'" "current_thread k1' \<noteq> None" "tmlists k1' = tmlists k0"
    by (rule thread_timeout_spec [OF k0 st cur0 nt]) metis
  with r0 have k1: "kinv 0 k1" "current_thread k1 \<noteq> None" "tmlists k1 = tmlists k0" by simp_all
  have u: "k2 = unlink_timer m k1"
    using r(2) rearm_thread_timer [OF kinvD(2) [OF k1(1)], of t] k1(3) l0(2) by (simp add: t)
  show "kinv 0 k2"
    unfolding u by (rule kinv_timers [OF k1(1) unlink_timer_inv [OF kinvD(2) [OF k1(1)]]]) simp_all
  show "tmlists k2 HardList = ms" "tmlists k2 HardLocal = []" "current_thread k2 \<noteq> None" using k1 l0 fms by (simp_all add: u)
  have "drift k k0" by (rule drift_quiet) (simp_all add: l0)
  moreover have "drift k0 k1" by (rule timeout_drift [OF k0 st cur0 nt r0])
  moreover have "drift k1 k2" unfolding u by (rule drift_quiet) simp_all
  ultimately show "drift k k2" by (blast intro: drift_trans)
qed

lemma timer_check_drift:
  assumes run: "timer_check_loop tf now k = Some k'" and tf: "tf = timeout_func cb"
    and k: "kinv 0 k" "only_thread_timers k" "current_thread k \<noteq> None" "tmlists k HardLocal = []"
  shows "drift k k'"
proof -
  have "tf = timeout_func cb \<longrightarrow> kinv 0 k \<longrightarrow> only_thread_timers k \<longrightarrow> current_thread k \<noteq> None \<longrightarrow> tmlists k HardLocal = [] \<longrightarrow> drift k k'"
  proof (rule timer_check_loop.raw_induct [OF _ run])
    fix loop tf now k k'
    assume IH: "\<And>tf now k k'. loop tf now k = Some k' \<Longrightarrow>
        tf = timeout_func cb \<longrightarrow> kinv 0 k \<longrightarrow> only_thread_timers k \<longrightarrow> current_thread k \<noteq> None \<longrightarrow> tmlists k HardLocal = [] \<longrightarrow> drift k k'"
      and body: "(case tmlists k HardList of [] \<Rightarrow> Some k
        | m # _ \<Rightarrow> if now - timeout_tick (timers k m) < HALF_TICK
           then Option.bind (tf m (take_timer HardLocal m k)) (\<lambda>k1. Option.bind (rearm_timer HardLocal m k1) (\<lambda>k2. loop tf (tick k1) k2))
           else Some k) = Some k'"
    show "tf = timeout_func cb \<longrightarrow> kinv 0 k \<longrightarrow> only_thread_timers k \<longrightarrow> current_thread k \<noteq> None \<longrightarrow> tmlists k HardLocal = [] \<longrightarrow> drift k k'"
    proof (intro impI)
      assume a: "tf = timeout_func cb" "kinv 0 k" "only_thread_timers k" "current_thread k \<noteq> None" "tmlists k HardLocal = []"
      show "drift k k'"
      proof (cases "k' = k")
        case False
        then obtain m ms k1 k2 where m: "tmlists k HardList = m # ms" "tf m (take_timer HardLocal m k) = Some k1"
          "rearm_timer HardLocal m k1 = Some k2" "loop tf (tick k1) k2 = Some k'"
          using body by (auto simp: bind_eq_Some_conv split: list.splits if_splits)
        obtain t where t: "m = ThreadTimer t" using a(3) m(1) by (auto simp: only_thread_timers_def)
        have "rt_thread_timeout t (take_timer HardLocal m k) = Some k1" using m(2) a(1) t by (simp add: timeout_func_def)
        note c = check_round_drift [OF a(2) m(1) a(4,5) t this m(3)]
        have "only_thread_timers k2" using a(3) m(1) c(3) by (simp add: only_thread_timers_def)
        then have "drift k2 k'" using IH [OF m(4)] a(1) c(2,4,5) by blast
        with c(1) show ?thesis by (rule drift_trans)
      qed (simp add: drift_quiet)
    qed
  qed
  then show ?thesis using tf k by blast
qed

lemma charge_drift: "charge_slice t k = (e, k') \<Longrightarrow> drift k k'"
proof -
  assume c: "charge_slice t k = (e, k')"
  then have "calm k k'" by (auto simp: charge_slice_def Let_def calm_def split: if_splits)
  moreover have "tlists k' = tlists k" "lock_nest k' = lock_nest k"
    "live k' x = live k x" "event_set (threads k' x) = event_set (threads k x)" "event_info (threads k' x) = event_info (threads k x)" for x
    using c by (auto simp: charge_slice_def Let_def live_def split: if_splits)
  ultimately show ?thesis by (simp add: drift_def fairI)
qed

lemma systick_drift:
  assumes kinv: "kinv 1 k" and cur: "current_thread k \<noteq> None" and only: "only_thread_timers k"
    and r: "SysTick_Handler cb k = Some k'"
  shows "drift k k'"
proof -
  obtain t where t: "current_thread k = Some t" using cur by blast
  define k0 where "k0 = (rt_interrupt_enter k)\<lparr>tick := tick k + 1\<rparr>"
  have "kinv (Suc 0) (rt_interrupt_enter k)" using kinv by (simp add: rt_interrupt_enter_def nest_kinv)
  then have "kinv 0 ((rt_interrupt_enter k)\<lparr>tick := tick (rt_interrupt_enter k) + 1\<rparr>)" by (rule tick_kinv)
  then have k0: "kinv 0 k0" by (simp add: k0_def rt_interrupt_enter_def)
  have d0: "drift k k0" by (rule drift_quiet) (simp_all add: k0_def rt_interrupt_enter_def)
  obtain e k1 where ck: "charge_slice t k0 = (e, k1)" by fastforce
  note k1 = charge_slice_spec [OF k0 ck]
  have d1: "drift k0 k1" by (rule charge_drift [OF ck])
  have c1: "current_thread k1 \<noteq> None" using t by (simp add: k1(4) k0_def rt_interrupt_enter_def)
  obtain k2 k5 where k2: "(if e then rt_schedule k1 else Some k1) = Some k2" "rt_timer_check cb k2 = Some k5" "k' = rt_interrupt_leave k5"
    using r t ck by (auto simp: SysTick_Handler_def rt_tick_increase_def rt_thread_self_def k0_def rt_interrupt_enter_def bind_eq_Some_conv)
  have k2': "drift k1 k2" "kinv 0 k2" "tmlists k2 = tmlists k1" "current_thread k2 \<noteq> None"
  proof -
    have "drift k1 k2 \<and> kinv 0 k2 \<and> tmlists k2 = tmlists k1 \<and> current_thread k2 \<noteq> None"
    proof (cases e)
      case True
      then have s: "rt_schedule k1 = Some k2" using k2(1) by simp
      obtain kx where "rt_schedule k1 = Some kx" "kinv 0 kx" "tmlists kx = tmlists k1" "current_thread kx \<noteq> None"
        by (rule schedule_kinv [OF k1(1) c1]) blast
      with s schedule_drift [OF k1(1) c1 s] show ?thesis by simp
    next
      case False
      then show ?thesis using k2(1) k1(1) c1 drift_quiet [of k1 k1] by simp
    qed
    then show "drift k1 k2" "kinv 0 k2" "tmlists k2 = tmlists k1" "current_thread k2 \<noteq> None" by blast+
  qed
  define k3 where "k3 = k2\<lparr>tmlists := (tmlists k2)(HardLocal := [])\<rparr>"
  have "timer_inv 0 k3"
    using timer_invD [OF kinvD(2) [OF k2'(2)]] unfolding timer_inv_def k3_def flagged_def by simp
  then have k3: "kinv 0 k3" by (rule kinv_timers [OF k2'(2)]) (simp_all add: k3_def)
  have "tmlists k3 HardList = tmlists k HardList"
    by (simp add: k3_def k2'(3) k1(3) k0_def rt_interrupt_enter_def)
  then have o3: "only_thread_timers k3" using only by (simp add: only_thread_timers_def)
  have run: "timer_check_loop (timeout_func cb) (tick k2) k3 = Some k5" using k2(2) by (simp add: rt_timer_check_def k3_def)
  have "drift k3 k5" by (rule timer_check_drift [OF run refl k3 o3]) (use k2'(4) in \<open>simp_all add: k3_def\<close>)
  moreover have "drift k2 k3" by (rule drift_quiet) (simp_all add: k3_def)
  moreover have "drift k5 k'" unfolding k2(3) by (rule drift_quiet) (simp_all add: rt_interrupt_leave_def)
  ultimately show ?thesis using d0 d1 k2'(1) drift_trans by metis
qed

end
