(* ===== verification/MsgStore.thy ===== *)
theory MsgStore
  imports IpcBase
begin

text \<open>
  What the mailbox and the message queue of \<^verbatim>\<open>rt-thread/src/ipc.c\<close> have in common: a bounded store
  of messages with a send that waits while the store is full and a receive that waits while it is
  empty. The locale \<open>message_store\<close> states what the two stores promise; the behaviour of the
  blocking send and receive is proved once from it and used by theories Mailbox and MsgQueue, which
  interpret the locale.
\<close>

section \<open>A blocking send and receive\<close>

text \<open>One pass from the head of the loop of a send: the result of the store operation is an
  argument.\<close>

definition send_step :: "lref \<Rightarrow> lref \<Rightarrow> u8 \<Rightarrow> bool \<Rightarrow> (bool \<times> 's) option \<Rightarrow> 's \<Rightarrow> int \<Rightarrow> kernel \<Rightarrow> (int outcome \<times> 's \<times> kernel) option" where
  "send_step senders receivers flag is_full put s timeout k =
    (if is_full
     then do {
       t \<leftarrow> rt_thread_self k;
       let k1 = set_error t RT_EOK k;
       if timeout = 0 then Some (Done (- RT_EFULL), s, k1)
       else do {
         _ \<leftarrow> in_thread_context k1;
         k2 \<leftarrow> ipc_block senders t flag timeout k1;
         Some (Blocked, s, k2)
       }
     }
     else do {
       (ok, s1) \<leftarrow> put;
       if \<not> ok then Some (Done (- RT_EFULL), s1, k)
       else do {
         k1 \<leftarrow> wake_one receivers k;
         Some (Done RT_EOK, s1, k1)
       }
     })"

definition recv_step ::
  "lref \<Rightarrow> lref \<Rightarrow> u8 \<Rightarrow> bool \<Rightarrow> ('x \<times> 's) option \<Rightarrow> 's \<Rightarrow> int \<Rightarrow> kernel \<Rightarrow> ((int \<times> 'x option) outcome \<times> 's \<times> kernel) option" where
  "recv_step senders receivers flag is_empty got s timeout k =
    (if is_empty
     then do {
       t \<leftarrow> rt_thread_self k;
       let k1 = set_error t RT_EOK k;
       if timeout = 0 then Some (Done (- RT_ETIMEOUT, None), s, set_error t (- RT_ETIMEOUT) k1)
       else do {
         _ \<leftarrow> in_thread_context k1;
         k2 \<leftarrow> ipc_block receivers t flag timeout k1;
         Some (Blocked, s, k2)
       }
     }
     else do {
       (x, s1) \<leftarrow> got;
       k1 \<leftarrow> wake_one senders k;
       Some (Done (RT_EOK, Some x), s1, k1)
     })"

section \<open>The contract of the operations\<close>

text \<open>Over the stored messages, the suspended senders and the suspended receivers: a message is stored and the
  first receiver woken, or a message is taken and the first sender woken, or the caller times out at
  once or queues.\<close>

definition spec_send_msg ::
  "u8 \<Rightarrow> (nat \<Rightarrow> nat) \<Rightarrow> nat \<Rightarrow> int \<Rightarrow> nat \<Rightarrow> 'x \<Rightarrow> 'x list \<times> nat list \<times> nat list \<Rightarrow> int outcome \<times> 'x list \<times> nat list \<times> nat list" where
  "spec_send_msg flag prio t timeout bound x a =
    (case a of (c, ss, rs) \<Rightarrow>
       if length c < bound then (Done RT_EOK, c @ [x], ss, tl rs)
       else if timeout = 0 then (Done (- RT_EFULL), c, ss, rs)
       else (Blocked, c, enqueue flag prio t ss, rs))"

definition spec_push_msg :: "nat \<Rightarrow> 'x \<Rightarrow> 'x list \<times> nat list \<times> nat list \<Rightarrow> int \<times> 'x list \<times> nat list \<times> nat list" where
  "spec_push_msg bound x a =
    (case a of (c, ss, rs) \<Rightarrow> if length c < bound then (RT_EOK, x # c, ss, tl rs) else (- RT_EFULL, c, ss, rs))"

definition spec_recv_msg ::
  "u8 \<Rightarrow> (nat \<Rightarrow> nat) \<Rightarrow> nat \<Rightarrow> int \<Rightarrow> 'x list \<times> nat list \<times> nat list \<Rightarrow> (int \<times> 'x option) outcome \<times> 'x list \<times> nat list \<times> nat list" where
  "spec_recv_msg flag prio t timeout a =
    (case a of
       (x # xs, ss, rs) \<Rightarrow> (Done (RT_EOK, Some x), xs, tl ss, rs)
     | ([], ss, rs) \<Rightarrow>
         if timeout = 0 then (Done (- RT_ETIMEOUT, None), [], ss, rs) else (Blocked, [], ss, enqueue flag prio t rs))"

section \<open>The interface of a store\<close>

text \<open>\<open>contents\<close> are the stored messages, the oldest first; a message \<open>v\<close> may be stored as any \<open>x\<close>
  with \<open>stored v x\<close>.\<close>

locale message_store =
  fixes inv :: "'s \<Rightarrow> bool" and cap :: "'s \<Rightarrow> nat" and contents :: "'s \<Rightarrow> 'x list"
    and fits :: "'s \<Rightarrow> 'm \<Rightarrow> bool" and stored :: "'m \<Rightarrow> 'x \<Rightarrow> bool"
    and is_full :: "'s \<Rightarrow> bool" and is_empty :: "'s \<Rightarrow> bool"
    and put :: "'m \<Rightarrow> 's \<Rightarrow> (bool \<times> 's) option" and push :: "'m \<Rightarrow> 's \<Rightarrow> (bool \<times> 's) option" and get :: "'s \<Rightarrow> ('x \<times> 's) option"
  assumes bounded: "inv s \<Longrightarrow> length (contents s) \<le> cap s"
    and full_iff: "inv s \<Longrightarrow> is_full s \<longleftrightarrow> length (contents s) = cap s"
    and storable: "inv s \<Longrightarrow> fits s v \<Longrightarrow> \<exists>x. stored v x"
    and empty_iff: "inv s \<Longrightarrow> is_empty s \<longleftrightarrow> contents s = []"
    and put_ok: "inv s \<Longrightarrow> fits s v \<Longrightarrow> length (contents s) < cap s \<Longrightarrow>
      \<exists>s' x. put v s = Some (True, s') \<and> inv s' \<and> cap s' = cap s \<and> stored v x \<and> contents s' = contents s @ [x]"
    and push_ok: "inv s \<Longrightarrow> fits s v \<Longrightarrow> length (contents s) < cap s \<Longrightarrow>
      \<exists>s' x. push v s = Some (True, s') \<and> inv s' \<and> cap s' = cap s \<and> stored v x \<and> contents s' = x # contents s"
    and get_ok: "inv s \<Longrightarrow> contents s = x # xs \<Longrightarrow> \<exists>s'. get s = Some (x, s') \<and> inv s' \<and> cap s' = cap s \<and> contents s' = xs"
begin

lemma send_spec:
  assumes kinv: "kinv b k" and b: "b \<le> 1" and s: "inv s" "fits s v" and r: "runs t k"
    and fl: "flag \<in> {RT_IPC_FLAG_FIFO, RT_IPC_FLAG_PRIO}" and time: "timeout < 2 ^ 31 - 1"
  shows "\<exists>o' s' k'. send_step (Senders i) (Waiting i) flag (is_full s) (put v s) s timeout k = Some (o', s', k') \<and> kinv b k' \<and> inv s' \<and>
    cap s' = cap s \<and> ipc_frame {Senders i, Waiting i} {} k k' \<and> current_thread k' \<noteq> None \<and>
    (if length (contents s) < cap s
     then o' = Done RT_EOK \<and> (\<exists>x. stored v x \<and> contents s' = contents s @ [x]) \<and>
       tlists k' (Senders i) = tlists k (Senders i) \<and> tlists k' (Waiting i) = tl (tlists k (Waiting i))
     else s' = s \<and> tlists k' (Waiting i) = tlists k (Waiting i) \<and>
       (if timeout = 0 then o' = Done (- RT_EFULL) \<and> tlists k' (Senders i) = tlists k (Senders i)
        else o' = Blocked \<and> state_of k' t = RT_THREAD_SUSPEND \<and> th_error (threads k' t) = RT_EOK \<and>
          tlists k' (Senders i) = enqueue flag (\<lambda>x. current_priority (threads k x)) t (tlists k (Senders i))))"
proof (cases "length (contents s) < cap s")
  case True
  then have nf: "\<not> is_full s" using full_iff [OF s(1)] by simp
  obtain s' x where p: "put v s = Some (True, s')" "inv s'" "cap s' = cap s" "stored v x" "contents s' = contents s @ [x]"
    using put_ok [OF s True] by blast
  obtain k' where k': "wake_one (Waiting i) k = Some k'" "kinv b k'" "ipc_frame {Waiting i} {} k k'" "current_thread k' \<noteq> None"
    "tlists k' (Waiting i) = tl (tlists k (Waiting i))"
    by (rule wake_one_spec [OF kinv runs_tail [OF r] wait_list_simps(1)]) blast
  have "ipc_frame {Senders i, Waiting i} {} k k'" by (rule ipc_frame_mono [OF k'(3)]) auto
  moreover have "tlists k' (Senders i) = tlists k (Senders i)" using ipc_frameD(5) [OF k'(3), of "Senders i"] by simp
  ultimately show ?thesis using True nf p k'
    by (intro exI [of _ "Done RT_EOK"] exI [of _ s'] exI [of _ k']) (auto simp: send_step_def)
next
  case False
  then have fu: "is_full s" using full_iff [OF s(1)] bounded [OF s(1)] by simp
  note c = runs_context [OF r]
  have k0: "kinv b (set_error t RT_EOK k)" by (rule set_error_kinv [OF kinv])
  have r0: "runs t (set_error t RT_EOK k)" using r by (simp add: runs_def)
  show ?thesis
  proof (cases "timeout = 0")
    case True
    with False fu c s(1) k0 r show ?thesis
      by (intro exI [of _ "Done (- RT_EFULL)"] exI [of _ s] exI [of _ "set_error t RT_EOK k"]) (simp add: send_step_def runs_def)
  next
    case t: False
    have r1: "current_thread (set_error t RT_EOK k) = Some t" "state_of (set_error t RT_EOK k) t = RT_THREAD_RUNNING"
      using r by (simp_all add: runs_def)
    obtain k' where k': "ipc_block (Senders i) t flag timeout (set_error t RT_EOK k) = Some k'" "kinv b k'"
      "ipc_frame {Senders i} {} (set_error t RT_EOK k) k'" "current_thread k' \<noteq> None"
      "tlists k' (Senders i) = enqueue flag (\<lambda>x. current_priority (threads (set_error t RT_EOK k) x)) t (tlists (set_error t RT_EOK k) (Senders i))"
      "state_of k' t = RT_THREAD_SUSPEND" "\<And>x. th_error (threads k' x) = th_error (threads (set_error t RT_EOK k) x)"
      by (rule block_frame [OF k0 b r1 wait_list_simps(2) fl time]) blast
    have f: "ipc_frame {Senders i} {} k k'" by (rule ipc_frame_trans [OF set_error_frame k'(3)])
    have f': "ipc_frame {Senders i, Waiting i} {} k k'" by (rule ipc_frame_mono [OF f]) auto
    have "tlists k' (Waiting i) = tlists k (Waiting i)" using ipc_frameD(5) [OF f, of "Waiting i"] by simp
    with False t fu c s(1) k' f' runs_context [OF r0] show ?thesis
      by (intro exI [of _ Blocked] exI [of _ s] exI [of _ k']) (simp add: send_step_def)
  qed
qed

lemma recv_spec:
  assumes kinv: "kinv b k" and b: "b \<le> 1" and s: "inv s" and r: "runs t k"
    and fl: "flag \<in> {RT_IPC_FLAG_FIFO, RT_IPC_FLAG_PRIO}" and time: "timeout < 2 ^ 31 - 1"
  shows "\<exists>o' s' k'. recv_step (Senders i) (Waiting i) flag (is_empty s) (get s) s timeout k = Some (o', s', k') \<and> kinv b k' \<and> inv s' \<and>
    cap s' = cap s \<and> ipc_frame {Senders i, Waiting i} {} k k' \<and> current_thread k' \<noteq> None \<and>
    (case contents s of
       x # xs \<Rightarrow> o' = Done (RT_EOK, Some x) \<and> contents s' = xs \<and>
         tlists k' (Waiting i) = tlists k (Waiting i) \<and> tlists k' (Senders i) = tl (tlists k (Senders i))
     | [] \<Rightarrow> s' = s \<and> tlists k' (Senders i) = tlists k (Senders i) \<and>
       (if timeout = 0 then o' = Done (- RT_ETIMEOUT, None) \<and> tlists k' (Waiting i) = tlists k (Waiting i)
        else o' = Blocked \<and> state_of k' t = RT_THREAD_SUSPEND \<and> th_error (threads k' t) = RT_EOK \<and>
          tlists k' (Waiting i) = enqueue flag (\<lambda>x. current_priority (threads k x)) t (tlists k (Waiting i))))"
proof (cases "contents s")
  case (Cons x xs)
  then have ne: "\<not> is_empty s" using empty_iff [OF s] by simp
  obtain s' where p: "get s = Some (x, s')" "inv s'" "cap s' = cap s" "contents s' = xs"
    using get_ok [OF s Cons] by blast
  obtain k' where k': "wake_one (Senders i) k = Some k'" "kinv b k'" "ipc_frame {Senders i} {} k k'" "current_thread k' \<noteq> None"
    "tlists k' (Senders i) = tl (tlists k (Senders i))"
    by (rule wake_one_spec [OF kinv runs_tail [OF r] wait_list_simps(2)]) blast
  have "ipc_frame {Senders i, Waiting i} {} k k'" by (rule ipc_frame_mono [OF k'(3)]) auto
  moreover have "tlists k' (Waiting i) = tlists k (Waiting i)" using ipc_frameD(5) [OF k'(3), of "Waiting i"] by simp
  ultimately show ?thesis using Cons ne p k'
    by (intro exI [of _ "Done (RT_EOK, Some x)"] exI [of _ s'] exI [of _ k']) (auto simp: recv_step_def)
next
  case Nil
  then have em: "is_empty s" using empty_iff [OF s] by simp
  note c = runs_context [OF r]
  have k0: "kinv b (set_error t RT_EOK k)" by (rule set_error_kinv [OF kinv])
  have r0: "runs t (set_error t RT_EOK k)" using r by (simp add: runs_def)
  show ?thesis
  proof (cases "timeout = 0")
    case True
    have "kinv b (set_error t (- RT_ETIMEOUT) (set_error t RT_EOK k))" by (rule set_error_kinv [OF k0])
    with True Nil em c s r ipc_frame_trans [OF set_error_frame set_error_frame] show ?thesis
      by (intro exI [of _ "Done (- RT_ETIMEOUT, None)"] exI [of _ s] exI [of _ "set_error t (- RT_ETIMEOUT) (set_error t RT_EOK k)"])
        (simp add: recv_step_def runs_def)
  next
    case t: False
    have r1: "current_thread (set_error t RT_EOK k) = Some t" "state_of (set_error t RT_EOK k) t = RT_THREAD_RUNNING"
      using r by (simp_all add: runs_def)
    obtain k' where k': "ipc_block (Waiting i) t flag timeout (set_error t RT_EOK k) = Some k'" "kinv b k'"
      "ipc_frame {Waiting i} {} (set_error t RT_EOK k) k'" "current_thread k' \<noteq> None"
      "tlists k' (Waiting i) = enqueue flag (\<lambda>x. current_priority (threads (set_error t RT_EOK k) x)) t (tlists (set_error t RT_EOK k) (Waiting i))"
      "state_of k' t = RT_THREAD_SUSPEND" "\<And>x. th_error (threads k' x) = th_error (threads (set_error t RT_EOK k) x)"
      by (rule block_frame [OF k0 b r1 wait_list_simps(1) fl time]) blast
    have f: "ipc_frame {Waiting i} {} k k'" by (rule ipc_frame_trans [OF set_error_frame k'(3)])
    have f': "ipc_frame {Senders i, Waiting i} {} k k'" by (rule ipc_frame_mono [OF f]) auto
    have "tlists k' (Senders i) = tlists k (Senders i)" using ipc_frameD(5) [OF f, of "Senders i"] by simp
    with Nil t em c s k' f' runs_context [OF r0] show ?thesis
      by (intro exI [of _ Blocked] exI [of _ s] exI [of _ k']) (simp add: recv_step_def)
  qed
qed

text \<open>The same as contracts.\<close>

lemma send_refines:
  assumes "kinv b k" "b \<le> 1" "inv s" "fits s v" "runs t k" "flag \<in> {RT_IPC_FLAG_FIFO, RT_IPC_FLAG_PRIO}" "timeout < 2 ^ 31 - 1"
  shows "\<exists>o' s' k' x. send_step (Senders i) (Waiting i) flag (is_full s) (put v s) s timeout k = Some (o', s', k') \<and> kinv b k' \<and> inv s' \<and>
    cap s' = cap s \<and> ipc_frame {Senders i, Waiting i} {} k k' \<and> stored v x \<and>
    (o', contents s', tlists k' (Senders i), tlists k' (Waiting i)) =
      spec_send_msg flag (\<lambda>x. current_priority (threads k x)) t timeout (cap s) x (contents s, tlists k (Senders i), tlists k (Waiting i))"
proof -
  obtain o' s' k' where r: "send_step (Senders i) (Waiting i) flag (is_full s) (put v s) s timeout k = Some (o', s', k')" "kinv b k'" "inv s'"
    "cap s' = cap s" "ipc_frame {Senders i, Waiting i} {} k k'"
    "if length (contents s) < cap s
     then o' = Done RT_EOK \<and> (\<exists>x. stored v x \<and> contents s' = contents s @ [x]) \<and>
       tlists k' (Senders i) = tlists k (Senders i) \<and> tlists k' (Waiting i) = tl (tlists k (Waiting i))
     else s' = s \<and> tlists k' (Waiting i) = tlists k (Waiting i) \<and>
       (if timeout = 0 then o' = Done (- RT_EFULL) \<and> tlists k' (Senders i) = tlists k (Senders i)
        else o' = Blocked \<and> state_of k' t = RT_THREAD_SUSPEND \<and> th_error (threads k' t) = RT_EOK \<and>
          tlists k' (Senders i) = enqueue flag (\<lambda>x. current_priority (threads k x)) t (tlists k (Senders i)))"
    using send_spec [OF assms] by blast
  show ?thesis
  proof (cases "length (contents s) < cap s")
    case True
    with r(6) obtain x where "stored v x" "contents s' = contents s @ [x]" by auto
    with True r show ?thesis by (intro exI [of _ o'] exI [of _ s'] exI [of _ k'] exI [of _ x]) (simp add: spec_send_msg_def)
  next
    case False
    obtain x where "stored v x" using storable [OF assms(3,4)] by blast
    with False r show ?thesis
      by (intro exI [of _ o'] exI [of _ s'] exI [of _ k'] exI [of _ x]) (auto simp: spec_send_msg_def split: if_splits)
  qed
qed

lemma recv_refines:
  assumes "kinv b k" "b \<le> 1" "inv s" "runs t k" "flag \<in> {RT_IPC_FLAG_FIFO, RT_IPC_FLAG_PRIO}" "timeout < 2 ^ 31 - 1"
  shows "\<exists>o' s' k'. recv_step (Senders i) (Waiting i) flag (is_empty s) (get s) s timeout k = Some (o', s', k') \<and> kinv b k' \<and> inv s' \<and>
    cap s' = cap s \<and> ipc_frame {Senders i, Waiting i} {} k k' \<and>
    (o', contents s', tlists k' (Senders i), tlists k' (Waiting i)) =
      spec_recv_msg flag (\<lambda>x. current_priority (threads k x)) t timeout (contents s, tlists k (Senders i), tlists k (Waiting i))"
proof -
  obtain o' s' k' where r: "recv_step (Senders i) (Waiting i) flag (is_empty s) (get s) s timeout k = Some (o', s', k')" "kinv b k'" "inv s'"
    "cap s' = cap s" "ipc_frame {Senders i, Waiting i} {} k k'"
    "case contents s of
       x # xs \<Rightarrow> o' = Done (RT_EOK, Some x) \<and> contents s' = xs \<and>
         tlists k' (Waiting i) = tlists k (Waiting i) \<and> tlists k' (Senders i) = tl (tlists k (Senders i))
     | [] \<Rightarrow> s' = s \<and> tlists k' (Senders i) = tlists k (Senders i) \<and>
       (if timeout = 0 then o' = Done (- RT_ETIMEOUT, None) \<and> tlists k' (Waiting i) = tlists k (Waiting i)
        else o' = Blocked \<and> state_of k' t = RT_THREAD_SUSPEND \<and> th_error (threads k' t) = RT_EOK \<and>
          tlists k' (Waiting i) = enqueue flag (\<lambda>x. current_priority (threads k x)) t (tlists k (Waiting i)))"
    using recv_spec [OF assms] by blast
  then show ?thesis
    by (intro exI [of _ o'] exI [of _ s'] exI [of _ k']) (auto simp: spec_recv_msg_def split: list.splits if_splits)
qed

lemma push_refines:
  assumes "kinv b k" "inv s" "fits s v" "current_thread k \<noteq> None" "\<not> is_full s"
  shows "\<exists>s' k' x. push v s = Some (True, s') \<and> wake_one (Waiting i) k = Some k' \<and> kinv b k' \<and> inv s' \<and> cap s' = cap s \<and>
    ipc_frame {Senders i, Waiting i} {} k k' \<and> stored v x \<and>
    (RT_EOK, contents s', tlists k' (Senders i), tlists k' (Waiting i)) =
      spec_push_msg (cap s) x (contents s, tlists k (Senders i), tlists k (Waiting i))"
proof -
  have l: "length (contents s) < cap s" using full_iff [OF assms(2)] bounded [OF assms(2)] assms(5) by simp
  obtain s' x where p: "push v s = Some (True, s')" "inv s'" "cap s' = cap s" "stored v x" "contents s' = x # contents s"
    using push_ok [OF assms(2,3) l] by blast
  obtain k' where k': "wake_one (Waiting i) k = Some k'" "kinv b k'" "ipc_frame {Waiting i} {} k k'"
    "tlists k' (Waiting i) = tl (tlists k (Waiting i))"
    by (rule wake_one_spec [OF assms(1,4) wait_list_simps(1)]) blast
  have "ipc_frame {Senders i, Waiting i} {} k k'" by (rule ipc_frame_mono [OF k'(3)]) auto
  moreover have "tlists k' (Senders i) = tlists k (Senders i)" using ipc_frameD(5) [OF k'(3), of "Senders i"] by simp
  ultimately show ?thesis using p k' l by (intro exI [of _ s'] exI [of _ k'] exI [of _ x]) (simp add: spec_push_msg_def)
qed

end

section \<open>Waking both sides\<close>

lemma resume_both_spec:
  assumes kinv: "kinv b k" and cur: "current_thread k \<noteq> None"
  obtains k' where "Option.bind (ipc_list_resume_all (Waiting i) k) (ipc_list_resume_all (Senders i)) = Some k'" "kinv b k'"
    "current_thread k' \<noteq> None" "ipc_frame {Senders i, Waiting i} {} k k'" "tlists k' (Waiting i) = []" "tlists k' (Senders i) = []"
    "\<And>x. x \<in> set (tlists k (Waiting i)) \<union> set (tlists k (Senders i)) \<Longrightarrow> th_error (threads k' x) = - RT_ERROR"
proof -
  from resume_all_spec [OF kinv wait_list_simps(1), of i] obtain k1 where
    k1: "ipc_list_resume_all (Waiting i) k = Some k1" "kinv b k1" "current_thread k1 = current_thread k" "ipc_frame {Waiting i} {} k k1"
    "tlists k1 (Waiting i) = []"
    "\<And>x. x \<in> set (tlists k (Waiting i)) \<Longrightarrow> th_error (threads k1 x) = - RT_ERROR \<and> state_of k1 x \<in> {RT_THREAD_READY, RT_THREAD_RUNNING}"
    by blast
  from resume_all_spec [OF k1(2) wait_list_simps(2), of i] obtain k2 where
    k2: "ipc_list_resume_all (Senders i) k1 = Some k2" "kinv b k2" "current_thread k2 = current_thread k1" "ipc_frame {Senders i} {} k1 k2"
    "tlists k2 (Senders i) = []" "\<And>x. x \<in> set (tlists k1 (Senders i)) \<Longrightarrow> th_error (threads k2 x) = - RT_ERROR"
    "\<And>x. x \<notin> set (tlists k1 (Senders i)) \<Longrightarrow> threads k2 x = threads k1 x"
    by blast
  have s: "tlists k1 (Senders i) = tlists k (Senders i)" using ipc_frameD(5) [OF k1(4), of "Senders i"] by simp
  have w: "tlists k2 (Waiting i) = []" using ipc_frameD(5) [OF k2(4), of "Waiting i"] k1(5) by simp
  have e: "th_error (threads k2 x) = - RT_ERROR" if "x \<in> set (tlists k (Waiting i)) \<union> set (tlists k (Senders i))" for x
  proof (cases "x \<in> set (tlists k (Senders i))")
    case False
    then have "x \<in> set (tlists k (Waiting i))" using that by blast
    from k1(6) [OF this] k2(7) [of x] False show ?thesis by (simp add: s)
  qed (use k2(6) s in auto)
  have f: "ipc_frame {Senders i, Waiting i} {} k k2"
    by (rule ipc_frame_trans [OF ipc_frame_mono [OF k1(4)] ipc_frame_mono [OF k2(4)]]) auto
  show thesis by (rule that [OF _ k2(2) _ f w k2(5) e]) (use k1 k2 cur in simp_all)
qed

lemma fresh_lists: "tlists k (Waiting i) = [] \<Longrightarrow> tlists k (Senders i) = [] \<Longrightarrow>
    ipc_object_init (Senders i) (ipc_object_init (Waiting i) k) = k"
  by (simp add: ipc_object_init_def fun_upd_idem)

section \<open>Who gets the processor\<close>

lemma send_step_fair:
  assumes "kinv 1 k" "runs t k" "flag \<in> {RT_IPC_FLAG_FIFO, RT_IPC_FLAG_PRIO}" "timeout < 2 ^ 31 - 1" "timeout \<noteq> 0 \<Longrightarrow> may_block t k"
    "send_step (Senders i) (Waiting i) flag full p s timeout k = Some (o', s', k')"
  shows "fair k k'"
proof -
  consider (no) "full" "timeout = 0" | (block) "full" "timeout \<noteq> 0" | (put) "\<not> full" by blast
  then show ?thesis
  proof cases
    case no
    then have "k' = set_error t RT_EOK k" using assms(6) runs_context(2) [OF assms(2)] by (simp add: send_step_def)
    then show ?thesis by (simp add: fairI)
  next
    case block
    then have "ipc_block (Senders i) t flag timeout (set_error t RT_EOK k) = Some k'"
      using assms(6) runs_context(2) [OF assms(2)] by (auto simp: send_step_def bind_eq_Some_conv Let_def)
    then show ?thesis
      by (rule block_fair [OF assms(1) order_refl assms(2) wait_list_simps(2) assms(3,4) assms(5) [OF block(2)] set_error_calm set_error_kinv [OF assms(1)]])
  next
    case put
    then have "k' = k \<or> wake_one (Waiting i) k = Some k'"
      using assms(6) by (auto simp: send_step_def bind_eq_Some_conv split: if_splits)
    then show ?thesis using wake_one_fair [OF assms(1) wait_list_simps(1)] by (auto intro: fairI)
  qed
qed

lemma recv_step_fair:
  assumes "kinv 1 k" "runs t k" "flag \<in> {RT_IPC_FLAG_FIFO, RT_IPC_FLAG_PRIO}" "timeout < 2 ^ 31 - 1" "timeout \<noteq> 0 \<Longrightarrow> may_block t k"
    "recv_step (Senders i) (Waiting i) flag mt g s timeout k = Some (o', s', k')"
  shows "fair k k'"
proof -
  consider (no) "mt" "timeout = 0" | (block) "mt" "timeout \<noteq> 0" | (got) "\<not> mt" by blast
  then show ?thesis
  proof cases
    case no
    then have "k' = set_error t (- RT_ETIMEOUT) (set_error t RT_EOK k)" using assms(6) runs_context(2) [OF assms(2)] by (simp add: recv_step_def)
    then show ?thesis using calm_trans [OF set_error_calm set_error_calm] by (intro fairI(1)) simp
  next
    case block
    then have "ipc_block (Waiting i) t flag timeout (set_error t RT_EOK k) = Some k'"
      using assms(6) runs_context(2) [OF assms(2)] by (auto simp: recv_step_def bind_eq_Some_conv Let_def)
    then show ?thesis
      by (rule block_fair [OF assms(1) order_refl assms(2) wait_list_simps(1) assms(3,4) assms(5) [OF block(2)] set_error_calm set_error_kinv [OF assms(1)]])
  next
    case got
    then have "wake_one (Senders i) k = Some k'"
      using assms(6) by (auto simp: recv_step_def bind_eq_Some_conv)
    then show ?thesis by (rule wake_one_fair [OF assms(1) wait_list_simps(2)])
  qed
qed


end
