(* ===== verification/Semaphore.thy ===== *)
theory Semaphore
  imports IpcBase
begin

text \<open>
  The semaphores of \<^verbatim>\<open>rt-thread/src/ipc.c\<close>. The semaphore number \<open>i\<close> has the suspend list
  \<open>Waiting i\<close>. The value is a 16-bit word with its overflow check. \<open>rt_sem_take\<close> ends with \<open>Blocked\<close>
  when the caller has been suspended; \<open>sem_take_return\<close> is its return value once it runs again.
\<close>

section \<open>Operations\<close>

record semaphore = ipc_object +
  sem_value :: u16

abbreviation RT_SEM_VALUE_MAX :: u16 where "RT_SEM_VALUE_MAX \<equiv> 0xffff"

definition rt_sem_init :: "nat \<Rightarrow> u32 \<Rightarrow> u8 \<Rightarrow> kernel \<Rightarrow> (semaphore \<times> kernel) option" where
  "rt_sem_init i val flag k = do {
     _ \<leftarrow> assert_that (val < 0x10000);
     Some (\<lparr>ipc_type = CLASS_SEMAPHORE OR CLASS_STATIC, ipc_flag = flag, sem_value = ucast val\<rparr>, ipc_object_init (Waiting i) k)
   }"

definition rt_sem_detach :: "nat \<Rightarrow> semaphore \<Rightarrow> kernel \<Rightarrow> (int \<times> semaphore \<times> kernel) option" where
  "rt_sem_detach i s k = do {
     _ \<leftarrow> assert_that (obj_is CLASS_SEMAPHORE (ipc_type s));
     _ \<leftarrow> assert_that (is_system (ipc_type s));
     k1 \<leftarrow> ipc_list_resume_all (Waiting i) k;
     Some (RT_EOK, s\<lparr>ipc_type := 0\<rparr>, k1)
   }"

text \<open>\<open>object\<close> is the answer of the allocator.\<close>

definition rt_sem_create :: "nat option \<Rightarrow> u32 \<Rightarrow> u8 \<Rightarrow> kernel \<Rightarrow> ((nat \<times> semaphore) option \<times> kernel) option" where
  "rt_sem_create object val flag k = do {
     _ \<leftarrow> not_in_interrupt k;
     _ \<leftarrow> assert_that (val < 0x10000);
     Some (case object of
       None \<Rightarrow> (None, k)
     | Some i \<Rightarrow> (Some (i, \<lparr>ipc_type = CLASS_SEMAPHORE, ipc_flag = flag, sem_value = ucast val\<rparr>), ipc_object_init (Waiting i) k))
   }"

definition rt_sem_delete :: "nat \<Rightarrow> semaphore \<Rightarrow> kernel \<Rightarrow> (int \<times> semaphore \<times> kernel) option" where
  "rt_sem_delete i s k = do {
     _ \<leftarrow> not_in_interrupt k;
     _ \<leftarrow> assert_that (obj_is CLASS_SEMAPHORE (ipc_type s));
     _ \<leftarrow> assert_that (\<not> is_system (ipc_type s));
     k1 \<leftarrow> ipc_list_resume_all (Waiting i) k;
     Some (RT_EOK, s\<lparr>ipc_type := 0\<rparr>, k1)
   }"

definition rt_sem_take :: "nat \<Rightarrow> semaphore \<Rightarrow> int \<Rightarrow> kernel \<Rightarrow> (int outcome \<times> semaphore \<times> kernel) option" where
  "rt_sem_take i s time k = do {
     _ \<leftarrow> assert_that (obj_is CLASS_SEMAPHORE (ipc_type s));
     if sem_value s > 0 then Some (Done RT_EOK, s\<lparr>sem_value := sem_value s - 1\<rparr>, k)
     else if time = 0 then Some (Done (- RT_ETIMEOUT), s, k)
     else do {
       _ \<leftarrow> in_thread_context k;
       t \<leftarrow> rt_thread_self k;
       k1 \<leftarrow> ipc_block (Waiting i) t (ipc_flag s) time (set_error t RT_EOK k);
       Some (Blocked, s, k1)
     }
   }"

definition sem_take_return :: "nat \<Rightarrow> kernel \<Rightarrow> int" where
  "sem_take_return t k = (if th_error (threads k t) \<noteq> RT_EOK then th_error (threads k t) else RT_EOK)"

definition rt_sem_trytake :: "nat \<Rightarrow> semaphore \<Rightarrow> kernel \<Rightarrow> (int outcome \<times> semaphore \<times> kernel) option" where
  "rt_sem_trytake i s k = rt_sem_take i s 0 k"

definition rt_sem_release :: "nat \<Rightarrow> semaphore \<Rightarrow> kernel \<Rightarrow> (int \<times> semaphore \<times> kernel) option" where
  "rt_sem_release i s k = do {
     _ \<leftarrow> assert_that (obj_is CLASS_SEMAPHORE (ipc_type s));
     if tlists k (Waiting i) \<noteq> []
     then do {
       k1 \<leftarrow> wake_one (Waiting i) k;
       Some (RT_EOK, s, k1)
     }
     else if sem_value s < RT_SEM_VALUE_MAX then Some (RT_EOK, s\<lparr>sem_value := sem_value s + 1\<rparr>, k)
     else Some (- RT_EFULL, s, k)
   }"

definition rt_sem_control :: "nat \<Rightarrow> semaphore \<Rightarrow> ipc_cmd \<Rightarrow> kernel \<Rightarrow> (int \<times> semaphore \<times> kernel) option" where
  "rt_sem_control i s cmd k = do {
     _ \<leftarrow> assert_that (obj_is CLASS_SEMAPHORE (ipc_type s));
     case cmd of
       ResetCmd val \<Rightarrow> do {
         k1 \<leftarrow> ipc_list_resume_all (Waiting i) k;
         k2 \<leftarrow> rt_schedule k1;
         Some (RT_EOK, s\<lparr>sem_value := ucast val\<rparr>, k2)
       }
     | OtherIpcCmd \<Rightarrow> Some (- RT_ERROR, s, k)
   }"

section \<open>The invariant\<close>

text \<open>No thread waits while there is something to take.\<close>

definition sem_ok :: "nat \<Rightarrow> semaphore \<Rightarrow> kernel \<Rightarrow> bool" where
  "sem_ok i s k \<longleftrightarrow> obj_is CLASS_SEMAPHORE (ipc_type s) \<and> ipc_flag s \<in> {RT_IPC_FLAG_FIFO, RT_IPC_FLAG_PRIO} \<and>
     (sem_value s > 0 \<longrightarrow> tlists k (Waiting i) = [])"

lemma sem_okD:
  "sem_ok i s k \<Longrightarrow> obj_is CLASS_SEMAPHORE (ipc_type s)" "sem_ok i s k \<Longrightarrow> ipc_flag s \<in> {RT_IPC_FLAG_FIFO, RT_IPC_FLAG_PRIO}"
  "sem_ok i s k \<Longrightarrow> sem_value s > 0 \<Longrightarrow> tlists k (Waiting i) = []"
  by (simp_all add: sem_ok_def)

lemma sem_ok_mono: "sem_ok i s k \<Longrightarrow> set (tlists k' (Waiting i)) \<subseteq> set (tlists k (Waiting i)) \<Longrightarrow> sem_ok i s k'"
  by (auto simp: sem_ok_def)

text \<open>The object as its users see it: the number of free units and the queue of the threads that
  wait for one.\<close>

definition sem_abs :: "nat \<Rightarrow> semaphore \<Rightarrow> kernel \<Rightarrow> nat \<times> nat list" where
  "sem_abs i s k = (unat (sem_value s), tlists k (Waiting i))"

section \<open>Taking and releasing\<close>

text \<open>Waiting for a unit.\<close>

lemma sem_block_spec:
  assumes kinv: "kinv b k" and b: "b \<le> 1" and ok: "sem_ok i s k" and r: "runs t k" and v: "sem_value s = 0"
    and time: "time \<noteq> 0" "time < 2 ^ 31 - 1"
  obtains k' where "rt_sem_take i s time k = Some (Blocked, s, k')" "kinv b k'" "sem_ok i s k'"
    "ipc_frame {Waiting i} {} k k'" "current_thread k' \<noteq> None" "state_of k' t = RT_THREAD_SUSPEND" "th_error (threads k' t) = RT_EOK"
    "tlists k' (Waiting i) = enqueue (ipc_flag s) (\<lambda>x. current_priority (threads k x)) t (tlists k (Waiting i))"
    "time > 0 \<Longrightarrow> ThreadTimer t \<in> set (tmlists k' HardList) \<and> timeout_tick (timers k' (ThreadTimer t)) = tick k + word_of_int time"
proof -
  define k0 where "k0 = set_error t RT_EOK k"
  have k0: "kinv b k0" unfolding k0_def by (rule set_error_kinv [OF kinv])
  have r0: "current_thread k0 = Some t" "state_of k0 t = RT_THREAD_RUNNING" using r by (simp_all add: runs_def k0_def)
  obtain k' where k': "ipc_block (Waiting i) t (ipc_flag s) time k0 = Some k'" "kinv b k'" "ipc_frame {Waiting i} {} k0 k'"
    "current_thread k' \<noteq> None"
    "tlists k' (Waiting i) = enqueue (ipc_flag s) (\<lambda>x. current_priority (threads k0 x)) t (tlists k0 (Waiting i))"
    "state_of k' t = RT_THREAD_SUSPEND" "\<And>x. th_error (threads k' x) = th_error (threads k0 x)"
    "time > 0 \<Longrightarrow> ThreadTimer t \<in> set (tmlists k' HardList) \<and> timeout_tick (timers k' (ThreadTimer t)) = tick k0 + word_of_int time"
    by (rule block_frame [OF k0 b r0 wait_list_simps(1) sem_okD(2) [OF ok] time(2)]) blast
  have run: "rt_sem_take i s time k = Some (Blocked, s, k')"
    using sem_okD(1) [OF ok] v time(1) runs_context [OF r] k'(1) by (simp add: rt_sem_take_def k0_def)
  have f: "ipc_frame {Waiting i} {} k k'" by (rule ipc_frame_trans [OF _ k'(3)]) (simp add: k0_def)
  have ok': "sem_ok i s k'" using sem_okD(1,2) [OF ok] v by (simp add: sem_ok_def)
  have e: "th_error (threads k' t) = RT_EOK" by (simp add: k'(7) k0_def)
  show thesis
    by (rule that [OF run k'(2) ok' f k'(4,6) e]) (use k'(5,8) in \<open>simp_all add: k0_def\<close>)
qed

lemma sem_take_spec:
  assumes kinv: "kinv b k" and b: "b \<le> 1" and ok: "sem_ok i s k" and r: "runs t k" and time: "time < 2 ^ 31 - 1"
  obtains o' s' k' where "rt_sem_take i s time k = Some (o', s', k')" "kinv b k'" "sem_ok i s' k'"
    "ipc_frame {Waiting i} {} k k'" "current_thread k' \<noteq> None"
proof -
  consider (got) "sem_value s > 0" | (no) "sem_value s = 0" "time = 0" | (block) "sem_value s = 0" "time \<noteq> 0"
    using word_neq_0_conv by blast
  then show thesis
  proof cases
    case got
    have ok': "sem_ok i (s\<lparr>sem_value := sem_value s - 1\<rparr>) k" using ok sem_okD(3) [OF ok got] by (simp add: sem_ok_def)
    show thesis
      by (rule that [OF _ kinv ok']) (use got r sem_okD(1) [OF ok] in \<open>simp_all add: rt_sem_take_def runs_def\<close>)
  next
    case no
    show thesis
      by (rule that [OF _ kinv ok]) (use no r sem_okD(1) [OF ok] in \<open>simp_all add: rt_sem_take_def runs_def\<close>)
  next
    case block
    show thesis by (rule sem_block_spec [OF kinv b ok r block time]) (rule that; assumption)
  qed
qed

lemma sem_release_spec:
  assumes kinv: "kinv b k" and ok: "sem_ok i s k" and cur: "current_thread k \<noteq> None"
  obtains e s' k' where "rt_sem_release i s k = Some (e, s', k')" "kinv b k'" "sem_ok i s' k'"
    "ipc_frame {Waiting i} {} k k'" "current_thread k' \<noteq> None"
    "\<And>x. th_error (threads k' x) = th_error (threads k x)"
    "case tlists k (Waiting i) of
       [] \<Rightarrow> k' = k \<and> (if unat (sem_value s) < 65535 then e = RT_EOK \<and> unat (sem_value s') = unat (sem_value s) + 1
               else e = - RT_EFULL \<and> s' = s)
     | w # ws \<Rightarrow> e = RT_EOK \<and> s' = s \<and> tlists k' (Waiting i) = ws \<and> state_of k' w \<noteq> RT_THREAD_SUSPEND"
proof (cases "tlists k (Waiting i)")
  case Nil
  note ty = sem_okD(1) [OF ok]
  show thesis
  proof (cases "sem_value s < RT_SEM_VALUE_MAX")
    case True
    then have v: "unat (sem_value s) < 65535" by (simp add: word_less_nat_alt)
    then have "unat (sem_value s + 1) = unat (sem_value s) + 1" by (simp add: unat_word_ariths)
    moreover have "sem_ok i (s\<lparr>sem_value := sem_value s + 1\<rparr>) k" using ok Nil by (simp add: sem_ok_def)
    ultimately show thesis
      using True v ty Nil kinv cur by (intro that [of RT_EOK "s\<lparr>sem_value := sem_value s + 1\<rparr>" k]) (simp_all add: rt_sem_release_def)
  next
    case False
    then have "\<not> unat (sem_value s) < 65535" by (simp add: word_less_nat_alt)
    then show thesis
      using False ty Nil kinv cur ok by (intro that [of "- RT_EFULL" s k]) (simp_all add: rt_sem_release_def)
  qed
next
  case (Cons w ws)
  obtain k' where k': "wake_one (Waiting i) k = Some k'" "kinv b k'" "ipc_frame {Waiting i} {} k k'" "current_thread k' \<noteq> None"
    "tlists k' (Waiting i) = tl (tlists k (Waiting i))" "\<And>x. th_error (threads k' x) = th_error (threads k x)"
    "\<And>x. state_of k' x = RT_THREAD_SUSPEND \<longleftrightarrow> state_of k x = RT_THREAD_SUSPEND \<and> x \<notin> set (take 1 (tlists k (Waiting i)))"
    by (rule wake_one_spec [OF kinv cur wait_list_simps(1)]) blast
  have run: "rt_sem_release i s k = Some (RT_EOK, s, k')"
    using sem_okD(1) [OF ok] k'(1) by (simp add: rt_sem_release_def Cons)
  have ok': "sem_ok i s k'" by (rule sem_ok_mono [OF ok]) (auto simp: k'(5) Cons)
  have "state_of k' w \<noteq> RT_THREAD_SUSPEND" unfolding k'(7) by (simp add: Cons)
  then show thesis
    by (intro that [OF run k'(2) ok' k'(3,4,6)]) (simp add: Cons k'(5))
qed

section \<open>The contract of a semaphore\<close>

text \<open>A counting semaphore with a queue: what the operations promise, over the number of free units
  and the waiting threads.\<close>

definition spec_take :: "u8 \<Rightarrow> (nat \<Rightarrow> nat) \<Rightarrow> nat \<Rightarrow> int \<Rightarrow> nat \<times> nat list \<Rightarrow> int outcome \<times> nat \<times> nat list" where
  "spec_take flag prio t time a =
    (case a of (v, q) \<Rightarrow>
       if v > 0 then (Done RT_EOK, v - 1, q)
       else if time = 0 then (Done (- RT_ETIMEOUT), v, q)
       else (Blocked, v, enqueue flag prio t q))"

definition spec_release :: "nat \<times> nat list \<Rightarrow> int \<times> nat \<times> nat list" where
  "spec_release a =
    (case a of
       (v, w # ws) \<Rightarrow> (RT_EOK, v, ws)
     | (v, []) \<Rightarrow> if v < 65535 then (RT_EOK, v + 1, []) else (- RT_EFULL, v, []))"

lemma sem_take_refines:
  assumes "kinv 1 k" "sem_ok i s k" "runs t k" "time < 2 ^ 31 - 1"
  shows "\<exists>o' s' k'. rt_sem_take i s time k = Some (o', s', k') \<and>
      (o', sem_abs i s' k') = spec_take (ipc_flag s) (\<lambda>x. current_priority (threads k x)) t time (sem_abs i s k) \<and>
      kinv 1 k' \<and> sem_ok i s' k' \<and> ipc_frame {Waiting i} {} k k'"
proof -
  note ok = assms(2)
  show ?thesis
  proof (cases "sem_value s = 0")
    case False
    then have v: "sem_value s > 0" "0 < unat (sem_value s)" by (simp_all add: word_neq_0_conv unat_gt_0)
    have "sem_ok i (s\<lparr>sem_value := sem_value s - 1\<rparr>) k" using ok sem_okD(3) [OF ok v(1)] by (simp add: sem_ok_def)
    moreover have "unat (sem_value s - 1) = unat (sem_value s) - 1" using False by (simp add: unat_minus_one)
    moreover have "rt_sem_take i s time k = Some (Done RT_EOK, s\<lparr>sem_value := sem_value s - 1\<rparr>, k)"
      using sem_okD(1) [OF ok] v by (simp add: rt_sem_take_def)
    ultimately show ?thesis
      using v(2) assms(1) by (intro exI [of _ "Done RT_EOK"] exI [of _ "s\<lparr>sem_value := sem_value s - 1\<rparr>"] exI [of _ k])
        (simp add: spec_take_def sem_abs_def)
  next
    case v: True
    show ?thesis
    proof (cases "time = 0")
      case True
      then show ?thesis
        using v ok sem_okD(1) [OF ok] assms(1) by (intro exI [of _ "Done (- RT_ETIMEOUT)"] exI [of _ s] exI [of _ k])
          (simp add: rt_sem_take_def spec_take_def sem_abs_def)
    next
      case False
      obtain k' where "rt_sem_take i s time k = Some (Blocked, s, k')" "kinv 1 k'" "sem_ok i s k'" "ipc_frame {Waiting i} {} k k'"
        "tlists k' (Waiting i) = enqueue (ipc_flag s) (\<lambda>x. current_priority (threads k x)) t (tlists k (Waiting i))"
        by (rule sem_block_spec [OF assms(1) _ ok assms(3) v False assms(4)]) auto
      then show ?thesis
        using v False by (intro exI [of _ Blocked] exI [of _ s] exI [of _ k']) (simp add: spec_take_def sem_abs_def)
    qed
  qed
qed

lemma sem_release_refines:
  assumes "kinv 1 k" "sem_ok i s k" "runs t k" "time < 2 ^ 31 - 1"
  shows "\<exists>e s' k'. rt_sem_release i s k = Some (e, s', k') \<and> (e, sem_abs i s' k') = spec_release (sem_abs i s k) \<and>
      kinv 1 k' \<and> sem_ok i s' k' \<and> ipc_frame {Waiting i} {} k k' \<and>
      (\<forall>w. tlists k (Waiting i) \<noteq> [] \<and> w = hd (tlists k (Waiting i)) \<longrightarrow>
        state_of k' w \<noteq> RT_THREAD_SUSPEND \<and> th_error (threads k' w) = th_error (threads k w))"
proof -
  obtain e s' k' where "rt_sem_release i s k = Some (e, s', k')" "kinv 1 k'" "sem_ok i s' k'"
    "ipc_frame {Waiting i} {} k k'" "\<And>x. th_error (threads k' x) = th_error (threads k x)"
    "case tlists k (Waiting i) of
       [] \<Rightarrow> k' = k \<and> (if unat (sem_value s) < 65535 then e = RT_EOK \<and> unat (sem_value s') = unat (sem_value s) + 1
               else e = - RT_EFULL \<and> s' = s)
     | w # ws \<Rightarrow> e = RT_EOK \<and> s' = s \<and> tlists k' (Waiting i) = ws \<and> state_of k' w \<noteq> RT_THREAD_SUSPEND"
    by (rule sem_release_spec [OF assms(1,2) runs_tail [OF assms(3)]]) blast
  then show ?thesis
    by (intro exI [of _ e] exI [of _ s'] exI [of _ k'])
      (cases "tlists k (Waiting i)", auto simp: spec_release_def sem_abs_def split: if_splits)
qed

text \<open>C11: taking and releasing a semaphore refine a counting semaphore with a queue. In a sound kernel, for a
  running thread and a time limit below half of the range of the tick, \<open>rt_sem_take\<close> and
  \<open>rt_sem_release\<close> do not go wrong, keep the invariant of the kernel and of the semaphore (no thread waits while
  there is a free unit), and act on the count and the queue as the abstract operations: a take gets
  a unit, times out at once, or queues the thread in the order of its flag; a release hands the unit to
  the first waiting thread, which is not suspended any more and whose error number is untouched, or counts
  it, with an error when the 16-bit count is full. No other wait list changes.\<close>

theorem sem_refines:
  assumes "kinv 1 k" "sem_ok i s k" "runs t k" "time < 2 ^ 31 - 1"
  shows "(\<exists>o' s' k'. rt_sem_take i s time k = Some (o', s', k') \<and>
      (o', sem_abs i s' k') = spec_take (ipc_flag s) (\<lambda>x. current_priority (threads k x)) t time (sem_abs i s k) \<and>
      kinv 1 k' \<and> sem_ok i s' k' \<and> ipc_frame {Waiting i} {} k k')
    \<and> (\<exists>e s' k'. rt_sem_release i s k = Some (e, s', k') \<and> (e, sem_abs i s' k') = spec_release (sem_abs i s k) \<and>
      kinv 1 k' \<and> sem_ok i s' k' \<and> ipc_frame {Waiting i} {} k k' \<and>
      (\<forall>w. tlists k (Waiting i) \<noteq> [] \<and> w = hd (tlists k (Waiting i)) \<longrightarrow>
        state_of k' w \<noteq> RT_THREAD_SUSPEND \<and> th_error (threads k' w) = th_error (threads k w)))"
  using sem_take_refines [OF assms] sem_release_refines [OF assms] by (rule conjI)

definition demo_sem :: "u16 \<Rightarrow> semaphore" where
  "demo_sem v = \<lparr>ipc_type = CLASS_SEMAPHORE, ipc_flag = RT_IPC_FLAG_PRIO, sem_value = v\<rparr>"

lemma demo_sem_ok: "sem_ok i (demo_sem v) four_threads"
  by (simp add: sem_ok_def demo_sem_def obj_is_def demo_facts)

theorem sem_refines_witness:
  "\<exists>k'. rt_sem_take 0 (demo_sem 0) 5 four_threads = Some (Blocked, demo_sem 0, k') \<and> tlists k' (Waiting 0) = [1]"
proof -
  from sem_refines [OF four_threads_inv demo_sem_ok demo_runs, of 5 0 0]
  obtain o' s' k' where r: "rt_sem_take 0 (demo_sem 0) 5 four_threads = Some (o', s', k')"
    "(o', sem_abs 0 s' k') = spec_take 1 (\<lambda>x. current_priority (threads four_threads x)) 1 5 (sem_abs 0 (demo_sem 0) four_threads)"
    by (auto simp: demo_sem_def)
  then have "o' = Blocked" "tlists k' (Waiting 0) = [1]"
    by (simp_all add: spec_take_def sem_abs_def demo_sem_def demo_facts enqueue_def)
  moreover have "s' = demo_sem 0" using r(1) \<open>o' = Blocked\<close>
    by (auto simp: rt_sem_take_def demo_sem_def split: if_splits bind_splits)
  ultimately show ?thesis using r(1) by auto
qed





section \<open>Who gets the processor\<close>

lemma sem_take_fair:
  assumes "kinv 1 k" "sem_ok i s k" "runs t k" "time < 2 ^ 31 - 1" "time \<noteq> 0 \<Longrightarrow> may_block t k" "rt_sem_take i s time k = Some (o', s', k')"
  shows "fair k k'"
proof (cases "sem_value s > 0 \<or> time = 0")
  case True
  then have "k' = k" using assms(6) by (auto simp: rt_sem_take_def split: if_splits)
  then show ?thesis by (simp add: fairI)
next
  case False
  then have "ipc_block (Waiting i) t (ipc_flag s) time (set_error t RT_EOK k) = Some k'"
    using assms(6) runs_context [OF assms(3)] by (auto simp: rt_sem_take_def bind_eq_Some_conv split: if_splits)
  with block_fair [OF assms(1) order_refl assms(3) wait_list_simps(1) sem_okD(2) [OF assms(2)] assms(4)] False assms(5) set_error_kinv [OF assms(1)]
  show ?thesis by blast
qed

lemma sem_release_fair:
  assumes "kinv b k" "rt_sem_release i s k = Some (e, s', k')"
  shows "fair k k'"
  using assms(2) wake_one_fair [OF assms(1) wait_list_simps(1), of i k']
  by (auto simp: rt_sem_release_def bind_eq_Some_conv fairI split: if_splits)


end
