(* ===== verification/Heap.thy ===== *)
theory Heap
  imports Semaphore KString
begin

text \<open>
  The system heap, the small memory allocator of \<^verbatim>\<open>rt-thread/src/mem.c\<close> (the configuration has
  \<^verbatim>\<open>RT_USING_SMALL_MEM\<close>). The heap is a stretch of memory that is cut into blocks; each block starts
  with a header of 12 bytes with the offsets of its neighbours, and ends where the next one starts. The
  headers are in the byte memory itself, so what the allocator writes and what the
  owners of blocks write meet in the same memory. Pointers and offsets are 32-bit words, as on the target.
  \<open>RT_USING_MEMTRACE\<close> is off, \<open>RT_MEM_STATS\<close> is on.
\<close>

section \<open>Headers in memory\<close>

abbreviation HEAP_MAGIC :: u16 where "HEAP_MAGIC \<equiv> 0x1ea0"
abbreviation MIN_SIZE :: u32 where "MIN_SIZE \<equiv> 12"
abbreviation MIN_SIZE_ALIGNED :: u32 where "MIN_SIZE_ALIGNED \<equiv> 12"
abbreviation SIZEOF_STRUCT_MEM :: u32 where "SIZEOF_STRUCT_MEM \<equiv> 12"

record heap_mem =
  h_magic :: u16
  h_used :: u16
  h_next :: u32
  h_prev :: u32

definition store16 :: "nat \<Rightarrow> u16 \<Rightarrow> mem \<Rightarrow> mem" where
  "store16 a w m = mem_store a [ucast w, ucast (drop_bit 8 w)] m"

definition load16 :: "nat \<Rightarrow> mem \<Rightarrow> u16" where
  "load16 a m = ucast (m a) OR push_bit 8 (ucast (m (a + 1)))"

definition header :: "nat \<Rightarrow> mem \<Rightarrow> heap_mem" where
  "header a m = \<lparr>h_magic = load16 a m, h_used = load16 (a + 2) m, h_next = load32 (a + 4) m, h_prev = load32 (a + 8) m\<rparr>"

section \<open>The state\<close>

text \<open>The static variables of mem.c and the memory. \<open>lfree\<close> and \<open>heap_end\<close> are addresses.\<close>

record heap =
  heap_ptr :: u32
  heap_end :: u32
  lfree :: u32
  mem_size_aligned :: u32
  used_mem :: u32
  max_mem :: u32
  bytes :: mem

definition hdr :: "heap \<Rightarrow> u32 \<Rightarrow> heap_mem" where
  "hdr h p = header (unat p) (bytes h)"

definition set_magic :: "u32 \<Rightarrow> u16 \<Rightarrow> heap \<Rightarrow> heap" where
  "set_magic p v h = h\<lparr>bytes := store16 (unat p) v (bytes h)\<rparr>"

definition set_used :: "u32 \<Rightarrow> u16 \<Rightarrow> heap \<Rightarrow> heap" where
  "set_used p v h = h\<lparr>bytes := store16 (unat p + 2) v (bytes h)\<rparr>"

definition set_next :: "u32 \<Rightarrow> u32 \<Rightarrow> heap \<Rightarrow> heap" where
  "set_next p v h = h\<lparr>bytes := store32 (unat p + 4) v (bytes h)\<rparr>"

definition set_prev :: "u32 \<Rightarrow> u32 \<Rightarrow> heap \<Rightarrow> heap" where
  "set_prev p v h = h\<lparr>bytes := store32 (unat p + 8) v (bytes h)\<rparr>"

text \<open>The address of \<open>heap_ptr[ptr]\<close>.\<close>

definition node :: "heap \<Rightarrow> u32 \<Rightarrow> u32" where
  "node h ptr = heap_ptr h + ptr"

section \<open>The operations\<close>

text \<open>The two halves of \<open>plug_holes\<close>: a free block swallows the one behind it, and is swallowed by the one
  before it.\<close>

definition join_next :: "u32 \<Rightarrow> heap \<Rightarrow> heap" where
  "join_next mem h =
    (let nmem = node h (h_next (hdr h mem))
     in if mem \<noteq> nmem \<and> h_used (hdr h nmem) = 0 \<and> nmem \<noteq> heap_end h
        then let ha = (if lfree h = nmem then h\<lparr>lfree := mem\<rparr> else h);
                 hb = set_next mem (h_next (hdr ha nmem)) ha
             in set_prev (node hb (h_next (hdr hb nmem))) (mem - heap_ptr hb) hb
        else h)"

definition join_prev :: "u32 \<Rightarrow> heap \<Rightarrow> heap" where
  "join_prev mem h =
    (let pmem = node h (h_prev (hdr h mem))
     in if pmem \<noteq> mem \<and> h_used (hdr h pmem) = 0
        then let ha = (if lfree h = mem then h\<lparr>lfree := pmem\<rparr> else h);
                 hb = set_next pmem (h_next (hdr ha mem)) ha
             in set_prev (node hb (h_next (hdr hb mem))) (pmem - heap_ptr hb) hb
        else h)"

definition plug_holes :: "u32 \<Rightarrow> heap \<Rightarrow> heap option" where
  "plug_holes mem h = do {
     _ \<leftarrow> assert_that (heap_ptr h \<le> mem);
     _ \<leftarrow> assert_that (mem < heap_end h);
     _ \<leftarrow> assert_that (h_used (hdr h mem) = 0);
     Some (join_prev mem (join_next mem h))
   }"

text \<open>The heap semaphore has the number \<open>i\<close>. When the bounds are wrong, a message is printed and
  nothing is set up: the value is \<open>Inl\<close>.\<close>

definition rt_system_heap_init ::
  "nat \<Rightarrow> u32 \<Rightarrow> u32 \<Rightarrow> heap \<Rightarrow> kernel \<Rightarrow> (heap + heap \<times> semaphore \<times> kernel) option" where
  "rt_system_heap_init i begin_addr end_addr h k = (
     let begin_align = RT_ALIGN begin_addr RT_ALIGN_SIZE;
         end_align = RT_ALIGN_DOWN end_addr RT_ALIGN_SIZE
     in do {
       _ \<leftarrow> not_in_interrupt k;
       if end_align > 2 * SIZEOF_STRUCT_MEM \<and> end_align - 2 * SIZEOF_STRUCT_MEM \<ge> begin_align
       then
         let sz = end_align - begin_align - 2 * SIZEOF_STRUCT_MEM;
             h1 = h\<lparr>mem_size_aligned := sz, heap_ptr := begin_align\<rparr>;
             mem = begin_align;
             h2 = set_used mem 0 (set_prev mem 0 (set_next mem (sz + SIZEOF_STRUCT_MEM) (set_magic mem HEAP_MAGIC h1)));
             e = node h2 (h_next (hdr h2 mem));
             h3 = h2\<lparr>heap_end := e\<rparr>;
             h4 = set_prev e (sz + SIZEOF_STRUCT_MEM) (set_next e (sz + SIZEOF_STRUCT_MEM) (set_used e 1 (set_magic e HEAP_MAGIC h3)))
         in do {
           (s, k1) \<leftarrow> rt_sem_init i 1 RT_IPC_FLAG_PRIO k;
           Some (Inr (h4\<lparr>lfree := begin_align\<rparr>, s, k1))
         }
       else Some (Inl h)
     })"

text \<open>The search from \<open>ptr\<close> on: \<open>Some None\<close> when no block fits.\<close>

partial_function (option) find_fit :: "u32 \<Rightarrow> heap \<Rightarrow> u32 \<Rightarrow> u32 option option" where
  "find_fit sz h ptr =
    (if ptr < mem_size_aligned h - sz
     then let mem = hdr h (node h ptr)
          in if h_used mem = 0 \<and> h_next mem - (ptr + SIZEOF_STRUCT_MEM) \<ge> sz then Some (Some ptr)
             else find_fit sz h (h_next mem)
     else Some None)"

definition count_used :: "u32 \<Rightarrow> heap \<Rightarrow> heap" where
  "count_used n h =
    (let h1 = h\<lparr>used_mem := used_mem h + n\<rparr>
     in if max_mem h1 < used_mem h1 then h1\<lparr>max_mem := used_mem h1\<rparr> else h1)"

text \<open>The block at \<open>ptr\<close> is cut in two, the first of \<open>sz\<close> bytes; the second is free. The link
  back from the next block is set unless that is the end of the heap.\<close>

definition cut_block :: "u32 \<Rightarrow> u32 \<Rightarrow> heap \<Rightarrow> heap" where
  "cut_block ptr sz h =
    (let mem = node h ptr;
         ptr2 = ptr + SIZEOF_STRUCT_MEM + sz;
         mem2 = node h ptr2;
         h1 = set_used mem2 0 (set_magic mem2 HEAP_MAGIC h);
         h2 = set_prev mem2 ptr (set_next mem2 (h_next (hdr h1 mem)) h1)
     in set_next mem ptr2 h2)"

definition link_back :: "u32 \<Rightarrow> heap \<Rightarrow> heap" where
  "link_back ptr2 h =
    (let nxt = h_next (hdr h (node h ptr2))
     in if nxt \<noteq> mem_size_aligned h + SIZEOF_STRUCT_MEM then set_prev (node h nxt) ptr2 h else h)"

definition take_block :: "u32 \<Rightarrow> u32 \<Rightarrow> heap \<Rightarrow> heap" where
  "take_block ptr sz h =
    (let mem = node h ptr;
         h1 = (if h_next (hdr h mem) - (ptr + SIZEOF_STRUCT_MEM) \<ge> sz + SIZEOF_STRUCT_MEM + MIN_SIZE_ALIGNED
               then count_used (sz + SIZEOF_STRUCT_MEM)
                 (link_back (ptr + SIZEOF_STRUCT_MEM + sz) (set_used mem 1 (cut_block ptr sz h)))
               else (let ha = set_used mem 1 h in count_used (h_next (hdr ha mem) - (mem - heap_ptr ha)) ha))
     in set_magic mem HEAP_MAGIC h1)"

partial_function (option) next_free :: "heap \<Rightarrow> u32 \<Rightarrow> u32 option" where
  "next_free h p =
    (if h_used (hdr h p) \<noteq> 0 \<and> p \<noteq> heap_end h then next_free h (node h (h_next (hdr h p))) else Some p)"

text \<open>What \<open>rt_malloc\<close> does while it holds the semaphore; the result is the address of the block, or none.\<close>

definition malloc_section :: "u32 \<Rightarrow> heap \<Rightarrow> (u32 option \<times> heap) option" where
  "malloc_section sz h = do {
     found \<leftarrow> find_fit sz h (lfree h - heap_ptr h);
     case found of
       None \<Rightarrow> Some (None, h)
     | Some ptr \<Rightarrow>
         let mem = node h ptr; h1 = take_block ptr sz h
         in do {
           h2 \<leftarrow> (if mem = lfree h1
                 then do {
                   p \<leftarrow> next_free h1 (lfree h1);
                   _ \<leftarrow> assert_that (p = heap_end h1 \<or> h_used (hdr h1 p) = 0);
                   Some (h1\<lparr>lfree := p\<rparr>)
                 }
                 else Some h1);
           Some (Some mem, h2)
         }
   }"

text \<open>A section between \<open>rt_sem_take(&heap_sem, RT_WAITING_FOREVER)\<close> and \<open>rt_sem_release(&heap_sem)\<close>. When another
  thread holds the semaphore, the call blocks.\<close>

definition locked :: "nat \<Rightarrow> (heap \<Rightarrow> ('a \<times> heap) option) \<Rightarrow> heap \<Rightarrow> semaphore \<Rightarrow> kernel \<Rightarrow>
    ('a outcome \<times> heap \<times> semaphore \<times> kernel) option" where
  "locked i act h s k = do {
     (o', s1, k1) \<leftarrow> rt_sem_take i s (- 1) k;
     (case o' of
        Blocked \<Rightarrow> Some (Blocked, h, s1, k1)
      | Done _ \<Rightarrow> do {
          (x, h1) \<leftarrow> act h;
          (_, s2, k2) \<leftarrow> rt_sem_release i s1 k1;
          Some (Done x, h1, s2, k2)
        })
   }"

text \<open>The value 0 is \<open>RT_NULL\<close>.\<close>

definition rt_malloc :: "nat \<Rightarrow> u32 \<Rightarrow> heap \<Rightarrow> semaphore \<Rightarrow> kernel \<Rightarrow> (u32 outcome \<times> heap \<times> semaphore \<times> kernel) option" where
  "rt_malloc i sz h s k =
    (if sz = 0 then Some (Done 0, h, s, k)
     else do {
       _ \<leftarrow> not_in_interrupt k;
       let sz1 = RT_ALIGN sz RT_ALIGN_SIZE;
       if sz1 > mem_size_aligned h then Some (Done 0, h, s, k)
       else do {
         let n = (if sz1 < MIN_SIZE_ALIGNED then MIN_SIZE_ALIGNED else sz1);
         (o', h1, s1, k1) \<leftarrow> locked i (malloc_section n) h s k;
         (case o' of
            Blocked \<Rightarrow> Some (Blocked, h1, s1, k1)
          | Done None \<Rightarrow> Some (Done 0, h1, s1, k1)
          | Done (Some mem) \<Rightarrow> do {
              _ \<leftarrow> assert_that (mem + SIZEOF_STRUCT_MEM + n \<le> heap_end h1);
              _ \<leftarrow> assert_that ((mem + SIZEOF_STRUCT_MEM) mod RT_ALIGN_SIZE = 0);
              _ \<leftarrow> assert_that (mem AND (RT_ALIGN_SIZE - 1) = 0);
              Some (Done (mem + SIZEOF_STRUCT_MEM), h1, s1, k1)
            })
       }
     })"

definition free_section :: "u32 \<Rightarrow> heap \<Rightarrow> (unit \<times> heap) option" where
  "free_section mem h = do {
     _ \<leftarrow> assert_that (h_used (hdr h mem) \<noteq> 0);
     _ \<leftarrow> assert_that (h_magic (hdr h mem) = HEAP_MAGIC);
     let h1 = set_magic mem HEAP_MAGIC (set_used mem 0 h);
     let h2 = (if mem < lfree h1 then h1\<lparr>lfree := mem\<rparr> else h1);
     let h3 = h2\<lparr>used_mem := used_mem h2 - (h_next (hdr h2 mem) - (mem - heap_ptr h2))\<rparr>;
     h4 \<leftarrow> plug_holes mem h3;
     Some ((), h4)
   }"

text \<open>The test for an illegal address that follows the assertions never succeeds.\<close>

definition rt_free :: "nat \<Rightarrow> u32 \<Rightarrow> heap \<Rightarrow> semaphore \<Rightarrow> kernel \<Rightarrow> (unit outcome \<times> heap \<times> semaphore \<times> kernel) option" where
  "rt_free i rmem h s k =
    (if rmem = 0 then Some (Done (), h, s, k)
     else do {
       _ \<leftarrow> not_in_interrupt k;
       _ \<leftarrow> assert_that (rmem AND (RT_ALIGN_SIZE - 1) = 0);
       _ \<leftarrow> assert_that (heap_ptr h \<le> rmem \<and> rmem < heap_end h);
       if rmem < heap_ptr h \<or> heap_end h \<le> rmem then Some (Done (), h, s, k)
       else locked i (free_section (rmem - SIZEOF_STRUCT_MEM)) h s k
     })"

text \<open>What \<open>rt_realloc\<close> does while it holds the semaphore: it is done with an address, or a new block is
  needed and the sz of the old one is the result.\<close>

definition realloc_section :: "u32 \<Rightarrow> u32 \<Rightarrow> heap \<Rightarrow> ((u32 + u32) \<times> heap) option" where
  "realloc_section rmem newsize h =
    (if rmem < heap_ptr h \<or> heap_end h \<le> rmem then Some (Inl rmem, h)
     else
       let mem = rmem - SIZEOF_STRUCT_MEM;
           ptr = mem - heap_ptr h;
           sz = h_next (hdr h mem) - ptr - SIZEOF_STRUCT_MEM
       in if sz = newsize then Some (Inl rmem, h)
          else if newsize + SIZEOF_STRUCT_MEM + MIN_SIZE < sz
          then do {
            let ptr2 = ptr + SIZEOF_STRUCT_MEM + newsize;
            let h1 = link_back ptr2 (cut_block ptr newsize (h\<lparr>used_mem := used_mem h - (sz - newsize)\<rparr>));
            let mem2 = node h1 ptr2;
            let h2 = (if mem2 < lfree h1 then h1\<lparr>lfree := mem2\<rparr> else h1);
            h3 \<leftarrow> plug_holes mem2 h2;
            Some (Inl rmem, h3)
          }
          else Some (Inr sz, h))"

definition rt_realloc :: "nat \<Rightarrow> u32 \<Rightarrow> u32 \<Rightarrow> heap \<Rightarrow> semaphore \<Rightarrow> kernel \<Rightarrow> (u32 outcome \<times> heap \<times> semaphore \<times> kernel) option" where
  "rt_realloc i rmem newsize0 h s k = do {
     _ \<leftarrow> not_in_interrupt k;
     let newsize = RT_ALIGN newsize0 RT_ALIGN_SIZE;
     if newsize > mem_size_aligned h then Some (Done 0, h, s, k)
     else if newsize = 0 then do {
       (o', h1, s1, k1) \<leftarrow> rt_free i rmem h s k;
       Some (case o' of Blocked \<Rightarrow> Blocked | Done _ \<Rightarrow> Done 0, h1, s1, k1)
     }
     else if rmem = 0 then rt_malloc i newsize h s k
     else do {
       (o', h1, s1, k1) \<leftarrow> locked i (realloc_section rmem newsize) h s k;
       (case o' of
          Blocked \<Rightarrow> Some (Blocked, h1, s1, k1)
        | Done (Inl p) \<Rightarrow> Some (Done p, h1, s1, k1)
        | Done (Inr sz) \<Rightarrow> do {
            (o2, h2, s2, k2) \<leftarrow> rt_malloc i newsize h1 s1 k1;
            (case o2 of
               Blocked \<Rightarrow> Some (Blocked, h2, s2, k2)
             | Done nmem \<Rightarrow>
                 if nmem = 0 then Some (Done 0, h2, s2, k2)
                 else do {
                   let h3 = h2\<lparr>bytes := rt_memcpy (unat nmem) (unat rmem) (unat (if sz < newsize then sz else newsize)) (bytes h2)\<rparr>;
                   (o3, h4, s4, k4) \<leftarrow> rt_free i rmem h3 s2 k2;
                   Some (case o3 of Blocked \<Rightarrow> Blocked | Done _ \<Rightarrow> Done nmem, h4, s4, k4)
                 })
          })
     }
   }"

definition rt_calloc :: "nat \<Rightarrow> u32 \<Rightarrow> u32 \<Rightarrow> heap \<Rightarrow> semaphore \<Rightarrow> kernel \<Rightarrow> (u32 outcome \<times> heap \<times> semaphore \<times> kernel) option" where
  "rt_calloc i cnt sz h s k = do {
     (o', h1, s1, k1) \<leftarrow> rt_malloc i (cnt * sz) h s k;
     (case o' of
        Blocked \<Rightarrow> Some (Blocked, h1, s1, k1)
      | Done p \<Rightarrow> Some (Done p, if p \<noteq> 0 then h1\<lparr>bytes := rt_memset (unat p) 0 (unat (cnt * sz)) (bytes h1)\<rparr> else h1, s1, k1))
   }"

definition rt_memory_info :: "heap \<Rightarrow> u32 \<times> u32 \<times> u32" where
  "rt_memory_info h = (mem_size_aligned h, used_mem h, max_mem h)"

section \<open>Reading and writing headers\<close>

lemma load16_store16: "load16 a (store16 a w m) = w"
proof -
  have "(ucast (ucast w :: u8) :: u16) OR push_bit 8 (ucast (ucast (drop_bit 8 w) :: u8)) = w"
    by (rule bit_word_eqI) (auto simp: bit_simps)
  then show ?thesis by (simp add: load16_def store16_def)
qed

lemma load32_store32: "load32 a (store32 a w m) = w"
proof -
  have "(ucast (ucast w :: u8) :: u32) OR push_bit 8 (ucast (ucast (drop_bit 8 w) :: u8))
      OR push_bit 16 (ucast (ucast (drop_bit 16 w) :: u8)) OR push_bit 24 (ucast (ucast (drop_bit 24 w) :: u8)) = w"
  proof (rule bit_word_eqI)
    fix n :: nat assume "n < LENGTH(32)"
    then consider "n < 8" | "8 \<le> n" "n < 16" | "16 \<le> n" "n < 24" | "24 \<le> n" "n < 32" by fastforce
    then show "bit ((ucast (ucast w :: u8) :: u32) OR push_bit 8 (ucast (ucast (drop_bit 8 w) :: u8))
      OR push_bit 16 (ucast (ucast (drop_bit 16 w) :: u8)) OR push_bit 24 (ucast (ucast (drop_bit 24 w) :: u8))) n = bit w n"
      by cases (simp_all add: bit_simps less_diff_conv2)
  qed
  then show ?thesis by (simp add: load32_def store32_def)
qed

lemma store_other [simp]:
  "b < a \<or> a + 2 \<le> b \<Longrightarrow> store16 a w m b = m b"
  "b < a \<or> a + 4 \<le> b \<Longrightarrow> store32 a v m b = m b"
  by (auto simp: store16_def store32_def mem_simps)

lemma load_other:
  "b + 2 \<le> a \<or> a + 2 \<le> b \<Longrightarrow> load16 b (store16 a w m) = load16 b m"
  "b + 2 \<le> a \<or> a + 4 \<le> b \<Longrightarrow> load16 b (store32 a v m) = load16 b m"
  "b + 4 \<le> a \<or> a + 2 \<le> b \<Longrightarrow> load32 b (store16 a w m) = load32 b m"
  "b + 4 \<le> a \<or> a + 4 \<le> b \<Longrightarrow> load32 b (store32 a v m) = load32 b m"
  by (auto simp: load16_def load32_def)

lemma header_cong: "(\<And>x. a \<le> x \<Longrightarrow> x < a + 12 \<Longrightarrow> m x = m' x) \<Longrightarrow> header a m = header a m'"
  by (simp add: header_def load16_def load32_def)

text \<open>What the field updates do to the header itself, to others and to the rest of the memory.\<close>

named_theorems hdr_simps

lemma header_same [hdr_simps]:
  "header a (store16 a w m) = (header a m)\<lparr>h_magic := w\<rparr>"
  "header a (store16 (a + 2) w m) = (header a m)\<lparr>h_used := w\<rparr>"
  "header a (store32 (a + 4) v m) = (header a m)\<lparr>h_next := v\<rparr>"
  "header a (store32 (a + 8) v m) = (header a m)\<lparr>h_prev := v\<rparr>"
  by (simp_all add: header_def load_other load16_store16 load32_store32)

definition apart :: "nat \<Rightarrow> nat \<Rightarrow> bool" where
  "apart a b \<longleftrightarrow> a + 12 \<le> b \<or> b + 12 \<le> a"

lemma header_apart [hdr_simps]:
  assumes "apart a b"
  shows "header b (store16 a w m) = header b m" "header b (store16 (a + 2) w m) = header b m"
    "header b (store32 (a + 4) v m) = header b m" "header b (store32 (a + 8) v m) = header b m"
  using assms by (auto intro!: header_cong simp: apart_def)

lemma heap_select [hdr_simps]:
  "heap_ptr (set_magic p w h) = heap_ptr h" "heap_end (set_magic p w h) = heap_end h" "lfree (set_magic p w h) = lfree h"
  "mem_size_aligned (set_magic p w h) = mem_size_aligned h" "used_mem (set_magic p w h) = used_mem h" "max_mem (set_magic p w h) = max_mem h"
  "heap_ptr (set_used p w h) = heap_ptr h" "heap_end (set_used p w h) = heap_end h" "lfree (set_used p w h) = lfree h"
  "mem_size_aligned (set_used p w h) = mem_size_aligned h" "used_mem (set_used p w h) = used_mem h" "max_mem (set_used p w h) = max_mem h"
  "heap_ptr (set_next p v h) = heap_ptr h" "heap_end (set_next p v h) = heap_end h" "lfree (set_next p v h) = lfree h"
  "mem_size_aligned (set_next p v h) = mem_size_aligned h" "used_mem (set_next p v h) = used_mem h" "max_mem (set_next p v h) = max_mem h"
  "heap_ptr (set_prev p v h) = heap_ptr h" "heap_end (set_prev p v h) = heap_end h" "lfree (set_prev p v h) = lfree h"
  "mem_size_aligned (set_prev p v h) = mem_size_aligned h" "used_mem (set_prev p v h) = used_mem h" "max_mem (set_prev p v h) = max_mem h"
  by (simp_all add: set_magic_def set_used_def set_next_def set_prev_def)

end
