(* ===== verification/HeapLayout.thy ===== *)
theory HeapLayout
  imports Heap
begin

text \<open>
  The blocks that the headers of a heap describe, as a list of extents and use marks, the invariant of the heap over this
  list, and what the primitive changes do to it: marking a block, cutting one in two, joining neighbours. The changes of the
  memory are bounded to the headers of the blocks (\<open>same_but\<close>).
\<close>

section \<open>The blocks of a heap\<close>

text \<open>A block is its extent, header included, and whether it is in use. \<open>blocks_at H pv o bs e\<close>: the headers
  \<open>H\<close> describe the blocks \<open>bs\<close> from offset \<open>o\<close> to \<open>e\<close>, where \<open>pv\<close> is the offset of the block
  before.\<close>

definition head_of :: "nat \<Rightarrow> nat \<Rightarrow> nat \<times> bool \<Rightarrow> heap_mem" where
  "head_of pv o' b = \<lparr>h_magic = HEAP_MAGIC, h_used = (if snd b then 1 else 0), h_next = of_nat (o' + fst b), h_prev = of_nat pv\<rparr>"

fun blocks_at :: "(nat \<Rightarrow> heap_mem) \<Rightarrow> nat \<Rightarrow> nat \<Rightarrow> (nat \<times> bool) list \<Rightarrow> nat \<Rightarrow> bool" where
  "blocks_at H pv o' [] e \<longleftrightarrow> o' = e"
| "blocks_at H pv o' (b # bs) e \<longleftrightarrow> 16 \<le> fst b \<and> 4 dvd fst b \<and> H o' = head_of pv o' b \<and> blocks_at H o' (o' + fst b) bs e"

definition extent :: "(nat \<times> bool) list \<Rightarrow> nat" where
  "extent bs = sum_list (map fst bs)"

lemma extent_simps [simp]: "extent [] = 0" "extent (b # bs) = fst b + extent bs" "extent (bs @ cs) = extent bs + extent cs"
  by (simp_all add: extent_def)

fun offsets :: "nat \<Rightarrow> (nat \<times> bool) list \<Rightarrow> nat set" where
  "offsets o' [] = {}"
| "offsets o' (b # bs) = insert o' (offsets (o' + fst b) bs)"

text \<open>The offset of the last block of \<open>bs\<close>, when there is one.\<close>

definition last_off :: "nat \<Rightarrow> nat \<Rightarrow> (nat \<times> bool) list \<Rightarrow> nat" where
  "last_off pv o' bs = (if bs = [] then pv else o' + extent (butlast bs))"

lemma blocks_end: "blocks_at H pv o' bs e \<Longrightarrow> e = o' + extent bs"
  by (induction bs arbitrary: pv o') (fastforce simp: add.assoc)+

lemma last_off_Cons: "last_off pv o' (b # bs) = last_off o' (o' + fst b) bs"
  by (simp add: last_off_def)

lemma blocks_append:
  "blocks_at H pv o' (bs @ cs) e \<longleftrightarrow>
    blocks_at H pv o' bs (o' + extent bs) \<and> blocks_at H (last_off pv o' bs) (o' + extent bs) cs e"
proof (induction bs arbitrary: pv o')
  case Nil
  then show ?case by (simp add: last_off_def)
next
  case (Cons b bs)
  then show ?case by (simp add: last_off_Cons add.assoc)
qed

lemma offsets_append: "offsets o' (bs @ cs) = offsets o' bs \<union> offsets (o' + extent bs) cs"
  by (induction bs arbitrary: o') (auto simp: add.assoc)

lemma blocks_cong: "(\<And>x. x \<in> offsets o' bs \<Longrightarrow> H' x = H x) \<Longrightarrow> blocks_at H' pv o' bs e = blocks_at H pv o' bs e"
proof (induction bs arbitrary: pv o')
  case (Cons b bs)
  have "blocks_at H' o' (o' + fst b) bs e = blocks_at H o' (o' + fst b) bs e" by (rule Cons.IH) (simp add: Cons.prems)
  then show ?case using Cons.prems [of o'] by simp
qed simp

lemma offsets_range: "blocks_at H pv o' bs e \<Longrightarrow> x \<in> offsets o' bs \<Longrightarrow> o' \<le> x \<and> x + 16 \<le> e"
proof (induction bs arbitrary: pv o')
  case (Cons b bs)
  then have b: "blocks_at H o' (o' + fst b) bs e" "16 \<le> fst b" by simp_all
  have e: "e = o' + fst b + extent bs" using blocks_end [OF b(1)] .
  show ?case
  proof (cases "x = o'")
    case False
    then have "x \<in> offsets (o' + fst b) bs" using Cons.prems by simp
    from Cons.IH [OF b(1) this] show ?thesis by simp
  qed (use b(2) e in simp)
qed simp

lemma blocks_link:
  assumes a: "blocks_at H pv o' bs e"
  shows "blocks_at (H(o' := (H o')\<lparr>h_prev := of_nat pv'\<rparr>)) pv' o' bs e"
proof (cases bs)
  case (Cons b cs)
  have c: "blocks_at H o' (o' + fst b) cs e" using a Cons by simp
  moreover have "o' \<notin> offsets (o' + fst b) cs" using offsets_range [OF c] a Cons by fastforce
  then have "blocks_at (H(o' := (H o')\<lparr>h_prev := of_nat pv'\<rparr>)) o' (o' + fst b) cs e = blocks_at H o' (o' + fst b) cs e"
    by (intro blocks_cong) auto
  ultimately show ?thesis using a Cons by (simp add: head_of_def)
qed (use a in simp)

definition hds :: "heap \<Rightarrow> nat \<Rightarrow> heap_mem" where
  "hds h o' = header (unat (heap_ptr h) + o') (bytes h)"

definition layout :: "heap \<Rightarrow> (nat \<times> bool) list \<Rightarrow> bool" where
  "layout h bs \<longleftrightarrow> 4 dvd unat (heap_ptr h) \<and> unat (heap_ptr h) + unat (mem_size_aligned h) + 24 < 2 ^ 32 \<and>
    12 \<le> unat (mem_size_aligned h) \<and> 4 dvd unat (mem_size_aligned h) \<and>
    unat (heap_end h) = unat (heap_ptr h) + unat (mem_size_aligned h) + 12 \<and>
    blocks_at (hds h) 0 0 bs (unat (mem_size_aligned h) + 12)"

lemma layoutD:
  assumes "layout h bs"
  shows "4 dvd unat (heap_ptr h)" "unat (heap_ptr h) + unat (mem_size_aligned h) + 24 < 2 ^ 32" "12 \<le> unat (mem_size_aligned h)"
    "4 dvd unat (mem_size_aligned h)" "unat (heap_end h) = unat (heap_ptr h) + unat (mem_size_aligned h) + 12"
    "blocks_at (hds h) 0 0 bs (unat (mem_size_aligned h) + 12)" "unat (mem_size_aligned h) + 12 = extent bs"
  using assms blocks_end [of "hds h" 0 0 bs] by (simp_all add: layout_def)

text \<open>Offsets as words: everything up to the end of the heap stays in range.\<close>

lemma unat_off: "o' \<le> extent bs \<Longrightarrow> layout h bs \<Longrightarrow> unat (of_nat o' :: u32) = o'"
  using layoutD(2,7) [of h bs] by (simp add: unsigned_of_nat take_bit_nat_eq_self)

lemma unat_node: "o' \<le> extent bs \<Longrightarrow> layout h bs \<Longrightarrow> unat (node h (of_nat o')) = unat (heap_ptr h) + o'"
  using layoutD(2,7) [of h bs] unat_off [of o' bs h] by (simp add: node_def unat_word_ariths)

lemma hdr_node: "o' \<le> extent bs \<Longrightarrow> layout h bs \<Longrightarrow> hdr h (node h (of_nat o')) = hds h o'"
  by (simp add: hdr_def hds_def unat_node)

lemma node_minus [simp]: "node h p - heap_ptr h = p"
  by (simp add: node_def)

lemma node_less: "a \<le> extent bs \<Longrightarrow> b \<le> extent bs \<Longrightarrow> layout h bs \<Longrightarrow> node h (of_nat a) < node h (of_nat b) \<longleftrightarrow> a < b"
  by (simp add: word_less_nat_alt unat_node)

lemma node_eq: "a \<le> extent bs \<Longrightarrow> b \<le> extent bs \<Longrightarrow> layout h bs \<Longrightarrow> node h (of_nat a) = node h (of_nat b) \<longleftrightarrow> a = b"
  by (simp add: word_unat_eq_iff unat_node)

lemma heap_end_node: "layout h bs \<Longrightarrow> heap_end h = node h (of_nat (extent bs))"
  using layoutD(5,7) [of h bs] unat_node [of "extent bs" bs h] by (simp add: word_unat_eq_iff)

lemma hds_same [hdr_simps]:
  assumes "unat p = unat (heap_ptr h) + x"
  shows "hds (set_magic p w h) x = (hds h x)\<lparr>h_magic := w\<rparr>" "hds (set_used p w h) x = (hds h x)\<lparr>h_used := w\<rparr>"
    "hds (set_next p v h) x = (hds h x)\<lparr>h_next := v\<rparr>" "hds (set_prev p v h) x = (hds h x)\<lparr>h_prev := v\<rparr>"
  using assms by (simp_all add: hds_def set_magic_def set_used_def set_next_def set_prev_def hdr_simps del: add_2_eq_Suc')

lemma hds_apart [hdr_simps]:
  assumes "apart (unat p) (unat (heap_ptr h) + x)"
  shows "hds (set_magic p w h) x = hds h x" "hds (set_used p w h) x = hds h x"
    "hds (set_next p v h) x = hds h x" "hds (set_prev p v h) x = hds h x"
  using assms by (simp_all add: hds_def set_magic_def set_used_def set_next_def set_prev_def hdr_simps del: add_2_eq_Suc')

lemma hds_fields [hdr_simps]:
  "hds (h\<lparr>lfree := p\<rparr>) = hds h" "hds (h\<lparr>used_mem := v\<rparr>) = hds h" "hds (h\<lparr>max_mem := v\<rparr>) = hds h"
  by (auto simp: hds_def)

lemma apart_add [hdr_simps]: "apart (b + x) (b + y) = apart x y" "apart b (b + y) = apart 0 y" "apart (b + x) b = apart x 0"
  by (auto simp: apart_def)

text \<open>The bytes outside of the headers at the given offsets are as before.\<close>

definition same_but :: "nat set \<Rightarrow> heap \<Rightarrow> heap \<Rightarrow> bool" where
  "same_but A h h' \<longleftrightarrow> heap_ptr h' = heap_ptr h \<and> heap_end h' = heap_end h \<and> mem_size_aligned h' = mem_size_aligned h \<and>
    (\<forall>y. (\<forall>x \<in> A. y < unat (heap_ptr h) + x \<or> unat (heap_ptr h) + x + 12 \<le> y) \<longrightarrow> bytes h' y = bytes h y)"

lemma same_but_refl [simp]: "same_but A h h"
  by (simp add: same_but_def)

lemma same_but_trans: "same_but A h h1 \<Longrightarrow> same_but A h1 h2 \<Longrightarrow> same_but A h h2"
  by (simp add: same_but_def)

lemma same_but_mono: "same_but A h h' \<Longrightarrow> A \<subseteq> C \<Longrightarrow> same_but C h h'"
  unfolding same_but_def by blast

lemma same_but_fields [simp]:
  "same_but A h (h'\<lparr>lfree := p\<rparr>) = same_but A h h'" "same_but A h (h'\<lparr>used_mem := v\<rparr>) = same_but A h h'"
  "same_but A h (h'\<lparr>max_mem := v\<rparr>) = same_but A h h'"
  by (simp_all add: same_but_def)

lemma same_but_set:
  assumes "same_but A h h'" "unat p = unat (heap_ptr h) + x" "x \<in> A"
  shows "same_but A h (set_magic p w h')" "same_but A h (set_used p w h')" "same_but A h (set_next p v h')" "same_but A h (set_prev p v h')"
proof -
  have y: "bytes h' y = bytes h y \<and> (y < unat p \<or> unat p + 12 \<le> y)"
    if "\<forall>x\<in>A. y < unat (heap_ptr h) + x \<or> unat (heap_ptr h) + x + 12 \<le> y" for y
    using assms that by (simp add: same_but_def)
  have f: "heap_ptr h' = heap_ptr h" "heap_end h' = heap_end h" "mem_size_aligned h' = mem_size_aligned h"
    using assms(1) by (simp_all add: same_but_def)
  show "same_but A h (set_magic p w h')" unfolding same_but_def
    using y by (simp add: f hdr_simps) (fastforce simp: set_magic_def)
  show "same_but A h (set_used p w h')" unfolding same_but_def
    using y by (simp add: f hdr_simps) (fastforce simp: set_used_def simp del: add_2_eq_Suc')
  show "same_but A h (set_next p v h')" unfolding same_but_def
    using y by (simp add: f hdr_simps) (fastforce simp: set_next_def)
  show "same_but A h (set_prev p v h')" unfolding same_but_def
    using y by (simp add: f hdr_simps) (fastforce simp: set_prev_def)
qed

lemma same_but_hds: "same_but A h h' \<Longrightarrow> (\<And>a. a \<in> A \<Longrightarrow> apart a x) \<Longrightarrow> hds h' x = hds h x"
  unfolding hds_def same_but_def by (auto intro!: header_cong) (metis (no_types, opaque_lifting) apart_def add.assoc leD le_trans add_le_cancel_left not_le order_less_le_trans)

lemma offsets_apart:
  assumes "blocks_at H pv o' bs e" "x \<in> offsets o' bs"
  shows "e \<le> y \<Longrightarrow> apart x y \<and> apart y x" "y + 12 \<le> o' \<Longrightarrow> apart x y \<and> apart y x"
  using offsets_range [OF assms] by (auto simp: apart_def)

text \<open>One part of the heap is laid out anew; the block behind it gets its link back.\<close>

lemma layout_replace:
  assumes l: "layout h (xs @ mid @ ys)" and s: "same_but A h h'"
    and A: "\<And>a. a \<in> A \<Longrightarrow> extent xs \<le> a \<and> a \<le> extent xs + extent mid" and e: "extent mid' = extent mid"
    and m: "blocks_at (hds h') (last_off 0 0 xs) (extent xs) mid' (extent xs + extent mid)"
    and y: "ys \<noteq> [] \<Longrightarrow> hds h' (extent xs + extent mid) =
      (hds h (extent xs + extent mid))\<lparr>h_prev := of_nat (last_off (last_off 0 0 xs) (extent xs) mid')\<rparr>"
  shows "layout h' (xs @ mid' @ ys)"
proof -
  let ?o = "extent xs" and ?p = "extent xs + extent mid" and ?E = "unat (mem_size_aligned h) + 12"
  have b: "blocks_at (hds h) 0 0 xs ?o" "blocks_at (hds h) (last_off (last_off 0 0 xs) ?o mid) ?p ys ?E"
    using layoutD(6) [OF l] by (simp_all add: blocks_append add.assoc)
  have "hds h' x = hds h x" if "x \<in> offsets 0 xs" for x
    using offsets_range [OF b(1) that] A by (intro same_but_hds [OF s]) (force simp: apart_def)
  then have 1: "blocks_at (hds h') 0 0 xs ?o" using b(1) by (simp cong: blocks_cong)
  let ?H = "(hds h)(?p := (hds h ?p)\<lparr>h_prev := of_nat (last_off (last_off 0 0 xs) ?o mid')\<rparr>)"
  have "hds h' x = ?H x" if x: "x \<in> offsets ?p ys" for x
  proof (cases "x = ?p")
    case False
    obtain c cs where c: "ys = c # cs" using x by (cases ys) auto
    have bc: "blocks_at (hds h) ?p (?p + fst c) cs ?E" and g: "16 \<le> fst c" using b(2) c by simp_all
    have "x \<in> offsets (?p + fst c) cs" using x False c by auto
    from offsets_range [OF bc this] g show ?thesis
      using False A by (simp, intro same_but_hds [OF s]) (force simp: apart_def)
  next
    case True
    have "ys \<noteq> []" using x by auto
    then show ?thesis using y True by simp
  qed
  then have 2: "blocks_at (hds h') (last_off (last_off 0 0 xs) ?o mid') ?p ys ?E"
    using blocks_link [OF b(2), of "last_off (last_off 0 0 xs) ?o mid'"] by (simp cong: blocks_cong)
  show ?thesis
    using l s 1 m 2 by (simp add: layout_def same_but_def blocks_append e add.assoc)
qed

lemma layout_block:
  assumes "layout h (xs @ b # ys)"
  shows "hds h (extent xs) = head_of (last_off 0 0 xs) (extent xs) b" "16 \<le> fst b" "4 dvd fst b" "4 dvd extent xs"
    "extent (xs @ b # ys) < 2 ^ 32"
proof -
  have "4 dvd extent xs" if "blocks_at H pv o' xs e" for H pv o' e
    using that by (induction xs arbitrary: pv o') auto
  with layoutD(6) [OF assms] show "hds h (extent xs) = head_of (last_off 0 0 xs) (extent xs) b" "16 \<le> fst b" "4 dvd fst b" "4 dvd extent xs"
    by (auto simp: blocks_append)
  show "extent (xs @ b # ys) < 2 ^ 32" using layoutD(2,7) [OF assms] by linarith
qed

lemma layout_set_used:
  assumes l: "layout h (xs @ (n, u) # ys)" and p: "p = node h (of_nat (extent xs))"
  shows "layout (set_used p (if v then 1 else 0) h) (xs @ (n, v) # ys)"
    "same_but {extent xs} h (set_used p (if v then 1 else 0) h)"
proof -
  let ?h' = "set_used p (if v then 1 else 0) h"
  have u: "unat p = unat (heap_ptr h) + extent xs" using unat_node [OF _ l, of "extent xs"] by (simp add: p)
  show s: "same_but {extent xs} h ?h'" by (rule same_but_set [OF _ u]) simp_all
  note b = layout_block [OF l]
  have "layout ?h' (xs @ [(n, v)] @ ys)"
  proof (rule layout_replace [where mid = "[(n, u)]" and A = "{extent xs}"])
    show "hds ?h' (extent xs + extent [(n, u)]) = (hds h (extent xs + extent [(n, u)]))
        \<lparr>h_prev := of_nat (last_off (last_off 0 0 xs) (extent xs) [(n, v)])\<rparr>" if ys: "ys \<noteq> []"
    proof -
      obtain c cs where c: "ys = c # cs" using ys by (cases ys) auto
      from layout_block [of h "xs @ [(n, u)]" c cs] l c
      have "hds h (extent xs + n) = head_of (extent xs) (extent xs + n) c" by (simp add: last_off_def)
      moreover have "hds ?h' (extent xs + n) = hds h (extent xs + n)"
        using b(2) by (intro same_but_hds [OF s]) (simp add: apart_def)
      ultimately show ?thesis by (simp add: head_of_def last_off_def)
    qed
  qed (use l s b u in \<open>auto simp: hdr_simps head_of_def\<close>)
  then show "layout ?h' (xs @ (n, v) # ys)" by simp
qed

lemma layout_merge:
  assumes l: "layout h (xs @ (n, False) # (m, False) # ys)"
    and p: "p = node h (of_nat (extent xs))" and q: "q = node h (of_nat (extent xs + n + m))"
  shows "layout (set_prev q (of_nat (extent xs)) (set_next p (of_nat (extent xs + n + m)) h)) (xs @ (n + m, False) # ys)"
    "same_but {extent xs, extent xs + n + m} h (set_prev q (of_nat (extent xs)) (set_next p (of_nat (extent xs + n + m)) h))"
proof -
  let ?e = "extent xs + n + m"
  let ?h1 = "set_next p (of_nat ?e) h"
  let ?h' = "set_prev q (of_nat (extent xs)) ?h1"
  have u: "unat p = unat (heap_ptr h) + extent xs" "unat q = unat (heap_ptr h) + ?e"
    using unat_node [OF _ l, of "extent xs"] unat_node [OF _ l, of ?e] by (simp_all add: p q)
  have s1: "same_but {extent xs, ?e} h ?h1" by (rule same_but_set [OF _ u(1)]) simp_all
  show s: "same_but {extent xs, ?e} h ?h'" by (rule same_but_set [OF s1 u(2)]) simp
  note b = layout_block [OF l]
  have c: "16 \<le> m" "4 dvd m" using layout_block(2,3) [of h "xs @ [(n, False)]" "(m, False)" ys] l by simp_all
  have "hds ?h' (extent xs) = head_of (last_off 0 0 xs) (extent xs) (n + m, False)"
    using b(1,2) c u by (simp add: hdr_simps head_of_def add.assoc apart_def)
  moreover have "hds ?h' ?e = (hds h ?e)\<lparr>h_prev := of_nat (extent xs)\<rparr>"
    using b(2) c u by (simp add: hdr_simps apart_def add.assoc)
  ultimately have "layout ?h' (xs @ [(n + m, False)] @ ys)"
    by (intro layout_replace [where mid = "[(n, False), (m, False)]" and A = "{extent xs, ?e}", OF _ s])
      (use l b(2,3) c in \<open>auto simp: last_off_def add.assoc\<close>)
  then show "layout ?h' (xs @ (n + m, False) # ys)" by simp
qed

lemma layout_cut:
  assumes l: "layout h (xs @ (n, u) # ys)" and a: "16 \<le> a" "4 dvd a" "a + 16 \<le> n"
    and s: "same_but {extent xs, extent xs + a} h h1"
    and f: "hds h1 (extent xs) = head_of (last_off 0 0 xs) (extent xs) (a, v)"
      "hds h1 (extent xs + a) = head_of (extent xs) (extent xs + a) (n - a, False)"
  shows "layout (link_back (of_nat (extent xs + a)) h1) (xs @ (a, v) # (n - a, False) # ys)"
    "same_but {extent xs, extent xs + a, extent xs + n} h (link_back (of_nat (extent xs + a)) h1)"
proof -
  let ?o = "extent xs"
  define h' where "h' = link_back (of_nat (?o + a)) h1"
  note b = layout_block [OF l]
  have P: "heap_ptr h1 = heap_ptr h" "mem_size_aligned h1 = mem_size_aligned h" using s by (simp_all add: same_but_def)
  have nd: "node h1 p = node h p" for p by (simp add: node_def P)
  have u: "unat (node h (of_nat (?o + n))) = unat (heap_ptr h) + (?o + n)" using unat_node [OF _ l, of "?o + n"] by simp
  have hd: "hdr h1 (node h1 (of_nat (?o + a))) = head_of ?o (?o + a) (n - a, False)"
    using unat_node [OF _ l, of "?o + a"] a f(2) by (simp add: nd hdr_def hds_def P)
  have E: "of_nat (?o + n) = mem_size_aligned h + (12 :: u32) \<longleftrightarrow> ys = []"
  proof -
    have "mem_size_aligned h + (12 :: u32) = of_nat (extent (xs @ (n, u) # ys))"
      unfolding layoutD(7) [OF l, symmetric] by simp
    moreover have "of_nat (?o + n) = (of_nat (extent (xs @ (n, u) # ys)) :: u32) \<longleftrightarrow> extent ys = 0"
      using unat_off [OF _ l, of "?o + n"] unat_off [OF _ l, of "extent (xs @ (n, u) # ys)"]
      by (simp only: word_unat_eq_iff) simp
    moreover have "extent ys = 0 \<longleftrightarrow> ys = []"
      using layout_block(2) [of h "xs @ [(n, u)]" "hd ys" "tl ys"] l by (cases ys) auto
    ultimately show ?thesis by simp
  qed
  have h': "h' = (if ys = [] then h1 else set_prev (node h (of_nat (?o + n))) (of_nat (?o + a)) h1)"
    using E a hd by (simp add: h'_def link_back_def Let_def P nd head_of_def)
  have s1: "same_but {?o, ?o + a, ?o + n} h h1" by (rule same_but_mono [OF s]) simp
  have s': "same_but {?o, ?o + a, ?o + n} h h'" unfolding h' using s1 same_but_set(4) [OF s1 u] by simp
  then show "same_but {?o, ?o + a, ?o + n} h (link_back (of_nat (?o + a)) h1)" by (simp only: h'_def)
  have "layout h' (xs @ [(a, v), (n - a, False)] @ ys)"
  proof (rule layout_replace [where mid = "[(n, u)]" and A = "{?o, ?o + a, ?o + n}"])
    show "same_but {?o, ?o + a, ?o + n} h h'" by (rule s')
    have "hds h' ?o = hds h1 ?o" "hds h' (?o + a) = hds h1 (?o + a)" using u a(1,3) by (auto simp: h' hdr_simps P apart_def)
    then show "blocks_at (hds h') (last_off 0 0 xs) ?o [(a, v), (n - a, False)] (?o + extent [(n, u)])"
      using f a b(3) by (simp add: last_off_def)
    show "hds h' (?o + extent [(n, u)]) = (hds h (?o + extent [(n, u)]))
        \<lparr>h_prev := of_nat (last_off (last_off 0 0 xs) ?o [(a, v), (n - a, False)])\<rparr>" if ys: "ys \<noteq> []"
    proof -
      have "hds h1 (?o + n) = hds h (?o + n)" using a by (intro same_but_hds [OF s]) (auto simp: apart_def)
      then show ?thesis using ys u by (simp add: h' hdr_simps P last_off_def)
    qed
  qed (use l a in auto)
  then show "layout (link_back (of_nat (?o + a)) h1) (xs @ (a, v) # (n - a, False) # ys)" by (simp add: h'_def)
qed

section \<open>The invariant\<close>

fun free_off :: "nat \<Rightarrow> (nat \<times> bool) list \<Rightarrow> nat" where
  "free_off o' [] = o'"
| "free_off o' (b # bs) = (if snd b then free_off (o' + fst b) bs else o')"

text \<open>No two neighbours are both free.\<close>

fun coalesced :: "(nat \<times> bool) list \<Rightarrow> bool" where
  "coalesced (b # c # bs) \<longleftrightarrow> (snd b \<or> snd c) \<and> coalesced (c # bs)"
| "coalesced _ \<longleftrightarrow> True"

definition used_total :: "(nat \<times> bool) list \<Rightarrow> nat" where
  "used_total bs = sum_list (map fst (filter snd bs))"

definition heap_inv :: "heap \<Rightarrow> (nat \<times> bool) list \<Rightarrow> bool" where
  "heap_inv h bs \<longleftrightarrow> layout h bs \<and> coalesced bs \<and> lfree h = node h (of_nat (free_off 0 bs)) \<and>
    unat (used_mem h) = used_total bs \<and> used_mem h \<le> max_mem h"

lemma heap_invD:
  assumes "heap_inv h bs"
  shows "layout h bs" "coalesced bs" "lfree h = node h (of_nat (free_off 0 bs))" "unat (used_mem h) = used_total bs" "used_mem h \<le> max_mem h"
  using assms by (simp_all add: heap_inv_def)

lemma free_off_append: "free_off o' (bs @ cs) = (if \<forall>b \<in> set bs. snd b then free_off (o' + extent bs) cs else free_off o' bs)"
  by (induction bs arbitrary: o') (auto simp: add.assoc)

lemma free_off_le: "free_off o' bs \<le> o' + extent bs"
proof (induction bs arbitrary: o')
  case (Cons b bs)
  from Cons.IH [of "o' + fst b"] show ?case by simp
qed simp

lemma coalesced_Cons: "coalesced (b # bs) \<longleftrightarrow> (bs = [] \<or> snd b \<or> snd (hd bs)) \<and> coalesced bs"
  by (cases bs) auto

lemma coalesced_append: "coalesced (bs @ cs) \<longleftrightarrow> coalesced bs \<and> coalesced cs \<and> (bs = [] \<or> cs = [] \<or> snd (last bs) \<or> snd (hd cs))"
  by (induction bs) (auto simp: coalesced_Cons)

lemma used_total_simps [simp]: "used_total [] = 0" "used_total (b # bs) = (if snd b then fst b else 0) + used_total bs"
    "used_total (bs @ cs) = used_total bs + used_total cs"
  by (simp_all add: used_total_def)

lemma used_total_le: "used_total bs \<le> extent bs"
  by (induction bs) auto

section \<open>Joining free blocks\<close>

definition join_right :: "nat \<Rightarrow> (nat \<times> bool) list \<Rightarrow> nat \<times> (nat \<times> bool) list" where
  "join_right n ys = (case ys of (m, False) # zs \<Rightarrow> (n + m, zs) | _ \<Rightarrow> (n, ys))"

definition plug :: "(nat \<times> bool) list \<Rightarrow> nat \<Rightarrow> (nat \<times> bool) list \<Rightarrow> (nat \<times> bool) list" where
  "plug xs n ys =
    (let (n', zs) = join_right n ys
     in if xs \<noteq> [] \<and> \<not> snd (last xs) then butlast xs @ (fst (last xs) + n', False) # zs else xs @ (n', False) # zs)"

lemma join_next_spec:
  assumes l: "layout h (xs @ (n, False) # ys)" and f: "lfree h = node h (of_nat (free_off 0 (xs @ (n, False) # ys)))"
    and p: "p = node h (of_nat (extent xs))" and c: "coalesced ys" and j: "join_right n ys = (n', zs)"
  shows "layout (join_next p h) (xs @ (n', False) # zs)" "same_but {extent xs, extent xs + n'} h (join_next p h)"
    "lfree (join_next p h) = node h (of_nat (free_off 0 (xs @ (n', False) # zs)))"
    "used_mem (join_next p h) = used_mem h" "max_mem (join_next p h) = max_mem h" "coalesced zs" "zs = [] \<or> snd (hd zs)" "16 \<le> n'"
proof -
  let ?o = "extent xs"
  note b = layout_block [OF l]
  have hp: "hdr h p = head_of (last_off 0 0 xs) ?o (n, False)" using hdr_node [OF _ l, of ?o] b(1) by (simp add: p)
  have le: "free_off 0 (xs @ (n, False) # ys) \<le> ?o" using free_off_le [of 0 xs] by (simp add: free_off_append)
  have "layout (join_next p h) (xs @ (n', False) # zs) \<and> same_but {extent xs, extent xs + n'} h (join_next p h) \<and>
    lfree (join_next p h) = node h (of_nat (free_off 0 (xs @ (n', False) # zs))) \<and>
    used_mem (join_next p h) = used_mem h \<and> max_mem (join_next p h) = max_mem h \<and> coalesced zs \<and> (zs = [] \<or> snd (hd zs)) \<and> 16 \<le> n'"
  proof (cases "\<exists>m ws. ys = (m, False) # ws")
    case True
    then obtain m ws where y: "ys = (m, False) # ws" by blast
    have j': "n' = n + m" "zs = ws" using j y by (simp_all add: join_right_def)
    have m: "16 \<le> m" using layout_block(2) [of h "xs @ [(n, False)]" "(m, False)" ws] l y by simp
    let ?q = "node h (of_nat (?o + n))"
    have hq: "hdr h ?q = head_of ?o (?o + n) (m, False)"
      using hdr_node [OF _ l, of "?o + n"] layout_block(1) [of h "xs @ [(n, False)]" "(m, False)" ws] l y by (simp add: last_off_def)
    have "p \<noteq> ?q" "?q \<noteq> heap_end h" "lfree h \<noteq> ?q"
      unfolding p heap_end_node [OF l] f using node_eq [OF _ _ l] le b(2) m y by (simp_all del: of_nat_add)
    moreover have "hdr (set_next p v h) ?q = hdr h ?q" for v
      using unat_node [OF _ l, of ?o] unat_node [OF _ l, of "?o + n"] b(2) y
      by (simp add: hdr_def set_next_def p header_apart(3) apart_def)
    ultimately have "join_next p h = set_prev (node h (of_nat (?o + n + m))) (of_nat ?o) (set_next p (of_nat (?o + n + m)) h)"
      using hp hq by (simp add: join_next_def head_of_def Let_def node_def hdr_simps del: of_nat_add) (simp add: p node_def del: of_nat_add)
    with layout_merge [OF l [unfolded y] p refl] show ?thesis
      using c f y j' b(2) m by (simp add: hdr_simps add.assoc coalesced_Cons free_off_append)
  next
    case False
    have j': "n' = n" "zs = ys" using j False by (auto simp: join_right_def split: list.splits bool.splits)
    have "join_next p h = h"
    proof (cases ys)
      case Nil
      then have "node h (of_nat (?o + n)) = heap_end h" using heap_end_node [OF l] by (simp del: of_nat_add)
      then show ?thesis using hp by (simp add: join_next_def head_of_def Let_def del: of_nat_add)
    next
      case (Cons b bs)
      then have "snd b" using False by (cases b) auto
      then have "h_used (hdr h (node h (of_nat (?o + n)))) \<noteq> 0"
        using hdr_node [OF _ l, of "?o + n"] layout_block(1) [of h "xs @ [(n, False)]" b bs] l Cons by (simp add: head_of_def del: of_nat_add)
      then show ?thesis using hp by (simp add: join_next_def head_of_def Let_def del: of_nat_add)
    qed
    then show ?thesis using l f j' c b(2) False by (cases ys) auto
  qed
  then show "layout (join_next p h) (xs @ (n', False) # zs)" "same_but {extent xs, extent xs + n'} h (join_next p h)"
    "lfree (join_next p h) = node h (of_nat (free_off 0 (xs @ (n', False) # zs)))"
    "used_mem (join_next p h) = used_mem h" "max_mem (join_next p h) = max_mem h" "coalesced zs" "zs = [] \<or> snd (hd zs)" "16 \<le> n'"
    by blast+
qed

lemma join_prev_spec:
  assumes l: "layout h (xs @ (n, False) # zs)" and f: "lfree h = node h (of_nat (free_off 0 (xs @ (n, False) # zs)))"
    and p: "p = node h (of_nat (extent xs))" and c: "coalesced xs" "coalesced zs" "zs = [] \<or> snd (hd zs)"
    and bs: "bs = (if xs \<noteq> [] \<and> \<not> snd (last xs) then butlast xs @ (fst (last xs) + n, False) # zs else xs @ (n, False) # zs)"
  shows "layout (join_prev p h) bs" "same_but (offsets 0 (xs @ [(n, False)]) \<union> {extent xs + n}) h (join_prev p h)"
    "lfree (join_prev p h) = node h (of_nat (free_off 0 bs))"
    "used_mem (join_prev p h) = used_mem h" "max_mem (join_prev p h) = max_mem h" "coalesced bs"
proof -
  let ?o = "extent xs"
  let ?A = "offsets 0 (xs @ [(n, False)]) \<union> {extent xs + n}"
  note b = layout_block [OF l]
  have hp: "hdr h p = head_of (last_off 0 0 xs) ?o (n, False)" using hdr_node [OF _ l, of ?o] b(1) by (simp add: p)
  have "layout (join_prev p h) bs \<and> same_but ?A h (join_prev p h) \<and> lfree (join_prev p h) = node h (of_nat (free_off 0 bs)) \<and>
    used_mem (join_prev p h) = used_mem h \<and> max_mem (join_prev p h) = max_mem h \<and> coalesced bs"
  proof (cases "xs \<noteq> [] \<and> \<not> snd (last xs)")
    case True
    then obtain ws m where x: "xs = ws @ [(m, False)]" by (metis append_butlast_last_id prod.collapse)
    have bs': "bs = ws @ (m + n, False) # zs" using bs x by simp
    have l': "layout h (ws @ (m, False) # (n, False) # zs)" using l x by simp
    note bm = layout_block [OF l']
    let ?q = "node h (of_nat (extent ws))"
    have m: "last_off 0 0 xs = extent ws" "?o = extent ws + m" using x by (simp_all add: last_off_def)
    have hq: "hdr h ?q = head_of (last_off 0 0 ws) (extent ws) (m, False)" using hdr_node [OF _ l', of "extent ws"] bm(1) by simp
    have le: "free_off 0 (ws @ (m, False) # (n, False) # zs) \<le> extent ws" using free_off_le [of 0 ws] by (simp add: free_off_append)
    have "?q \<noteq> p" "lfree h \<noteq> p"
      unfolding p f x using node_eq [OF _ _ l'] le bm(2) by (simp_all del: of_nat_add)
    moreover have "hdr (set_next ?q v h) p = hdr h p" for v
      using unat_node [OF _ l', of "extent ws"] unat_node [OF _ l, of ?o] bm(2) m(2)
      by (simp add: hdr_def set_next_def p header_apart(3) apart_def)
    ultimately have j: "join_prev p h = set_prev (node h (of_nat (extent ws + m + n))) (of_nat (extent ws)) (set_next ?q (of_nat (extent ws + m + n)) h)"
      using hp hq m by (simp add: join_prev_def head_of_def Let_def node_def hdr_simps del: of_nat_add)
    have "{extent ws, extent ws + m + n} \<subseteq> ?A" using x by (auto simp: offsets_append)
    with layout_merge [OF l' refl refl] show ?thesis
      using c f x bs' bm(2) unfolding j
      by (auto simp: hdr_simps add.assoc coalesced_Cons coalesced_append free_off_append simp del: of_nat_add intro: same_but_mono)
  next
    case False
    then have bs': "bs = xs @ (n, False) # zs" unfolding bs by (rule if_not_P)
    have "join_prev p h = h"
    proof (cases "xs = []")
      case True
      then show ?thesis using hp by (simp add: join_prev_def head_of_def Let_def last_off_def p)
    next
      case xs: False
      then obtain ws m where x: "xs = ws @ [(m, True)]" using False by (metis (full_types) append_butlast_last_id prod.collapse)
      have "h_used (hdr h (node h (of_nat (extent ws)))) \<noteq> 0"
        using hdr_node [OF _ l, of "extent ws"] layout_block(1) [of h ws "(m, True)" "(n, False) # zs"] l x by (simp add: head_of_def)
      then show ?thesis using hp x by (simp add: join_prev_def head_of_def Let_def last_off_def)
    qed
    then show ?thesis using l f c False bs' by (auto simp: coalesced_append coalesced_Cons)
  qed
  then show "layout (join_prev p h) bs" "same_but ?A h (join_prev p h)"
    "lfree (join_prev p h) = node h (of_nat (free_off 0 bs))"
    "used_mem (join_prev p h) = used_mem h" "max_mem (join_prev p h) = max_mem h" "coalesced bs"
    by blast+
qed

lemma used_total_plug: "used_total (plug xs n ys) = used_total xs + used_total ys"
proof -
  have "used_total xs = used_total (butlast xs)" if "xs \<noteq> []" "\<not> snd (last xs)"
    using that used_total_simps(3) [of "butlast xs" "[last xs]"] by simp
  then show ?thesis by (auto simp: plug_def join_right_def split: list.splits bool.splits)
qed

lemma plug_spec:
  assumes l: "layout h (xs @ (n, False) # ys)" and f: "lfree h = node h (of_nat (free_off 0 (xs @ (n, False) # ys)))"
    and p: "p = node h (of_nat (extent xs))" and c: "coalesced xs" "coalesced ys"
  obtains h' where "plug_holes p h = Some h'" "layout h' (plug xs n ys)" "coalesced (plug xs n ys)"
    "lfree h' = node h (of_nat (free_off 0 (plug xs n ys)))" "used_mem h' = used_mem h" "max_mem h' = max_mem h"
    "same_but (offsets 0 (xs @ (n, False) # ys) \<union> {extent (xs @ (n, False) # ys)}) h h'"
proof -
  obtain n' zs where j: "join_right n ys = (n', zs)" by (cases "join_right n ys")
  note 1 = join_next_spec [OF l f p c(2) j]
  let ?h1 = "join_next p h"
  have nd: "node ?h1 x = node h x" for x using 1(2) by (simp add: node_def same_but_def)
  have bs: "plug xs n ys =
      (if xs \<noteq> [] \<and> \<not> snd (last xs) then butlast xs @ (fst (last xs) + n', False) # zs else xs @ (n', False) # zs)"
    by (simp add: plug_def j)
  note 2 = join_prev_spec [OF 1(1) _ _ c(1) 1(6,7) bs, of p, unfolded nd, OF 1(3) p]
  note b = layout_block [OF l]
  have "node h 0 \<le> p" "p < heap_end h"
    using node_less [OF _ _ l, of "extent xs" "extent (xs @ (n, False) # ys)"] unat_node [OF _ l, of 0] unat_node [OF _ l, of "extent xs"] b(2)
    by (simp_all add: p heap_end_node [OF l] word_le_nat_alt del: of_nat_add)
  moreover have "h_used (hdr h p) = 0" using hdr_node [OF _ l, of "extent xs"] b(1) by (simp add: p head_of_def)
  ultimately have r: "plug_holes p h = Some (join_prev p ?h1)" by (simp add: plug_holes_def node_def)
  have "extent xs + n' \<in> offsets 0 (xs @ (n, False) # ys) \<union> {extent (xs @ (n, False) # ys)}"
  proof (cases "\<exists>m ws. ys = (m, False) # ws")
    case True
    then obtain m ws where y: "ys = (m, False) # ws" by blast
    then show ?thesis using j by (cases ws) (auto simp: join_right_def offsets_append add.assoc)
  next
    case False
    then have "n' = n" using j by (auto simp: join_right_def split: list.splits bool.splits)
    then show ?thesis by (cases ys) (auto simp: offsets_append)
  qed
  then have A: "{extent xs, extent xs + n'} \<subseteq> offsets 0 (xs @ (n, False) # ys) \<union> {extent (xs @ (n, False) # ys)}"
    "offsets 0 (xs @ [(n', False)]) \<union> {extent xs + n'} \<subseteq> offsets 0 (xs @ (n, False) # ys) \<union> {extent (xs @ (n, False) # ys)}"
    by (auto simp: offsets_append)
  have s: "same_but (offsets 0 (xs @ (n, False) # ys) \<union> {extent (xs @ (n, False) # ys)}) h (join_prev p ?h1)"
    by (rule same_but_trans [OF same_but_mono [OF 1(2) A(1)] same_but_mono [OF 2(2) A(2)]])
  show ?thesis by (rule that [OF r]) (use 1 2 s in simp_all)
qed

end
