(* ===== verification/HeapOps.thy ===== *)
theory HeapOps
  imports HeapLayout
begin

text \<open>
  The sections of \<open>rt_malloc\<close>, \<open>rt_free\<close> and \<open>rt_realloc\<close> that run under the heap semaphore, over the list of
  blocks: the search, taking a block, freeing one, shrinking one in place.
\<close>

section \<open>Searching\<close>

fun first_fit :: "nat \<Rightarrow> nat \<Rightarrow> nat \<Rightarrow> (nat \<times> bool) list \<Rightarrow> nat option" where
  "first_fit lim sz o' [] = None"
| "first_fit lim sz o' (b # bs) =
    (if o' < lim then if \<not> snd b \<and> sz \<le> fst b - 12 then Some o' else first_fit lim sz (o' + fst b) bs else None)"

lemma find_fit_spec:
  assumes "layout h (xs @ ys)" "w \<le> mem_size_aligned h"
  shows "find_fit w h (of_nat (extent xs)) =
    Some (map_option of_nat (first_fit (unat (mem_size_aligned h - w)) (unat w) (extent xs) ys))"
  using assms(1)
proof (induction ys arbitrary: xs)
  case Nil
  have "unat (mem_size_aligned h - w) \<le> unat (mem_size_aligned h)" by (simp add: unat_diff_u32 assms(2) flip: word_le_nat_alt)
  then have "\<not> of_nat (extent xs) < mem_size_aligned h - w"
    using layoutD(7) [OF Nil] unat_off [OF _ Nil, of "extent xs"] by (simp add: word_less_nat_alt)
  then show ?case by (simp add: find_fit.simps)
next
  case (Cons b ys)
  let ?o = "extent xs" and ?lim = "unat (mem_size_aligned h - w)"
  note l = Cons.prems
  note bl = layout_block [OF l]
  have lt: "(of_nat ?o :: u32) < mem_size_aligned h - w \<longleftrightarrow> ?o < ?lim"
    using unat_off [OF _ l, of ?o] by (simp add: word_less_nat_alt)
  have hd: "hdr h (node h (of_nat ?o)) = head_of (last_off 0 0 xs) ?o b" using hdr_node [OF _ l, of ?o] bl(1) by simp
  have "(of_nat (?o + fst b) :: u32) - (of_nat ?o + 12) = of_nat (fst b - 12)"
    using bl(2) by (simp add: of_nat_diff)
  then have fit: "w \<le> (of_nat (?o + fst b) :: u32) - (of_nat ?o + 12) \<longleftrightarrow> unat w \<le> fst b - 12"
    using unat_off [OF _ l, of "fst b - 12"] by (simp add: word_le_nat_alt)
  have "find_fit w h (of_nat ?o + of_nat (fst b)) = Some (map_option of_nat (first_fit ?lim (unat w) (?o + fst b) ys))"
    using Cons.IH [of "xs @ [b]"] l by simp
  then show ?case
    using lt fit hd by (subst find_fit.simps) (auto simp: head_of_def Let_def)
qed

lemma next_free_spec: "layout h (xs @ ys) \<Longrightarrow>
    next_free h (node h (of_nat (extent xs))) = Some (node h (of_nat (free_off (extent xs) ys)))"
proof (induction ys arbitrary: xs)
  case Nil
  then show ?case using heap_end_node [OF Nil] by (simp add: next_free.simps)
next
  case (Cons b ys)
  note l = Cons.prems
  have hd: "hdr h (node h (of_nat (extent xs))) = head_of (last_off 0 0 xs) (extent xs) b"
    using hdr_node [OF _ l, of "extent xs"] layout_block(1) [OF l] by simp
  have "node h (of_nat (extent xs)) \<noteq> heap_end h"
    using node_eq [OF _ _ l, of "extent xs" "extent (xs @ b # ys)"] layout_block(2) [OF l]
    by (simp add: heap_end_node [OF l] del: of_nat_add)
  then show ?case
    using Cons.IH [of "xs @ [b]"] l hd by (subst next_free.simps) (auto simp: head_of_def)
qed

lemma first_fit_Some: "first_fit lim sz o' bs = Some p \<Longrightarrow>
    \<exists>xs n ys. bs = xs @ (n, False) # ys \<and> p = o' + extent xs \<and> sz \<le> n - 12 \<and> p < lim \<and>
      (\<forall>b \<in> set xs. \<not> snd b \<longrightarrow> fst b - 12 < sz)"
proof (induction bs arbitrary: o')
  case (Cons b bs)
  show ?case
  proof (cases "o' < lim \<and> \<not> snd b \<and> sz \<le> fst b - 12")
    case True
    with Cons.prems show ?thesis by (intro exI [of _ "[]"] exI [of _ "fst b"] exI [of _ bs]) (cases b; auto)
  next
    case False
    with Cons.prems have "first_fit lim sz (o' + fst b) bs = Some p" by (auto split: if_splits)
    from Cons.IH [OF this] obtain xs n ys where "bs = xs @ (n, False) # ys" "p = o' + fst b + extent xs" "sz \<le> n - 12" "p < lim"
      "\<forall>b \<in> set xs. \<not> snd b \<longrightarrow> fst b - 12 < sz" by blast
    with False Cons.prems show ?thesis
      by (intro exI [of _ "b # xs"] exI [of _ n] exI [of _ ys]) (auto split: if_splits)
  qed
qed simp

lemma first_fit_None: "first_fit lim sz o' bs = None \<Longrightarrow> bs = xs @ (n, False) # ys \<Longrightarrow> sz \<le> n - 12 \<Longrightarrow> lim \<le> o' + extent xs"
proof (induction bs arbitrary: o' xs)
  case (Cons b bs)
  show ?case
  proof (cases xs)
    case Nil
    then show ?thesis using Cons.prems by (auto split: if_splits)
  next
    case (Cons c cs)
    then show ?thesis using Cons.IH [of "o' + fst b" cs] Cons.prems by (auto split: if_splits)
  qed
qed simp

lemma first_fit_skip: "\<forall>b \<in> set us. snd b \<Longrightarrow> first_fit lim sz o' (us @ vs) = first_fit lim sz (o' + extent us) vs"
proof (induction us arbitrary: o')
  case (Cons u us)
  have "first_fit lim sz p vs = None" if "lim \<le> p" for p using that by (cases vs) auto
  with Cons show ?case by (auto simp: add.assoc)
qed simp

lemma free_off_split: "\<exists>us vs. bs = us @ vs \<and> (\<forall>b \<in> set us. snd b) \<and> (vs = [] \<or> \<not> snd (hd vs)) \<and> free_off o' bs = o' + extent us"
proof (induction bs arbitrary: o')
  case (Cons b bs)
  show ?case
  proof (cases "snd b")
    case True
    obtain us vs where "bs = us @ vs" "\<forall>b \<in> set us. snd b" "vs = [] \<or> \<not> snd (hd vs)" "free_off (o' + fst b) bs = o' + fst b + extent us"
      using Cons.IH by blast
    then show ?thesis using True by (intro exI [of _ "b # us"] exI [of _ vs]) auto
  next
    case False
    then show ?thesis by (intro exI [of _ "[]"] exI [of _ "b # bs"]) simp
  qed
qed simp

section \<open>Cutting and taking a block\<close>

lemma layout_set_magic:
  assumes l: "layout h (xs @ b # ys)" and p: "p = node h (of_nat (extent xs))"
  shows "layout (set_magic p HEAP_MAGIC h) (xs @ b # ys)" "same_but {extent xs} h (set_magic p HEAP_MAGIC h)"
proof -
  let ?h' = "set_magic p HEAP_MAGIC h"
  have u: "unat p = unat (heap_ptr h) + extent xs" using unat_node [OF _ l, of "extent xs"] by (simp add: p)
  show s: "same_but {extent xs} h ?h'" by (rule same_but_set [OF _ u]) simp_all
  note bl = layout_block [OF l]
  have "layout ?h' (xs @ [b] @ ys)"
  proof (rule layout_replace [where mid = "[b]" and A = "{extent xs}"])
    show "hds ?h' (extent xs + extent [b]) = (hds h (extent xs + extent [b]))
        \<lparr>h_prev := of_nat (last_off (last_off 0 0 xs) (extent xs) [b])\<rparr>" if ys: "ys \<noteq> []"
    proof -
      obtain c cs where c: "ys = c # cs" using ys by (cases ys) auto
      from layout_block [of h "xs @ [b]" c cs] l c
      have "hds h (extent xs + fst b) = head_of (extent xs) (extent xs + fst b) c" by (simp add: last_off_def)
      moreover have "hds ?h' (extent xs + fst b) = hds h (extent xs + fst b)"
        using bl(2) by (intro same_but_hds [OF s]) (simp add: apart_def)
      ultimately show ?thesis by (simp add: head_of_def last_off_def)
    qed
  qed (use l s bl u in \<open>auto simp: hdr_simps head_of_def\<close>)
  then show "layout ?h' (xs @ b # ys)" by simp
qed

lemma cut_block_spec:
  assumes l: "layout h (xs @ (n, u) # ys)" and a: "a = sz + 12" "16 \<le> a" "a + 16 \<le> n"
  defines "h1 \<equiv> cut_block (of_nat (extent xs)) (of_nat sz) h"
  shows "same_but {extent xs, extent xs + a} h h1" "hds h1 (extent xs) = head_of (last_off 0 0 xs) (extent xs) (a, u)"
    "hds h1 (extent xs + a) = head_of (extent xs) (extent xs + a) (n - a, False)"
    "lfree h1 = lfree h" "used_mem h1 = used_mem h" "max_mem h1 = max_mem h"
proof -
  let ?o = "extent xs"
  let ?p = "node h (of_nat ?o)" and ?q = "node h (of_nat (?o + a))"
  have u: "unat ?p = unat (heap_ptr h) + ?o" "unat ?q = unat (heap_ptr h) + (?o + a)"
    using unat_node [OF _ l, of ?o] unat_node [OF _ l, of "?o + a"] a by (simp_all del: of_nat_add)
  have q: "of_nat ?o + 12 + of_nat sz = (of_nat (?o + a) :: u32)" by (simp add: a(1))
  define h2 where "h2 = set_used ?q 0 (set_magic ?q HEAP_MAGIC h)"
  have "hdr h2 ?p = hds h2 ?o" by (simp add: hdr_def hds_def h2_def hdr_simps u(1))
  also have "\<dots> = hds h ?o" using a(2) u(2) by (simp add: h2_def hdr_simps apart_def)
  finally have hp: "hdr h2 ?p = head_of (last_off 0 0 xs) ?o (n, u)" using layout_block(1) [OF l] by simp
  have h1: "h1 = set_next ?p (of_nat (?o + a)) (set_prev ?q (of_nat ?o) (set_next ?q (of_nat (?o + n)) h2))"
    unfolding h1_def cut_block_def Let_def q h2_def [symmetric] hp by (simp add: head_of_def)
  have nd: "heap_ptr h2 = heap_ptr h" by (simp add: h2_def hdr_simps)
  have s2: "same_but {?o, ?o + a} h h2"
    unfolding h2_def by (intro same_but_set(1,2) [OF _ u(2)] same_but_refl) simp_all
  show "same_but {?o, ?o + a} h h1"
    unfolding h1 by (rule same_but_set(3) [OF same_but_set(4) [OF same_but_set(3) [OF s2 u(2)] u(2)] u(1)]) simp_all
  show "hds h1 ?o = head_of (last_off 0 0 xs) ?o (a, u)"
    using u a(2) layout_block(1) [OF l] unfolding h1
    by (simp add: hdr_simps nd apart_def h2_def) (simp add: head_of_def)
  show "hds h1 (?o + a) = head_of ?o (?o + a) (n - a, False)"
    using u a(2,3) unfolding h1
    by (simp add: hdr_simps nd apart_def h2_def del: of_nat_add) (simp add: head_of_def)
  show "lfree h1 = lfree h" "used_mem h1 = used_mem h" "max_mem h1 = max_mem h" by (simp_all add: h1 h2_def hdr_simps)
qed

definition grab :: "nat \<Rightarrow> nat \<Rightarrow> (nat \<times> bool) list" where
  "grab n sz = (if sz + 24 \<le> n - 12 then [(sz + 12, True), (n - (sz + 12), False)] else [(n, True)])"

text \<open>The headers that are written when a block at \<open>o'\<close> is taken.\<close>

definition grabbed :: "nat \<Rightarrow> nat \<Rightarrow> nat \<Rightarrow> nat set" where
  "grabbed o' n sz = (if sz + 24 \<le> n - 12 then {o', o' + (sz + 12), o' + n} else {o'})"

lemma grab_total: "16 \<le> n \<Longrightarrow> extent (grab n sz) = n"
  by (simp add: grab_def)

lemma count_used_simps [simp]:
  "lfree (count_used v h) = lfree h" "heap_ptr (count_used v h) = heap_ptr h" "hds (count_used v h) = hds h"
  "hdr (count_used v h) = hdr h" "node (count_used v h) = node h" "used_mem (count_used v h) = used_mem h + v"
  "same_but A h0 (count_used v h) = same_but A h0 h" "layout (count_used v h) bs = layout h bs"
  by (auto simp: count_used_def Let_def hdr_def node_def fun_eq_iff layout_def hdr_simps)

lemma count_used_max: "used_mem (count_used v h) \<le> max_mem (count_used v h)"
  by (simp add: count_used_def Let_def not_less)

lemma same_but_layout_trans:
  "same_but A h h1 \<Longrightarrow> same_but C h1 h2 \<Longrightarrow> A \<subseteq> D \<Longrightarrow> C \<subseteq> D \<Longrightarrow> same_but D h h2"
  by (rule same_but_trans [OF same_but_mono same_but_mono])

lemma take_block_spec:
  assumes l: "layout h (xs @ (n, False) # ys)" and w: "w = of_nat sz" "12 \<le> sz" "4 dvd sz" "sz + 12 \<le> n"
  defines "h' \<equiv> take_block (of_nat (extent xs)) w h"
  shows "layout h' (xs @ grab n sz @ ys)" "same_but (grabbed (extent xs) n sz) h h'" "lfree h' = lfree h"
    "used_mem h' = used_mem h + of_nat (fst (hd (grab n sz)))" "used_mem h' \<le> max_mem h'"
proof -
  let ?o = "extent xs" and ?a = "sz + 12"
  let ?p = "node h (of_nat ?o)" and ?A = "grabbed (extent xs) n sz"
  have hp: "hdr h ?p = head_of (last_off 0 0 xs) ?o (n, False)" using hdr_node [OF _ l, of ?o] layout_block(1) [OF l] by simp
  have n16: "16 \<le> n" using layout_block(2) [OF l] by simp
  have "(of_nat (?o + n) :: u32) - (of_nat ?o + 12) = of_nat (n - 12)" using n16 by (simp add: of_nat_diff)
  moreover have "w + 12 + 12 = of_nat (sz + 24)" by (simp add: w(1))
  moreover have "n - 12 \<le> extent (xs @ (n, False) # ys)" by simp
  note this [THEN unat_off, OF l]
  moreover have "unat (of_nat (sz + 24) :: u32) = sz + 24"
  proof -
    have "sz + 24 < 2 ^ 32" using w(4) layoutD(2,7) [OF l] by simp
    then show ?thesis by (simp add: unsigned_of_nat take_bit_nat_eq_self del: of_nat_add)
  qed
  ultimately have cond: "w + 12 + 12 \<le> h_next (hdr h ?p) - (of_nat ?o + 12) \<longleftrightarrow> sz + 24 \<le> n - 12"
    using hp by (simp add: word_le_nat_alt head_of_def del: of_nat_add)
  define h1 where "h1 = (if sz + 24 \<le> n - 12
      then count_used (w + 12) (link_back (of_nat ?o + 12 + w) (set_used ?p 1 (cut_block (of_nat ?o) w h)))
      else (let ha = set_used ?p 1 h in count_used (h_next (hdr ha ?p) - (?p - heap_ptr ha)) ha))"
  have h': "h' = set_magic ?p HEAP_MAGIC h1" unfolding h'_def take_block_def Let_def cond h1_def by simp
  have "layout h1 (xs @ grab n sz @ ys) \<and> same_but ?A h h1 \<and> lfree h1 = lfree h \<and>
    used_mem h1 = used_mem h + of_nat (fst (hd (grab n sz))) \<and> used_mem h1 \<le> max_mem h1"
  proof (cases "sz + 24 \<le> n - 12")
    case True
    then have a: "16 \<le> ?a" "4 dvd ?a" "?a + 16 \<le> n" using w by auto
    define hc where "hc = cut_block (of_nat ?o) w h"
    note c = cut_block_spec [OF l refl a(1,3), folded w(1), folded hc_def]
    have u: "unat ?p = unat (heap_ptr h) + ?o" using unat_node [OF _ l, of ?o] by simp
    have ptr: "heap_ptr hc = heap_ptr h" using c(1) by (simp add: same_but_def)
    define hu where "hu = set_used ?p 1 hc"
    have s: "same_but {?o, ?o + ?a} h hu" unfolding hu_def by (rule same_but_set(2) [OF c(1) u]) simp
    have f: "hds hu ?o = head_of (last_off 0 0 xs) ?o (?a, True)" "hds hu (?o + ?a) = head_of ?o (?o + ?a) (n - ?a, False)"
      using c(2,3) a(1) by (simp_all add: hu_def hdr_simps u ptr apart_def head_of_def)
    note k = layout_cut [OF l a s f]
    have o': "of_nat ?o + 12 + w = (of_nat (?o + ?a) :: u32)" by (simp add: w(1))
    have "lfree (link_back p hu) = lfree h" "used_mem (link_back p hu) = used_mem h" for p
      using c(4,5) by (simp_all add: link_back_def Let_def hu_def hdr_simps)
    moreover have "h1 = count_used (w + 12) (link_back (of_nat (?o + ?a)) hu)"
      using True by (simp only: h1_def if_True o' hu_def hc_def)
    moreover from this have "used_mem h1 \<le> max_mem h1" using count_used_max by metis
    ultimately show ?thesis using k True by (simp add: grab_def grabbed_def w(1) add.commute)
  next
    case False
    note k = layout_set_used [OF l refl, of True, unfolded if_True]
    have "hdr (set_used ?p 1 h) ?p = (hdr h ?p)\<lparr>h_used := 1\<rparr>"
      by (simp add: hdr_def set_used_def hdr_simps del: add_2_eq_Suc')
    then have "h1 = count_used (of_nat n) (set_used ?p 1 h)" using False hp by (simp add: h1_def hdr_simps head_of_def)
    moreover from this have "used_mem h1 \<le> max_mem h1" using count_used_max by metis
    ultimately show ?thesis using k False by (simp add: grab_def grabbed_def hdr_simps)
  qed
  then have 1: "layout h1 (xs @ grab n sz @ ys)" "same_but ?A h h1" "lfree h1 = lfree h"
    "used_mem h1 = used_mem h + of_nat (fst (hd (grab n sz)))" "used_mem h1 \<le> max_mem h1" by blast+
  obtain b bs where g: "grab n sz = b # bs" by (cases "grab n sz") (auto simp: grab_def split: if_splits)
  have p: "?p = node h1 (of_nat ?o)" using 1(2) by (simp add: node_def same_but_def)
  note m = layout_set_magic [of h1 xs b "bs @ ys", OF _ p] 
  show "layout h' (xs @ grab n sz @ ys)" using 1(1) m(1) by (simp add: h' g)
  show "same_but ?A h h'" using same_but_layout_trans [OF 1(2) m(2), of ?A] 1(1) g by (simp add: h' grabbed_def)
  show "lfree h' = lfree h" "used_mem h' = used_mem h + of_nat (fst (hd (grab n sz)))" "used_mem h' \<le> max_mem h'"
    using 1 by (simp_all add: h' hdr_simps)
qed

lemma lfree_advance:
  assumes l: "layout h (xs @ zs)" and lf: "lfree h = node h (of_nat (if \<forall>b \<in> set xs. snd b then extent xs else free_off 0 xs))"
  shows "(if node h (of_nat (extent xs)) = lfree h
      then Option.bind (next_free h (lfree h)) (\<lambda>p. Option.bind
        (assert_that (p = heap_end h \<or> h_used (hdr h p) = 0)) (\<lambda>_. Some (h\<lparr>lfree := p\<rparr>)))
      else Some h) = Some (h\<lparr>lfree := node h (of_nat (free_off 0 (xs @ zs)))\<rparr>)"
proof (cases "\<forall>b \<in> set xs. snd b")
  case True
  have lp: "lfree h = node h (of_nat (extent xs))" using lf True by simp
  have fo: "free_off 0 (xs @ zs) = free_off (extent xs) zs" using True by (simp add: free_off_append)
  obtain us vs where v: "xs @ zs = us @ vs" "vs = [] \<or> \<not> snd (hd vs)" "free_off 0 (xs @ zs) = 0 + extent us"
    using free_off_split [of "xs @ zs" 0] by blast
  have "node h (of_nat (extent us)) = heap_end h \<or> h_used (hdr h (node h (of_nat (extent us)))) = 0"
  proof (cases vs)
    case Nil
    then show ?thesis using heap_end_node [OF l] v(1) by simp
  next
    case (Cons d ds)
    have ld: "layout h (us @ d # ds)" using l v(1) Cons by simp
    show ?thesis using hdr_node [OF _ ld, of "extent us"] layout_block(1) [OF ld] v(2) Cons by (simp add: head_of_def)
  qed
  then show ?thesis using next_free_spec [OF l] fo v(3) lp by simp
next
  case False
  have g: "free_off o' zs < o' + extent zs" if "\<exists>b \<in> set zs. \<not> snd b" "\<forall>b \<in> set zs. 16 \<le> fst b" for o' and zs :: "(nat \<times> bool) list"
    using that by (induction zs arbitrary: o') (auto simp: add.assoc [symmetric])
  have "\<forall>b \<in> set xs. 16 \<le> fst b" using layout_block(2) [of h] l by (metis append.assoc append_Cons split_list)
  then have "free_off 0 xs < 0 + extent xs" using g [of xs 0] False by blast
  moreover have fo: "free_off 0 (xs @ zs) = free_off 0 xs" using False by (simp only: free_off_append if_False)
  moreover have lp: "lfree h = node h (of_nat (free_off 0 xs))" using False by (simp only: lf if_False)
  ultimately show ?thesis using node_eq [OF _ _ l, of "extent xs" "free_off 0 xs"] by simp
qed

lemma malloc_section_spec:
  assumes i: "heap_inv h bs" and w: "w = of_nat sz" "12 \<le> sz" "4 dvd sz" "sz \<le> unat (mem_size_aligned h)"
  shows "(malloc_section w h = Some (None, h) \<and>
      (\<forall>xs n ys. bs = xs @ (n, False) # ys \<and> sz + 12 \<le> n \<longrightarrow> unat (mem_size_aligned h) \<le> extent xs + sz)) \<or>
    (\<exists>xs n ys h'. bs = xs @ (n, False) # ys \<and> sz + 12 \<le> n \<and> (\<forall>(m, u) \<in> set xs. u \<or> m < sz + 12) \<and>
      malloc_section w h = Some (Some (node h (of_nat (extent xs))), h') \<and> heap_inv h' (xs @ grab n sz @ ys) \<and>
      same_but (grabbed (extent xs) n sz) h h')"
proof -
  note l = heap_invD(1) [OF i]
  obtain us vs where v: "bs = us @ vs" "\<forall>b \<in> set us. snd b" "vs = [] \<or> \<not> snd (hd vs)" "free_off 0 bs = extent us"
    using free_off_split [of bs 0] by auto
  have lf: "lfree h = node h (of_nat (extent us))" using heap_invD(3) [OF i] v(4) by simp
  have szr: "sz < 2 ^ 32" using w(4) unsigned_less [of "mem_size_aligned h", where ?'a = nat] by simp
  have uw: "unat w = sz" using szr by (simp add: w(1) unsigned_of_nat take_bit_nat_eq_self)
  have lw: "w \<le> mem_size_aligned h" using w(4) uw by (simp add: word_le_nat_alt)
  let ?lim = "unat (mem_size_aligned h) - sz"
  have lim: "unat (mem_size_aligned h - w) = ?lim" using w(4) uw by (simp add: unat_diff_u32)
  have f: "find_fit w h (lfree h - heap_ptr h) = Some (map_option of_nat (first_fit ?lim sz 0 bs))"
    using find_fit_spec [OF l [unfolded v(1)] lw] first_fit_skip [OF v(2), of ?lim sz 0 vs] by (simp add: lf lim uw v(1))
  show ?thesis
  proof (cases "first_fit ?lim sz 0 bs")
    case None
    have "unat (mem_size_aligned h) \<le> extent xs + sz" if "bs = xs @ (n, False) # ys" "sz + 12 \<le> n" for xs n ys
    proof -
      have "sz \<le> n - 12" using that(2) by simp
      from first_fit_None [OF None that(1) this] show ?thesis by simp
    qed
    then show ?thesis using f None by (simp add: malloc_section_def)
  next
    case (Some p)
    obtain xs n ys where x: "bs = xs @ (n, False) # ys" "p = extent xs" "sz \<le> n - 12" "\<forall>b \<in> set xs. \<not> snd b \<longrightarrow> fst b - 12 < sz"
      using first_fit_Some [OF Some] by auto
    have lx: "layout h (xs @ (n, False) # ys)" using l x(1) by simp
    have n: "16 \<le> n" "sz + 12 \<le> n" using layout_block(2) [OF lx] x(3) w(2) by simp_all
    note t = take_block_spec [OF lx w(1-3) n(2)]
    let ?h1 = "take_block (of_nat (extent xs)) w h"
    let ?p = "node h (of_nat (extent xs))"
    have nd: "node ?h1 q = node h q" for q using t(2) by (simp add: node_def same_but_def)
    let ?bs' = "xs @ grab n sz @ ys"
    have ext: "extent ?bs' = extent bs" using n(1) by (simp add: x(1) grab_total)
    have c: "coalesced ?bs'" using heap_invD(2) [OF i] by (auto simp: x(1) coalesced_append coalesced_Cons grab_def)
    have tot: "used_total ?bs' = used_total bs + fst (hd (grab n sz))" by (simp add: x(1) grab_def)
    have "used_total ?bs' < 2 ^ 32" using used_total_le [of ?bs'] ext layout_block(5) [OF lx] x(1) by simp
    then have um: "unat (used_mem ?h1) = used_total ?bs'"
      using heap_invD(4) [OF i] unfolding t(4) tot by (simp add: unat_word_ariths unsigned_of_nat take_bit_eq_mod mod_add_right_eq)
    have "lfree ?h1 = node ?h1 (of_nat (if \<forall>b \<in> set xs. snd b then extent xs else free_off 0 xs))"
      using t(3) heap_invD(3) [OF i] by (simp add: x(1) free_off_append nd)
    note r = lfree_advance [OF t(1) this, unfolded nd]
    let ?f = "node h (of_nat (free_off 0 ?bs'))"
    define h' where "h' = ?h1\<lparr>lfree := ?f\<rparr>"
    have q: "layout h' ?bs' = layout ?h1 ?bs'" "same_but A h h' = same_but A h ?h1" "used_mem h' = used_mem ?h1" "max_mem h' = max_mem ?h1"
      "lfree h' = ?f" for A
      by (simp_all add: h'_def layout_def hdr_simps)
    have nd': "node h' q = node h q" for q using nd [of q] by (simp add: h'_def node_def)
    have "heap_inv h' ?bs'" using t(1,5) c um by (simp add: heap_inv_def q nd')
    moreover have "malloc_section w h = Some (Some ?p, h')" using f Some x(2) r by (simp add: malloc_section_def h'_def)
    ultimately show ?thesis using x n(2) t(2) q(2) by (intro disjI2 exI [of _ xs] exI [of _ n] exI [of _ ys] exI [of _ h']) auto
  qed
qed

section \<open>Freeing and shrinking\<close>

lemma layout_sizes: "layout h bs \<Longrightarrow> b \<in> set bs \<Longrightarrow> 16 \<le> fst b"
  using layout_block(2) [of h] by (metis split_list)

lemma free_off_less: "\<exists>b \<in> set zs. \<not> snd b \<Longrightarrow> \<forall>b \<in> set zs. 16 \<le> fst b \<Longrightarrow> free_off o' zs < o' + extent zs"
  by (induction zs arbitrary: o') (auto simp: add.assoc [symmetric])

lemma free_off_ge: "o' \<le> free_off o' zs"
  by (induction zs arbitrary: o') (auto intro: order_trans [OF le_add1])

text \<open>The pointer to the lowest free block after a block has become free.\<close>

lemma lfree_lower:
  assumes l: "layout h (xs @ (n, False) # ys)" and lf: "lfree h = node h (of_nat (free_off 0 (xs @ (n, True) # ys)))"
    and p: "p = node h (of_nat (extent xs))"
  shows "(if p < lfree h then p else lfree h) = node h (of_nat (free_off 0 (xs @ (n, False) # ys)))"
proof (cases "\<forall>b \<in> set xs. snd b")
  case True
  have "extent xs + n \<le> free_off (extent xs + n) ys" "free_off (extent xs + n) ys \<le> extent xs + n + extent ys"
    by (rule free_off_ge, rule free_off_le)
  then show ?thesis
    using True node_less [OF _ _ l, of "extent xs" "free_off (extent xs + n) ys"] layout_block(2) [OF l]
    by (simp add: p lf free_off_append)
next
  case False
  then have "free_off 0 xs < 0 + extent xs" using layout_sizes [OF l] by (intro free_off_less) auto
  moreover have "lfree h = node h (of_nat (free_off 0 xs))" "free_off 0 (xs @ (n, False) # ys) = free_off 0 xs"
    using False by (simp_all only: lf free_off_append if_False)
  ultimately show ?thesis using node_less [OF _ _ l, of "extent xs" "free_off 0 xs"] by (simp add: p)
qed

lemma layout_fields [simp]:
  "layout (h\<lparr>lfree := p\<rparr>) bs = layout h bs" "layout (h\<lparr>used_mem := v\<rparr>) bs = layout h bs" "layout (h\<lparr>max_mem := v\<rparr>) bs = layout h bs"
  by (simp_all add: layout_def hdr_simps)

lemma node_fields [simp]:
  "node (h\<lparr>lfree := p\<rparr>) = node h" "node (h\<lparr>used_mem := v\<rparr>) = node h" "hdr (h\<lparr>lfree := p\<rparr>) = hdr h" "hdr (h\<lparr>used_mem := v\<rparr>) = hdr h"
  by (simp_all add: node_def hdr_def fun_eq_iff)

lemma same_but_node: "same_but A h h' \<Longrightarrow> node h' = node h"
  by (simp add: same_but_def node_def fun_eq_iff)

lemma free_section_spec:
  assumes i: "heap_inv h (xs @ (n, True) # ys)" and p: "p = node h (of_nat (extent xs))"
  obtains h' where "free_section p h = Some ((), h')" "heap_inv h' (plug xs n ys)"
    "same_but (offsets 0 (xs @ (n, True) # ys) \<union> {extent (xs @ (n, True) # ys)}) h h'"
proof -
  let ?bs = "xs @ (n, True) # ys" and ?bs' = "xs @ (n, False) # ys"
  note l = heap_invD(1) [OF i]
  have hp: "hdr h p = head_of (last_off 0 0 xs) (extent xs) (n, True)"
    using hdr_node [OF _ l, of "extent xs"] layout_block(1) [OF l] by (simp add: p)
  define ha where "ha = set_used p 0 h"
  note 1 = layout_set_used [OF l p, of False, unfolded if_False, simplified, folded ha_def]
  define h1 where "h1 = set_magic p HEAP_MAGIC ha"
  have nda: "node ha = node h" using same_but_node [OF 1(2)] .
  note 2 = layout_set_magic [OF 1(1), of p, folded h1_def, unfolded nda, OF p]
  have s1: "same_but {extent xs} h h1" using same_but_trans [OF 1(2) 2(2)] .
  have nd: "node h1 = node h" using same_but_node [OF s1] .
  have f1: "lfree h1 = lfree h" "used_mem h1 = used_mem h" "max_mem h1 = max_mem h" "heap_ptr h1 = heap_ptr h"
    by (simp_all add: h1_def ha_def hdr_simps)
  define h2 where "h2 = h1\<lparr>lfree := (if p < lfree h1 then p else lfree h1)\<rparr>"
  have h2: "(if p < lfree h1 then h1\<lparr>lfree := p\<rparr> else h1) = h2" by (simp add: h2_def)
  have l2: "lfree h2 = node h (of_nat (free_off 0 ?bs'))"
    using lfree_lower [OF 2(1) _ p [folded nd]] heap_invD(3) [OF i] by (simp add: h2_def f1 nd)
  have "hdr h2 p = head_of (last_off 0 0 xs) (extent xs) (n, False)"
    using hdr_node [OF _ 2(1), of "extent xs"] layout_block(1) [OF 2(1)] by (simp add: h2_def p nd)
  then have ext: "h_next (hdr h2 p) - (p - heap_ptr h2) = of_nat n" by (simp add: head_of_def p h2_def f1)
  define h3 where "h3 = h2\<lparr>used_mem := used_mem h2 - of_nat n\<rparr>"
  have tot: "used_total ?bs = used_total ?bs' + n" by simp
  have n: "unat (of_nat n :: u32) = n" using unat_off [OF _ l, of n] by simp
  have um: "unat (used_mem h2 - of_nat n) = used_total ?bs'"
    using heap_invD(4) [OF i] tot n by (simp add: h2_def f1 unat_diff_u32)
  have c: "coalesced xs" "coalesced ys" using heap_invD(2) [OF i] by (simp_all add: coalesced_append coalesced_Cons)
  have l3: "layout h3 ?bs'" "lfree h3 = node h3 (of_nat (free_off 0 ?bs'))" "p = node h3 (of_nat (extent xs))"
    using 2(1) l2 p by (simp_all add: h3_def h2_def nd)
  obtain h4 where h4: "plug_holes p h3 = Some h4" "layout h4 (plug xs n ys)" "coalesced (plug xs n ys)"
    "lfree h4 = node h3 (of_nat (free_off 0 (plug xs n ys)))" "used_mem h4 = used_mem h3" "max_mem h4 = max_mem h3"
    "same_but (offsets 0 ?bs' \<union> {extent ?bs'}) h3 h4"
    by (rule plug_spec [OF l3 c])
  have "offsets 0 ?bs = offsets 0 ?bs'" "extent ?bs = extent ?bs'" by (simp_all add: offsets_append)
  moreover have "same_but (offsets 0 ?bs' \<union> {extent ?bs'}) h h3"
    using s1 by (auto simp: h3_def h2_def offsets_append intro: same_but_mono)
  ultimately have s: "same_but (offsets 0 ?bs \<union> {extent ?bs}) h h4" using same_but_trans [OF _ h4(7)] by simp
  have "used_mem h4 \<le> max_mem h4"
  proof -
    have "used_mem h2 - of_nat n \<le> used_mem h2" using heap_invD(4) [OF i] tot um by (simp add: word_le_nat_alt h2_def f1)
    then show ?thesis using heap_invD(5) [OF i] h4(5,6) by (simp add: h3_def h2_def f1)
  qed
  then have "heap_inv h4 (plug xs n ys)"
    using h4 um same_but_node [OF h4(7)] by (simp add: heap_inv_def h3_def used_total_plug)
  moreover have "free_section p h = Some ((), h4)"
    using hp h4(1) by (simp add: free_section_def head_of_def Let_def h2 ext flip: ha_def h1_def h3_def)
  ultimately show ?thesis using s that by blast
qed

lemma realloc_section_spec:
  assumes i: "heap_inv h (xs @ (n, True) # ys)" and p: "p = node h (of_nat (extent xs))"
    and w: "w = of_nat ns" "4 \<le> ns" "4 dvd ns" "ns \<le> unat (mem_size_aligned h)"
  shows "ns = n - 12 \<Longrightarrow> realloc_section (p + 12) w h = Some (Inl (p + 12), h)"
    "ns \<noteq> n - 12 \<Longrightarrow> \<not> ns + 24 < n - 12 \<Longrightarrow> realloc_section (p + 12) w h = Some (Inr (of_nat (n - 12)), h)"
    "ns + 24 < n - 12 \<Longrightarrow> \<exists>h'. realloc_section (p + 12) w h = Some (Inl (p + 12), h') \<and>
      heap_inv h' (plug (xs @ [(ns + 12, True)]) (n - 12 - ns) ys) \<and>
      same_but (offsets 0 (xs @ (n, True) # ys) \<union> {extent xs + (ns + 12), extent (xs @ (n, True) # ys)}) h h'"
proof -
  let ?o = "extent xs" and ?bs = "xs @ (n, True) # ys" and ?a = "ns + 12"
  note l = heap_invD(1) [OF i]
  note b = layout_block [OF l]
  have hp: "hdr h p = head_of (last_off 0 0 xs) ?o (n, True)" using hdr_node [OF _ l, of ?o] b(1) by (simp add: p)
  have n16: "16 \<le> n" "4 dvd n" using b(2,3) by simp_all
  have E: "extent ?bs < 2 ^ 32" "ns + 24 < 2 ^ 32" using b(5) w(4) layoutD(2) [OF l] by simp_all
  have up: "unat p = unat (heap_ptr h) + ?o" using unat_node [OF _ l, of ?o] by (simp add: p)
  have "unat (p + 12) = unat p + 12" "unat (p + 12) < unat (heap_end h)"
    using up n16 layoutD(2,5,7) [OF l] by (simp_all add: unat_word_ariths)
  then have in_heap: "\<not> (p + 12 < heap_ptr h \<or> heap_end h \<le> p + 12)"
    using up by (simp add: word_less_nat_alt word_le_nat_alt)
  have sz: "h_next (hdr h p) - (p - heap_ptr h) - 12 = of_nat (n - 12)"
    using hp n16 by (simp add: head_of_def p of_nat_diff)
  have un: "unat (of_nat (n - 12) :: u32) = n - 12" "unat w = ns" "unat (w + 12 + 12) = ns + 24"
    using E unat_off [OF _ l, of "n - 12"] by (simp_all add: w(1) unat_word_ariths unsigned_of_nat take_bit_nat_eq_self)
  have eq: "of_nat (n - 12) = w \<longleftrightarrow> n - 12 = ns" using un by (metis w(1))
  have lt: "w + 12 + 12 < of_nat (n - 12) \<longleftrightarrow> ns + 24 < n - 12" using un by (simp add: word_less_nat_alt)
  show "ns = n - 12 \<Longrightarrow> realloc_section (p + 12) w h = Some (Inl (p + 12), h)"
    "ns \<noteq> n - 12 \<Longrightarrow> \<not> ns + 24 < n - 12 \<Longrightarrow> realloc_section (p + 12) w h = Some (Inr (of_nat (n - 12)), h)"
    using in_heap sz eq lt by (auto simp: realloc_section_def Let_def)
  assume g: "ns + 24 < n - 12"
  then have a: "16 \<le> ?a" "4 dvd ?a" "?a + 16 \<le> n" using w by simp_all
  define h0 where "h0 = h\<lparr>used_mem := used_mem h - (of_nat (n - 12) - w)\<rparr>"
  have l0: "layout h0 ?bs" using l by (simp add: h0_def)
  define hc where "hc = cut_block (of_nat ?o) w h0"
  note c = cut_block_spec [OF l0 refl a(1,3), folded w(1), folded hc_def]
  define h1 where "h1 = link_back (of_nat (?o + ?a)) hc"
  have ptr: "of_nat ?o + 12 + w = (of_nat (?o + ?a) :: u32)" by (simp add: w(1))
  note k = layout_cut [OF l0 a c(1-3), folded h1_def]
  have f1: "lfree h1 = lfree h" "used_mem h1 = used_mem h - (of_nat (n - 12) - w)" "max_mem h1 = max_mem h"
    using c(4-6) by (simp_all add: h1_def link_back_def Let_def hdr_simps h0_def)
  have nd: "node h1 = node h" using same_but_node [OF k(2)] by (simp add: h0_def)
  let ?q = "node h (of_nat (?o + ?a))" and ?xs = "xs @ [(?a, True)]" and ?m = "n - ?a"
  let ?new = "?xs @ (?m, False) # ys" and ?old = "?xs @ (?m, True) # ys"
  have lk: "layout h1 ?new" using k(1) by simp
  have fo: "free_off 0 ?bs = free_off 0 ?old" using a by (simp add: free_off_append)
  have lf: "(if ?q < lfree h1 then ?q else lfree h1) = node h (of_nat (free_off 0 ?new))"
  proof -
    have 1: "lfree h1 = node h1 (of_nat (free_off 0 ?old))"
      using trans [OF f1(1) heap_invD(3) [OF i]] arg_cong [OF fo, of "\<lambda>x. node h (of_nat x)"] unfolding nd by (rule trans)
    have "?q = node h1 (of_nat (extent ?xs))" by (simp add: nd)
    from lfree_lower [OF lk 1 this] show ?thesis by (simp only: nd)
  qed
  define h2 where "h2 = h1\<lparr>lfree := (if ?q < lfree h1 then ?q else lfree h1)\<rparr>"
  have cs: "coalesced ?xs" "coalesced ys" using heap_invD(2) [OF i] by (simp_all add: coalesced_append coalesced_Cons)
  have l2: "layout h2 ?new" "lfree h2 = node h2 (of_nat (free_off 0 ?new))" "?q = node h2 (of_nat (extent ?xs))"
    using lk lf by (simp_all add: h2_def nd)
  obtain h3 where h3: "plug_holes ?q h2 = Some h3" "layout h3 (plug ?xs ?m ys)" "coalesced (plug ?xs ?m ys)"
    "lfree h3 = node h2 (of_nat (free_off 0 (plug ?xs ?m ys)))" "used_mem h3 = used_mem h2" "max_mem h3 = max_mem h2"
    "same_but (offsets 0 ?new \<union> {extent ?new}) h2 h3"
    by (rule plug_spec [OF l2 cs])
  let ?A = "offsets 0 ?bs \<union> {?o + ?a, extent ?bs}"
  have "offsets 0 ?new \<union> {extent ?new} \<subseteq> ?A" using a by (auto simp: offsets_append add.assoc)
  moreover have "{?o, ?o + ?a, ?o + n} \<subseteq> ?A" by (cases ys) (auto simp: offsets_append)
  moreover have "same_but A h0 h1 = same_but A h h2" for A by (simp add: h2_def h0_def same_but_def)
  ultimately have s: "same_but ?A h h3" using same_but_layout_trans [OF _ h3(7), of "{?o, ?o + ?a, ?o + n}" h ?A] k(2) by blast
  have um: "unat (used_mem h3) = used_total xs + ?a + used_total ys" "used_mem h3 \<le> max_mem h3"
  proof -
    have "of_nat (n - 12) - w = (of_nat ?m :: u32)" using a by (simp add: w(1) of_nat_diff)
    moreover have "unat (of_nat ?m :: u32) = ?m" using unat_off [OF _ l, of ?m] by simp
    ultimately have d: "unat (of_nat (n - 12) - w) = ?m" by simp
    show u: "unat (used_mem h3) = used_total xs + ?a + used_total ys"
      using heap_invD(4) [OF i] d a by (simp add: h3(5) h2_def f1 unat_diff_u32)
    have "used_mem h3 \<le> used_mem h" using u heap_invD(4) [OF i] a by (simp add: word_le_nat_alt)
    then show "used_mem h3 \<le> max_mem h3" using heap_invD(5) [OF i] by (simp add: h3(6) h2_def f1)
  qed
  have "heap_inv h3 (plug ?xs ?m ys)"
    using h3 um same_but_node [OF h3(7)] by (simp add: heap_inv_def used_total_plug)
  moreover have "n - 12 - ns = ?m" by simp
  moreover have "realloc_section (p + 12) w h = Some (Inl (p + 12), h3)"
  proof -
    have pp: "p - heap_ptr h = of_nat ?o" by (simp add: p)
    have ne: "n - 12 \<noteq> ns" using g by simp
    have h2': "(if ?q < lfree h1 then h1\<lparr>lfree := ?q\<rparr> else h1) = h2" by (simp add: h2_def)
    show ?thesis
      unfolding realloc_section_def Let_def add_diff_cancel_right' sz
      unfolding pp ptr h0_def [symmetric] hc_def [symmetric] h1_def [symmetric] nd h2'
      by (simp only: in_heap eq lt g ne h3(1) if_False if_True simp_thms Option.bind.simps)
  qed
  ultimately show "\<exists>h'. realloc_section (p + 12) w h = Some (Inl (p + 12), h') \<and> heap_inv h' (plug ?xs (n - 12 - ns) ys) \<and> same_but ?A h h'"
    using s by auto
qed

end
