(* ===== verification/HeapSpec.thy ===== *)
theory HeapSpec
  imports HeapOps
begin

text \<open>
  The system heap as its users see it: the set of blocks that are handed out, with their contents. The contracts of
  \<open>rt_system_heap_init\<close>, \<open>rt_malloc\<close>, \<open>rt_free\<close>, \<open>rt_realloc\<close> and \<open>rt_calloc\<close>.
\<close>

section \<open>What the users of a heap see\<close>

text \<open>The payloads of the blocks in use and of the free ones, as offset and length.\<close>

fun payloads :: "bool \<Rightarrow> nat \<Rightarrow> (nat \<times> bool) list \<Rightarrow> (nat \<times> nat) set" where
  "payloads u o' [] = {}"
| "payloads u o' (b # bs) = (if snd b = u then {(o' + 12, fst b - 12)} else {}) \<union> payloads u (o' + fst b) bs"

text \<open>The blocks read back from the memory.\<close>

fun heap_walk :: "nat \<Rightarrow> heap \<Rightarrow> nat \<Rightarrow> (nat \<times> bool) list" where
  "heap_walk 0 h o' = []"
| "heap_walk (Suc c) h o' =
    (if unat (mem_size_aligned h) + 12 \<le> o' then []
     else (unat (h_next (hds h o')) - o', h_used (hds h o') \<noteq> 0) # heap_walk c h (unat (h_next (hds h o'))))"

definition heap_blocks :: "heap \<Rightarrow> (nat \<times> bool) list" where
  "heap_blocks h = heap_walk (unat (mem_size_aligned h)) h 0"

definition heap_ok :: "heap \<Rightarrow> bool" where
  "heap_ok h \<longleftrightarrow> heap_inv h (heap_blocks h)"

text \<open>Addresses and lengths of the blocks that are handed out, and of those that are not.\<close>

definition allocated :: "heap \<Rightarrow> (nat \<times> nat) set" where
  "allocated h = (\<lambda>(a, l). (unat (heap_ptr h) + a, l)) ` payloads True 0 (heap_blocks h)"

definition available :: "heap \<Rightarrow> (nat \<times> nat) set" where
  "available h = (\<lambda>(a, l). (unat (heap_ptr h) + a, l)) ` payloads False 0 (heap_blocks h)"

lemma payloads_append: "payloads u o' (bs @ cs) = payloads u o' bs \<union> payloads u (o' + extent bs) cs"
  by (induction bs arbitrary: o') (auto simp: add.assoc)

lemma payloads_split: "(a, l) \<in> payloads u o' bs \<Longrightarrow>
    \<exists>xs n ys. bs = xs @ (n, u) # ys \<and> a = o' + extent xs + 12 \<and> l = n - 12"
proof (induction bs arbitrary: o')
  case (Cons b bs)
  show ?case
  proof (cases "snd b = u \<and> a = o' + 12 \<and> l = fst b - 12")
    case True
    then show ?thesis by (intro exI [of _ "[]"] exI [of _ "fst b"] exI [of _ bs]) (cases b; simp)
  next
    case False
    with Cons.prems have "(a, l) \<in> payloads u (o' + fst b) bs" by (auto split: if_splits)
    from Cons.IH [OF this] obtain xs n ys where "bs = xs @ (n, u) # ys" "a = o' + fst b + extent xs + 12" "l = n - 12" by blast
    then show ?thesis by (intro exI [of _ "b # xs"] exI [of _ n] exI [of _ ys]) simp
  qed
qed simp

lemma payloads_range: "\<forall>b \<in> set bs. 16 \<le> fst b \<Longrightarrow> (a, l) \<in> payloads u o' bs \<Longrightarrow> o' + 12 \<le> a \<and> a + l \<le> o' + extent bs \<and> 4 \<le> l"
  by (induction bs arbitrary: o') (fastforce split: if_splits)+

text \<open>A payload meets no header.\<close>

lemma payloads_offsets:
  "\<forall>b \<in> set bs. 16 \<le> fst b \<Longrightarrow> (a, l) \<in> payloads u o' bs \<Longrightarrow> x \<in> offsets o' bs \<union> {o' + extent bs} \<Longrightarrow> x + 12 \<le> a \<or> a + l \<le> x"
proof (induction bs arbitrary: o')
  case (Cons b bs)
  have r: "o' + fst b + 12 \<le> a" if "(a, l) \<in> payloads u (o' + fst b) bs"
    using payloads_range [OF _ that] Cons.prems(1) by simp
  have q: "o' + fst b \<le> x" if "x \<in> offsets (o' + fst b) bs \<union> {o' + fst b + extent bs}"
  proof -
    have "p \<le> y" if "y \<in> offsets p cs" for p y and cs :: "(nat \<times> bool) list"
      using that by (induction cs arbitrary: p) (auto intro: order_trans [OF le_add1])
    then show ?thesis using that by auto
  qed
  consider "(a, l) = (o' + 12, fst b - 12)" "x = o'" | "(a, l) = (o' + 12, fst b - 12)" "x \<in> offsets (o' + fst b) bs \<union> {o' + fst b + extent bs}"
    | "(a, l) \<in> payloads u (o' + fst b) bs" "x = o'" | "(a, l) \<in> payloads u (o' + fst b) bs" "x \<in> offsets (o' + fst b) bs \<union> {o' + fst b + extent bs}"
    using Cons.prems(2,3) by (auto simp: add.assoc split: if_splits)
  then show ?case
  proof cases
    case 2
    then show ?thesis using q Cons.prems(1) by simp
  next
    case 3
    then show ?thesis using r by simp
  next
    case 4
    then show ?thesis using Cons.IH [of "o' + fst b"] Cons.prems(1) by simp
  qed simp
qed simp

lemma payloads_disjoint:
  "\<forall>b \<in> set bs. 16 \<le> fst b \<Longrightarrow> (a, l) \<in> payloads u o' bs \<Longrightarrow> (c, m) \<in> payloads v o' bs \<Longrightarrow> (a, l, u) = (c, m, v) \<or> a + l + 12 \<le> c \<or> c + m + 12 \<le> a"
proof (induction bs arbitrary: o')
  case (Cons b bs)
  have r: "o' + fst b + 12 \<le> x" if "(x, y) \<in> payloads w (o' + fst b) bs" for x y w
    using payloads_range [OF _ that] Cons.prems(1) by simp
  show ?case
    using Cons.prems r [of a l u] r [of c m v] Cons.IH [of "o' + fst b"] by (fastforce split: if_splits)
qed simp

lemma payloads_plug: "payloads True 0 (plug xs n ys) = payloads True 0 xs \<union> payloads True (extent xs + n) ys"
proof -
  obtain n' zs where j: "join_right n ys = (n', zs)" by (cases "join_right n ys")
  have 1: "payloads True (o' + n') zs = payloads True (o' + n) ys" for o'
    using j by (auto simp: join_right_def add.assoc split: list.splits bool.splits)
  show ?thesis
  proof (cases "xs \<noteq> [] \<and> \<not> snd (last xs)")
    case True
    then obtain ws m where x: "xs = ws @ [(m, False)]" by (metis append_butlast_last_id prod.collapse)
    have "payloads True 0 (plug xs n ys) = payloads True 0 ws \<union> payloads True (extent ws + m + n') zs"
      by (simp add: plug_def j x payloads_append add.assoc)
    then show ?thesis using 1 [of "extent ws + m"] by (simp add: x payloads_append add.assoc)
  next
    case False
    then have "plug xs n ys = xs @ (n', False) # zs" unfolding plug_def j by (simp only: split Let_def if_False)
    then show ?thesis using 1 [of "extent xs"] by (simp add: payloads_append)
  qed
qed

lemma heap_inv_blocks:
  assumes "heap_inv h bs"
  shows "heap_blocks h = bs"
proof -
  note l = heap_invD(1) [OF assms]
  have "heap_walk c h (extent xs) = ys" if "bs = xs @ ys" "length ys \<le> c" for c xs ys
    using that
  proof (induction ys arbitrary: xs c)
    case Nil
    then show ?case using layoutD(7) [OF l] by (cases c) simp_all
  next
    case (Cons b ys)
    have lb: "layout h (xs @ b # ys)" using l Cons.prems(1) by simp
    note b = layout_block [OF lb]
    obtain c' where c: "c = Suc c'" using Cons.prems(2) by (cases c) simp_all
    have "\<not> unat (mem_size_aligned h) + 12 \<le> extent xs" using layoutD(7) [OF lb] b(2) by simp
    moreover have "unat (of_nat (extent xs + fst b) :: u32) = extent xs + fst b" by (rule unat_off [OF _ lb]) simp
    moreover have "heap_walk c' h (extent (xs @ [b])) = ys" using Cons.IH [of "xs @ [b]" c'] Cons.prems c by simp
    ultimately show ?case by (cases b) (simp add: c b(1) head_of_def del: of_nat_add)
  qed
  moreover have "length bs \<le> unat (mem_size_aligned h)"
  proof -
    have "16 * length zs \<le> extent zs" if "\<forall>b \<in> set zs. 16 \<le> fst b" for zs :: "(nat \<times> bool) list"
      using that by (induction zs) auto
    then show ?thesis using layout_sizes [OF l] layoutD(3,7) [OF l] by fastforce
  qed
  ultimately show ?thesis using extent_simps(1) by (metis heap_blocks_def append_Nil)
qed

lemma heap_okI: "heap_inv h bs \<Longrightarrow> heap_ok h"
  by (simp add: heap_ok_def heap_inv_blocks)

lemma heap_okE: "heap_ok h \<Longrightarrow> (\<And>bs. heap_inv h bs \<Longrightarrow> heap_blocks h = bs \<Longrightarrow> thesis) \<Longrightarrow> thesis"
  by (simp add: heap_ok_def)

text \<open>The payloads of the blocks in use never overlap and lie in the heap, aligned.\<close>

lemma allocated_apart:
  assumes "heap_ok h" "(a, l) \<in> allocated h" "(c, m) \<in> allocated h \<union> available h"
  shows "(a, l) = (c, m) \<or> a + l \<le> c \<or> c + m \<le> a"
proof -
  have i: "heap_inv h (heap_blocks h)" using assms(1) by (simp add: heap_ok_def)
  have "\<forall>b \<in> set (heap_blocks h). 16 \<le> fst b" using layout_sizes [OF heap_invD(1) [OF i]] by blast
  from payloads_disjoint [OF this] assms(2,3) show ?thesis by (fastforce simp: allocated_def available_def)
qed

lemma allocated_range:
  assumes "heap_ok h" "(a, l) \<in> allocated h"
  shows "unat (heap_ptr h) + 12 \<le> a \<and> a + l \<le> unat (heap_end h) \<and> 4 \<le> l \<and> 4 dvd a \<and> a + l < 2 ^ 32"
proof -
  have i: "heap_inv h (heap_blocks h)" using assms(1) by (simp add: heap_ok_def)
  note l = heap_invD(1) [OF i]
  obtain x where x: "a = unat (heap_ptr h) + x" "(x, l) \<in> payloads True 0 (heap_blocks h)"
    using assms(2) by (auto simp: allocated_def)
  have r: "12 \<le> x \<and> x + l \<le> extent (heap_blocks h) \<and> 4 \<le> l" using payloads_range [OF _ x(2)] layout_sizes [OF l] by auto
  obtain xs n ys where s: "heap_blocks h = xs @ (n, True) # ys" "x = extent xs + 12" using payloads_split [OF x(2)] by auto
  have "4 dvd x" using layout_block(4) [of h xs] l s by simp
  then show ?thesis using r x(1) layoutD(1,2,5,7) [OF l] by (auto intro: dvd_add)
qed

lemma payload_kept:
  assumes s: "same_but A h h'" and d: "\<And>x. x \<in> A \<Longrightarrow> x + 12 \<le> a \<or> a + l \<le> x" and j: "j < l"
  shows "bytes h' (unat (heap_ptr h) + a + j) = bytes h (unat (heap_ptr h) + a + j)"
proof -
  have "unat (heap_ptr h) + a + j < unat (heap_ptr h) + x \<or> unat (heap_ptr h) + x + 12 \<le> unat (heap_ptr h) + a + j" if "x \<in> A" for x
    using d [OF that] j by auto
  then show ?thesis using s by (simp add: same_but_def)
qed

section \<open>The contracts\<close>

text \<open>Nobody holds the heap semaphore, and the caller is not an interrupt.\<close>

definition lock_free :: "nat \<Rightarrow> semaphore \<Rightarrow> kernel \<Rightarrow> bool" where
  "lock_free i s k \<longleftrightarrow> sem_ok i s k \<and> sem_value s > 0 \<and> interrupt_nest k = 0"

lemma not_in_interrupt_free: "lock_free i s k \<Longrightarrow> not_in_interrupt k = Some ()"
  by (simp add: lock_free_def not_in_interrupt_def rt_interrupt_get_nest_def assert_that_def)

lemma locked_free:
  assumes "lock_free i s k" "act h = Some (x, h1)"
  shows "locked i act h s k = Some (Done x, h1, s, k)"
proof -
  have o: "sem_ok i s k" "sem_value s > 0" using assms(1) by (simp_all add: lock_free_def)
  have "sem_value s \<noteq> 0" using o(2) by (simp add: word_neq_0_conv)
  then have "sem_value s - 1 < RT_SEM_VALUE_MAX"
    using o(2) unsigned_less [of "sem_value s", where ?'a = nat] unat_minus_one [of "sem_value s"] by (auto simp: word_less_nat_alt)
  then show ?thesis
    using sem_okD(1) [OF o(1)] sem_okD(3) [OF o] o(2) assms(2) by (simp add: locked_def rt_sem_take_def rt_sem_release_def)
qed

definition kept :: "(nat \<times> nat) set \<Rightarrow> heap \<Rightarrow> heap \<Rightarrow> bool" where
  "kept S h h' \<longleftrightarrow> (\<forall>(a, l) \<in> S. \<forall>j < l. bytes h' (a + j) = bytes h (a + j))"

lemma keptI:
  assumes "same_but A h h'" "\<And>a l x. (a, l) \<in> P \<Longrightarrow> x \<in> A \<Longrightarrow> x + 12 \<le> a \<or> a + l \<le> x"
  shows "kept ((\<lambda>(a, l). (unat (heap_ptr h) + a, l)) ` P) h h'"
  using payload_kept [OF assms(1)] assms(2) unfolding kept_def by (auto simp: add.assoc) metis

lemma allocated_inv: "heap_inv h bs \<Longrightarrow> allocated h = (\<lambda>(a, l). (unat (heap_ptr h) + a, l)) ` payloads True 0 bs"
  "heap_inv h bs \<Longrightarrow> available h = (\<lambda>(a, l). (unat (heap_ptr h) + a, l)) ` payloads False 0 bs"
  by (simp_all add: allocated_def available_def heap_inv_blocks)

lemma aligned_size:
  assumes "(0 :: u32) < sz" "unat sz + 3 < 2 ^ 32"
  shows "unat (RT_ALIGN sz 4) = (unat sz + 3) div 4 * 4" "4 dvd unat (RT_ALIGN sz 4)" "4 \<le> unat (RT_ALIGN sz 4)" "unat sz \<le> unat (RT_ALIGN sz 4)"
  using unat_RT_ALIGN [OF assms(2)] assms(1) by (simp_all add: word_less_nat_alt)

text \<open>How many bytes a request takes.\<close>

definition request :: "u32 \<Rightarrow> nat" where
  "request sz = max 12 (unat (RT_ALIGN sz 4))"

lemma node_address:
  assumes "layout h (xs @ b # ys)"
  shows "unat (node h (of_nat (extent xs)) + 12) = unat (heap_ptr h) + (extent xs + 12)" "4 dvd unat (node h (of_nat (extent xs)))"
  using unat_node [OF _ assms, of "extent xs"] layoutD(1,2,7) [OF assms] layout_block(2,4) [OF assms] by (simp_all add: unat_word_ariths dvd_add)

lemma aligned_and: "4 dvd unat (w :: u32) \<Longrightarrow> w AND 3 = 0"
  by (simp add: mask_2_u32 flip: take_bit_eq_mask) (simp add: word_unat_eq_iff take_bit_eq_mod unat_mod)

text \<open>When the search fails, only a block that ends the heap and fits exactly is passed over.\<close>

lemma far_block:
  assumes l: "layout h bs" and f: "(a, l') \<in> payloads False 0 bs" "r \<le> l'"
    and far: "\<And>xs n ys. bs = xs @ (n, False) # ys \<Longrightarrow> r + 12 \<le> n \<Longrightarrow> unat (mem_size_aligned h) \<le> extent xs + r"
  shows "l' = r \<and> unat (heap_ptr h) + a + l' = unat (heap_end h)"
proof -
  from payloads_split [OF f(1)] obtain xs n ys where b: "bs = xs @ (n, False) # ys" "a = extent xs + 12" "l' = n - 12" by auto
  have n: "16 \<le> n" using layout_block(2) [of h xs "(n, False)" ys] l b(1) by simp
  from far [OF b(1)] f(2) b(3) n have "unat (mem_size_aligned h) \<le> extent xs + r" by simp
  moreover have "unat (mem_size_aligned h) + 12 = extent xs + n + extent ys" using layoutD(7) [OF l] b(1) by simp
  moreover have "r + 12 \<le> n" using f(2) b(3) n by simp
  ultimately have "n = r + 12" "extent ys = 0" by linarith+
  then show ?thesis using b layoutD(5,7) [OF l] by simp
qed

definition rounded :: "u32 \<Rightarrow> u32" where
  "rounded sz = (if RT_ALIGN sz 4 < MIN_SIZE_ALIGNED then MIN_SIZE_ALIGNED else RT_ALIGN sz 4)"

lemma unat_rounded: "unat (rounded sz) = request sz"
  by (simp add: rounded_def request_def word_less_nat_alt)

lemma malloc_step:
  assumes "lock_free i s k" "0 < sz"
  shows "\<not> RT_ALIGN sz 4 \<le> mem_size_aligned h \<Longrightarrow> rt_malloc i sz h s k = Some (Done 0, h, s, k)"
    "RT_ALIGN sz 4 \<le> mem_size_aligned h \<Longrightarrow> malloc_section (rounded sz) h = Some (x, h1) \<Longrightarrow> rt_malloc i sz h s k =
      (case x of None \<Rightarrow> Some (Done 0, h1, s, k)
       | Some mem \<Rightarrow> (if mem + SIZEOF_STRUCT_MEM + rounded sz \<le> heap_end h1 \<and> (mem + SIZEOF_STRUCT_MEM) mod 4 = 0 \<and> mem AND 3 = 0
           then Some (Done (mem + SIZEOF_STRUCT_MEM), h1, s, k) else None))"
proof -
  note nz = assms(2) [THEN less_imp_neq, symmetric] and ni = not_in_interrupt_free [OF assms(1)]
  show "rt_malloc i sz h s k = Some (Done 0, h, s, k)" if "\<not> RT_ALIGN sz 4 \<le> mem_size_aligned h"
    using nz ni that by (simp add: rt_malloc_def Let_def not_le)
  assume m: "RT_ALIGN sz 4 \<le> mem_size_aligned h" and r: "malloc_section (rounded sz) h = Some (x, h1)"
  show "rt_malloc i sz h s k =
      (case x of None \<Rightarrow> Some (Done 0, h1, s, k)
       | Some mem \<Rightarrow> (if mem + SIZEOF_STRUCT_MEM + rounded sz \<le> heap_end h1 \<and> (mem + SIZEOF_STRUCT_MEM) mod 4 = 0 \<and> mem AND 3 = 0
           then Some (Done (mem + SIZEOF_STRUCT_MEM), h1, s, k) else None))"
    using nz ni leD [OF m] locked_free [where act = "malloc_section (rounded sz)", OF assms(1) r]
    by (cases x) (simp_all add: rt_malloc_def Let_def rounded_def [symmetric] assert_that_def)
qed

lemma grab_payloads:
  assumes l: "layout h (xs @ (n, False) # ys)" and r: "12 \<le> r" "r + 12 \<le> n"
  defines "bs \<equiv> xs @ (n, False) # ys" and "l' \<equiv> fst (hd (grab n r)) - 12"
  shows "r \<le> l'" "payloads True 0 (xs @ grab n r @ ys) = insert (extent xs + 12, l') (payloads True 0 bs)"
    "(extent xs + 12, l') \<notin> payloads True 0 bs"
    "\<And>c m x. (c, m) \<in> payloads True 0 bs \<Longrightarrow> x \<in> grabbed (extent xs) n r \<Longrightarrow> x + 12 \<le> c \<or> c + m \<le> x"
proof -
  have sz16: "\<forall>b \<in> set bs. 16 \<le> fst b" using layout_sizes [OF l] by (auto simp: bs_def)
  show l': "r \<le> l'" using r(2) by (auto simp: l'_def grab_def)
  show "payloads True 0 (xs @ grab n r @ ys) = insert (extent xs + 12, l') (payloads True 0 bs)"
    using r(2) by (auto simp: bs_def payloads_append l'_def grab_def add.assoc split: if_splits)
  show "(extent xs + 12, l') \<notin> payloads True 0 bs"
  proof
    assume "(extent xs + 12, l') \<in> payloads True 0 bs"
    moreover have "(extent xs + 12, n - 12) \<in> payloads False 0 bs" by (simp add: bs_def payloads_append)
    ultimately show False using payloads_disjoint [OF sz16] l' r(1) by fastforce
  qed
  show "x + 12 \<le> c \<or> c + m \<le> x" if "(c, m) \<in> payloads True 0 bs" "x \<in> grabbed (extent xs) n r" for c m x
  proof -
    have "(c, m) \<in> payloads True 0 xs \<or> (c, m) \<in> payloads True (extent xs + n) ys" using that(1) by (auto simp: bs_def payloads_append)
    then have "c + m \<le> extent xs \<or> extent xs + n + 12 \<le> c" using payloads_range [of _ c m] sz16 by (fastforce simp: bs_def)
    then show ?thesis using that(2) layout_block(2) [OF l] by (auto simp: grabbed_def split: if_splits)
  qed
qed

lemma malloc_spec:
  assumes ok: "heap_ok h" and lock: "lock_free i s k" and sz: "0 < sz" "unat sz + 3 < 2 ^ 32"
  obtains (fail) "rt_malloc i sz h s k = Some (Done 0, h, s, k)"
      "\<forall>(a, l) \<in> available h. request sz \<le> l \<longrightarrow> l = request sz \<and> a + l = unat (heap_end h)"
  | (block) p h' n where "rt_malloc i sz h s k = Some (Done p, h', s, k)" "p \<noteq> 0" "heap_ok h'" "request sz \<le> n" "unat p mod 4 = 0"
      "allocated h' = insert (unat p, n) (allocated h)" "(unat p, n) \<notin> allocated h" "kept (allocated h) h h'"
proof -
  obtain bs where i: "heap_inv h bs" using ok by (rule heap_okE)
  note l = heap_invD(1) [OF i]
  have r: "12 \<le> request sz" "4 dvd request sz" using aligned_size(2) [OF sz] by (auto simp: request_def max_def)
  show ?thesis
  proof (cases "RT_ALIGN sz 4 \<le> mem_size_aligned h")
    case False
    have "\<not> request sz \<le> l'" if "(a, l') \<in> payloads False 0 bs" for a l'
    proof -
      from payloads_split [OF that] obtain xs n ys where b: "bs = xs @ (n, False) # ys" "l' = n - 12" by auto
      have "unat (mem_size_aligned h) < request sz" using False by (simp add: request_def word_le_nat_alt)
      moreover have "n - 12 \<le> unat (mem_size_aligned h)" using layoutD(7) [OF l] b(1) by simp
      ultimately show ?thesis using b(2) by simp
    qed
    then show ?thesis using malloc_step(1) [OF lock sz(1) False] by (intro fail) (auto simp: allocated_inv(2) [OF i])
  next
    case True
    note step = malloc_step(2) [OF lock sz(1) True]
    have lim: "request sz \<le> unat (mem_size_aligned h)" using True layoutD(3) [OF l] by (simp add: request_def word_le_nat_alt)
    have w: "rounded sz = of_nat (request sz)" using unat_rounded [of sz] by (metis of_nat_unat ucast_id)
    from malloc_section_spec [OF i w r lim] show ?thesis
    proof (elim disjE exE conjE)
      assume "malloc_section (rounded sz) h = Some (None, h)"
        "\<forall>xs n ys. bs = xs @ (n, False) # ys \<and> request sz + 12 \<le> n \<longrightarrow> unat (mem_size_aligned h) \<le> extent xs + request sz"
      then show ?thesis using step far_block [OF l] by (intro fail) (auto simp: allocated_inv(2) [OF i])
    next
      fix xs n ys h'
      assume a: "bs = xs @ (n, False) # ys" "request sz + 12 \<le> n" "malloc_section (rounded sz) h = Some (Some (node h (of_nat (extent xs))), h')"
        "heap_inv h' (xs @ grab n (request sz) @ ys)" "same_but (grabbed (extent xs) n (request sz)) h h'"
      have lx: "layout h (xs @ (n, False) # ys)" using l a(1) by simp
      let ?m = "node h (of_nat (extent xs))"
      note na = node_address [OF lx] and g = grab_payloads [OF lx r(1) a(2), folded a(1)]
      have sm: "heap_ptr h' = heap_ptr h" "heap_end h' = heap_end h" using a(5) by (simp_all add: same_but_def)
      have "unat (?m + 12 + rounded sz) = unat (heap_ptr h) + (extent xs + 12) + request sz"
        using na(1) unat_rounded a(2) layoutD(2,7) [OF lx] by (simp add: unat_word_ariths)
      then have "?m + 12 + rounded sz \<le> heap_end h'" using a(2) layoutD(5,7) [OF lx] by (simp add: word_le_nat_alt sm)
      moreover have "4 dvd unat (?m + 12)" using na(1) layoutD(1) [OF lx] layout_block(4) [OF lx] by (simp add: dvd_add)
      then have m4: "unat (?m + 12) mod 4 = 0" by (rule dvd_imp_mod_0)
      moreover from m4 have "(?m + 12) mod 4 = 0" by (simp add: word_unat_eq_iff unat_mod)
      ultimately have res: "rt_malloc i sz h s k = Some (Done (?m + 12), h', s, k)" using step [OF a(3)] aligned_and [OF na(2)] by simp
      show ?thesis
      proof (rule block [OF res])
        show "?m + 12 \<noteq> 0" using na(1) by (metis add_is_0 unsigned_0 zero_neq_numeral)
        show "heap_ok h'" by (rule heap_okI [OF a(4)])
        show "allocated h' = insert (unat (?m + 12), fst (hd (grab n (request sz))) - 12) (allocated h)"
          by (simp add: allocated_inv(1) [OF a(4)] allocated_inv(1) [OF i] g(2) sm na(1))
        show "(unat (?m + 12), fst (hd (grab n (request sz))) - 12) \<notin> allocated h" using g(3) by (auto simp: allocated_inv(1) [OF i] na(1))
        show "kept (allocated h) h h'" unfolding allocated_inv(1) [OF i] by (rule keptI [OF a(5) g(4)])
      qed (use g(1) m4 in auto)
    qed
  qed
qed

lemma allocatedE:
  assumes i: "heap_inv h bs" and a: "(unat p, n) \<in> allocated h"
  obtains xs n0 ys where "bs = xs @ (n0, True) # ys" "p = node h (of_nat (extent xs)) + 12" "n0 = n + 12" "layout h (xs @ (n0, True) # ys)"
    "allocated h - {(unat p, n)} = (\<lambda>(a, l). (unat (heap_ptr h) + a, l)) ` (payloads True 0 xs \<union> payloads True (extent xs + n0) ys)"
    "unat p = unat (heap_ptr h) + (extent xs + 12)"
proof -
  from a obtain x where x: "unat p = unat (heap_ptr h) + x" "(x, n) \<in> payloads True 0 bs" by (auto simp: allocated_inv(1) [OF i])
  from payloads_split [OF x(2)] obtain xs n0 ys where b: "bs = xs @ (n0, True) # ys" "x = extent xs + 12" "n = n0 - 12" by auto
  have l: "layout h (xs @ (n0, True) # ys)" using heap_invD(1) [OF i] b(1) by simp
  have n16: "16 \<le> n0" using layout_block(2) [OF l] by simp
  have sz: "\<forall>b \<in> set xs \<union> set ys. 16 \<le> fst b" using layout_sizes [OF l] by auto
  have "p = node h (of_nat (extent xs)) + 12" using node_address(1) [OF l] x(1) b(2) by (simp add: word_unat_eq_iff)
  moreover have "(x, n) \<notin> payloads True 0 xs \<union> payloads True (extent xs + n0) ys"
    using payloads_range [of xs x n True 0] payloads_range [of ys x n True "extent xs + n0"] sz b(2) n16 by auto
  then have "payloads True 0 bs - {(x, n)} = payloads True 0 xs \<union> payloads True (extent xs + n0) ys"
    using b by (auto simp: payloads_append)
  then have "allocated h - {(unat p, n)} = (\<lambda>(a, l). (unat (heap_ptr h) + a, l)) ` (payloads True 0 xs \<union> payloads True (extent xs + n0) ys)"
  proof -
    have "inj (\<lambda>(a, l). (unat (heap_ptr h) + a, l :: nat))" by (auto simp: inj_def)
    from image_set_diff [OF this, of "payloads True 0 bs" "{(x, n)}"] \<open>_ = payloads True 0 xs \<union> _\<close>
    show ?thesis by (simp add: allocated_inv(1) [OF i] x(1))
  qed
  ultimately show ?thesis using that b x n16 l by simp
qed

lemma pointer_tests:
  assumes "heap_ok h" "(unat p, n) \<in> allocated h"
  shows "p \<noteq> 0" "p AND 3 = 0" "heap_ptr h \<le> p" "p < heap_end h"
proof -
  note r = allocated_range [OF assms]
  show "p \<noteq> 0" using r by (metis add_is_0 le_zero_eq unsigned_0 zero_neq_numeral)
  show "p AND 3 = 0" using r by (intro aligned_and) simp
  show "heap_ptr h \<le> p" "p < heap_end h" using r by (simp_all add: word_le_nat_alt word_less_nat_alt)
qed

lemma free_spec:
  assumes ok: "heap_ok h" and lock: "lock_free i s k" and a: "(unat p, n) \<in> allocated h"
  obtains h' where "rt_free i p h s k = Some (Done (), h', s, k)" "heap_ok h'" "allocated h' = allocated h - {(unat p, n)}"
    "kept (allocated h - {(unat p, n)}) h h'" "heap_ptr h' = heap_ptr h"
proof -
  obtain bs where i: "heap_inv h bs" using ok by (rule heap_okE)
  obtain xs n0 ys where x: "bs = xs @ (n0, True) # ys" "p = node h (of_nat (extent xs)) + 12" "n0 = n + 12" "layout h (xs @ (n0, True) # ys)"
    "allocated h - {(unat p, n)} = (\<lambda>(a, l). (unat (heap_ptr h) + a, l)) ` (payloads True 0 xs \<union> payloads True (extent xs + n0) ys)"
    by (rule allocatedE [OF i a]) blast
  let ?A = "offsets 0 (xs @ (n0, True) # ys) \<union> {extent (xs @ (n0, True) # ys)}"
  obtain h' where h': "free_section (node h (of_nat (extent xs))) h = Some ((), h')" "heap_inv h' (plug xs n0 ys)" "same_but ?A h h'"
    by (rule free_section_spec [OF i [unfolded x(1)] refl])
  have "rt_free i p h s k = Some (Done (), h', s, k)"
    using pointer_tests [OF ok a] not_in_interrupt_free [OF lock] locked_free [where act = "free_section (p - 12)", OF lock] h'(1) x(2)
    by (simp add: rt_free_def not_less not_le)
  moreover have ptr: "heap_ptr h' = heap_ptr h" using h'(3) by (simp add: same_but_def)
  have "allocated h' = allocated h - {(unat p, n)}" by (simp add: allocated_inv(1) [OF h'(2)] payloads_plug x(5) ptr)
  moreover have "kept (allocated h - {(unat p, n)}) h h'"
    unfolding x(5)
  proof (rule keptI [OF h'(3)])
    fix c m y assume "(c, m) \<in> payloads True 0 xs \<union> payloads True (extent xs + n0) ys" "y \<in> ?A"
    moreover have "\<forall>b \<in> set (xs @ (n0, True) # ys). 16 \<le> fst b" using layout_sizes [OF x(4)] by blast
    ultimately show "y + 12 \<le> c \<or> c + m \<le> y" using payloads_offsets [of "xs @ (n0, True) # ys" c m True 0 y] by (auto simp: payloads_append)
  qed
  ultimately show ?thesis using that heap_okI [OF h'(2)] ptr by blast
qed

text \<open>Whatever the owner of a block writes into it, the heap stays sound.\<close>

lemma owner_write:
  assumes ok: "heap_ok h" and a: "(a, l) \<in> allocated h" and w: "\<And>y. y < a \<or> a + l \<le> y \<Longrightarrow> b y = bytes h y"
  shows "heap_ok (h\<lparr>bytes := b\<rparr>)" "allocated (h\<lparr>bytes := b\<rparr>) = allocated h" "kept (allocated h - {(a, l)}) h (h\<lparr>bytes := b\<rparr>)"
proof -
  let ?h = "h\<lparr>bytes := b\<rparr>"
  obtain bs where i: "heap_inv h bs" using ok by (rule heap_okE)
  note L = heap_invD(1) [OF i]
  have sz: "\<forall>b \<in> set bs. 16 \<le> fst b" using layout_sizes [OF L] by blast
  obtain x where x: "a = unat (heap_ptr h) + x" "(x, l) \<in> payloads True 0 bs" using a by (auto simp: allocated_inv(1) [OF i])
  have "hds ?h y = hds h y" if "y \<in> offsets 0 bs" for y
    using payloads_offsets [OF sz x(2), of y] that x(1) by (auto simp: hds_def intro!: header_cong w)
  then have "blocks_at (hds ?h) 0 0 bs (unat (mem_size_aligned h) + 12)" using layoutD(6) [OF L] by (simp cong: blocks_cong)
  then have "layout ?h bs" using L by (simp add: layout_def)
  then have i': "heap_inv ?h bs" using i by (simp add: heap_inv_def node_def)
  then show "heap_ok ?h" by (rule heap_okI)
  show "allocated ?h = allocated h" by (simp add: allocated_inv(1) [OF i'] allocated_inv(1) [OF i])
  show "kept (allocated h - {(a, l)}) h ?h"
    unfolding kept_def
  proof clarsimp
    fix c m j assume c: "(c, m) \<in> allocated h" "c = a \<longrightarrow> m \<noteq> l" "j < m"
    have "a + l \<le> c \<or> c + m \<le> a" using allocated_apart [OF ok a, of c m] c(1,2) by auto
    then show "b (c + j) = bytes h (c + j)" using c(3) by (intro w) auto
  qed
qed

lemma kept_trans: "kept S h h1 \<Longrightarrow> kept T h1 h2 \<Longrightarrow> U \<subseteq> S \<Longrightarrow> U \<subseteq> T \<Longrightarrow> kept U h h2"
  unfolding kept_def by (fastforce dest: subsetD)

lemma request_align:
  assumes "(0 :: u32) < sz" "unat sz + 3 < 2 ^ 32" "unat (RT_ALIGN sz 4) + 3 < 2 ^ 32"
  shows "request (RT_ALIGN sz 4) = request sz"
  using aligned_size [OF assms(1,2)] unat_RT_ALIGN [OF assms(3)] by (simp add: request_def)

lemma malloc_frame:
  assumes r: "rt_malloc i sz h s k = Some (Done p, h', s', k')" and pre: "heap_ok h" "lock_free i s k" "0 < sz" "unat sz + 3 < 2 ^ 32"
  shows "heap_ok h' \<and> s' = s \<and> k' = k \<and> (if p = 0 then h' = h else kept (allocated h) h h' \<and> unat p mod 4 = 0 \<and>
      (\<exists>n. request sz \<le> n \<and> allocated h' = insert (unat p, n) (allocated h) \<and> (unat p, n) \<notin> allocated h))"
  by (rule malloc_spec [OF pre]) (use r pre(1) in auto)

lemma keptD: "kept S h h' \<Longrightarrow> (a, l) \<in> S \<Longrightarrow> j < l \<Longrightarrow> bytes h' (a + j) = bytes h (a + j)"
  by (auto simp: kept_def)

text \<open>Moving a block: a new one, the copy, and the old one freed.\<close>

lemma move_spec:
  assumes ok: "heap_ok h" and lock: "lock_free i s k" and a: "(unat p, n) \<in> allocated h"
    and q: "rt_malloc i w h s k = Some (Done q, h2, s, k)" "q \<noteq> 0" and w: "0 < w" "unat w + 3 < 2 ^ 32"
    and c: "cnt \<le> n" "cnt \<le> request w"
  obtains h' m where "rt_free i p (h2\<lparr>bytes := rt_memcpy (unat q) (unat p) cnt (bytes h2)\<rparr>) s k = Some (Done (), h', s, k)" "heap_ok h'"
    "request w \<le> m" "unat q mod 4 = 0" "allocated h' = insert (unat q, m) (allocated h - {(unat p, n)})"
    "kept (allocated h - {(unat p, n)}) h h'" "\<And>j. j < cnt \<Longrightarrow> bytes h' (unat q + j) = bytes h (unat p + j)"
proof -
  obtain m where m: "heap_ok h2" "kept (allocated h) h h2" "unat q mod 4 = 0" "request w \<le> m"
    "allocated h2 = insert (unat q, m) (allocated h)" "(unat q, m) \<notin> allocated h"
    using malloc_frame [OF q(1) ok lock w] q(2) by auto
  let ?b = "rt_memcpy (unat q) (unat p) cnt (bytes h2)"
  let ?h3 = "h2\<lparr>bytes := ?b\<rparr>"
  have P: "(unat p, n) \<in> allocated h2" "(unat q, m) \<in> allocated h2" using a m(5) by simp_all
  have d: "unat p + n \<le> unat q \<or> unat q + m \<le> unat p"
    using allocated_apart [OF m(1) P(1), of "unat q" m] P(2) m(6) a by auto
  then have b: "?b = mem_move (unat q) (unat p) cnt (bytes h2)" using c m(4) by (intro rt_memcpy_move) auto
  have out: "?b y = bytes h2 y" if "y < unat q \<or> unat q + m \<le> y" for y
    using that c m(4) by (auto simp: b mem_move_def)
  note o = owner_write [OF m(1) P(2) out]
  have P3: "(unat p, n) \<in> allocated ?h3" using o(2) P(1) by simp
  obtain h' where h': "rt_free i p ?h3 s k = Some (Done (), h', s, k)" "heap_ok h'" "allocated h' = allocated ?h3 - {(unat p, n)}"
    "kept (allocated ?h3 - {(unat p, n)}) ?h3 h'"
    by (rule free_spec [OF o(1) lock P3])
  have ne: "(unat q, m) \<noteq> (unat p, n)" using m(6) a by auto
  show ?thesis
  proof (rule that [OF h'(1,2) m(4,3)])
    show "allocated h' = insert (unat q, m) (allocated h - {(unat p, n)})" using h'(3) o(2) m(5) ne by auto
    have k1: "kept (allocated h - {(unat p, n)}) h ?h3"
      by (rule kept_trans [OF m(2) o(3)]) (use m(5,6) in auto)
    show "kept (allocated h - {(unat p, n)}) h h'"
      by (rule kept_trans [OF k1 h'(4)]) (use o(2) m(5) in auto)
    show "bytes h' (unat q + j) = bytes h (unat p + j)" if "j < cnt" for j
    proof -
      have "bytes h' (unat q + j) = ?b (unat q + j)" using keptD [OF h'(4), of "unat q" m j] that c m(4,5) ne o(2) by simp
      also have "\<dots> = bytes h2 (unat p + j)" using that by (simp add: b mem_move_def)
      also have "\<dots> = bytes h (unat p + j)" using keptD [OF m(2) a] that c by simp
      finally show ?thesis .
    qed
  qed
qed

lemma shrink_spec:
  assumes ok: "heap_ok h" and a: "(unat p, n) \<in> allocated h"
    and w: "w \<le> mem_size_aligned h" "4 \<le> unat w" "4 dvd unat w"
  obtains (same) "unat w = n" "realloc_section p w h = Some (Inl p, h)"
  | (cut) h' where "unat w < n" "realloc_section p w h = Some (Inl p, h')" "heap_ok h'"
      "allocated h' = insert (unat p, unat w) (allocated h - {(unat p, n)})" "kept (insert (unat p, unat w) (allocated h - {(unat p, n)})) h h'"
  | (move) "realloc_section p w h = Some (Inr (of_nat n), h)" "unat (of_nat n :: u32) = n"
proof -
  let ?w = "unat w"
  obtain bs where i: "heap_inv h bs" using ok by (rule heap_okE)
  obtain xs n0 ys where x: "bs = xs @ (n0, True) # ys" "p = node h (of_nat (extent xs)) + 12" "n0 = n + 12" "layout h (xs @ (n0, True) # ys)"
    "allocated h - {(unat p, n)} = (\<lambda>(a, l). (unat (heap_ptr h) + a, l)) ` (payloads True 0 xs \<union> payloads True (extent xs + n0) ys)"
    "unat p = unat (heap_ptr h) + (extent xs + 12)"
    by (rule allocatedE [OF i a]) blast
  have i': "heap_inv h (xs @ (n0, True) # ys)" using i x(1) by simp
  have n: "n0 - 12 = n" using x(3) by simp
  have wm: "?w \<le> unat (mem_size_aligned h)" using w(1) by (simp add: word_le_nat_alt)
  have "w = of_nat ?w" by simp
  note r = realloc_section_spec [OF i' refl this w(2,3) wm, folded x(2), unfolded n]
  consider "?w = n" | "?w \<noteq> n" "\<not> ?w + 24 < n" | "?w + 24 < n" by blast
  then show ?thesis
  proof cases
    case 1
    then show ?thesis using same r(1) by blast
  next
    case 2
    have "unat (of_nat n :: u32) = n" using unat_off [OF _ x(4), of n] x(3) by simp
    then show ?thesis using move r(2) [OF 2] by blast
  next
    case 3
    let ?A = "offsets 0 (xs @ (n0, True) # ys) \<union> {extent xs + (?w + 12), extent (xs @ (n0, True) # ys)}"
    obtain h' where h': "realloc_section p w h = Some (Inl p, h')" "heap_inv h' (plug (xs @ [(?w + 12, True)]) (n - ?w) ys)" "same_but ?A h h'"
      using r(3) [OF 3] by blast
    have ptr: "heap_ptr h' = heap_ptr h" using h'(3) by (simp add: same_but_def)
    have sz: "\<forall>b \<in> set (xs @ (n0, True) # ys). 16 \<le> fst b" using layout_sizes [OF x(4)] by blast
    have e: "extent (xs @ [(?w + 12, True)]) + (n - ?w) = extent xs + n0" using 3 x(3) by simp
    have pl: "payloads True 0 (plug (xs @ [(?w + 12, True)]) (n - ?w) ys) =
        insert (extent xs + 12, ?w) (payloads True 0 xs \<union> payloads True (extent xs + n0) ys)"
      unfolding payloads_plug e by (auto simp: payloads_append)
    have al: "insert (unat p, ?w) (allocated h - {(unat p, n)}) = (\<lambda>(a, l). (unat (heap_ptr h) + a, l)) `
        insert (extent xs + 12, ?w) (payloads True 0 xs \<union> payloads True (extent xs + n0) ys)"
      unfolding x(5) by (simp add: x(6))
    have "allocated h' = insert (unat p, ?w) (allocated h - {(unat p, n)})"
      unfolding al using allocated_inv(1) [OF h'(2)] by (simp add: pl ptr)
    moreover have "kept (insert (unat p, ?w) (allocated h - {(unat p, n)})) h h'"
      unfolding al
    proof (rule keptI [OF h'(3)])
      fix c m y
      assume c: "(c, m) \<in> insert (extent xs + 12, ?w) (payloads True 0 xs \<union> payloads True (extent xs + n0) ys)" and y: "y \<in> ?A"
      show "y + 12 \<le> c \<or> c + m \<le> y"
      proof (cases "y = extent xs + (?w + 12)")
        case False
        have "(extent xs + 12, n) \<in> payloads True 0 (xs @ (n0, True) # ys)" by (simp add: payloads_append x(3))
        then show ?thesis
          using c y False 3 payloads_offsets [OF sz, of c m True 0 y] payloads_offsets [OF sz, of "extent xs + 12" n True 0 y]
          by (auto simp: payloads_append)
      next
        case True
        then show ?thesis
          using c 3 x(3) payloads_range [of xs c m True 0] payloads_range [of ys c m True "extent xs + n0"] sz by auto
      qed
    qed
    ultimately show ?thesis using cut 3 h'(1) heap_okI [OF h'(2)] by simp
  qed
qed

section \<open>The properties\<close>

lemma drained:
  assumes "heap_inv h bs" "payloads True 0 bs = {}"
  shows "bs = [(unat (mem_size_aligned h) + 12, False)]"
proof -
  note l = heap_invD(1) [OF assms(1)]
  have "\<not> snd b" if "b \<in> set bs" for b
  proof
    assume "snd b"
    moreover from that obtain xs ys where "bs = xs @ b # ys" by (metis split_list)
    ultimately show False using assms(2) by (cases b) (simp add: payloads_append)
  qed
  moreover have "bs \<noteq> []" using layoutD(3,7) [OF l] by auto
  then obtain b cs where "bs = b # cs" by (cases bs) auto
  ultimately have "bs = [b]" "\<not> snd b" using heap_invD(2) [OF assms(1)] by (cases cs; auto)+
  then show ?thesis using layoutD(7) [OF l] by (cases b) simp
qed

lemma heap_init_spec:
  assumes b: "unat b + 3 < 2 ^ 32" and e: "unat (RT_ALIGN b 4) + 36 \<le> unat (RT_ALIGN_DOWN e 4)"
    and z: "used_mem h = 0" and k: "interrupt_nest k = 0" "tlists k (Waiting i) = []"
  obtains h' s where "rt_system_heap_init i b e h k = Some (Inr (h', s, k))" "heap_inv h' [(unat (RT_ALIGN_DOWN e 4) - unat (RT_ALIGN b 4) - 12, False)]"
    "lock_free i s k" "heap_ptr h' = RT_ALIGN b 4" "mem_size_aligned h' = RT_ALIGN_DOWN e 4 - RT_ALIGN b 4 - 24"
proof -
  define B where "B = RT_ALIGN b 4"
  define E where "E = RT_ALIGN_DOWN e 4"
  define sz where "sz = E - B - 24"
  have al: "4 dvd unat B" "4 dvd unat E" using unat_RT_ALIGN [OF b] by (simp_all add: B_def E_def unat_RT_ALIGN_DOWN)
  have le: "unat B + 36 \<le> unat E" using e by (simp add: B_def E_def)
  have usz: "unat sz = unat E - unat B - 24" using le by (simp add: sz_def unat_diff_u32)
  have bound: "unat E < 2 ^ 32" using unsigned_less [of E, where ?'a = nat] by simp
  have sz24: "unat B + unat sz + 24 = unat E" "12 \<le> unat sz" using usz le by simp_all
  have dsz: "4 dvd unat sz" using al le unfolding usz by (simp add: dvd_diff_nat)
  define h1 where "h1 = h\<lparr>mem_size_aligned := sz, heap_ptr := B\<rparr>"
  define h2 where "h2 = set_used B 0 (set_prev B 0 (set_next B (sz + 12) (set_magic B HEAP_MAGIC h1)))"
  have u2: "unat (sz + 12) = unat sz + 12" using sz24 bound by (simp add: unat_word_ariths)
  have f2: "heap_ptr h2 = B" "mem_size_aligned h2 = sz" by (simp_all add: h2_def h1_def hdr_simps)
  have H2: "hds h2 0 = head_of 0 0 (unat sz + 12, False)"
  proof -
    have "hds h2 0 = \<lparr>h_magic = HEAP_MAGIC, h_used = 0, h_next = sz + 12, h_prev = 0\<rparr>"
      by (simp add: h2_def h1_def hdr_simps)
    moreover have "of_nat (unat sz + 12) = sz + 12" by simp
    ultimately show ?thesis by (simp add: head_of_def)
  qed
  have n2: "h_next (hdr h2 B) = sz + 12" using H2 f2(1) by (simp add: hdr_def hds_def head_of_def)
  define p where "p = node h2 (sz + 12)"
  have up: "unat p = unat B + (unat sz + 12)" using u2 sz24 bound by (simp add: p_def node_def f2 unat_word_ariths)
  define h4 where "h4 = set_prev p (sz + 12) (set_next p (sz + 12) (set_used p 1 (set_magic p HEAP_MAGIC (h2\<lparr>heap_end := p\<rparr>))))"
  define h5 where "h5 = h4\<lparr>lfree := B\<rparr>"
  have f5: "heap_ptr h5 = B" "mem_size_aligned h5 = sz" "heap_end h5 = p" "lfree h5 = B" "used_mem h5 = 0"
    using z by (simp_all add: h5_def h4_def h2_def h1_def hdr_simps)
  have "hds (h2\<lparr>heap_end := p\<rparr>) = hds h2" by (simp add: hds_def fun_eq_iff)
  then have "hds h5 0 = hds h2 0" using up sz24(2) by (simp add: h5_def h4_def hdr_simps f2 apart_def)
  then have "layout h5 [(unat sz + 12, False)]"
    using H2 al(1) dsz sz24 bound up by (simp add: layout_def f5)
  then have inv: "heap_inv h5 [(unat sz + 12, False)]" by (simp add: heap_inv_def f5 node_def)
  have "RT_ALIGN_DOWN e 4 > 24" "RT_ALIGN_DOWN e 4 - 24 \<ge> RT_ALIGN b 4"
    using le unfolding B_def E_def by (simp_all add: word_less_nat_alt word_le_nat_alt unat_diff_u32)
  moreover have "ipc_object_init (Waiting i) k = k" using k(2) by (simp add: ipc_object_init_def fun_upd_idem)
  ultimately have r: "rt_system_heap_init i b e h k =
      Some (Inr (h5, \<lparr>ipc_type = CLASS_SEMAPHORE OR CLASS_STATIC, ipc_flag = RT_IPC_FLAG_PRIO, sem_value = 1\<rparr>, k))"
    using k(1) n2 unfolding rt_system_heap_init_def Let_def
    by (simp add: not_in_interrupt_def rt_interrupt_get_nest_def rt_sem_init_def B_def [symmetric] E_def [symmetric] sz_def [symmetric]
      h1_def [symmetric] h2_def [symmetric] p_def [symmetric] h4_def [symmetric] h5_def [symmetric])
  have "lock_free i \<lparr>ipc_type = CLASS_SEMAPHORE OR CLASS_STATIC, ipc_flag = RT_IPC_FLAG_PRIO, sem_value = 1\<rparr> k"
    using k by (simp add: lock_free_def sem_ok_def obj_is_def)
  moreover have "unat sz + 12 = unat (RT_ALIGN_DOWN e 4) - unat (RT_ALIGN b 4) - 12"
    using usz sz24(2) by (simp add: B_def E_def)
  ultimately show ?thesis using that [OF r] inv f5(1,2) by (simp add: B_def E_def sz_def)
qed

definition zero_heap :: heap where
  "zero_heap = \<lparr>heap_ptr = 0, heap_end = 0, lfree = 0, mem_size_aligned = 0, used_mem = 0, max_mem = 0, bytes = (\<lambda>_. 0)\<rparr>"

text \<open>A heap of 256 bytes, just set up.\<close>

definition demo_heap :: "heap \<times> semaphore" where
  "demo_heap = (case rt_system_heap_init 9 0x20000001 0x20000106 zero_heap four_threads of Some (Inr (h, s, k)) \<Rightarrow> (h, s) | _ \<Rightarrow> (zero_heap, demo_sem 0))"

lemma demo_heap:
  "rt_system_heap_init 9 0x20000001 0x20000106 zero_heap four_threads = Some (Inr (fst demo_heap, snd demo_heap, four_threads))"
  "heap_inv (fst demo_heap) [(244, False)]" "lock_free 9 (snd demo_heap) four_threads" "heap_ptr (fst demo_heap) = 0x20000004"
  "mem_size_aligned (fst demo_heap) = 232"
proof -
  have a: "RT_ALIGN 0x20000001 4 = 0x20000004" "RT_ALIGN_DOWN 0x20000106 4 = 0x20000104" by (simp_all add: RT_ALIGN_def RT_ALIGN_DOWN_def)
  have k: "interrupt_nest four_threads = 0" "tlists four_threads (Waiting 9) = []" by (simp_all add: demo_facts)
  show "rt_system_heap_init 9 0x20000001 0x20000106 zero_heap four_threads = Some (Inr (fst demo_heap, snd demo_heap, four_threads))"
    "heap_inv (fst demo_heap) [(244, False)]" "lock_free 9 (snd demo_heap) four_threads" "heap_ptr (fst demo_heap) = 0x20000004"
    "mem_size_aligned (fst demo_heap) = 232"
    by (rule heap_init_spec [of "0x20000001" "0x20000106" zero_heap four_threads 9]; (simp add: a k zero_heap_def demo_heap_def)?)+
qed



text \<open>C6: \<open>rt_malloc\<close> hands out memory that nobody else has. In a sound heap whose semaphore is free, a request for
  \<open>0 < sz < 2^32 - 3\<close> bytes returns; it keeps the heap sound and either returns \<open>RT_NULL\<close> and changes
  nothing, which happens only when no free block is large enough but perhaps one that ends the heap and fits
  exactly; or it returns a 4-aligned block of at least the size asked for (at least 12 bytes, rounded up) that overlaps
  no block handed out before and lies inside the heap, and all those blocks stay and keep their contents.\<close>

theorem malloc_gives_fresh_block:
  assumes "heap_ok h" "lock_free i s k" "0 < sz" "unat sz + 3 < 2 ^ 32"
  shows "\<exists>p h'. rt_malloc i sz h s k = Some (Done p, h', s, k) \<and> heap_ok h' \<and>
    (if p = 0 then h' = h \<and> (\<forall>(a, l) \<in> available h. request sz \<le> l \<longrightarrow> l = request sz \<and> a + l = unat (heap_end h))
     else \<exists>n. request sz \<le> n \<and> unat p mod 4 = 0 \<and> allocated h' = insert (unat p, n) (allocated h) \<and>
       unat (heap_ptr h') + 12 \<le> unat p \<and> unat p + n \<le> unat (heap_end h') \<and>
       (\<forall>(a, l) \<in> allocated h. a + l \<le> unat p \<or> unat p + n \<le> a) \<and> kept (allocated h) h h')"
proof (rule malloc_spec [OF assms])
  assume "rt_malloc i sz h s k = Some (Done 0, h, s, k)"
    "\<forall>(a, l) \<in> available h. request sz \<le> l \<longrightarrow> l = request sz \<and> a + l = unat (heap_end h)"
  with assms(1) show ?thesis by (intro exI [of _ 0] exI [of _ h]) simp
next
  fix p h' n
  assume r: "rt_malloc i sz h s k = Some (Done p, h', s, k)" "p \<noteq> 0" "heap_ok h'" "request sz \<le> n" "unat p mod 4 = 0"
    "allocated h' = insert (unat p, n) (allocated h)" "(unat p, n) \<notin> allocated h" "kept (allocated h) h h'"
  have P: "(unat p, n) \<in> allocated h'" using r(6) by simp
  have "a + l \<le> unat p \<or> unat p + n \<le> a" if "(a, l) \<in> allocated h" for a l
    using allocated_apart [OF r(3), of a l "unat p" n] that r(6,7) by auto
  then show ?thesis using r allocated_range [OF r(3) P] by (intro exI [of _ p] exI [of _ h']) auto
qed

theorem malloc_gives_fresh_block_witness:
  "\<exists>p h' n. rt_malloc 9 20 (fst demo_heap) (snd demo_heap) four_threads = Some (Done p, h', snd demo_heap, four_threads) \<and> p \<noteq> 0 \<and>
    20 \<le> n \<and> allocated h' = {(unat p, n)}"
proof -
  note i = demo_heap(2)
  have al: "allocated (fst demo_heap) = {}" "available (fst demo_heap) = {(0x20000010, 232)}"
    using allocated_inv [OF i] demo_heap(4) by simp_all
  have r: "request 20 = 20" by (simp add: request_def RT_ALIGN_def)
  have s: "(0 :: u32) < 20" "unat (20 :: u32) + 3 < 2 ^ 32" by simp_all
  from malloc_gives_fresh_block [OF heap_okI [OF i] demo_heap(3) s] obtain p h' where
    m: "rt_malloc 9 20 (fst demo_heap) (snd demo_heap) four_threads = Some (Done p, h', snd demo_heap, four_threads)"
    "if p = 0 then h' = fst demo_heap \<and> (\<forall>(a, l) \<in> available (fst demo_heap). request 20 \<le> l \<longrightarrow> l = request 20 \<and> a + l = unat (heap_end (fst demo_heap)))
     else \<exists>n. request 20 \<le> n \<and> unat p mod 4 = 0 \<and> allocated h' = insert (unat p, n) (allocated (fst demo_heap)) \<and>
       unat (heap_ptr h') + 12 \<le> unat p \<and> unat p + n \<le> unat (heap_end h') \<and>
       (\<forall>(a, l) \<in> allocated (fst demo_heap). a + l \<le> unat p \<or> unat p + n \<le> a) \<and> kept (allocated (fst demo_heap)) (fst demo_heap) h'" by blast
  have "p \<noteq> 0" using m(2) by (auto simp: al r)
  then show ?thesis using m by (auto simp: al r)
qed

text \<open>A heap with one block handed out.\<close>

definition demo_block :: "u32 \<times> heap" where
  "demo_block = (case rt_malloc 9 20 (fst demo_heap) (snd demo_heap) four_threads of Some (Done p, h, _, _) \<Rightarrow> (p, h) | _ \<Rightarrow> (0, zero_heap))"

lemma demo_block: "heap_ok (snd demo_block)" "\<exists>n. 20 \<le> n \<and> allocated (snd demo_block) = {(unat (fst demo_block), n)}"
proof -
  note i = demo_heap(2)
  have al: "allocated (fst demo_heap) = {}" "available (fst demo_heap) = {(0x20000010, 232)}"
    using allocated_inv [OF i] demo_heap(4) by simp_all
  have r: "request 20 = 20" by (simp add: request_def RT_ALIGN_def)
  have s: "(0 :: u32) < 20" "unat (20 :: u32) + 3 < 2 ^ 32" by simp_all
  show "heap_ok (snd demo_block)" "\<exists>n. 20 \<le> n \<and> allocated (snd demo_block) = {(unat (fst demo_block), n)}"
    by (rule malloc_spec [OF heap_okI [OF i] demo_heap(3) s]; auto simp: demo_block_def al r)+
qed

text \<open>C9: \<open>rt_free\<close> takes back exactly the given block. For a block that is handed out, in a sound heap whose semaphore is free, no
  assertion fails and the heap stays sound; the block is not handed out any more, all the others are, and
  keep their contents.\<close>

theorem free_takes_back_block:
  assumes "heap_ok h" "lock_free i s k" "(unat p, n) \<in> allocated h"
  shows "\<exists>h'. rt_free i p h s k = Some (Done (), h', s, k) \<and> heap_ok h' \<and> allocated h' = allocated h - {(unat p, n)} \<and>
    kept (allocated h - {(unat p, n)}) h h'"
  by (rule free_spec [OF assms]) blast

theorem free_takes_back_block_witness:
  "\<exists>h'. rt_free 9 (fst demo_block) (snd demo_block) (snd demo_heap) four_threads = Some (Done (), h', snd demo_heap, four_threads) \<and>
    heap_ok h' \<and> allocated h' = {}"
proof -
  obtain n where n: "allocated (snd demo_block) = {(unat (fst demo_block), n)}" using demo_block(2) by blast
  have "(unat (fst demo_block), n) \<in> allocated (snd demo_block)" by (simp add: n)
  from free_takes_back_block [OF demo_block(1) demo_heap(3) this] show ?thesis by (auto simp: n)
qed

text \<open>C30: \<open>rt_realloc\<close> keeps the contents. For a block that is handed out and a new size \<open>0 < sz < 2^32 - 3\<close>, in a sound heap whose
  semaphore is free, the call returns and keeps the heap sound; either it returns \<open>RT_NULL\<close> and changes nothing, or the
  block is replaced by one of at least the new size rounded up, which begins with the contents of the old one as far as both sizes go;
  all other blocks stay and keep their contents.\<close>

theorem realloc_keeps_contents:
  assumes ok: "heap_ok h" and lock: "lock_free i s k" and a: "(unat p, n) \<in> allocated h" and sz: "0 < sz" "unat sz + 3 < 2 ^ 32"
  shows "\<exists>q h'. rt_realloc i p sz h s k = Some (Done q, h', s, k) \<and> heap_ok h' \<and>
    (if q = 0 then h' = h
     else \<exists>m. unat (RT_ALIGN sz 4) \<le> m \<and> unat q mod 4 = 0 \<and> allocated h' = insert (unat q, m) (allocated h - {(unat p, n)}) \<and>
       (\<forall>j < min n (unat (RT_ALIGN sz 4)). bytes h' (unat q + j) = bytes h (unat p + j)) \<and> kept (allocated h - {(unat p, n)}) h h')"
proof -
  let ?w = "RT_ALIGN sz 4"
  note al = aligned_size [OF sz] and pt = pointer_tests [OF ok a] and ni = not_in_interrupt_free [OF lock]
  have w0: "?w \<noteq> 0" "0 < ?w" using al(3) by (auto simp: word_less_nat_alt)
  have p4: "unat p mod 4 = 0" using allocated_range [OF ok a] by simp
  show ?thesis
  proof (cases "?w \<le> mem_size_aligned h")
    case False
    then show ?thesis using ok ni by (intro exI [of _ 0] exI [of _ h]) (simp add: rt_realloc_def Let_def not_le)
  next
    case True
    note lk = locked_free [where act = "realloc_section p ?w", OF lock]
    note start = rt_realloc_def Let_def ni leD [OF True] w0(1) pt(1)
    have ret: "rt_realloc i p sz h s k = Some (Done p, h', s, k)" if "realloc_section p ?w h = Some (Inl p, h')" for h'
      using lk [OF that] by (simp add: start)
    show ?thesis
    proof (rule shrink_spec [OF ok a True al(3,2)])
      assume "unat ?w = n" "realloc_section p ?w h = Some (Inl p, h)"
      then show ?thesis using ret ok pt(1) p4 a by (intro exI [of _ p] exI [of _ h]) (auto simp: kept_def insert_absorb)
    next
      fix h'
      assume c: "unat ?w < n" "realloc_section p ?w h = Some (Inl p, h')" "heap_ok h'"
        "allocated h' = insert (unat p, unat ?w) (allocated h - {(unat p, n)})" "kept (insert (unat p, unat ?w) (allocated h - {(unat p, n)})) h h'"
      then show ?thesis using ret [OF c(2)] pt(1) p4
        by (intro exI [of _ p] exI [of _ h']) (auto simp: kept_def intro!: exI [of _ "unat ?w"])
    next
      assume m: "realloc_section p ?w h = Some (Inr (of_nat n), h)" "unat (of_nat n :: u32) = n"
      obtain bs where "heap_inv h bs" using ok by (rule heap_okE)
      then have wb: "unat ?w + 3 < 2 ^ 32" using True layoutD(2) [of h bs] by (simp add: heap_inv_def word_le_nat_alt)
      have rq: "request ?w = request sz" "unat ?w \<le> request ?w" using request_align [OF sz wb] by (simp_all add: request_def)
      let ?cnt = "unat (if of_nat n < ?w then of_nat n else ?w)"
      have cnt: "?cnt = min n (unat ?w)" using m(2) by (simp add: word_less_nat_alt)
      obtain q h2 where q: "rt_malloc i ?w h s k = Some (Done q, h2, s, k)" "q = 0 \<longrightarrow> h2 = h"
        by (rule malloc_spec [OF ok lock w0(2) wb]) blast+
      show ?thesis
      proof (cases "q = 0")
        case True
        then show ?thesis using lk [OF m(1)] q ok by (intro exI [of _ 0] exI [of _ h]) (simp add: start)
      next
        case False
        obtain h' m' where f: "rt_free i p (h2\<lparr>bytes := rt_memcpy (unat q) (unat p) ?cnt (bytes h2)\<rparr>) s k = Some (Done (), h', s, k)" "heap_ok h'"
          "request ?w \<le> m'" "unat q mod 4 = 0" "allocated h' = insert (unat q, m') (allocated h - {(unat p, n)})"
          "kept (allocated h - {(unat p, n)}) h h'" "\<And>j. j < ?cnt \<Longrightarrow> bytes h' (unat q + j) = bytes h (unat p + j)"
          by (rule move_spec [OF ok lock a q(1) False w0(2) wb, of ?cnt]) (use cnt rq in auto)
        have "rt_realloc i p sz h s k = Some (Done q, h', s, k)" using lk [OF m(1)] q(1) False f(1) by (simp add: start)
        then show ?thesis using f False rq cnt by (intro exI [of _ q] exI [of _ h']) (auto intro!: exI [of _ m'])
      qed
    qed
  qed
qed

theorem realloc_keeps_contents_witness:
  "\<exists>q h'. rt_realloc 9 (fst demo_block) 40 (snd demo_block) (snd demo_heap) four_threads = Some (Done q, h', snd demo_heap, four_threads) \<and> heap_ok h'"
proof -
  obtain n where n: "allocated (snd demo_block) = {(unat (fst demo_block), n)}" using demo_block(2) by blast
  have a: "(unat (fst demo_block), n) \<in> allocated (snd demo_block)" by (simp add: n)
  have s: "(0 :: u32) < 40" "unat (40 :: u32) + 3 < 2 ^ 32" by simp_all
  from realloc_keeps_contents [OF demo_block(1) demo_heap(3) a s] show ?thesis by blast
qed

text \<open>A zeroed block, when the product does not wrap.\<close>

lemma calloc_spec:
  assumes "heap_ok h" "lock_free i s k" "0 < cnt * sz" "unat cnt * unat sz + 3 < 2 ^ 32"
  shows "\<exists>p h'. rt_calloc i cnt sz h s k = Some (Done p, h', s, k) \<and> (p \<noteq> 0 \<longrightarrow> heap_ok h' \<and>
    (\<exists>n. unat cnt * unat sz \<le> n \<and> (unat p, n) \<in> allocated h' \<and> (\<forall>j < unat cnt * unat sz. bytes h' (unat p + j) = 0)))"
proof -
  have u: "unat (cnt * sz) = unat cnt * unat sz" using assms(4) by (simp add: unat_word_ariths)
  then have b: "unat (cnt * sz) + 3 < 2 ^ 32" using assms(4) by simp
  show ?thesis
  proof (rule malloc_spec [OF assms(1,2,3) b])
    assume "rt_malloc i (cnt * sz) h s k = Some (Done 0, h, s, k)"
    then show ?thesis by (simp add: rt_calloc_def)
  next
    fix p h' n
    assume r: "rt_malloc i (cnt * sz) h s k = Some (Done p, h', s, k)" "p \<noteq> 0" "heap_ok h'" "request (cnt * sz) \<le> n"
      "allocated h' = insert (unat p, n) (allocated h)"
    let ?b = "rt_memset (unat p) 0 (unat (cnt * sz)) (bytes h')"
    have n: "unat cnt * unat sz \<le> n" using r(4) aligned_size(4) [OF assms(3) b] u by (simp add: request_def)
    have P: "(unat p, n) \<in> allocated h'" using r(5) by simp
    have w: "?b y = bytes h' y" if "y < unat p \<or> unat p + n \<le> y" for y using that n u by (auto simp: rt_memset_fill mem_fill_def)
    note o = owner_write [OF r(3) P w]
    have "rt_calloc i cnt sz h s k = Some (Done p, h'\<lparr>bytes := ?b\<rparr>, s, k)" using r(1,2) by (simp add: rt_calloc_def)
    then show ?thesis using o P n u by (auto simp: rt_memset_fill mem_fill_def intro!: exI [of _ n])
  qed
qed

text \<open>A request for the last three sizes wraps around in the alignment and gets the smallest block.\<close>

lemma malloc_huge_gets_smallest: "heap_ok h \<Longrightarrow> rt_malloc i 0xFFFFFFFD h s k = rt_malloc i 1 h s k"
proof -
  assume "heap_ok h"
  then obtain bs where "heap_inv h bs" by (rule heap_okE)
  from layoutD(3) [OF heap_invD(1) [OF this]] have "\<not> mem_size_aligned h < 4" by (simp add: word_less_nat_alt)
  moreover have "RT_ALIGN 0xFFFFFFFD 4 = 0" "RT_ALIGN 1 4 = 4" by (simp_all add: RT_ALIGN_def)
  ultimately show ?thesis by (simp add: rt_malloc_def Let_def)
qed

end
