(* ===== verification/Mempool.thy ===== *)
theory Mempool
  imports Heap
begin

text \<open>
  The memory pools of \<^verbatim>\<open>rt-thread/src/mempool.c\<close>: blocks of one size, each behind a word of 4 bytes. The word of a
  free block is the address of the next free block, the word of a block that is handed out is the address of the pool's control
  block, \<open>mpa\<close>. The words are in the byte memory itself, next to the bytes of the owners. The pool number \<open>i\<close> has the
  suspend list \<open>Waiting i\<close>.
\<close>

section \<open>The pool\<close>

abbreviation CLASS_MEMPOOL :: u8 where "CLASS_MEMPOOL \<equiv> 8"

record mempool =
  mp_type :: u8
  start_address :: u32
  mp_size :: u32
  block_size :: u32
  block_list :: u32
  block_total_count :: u32
  block_free_count :: u32

text \<open>The loop that links the blocks, and the word of the last one.\<close>

definition mp_link_blocks :: "u32 \<Rightarrow> u32 \<Rightarrow> u32 \<Rightarrow> mem \<Rightarrow> mem" where
  "mp_link_blocks start bsize bcnt m =
    store32 (unat (start + (bcnt - 1) * (bsize + 4))) 0
      (fold (\<lambda>offset. store32 (unat (start + of_nat offset * (bsize + 4))) (start + (of_nat offset + 1) * (bsize + 4))) [0..<unat bcnt] m)"

definition rt_mp_init :: "nat \<Rightarrow> u32 \<Rightarrow> u32 \<Rightarrow> u32 \<Rightarrow> mem \<Rightarrow> kernel \<Rightarrow> (mempool \<times> mem \<times> kernel) option" where
  "rt_mp_init i start sz bsize m k = do {
     _ \<leftarrow> assert_that (start \<noteq> 0);
     _ \<leftarrow> assert_that (sz > 0 \<and> bsize > 0);
     let size' = RT_ALIGN_DOWN sz RT_ALIGN_SIZE;
     let bsize' = RT_ALIGN bsize RT_ALIGN_SIZE;
     let bcnt = size' div (bsize' + 4);
     let m1 = mp_link_blocks start bsize' bcnt m;
     let mp = \<lparr>mp_type = CLASS_MEMPOOL OR CLASS_STATIC, start_address = start, mp_size = size', block_size = bsize', block_list = start,
               block_total_count = bcnt, block_free_count = bcnt\<rparr>;
     let k1 = ipc_object_init (Waiting i) k;
     Some (mp, m1, k1)
   }"

text \<open>\<open>object\<close> and \<open>start\<close> are the answers of the allocator.\<close>

definition rt_mp_create :: "nat option \<Rightarrow> u32 option \<Rightarrow> u32 \<Rightarrow> u32 \<Rightarrow> mem \<Rightarrow> kernel \<Rightarrow> ((nat \<times> mempool) option \<times> mem \<times> kernel) option" where
  "rt_mp_create object start bcount bsize m k = do {
     _ \<leftarrow> not_in_interrupt k;
     _ \<leftarrow> assert_that (bcount > 0 \<and> bsize > 0);
     Some (case object of
       None \<Rightarrow> (None, m, k)
     | Some i \<Rightarrow>
         let bsize' = RT_ALIGN bsize RT_ALIGN_SIZE
         in case start of
              None \<Rightarrow> (None, m, k)
            | Some s \<Rightarrow>
                (Some (i, \<lparr>mp_type = CLASS_MEMPOOL, start_address = s, mp_size = (bsize' + 4) * bcount, block_size = bsize', block_list = s,
                   block_total_count = bcount, block_free_count = bcount\<rparr>),
                 mp_link_blocks s bsize' bcount m, ipc_object_init (Waiting i) k))
   }"

definition rt_mp_detach :: "nat \<Rightarrow> mempool \<Rightarrow> kernel \<Rightarrow> (int \<times> mempool \<times> kernel) option" where
  "rt_mp_detach i mp k = do {
     _ \<leftarrow> assert_that (obj_is CLASS_MEMPOOL (mp_type mp));
     _ \<leftarrow> assert_that (is_system (mp_type mp));
     k1 \<leftarrow> ipc_list_resume_all (Waiting i) k;
     Some (RT_EOK, mp\<lparr>mp_type := 0\<rparr>, k1)
   }"

text \<open>The last component is the address that goes to \<open>rt_free\<close>.\<close>

definition rt_mp_delete :: "nat \<Rightarrow> mempool \<Rightarrow> kernel \<Rightarrow> (int \<times> mempool \<times> kernel \<times> u32) option" where
  "rt_mp_delete i mp k = do {
     _ \<leftarrow> not_in_interrupt k;
     _ \<leftarrow> assert_that (obj_is CLASS_MEMPOOL (mp_type mp));
     _ \<leftarrow> assert_that (\<not> is_system (mp_type mp));
     k1 \<leftarrow> ipc_list_resume_all (Waiting i) k;
     Some (RT_EOK, mp\<lparr>mp_type := 0\<rparr>, k1, start_address mp)
   }"

text \<open>The calling thread goes to the front of the suspend list, with its timer when the time is limited.\<close>

definition mp_block_caller :: "nat \<Rightarrow> nat \<Rightarrow> int \<Rightarrow> kernel \<Rightarrow> kernel option" where
  "mp_block_caller i t time k = do {
     (_, k1) \<leftarrow> rt_thread_suspend t k;
     let k2 = k1\<lparr>tlists := (tlists k1)(Waiting i := t # tlists k1 (Waiting i))\<rparr>;
     k3 \<leftarrow> (if time > 0
           then do {
             (_, k') \<leftarrow> rt_timer_control (ThreadTimer t) (SetTime (word_of_int time)) k2;
             rt_timer_start (ThreadTimer t) k'
           }
           else Some k2);
     rt_schedule k3
   }"

text \<open>\<open>rt_set_errno\<close>; outside of threads there is one more error number, which nothing here reads.\<close>

definition rt_set_errno :: "int \<Rightarrow> kernel \<Rightarrow> kernel" where
  "rt_set_errno e k = (if rt_interrupt_get_nest k \<noteq> 0 then k else case rt_thread_self k of None \<Rightarrow> k | Some t \<Rightarrow> set_error t e k)"

definition mp_take_block :: "u32 \<Rightarrow> mempool \<Rightarrow> mem \<Rightarrow> (u32 \<times> mempool \<times> mem) option" where
  "mp_take_block mpa mp m = do {
     let mp1 = mp\<lparr>block_free_count := block_free_count mp - 1\<rparr>;
     let block_ptr = block_list mp1;
     _ \<leftarrow> assert_that (block_ptr \<noteq> 0);
     Some (block_ptr + 4, mp1\<lparr>block_list := load32 (unat block_ptr) m\<rparr>, store32 (unat block_ptr) mpa m)
   }"

text \<open>One pass of the loop of \<open>rt_mp_alloc\<close>: the block, 0 for \<open>RT_NULL\<close>, or \<open>Blocked\<close>.\<close>

definition rt_mp_alloc :: "nat \<Rightarrow> u32 \<Rightarrow> mempool \<Rightarrow> int \<Rightarrow> mem \<Rightarrow> kernel \<Rightarrow> (u32 outcome \<times> mempool \<times> mem \<times> kernel) option" where
  "rt_mp_alloc i mpa mp time m k =
    (if block_free_count mp = 0
     then if time = 0 then Some (Done 0, mp, m, rt_set_errno (- RT_ETIMEOUT) k)
       else do {
         _ \<leftarrow> not_in_interrupt k;
         t \<leftarrow> rt_thread_self k;
         k1 \<leftarrow> mp_block_caller i t time (set_error t RT_EOK k);
         Some (Blocked, mp, m, k1)
       }
     else do {
       (b, mp1, m1) \<leftarrow> mp_take_block mpa mp m;
       Some (Done b, mp1, m1, k)
     })"

text \<open>What it does when the blocked thread \<open>t\<close> runs again; it was suspended at the tick \<open>before_sleep\<close>.\<close>

definition mp_alloc_resume ::
  "nat \<Rightarrow> u32 \<Rightarrow> mempool \<Rightarrow> int \<Rightarrow> u32 \<Rightarrow> nat \<Rightarrow> mem \<Rightarrow> kernel \<Rightarrow> (u32 outcome \<times> mempool \<times> mem \<times> kernel) option" where
  "mp_alloc_resume i mpa mp time before_sleep t m k =
    (if th_error (threads k t) \<noteq> RT_EOK then Some (Done 0, mp, m, k)
     else rt_mp_alloc i mpa mp (time_left time before_sleep k) m k)"

text \<open>\<open>rt_mp_free\<close>. The word before the block is the address of the pool; for any other word there is no control block to
  go on with.\<close>

definition rt_mp_free :: "nat \<Rightarrow> u32 \<Rightarrow> mempool \<Rightarrow> u32 \<Rightarrow> mem \<Rightarrow> kernel \<Rightarrow> (mempool \<times> mem \<times> kernel) option" where
  "rt_mp_free i mpa mp block m k =
    (if block = 0 then Some (mp, m, k)
     else do {
       let block_ptr = block - 4;
       _ \<leftarrow> assert_that (load32 (unat block_ptr) m = mpa);
       let mp1 = mp\<lparr>block_free_count := block_free_count mp + 1\<rparr>;
       let m1 = store32 (unat block_ptr) (block_list mp1) m;
       let mp2 = mp1\<lparr>block_list := block_ptr\<rparr>;
       case tlists k (Waiting i) of
         [] \<Rightarrow> Some (mp2, m1, k)
       | t # _ \<Rightarrow> do {
           (_, k1) \<leftarrow> rt_thread_resume t (set_error t RT_EOK k);
           k2 \<leftarrow> rt_schedule k1;
           Some (mp2, m1, k2)
         }
     })"

section \<open>Where the blocks are\<close>

definition block_at :: "mempool \<Rightarrow> nat \<Rightarrow> u32" where
  "block_at mp j = start_address mp + of_nat j * (block_size mp + 4)"

definition stride :: "mempool \<Rightarrow> nat" where
  "stride mp = unat (block_size mp) + 4"

definition pool_blocks :: "mempool \<Rightarrow> u32 set" where
  "pool_blocks mp = block_at mp ` {..<unat (block_total_count mp)}"

definition pool_fits :: "mempool \<Rightarrow> bool" where
  "pool_fits mp \<longleftrightarrow> start_address mp \<noteq> 0 \<and> stride mp < 2 ^ 32 \<and>
     unat (start_address mp) + unat (block_total_count mp) * stride mp < 2 ^ 32"

lemma unat_block_at:
  assumes "pool_fits mp" "j \<le> unat (block_total_count mp)"
  shows "unat (block_at mp j) = unat (start_address mp) + j * stride mp"
proof -
  have f: "stride mp < 2 ^ 32" "unat (start_address mp) + unat (block_total_count mp) * stride mp < 2 ^ 32" using assms(1) by (simp_all add: pool_fits_def)
  have m: "j * stride mp \<le> unat (block_total_count mp) * stride mp" using assms(2) by (rule mult_le_mono1)
  have b: "unat (start_address mp) + j * stride mp < 2 ^ 32" using f(2) m by linarith
  have "block_at mp j = of_nat (unat (start_address mp) + j * stride mp)" by (simp add: block_at_def stride_def algebra_simps)
  then show ?thesis using b unat_of_nat [of "unat (start_address mp) + j * stride mp", where ?'a = 32] by (simp only: len_num1 len_bit0 len_bit1 mult.right_neutral mod_less) simp
qed

lemma blocks_apart:
  assumes f: "pool_fits mp" and b: "b \<in> pool_blocks mp" "c \<in> pool_blocks mp" "b \<noteq> c"
  shows "unat b + stride mp \<le> unat c \<or> unat c + stride mp \<le> unat b"
proof -
  obtain j l where j: "j < unat (block_total_count mp)" "b = block_at mp j" "l < unat (block_total_count mp)" "c = block_at mp l"
    using b by (auto simp: pool_blocks_def)
  have u: "unat b = unat (start_address mp) + j * stride mp" "unat c = unat (start_address mp) + l * stride mp"
    using unat_block_at [OF f] j by simp_all
  have "j \<noteq> l" using b(3) j by auto
  then have "Suc j \<le> l \<or> Suc l \<le> j" by linarith
  then have "Suc j * stride mp \<le> l * stride mp \<or> Suc l * stride mp \<le> j * stride mp" using mult_le_mono1 by blast
  then show ?thesis using u by auto
qed

lemma block_bounds:
  assumes f: "pool_fits mp" and b: "b \<in> pool_blocks mp"
  shows "unat (start_address mp) \<le> unat b" "unat b + stride mp \<le> unat (start_address mp) + unat (block_total_count mp) * stride mp" "b \<noteq> 0"
    "unat (b + 4) = unat b + 4"
proof -
  obtain j where j: "j < unat (block_total_count mp)" "b = block_at mp j" using b by (auto simp: pool_blocks_def)
  have u: "unat b = unat (start_address mp) + j * stride mp" using unat_block_at [OF f] j by simp
  have "Suc j * stride mp \<le> unat (block_total_count mp) * stride mp" using j(1) by (intro mult_le_mono1) simp
  then show e: "unat b + stride mp \<le> unat (start_address mp) + unat (block_total_count mp) * stride mp" using u by simp
  show "unat (start_address mp) \<le> unat b" using u by simp
  moreover have "unat (start_address mp) \<noteq> 0" using f by (simp add: pool_fits_def unat_eq_0)
  ultimately show "b \<noteq> 0" by auto
  have "unat b + 4 < 2 ^ 32" using e f by (simp add: pool_fits_def stride_def)
  then show "unat (b + 4) = unat b + 4" by (simp add: unat_word_ariths)
qed

section \<open>The invariant\<close>

text \<open>The free blocks are chained by their words in the order \<open>fs\<close>; the blocks \<open>us\<close> are handed out and lead to the pool.\<close>

fun mp_chain :: "mem \<Rightarrow> u32 \<Rightarrow> u32 list \<Rightarrow> bool" where
  "mp_chain m p [] \<longleftrightarrow> p = 0"
| "mp_chain m p (b # bs) \<longleftrightarrow> p = b \<and> mp_chain m (load32 (unat b) m) bs"

definition mp_inv :: "u32 \<Rightarrow> mempool \<Rightarrow> mem \<Rightarrow> u32 list \<Rightarrow> u32 set \<Rightarrow> bool" where
  "mp_inv mpa mp m fs us \<longleftrightarrow> pool_fits mp \<and> mp_chain m (block_list mp) fs \<and> distinct fs \<and> set fs \<inter> us = {} \<and>
     set fs \<union> us = pool_blocks mp \<and> (\<forall>b \<in> us. load32 (unat b) m = mpa) \<and> unat (block_free_count mp) = length fs"

text \<open>Only words before blocks differ.\<close>

definition words_only :: "mempool \<Rightarrow> mem \<Rightarrow> mem \<Rightarrow> bool" where
  "words_only mp m m' \<longleftrightarrow> (\<forall>x. (\<forall>b \<in> pool_blocks mp. x < unat b \<or> unat b + 4 \<le> x) \<longrightarrow> m' x = m x)"

lemma mp_chain_cong: "(\<And>b. b \<in> set fs \<Longrightarrow> load32 (unat b) m' = load32 (unat b) m) \<Longrightarrow> mp_chain m' p fs = mp_chain m p fs"
  by (induction fs arbitrary: p) auto

lemma load32_cong: "(\<And>x. a \<le> x \<Longrightarrow> x < a + 4 \<Longrightarrow> m' x = m x) \<Longrightarrow> load32 a m' = load32 a m"
  by (simp add: load32_def)

text \<open>The word of one block changes; the words of the others stay.\<close>

lemma store_word:
  assumes f: "pool_fits mp" and b: "b \<in> pool_blocks mp"
  shows "c \<in> pool_blocks mp \<Longrightarrow> c \<noteq> b \<Longrightarrow> load32 (unat c) (store32 (unat b) w m) = load32 (unat c) m"
    "words_only mp m (store32 (unat b) w m)"
proof -
  show "load32 (unat c) (store32 (unat b) w m) = load32 (unat c) m" if "c \<in> pool_blocks mp" "c \<noteq> b"
    using blocks_apart [OF f that(1) b that(2)] by (intro load_other(4)) (auto simp: stride_def)
  show "words_only mp m (store32 (unat b) w m)"
    unfolding words_only_def using b by (auto intro!: store_other(2))
qed

lemma mp_invD:
  assumes "mp_inv mpa mp m fs us"
  shows "pool_fits mp" "mp_chain m (block_list mp) fs" "distinct fs" "set fs \<inter> us = {}" "set fs \<union> us = pool_blocks mp"
    "b \<in> us \<Longrightarrow> load32 (unat b) m = mpa" "unat (block_free_count mp) = length fs" "b \<in> set fs \<Longrightarrow> b \<in> pool_blocks mp" "b \<in> us \<Longrightarrow> b \<in> pool_blocks mp"
  using assms by (auto simp: mp_inv_def)

text \<open>The owners of blocks write where they may.\<close>

lemma mp_owner_write:
  assumes i: "mp_inv mpa mp m fs us" and w: "\<And>x. m' x \<noteq> m x \<Longrightarrow> (\<exists>b \<in> us. unat b + 4 \<le> x \<and> x < unat b + stride mp)"
  shows "mp_inv mpa mp m' fs us"
proof -
  have "load32 (unat c) m' = load32 (unat c) m" if c: "c \<in> pool_blocks mp" for c
  proof (rule load32_cong, rule ccontr)
    fix x assume x: "unat c \<le> x" "x < unat c + 4" "m' x \<noteq> m x"
    then obtain b where b: "b \<in> us" "unat b + 4 \<le> x" "x < unat b + stride mp" using w by blast
    show False
      using blocks_apart [OF mp_invD(1) [OF i] c mp_invD(9) [OF i b(1)]] b x by (cases "c = b") (auto simp: stride_def)
  qed
  then show ?thesis
    using i mp_chain_cong [of fs m' m "block_list mp"] mp_invD(8,9) [OF i] unfolding mp_inv_def by auto
qed

section \<open>The operations\<close>

text \<open>Taking the first free block and giving a block back.\<close>

lemma take_block_inv:
  assumes i: "mp_inv mpa mp m (b # fs) us"
  obtains mp' m' where "mp_take_block mpa mp m = Some (b + 4, mp', m')" "mp_inv mpa mp' m' fs (insert b us)" "words_only mp m m'"
    "pool_blocks mp' = pool_blocks mp" "stride mp' = stride mp"
proof -
  note d = mp_invD [OF i]
  have b: "b \<in> pool_blocks mp" using d(8) by simp
  have l: "block_list mp = b" "mp_chain m (load32 (unat b) m) fs" using d(2) by simp_all
  define mp' where "mp' = mp\<lparr>block_free_count := block_free_count mp - 1, block_list := load32 (unat b) m\<rparr>"
  define m' where "m' = store32 (unat b) mpa m"
  have n: "unat (block_free_count mp - 1) = length fs"
    using d(7) by (simp add: unat_diff_u32)
  note w = store_word [OF d(1) b, where w = mpa and m = m, folded m'_def]
  have other: "load32 (unat c) m' = load32 (unat c) m" if "c \<in> set fs \<or> c \<in> us" for c
    by (rule w(1)) (use that d(3,4,8,9) in auto)
  have geo: "pool_fits mp' = pool_fits mp" "pool_blocks mp' = pool_blocks mp" "stride mp' = stride mp"
    by (simp_all add: mp'_def pool_fits_def pool_blocks_def stride_def block_at_def)
  have "mp_inv mpa mp' m' fs (insert b us)"
    unfolding mp_inv_def geo
    using d other l(2) mp_chain_cong [of fs m' m "load32 (unat b) m"] n by (auto simp: mp'_def m'_def load32_store32)
  moreover have "mp_take_block mpa mp m = Some (b + 4, mp', m')"
    using block_bounds(3) [OF d(1) b] by (simp add: mp_take_block_def l mp'_def m'_def)
  ultimately show thesis using w(2) geo that by blast
qed

lemma give_block_inv:
  assumes i: "mp_inv mpa mp m fs us" and b: "b \<in> us"
  shows "mp_inv mpa (mp\<lparr>block_free_count := block_free_count mp + 1, block_list := b\<rparr>) (store32 (unat b) (block_list mp) m) (b # fs) (us - {b})"
    "words_only mp m (store32 (unat b) (block_list mp) m)"
proof -
  note d = mp_invD [OF i]
  have bp: "b \<in> pool_blocks mp" by (rule d(9) [OF b])
  define mp' where "mp' = mp\<lparr>block_free_count := block_free_count mp + 1, block_list := b\<rparr>"
  define m' where "m' = store32 (unat b) (block_list mp) m"
  note w = store_word [OF d(1) bp, where w = "block_list mp" and m = m, folded m'_def]
  have other: "load32 (unat c) m' = load32 (unat c) m" if "c \<in> set fs \<or> c \<in> us" "c \<noteq> b" for c
    by (rule w(1)) (use that d(3,4,8,9) in auto)
  have geo: "pool_fits mp' = pool_fits mp" "pool_blocks mp' = pool_blocks mp"
    by (simp_all add: mp'_def pool_fits_def pool_blocks_def stride_def block_at_def)
  have bf: "b \<notin> set fs" using b d(4) by blast
  have n: "unat (block_free_count mp + 1) = length fs + 1"
  proof -
    have "length (b # fs) = card (set (b # fs))" by (rule distinct_card [symmetric]) (simp add: bf d(3))
    also have "\<dots> \<le> card (pool_blocks mp)"
      by (rule card_mono) (use d(8) bp in \<open>auto simp: pool_blocks_def\<close>)
    also have "\<dots> \<le> unat (block_total_count mp)"
      unfolding pool_blocks_def using card_image_le [of "{..<unat (block_total_count mp)}" "block_at mp"] by simp
    also have "\<dots> \<le> unat (block_total_count mp) * stride mp" by (simp add: stride_def)
    also have "\<dots> < 2 ^ 32" using d(1) by (simp add: pool_fits_def)
    finally have "unat (block_free_count mp) + 1 < 2 ^ 32" by (simp add: d(7))
    then show ?thesis by (simp add: unat_word_ariths d(7))
  qed
  have c: "mp_chain m' (block_list mp) fs" using d(2) mp_chain_cong [of fs m' m "block_list mp"] other bf by auto
  have "mp_inv mpa mp' m' (b # fs) (us - {b})"
    unfolding mp_inv_def geo
    using d other b bf bp n c by (auto simp: mp'_def m'_def load32_store32)
  then show "mp_inv mpa (mp\<lparr>block_free_count := block_free_count mp + 1, block_list := b\<rparr>) (store32 (unat b) (block_list mp) m) (b # fs) (us - {b})"
    by (simp add: mp'_def m'_def)
  show "words_only mp m (store32 (unat b) (block_list mp) m)" using w(2) by (simp add: m'_def)
qed

text \<open>What owners see: bytes inside of blocks are not touched.\<close>

lemma words_only_blocks:
  assumes f: "pool_fits mp" and w: "words_only mp m m'" and b: "b \<in> pool_blocks mp"
  shows "mem_load (unat b + 4) (unat (block_size mp)) m' = mem_load (unat b + 4) (unat (block_size mp)) m"
proof (rule mem_load_cong)
  fix x assume x: "x < unat (block_size mp)"
  have "unat b + 4 + x < unat c \<or> unat c + 4 \<le> unat b + 4 + x" if "c \<in> pool_blocks mp" for c
    using blocks_apart [OF f b that] x by (cases "c = b") (auto simp: stride_def)
  then show "m' (unat b + 4 + x) = m (unat b + 4 + x)" using w by (simp add: words_only_def)
qed

lemma mp_block_caller_on:
  assumes "kinv b k" "state_of k t = RT_THREAD_RUNNING"
  shows "mp_block_caller i t time k = block_on (Waiting i) t (t # tlists k (Waiting i)) time k"
proof -
  obtain k1 where "rt_thread_suspend t k = Some (RT_EOK, k1)" "tlists k1 = tlists k"
    by (rule suspend_running_spec [OF assms]) blast
  then show ?thesis by (simp add: mp_block_caller_def block_on_def)
qed

lemma mp_alloc_block:
  assumes kinv: "kinv b k" and b: "b \<le> 1" and i: "mp_inv mpa mp m [] us" and r: "runs t k" and time: "time < 2 ^ 31 - 1" "time \<noteq> 0"
  obtains k' where "rt_mp_alloc i mpa mp time m k = Some (Blocked, mp, m, k')" "kinv b k'" "ipc_frame {Waiting i} {} k k'" "current_thread k' \<noteq> None"
    "tlists k' (Waiting i) = t # tlists k (Waiting i)" "state_of k' t = RT_THREAD_SUSPEND" "th_error (threads k' t) = RT_EOK"
    "time > 0 \<Longrightarrow> ThreadTimer t \<in> set (tmlists k' HardList) \<and> timeout_tick (timers k' (ThreadTimer t)) = tick k + word_of_int time" "resched {t} k k'"
proof -
  define k0 where "k0 = set_error t RT_EOK k"
  have k0: "kinv b k0" "current_thread k0 = Some t" "state_of k0 t = RT_THREAD_RUNNING"
    using set_error_kinv [OF kinv] r by (simp_all add: k0_def runs_def)
  have s: "set (t # tlists k0 (Waiting i)) = insert t (set (tlists k0 (Waiting i)))"
    "distinct (t # tlists k0 (Waiting i)) \<or> t \<in> set (tlists k0 (Waiting i))"
    using sched_invD(2) [OF kinvD(1) [OF k0(1)]] by auto
  obtain k' where k': "block_on (Waiting i) t (t # tlists k0 (Waiting i)) time k0 = Some k'" "kinv b k'" "ipc_frame {Waiting i} {} k0 k'" "current_thread k' \<noteq> None"
    "tlists k' (Waiting i) = t # tlists k0 (Waiting i)" "state_of k' t = RT_THREAD_SUSPEND" "\<And>x. th_error (threads k' x) = th_error (threads k0 x)"
    "time > 0 \<Longrightarrow> ThreadTimer t \<in> set (tmlists k' HardList) \<and> timeout_tick (timers k' (ThreadTimer t)) = tick k0 + word_of_int time" "resched {t} k0 k'"
    by (rule block_on_frame [OF k0(1) b k0(2,3) wait_list_simps(1) s time(1)]) blast
  have e: "block_free_count mp = 0" using mp_invD(7) [OF i] by (simp add: unat_eq_0)
  have run: "rt_mp_alloc i mpa mp time m k = Some (Blocked, mp, m, k')"
    using e time(2) r k'(1) mp_block_caller_on [OF k0(1,3), of i time]
    by (simp add: rt_mp_alloc_def runs_def rt_thread_self_def not_in_interrupt_def rt_interrupt_get_nest_def k0_def)
  have f: "ipc_frame {Waiting i} {} k k'" by (rule ipc_frame_trans [OF _ k'(3)]) (simp add: k0_def)
  have rs: "resched {t} k k'" by (rule calm_resched [OF _ k'(9)]) (simp add: k0_def)
  show thesis by (rule that [OF run k'(2) f k'(4)]) (use k' rs in \<open>simp_all add: k0_def\<close>)
qed

lemma mp_free_spec:
  assumes kinv: "kinv b k" and cur: "current_thread k \<noteq> None" and i: "mp_inv mpa mp m fs us" and u: "u \<in> us"
  obtains mp' m' k' where "rt_mp_free i mpa mp (u + 4) m k = Some (mp', m', k')" "mp_inv mpa mp' m' (u # fs) (us - {u})" "words_only mp m m'"
    "kinv b k'" "ipc_frame {Waiting i} {} k k'" "current_thread k' \<noteq> None" "tlists k' (Waiting i) = tl (tlists k (Waiting i))"
    "\<And>w. w \<in> set (take 1 (tlists k (Waiting i))) \<Longrightarrow> state_of k' w \<noteq> RT_THREAD_SUSPEND \<and> th_error (threads k' w) = RT_EOK"
    "tlists k (Waiting i) = [] \<Longrightarrow> k' = k" "fair k k'"
proof -
  note d = mp_invD [OF i]
  have up: "u \<in> pool_blocks mp" by (rule d(9) [OF u])
  note g = give_block_inv [OF i u]
  define mp' where "mp' = mp\<lparr>block_free_count := block_free_count mp + 1, block_list := u\<rparr>"
  define m' where "m' = store32 (unat u) (block_list mp) m"
  have ne: "u + 4 \<noteq> 0" using block_bounds(4) [OF d(1) up] by (metis add_is_0 unat_0 zero_neq_numeral)
  have run: "rt_mp_free i mpa mp (u + 4) m k = (case tlists k (Waiting i) of [] \<Rightarrow> Some (mp', m', k)
       | t # _ \<Rightarrow> Option.bind (rt_thread_resume t (set_error t RT_EOK k)) (\<lambda>(_, k1). Option.bind (rt_schedule k1) (\<lambda>k2. Some (mp', m', k2))))"
    using ne d(6) [OF u] by (simp add: rt_mp_free_def Let_def mp'_def m'_def split: list.split)
  show thesis
  proof (cases "tlists k (Waiting i)")
    case Nil
    show thesis
      by (rule that [of mp' m' k]) (use g kinv cur Nil in \<open>simp_all add: run mp'_def m'_def fairI\<close>)
  next
    case (Cons w ws)
    define k0 where "k0 = set_error w RT_EOK k"
    have k0: "kinv b k0" "current_thread k0 \<noteq> None" using set_error_kinv [OF kinv] cur by (simp_all add: k0_def)
    obtain k' where k': "wake_one (Waiting i) k0 = Some k'" "kinv b k'" "ipc_frame {Waiting i} {} k0 k'" "current_thread k' \<noteq> None"
      "tlists k' (Waiting i) = tl (tlists k0 (Waiting i))" "\<And>x. th_error (threads k' x) = th_error (threads k0 x)"
      "\<And>x. state_of k' x = RT_THREAD_SUSPEND \<longleftrightarrow> state_of k0 x = RT_THREAD_SUSPEND \<and> x \<notin> set (take 1 (tlists k0 (Waiting i)))"
      by (rule wake_one_spec [OF k0 wait_list_simps(1)]) blast
    have "rt_mp_free i mpa mp (u + 4) m k = Some (mp', m', k')"
      using k'(1) unfolding run by (auto simp: Cons wake_one_def ipc_list_resume_def k0_def bind_eq_Some_conv)
    moreover have "fair k k'"
      using wake_one_fair [OF k0(1) wait_list_simps(1) k'(1)] set_error_calm [of k w RT_EOK] calm_fair [of k k0]
      by (auto simp: fair_def k0_def)
    moreover have "ipc_frame {Waiting i} {} k k'" by (rule ipc_frame_trans [OF _ k'(3)]) (simp add: k0_def)
    ultimately show thesis
      by (intro that [of mp' m' k']) (use g k' Cons in \<open>simp_all add: mp'_def m'_def k0_def\<close>)
  qed
qed


section \<open>A new pool\<close>

text \<open>After the first \<open>n\<close> rounds of the loop, the word of each of the first \<open>n\<close> blocks leads to the next block.\<close>

lemma link_loop:
  fixes m :: mem
  assumes f: "pool_fits mp" and n: "n \<le> unat (block_total_count mp)"
  defines "m' \<equiv> fold (\<lambda>j. store32 (unat (block_at mp j)) (block_at mp (j + 1))) [0..<n] m"
  shows "j < n \<Longrightarrow> load32 (unat (block_at mp j)) m' = block_at mp (j + 1)" "words_only mp m m'"
proof -
  have "(\<forall>j < n. load32 (unat (block_at mp j)) (fold (\<lambda>j. store32 (unat (block_at mp j)) (block_at mp (j + 1))) [0..<n] m) = block_at mp (j + 1)) \<and>
    words_only mp m (fold (\<lambda>j. store32 (unat (block_at mp j)) (block_at mp (j + 1))) [0..<n] m)"
    using n
  proof (induction n)
    case 0
    then show ?case by (simp add: words_only_def)
  next
    case (Suc n)
    define m1 where "m1 = fold (\<lambda>j. store32 (unat (block_at mp j)) (block_at mp (j + 1))) [0..<n] m"
    have b: "block_at mp n \<in> pool_blocks mp" using Suc.prems by (auto simp: pool_blocks_def)
    note w = store_word [OF f b, where w = "block_at mp (n + 1)" and m = m1]
    have "block_at mp j \<noteq> block_at mp n" if "j < n" for j
      using unat_block_at [OF f, of j] unat_block_at [OF f, of n] that Suc.prems by (auto simp: stride_def)
    moreover have "block_at mp j \<in> pool_blocks mp" if "j < n" for j using that Suc.prems by (auto simp: pool_blocks_def)
    ultimately have "load32 (unat (block_at mp j)) (store32 (unat (block_at mp n)) (block_at mp (n + 1)) m1) = block_at mp (j + 1)" if "j < Suc n" for j
      using Suc w(1) [of "block_at mp j"] that by (cases "j = n") (auto simp: m1_def load32_store32)
    moreover have "words_only mp m (store32 (unat (block_at mp n)) (block_at mp (n + 1)) m1)"
      using Suc w(2) by (auto simp: words_only_def m1_def)
    ultimately show ?case by (simp add: m1_def)
  qed
  then show "j < n \<Longrightarrow> load32 (unat (block_at mp j)) m' = block_at mp (j + 1)" "words_only mp m m'" by (simp_all add: m'_def)
qed

text \<open>A chain from the block \<open>j\<close> to the last one.\<close>

lemma chain_blocks:
  assumes "\<And>j. j + 1 < n \<Longrightarrow> load32 (unat (block_at mp j)) m = block_at mp (j + 1)" "load32 (unat (block_at mp (n - 1))) m = 0" "0 < n"
  shows "j < n \<Longrightarrow> mp_chain m (block_at mp j) (map (block_at mp) [j..<n])"
proof (induction "n - j" arbitrary: j)
  case (Suc d)
  show ?case
  proof (cases "j + 1 < n")
    case True
    then have "mp_chain m (block_at mp (j + 1)) (map (block_at mp) [j + 1..<n])" using Suc by simp
    then show ?thesis using assms(1) [OF True] Suc.prems by (simp add: upt_rec [of j])
  next
    case False
    then have "n = Suc j" using Suc.prems by simp
    then show ?thesis using assms(2) by simp
  qed
qed simp

lemma mp_linked:
  assumes f: "pool_fits mp" and n: "0 < unat (block_total_count mp)" and l: "block_list mp = start_address mp" "block_free_count mp = block_total_count mp"
  shows "mp_inv mpa mp (mp_link_blocks (start_address mp) (block_size mp) (block_total_count mp) m) (map (block_at mp) [0..<unat (block_total_count mp)]) {}"
    "words_only mp m (mp_link_blocks (start_address mp) (block_size mp) (block_total_count mp) m)"
proof -
  define n where "n = unat (block_total_count mp)"
  define m1 where "m1 = fold (\<lambda>j. store32 (unat (block_at mp j)) (block_at mp (j + 1))) [0..<n] m"
  define m2 where "m2 = store32 (unat (block_at mp (n - 1))) 0 m1"
  have e: "of_nat (n - 1) = block_total_count mp - 1" using n by (simp add: n_def of_nat_diff)
  have link: "mp_link_blocks (start_address mp) (block_size mp) (block_total_count mp) m = m2"
    unfolding mp_link_blocks_def m2_def m1_def n_def [symmetric] block_at_def e by (simp add: algebra_simps)
  note lp = link_loop [OF f eq_refl [OF n_def], where m = m, folded m1_def]
  have inj: "block_at mp j \<noteq> block_at mp l" if "j \<noteq> l" "j < n" "l < n" for j l
    using unat_block_at [OF f, of j] unat_block_at [OF f, of l] that by (auto simp: stride_def n_def)
  have bl: "block_at mp j \<in> pool_blocks mp" if "j < n" for j using that by (auto simp: pool_blocks_def n_def)
  have n0: "0 < n" using n by (simp add: n_def)
  have ln: "block_at mp (n - 1) \<in> pool_blocks mp" using bl [of "n - 1"] n0 by simp
  note w = store_word [OF f ln, where w = 0 and m = m1, folded m2_def]
  have nx: "load32 (unat (block_at mp j)) m2 = block_at mp (j + 1)" if "j + 1 < n" for j
    using w(1) [OF bl [of j] inj [of j "n - 1"]] lp(1) [of j] that by simp
  have last: "load32 (unat (block_at mp (n - 1))) m2 = 0" by (simp add: m2_def load32_store32)
  have "mp_chain m2 (block_at mp 0) (map (block_at mp) [0..<n])" by (rule chain_blocks [OF nx last n0 n0])
  moreover have "distinct (map (block_at mp) [0..<n])" 
    by (simp add: distinct_map, rule inj_onI, rule ccontr) (use inj in auto)
  moreover have "block_at mp 0 = block_list mp" by (simp add: block_at_def l)
  ultimately show "mp_inv mpa mp (mp_link_blocks (start_address mp) (block_size mp) (block_total_count mp) m) (map (block_at mp) [0..<unat (block_total_count mp)]) {}"
    unfolding link mp_inv_def n_def [symmetric] using f l(2) by (auto simp: pool_blocks_def n_def)
  show "words_only mp m (mp_link_blocks (start_address mp) (block_size mp) (block_total_count mp) m)"
    unfolding link using lp(2) w(2) by (auto simp: words_only_def)
qed

lemma mp_init_spec:
  assumes "start \<noteq> 0" "unat start + unat sz < 2 ^ 32" "0 < bsize" "unat bsize + 8 < 2 ^ 32" "bs = (unat bsize + 3) div 4 * 4"
    "bs + 4 \<le> unat sz div 4 * 4"
  shows "\<exists>mp m' fs. rt_mp_init i start sz bsize m k = Some (mp, m', ipc_object_init (Waiting i) k) \<and> mp_inv mpa mp m' fs {} \<and> words_only mp m m' \<and>
    unat (block_size mp) = bs \<and> length fs = unat sz div 4 * 4 div (bs + 4) \<and>
    (\<forall>j < length fs. unat (fs ! j) = unat start + j * (bs + 4)) \<and> (\<forall>b \<in> set fs. unat b + 4 + bs \<le> unat start + unat sz)"
proof -
  define mp where "mp = \<lparr>mp_type = CLASS_MEMPOOL OR CLASS_STATIC, start_address = start, mp_size = RT_ALIGN_DOWN sz 4, block_size = RT_ALIGN bsize 4,
    block_list = start, block_total_count = RT_ALIGN_DOWN sz 4 div (RT_ALIGN bsize 4 + 4), block_free_count = RT_ALIGN_DOWN sz 4 div (RT_ALIGN bsize 4 + 4)\<rparr>"
  define n where "n = unat sz div 4 * 4 div (bs + 4)"
  have b: "unat (RT_ALIGN bsize 4) = bs" using assms(4,5) by (simp add: unat_RT_ALIGN)
  have lt: "bs + 4 < 2 ^ 32" using assms(4,5) by linarith
  then have b4: "unat (RT_ALIGN bsize 4 + 4) = bs + 4" using b by (simp add: unat_word_ariths)
  have t: "unat (block_total_count mp) = n" by (simp add: mp_def unat_div b4 unat_RT_ALIGN_DOWN n_def)
  have st: "stride mp = bs + 4" by (simp add: stride_def mp_def b)
  have r: "n * (bs + 4) \<le> unat sz" unfolding n_def by (meson div_times_less_eq_dividend order_trans)
  have f: "pool_fits mp" using assms(1,2) lt r by (simp add: pool_fits_def st t) (simp add: mp_def)
  have n: "0 < n" using assms(6) by (simp add: n_def div_greater_zero_iff)
  have "sz \<noteq> 0" using assms(6) by auto
  then have sz: "sz > 0" by (simp add: word_greater_zero_iff)
  define fs where "fs = map (block_at mp) [0..<n]"
  define m' where "m' = mp_link_blocks start (RT_ALIGN bsize 4) (RT_ALIGN_DOWN sz 4 div (RT_ALIGN bsize 4 + 4)) m"
  have run: "rt_mp_init i start sz bsize m k = Some (mp, m', ipc_object_init (Waiting i) k)"
    using assms(1,3) sz by (simp add: rt_mp_init_def mp_def m'_def Let_def)
  have l: "mp_inv mpa mp m' fs {}" "words_only mp m m'"
    using mp_linked(1) [OF f, where mpa = mpa and m = m] mp_linked(2) [OF f, where m = m] n t by (simp_all add: fs_def t) (simp_all add: mp_def m'_def)
  have pl: "unat (fs ! j) = unat start + j * (bs + 4)" if "j < n" for j
    using unat_block_at [OF f, of j] that t st by (simp add: fs_def) (simp add: mp_def)
  have "unat b + 4 + bs \<le> unat start + unat sz" if "b \<in> set fs" for b
    using block_bounds(2) [OF f mp_invD(8) [OF l(1) that]] r t st by (simp add: mp_def)
  then show ?thesis
    using run l pl b by (intro exI [of _ mp] exI [of _ m'] exI [of _ fs]) (simp add: fs_def n_def mp_def)
qed

text \<open>C23: memory pools. For a pool whose free blocks are \<open>fs\<close> and whose handed out blocks are \<open>us\<close>, and a running thread:
  \<open>rt_mp_alloc\<close> hands out the first free block, behind its word, and changes nothing in memory but that word; with no free block it
  gives \<open>RT_NULL\<close> at once or suspends the caller at the \<^emph>\<open>front\<close> of the suspend list, so that the last to come is the first to be
  served; \<open>rt_mp_free\<close> of a block that is handed out puts it in front of the free blocks, wakes the first suspended thread
  and changes no other byte; and whatever the owners write inside of their blocks leaves the pool intact.\<close>

theorem mp_refines:
  assumes "kinv 1 k" "mp_inv mpa mp m fs us" "runs t k" "time < 2 ^ 31 - 1"
  shows "(case fs of
       b # fs' \<Rightarrow> \<exists>mp' m'. rt_mp_alloc i mpa mp time m k = Some (Done (b + 4), mp', m', k) \<and> mp_inv mpa mp' m' fs' (insert b us) \<and> words_only mp m m'
     | [] \<Rightarrow> if time = 0 then rt_mp_alloc i mpa mp time m k = Some (Done 0, mp, m, set_error t (- RT_ETIMEOUT) k)
         else \<exists>k'. rt_mp_alloc i mpa mp time m k = Some (Blocked, mp, m, k') \<and> kinv 1 k' \<and> state_of k' t = RT_THREAD_SUSPEND \<and>
           tlists k' (Waiting i) = t # tlists k (Waiting i) \<and> ipc_frame {Waiting i} {} k k') \<and>
    (\<forall>u \<in> us. \<exists>mp' m' k'. rt_mp_free i mpa mp (u + 4) m k = Some (mp', m', k') \<and> mp_inv mpa mp' m' (u # fs) (us - {u}) \<and> words_only mp m m' \<and>
       kinv 1 k' \<and> tlists k' (Waiting i) = tl (tlists k (Waiting i)) \<and> ipc_frame {Waiting i} {} k k' \<and>
       (\<forall>w ws. tlists k (Waiting i) = w # ws \<longrightarrow> state_of k' w \<noteq> RT_THREAD_SUSPEND \<and> th_error (threads k' w) = RT_EOK)) \<and>
    (\<forall>m'. (\<forall>x. m' x \<noteq> m x \<longrightarrow> (\<exists>u \<in> us. unat (u + 4) \<le> x \<and> x < unat (u + 4) + unat (block_size mp))) \<longrightarrow> mp_inv mpa mp m' fs us)"
proof (intro conjI ballI allI impI)
  note i = assms(2)
  show "case fs of
       b # fs' \<Rightarrow> \<exists>mp' m'. rt_mp_alloc i mpa mp time m k = Some (Done (b + 4), mp', m', k) \<and> mp_inv mpa mp' m' fs' (insert b us) \<and> words_only mp m m'
     | [] \<Rightarrow> if time = 0 then rt_mp_alloc i mpa mp time m k = Some (Done 0, mp, m, set_error t (- RT_ETIMEOUT) k)
         else \<exists>k'. rt_mp_alloc i mpa mp time m k = Some (Blocked, mp, m, k') \<and> kinv 1 k' \<and> state_of k' t = RT_THREAD_SUSPEND \<and>
           tlists k' (Waiting i) = t # tlists k (Waiting i) \<and> ipc_frame {Waiting i} {} k k'"
  proof (cases fs)
    case Nil
    show ?thesis
    proof (cases "time = 0")
      case True
      have "block_free_count mp = 0" using mp_invD(7) [OF i] Nil by (simp add: unat_eq_0)
      then show ?thesis
        using True Nil assms(3) by (simp add: rt_mp_alloc_def rt_set_errno_def runs_def rt_thread_self_def rt_interrupt_get_nest_def)
    next
      case False
      obtain k' where "rt_mp_alloc i mpa mp time m k = Some (Blocked, mp, m, k')" "kinv 1 k'" "ipc_frame {Waiting i} {} k k'"
        "tlists k' (Waiting i) = t # tlists k (Waiting i)" "state_of k' t = RT_THREAD_SUSPEND"
        by (rule mp_alloc_block [OF assms(1) order_refl i [unfolded Nil] assms(3,4) False]) blast
      then show ?thesis using False Nil by auto
    qed
  next
    case (Cons b fs')
    obtain mp' m' where "mp_take_block mpa mp m = Some (b + 4, mp', m')" "mp_inv mpa mp' m' fs' (insert b us)" "words_only mp m m'"
      by (rule take_block_inv [OF i [unfolded Cons]]) blast
    moreover have "block_free_count mp \<noteq> 0" using mp_invD(7) [OF i] Cons by auto
    ultimately show ?thesis using Cons by (simp add: rt_mp_alloc_def)
  qed
  show "\<exists>mp' m' k'. rt_mp_free i mpa mp (u + 4) m k = Some (mp', m', k') \<and> mp_inv mpa mp' m' (u # fs) (us - {u}) \<and> words_only mp m m' \<and>
       kinv 1 k' \<and> tlists k' (Waiting i) = tl (tlists k (Waiting i)) \<and> ipc_frame {Waiting i} {} k k' \<and>
       (\<forall>w ws. tlists k (Waiting i) = w # ws \<longrightarrow> state_of k' w \<noteq> RT_THREAD_SUSPEND \<and> th_error (threads k' w) = RT_EOK)" if "u \<in> us" for u
    by (rule mp_free_spec [OF assms(1) runs_tail [OF assms(3)] i that, of i]) (intro exI conjI allI impI; auto)
  show "mp_inv mpa mp m' fs us"
    if w: "\<forall>x. m' x \<noteq> m x \<longrightarrow> (\<exists>u \<in> us. unat (u + 4) \<le> x \<and> x < unat (u + 4) + unat (block_size mp))" for m'
  proof (rule mp_owner_write [OF i])
    fix x assume "m' x \<noteq> m x"
    then obtain u where u: "u \<in> us" "unat (u + 4) \<le> x" "x < unat (u + 4) + unat (block_size mp)" using w by blast
    then show "\<exists>u \<in> us. unat u + 4 \<le> x \<and> x < unat u + stride mp"
      using block_bounds(4) [OF mp_invD(1,9) [OF i]] by (intro bexI [of _ u]) (simp_all add: stride_def)
  qed
qed

text \<open>A new pool. \<open>rt_mp_init\<close> on a stretch of memory that has room for at least one block divides it into blocks of the size
  rounded up to a multiple of 4, all free and in the order of their addresses, apart from each other and inside of the stretch; it writes
  only the words before the blocks.\<close>

theorem mp_init_ready:
  assumes "start \<noteq> 0" "unat start + unat sz < 2 ^ 32" "0 < bsize" "unat bsize + 8 < 2 ^ 32" "bs = (unat bsize + 3) div 4 * 4"
    "bs + 4 \<le> unat sz div 4 * 4"
  shows "\<exists>mp m' fs. rt_mp_init i start sz bsize m k = Some (mp, m', ipc_object_init (Waiting i) k) \<and> mp_inv mpa mp m' fs {} \<and> words_only mp m m' \<and>
    unat (block_size mp) = bs \<and> length fs = unat sz div 4 * 4 div (bs + 4) \<and>
    (\<forall>j < length fs. unat (fs ! j) = unat start + j * (bs + 4)) \<and> (\<forall>b \<in> set fs. unat b + 4 + bs \<le> unat start + unat sz)"
  by (rule mp_init_spec [OF assms])

lemma mp_init_ready_witness:
  "\<exists>mp m' fs. rt_mp_init 0 0x100 40 10 (\<lambda>_. 0) four_threads = Some (mp, m', ipc_object_init (Waiting 0) four_threads) \<and> mp_inv 0x80 mp m' fs {} \<and>
    length fs = 2 \<and> unat (fs ! 0) = 0x100 \<and> unat (fs ! 1) = 0x110"
proof -
  obtain mp m' fs where "rt_mp_init 0 0x100 40 10 (\<lambda>_. 0) four_threads = Some (mp, m', ipc_object_init (Waiting 0) four_threads)" "mp_inv 0x80 mp m' fs {}"
    "length fs = 2" "\<forall>j < length fs. unat (fs ! j) = 0x100 + j * 16"
    using mp_init_ready [of "0x100" 40 10 12 0 "\<lambda>_. 0" four_threads "0x80"] by auto
  then show ?thesis by (intro exI [of _ mp] exI [of _ m'] exI [of _ fs]) simp
qed

text \<open>A pool of two blocks.\<close>

definition demo_pool :: mempool where
  "demo_pool = \<lparr>mp_type = CLASS_MEMPOOL, start_address = 0x100, mp_size = 32, block_size = 12, block_list = 0x100, block_total_count = 2, block_free_count = 2\<rparr>"

lemma demo_pool_inv: "\<exists>m. mp_inv 0x80 demo_pool m [0x100, 0x110] {}"
proof -
  have "pool_fits demo_pool" by (simp add: pool_fits_def demo_pool_def stride_def)
  from mp_linked(1) [OF this, where mpa = "0x80" and m = "\<lambda>_. 0"] show ?thesis by (auto simp: demo_pool_def block_at_def upt_rec)
qed

lemma mp_refines_witness:
  "\<exists>m mp' m'. mp_inv 0x80 demo_pool m [0x100, 0x110] {} \<and> rt_mp_alloc 0 0x80 demo_pool 0 m four_threads = Some (Done 0x104, mp', m', four_threads) \<and>
    mp_inv 0x80 mp' m' [0x110] {0x100}"
proof -
  obtain m where m: "mp_inv 0x80 demo_pool m [0x100, 0x110] {}" using demo_pool_inv by blast
  have "\<exists>mp' m'. rt_mp_alloc 0 0x80 demo_pool 0 m four_threads = Some (Done (0x100 + 4), mp', m', four_threads) \<and> mp_inv 0x80 mp' m' [0x110] {0x100}"
    using mp_refines [OF four_threads_inv m demo_runs, of 0 0] by auto
  with m show ?thesis by auto
qed

section \<open>A pool that goes away\<close>

text \<open>All waiting threads are woken with \<open>- RT_ERROR\<close>.\<close>

lemma mp_end_wakes_all:
  assumes "kinv b k" "current_thread k \<noteq> None" "obj_is CLASS_MEMPOOL (mp_type mp)"
  shows "is_system (mp_type mp) \<Longrightarrow> \<exists>mp' k'. rt_mp_detach i mp k = Some (RT_EOK, mp', k') \<and> kinv b k' \<and> tlists k' (Waiting i) = [] \<and>
      (\<forall>x \<in> set (tlists k (Waiting i)). th_error (threads k' x) = - RT_ERROR)"
    "\<not> is_system (mp_type mp) \<Longrightarrow> interrupt_nest k = 0 \<Longrightarrow> \<exists>mp' k'. rt_mp_delete i mp k = Some (RT_EOK, mp', k', start_address mp) \<and> kinv b k' \<and>
      tlists k' (Waiting i) = [] \<and> (\<forall>x \<in> set (tlists k (Waiting i)). th_error (threads k' x) = - RT_ERROR)"
proof -
  obtain k' where "ipc_list_resume_all (Waiting i) k = Some k'" "kinv b k'" "tlists k' (Waiting i) = []"
    "\<And>x. x \<in> set (tlists k (Waiting i)) \<Longrightarrow> th_error (threads k' x) = - RT_ERROR"
    by (rule resume_all_frame [OF assms(1,2) wait_list_simps(1), of i]) blast
  then show "is_system (mp_type mp) \<Longrightarrow> \<exists>mp' k'. rt_mp_detach i mp k = Some (RT_EOK, mp', k') \<and> kinv b k' \<and> tlists k' (Waiting i) = [] \<and>
      (\<forall>x \<in> set (tlists k (Waiting i)). th_error (threads k' x) = - RT_ERROR)"
    "\<not> is_system (mp_type mp) \<Longrightarrow> interrupt_nest k = 0 \<Longrightarrow> \<exists>mp' k'. rt_mp_delete i mp k = Some (RT_EOK, mp', k', start_address mp) \<and> kinv b k' \<and>
      tlists k' (Waiting i) = [] \<and> (\<forall>x \<in> set (tlists k (Waiting i)). th_error (threads k' x) = - RT_ERROR)"
    using assms(3) by (simp_all add: rt_mp_detach_def rt_mp_delete_def not_in_interrupt_def rt_interrupt_get_nest_def)
qed

end
