(* ===== verification/Mutex.thy ===== *)
theory Mutex
  imports IpcBase
begin

text \<open>
  The mutexes of \<^verbatim>\<open>rt-thread/src/ipc.c\<close>: recursive, with priority inheritance, always with a queue
  in the order of priority. The owner is a thread or none; \<open>hold\<close> counts the nested takes in 8 bits.
\<close>

section \<open>Operations\<close>

record mutex = ipc_object +
  mtx_value :: u16
  original_priority :: nat
  mtx_hold :: u8
  mtx_owner :: "nat option"

abbreviation RT_MUTEX_VALUE_MAX :: u16 where "RT_MUTEX_VALUE_MAX \<equiv> 0xffff"
abbreviation RT_MUTEX_HOLD_MAX :: u8 where "RT_MUTEX_HOLD_MAX \<equiv> 0xff"

definition new_mutex :: "u8 \<Rightarrow> mutex" where
  "new_mutex ty = \<lparr>ipc_type = ty, ipc_flag = RT_IPC_FLAG_PRIO, mtx_value = 1, original_priority = 0xff,
     mtx_hold = 0, mtx_owner = None\<rparr>"

definition rt_mutex_init :: "nat \<Rightarrow> u8 \<Rightarrow> kernel \<Rightarrow> mutex \<times> kernel" where
  "rt_mutex_init i flag k = (new_mutex (CLASS_MUTEX OR CLASS_STATIC), ipc_object_init (Waiting i) k)"

definition rt_mutex_detach :: "nat \<Rightarrow> mutex \<Rightarrow> kernel \<Rightarrow> (int \<times> mutex \<times> kernel) option" where
  "rt_mutex_detach i m k = do {
     _ \<leftarrow> assert_that (obj_is CLASS_MUTEX (ipc_type m));
     _ \<leftarrow> assert_that (is_system (ipc_type m));
     k1 \<leftarrow> ipc_list_resume_all (Waiting i) k;
     Some (RT_EOK, m\<lparr>ipc_type := 0\<rparr>, k1)
   }"

definition rt_mutex_create :: "nat option \<Rightarrow> u8 \<Rightarrow> kernel \<Rightarrow> ((nat \<times> mutex) option \<times> kernel) option" where
  "rt_mutex_create object flag k = do {
     _ \<leftarrow> not_in_interrupt k;
     Some (case object of
       None \<Rightarrow> (None, k)
     | Some i \<Rightarrow> (Some (i, new_mutex CLASS_MUTEX), ipc_object_init (Waiting i) k))
   }"

definition rt_mutex_delete :: "nat \<Rightarrow> mutex \<Rightarrow> kernel \<Rightarrow> (int \<times> mutex \<times> kernel) option" where
  "rt_mutex_delete i m k = do {
     _ \<leftarrow> not_in_interrupt k;
     _ \<leftarrow> assert_that (obj_is CLASS_MUTEX (ipc_type m));
     _ \<leftarrow> assert_that (\<not> is_system (ipc_type m));
     k1 \<leftarrow> ipc_list_resume_all (Waiting i) k;
     Some (RT_EOK, m\<lparr>ipc_type := 0\<rparr>, k1)
   }"

text \<open>\<open>rt_thread_control(owner, RT_THREAD_CTRL_CHANGE_PRIORITY, &priority)\<close>; the pointer to the
  owner is not checked.\<close>

definition owner_priority :: "nat \<Rightarrow> nat \<Rightarrow> kernel \<Rightarrow> kernel option" where
  "owner_priority t p k = map_option snd (rt_thread_control t (ChangePriority (of_nat p)) k)"

definition rt_mutex_take :: "nat \<Rightarrow> mutex \<Rightarrow> int \<Rightarrow> kernel \<Rightarrow> (int outcome \<times> mutex \<times> kernel) option" where
  "rt_mutex_take i m time k = do {
     _ \<leftarrow> in_thread_context k;
     _ \<leftarrow> assert_that (obj_is CLASS_MUTEX (ipc_type m));
     t \<leftarrow> rt_thread_self k;
     let k0 = set_error t RT_EOK k;
     if mtx_owner m = Some t
     then if mtx_hold m < RT_MUTEX_HOLD_MAX then Some (Done RT_EOK, m\<lparr>mtx_hold := mtx_hold m + 1\<rparr>, k0)
          else Some (Done (- RT_EFULL), m, k0)
     else if mtx_value m > 0
     then let m1 = m\<lparr>mtx_value := mtx_value m - 1, mtx_owner := Some t, original_priority := current_priority (threads k0 t)\<rparr>
          in if mtx_hold m < RT_MUTEX_HOLD_MAX then Some (Done RT_EOK, m1\<lparr>mtx_hold := mtx_hold m + 1\<rparr>, k0)
             else Some (Done (- RT_EFULL), m1, k0)
     else if time = 0 then Some (Done (- RT_ETIMEOUT), m, set_error t (- RT_ETIMEOUT) k0)
     else do {
       owner \<leftarrow> mtx_owner m;
       k1 \<leftarrow> (if current_priority (threads k0 t) < current_priority (threads k0 owner)
             then owner_priority owner (current_priority (threads k0 t)) k0
             else Some k0);
       k2 \<leftarrow> ipc_block (Waiting i) t (ipc_flag m) time k1;
       Some (Blocked, m, k2)
     }
   }"

definition mutex_take_return :: "nat \<Rightarrow> kernel \<Rightarrow> int" where
  "mutex_take_return t k = (if th_error (threads k t) \<noteq> RT_EOK then th_error (threads k t) else RT_EOK)"

definition rt_mutex_trytake :: "nat \<Rightarrow> mutex \<Rightarrow> kernel \<Rightarrow> (int outcome \<times> mutex \<times> kernel) option" where
  "rt_mutex_trytake i m k = rt_mutex_take i m 0 k"

definition rt_mutex_release :: "nat \<Rightarrow> mutex \<Rightarrow> kernel \<Rightarrow> (int \<times> mutex \<times> kernel) option" where
  "rt_mutex_release i m k = do {
     _ \<leftarrow> assert_that (obj_is CLASS_MUTEX (ipc_type m));
     _ \<leftarrow> in_thread_context k;
     t \<leftarrow> rt_thread_self k;
     if mtx_owner m \<noteq> Some t then Some (- RT_ERROR, m, set_error t (- RT_ERROR) k)
     else let m1 = m\<lparr>mtx_hold := mtx_hold m - 1\<rparr>
     in if mtx_hold m1 \<noteq> 0 then Some (RT_EOK, m1, k)
     else do {
       k1 \<leftarrow> (if original_priority m1 \<noteq> current_priority (threads k t)
             then owner_priority t (original_priority m1) k
             else Some k);
       (case tlists k1 (Waiting i) of
          x # _ \<Rightarrow>
            let m2 = m1\<lparr>mtx_owner := Some x, original_priority := current_priority (threads k1 x)\<rparr>
            in if mtx_hold m2 < RT_MUTEX_HOLD_MAX
               then do {
                 k2 \<leftarrow> ipc_list_resume (Waiting i) k1;
                 k3 \<leftarrow> rt_schedule k2;
                 Some (RT_EOK, m2\<lparr>mtx_hold := mtx_hold m2 + 1\<rparr>, k3)
               }
               else Some (- RT_EFULL, m2, k1)
        | [] \<Rightarrow>
            if mtx_value m1 < RT_MUTEX_VALUE_MAX
            then Some (RT_EOK, m1\<lparr>mtx_value := mtx_value m1 + 1, mtx_owner := None, original_priority := 0xff\<rparr>, k1)
            else Some (- RT_EFULL, m1, k1))
     }
   }"

definition rt_mutex_control :: "mutex \<Rightarrow> ipc_cmd \<Rightarrow> int option" where
  "rt_mutex_control m cmd = map_option (\<lambda>_. - RT_ERROR) (assert_that (obj_is CLASS_MUTEX (ipc_type m)))"

section \<open>The invariant\<close>

text \<open>A free mutex has no waiting threads; a held one has a live owner that does not wait for it and whose
  priority to go back to is a valid one.\<close>

definition mutex_ok :: "nat \<Rightarrow> mutex \<Rightarrow> kernel \<Rightarrow> bool" where
  "mutex_ok i m k \<longleftrightarrow> obj_is CLASS_MUTEX (ipc_type m) \<and> ipc_flag m = RT_IPC_FLAG_PRIO \<and>
     (case mtx_owner m of
        None \<Rightarrow> mtx_value m = 1 \<and> mtx_hold m = 0 \<and> tlists k (Waiting i) = []
      | Some t \<Rightarrow> mtx_value m = 0 \<and> mtx_hold m \<noteq> 0 \<and> live k t \<and> t \<notin> set (tlists k (Waiting i)) \<and>
          original_priority m < RT_THREAD_PRIORITY_MAX)"

lemma mutex_okD:
  "mutex_ok i m k \<Longrightarrow> obj_is CLASS_MUTEX (ipc_type m)" "mutex_ok i m k \<Longrightarrow> ipc_flag m = RT_IPC_FLAG_PRIO"
  "mutex_ok i m k \<Longrightarrow> mtx_owner m = None \<Longrightarrow> mtx_value m = 1 \<and> mtx_hold m = 0 \<and> tlists k (Waiting i) = []"
  "mutex_ok i m k \<Longrightarrow> mtx_owner m = Some t \<Longrightarrow> mtx_value m = 0 \<and> mtx_hold m \<noteq> 0 \<and> live k t \<and> t \<notin> set (tlists k (Waiting i)) \<and>
          original_priority m < RT_THREAD_PRIORITY_MAX"
  by (simp_all add: mutex_ok_def)

lemma mutex_ok_mono:
  "mutex_ok i m k \<Longrightarrow> set (tlists k' (Waiting i)) \<subseteq> set (tlists k (Waiting i)) \<Longrightarrow> (\<And>x. live k' x = live k x) \<Longrightarrow> mutex_ok i m k'"
  by (auto simp: mutex_ok_def split: option.splits)

text \<open>The mutex as its users see it: owner, depth and queue.\<close>

definition mutex_abs :: "nat \<Rightarrow> mutex \<Rightarrow> kernel \<Rightarrow> nat option \<times> nat \<times> nat list" where
  "mutex_abs i m k = (mtx_owner m, unat (mtx_hold m), tlists k (Waiting i))"

text \<open>The owner is at least as urgent as every waiting thread, and the most urgent one is first.\<close>

definition inherits :: "nat \<Rightarrow> mutex \<Rightarrow> kernel \<Rightarrow> bool" where
  "inherits i m k \<longleftrightarrow> sorted (map (\<lambda>x. current_priority (threads k x)) (tlists k (Waiting i))) \<and>
     (\<forall>t. mtx_owner m = Some t \<longrightarrow> (\<forall>x \<in> set (tlists k (Waiting i)). current_priority (threads k t) \<le> current_priority (threads k x)))"

section \<open>Raising and restoring the priority of the owner\<close>

lemma owner_priority_spec:
  assumes kinv: "kinv b k" and lv: "live k t" and p: "p < RT_THREAD_PRIORITY_MAX"
  obtains k' where "owner_priority t p k = Some k'" "kinv b k'" "ipc_frame {} {} k k'" "current_thread k' = current_thread k"
    "\<And>x. current_priority (threads k' x) = (if x = t then p else current_priority (threads k x))"
    "\<And>x. th_error (threads k' x) = th_error (threads k x)"
    "\<And>x. state_of k' x = RT_THREAD_SUSPEND \<longleftrightarrow> state_of k x = RT_THREAD_SUSPEND"
    "\<And>x. state_of k x = RT_THREAD_RUNNING \<Longrightarrow> state_of k' x = RT_THREAD_RUNNING"
    "\<And>l. wait_list l \<Longrightarrow> tlists k' l = tlists k l" "timers k' = timers k" "tmlists k' = tmlists k" "interrupt_nest k' = interrupt_nest k"
proof -
  obtain k' where k': "rt_thread_control t (ChangePriority (of_nat p)) k = Some (RT_EOK, k')" "kinv b k'"
    "current_thread k' = current_thread k" "timers k' = timers k" "tmlists k' = tmlists k" "tick k' = tick k"
    "lock_nest k' = lock_nest k" "interrupt_nest k' = interrupt_nest k" "soft_busy k' = soft_busy k"
    "\<And>x. x \<noteq> t \<Longrightarrow> threads k' x = threads k x" "current_priority (threads k' t) = p" "th_error (threads k' t) = th_error (threads k t)"
    "event_set (threads k' t) = event_set (threads k t)" "event_info (threads k' t) = event_info (threads k t)"
    "live k' t" "state_of k' t = RT_THREAD_SUSPEND \<longleftrightarrow> state_of k t = RT_THREAD_SUSPEND"
    "state_of k t = RT_THREAD_RUNNING \<Longrightarrow> state_of k' t = RT_THREAD_RUNNING"
    "\<And>i. tlists k' (Waiting i) = tlists k (Waiting i)" "\<And>i. tlists k' (Senders i) = tlists k (Senders i)"
    by (rule change_priority_spec [OF kinv lv p]) blast
  have run: "owner_priority t p k = Some k'" by (simp add: owner_priority_def k'(1))
  have w: "tlists k' l = tlists k l" if "wait_list l" for l using that k'(18,19) by (auto simp: wait_list_def)
  have lx: "live k' x = live k x" for x using k'(15) lv k'(10) [of x] by (cases "x = t") (simp_all add: live_def)
  have ev: "event_set (threads k' x) = event_set (threads k x)" "event_info (threads k' x) = event_info (threads k x)"
    "th_error (threads k' x) = th_error (threads k x)" "state_of k' x = RT_THREAD_SUSPEND \<longleftrightarrow> state_of k x = RT_THREAD_SUSPEND"
    "current_priority (threads k' x) = (if x = t then p else current_priority (threads k x))" for x
    using k'(10) [of x] k'(11-14,16) by (cases "x = t"; simp)+
  have sr: "state_of k' x = RT_THREAD_RUNNING" if "state_of k x = RT_THREAD_RUNNING" for x
    using k'(10) [of x] k'(17) that by (cases "x = t") simp_all
  have f: "ipc_frame {} {} k k'" unfolding ipc_frame_def using lx w ev k'(4-9) by auto
  show thesis by (rule that [OF run k'(2) f k'(3) ev(5,3,4) sr w k'(4,5,8)])
qed

lemma priority_bound: "kinv b k \<Longrightarrow> live k t \<Longrightarrow> current_priority (threads k t) < RT_THREAD_PRIORITY_MAX"
  using sched_invD(10) [OF kinvD(1), of b k t] by (auto simp: live_def prio_ok_def mask_of_def split: if_splits)

text \<open>The part of \<open>rt_mutex_take\<close> that waits: the owner inherits the priority, then the thread blocks.\<close>

lemma mutex_block_spec:
  assumes kinv: "kinv b k" and b: "b \<le> 1" and ok: "mutex_ok i m k" and r: "runs t k" and o: "mtx_owner m = Some h" "h \<noteq> t"
    and time: "time \<noteq> 0" "time < 2 ^ 31 - 1"
  obtains k' where "rt_mutex_take i m time k = Some (Blocked, m, k')" "kinv b k'" "mutex_ok i m k'"
    "ipc_frame {Waiting i} {} k k'" "current_thread k' \<noteq> None" "state_of k' t = RT_THREAD_SUSPEND" "th_error (threads k' t) = RT_EOK"
    "tlists k' (Waiting i) = insert_prio (\<lambda>x. current_priority (threads k' x)) t (tlists k (Waiting i))"
    "\<And>x. current_priority (threads k' x) =
       (if x = h then min (current_priority (threads k h)) (current_priority (threads k t)) else current_priority (threads k x))"
    "time > 0 \<Longrightarrow> ThreadTimer t \<in> set (tmlists k' HardList) \<and> timeout_tick (timers k' (ThreadTimer t)) = tick k + word_of_int time"
proof -
  note m = mutex_okD(4) [OF ok o(1)]
  have lt: "live k t" using r by (simp add: runs_def live_def)
  define k0 where "k0 = set_error t RT_EOK k"
  have k0: "kinv b k0" unfolding k0_def by (rule set_error_kinv [OF kinv])
  have r0: "current_thread k0 = Some t" "state_of k0 t = RT_THREAD_RUNNING" "live k0 h" using r m by (simp_all add: runs_def k0_def)
  have p: "current_priority (threads k0 t) < RT_THREAD_PRIORITY_MAX" using priority_bound [OF kinv lt] by (simp add: k0_def)
  obtain k1 where k1: "(if current_priority (threads k0 t) < current_priority (threads k0 h)
       then owner_priority h (current_priority (threads k0 t)) k0 else Some k0) = Some k1"
    "kinv b k1" "ipc_frame {} {} k0 k1" "current_thread k1 = Some t" "state_of k1 t = RT_THREAD_RUNNING"
    "\<And>x. current_priority (threads k1 x) =
       (if x = h then min (current_priority (threads k h)) (current_priority (threads k t)) else current_priority (threads k x))"
    "\<And>x. th_error (threads k1 x) = th_error (threads k0 x)" "\<And>l. wait_list l \<Longrightarrow> tlists k1 l = tlists k l"
  proof (cases "current_priority (threads k0 t) < current_priority (threads k0 h)")
    case True
    obtain k1 where "owner_priority h (current_priority (threads k0 t)) k0 = Some k1" "kinv b k1" "ipc_frame {} {} k0 k1"
      "current_thread k1 = current_thread k0"
      "\<And>x. current_priority (threads k1 x) = (if x = h then current_priority (threads k0 t) else current_priority (threads k0 x))"
      "\<And>x. th_error (threads k1 x) = th_error (threads k0 x)"
      "\<And>x. state_of k0 x = RT_THREAD_RUNNING \<Longrightarrow> state_of k1 x = RT_THREAD_RUNNING"
      "\<And>l. wait_list l \<Longrightarrow> tlists k1 l = tlists k0 l"
      by (rule owner_priority_spec [OF k0 r0(3) p]) blast
    with True r0 show thesis by (intro that [of k1]) (auto simp: k0_def)
  next
    case False
    then show thesis using k0 r0 by (intro that [of k0]) (simp_all add: k0_def)
  qed
  have fl: "ipc_flag m \<in> {RT_IPC_FLAG_FIFO, RT_IPC_FLAG_PRIO}" using mutex_okD(2) [OF ok] by simp
  obtain k' where k': "ipc_block (Waiting i) t (ipc_flag m) time k1 = Some k'" "kinv b k'" "ipc_frame {Waiting i} {} k1 k'"
    "current_thread k' \<noteq> None"
    "tlists k' (Waiting i) = enqueue (ipc_flag m) (\<lambda>x. current_priority (threads k1 x)) t (tlists k1 (Waiting i))"
    "state_of k' t = RT_THREAD_SUSPEND" "\<And>x. th_error (threads k' x) = th_error (threads k1 x)"
    "\<And>x. current_priority (threads k' x) = current_priority (threads k1 x)"
    "time > 0 \<Longrightarrow> ThreadTimer t \<in> set (tmlists k' HardList) \<and> timeout_tick (timers k' (ThreadTimer t)) = tick k1 + word_of_int time"
    by (rule block_frame [OF k1(2) b k1(4,5) wait_list_simps(1) fl time(2)]) blast
  have run: "rt_mutex_take i m time k = Some (Blocked, m, k')"
    using mutex_okD(1) [OF ok] m o time(1) runs_context [OF r] k1(1) k'(1) by (simp add: rt_mutex_take_def Let_def k0_def [symmetric] split: if_splits)
  have f: "ipc_frame {Waiting i} {} k k'"
    by (rule ipc_frame_trans [OF _ ipc_frame_trans [OF ipc_frame_mono [OF k1(3)] k'(3)]]) (auto simp: k0_def)
  have l': "tlists k' (Waiting i) = insert_prio (\<lambda>x. current_priority (threads k' x)) t (tlists k (Waiting i))"
    using k'(5) by (simp add: k'(8) k1(8) enqueue_def mutex_okD(2) [OF ok])
  have ok': "mutex_ok i m k'"
    using mutex_okD(1,2) [OF ok] m o ipc_frameD(4) [OF f] by (simp add: mutex_ok_def l')
  have tk: "tick k1 = tick k" using ipc_frameD(1) [OF k1(3)] by (simp add: k0_def)
  show thesis
    by (rule that [OF run k'(2) ok' f k'(4,6) _ l']) (use k'(7,8,9) k1(6,7) in \<open>simp_all add: k0_def tk\<close>)
qed

lemma hold_Suc: "h < RT_MUTEX_HOLD_MAX \<Longrightarrow> unat (h + 1) = unat h + 1"
  by (simp add: word_less_nat_alt unat_word_ariths)

lemma mutex_take_spec:
  assumes kinv: "kinv b k" and b: "b \<le> 1" and ok: "mutex_ok i m k" and r: "runs t k" and time: "time < 2 ^ 31 - 1"
  obtains o' m' k' where "rt_mutex_take i m time k = Some (o', m', k')" "kinv b k'" "mutex_ok i m' k'"
    "ipc_frame {Waiting i} {} k k'" "current_thread k' \<noteq> None"
proof -
  have lt: "live k t" using r by (simp add: runs_def live_def)
  have e: "kinv b (set_error t c k)" for c by (rule set_error_kinv [OF kinv])
  note ty = mutex_okD(1) [OF ok]
  note c = runs_context [OF r]
  have cur: "current_thread (set_error t c k) \<noteq> None" for c using r by (simp add: runs_def)
  consider (own) "mtx_owner m = Some t" | (free) "mtx_owner m = None" | (other) h where "mtx_owner m = Some h" "h \<noteq> t"
    by (cases "mtx_owner m") auto
  then show thesis
  proof cases
    case own
    note mo = mutex_okD(4) [OF ok own]
    show thesis
    proof (cases "mtx_hold m < RT_MUTEX_HOLD_MAX")
      case True
      have "mtx_hold m + 1 \<noteq> 0" using hold_Suc [OF True] by (simp add: unat_eq_0 [symmetric])
      then have ok': "mutex_ok i (m\<lparr>mtx_hold := mtx_hold m + 1\<rparr>) (set_error t 0 k)"
        using own mo ok by (simp add: mutex_ok_def)
      show thesis
        by (rule that [OF _ e ok' _ cur]) (use True own ty c in \<open>simp_all add: rt_mutex_take_def\<close>)
    next
      case False
      have ok': "mutex_ok i m (set_error t 0 k)" using ok by (simp add: mutex_ok_def split: option.splits)
      show thesis
        by (rule that [OF _ e ok' _ cur]) (use False own ty c in \<open>simp_all add: rt_mutex_take_def\<close>)
    qed
  next
    case free
    note mo = mutex_okD(3) [OF ok free]
    have p: "current_priority (threads k t) < RT_THREAD_PRIORITY_MAX" by (rule priority_bound [OF kinv lt])
    then have ok': "mutex_ok i (m\<lparr>mtx_value := 0, mtx_owner := Some t, original_priority := current_priority (threads k t), mtx_hold := 1\<rparr>) (set_error t 0 k)"
      using mo ty lt mutex_okD(2) [OF ok] by (simp add: mutex_ok_def)
    show thesis
      by (rule that [OF _ e ok' _ cur]) (use free mo ty c in \<open>simp_all add: rt_mutex_take_def Let_def\<close>)
  next
    case (other h)
    note mo = mutex_okD(4) [OF ok other(1)]
    show thesis
    proof (cases "time = 0")
      case True
      have ok': "mutex_ok i m (set_error t (- RT_ETIMEOUT) (set_error t 0 k))" using ok by (simp add: mutex_ok_def split: option.splits)
      have e': "kinv b (set_error t (- RT_ETIMEOUT) (set_error t 0 k))" by (rule set_error_kinv [OF e])
      show thesis
        by (rule that [OF _ e' ok']) (use True other mo ty c r in \<open>auto simp: rt_mutex_take_def runs_def ipc_frame_trans [OF set_error_frame set_error_frame]\<close>)
    next
      case False
      show thesis by (rule mutex_block_spec [OF kinv b ok r other False time]) (rule that; assumption)
    qed
  qed
qed

section \<open>Releasing\<close>

lemma wait_unlinked:
  assumes "kinv b k" "t \<in> set (tlists k l)" "wait_list l"
  shows "state_of k t = RT_THREAD_SUSPEND"
  using waiting_suspended [OF assms(1,3,2)] .

text \<open>The release that gives the mutex up: the priority of the owner is restored, then the first
  waiting thread gets the mutex, or it is free.\<close>

lemma mutex_release_last:
  assumes kinv: "kinv b k" and ok: "mutex_ok i m k" and r: "runs t k" and o: "mtx_owner m = Some t" "mtx_hold m = 1"
  obtains m' k' where "rt_mutex_release i m k = Some (RT_EOK, m', k')" "kinv b k'" "mutex_ok i m' k'"
    "ipc_frame {Waiting i} {} k k'" "current_thread k' \<noteq> None"
    "mutex_abs i m' k' = (case tlists k (Waiting i) of [] \<Rightarrow> (None, 0, []) | w # ws \<Rightarrow> (Some w, 1, ws))"
    "\<And>x. current_priority (threads k' x) = (if x = t then original_priority m else current_priority (threads k x))"
    "\<And>x. th_error (threads k' x) = th_error (threads k x)"
    "\<And>x. state_of k' x = RT_THREAD_SUSPEND \<longleftrightarrow> state_of k x = RT_THREAD_SUSPEND \<and> x \<notin> set (take 1 (tlists k (Waiting i)))"
proof -
  note ty = mutex_okD(1,2) [OF ok]
  note mo = mutex_okD(4) [OF ok o(1)]
  have lt: "live k t" using r by (simp add: runs_def live_def)
  note c = runs_context [OF r]
  define m1 where "m1 = m\<lparr>mtx_hold := 0\<rparr>"
  obtain k1 where k1: "(if original_priority m \<noteq> current_priority (threads k t) then owner_priority t (original_priority m) k else Some k) = Some k1"
    "kinv b k1" "ipc_frame {} {} k k1" "current_thread k1 = Some t"
    "\<And>x. current_priority (threads k1 x) = (if x = t then original_priority m else current_priority (threads k x))"
    "\<And>x. th_error (threads k1 x) = th_error (threads k x)"
    "\<And>x. state_of k1 x = RT_THREAD_SUSPEND \<longleftrightarrow> state_of k x = RT_THREAD_SUSPEND"
    "\<And>l. wait_list l \<Longrightarrow> tlists k1 l = tlists k l"
  proof (cases "original_priority m \<noteq> current_priority (threads k t)")
    case True
    obtain k1 where "owner_priority t (original_priority m) k = Some k1" "kinv b k1" "ipc_frame {} {} k k1" "current_thread k1 = current_thread k"
      "\<And>x. current_priority (threads k1 x) = (if x = t then original_priority m else current_priority (threads k x))"
      "\<And>x. th_error (threads k1 x) = th_error (threads k x)"
      "\<And>x. state_of k1 x = RT_THREAD_SUSPEND \<longleftrightarrow> state_of k x = RT_THREAD_SUSPEND"
      "\<And>l. wait_list l \<Longrightarrow> tlists k1 l = tlists k l"
      by (rule owner_priority_spec [OF kinv lt, of "original_priority m"]) (use mo in blast, blast)
    with True r show thesis by (intro that [of k1]) (simp_all add: runs_def)
  next
    case False
    then show thesis using kinv r by (intro that [of k]) (simp_all add: runs_def)
  qed
  have l1: "tlists k1 (Waiting i) = tlists k (Waiting i)" by (simp add: k1(8))
  have lx1: "live k1 x = live k x" for x by (rule ipc_frameD(4) [OF k1(3)])
  have f1: "ipc_frame {Waiting i} {} k k1" by (rule ipc_frame_mono [OF k1(3)]) auto
  show thesis
  proof (cases "tlists k (Waiting i)")
    case Nil
    define m' where "m' = m1\<lparr>mtx_value := 1, mtx_owner := None, original_priority := 0xff\<rparr>"
    have run: "rt_mutex_release i m k = Some (RT_EOK, m', k1)"
      using ty c o mo k1(1) l1 Nil by (simp add: rt_mutex_release_def m'_def m1_def Let_def split: if_splits)
    have ok': "mutex_ok i m' k1" using ty Nil l1 by (simp add: mutex_ok_def m'_def m1_def)
    show thesis
      by (rule that [OF run k1(2) ok' f1 _ _ k1(5,6)]) (use k1(4,7) Nil l1 in \<open>simp_all add: mutex_abs_def m'_def m1_def\<close>)
  next
    case (Cons w ws)
    have cur: "current_thread k1 \<noteq> None" by (simp add: k1(4))
    obtain k' where k': "wake_one (Waiting i) k1 = Some k'" "kinv b k'" "ipc_frame {Waiting i} {} k1 k'" "current_thread k' \<noteq> None"
      "tlists k' (Waiting i) = tl (tlists k1 (Waiting i))" "\<And>x. th_error (threads k' x) = th_error (threads k1 x)"
      "\<And>x. current_priority (threads k' x) = current_priority (threads k1 x)"
      "\<And>x. state_of k' x = RT_THREAD_SUSPEND \<longleftrightarrow> state_of k1 x = RT_THREAD_SUSPEND \<and> x \<notin> set (take 1 (tlists k1 (Waiting i)))"
      by (rule wake_one_spec [OF k1(2) cur wait_list_simps(1)]) blast
    define m' where "m' = m1\<lparr>mtx_owner := Some w, original_priority := current_priority (threads k1 w), mtx_hold := 1\<rparr>"
    have "Option.bind (ipc_list_resume (Waiting i) k1) rt_schedule = Some k'"
      using k'(1) by (simp add: wake_one_def l1 Cons)
    then obtain k2 where k2: "ipc_list_resume (Waiting i) k1 = Some k2" "rt_schedule k2 = Some k'"
      by (cases "ipc_list_resume (Waiting i) k1") auto
    have run: "rt_mutex_release i m k = Some (RT_EOK, m', k')"
      using ty c o mo k1(1) k2 by (simp add: rt_mutex_release_def m'_def m1_def Let_def l1 Cons split: if_splits)
    have sw: "state_of k1 w = RT_THREAD_SUSPEND" by (rule waiting_suspended [OF k1(2) wait_list_simps(1) [of i]]) (simp add: l1 Cons)
    then have lw1: "live k1 w" by (simp add: live_def)
    then have lw: "live k' w" by (simp add: ipc_frameD(4) [OF k'(3)])
    have "distinct (tlists k1 (Waiting i))" by (rule sched_invD(2) [OF kinvD(1) [OF k1(2)]])
    then have nw: "w \<notin> set ws" by (simp add: l1 Cons)
    have ok': "mutex_ok i m' k'"
      using ty lw nw mo priority_bound [OF k1(2) lw1] by (simp add: mutex_ok_def m'_def m1_def k'(5) l1 Cons)
    show thesis
      by (rule that [OF run k'(2) ok' ipc_frame_trans [OF f1 k'(3)] k'(4)])
        (simp_all add: mutex_abs_def m'_def m1_def k'(5,6,7,8) k1(5,6,7) l1 Cons)
  qed
qed

lemma mutex_release_spec:
  assumes kinv: "kinv b k" and ok: "mutex_ok i m k" and r: "runs t k"
  obtains e m' k' where "rt_mutex_release i m k = Some (e, m', k')" "kinv b k'" "mutex_ok i m' k'"
    "ipc_frame {Waiting i} {} k k'" "current_thread k' \<noteq> None"
proof -
  note ty = mutex_okD(1) [OF ok]
  note c = runs_context [OF r]
  consider (not) "mtx_owner m \<noteq> Some t" | (deep) "mtx_owner m = Some t" "mtx_hold m \<noteq> 1" | (last) "mtx_owner m = Some t" "mtx_hold m = 1" by blast
  then show thesis
  proof cases
    case not
    have ok': "mutex_ok i m (set_error t (- RT_ERROR) k)" using ok by (simp add: mutex_ok_def split: option.splits)
    show thesis
      by (rule that [OF _ set_error_kinv [OF kinv] ok']) (use not ty c r in \<open>simp_all add: rt_mutex_release_def runs_def\<close>)
  next
    case deep
    then have "mtx_hold m - 1 \<noteq> 0" by simp
    moreover from this have ok': "mutex_ok i (m\<lparr>mtx_hold := mtx_hold m - 1\<rparr>) k" using ok deep by (simp add: mutex_ok_def)
    ultimately show thesis
      by (intro that [OF _ kinv ok']) (use deep ty c r in \<open>simp_all add: rt_mutex_release_def runs_def\<close>)
  next
    case last
    show thesis by (rule mutex_release_last [OF kinv ok r last]) (rule that; assumption)
  qed
qed

section \<open>The contract of a mutex\<close>

text \<open>A recursive lock with a queue, over the owner, the depth and the waiting threads.\<close>

definition spec_lock :: "(nat \<Rightarrow> nat) \<Rightarrow> nat \<Rightarrow> int \<Rightarrow> nat option \<times> nat \<times> nat list \<Rightarrow> int outcome \<times> nat option \<times> nat \<times> nat list" where
  "spec_lock prio t time a =
    (case a of (own, d, q) \<Rightarrow>
       if own = Some t then if d < 255 then (Done RT_EOK, own, d + 1, q) else (Done (- RT_EFULL), own, d, q)
       else if own = None then (Done RT_EOK, Some t, 1, q)
       else if time = 0 then (Done (- RT_ETIMEOUT), own, d, q)
       else (Blocked, own, d, insert_prio prio t q))"

definition spec_unlock :: "nat \<Rightarrow> nat option \<times> nat \<times> nat list \<Rightarrow> int \<times> nat option \<times> nat \<times> nat list" where
  "spec_unlock t a =
    (case a of (own, d, q) \<Rightarrow>
       if own \<noteq> Some t then (- RT_ERROR, own, d, q)
       else if d > 1 then (RT_EOK, own, d - 1, q)
       else case q of [] \<Rightarrow> (RT_EOK, None, 0, []) | w # ws \<Rightarrow> (RT_EOK, Some w, 1, ws))"

lemma mutex_take_full:
  assumes "kinv 1 k" "mutex_ok i m k" "runs t k" "time < 2 ^ 31 - 1" "inherits i m k"
  obtains o' m' k' where "rt_mutex_take i m time k = Some (o', m', k')" "kinv 1 k'" "mutex_ok i m' k'" "ipc_frame {Waiting i} {} k k'"
    "(o', mutex_abs i m' k') = spec_lock (\<lambda>x. current_priority (threads k' x)) t time (mutex_abs i m k)" "inherits i m' k'"
    "mtx_owner m = None \<Longrightarrow> original_priority m' = current_priority (threads k t)"
proof -
  have lt: "live k t" using assms(3) by (simp add: runs_def live_def)
  note ok = assms(2) and ty = mutex_okD(1,2) [OF assms(2)]
  note c = runs_context [OF assms(3)]
  obtain o' m' k' where r: "rt_mutex_take i m time k = Some (o', m', k')" "kinv 1 k'" "mutex_ok i m' k'" "ipc_frame {Waiting i} {} k k'"
    by (rule mutex_take_spec [OF assms(1) _ ok assms(3,4)]) auto
  consider (own) "mtx_owner m = Some t" | (free) "mtx_owner m = None" | (other) h where "mtx_owner m = Some h" "h \<noteq> t"
    by (cases "mtx_owner m") auto
  then show thesis
  proof cases
    case own
    note mo = mutex_okD(4) [OF ok own]
    have k': "k' = set_error t 0 k" "m' = (if mtx_hold m < RT_MUTEX_HOLD_MAX then m\<lparr>mtx_hold := mtx_hold m + 1\<rparr> else m)"
      "o' = (if mtx_hold m < RT_MUTEX_HOLD_MAX then Done RT_EOK else Done (- RT_EFULL))"
      using r(1) own ty c by (auto simp: rt_mutex_take_def Let_def split: if_splits)
    have lt255: "unat (mtx_hold m) < 255 \<longleftrightarrow> mtx_hold m < RT_MUTEX_HOLD_MAX" by (simp add: word_less_nat_alt)
    show thesis
      by (rule that [OF r]) (use own assms(5) hold_Suc [of "mtx_hold m"] in \<open>simp_all add: k' mutex_abs_def spec_lock_def inherits_def lt255\<close>)
  next
    case free
    note mo = mutex_okD(3) [OF ok free]
    have k': "k' = set_error t 0 k" "o' = Done RT_EOK"
      "m' = m\<lparr>mtx_value := 0, mtx_owner := Some t, original_priority := current_priority (threads k t), mtx_hold := 1\<rparr>"
      using r(1) free mo ty c by (auto simp: rt_mutex_take_def Let_def split: if_splits)
    show thesis
      by (rule that [OF r]) (use free mo in \<open>simp_all add: k' mutex_abs_def spec_lock_def inherits_def\<close>)
  next
    case (other h)
    note mo = mutex_okD(4) [OF ok other(1)]
    show thesis
    proof (cases "time = 0")
      case True
      have k': "k' = set_error t (- RT_ETIMEOUT) (set_error t 0 k)" "o' = Done (- RT_ETIMEOUT)" "m' = m"
        using r(1) True other mo ty c by (auto simp: rt_mutex_take_def Let_def split: if_splits)
      show thesis
        by (rule that [OF r]) (use True other assms(5) in \<open>simp_all add: k' mutex_abs_def spec_lock_def inherits_def\<close>)
    next
      case False
      obtain k2 where k2: "rt_mutex_take i m time k = Some (Blocked, m, k2)"
        "tlists k2 (Waiting i) = insert_prio (\<lambda>x. current_priority (threads k2 x)) t (tlists k (Waiting i))"
        "\<And>x. current_priority (threads k2 x) =
           (if x = h then min (current_priority (threads k h)) (current_priority (threads k t)) else current_priority (threads k x))"
        by (rule mutex_block_spec [OF assms(1) _ ok assms(3) other False assms(4)]) auto
      have k': "o' = Blocked" "m' = m" "k' = k2" using r(1) k2(1) by auto
      have hw: "h \<notin> set (tlists k (Waiting i))" using mo by simp
      have same: "map (\<lambda>x. current_priority (threads k2 x)) (tlists k (Waiting i)) = map (\<lambda>x. current_priority (threads k x)) (tlists k (Waiting i))"
        using hw by (auto simp: k2(3))
      have "sorted (map (\<lambda>x. current_priority (threads k2 x)) (tlists k2 (Waiting i)))"
        unfolding k2(2) by (rule sorted_insert_prio, unfold same) (use assms(5) in \<open>simp add: inherits_def\<close>)
      moreover have "current_priority (threads k2 h) \<le> current_priority (threads k2 x)" if "x \<in> set (tlists k2 (Waiting i))" for x
      proof -
        have "current_priority (threads k h) \<le> current_priority (threads k x)" if "x \<in> set (tlists k (Waiting i))"
          using assms(5) that other(1) by (simp add: inherits_def)
        with \<open>x \<in> set (tlists k2 (Waiting i))\<close> show ?thesis by (auto simp: k2(2,3))
      qed
      ultimately have "inherits i m k2" using other(1) by (simp add: inherits_def)
      then show thesis
        by (intro that [OF r]) (use False other k2(2) in \<open>simp_all add: k' mutex_abs_def spec_lock_def\<close>)
    qed
  qed
qed

lemma mutex_release_full:
  assumes "kinv 1 k" "mutex_ok i m k" "runs t k" "inherits i m k"
  obtains e m' k' where "rt_mutex_release i m k = Some (e, m', k')" "kinv 1 k'" "mutex_ok i m' k'" "ipc_frame {Waiting i} {} k k'"
    "(e, mutex_abs i m' k') = spec_unlock t (mutex_abs i m k)" "inherits i m' k'"
    "mtx_owner m = Some t \<Longrightarrow> mtx_hold m = 1 \<Longrightarrow> current_priority (threads k' t) = original_priority m"
proof -
  note ok = assms(2) and ty = mutex_okD(1,2) [OF assms(2)]
  note c = runs_context [OF assms(3)]
  obtain e m' k' where r: "rt_mutex_release i m k = Some (e, m', k')" "kinv 1 k'" "mutex_ok i m' k'" "ipc_frame {Waiting i} {} k k'"
    by (rule mutex_release_spec [OF assms(1,2,3)]) blast
  consider (not) "mtx_owner m \<noteq> Some t" | (deep) "mtx_owner m = Some t" "mtx_hold m \<noteq> 1" | (last) "mtx_owner m = Some t" "mtx_hold m = 1" by blast
  then show thesis
  proof cases
    case not
    have k': "e = - RT_ERROR" "m' = m" "k' = set_error t (- RT_ERROR) k"
      using r(1) not ty c by (auto simp: rt_mutex_release_def split: if_splits)
    show thesis by (rule that [OF r]) (use not assms(4) in \<open>simp_all add: k' mutex_abs_def spec_unlock_def inherits_def\<close>)
  next
    case deep
    note mo = mutex_okD(4) [OF ok deep(1)]
    have n: "mtx_hold m - 1 \<noteq> 0" using deep by simp
    have k': "e = RT_EOK" "m' = m\<lparr>mtx_hold := mtx_hold m - 1\<rparr>" "k' = k"
      using r(1) deep n ty c by (auto simp: rt_mutex_release_def split: if_splits)
    have "unat (mtx_hold m) \<noteq> 0" "unat (mtx_hold m) \<noteq> 1" using deep(2) mo by (metis unat_0 word_unat_eq_iff, metis unat_1 word_unat_eq_iff)
    then have u: "unat (mtx_hold m - 1) = unat (mtx_hold m) - 1" "1 < unat (mtx_hold m)" using mo by (simp_all add: unat_minus_one)
    show thesis by (rule that [OF r]) (use deep u assms(4) in \<open>simp_all add: k' mutex_abs_def spec_unlock_def inherits_def\<close>)
  next
    case last
    obtain m2 k2 where k2: "rt_mutex_release i m k = Some (RT_EOK, m2, k2)"
      "mutex_abs i m2 k2 = (case tlists k (Waiting i) of [] \<Rightarrow> (None, 0, []) | w # ws \<Rightarrow> (Some w, 1, ws))"
      "\<And>x. current_priority (threads k2 x) = (if x = t then original_priority m else current_priority (threads k x))"
      by (rule mutex_release_last [OF assms(1-3) last]) blast
    have k': "e = RT_EOK" "m' = m2" "k' = k2" using r(1) k2(1) by auto
    have tw: "t \<notin> set (tlists k (Waiting i))" using mutex_okD(4) [OF ok last(1)] by simp
    have "inherits i m2 k2"
    proof (cases "tlists k (Waiting i)")
      case Nil
      with k2(2) show ?thesis by (simp add: inherits_def mutex_abs_def)
    next
      case (Cons w ws)
      then have q: "mtx_owner m2 = Some w" "tlists k2 (Waiting i) = ws" using k2(2) by (simp_all add: mutex_abs_def)
      have e: "current_priority (threads k2 x) = current_priority (threads k x)" if "x \<in> set (w # ws)" for x
        using that tw by (auto simp: k2(3) Cons)
      then have same: "map (\<lambda>x. current_priority (threads k2 x)) ws = map (\<lambda>x. current_priority (threads k x)) ws" by simp
      show ?thesis unfolding inherits_def q same using assms(4) e by (auto simp: inherits_def Cons)
    qed
    then show thesis
      by (intro that [OF r]) (use last k2(2,3) in \<open>simp_all add: k' mutex_abs_def spec_unlock_def split: list.splits\<close>)
  qed
qed

text \<open>C22: taking and releasing a mutex refine a recursive lock. In a sound kernel \<open>rt_mutex_take\<close> and
  \<open>rt_mutex_release\<close> by a running thread do not go wrong, keep the invariants of the kernel and the mutex and act on owner, depth
  and queue as the abstract lock: the owner takes it again, up to a depth of 255; a free mutex gets the
  thread as its only owner; otherwise the thread times out at once or queues by priority. A thread
  that is not the owner cannot release; the outermost release hands the mutex over to the first waiting
  thread, or frees it, and gives the releasing thread back the priority it had when it took the mutex.\<close>

theorem mutex_refines:
  assumes "kinv 1 k" "mutex_ok i m k" "inherits i m k" "runs t k" "time < 2 ^ 31 - 1"
  shows "(\<exists>o' m' k'. rt_mutex_take i m time k = Some (o', m', k') \<and>
      (o', mutex_abs i m' k') = spec_lock (\<lambda>x. current_priority (threads k' x)) t time (mutex_abs i m k) \<and>
      kinv 1 k' \<and> mutex_ok i m' k' \<and> ipc_frame {Waiting i} {} k k' \<and>
      (mtx_owner m = None \<longrightarrow> original_priority m' = current_priority (threads k t)))
    \<and> (\<exists>e m' k'. rt_mutex_release i m k = Some (e, m', k') \<and> (e, mutex_abs i m' k') = spec_unlock t (mutex_abs i m k) \<and>
      kinv 1 k' \<and> mutex_ok i m' k' \<and> ipc_frame {Waiting i} {} k k' \<and>
      (mtx_owner m = Some t \<and> mtx_hold m = 1 \<longrightarrow> current_priority (threads k' t) = original_priority m))"
proof (rule conjI, goal_cases)
  case 1
  show ?case by (rule mutex_take_full [OF assms(1,2,4,5,3)]) (intro exI conjI impI, assumption, simp_all)
next
  case 2
  show ?case by (rule mutex_release_full [OF assms(1,2,4,3)]) (intro exI conjI impI, assumption, simp_all)
qed

definition demo_mutex :: "nat option \<Rightarrow> mutex" where
  "demo_mutex own = \<lparr>ipc_type = CLASS_MUTEX, ipc_flag = RT_IPC_FLAG_PRIO, mtx_value = (if own = None then 1 else 0),
     original_priority = 5, mtx_hold = (if own = None then 0 else 1), mtx_owner = own\<rparr>"

lemma demo_mutex_ok: "mutex_ok i (demo_mutex None) four_threads" "inherits i (demo_mutex None) four_threads"
  "mutex_ok i (demo_mutex (Some 4)) four_threads" "inherits i (demo_mutex (Some 4)) four_threads"
  by (simp_all add: mutex_ok_def inherits_def demo_mutex_def obj_is_def demo_facts live_def four_threads_simps)

theorem mutex_refines_witness:
  "\<exists>m' k'. rt_mutex_take 0 (demo_mutex None) 0 four_threads = Some (Done RT_EOK, m', k') \<and> mtx_owner m' = Some 1 \<and>
    original_priority m' = 3"
  using mutex_refines [OF four_threads_inv demo_mutex_ok(1,2) demo_runs, of 0 0]
  by (auto simp: spec_lock_def mutex_abs_def demo_mutex_def four_threads_simps)



text \<open>The invariant is one of a single mutex. When a thread holds two mutexes and gives up the one it took
  before its priority was raised, it falls back to the priority of that time, although a more
  urgent thread still waits for the other one.\<close>

lemma nested_release_loses_inheritance:
  assumes "kinv 1 k" "mutex_ok i m k" "runs t k" "mtx_owner m = Some t" "mtx_hold m = 1"
    and other: "mtx_owner m2 = Some t" "x \<in> set (tlists k (Waiting j))" "j \<noteq> i" "x \<noteq> t"
      "current_priority (threads k x) < original_priority m"
  shows "\<exists>m' k'. rt_mutex_release i m k = Some (RT_EOK, m', k') \<and> x \<in> set (tlists k' (Waiting j)) \<and> \<not> inherits j m2 k'"
proof -
  obtain m' k' where r: "rt_mutex_release i m k = Some (RT_EOK, m', k')" "ipc_frame {Waiting i} {} k k'"
    "\<And>x. current_priority (threads k' x) = (if x = t then original_priority m else current_priority (threads k x))"
    by (rule mutex_release_last [OF assms(1-5)]) blast
  have "tlists k' (Waiting j) = tlists k (Waiting j)" using ipc_frameD(5) [OF r(2)] other(3) by simp
  then have "x \<in> set (tlists k' (Waiting j))" "\<not> inherits j m2 k'"
    using other by (auto simp: inherits_def r(3) not_le intro!: bexI [of _ x])
  with r(1) show ?thesis by blast
qed

section \<open>Who gets the processor\<close>

lemma owner_priority_keeps:
  assumes "kinv b k" "live k t" "p < RT_THREAD_PRIORITY_MAX" "owner_priority t p k = Some k'"
  shows "keeps k k'" "kinv b k'"
proof -
  obtain k1 where k1: "owner_priority t p k = Some k1" "kinv b k1" "ipc_frame {} {} k k1" "current_thread k1 = current_thread k"
    "\<And>x. state_of k1 x = RT_THREAD_SUSPEND \<longleftrightarrow> state_of k x = RT_THREAD_SUSPEND"
    "\<And>x. state_of k x = RT_THREAD_RUNNING \<Longrightarrow> state_of k1 x = RT_THREAD_RUNNING"
    by (rule owner_priority_spec [OF assms(1-3)]) blast
  have "awake k1 x \<longleftrightarrow> awake k x" for x
    using ipc_frameD(4) [OF k1(3), of x] k1(5) [of x] by (auto simp: awake_def live_def)
  then show "keeps k k'" "kinv b k'" using k1 assms(4) ipc_frameD(2) [OF k1(3)] by (auto simp: keeps_def)
qed

lemma mutex_take_fair:
  assumes kinv: "kinv 1 k" and ok: "mutex_ok i m k" and r: "runs t k" and time: "time < 2 ^ 31 - 1" "time \<noteq> 0 \<Longrightarrow> may_block t k"
    and run: "rt_mutex_take i m time k = Some (o', m', k')"
  shows "fair k k'"
proof -
  note cs = runs_context [OF r] mutex_okD(1) [OF ok]
  have lt: "live k t" using r by (simp add: runs_def live_def)
  have c: "fair k (set_error t c k)" "fair k (set_error t d (set_error t c k))" for c d
    by (rule fairI(1); simp add: calm_trans [OF set_error_calm set_error_calm])+
  show ?thesis
  proof (cases "mtx_owner m = None \<or> mtx_owner m = Some t \<or> time = 0")
    case True
    have "mtx_owner m = None \<Longrightarrow> 0 < mtx_value m" using mutex_okD(3) [OF ok] by simp
    then show ?thesis using True run c cs by (auto simp: rt_mutex_take_def Let_def split: if_splits)
  next
    case False
    then obtain h where h: "mtx_owner m = Some h" "h \<noteq> t" "time \<noteq> 0" by auto
    note m = mutex_okD(4) [OF ok h(1)]
    define k0 where "k0 = set_error t RT_EOK k"
    have k0: "kinv 1 k0" "live k0 h" using set_error_kinv [OF kinv] m by (simp_all add: k0_def)
    obtain k1 where k1: "(if current_priority (threads k0 t) < current_priority (threads k0 h)
       then owner_priority h (current_priority (threads k0 t)) k0 else Some k0) = Some k1"
      "ipc_block (Waiting i) t (ipc_flag m) time k1 = Some k'"
      using run m h cs by (auto simp: rt_mutex_take_def Let_def k0_def bind_eq_Some_conv split: if_splits)
    have p: "current_priority (threads k0 t) < RT_THREAD_PRIORITY_MAX" using priority_bound [OF kinv lt] by (simp add: k0_def)
    have kp: "keeps k0 k1" "kinv 1 k1"
      using k1(1) owner_priority_keeps [OF k0 p] k0(1) calm_keeps [OF calm_refl] by (auto split: if_splits)
    have k: "keeps k k1" by (rule keeps_trans [OF calm_keeps kp(1)]) (simp add: k0_def)
    have t1: "current_thread k1 = Some t" "state_of k1 t = RT_THREAD_RUNNING" using r k by (simp_all add: runs_def keeps_def)
    have fl: "ipc_flag m \<in> {RT_IPC_FLAG_FIFO, RT_IPC_FLAG_PRIO}" using mutex_okD(2) [OF ok] by simp
    have "resched {t} k1 k'" by (rule block_resched [OF kp(2) order_refl t1 wait_list_simps(1) fl time(1) k1(2)])
    then have "resched {t} k k'" by (rule keeps_resched [OF k])
    then show ?thesis by (rule fairI(3)) (use time(2) [OF h(3)] in \<open>simp_all add: may_block_def\<close>)
  qed
qed

text \<open>The release after which nobody waits any more but the priority of the running thread is lowered does not
  call the scheduler.\<close>

definition quiet_release :: "nat \<Rightarrow> mutex \<Rightarrow> kernel \<Rightarrow> bool" where
  "quiet_release i m k \<longleftrightarrow> tlists k (Waiting i) = [] \<and> mtx_hold m = 1 \<and>
     (\<exists>t. current_thread k = Some t \<and> mtx_owner m = Some t \<and> original_priority m \<noteq> current_priority (threads k t))"

lemma mutex_release_fair:
  assumes kinv: "kinv b k" and ok: "mutex_ok i m k" and r: "runs t k" and run: "rt_mutex_release i m k = Some (e, m', k')"
  shows "busy k \<Longrightarrow> busy k'" "\<not> quiet_release i m k \<Longrightarrow> fair k k'"
proof -
  note cs = runs_context [OF r] mutex_okD(1) [OF ok]
  have lt: "live k t" using r by (simp add: runs_def live_def)
  have "(keeps k k' \<or> fair k k') \<and> (\<not> quiet_release i m k \<longrightarrow> fair k k')"
  proof (cases "mtx_owner m = Some t \<and> mtx_hold m = 1")
    case False
    then have "calm k k'" using run cs by (auto simp: rt_mutex_release_def Let_def split: if_splits)
    then show ?thesis by (simp add: fairI)
  next
    case True
    then have o: "mtx_owner m = Some t" "mtx_hold m = 1" by simp_all
    note mo = mutex_okD(4) [OF ok o(1)]
    obtain k1 where k1: "(if original_priority m \<noteq> current_priority (threads k t) then owner_priority t (original_priority m) k else Some k) = Some k1"
      "case tlists k1 (Waiting i) of x # _ \<Rightarrow> (\<exists>k2. ipc_list_resume (Waiting i) k1 = Some k2 \<and> rt_schedule k2 = Some k') | [] \<Rightarrow> k' = k1"
      using run cs o mo by (auto simp: rt_mutex_release_def Let_def bind_eq_Some_conv split: if_splits list.splits)
    have kp: "keeps k k1" "kinv b k1"
      using k1(1) owner_priority_keeps [OF kinv lt] mo kinv calm_keeps [OF calm_refl] by (auto split: if_splits)
    show ?thesis
    proof (cases "tlists k1 (Waiting i) = []")
      case n: False
      then obtain k2 where k2: "ipc_list_resume (Waiting i) k1 = Some k2" "rt_schedule k2 = Some k'"
        using k1(2) by (auto split: list.splits)
      have "resched {} k k'" by (rule keeps_resched [OF kp(1) resume_list_resched [OF kp(2) wait_list_simps(1) n k2]])
      then show ?thesis using fairI(2) by simp
    next
      case e: True
      then have k': "k' = k1" using k1(2) by simp
      have "fair k k'" if "\<not> quiet_release i m k"
      proof (cases "original_priority m = current_priority (threads k t)")
        case True
        then have "k' = k" using k1(1) k' by simp
        then show ?thesis by (simp add: fairI)
      next
        case False
        have "owner_priority t (original_priority m) k = Some k1" using k1(1) False by simp
        moreover have "tlists k1 (Waiting i) = tlists k (Waiting i)" if "owner_priority t (original_priority m) k = Some k1"
          by (rule owner_priority_spec [OF kinv lt, of "original_priority m"]) (use mo that in auto)
        ultimately have "quiet_release i m k" using e o False r by (auto simp: quiet_release_def runs_def)
        then show ?thesis using that by simp
      qed
      then show ?thesis using kp(1) k' by simp
    qed
  qed
  then show "busy k \<Longrightarrow> busy k'" "\<not> quiet_release i m k \<Longrightarrow> fair k k'" using keeps_busy by (auto simp: fair_def)
qed

text \<open>In that state a ready thread of a higher priority than the restored one has to wait.\<close>

lemma quiet_release_no_schedule:
  assumes "kinv b k" "mutex_ok i m k" "runs t k" "quiet_release i m k"
  obtains m' k' where "rt_mutex_release i m k = Some (RT_EOK, m', k')" "current_thread k' = Some t" "switches k' = switches k"
    "current_priority (threads k' t) = original_priority m" "\<And>x. x \<noteq> t \<Longrightarrow> threads k' x = threads k x"
proof -
  note q = assms(4) [unfolded quiet_release_def] and cs = runs_context [OF assms(3)] mutex_okD(1) [OF assms(2)]
  have o: "mtx_owner m = Some t" "mtx_hold m = 1" "original_priority m \<noteq> current_priority (threads k t)" "tlists k (Waiting i) = []"
    using q assms(3) by (auto simp: runs_def)
  note mo = mutex_okD(4) [OF assms(2) o(1)]
  have st: "state_of k t = RT_THREAD_RUNNING" using assms(3) by (simp add: runs_def)
  then have th: "is_thread k t" by (rule running_is_thread [OF assms(1)])
  define k1 where "k1 = upd_thread t (\<lambda>th. th\<lparr>current_priority := original_priority m, number_mask := push_bit (original_priority m) 1\<rparr>) k"
  have "owner_priority t (original_priority m) k = Some k1"
    using th st mo priority_roundtrip by (simp add: owner_priority_def rt_thread_control_def set_priority_def mask_of_def k1_def)
  then show thesis
    using o mo cs assms(3) by (intro that [of "m\<lparr>mtx_hold := 0, mtx_value := 1, mtx_owner := None, original_priority := 0xff\<rparr>" k1])
      (simp_all add: rt_mutex_release_def Let_def k1_def runs_def)
qed

end
