(* ===== verification/Event.thy ===== *)
theory Event
  imports IpcBase
begin

text \<open>
  The events of \<^verbatim>\<open>rt-thread/src/ipc.c\<close>: a set of 32 flags. A receiver waits for all or for one of
  the flags of its set, and can have them cleared when it is satisfied. What it waits for is in the
  fields \<open>event_set\<close> and \<open>event_info\<close> of its thread, where the sender also leaves what was received.
\<close>

section \<open>Operations\<close>

record event = ipc_object +
  ev_set :: u32

abbreviation RT_EVENT_FLAG_AND :: u8 where "RT_EVENT_FLAG_AND \<equiv> 1"
abbreviation RT_EVENT_FLAG_OR :: u8 where "RT_EVENT_FLAG_OR \<equiv> 2"
abbreviation RT_EVENT_FLAG_CLEAR :: u8 where "RT_EVENT_FLAG_CLEAR \<equiv> 4"

definition rt_event_init :: "nat \<Rightarrow> u8 \<Rightarrow> kernel \<Rightarrow> event \<times> kernel" where
  "rt_event_init i flag k =
    (\<lparr>ipc_type = CLASS_EVENT OR CLASS_STATIC, ipc_flag = flag, ev_set = 0\<rparr>, ipc_object_init (Waiting i) k)"

definition rt_event_detach :: "nat \<Rightarrow> event \<Rightarrow> kernel \<Rightarrow> (int \<times> event \<times> kernel) option" where
  "rt_event_detach i e k = do {
     _ \<leftarrow> assert_that (obj_is CLASS_EVENT (ipc_type e));
     _ \<leftarrow> assert_that (is_system (ipc_type e));
     k1 \<leftarrow> ipc_list_resume_all (Waiting i) k;
     Some (RT_EOK, e\<lparr>ipc_type := 0\<rparr>, k1)
   }"

definition rt_event_create :: "nat option \<Rightarrow> u8 \<Rightarrow> kernel \<Rightarrow> ((nat \<times> event) option \<times> kernel) option" where
  "rt_event_create object flag k = do {
     _ \<leftarrow> not_in_interrupt k;
     Some (case object of
       None \<Rightarrow> (None, k)
     | Some i \<Rightarrow> (Some (i, \<lparr>ipc_type = CLASS_EVENT, ipc_flag = flag, ev_set = 0\<rparr>), ipc_object_init (Waiting i) k))
   }"

definition rt_event_delete :: "nat \<Rightarrow> event \<Rightarrow> kernel \<Rightarrow> (int \<times> event \<times> kernel) option" where
  "rt_event_delete i e k = do {
     _ \<leftarrow> assert_that (obj_is CLASS_EVENT (ipc_type e));
     _ \<leftarrow> assert_that (\<not> is_system (ipc_type e));
     _ \<leftarrow> not_in_interrupt k;
     k1 \<leftarrow> ipc_list_resume_all (Waiting i) k;
     Some (RT_EOK, e\<lparr>ipc_type := 0\<rparr>, k1)
   }"

text \<open>Whether the flags \<open>cur\<close> satisfy a thread that waits for \<open>wanted\<close> with the options \<open>info\<close>, and
  the set the sender leaves for it; none when the options name neither way of waiting.\<close>

definition event_match :: "u8 \<Rightarrow> u32 \<Rightarrow> u32 \<Rightarrow> (bool \<times> u32) option" where
  "event_match info wanted cur =
    (if info AND RT_EVENT_FLAG_AND \<noteq> 0 then Some (wanted AND cur = wanted, wanted)
     else if info AND RT_EVENT_FLAG_OR \<noteq> 0
     then Some (if wanted AND cur \<noteq> 0 then (True, wanted AND cur) else (False, wanted))
     else None)"

text \<open>The walk of the sender along the suspend list.\<close>

fun event_send_loop :: "nat list \<Rightarrow> event \<Rightarrow> bool \<Rightarrow> kernel \<Rightarrow> (int \<times> event \<times> bool \<times> kernel) option" where
  "event_send_loop [] e need_schedule k = Some (RT_EOK, e, need_schedule, k)"
| "event_send_loop (t # ts) e need_schedule k =
    (case event_match (event_info (threads k t)) (event_set (threads k t)) (ev_set e) of
       None \<Rightarrow> Some (- RT_EINVAL, e, need_schedule, k)
     | Some (False, _) \<Rightarrow> event_send_loop ts e need_schedule k
     | Some (True, got) \<Rightarrow>
         let k1 = upd_thread t (\<lambda>th. th\<lparr>event_set := got\<rparr>) k;
             e1 = (if event_info (threads k1 t) AND RT_EVENT_FLAG_CLEAR \<noteq> 0
                   then e\<lparr>ev_set := ev_set e AND NOT (event_set (threads k1 t))\<rparr> else e)
         in Option.bind (rt_thread_resume t k1) (\<lambda>r. event_send_loop ts e1 True (snd r)))"

definition rt_event_send :: "nat \<Rightarrow> event \<Rightarrow> u32 \<Rightarrow> kernel \<Rightarrow> (int \<times> event \<times> kernel) option" where
  "rt_event_send i e flags k = do {
     _ \<leftarrow> assert_that (obj_is CLASS_EVENT (ipc_type e));
     if flags = 0 then Some (- RT_ERROR, e, k)
     else do {
       (err, e1, need_schedule, k1) \<leftarrow> event_send_loop (tlists k (Waiting i)) (e\<lparr>ev_set := ev_set e OR flags\<rparr>) False k;
       if err \<noteq> RT_EOK then Some (err, e1, k1)
       else do {
         k2 \<leftarrow> (if need_schedule then rt_schedule k1 else Some k1);
         Some (RT_EOK, e1, k2)
       }
     }
   }"

text \<open>The result of a receive is the error and what is stored through \<open>recved\<close>, if anything.\<close>

definition rt_event_recv ::
  "nat \<Rightarrow> event \<Rightarrow> u32 \<Rightarrow> u8 \<Rightarrow> int \<Rightarrow> kernel \<Rightarrow> ((int \<times> u32 option) outcome \<times> event \<times> kernel) option" where
  "rt_event_recv i e flags options timeout k = do {
     _ \<leftarrow> in_thread_context k;
     _ \<leftarrow> assert_that (obj_is CLASS_EVENT (ipc_type e));
     if flags = 0 then Some (Done (- RT_ERROR, None), e, k)
     else do {
       t \<leftarrow> rt_thread_self k;
       let k0 = set_error t RT_EOK k;
       status \<leftarrow> (if options AND RT_EVENT_FLAG_AND \<noteq> 0 then Some (ev_set e AND flags = flags)
                 else if options AND RT_EVENT_FLAG_OR \<noteq> 0 then Some (ev_set e AND flags \<noteq> 0)
                 else None);
       if status
       then let got = ev_set e AND flags
            in Some (Done (RT_EOK, Some got),
                 if options AND RT_EVENT_FLAG_CLEAR \<noteq> 0 then e\<lparr>ev_set := ev_set e AND NOT flags\<rparr> else e,
                 upd_thread t (\<lambda>th. th\<lparr>event_set := got, event_info := options\<rparr>) k0)
       else if timeout = 0 then Some (Done (- RT_ETIMEOUT, None), e, set_error t (- RT_ETIMEOUT) k0)
       else do {
         k1 \<leftarrow> ipc_block (Waiting i) t (ipc_flag e) timeout
               (upd_thread t (\<lambda>th. th\<lparr>event_set := flags, event_info := options\<rparr>) k0);
         Some (Blocked, e, k1)
       }
     }
   }"

definition event_recv_return :: "nat \<Rightarrow> kernel \<Rightarrow> int \<times> u32 option" where
  "event_recv_return t k =
    (if th_error (threads k t) \<noteq> RT_EOK then (th_error (threads k t), None)
     else (th_error (threads k t), Some (event_set (threads k t))))"

definition rt_event_control :: "nat \<Rightarrow> event \<Rightarrow> ipc_cmd \<Rightarrow> kernel \<Rightarrow> (int \<times> event \<times> kernel) option" where
  "rt_event_control i e cmd k = do {
     _ \<leftarrow> assert_that (obj_is CLASS_EVENT (ipc_type e));
     case cmd of
       ResetCmd _ \<Rightarrow> do {
         k1 \<leftarrow> ipc_list_resume_all (Waiting i) k;
         k2 \<leftarrow> rt_schedule k1;
         Some (RT_EOK, e\<lparr>ev_set := 0\<rparr>, k2)
       }
     | OtherIpcCmd \<Rightarrow> Some (- RT_ERROR, e, k)
   }"

section \<open>What a receiver waits for\<close>

definition valid_info :: "u8 \<Rightarrow> bool" where
  "valid_info info \<longleftrightarrow> info AND RT_EVENT_FLAG_AND \<noteq> 0 \<or> info AND RT_EVENT_FLAG_OR \<noteq> 0"

text \<open>All of the wanted flags, or one of them.\<close>

definition satisfied :: "u8 \<Rightarrow> u32 \<Rightarrow> u32 \<Rightarrow> bool" where
  "satisfied info wanted cur \<longleftrightarrow> (if info AND RT_EVENT_FLAG_AND \<noteq> 0 then wanted AND cur = wanted else wanted AND cur \<noteq> 0)"

lemma event_match_eq:
  "valid_info info \<Longrightarrow> event_match info wanted cur =
    Some (satisfied info wanted cur, if satisfied info wanted cur then wanted AND cur else wanted)"
  by (auto simp: event_match_def satisfied_def valid_info_def)

text \<open>Fewer flags satisfy fewer receivers.\<close>

lemma satisfied_mono: "satisfied info wanted (cur AND c) \<Longrightarrow> satisfied info wanted cur"
proof -
  have *: "wanted AND (cur AND c) = wanted \<Longrightarrow> wanted AND cur = wanted"
    by (metis and.assoc and.commute and.left_idem)
  have "wanted AND (cur AND c) \<noteq> 0 \<Longrightarrow> wanted AND cur \<noteq> 0"
    by (metis and.assoc and_zero_eq zero_and_eq)
  with * show "satisfied info wanted (cur AND c) \<Longrightarrow> satisfied info wanted cur" by (auto simp: satisfied_def split: if_splits)
qed

definition view :: "kernel \<Rightarrow> nat \<Rightarrow> nat \<times> u8 \<times> u32" where
  "view k x = (x, event_info (threads k x), event_set (threads k x))"

text \<open>The contract of a send over the queue of receivers: the flags that are left, the receivers that go on
  waiting, and those that are satisfied in their turn with the flags they receive.\<close>

fun spec_send :: "(nat \<times> u8 \<times> u32) list \<Rightarrow> u32 \<Rightarrow> u32 \<times> (nat \<times> u8 \<times> u32) list \<times> (nat \<times> u32) list" where
  "spec_send [] s = (s, [], [])"
| "spec_send ((t, info, wanted) # ws) s =
    (if satisfied info wanted s
     then case spec_send ws (if info AND RT_EVENT_FLAG_CLEAR \<noteq> 0 then s AND NOT (wanted AND s) else s) of
            (s', q, r) \<Rightarrow> (s', q, (t, wanted AND s) # r)
     else case spec_send ws s of (s', q, r) \<Rightarrow> (s', (t, info, wanted) # q, r))"

lemma spec_send_shrinks: "spec_send ws s = (s', q, r) \<Longrightarrow> s' = s' AND s"
proof (induction ws s arbitrary: s' q r rule: spec_send.induct)
  case (2 t info wanted ws s)
  show ?case
  proof (cases "satisfied info wanted s \<and> info AND RT_EVENT_FLAG_CLEAR \<noteq> 0")
    case True
    then obtain q' r' where "spec_send ws (s AND NOT (wanted AND s)) = (s', q', r')"
      using "2.prems" by (auto split: prod.splits)
    from 2(1) [OF _ _, of s' q' r'] True this have "s' = s' AND (s AND NOT (wanted AND s))" by simp
    then show ?thesis by (metis and.assoc and.commute and.left_idem)
  next
    case False
    then obtain q' r' where "spec_send ws s = (s', q', r')" "(satisfied info wanted s \<longrightarrow> \<not> (info AND RT_EVENT_FLAG_CLEAR \<noteq> 0))"
      using "2.prems" by (auto split: prod.splits if_splits)
    with False show ?thesis using 2 by (cases "satisfied info wanted s") auto
  qed
qed simp

text \<open>Who goes on waiting is not satisfied by the flags that are left.\<close>

lemma spec_send_rest:
  assumes "spec_send ws s = (s', q, r)" "(t, info, wanted) \<in> set q"
  shows "\<not> satisfied info wanted s'"
  using assms
proof (induction ws s arbitrary: s' q r rule: spec_send.induct)
  case (2 t1 info1 wanted1 ws s)
  show ?case
  proof (cases "satisfied info1 wanted1 s")
    case True
    then show ?thesis using 2(1) 2(3,4) by (auto split: prod.splits)
  next
    case False
    then obtain q' where q': "spec_send ws s = (s', q', r)" "q = (t1, info1, wanted1) # q'"
      using "2.prems"(1) by (auto split: prod.splits)
    show ?thesis
    proof (cases "(t, info, wanted) = (t1, info1, wanted1)")
      case c: True
      have eq: "s AND s' = s'" by (metis and.commute spec_send_shrinks [OF q'(1)])
      have "\<not> satisfied info wanted (s AND s')" using False c satisfied_mono by blast
      then show ?thesis by (simp only: eq not_False_eq_True)
    next
      case c: False
      then show ?thesis using 2(2) [OF False q'(1)] "2.prems"(2) by (auto simp: q'(2))
    qed
  qed
qed simp

lemma spec_send_sets:
  assumes "spec_send ws s = (s', q, r)"
  shows "fst ` set ws = fst ` set q \<union> fst ` set r"
  using assms
proof (induction ws s arbitrary: s' q r rule: spec_send.induct)
  case (2 t info wanted ws s)
  show ?case
  proof (cases "satisfied info wanted s")
    case True
    then obtain r' where r': "spec_send ws (if info AND RT_EVENT_FLAG_CLEAR \<noteq> 0 then s AND NOT (wanted AND s) else s) = (s', q, r')"
      "r = (t, wanted AND s) # r'"
      using "2.prems" by (auto split: prod.splits)
    from 2(1) [OF True r'(1)] r'(2) show ?thesis by simp
  next
    case False
    then obtain q' where q': "spec_send ws s = (s', q', r)" "q = (t, info, wanted) # q'"
      using "2.prems" by (auto split: prod.splits)
    from 2(2) [OF False q'(1)] q'(2) show ?thesis by simp
  qed
qed simp

section \<open>The invariant\<close>

text \<open>No receiver waits for what is there.\<close>

definition event_ok :: "nat \<Rightarrow> event \<Rightarrow> kernel \<Rightarrow> bool" where
  "event_ok i e k \<longleftrightarrow> obj_is CLASS_EVENT (ipc_type e) \<and> ipc_flag e \<in> {RT_IPC_FLAG_FIFO, RT_IPC_FLAG_PRIO} \<and>
     (\<forall>x \<in> set (tlists k (Waiting i)). valid_info (event_info (threads k x)) \<and>
        \<not> satisfied (event_info (threads k x)) (event_set (threads k x)) (ev_set e))"

lemma event_okD:
  "event_ok i e k \<Longrightarrow> obj_is CLASS_EVENT (ipc_type e)" "event_ok i e k \<Longrightarrow> ipc_flag e \<in> {RT_IPC_FLAG_FIFO, RT_IPC_FLAG_PRIO}"
  "event_ok i e k \<Longrightarrow> x \<in> set (tlists k (Waiting i)) \<Longrightarrow> valid_info (event_info (threads k x))"
  "event_ok i e k \<Longrightarrow> x \<in> set (tlists k (Waiting i)) \<Longrightarrow> \<not> satisfied (event_info (threads k x)) (event_set (threads k x)) (ev_set e)"
  by (simp_all add: event_ok_def)

lemma upd_event_kinv: "kinv b k \<Longrightarrow> kinv b (upd_thread t (\<lambda>th. th\<lparr>event_set := s\<rparr>) k)"
  "kinv b k \<Longrightarrow> kinv b (upd_thread t (\<lambda>th. th\<lparr>event_set := s, event_info := o'\<rparr>) k)"
  by (rule upd_thread_kinv; simp add: stack_sound_def)+

section \<open>Sending\<close>

text \<open>The walk along the suspend list does what the contract says.\<close>

lemma send_loop_spec:
  assumes "kinv b k" "tlists k (Waiting i) = us @ ts" "\<And>x. x \<in> set ts \<Longrightarrow> valid_info (event_info (threads k x))"
    "spec_send (map (view k) ts) (ev_set e) = (s', q, r)"
  shows "\<exists>k'. event_send_loop ts e need k = Some (RT_EOK, e\<lparr>ev_set := s'\<rparr>, need \<or> r \<noteq> [], k') \<and> kinv b k' \<and>
    current_thread k' = current_thread k \<and> ipc_frame {Waiting i} (set ts) k k' \<and> tlists k' (Waiting i) = us @ map fst q \<and>
    (\<forall>x. x \<notin> fst ` set r \<longrightarrow> threads k' x = threads k x) \<and>
    (\<forall>(x, g) \<in> set r. event_set (threads k' x) = g \<and> state_of k' x \<in> {RT_THREAD_READY, RT_THREAD_RUNNING} \<and>
       th_error (threads k' x) = th_error (threads k x))"
  using assms
proof (induction ts arbitrary: us e need k s' q r)
  case Nil
  then show ?case by (intro exI [of _ k]) auto
next
  case (Cons t ts)
  define info where "info = event_info (threads k t)"
  define w where "w = event_set (threads k t)"
  have vt: "view k t = (t, info, w)" by (simp add: view_def info_def w_def)
  have v: "valid_info info" using Cons.prems(3) [of t] by (simp add: info_def)
  note mt = event_match_eq [OF v, of w "ev_set e"]
  have di: "distinct (us @ t # ts)" using sched_invD(2) [OF kinvD(1) [OF Cons.prems(1)], of "Waiting i"] Cons.prems(2) by simp
  show ?case
  proof (cases "satisfied info w (ev_set e)")
    case False
    then obtain q' where q': "spec_send (map (view k) ts) (ev_set e) = (s', q', r)" "q = (t, info, w) # q'"
      using Cons.prems(4) by (auto simp: vt split: prod.splits)
    have l: "tlists k (Waiting i) = (us @ [t]) @ ts" using Cons.prems(2) by simp
    from Cons.IH [OF Cons.prems(1) l _ q'(1), of need] Cons.prems(3) obtain k' where
      k': "event_send_loop ts e need k = Some (RT_EOK, e\<lparr>ev_set := s'\<rparr>, need \<or> r \<noteq> [], k')" "kinv b k'"
      "current_thread k' = current_thread k" "ipc_frame {Waiting i} (set ts) k k'" "tlists k' (Waiting i) = (us @ [t]) @ map fst q'"
      "\<forall>x. x \<notin> fst ` set r \<longrightarrow> threads k' x = threads k x"
      "\<forall>(x, g) \<in> set r. event_set (threads k' x) = g \<and> state_of k' x \<in> {RT_THREAD_READY, RT_THREAD_RUNNING} \<and>
       th_error (threads k' x) = th_error (threads k x)" by auto
    have "event_send_loop (t # ts) e need k = Some (RT_EOK, e\<lparr>ev_set := s'\<rparr>, need \<or> r \<noteq> [], k')"
      using False k'(1) mt by (simp add: info_def w_def)
    moreover have "ipc_frame {Waiting i} (set (t # ts)) k k'" by (rule ipc_frame_mono [OF k'(4)]) auto
    ultimately show ?thesis using k' q'(2) by (intro exI [of _ k']) simp
  next
    case True
    define g where "g = w AND ev_set e"
    define e1 where "e1 = (if info AND RT_EVENT_FLAG_CLEAR \<noteq> 0 then e\<lparr>ev_set := ev_set e AND NOT g\<rparr> else e)"
    define k1 where "k1 = upd_thread t (\<lambda>th. th\<lparr>event_set := g\<rparr>) k"
    have k1: "kinv b k1" unfolding k1_def by (rule upd_event_kinv(1) [OF Cons.prems(1)])
    have tl: "t \<in> set (tlists k1 (Waiting i))" using Cons.prems(2) by (simp add: k1_def)
    obtain k2 where k2: "rt_thread_resume t k1 = Some (RT_EOK, k2)" "kinv b k2" "kframe k1 k2" "current_thread k2 = current_thread k1"
      "state_of k2 t \<in> {RT_THREAD_READY, RT_THREAD_RUNNING}" "\<And>x. x \<noteq> t \<Longrightarrow> threads k2 x = threads k1 x"
      "tlists k2 (Waiting i) = filter (\<lambda>x. x \<noteq> t) (tlists k1 (Waiting i))"
      "\<And>l'. wait_list l' \<Longrightarrow> l' \<noteq> Waiting i \<Longrightarrow> tlists k2 l' = tlists k1 l'"
      "tmlists k2 HardList = filter (\<lambda>x. x \<noteq> ThreadTimer t) (tmlists k1 HardList)"
      "\<And>x. x \<noteq> ThreadTimer t \<Longrightarrow> timers k2 x = timers k1 x" "\<And>x. live k2 x = live k1 x"
      by (rule resume_waiting_spec [OF k1 wait_list_simps(1) tl]) blast
    have f0: "ipc_frame {Waiting i} {t} k k1" unfolding ipc_frame_def k1_def by (auto simp: live_def)
    have f1: "ipc_frame {Waiting i} {} k1 k2" by (rule ipc_frameI [OF k2(3,11)]) (auto simp: k2(8,9,10))
    have f2: "ipc_frame {Waiting i} {t} k k2" by (rule ipc_frame_trans [OF f0 ipc_frame_mono [OF f1]]) auto
    have ox: "threads k2 x = threads k x" if "x \<noteq> t" for x using k2(6) [OF that] that by (simp add: k1_def)
    have "t \<notin> set us" "t \<notin> set ts" using di by auto
    then have "filter (\<lambda>x. x \<noteq> t) us = us" "filter (\<lambda>x. x \<noteq> t) ts = ts" by (auto intro: filter_True)
    then have l2: "tlists k2 (Waiting i) = us @ ts" by (simp add: k2(7) k1_def Cons.prems(2))
    have ots: "threads k2 x = threads k x" if "x \<in> set ts" for x using ox [of x] that \<open>t \<notin> set ts\<close> by blast
    have vw: "map (view k2) ts = map (view k) ts" by (simp add: view_def ots)
    have e1v: "ev_set e1 = (if info AND RT_EVENT_FLAG_CLEAR \<noteq> 0 then ev_set e AND NOT (w AND ev_set e) else ev_set e)"
      by (simp add: e1_def g_def)
    obtain r' where r': "spec_send (map (view k2) ts) (ev_set e1) = (s', q, r')" "r = (t, g) # r'"
      using Cons.prems(4) True unfolding vw by (auto simp: vt g_def e1v split: prod.splits)
    have v2: "valid_info (event_info (threads k2 x))" if "x \<in> set ts" for x
      using Cons.prems(3) [of x] that by (simp add: ots)
    from Cons.IH [OF k2(2) l2 v2 r'(1), of True] obtain k' where
      k': "event_send_loop ts e1 True k2 = Some (RT_EOK, e1\<lparr>ev_set := s'\<rparr>, True, k')" "kinv b k'"
      "current_thread k' = current_thread k2" "ipc_frame {Waiting i} (set ts) k2 k'" "tlists k' (Waiting i) = us @ map fst q"
      "\<forall>x. x \<notin> fst ` set r' \<longrightarrow> threads k' x = threads k2 x"
      "\<forall>(x, g) \<in> set r'. event_set (threads k' x) = g \<and> state_of k' x \<in> {RT_THREAD_READY, RT_THREAD_RUNNING} \<and>
       th_error (threads k' x) = th_error (threads k2 x)" by auto
    have in1: "event_info (threads k1 t) = info" "event_set (threads k1 t) = g" by (simp_all add: k1_def info_def)
    have e1s: "e1\<lparr>ev_set := s'\<rparr> = e\<lparr>ev_set := s'\<rparr>" by (simp add: e1_def)
    have run: "event_send_loop (t # ts) e need k = Some (RT_EOK, e\<lparr>ev_set := s'\<rparr>, True, k')"
      using True k'(1) k2(1) mt by (simp add: info_def [symmetric] w_def [symmetric] g_def [symmetric] k1_def [symmetric] in1 Let_def e1s, simp add: e1_def split: if_splits)
    have "fst ` set r' \<subseteq> fst ` set (map (view k2) ts)" using spec_send_sets [OF r'(1)] by blast
    then have rt: "t \<notin> fst ` set r'" "fst ` set r' \<subseteq> set ts" using \<open>t \<notin> set ts\<close> by (auto simp: view_def)
    have tt: "threads k' t = threads k2 t" using k'(6) rt(1) by simp
    have "event_set (threads k2 t) = g" "th_error (threads k2 t) = th_error (threads k t)"
      using kframe_threads(3,10) [OF k2(3), of t] by (simp_all add: k1_def)
    then have "event_set (threads k' t) = g \<and> state_of k' t \<in> {RT_THREAD_READY, RT_THREAD_RUNNING} \<and>
       th_error (threads k' t) = th_error (threads k t)" using k2(5) by (simp add: tt)
    moreover have "th_error (threads k2 x) = th_error (threads k x)" if "(x, y) \<in> set r'" for x y
      using rt that ox [of x] \<open>t \<notin> set ts\<close> by force
    moreover have "ipc_frame {Waiting i} (set (t # ts)) k k'"
      by (rule ipc_frame_trans [OF ipc_frame_mono [OF f2] ipc_frame_mono [OF k'(4)]]) auto
    moreover have "threads k' x = threads k x" if "x \<notin> fst ` set r" for x
    proof -
      have x: "x \<noteq> t" "x \<notin> fst ` set r'" using that r'(2) by auto
      then show ?thesis using k'(6) ox by auto
    qed
    ultimately show ?thesis
      using run k'(2,3,5,7) k2(4) r'(2) by (intro exI [of _ k']) (auto simp: k1_def)
  qed
qed

lemma spec_send_sub:
  assumes "spec_send ws s = (s', q, r)"
  shows "set q \<subseteq> set ws"
  using assms
proof (induction ws s arbitrary: s' q r rule: spec_send.induct)
  case (2 t info wanted ws s)
  show ?case
  proof (cases "satisfied info wanted s")
    case True
    then obtain r' where r': "spec_send ws (if info AND RT_EVENT_FLAG_CLEAR \<noteq> 0 then s AND NOT (wanted AND s) else s) = (s', q, r')"
      using "2.prems" by (auto split: prod.splits)
    from 2(1) [OF True r'] show ?thesis by auto
  next
    case False
    then obtain q' where q': "spec_send ws s = (s', q', r)" "q = (t, info, wanted) # q'"
      using "2.prems" by (auto split: prod.splits)
    from 2(2) [OF False q'(1)] q'(2) show ?thesis by auto
  qed
qed simp

lemma event_send_spec:
  assumes kinv: "kinv b k" and cur: "current_thread k \<noteq> None" and ok: "event_ok i e k" and fl: "flags \<noteq> 0"
    and spec: "spec_send (map (view k) (tlists k (Waiting i))) (ev_set e OR flags) = (s', q, r)"
  obtains k' where "rt_event_send i e flags k = Some (RT_EOK, e\<lparr>ev_set := s'\<rparr>, k')" "kinv b k'" "current_thread k' \<noteq> None"
    "event_ok i (e\<lparr>ev_set := s'\<rparr>) k'" "ipc_frame {Waiting i} (set (tlists k (Waiting i))) k k'"
    "map (view k') (tlists k' (Waiting i)) = q"
    "\<And>x g. (x, g) \<in> set r \<Longrightarrow> event_set (threads k' x) = g \<and> state_of k' x \<noteq> RT_THREAD_SUSPEND \<and>
       th_error (threads k' x) = th_error (threads k x)"
proof -
  have valid: "valid_info (event_info (threads k x))" if "x \<in> set (tlists k (Waiting i))" for x
    using event_okD(3) [OF ok that] .
  have l0: "tlists k (Waiting i) = [] @ tlists k (Waiting i)" by simp
  have sp: "spec_send (map (view k) (tlists k (Waiting i))) (ev_set (e\<lparr>ev_set := ev_set e OR flags\<rparr>)) = (s', q, r)" using spec by simp
  from send_loop_spec [OF kinv l0 valid sp, of False] obtain k1 where
    k1: "event_send_loop (tlists k (Waiting i)) (e\<lparr>ev_set := ev_set e OR flags\<rparr>) False k = Some (RT_EOK, e\<lparr>ev_set := s'\<rparr>, r \<noteq> [], k1)"
    "kinv b k1" "current_thread k1 = current_thread k" "ipc_frame {Waiting i} (set (tlists k (Waiting i))) k k1"
    "tlists k1 (Waiting i) = map fst q" "\<forall>x. x \<notin> fst ` set r \<longrightarrow> threads k1 x = threads k x"
    "\<forall>(x, g) \<in> set r. event_set (threads k1 x) = g \<and> state_of k1 x \<in> {RT_THREAD_READY, RT_THREAD_RUNNING} \<and>
       th_error (threads k1 x) = th_error (threads k x)" by auto
  have k1r: "event_set (threads k1 x) = g \<and> state_of k1 x \<noteq> RT_THREAD_SUSPEND \<and> th_error (threads k1 x) = th_error (threads k x)"
    if "(x, g) \<in> set r" for x g
    using bspec [OF k1(7) that] by auto
  obtain k2 where k2: "(if r \<noteq> [] then rt_schedule k1 else Some k1) = Some k2" "kinv b k2" "kframe k1 k2" "ipc_frame {} {} k1 k2"
    "current_thread k2 \<noteq> None" "\<And>l. wait_list l \<Longrightarrow> tlists k2 l = tlists k1 l"
    "\<And>x. state_of k2 x = RT_THREAD_SUSPEND \<longleftrightarrow> state_of k1 x = RT_THREAD_SUSPEND"
  proof (cases "r = []")
    case True
    with k1(2,3) cur show thesis by (intro that [of k1]) auto
  next
    case False
    have c1: "current_thread k1 \<noteq> None" using k1(3) cur by simp
    obtain k2 where "rt_schedule k1 = Some k2" "kinv b k2" "kframe k1 k2" "ipc_frame {} {} k1 k2" "current_thread k2 \<noteq> None"
      "\<And>l. wait_list l \<Longrightarrow> tlists k2 l = tlists k1 l"
      "\<And>x. state_of k2 x = RT_THREAD_SUSPEND \<longleftrightarrow> state_of k1 x = RT_THREAD_SUSPEND"
      by (rule schedule_frame [OF k1(2) c1]) blast
    with False show thesis by (intro that [of k2]) simp_all
  qed
  have run: "rt_event_send i e flags k = Some (RT_EOK, e\<lparr>ev_set := s'\<rparr>, k2)"
    using event_okD(1) [OF ok] fl k1(1) k2(1) by (simp add: rt_event_send_def)
  have fr: "ipc_frame {Waiting i} (set (tlists k (Waiting i))) k k2"
    by (rule ipc_frame_trans [OF k1(4) ipc_frame_mono [OF k2(4)]]) auto
  have l2: "tlists k2 (Waiting i) = map fst q" by (simp add: k2(6) k1(5))
  have susp: "state_of k2 x = RT_THREAD_SUSPEND" if "x \<in> fst ` set q" for x
    using waiting_suspended [OF k2(2) wait_list_simps(1) [of i], of x] that by (simp add: l2)
  have qr: "x \<notin> fst ` set r" if "x \<in> fst ` set q" for x
    using susp [OF that] k1r unfolding k2(7) by fastforce
  note ev = kframe_threads(10,11) [OF k2(3)]
  have qk: "(x, ev) \<in> set q \<Longrightarrow> view k2 x = (x, ev)" for x ev
  proof -
    assume x: "(x, ev) \<in> set q"
    have sub: "set q \<subseteq> set (map (view k) (tlists k (Waiting i)))"
      using spec by (rule spec_send_sub)
    then have "(x, ev) = view k x" using x by (auto simp: view_def)
    moreover have "threads k1 x = threads k x" using qr [of x] x k1(6) by (metis fst_conv imageI)
    ultimately show "view k2 x = (x, ev)" by (simp add: view_def ev)
  qed
  have vq: "map (view k2) (tlists k2 (Waiting i)) = q"
    unfolding l2 map_map by (rule map_idI) (use qk in auto)
  have ok': "event_ok i (e\<lparr>ev_set := s'\<rparr>) k2"
    unfolding event_ok_def
  proof (intro conjI ballI)
    fix x assume x: "x \<in> set (tlists k2 (Waiting i))"
    then obtain info wanted where q: "(x, info, wanted) \<in> set q" by (auto simp: l2)
    from qk [OF this] have v: "event_info (threads k2 x) = info" "event_set (threads k2 x) = wanted" by (auto simp: view_def)
    show "\<not> satisfied (event_info (threads k2 x)) (event_set (threads k2 x)) (ev_set (e\<lparr>ev_set := s'\<rparr>))"
      using spec_send_rest [OF spec q] by (simp add: v)
    have "(x, info, wanted) \<in> set (map (view k) (tlists k (Waiting i)))" using spec_send_sub [OF spec] q by blast
    then have "x \<in> set (tlists k (Waiting i))" "info = event_info (threads k x)" by (auto simp: view_def)
    with valid show "valid_info (event_info (threads k2 x))" by (simp add: v)
  qed (use event_okD(1,2) [OF ok] in simp_all)
  show thesis
  proof (rule that [OF run k2(2,5) ok' fr vq])
    fix x g assume "(x, g) \<in> set r"
    from k1r [OF this] show "event_set (threads k2 x) = g \<and> state_of k2 x \<noteq> RT_THREAD_SUSPEND \<and> th_error (threads k2 x) = th_error (threads k x)"
      unfolding k2(7) using ev kframe_threads(3) [OF k2(3), of x] by auto
  qed
qed

section \<open>Receiving\<close>

lemma event_recv_spec:
  assumes kinv: "kinv b k" and b: "b \<le> 1" and ok: "event_ok i e k" and r: "runs t k" and v: "valid_info options" and fl: "flags \<noteq> 0"
    and time: "timeout < 2 ^ 31 - 1"
  obtains o' e' k' where "rt_event_recv i e flags options timeout k = Some (o', e', k')" "kinv b k'" "event_ok i e' k'"
    "ipc_frame {Waiting i} {t} k k'" "current_thread k' \<noteq> None"
    "if satisfied options flags (ev_set e)
     then o' = Done (RT_EOK, Some (flags AND ev_set e)) \<and> tlists k' (Waiting i) = tlists k (Waiting i) \<and>
       ev_set e' = (if options AND RT_EVENT_FLAG_CLEAR \<noteq> 0 then ev_set e AND NOT flags else ev_set e)
     else e' = e \<and> (if timeout = 0 then o' = Done (- RT_ETIMEOUT, None) \<and> tlists k' (Waiting i) = tlists k (Waiting i)
       else o' = Blocked \<and> state_of k' t = RT_THREAD_SUSPEND \<and> view k' t = (t, options, flags) \<and> th_error (threads k' t) = RT_EOK \<and>
         tlists k' (Waiting i) = enqueue (ipc_flag e) (\<lambda>x. current_priority (threads k x)) t (tlists k (Waiting i)))"
proof -
  note ty = event_okD(1) [OF ok]
  note c = runs_context [OF r]
  have st: "state_of k t = RT_THREAD_RUNNING" using r by (simp add: runs_def)
  have nw: "t \<notin> set (tlists k (Waiting i))" using waiting_suspended [OF kinv wait_list_simps(1), of t i] st by auto
  define k0 where "k0 = set_error t RT_EOK k"
  have k0: "kinv b k0" unfolding k0_def by (rule set_error_kinv [OF kinv])
  have status: "(if options AND RT_EVENT_FLAG_AND \<noteq> 0 then Some (ev_set e AND flags = flags)
      else if options AND RT_EVENT_FLAG_OR \<noteq> 0 then Some (ev_set e AND flags \<noteq> 0) else None) =
    Some (satisfied options flags (ev_set e))"
    using v by (auto simp: satisfied_def valid_info_def and.commute)
  have oks: "event_ok i e' k'" if "ipc_type e' = ipc_type e" "ipc_flag e' = ipc_flag e" "ev_set e' = ev_set e AND m" "tlists k' (Waiting i) = tlists k (Waiting i)"
    "\<And>x. x \<noteq> t \<Longrightarrow> threads k' x = threads k x" for e' k' m
    unfolding event_ok_def
  proof (intro conjI ballI)
    fix x assume "x \<in> set (tlists k' (Waiting i))"
    then have x: "x \<in> set (tlists k (Waiting i))" "x \<noteq> t" using nw that(4) by auto
    show "valid_info (event_info (threads k' x))" using event_okD(3) [OF ok x(1)] that(5) [OF x(2)] by simp
    show "\<not> satisfied (event_info (threads k' x)) (event_set (threads k' x)) (ev_set e')"
      using event_okD(4) [OF ok x(1)] that(5) [OF x(2)] satisfied_mono by (auto simp: that(3))
  qed (use event_okD(1,2) [OF ok] that(1,2) in simp_all)
  show thesis
  proof (cases "satisfied options flags (ev_set e)")
    case True
    define e' where "e' = (if options AND RT_EVENT_FLAG_CLEAR \<noteq> 0 then e\<lparr>ev_set := ev_set e AND NOT flags\<rparr> else e)"
    define k' where "k' = upd_thread t (\<lambda>th. th\<lparr>event_set := flags AND ev_set e, event_info := options\<rparr>) k0"
    have run: "rt_event_recv i e flags options timeout k = Some (Done (RT_EOK, Some (flags AND ev_set e)), e', k')"
      using status ty c fl True by (simp add: rt_event_recv_def k0_def [symmetric] e'_def k'_def Let_def and.commute)
    have kv: "kinv b k'" unfolding k'_def by (rule upd_event_kinv(2) [OF k0])
    have ok': "event_ok i e' k'"
    proof (cases "options AND RT_EVENT_FLAG_CLEAR \<noteq> 0")
      case True
      then show ?thesis by (intro oks [of _ "NOT flags"]) (simp_all add: e'_def k'_def k0_def set_error_def)
    next
      case False
      then show ?thesis by (intro oks [of _ "- 1"]) (simp_all add: e'_def k'_def k0_def set_error_def)
    qed
    have fr: "ipc_frame {Waiting i} {t} k k'" unfolding ipc_frame_def k'_def k0_def by (auto simp: live_def)
    show thesis by (rule that [OF run kv ok' fr]) (use r True in \<open>simp_all add: runs_def k'_def k0_def e'_def\<close>)
  next
    case n: False
    show thesis
    proof (cases "timeout = 0")
      case True
      define k' where "k' = set_error t (- RT_ETIMEOUT) k0"
      have run: "rt_event_recv i e flags options timeout k = Some (Done (- RT_ETIMEOUT, None), e, k')"
        using status ty c fl n True by (simp add: rt_event_recv_def k0_def [symmetric] k'_def)
      have kv: "kinv b k'" unfolding k'_def by (rule set_error_kinv [OF k0])
      have ok': "event_ok i e k'" by (rule oks [of _ "- 1"]) (simp_all add: k'_def k0_def set_error_def)
      have fr: "ipc_frame {Waiting i} {t} k k'" unfolding k'_def k0_def by (rule ipc_frame_trans [OF set_error_frame set_error_frame])
      show thesis by (rule that [OF run kv ok' fr]) (use r n True in \<open>simp_all add: runs_def k'_def k0_def\<close>)
    next
      case False
      define k1 where "k1 = upd_thread t (\<lambda>th. th\<lparr>event_set := flags, event_info := options\<rparr>) k0"
      have k1: "kinv b k1" unfolding k1_def by (rule upd_event_kinv(2) [OF k0])
      have r1: "current_thread k1 = Some t" "state_of k1 t = RT_THREAD_RUNNING" using r by (simp_all add: runs_def k1_def k0_def)
      obtain k' where k': "ipc_block (Waiting i) t (ipc_flag e) timeout k1 = Some k'" "kinv b k'" "ipc_frame {Waiting i} {} k1 k'"
        "current_thread k' \<noteq> None"
        "tlists k' (Waiting i) = enqueue (ipc_flag e) (\<lambda>x. current_priority (threads k1 x)) t (tlists k1 (Waiting i))"
        "state_of k' t = RT_THREAD_SUSPEND" "\<And>x. th_error (threads k' x) = th_error (threads k1 x)"
        "\<And>x. event_set (threads k' x) = event_set (threads k1 x)" "\<And>x. event_info (threads k' x) = event_info (threads k1 x)"
        by (rule block_frame [OF k1 b r1 wait_list_simps(1) event_okD(2) [OF ok] time]) blast
      have run: "rt_event_recv i e flags options timeout k = Some (Blocked, e, k')"
        using status ty c fl n False k'(1) by (simp add: rt_event_recv_def k0_def [symmetric] k1_def)
      have f1: "ipc_frame {Waiting i} {t} k k1" unfolding ipc_frame_def k1_def k0_def by (auto simp: live_def)
      have fr: "ipc_frame {Waiting i} {t} k k'" by (rule ipc_frame_trans [OF f1 ipc_frame_mono [OF k'(3)]]) auto
      have l1: "tlists k1 (Waiting i) = tlists k (Waiting i)" "current_priority (threads k1 x) = current_priority (threads k x)" for x
        by (simp_all add: k1_def k0_def)
      have t1: "event_set (threads k' t) = flags" "event_info (threads k' t) = options" "th_error (threads k' t) = RT_EOK"
        by (simp_all add: k'(7,8,9) k1_def k0_def)
      have ok': "event_ok i e k'"
        unfolding event_ok_def
      proof (intro conjI ballI)
        fix x assume "x \<in> set (tlists k' (Waiting i))"
        then have x: "x = t \<or> x \<in> set (tlists k (Waiting i)) \<and> x \<noteq> t" using nw by (auto simp: k'(5) l1)
        have ox: "event_set (threads k' x) = event_set (threads k x)" "event_info (threads k' x) = event_info (threads k x)" if "x \<noteq> t"
          using that by (simp_all add: k'(8,9) k1_def k0_def set_error_def)
        show "valid_info (event_info (threads k' x))" using x v event_okD(3) [OF ok, of x] ox t1 by auto
        show "\<not> satisfied (event_info (threads k' x)) (event_set (threads k' x)) (ev_set e)"
          using x n event_okD(4) [OF ok, of x] ox t1 by auto
      qed (use event_okD(1,2) [OF ok] in simp_all)
      show thesis
        by (rule that [OF run k'(2) ok' fr k'(4)]) (use n False k'(5,6) t1 l1 in \<open>simp add: view_def\<close>)
    qed
  qed
qed

section \<open>The contract of an event\<close>

text \<open>C19: a send wakes exactly the receivers it satisfies, with the right flags, and loses no wake-up. When
  no receiver waits for flags that are set, \<open>rt_event_send\<close> of a non-empty set does not go wrong, keeps the kernel sound and
  acts on the queue of receivers as the list function \<open>spec_send\<close>: in the order of the queue a
  receiver that is satisfied by the flags set at that moment is woken with the flags it waited
  for, which are cleared if it asked for that, and the others keep their place and what they wait for. A woken receiver
  returns these flags with the error number it had; and again nobody waits for flags that are
  set.\<close>

theorem event_send_wakes:
  assumes "kinv 1 k" "current_thread k \<noteq> None" "event_ok i e k" "flags \<noteq> 0"
    "spec_send (map (view k) (tlists k (Waiting i))) (ev_set e OR flags) = (s', q, r)"
  shows "\<exists>k'. rt_event_send i e flags k = Some (RT_EOK, e\<lparr>ev_set := s'\<rparr>, k') \<and> kinv 1 k' \<and> event_ok i (e\<lparr>ev_set := s'\<rparr>) k' \<and>
    map (view k') (tlists k' (Waiting i)) = q \<and>
    (\<forall>(x, g) \<in> set r. state_of k' x \<noteq> RT_THREAD_SUSPEND \<and>
      event_recv_return x k' = (th_error (threads k x), if th_error (threads k x) = RT_EOK then Some g else None))"
proof -
  obtain k' where k': "rt_event_send i e flags k = Some (RT_EOK, e\<lparr>ev_set := s'\<rparr>, k')" "kinv 1 k'"
    "event_ok i (e\<lparr>ev_set := s'\<rparr>) k'" "map (view k') (tlists k' (Waiting i)) = q"
    "\<And>x g. (x, g) \<in> set r \<Longrightarrow> event_set (threads k' x) = g \<and> state_of k' x \<noteq> RT_THREAD_SUSPEND \<and>
       th_error (threads k' x) = th_error (threads k x)"
    by (rule event_send_spec [OF assms(1-5)]) blast
  have "state_of k' x \<noteq> RT_THREAD_SUSPEND \<and>
      event_recv_return x k' = (th_error (threads k x), if th_error (threads k x) = RT_EOK then Some g else None)"
    if "(x, g) \<in> set r" for x g
    using k'(5) [OF that] by (simp add: event_recv_return_def)
  with k'(1-4) show ?thesis by blast
qed

definition demo_event :: "u32 \<Rightarrow> event" where
  "demo_event s = \<lparr>ipc_type = CLASS_EVENT, ipc_flag = RT_IPC_FLAG_FIFO, ev_set = s\<rparr>"

text \<open>Thread 4 waits for one of the flags 6 and wants it cleared.\<close>

definition receiver_waits :: kernel where
  "receiver_waits = upd_thread 4 (\<lambda>th. th\<lparr>event_set := 6, event_info := RT_EVENT_FLAG_OR OR RT_EVENT_FLAG_CLEAR\<rparr>) one_waits"

lemma receiver_waits_ok: "kinv 1 receiver_waits" "event_ok 0 (demo_event 1) receiver_waits"
  using upd_event_kinv(2) [OF one_waits_inv] one_waits_simps
  by (simp_all add: receiver_waits_def event_ok_def demo_event_def obj_is_def valid_info_def satisfied_def)

theorem event_send_wakes_witness:
  "\<exists>k'. rt_event_send 0 (demo_event 1) 4 receiver_waits = Some (RT_EOK, demo_event 1, k') \<and>
    tlists k' (Waiting 0) = [] \<and> event_recv_return 4 k' = (RT_EOK, Some 4)"
proof -
  have v: "map (view receiver_waits) (tlists receiver_waits (Waiting 0)) = [(4, RT_EVENT_FLAG_OR OR RT_EVENT_FLAG_CLEAR, 6)]"
    by (simp add: receiver_waits_def one_waits_simps view_def)
  have s: "spec_send (map (view receiver_waits) (tlists receiver_waits (Waiting 0))) (ev_set (demo_event 1) OR 4) = (1, [], [(4, 4)])"
    unfolding v by (simp add: satisfied_def demo_event_def)
  have e: "th_error (threads receiver_waits 4) = 0"
    by (simp add: receiver_waits_def one_waits_simps) (simp add: four_threads_def demo_thread_def zero_thread_def)
  have c: "current_thread receiver_waits \<noteq> None" by (simp add: receiver_waits_def one_waits_simps)
  from event_send_wakes [OF receiver_waits_ok(1) c receiver_waits_ok(2) _ s] e show ?thesis by (auto simp: demo_event_def)
qed

text \<open>C33: a receive returns what is there, or waits only when it must. With one of the two ways of waiting
  among its options, \<open>rt_event_recv\<close> by a running thread keeps the kernel sound; if the flags satisfy
  it, it returns the flags it asked for and clears them on request; else it times out at once or queues with what it waits
  for written into the thread. In every case no receiver is left waiting for flags that are set.\<close>

theorem event_recv_contract:
  assumes "kinv 1 k" "event_ok i e k" "runs t k" "valid_info options" "flags \<noteq> 0" "timeout < 2 ^ 31 - 1"
  shows "\<exists>o' e' k'. rt_event_recv i e flags options timeout k = Some (o', e', k') \<and> kinv 1 k' \<and> event_ok i e' k' \<and>
    (if satisfied options flags (ev_set e)
     then o' = Done (RT_EOK, Some (flags AND ev_set e)) \<and> tlists k' (Waiting i) = tlists k (Waiting i) \<and>
       ev_set e' = (if options AND RT_EVENT_FLAG_CLEAR \<noteq> 0 then ev_set e AND NOT flags else ev_set e)
     else e' = e \<and> (if timeout = 0 then o' = Done (- RT_ETIMEOUT, None) \<and> tlists k' (Waiting i) = tlists k (Waiting i)
       else o' = Blocked \<and> state_of k' t = RT_THREAD_SUSPEND \<and> view k' t = (t, options, flags) \<and> th_error (threads k' t) = RT_EOK \<and>
         tlists k' (Waiting i) = enqueue (ipc_flag e) (\<lambda>x. current_priority (threads k x)) t (tlists k (Waiting i))))"
  by (rule event_recv_spec [OF assms(1) _ assms(2-6)]) (simp, (intro exI conjI; assumption))

theorem event_recv_contract_witness:
  "\<exists>k' e'. rt_event_recv 0 (demo_event 5) 4 (RT_EVENT_FLAG_AND OR RT_EVENT_FLAG_CLEAR) 0 four_threads =
    Some (Done (RT_EOK, Some 4), e', k') \<and> ev_set e' = 1"
proof -
  have ok: "event_ok 0 (demo_event 5) four_threads"
    by (simp add: event_ok_def demo_event_def obj_is_def demo_facts)
  have v: "valid_info (RT_EVENT_FLAG_AND OR RT_EVENT_FLAG_CLEAR)" by (simp add: valid_info_def)
  from event_recv_contract [OF four_threads_inv ok demo_runs v, of 4 0] show ?thesis
    by (auto simp: satisfied_def demo_event_def)
qed

section \<open>Who gets the processor\<close>

lemma event_send_fair:
  assumes kinv: "kinv b k" and ok: "event_ok i e k" and r: "rt_event_send i e flags k = Some (err, e', k')"
  shows "fair k k'"
proof (cases "flags = 0")
  case True
  then show ?thesis using r event_okD(1) [OF ok] by (auto simp: rt_event_send_def fairI)
next
  case False
  obtain s' q rs where spec: "spec_send (map (view k) (tlists k (Waiting i))) (ev_set (e\<lparr>ev_set := ev_set e OR flags\<rparr>)) = (s', q, rs)"
    by (metis prod_cases3)
  have l0: "tlists k (Waiting i) = [] @ tlists k (Waiting i)" by simp
  from send_loop_spec [OF kinv l0 event_okD(3) [OF ok] spec, of False] obtain k1 where
    k1: "event_send_loop (tlists k (Waiting i)) (e\<lparr>ev_set := ev_set e OR flags\<rparr>) False k = Some (RT_EOK, e\<lparr>ev_set := s'\<rparr>, rs \<noteq> [], k1)"
    "kinv b k1" "current_thread k1 = current_thread k" "ipc_frame {Waiting i} (set (tlists k (Waiting i))) k k1"
    "\<forall>x. x \<notin> fst ` set rs \<longrightarrow> threads k1 x = threads k x"
    "\<forall>(x, g) \<in> set rs. event_set (threads k1 x) = g \<and> state_of k1 x \<in> {RT_THREAD_READY, RT_THREAD_RUNNING} \<and>
       th_error (threads k1 x) = th_error (threads k x)" by auto
  have w: "state_of k x = RT_THREAD_SUSPEND" if "x \<in> fst ` set rs" for x
  proof -
    have "x \<in> fst ` set (map (view k) (tlists k (Waiting i)))" using spec_send_sets [OF spec] that by blast
    then have "x \<in> set (tlists k (Waiting i))" by (auto simp: view_def)
    then show ?thesis by (rule waiting_suspended [OF kinv wait_list_simps(1)])
  qed
  have kp: "awake k1 x" if "awake k x" for x using that k1(5,6) by (cases "x \<in> fst ` set rs") (auto simp: awake_def)
  have kr: "state_of k1 x = RT_THREAD_RUNNING" if "state_of k x = RT_THREAD_RUNNING" for x
  proof -
    have "x \<notin> fst ` set rs" using w [of x] that by auto
    then show ?thesis using k1(5) that by simp
  qed
  have lk: "lock_nest k1 = lock_nest k" by (rule ipc_frameD(2) [OF k1(4)])
  have fin: "(if rs \<noteq> [] then rt_schedule k1 else Some k1) = Some k'"
    using r False event_okD(1) [OF ok] k1(1) by (auto simp: rt_event_send_def bind_eq_Some_conv split: if_splits)
  show ?thesis
  proof (cases "rs = []")
    case True
    then have "k' = k1" "threads k1 = threads k" using fin k1(5) by auto
    then have "calm k k'" using k1(3) lk by (simp add: calm_def)
    then show ?thesis by (rule fairI(1))
  next
    case n: False
    then have "rt_schedule k1 = Some k'" using fin by simp
    then show ?thesis by (intro fairI(2) reschedI [OF _ k1(2,3) lk kp kr])
  qed
qed

lemma event_recv_fair:
  assumes "kinv 1 k" "event_ok i e k" "runs t k" "timeout < 2 ^ 31 - 1" "timeout \<noteq> 0 \<Longrightarrow> may_block t k"
    "rt_event_recv i e flags options timeout k = Some (o', e', k')"
  shows "fair k k'"
proof -
  define k1 where "k1 = upd_thread t (\<lambda>th. th\<lparr>event_set := flags, event_info := options\<rparr>) (set_error t RT_EOK k)"
  have u: "calm k (upd_thread t (\<lambda>th. th\<lparr>event_set := g, event_info := options\<rparr>) (set_error t RT_EOK k))" for g
    by (rule calm_trans [OF set_error_calm upd_thread_calm]) simp_all
  have k1: "kinv 1 k1" unfolding k1_def by (rule upd_event_kinv(2) [OF set_error_kinv [OF assms(1)]])
  have b: "fair k k'" if "ipc_block (Waiting i) t (ipc_flag e) timeout k1 = Some k'" "timeout \<noteq> 0"
    by (rule block_fair [OF assms(1) order_refl assms(3) wait_list_simps(1) event_okD(2) [OF assms(2)] assms(4) assms(5) [OF that(2)] _ k1 that(1)])
      (simp add: k1_def u)
  have c: "fair k k" "fair k (set_error t c (set_error t RT_EOK k))" for c
    by (rule fairI(1); simp add: calm_trans [OF set_error_calm set_error_calm])+
  note cs = runs_context [OF assms(3)] event_okD(1) [OF assms(2)] k1_def [symmetric]
  show ?thesis
  proof (cases "flags = 0")
    case True
    then show ?thesis using assms(6) c cs by (auto simp: rt_event_recv_def)
  next
    case False
    then show ?thesis
      using assms(6) b c(2) fairI(1) [OF u] cs unfolding rt_event_recv_def
      by (auto simp: Let_def bind_eq_Some_conv split: if_splits)
  qed
qed

end
