(* ===== verification/Mailbox.thy ===== *)
theory Mailbox
  imports MsgStore
begin

text \<open>
  The mailboxes of \<^verbatim>\<open>rt-thread/src/ipc.c\<close>: a ring of words with two offsets and a count. Receivers
  wait on \<open>Waiting i\<close>, senders on \<open>Senders i\<close>. A sender or receiver that was woken goes back to the
  head of its loop (\<open>mb_send_loop\<close>, \<open>mb_recv_loop\<close>) with the time that is left to it; the functions
  \<open>mb_send_resume\<close> and \<open>mb_recv_resume\<close> are this continuation, with the tick at which it blocked.
\<close>

section \<open>Operations\<close>

record mailbox = ipc_object +
  mb_pool :: "u32 list"
  mb_size :: u16
  mb_entry :: u16
  mb_in :: u16
  mb_out :: u16

abbreviation RT_MB_ENTRY_MAX :: u16 where "RT_MB_ENTRY_MAX \<equiv> 0xffff"

text \<open>\<open>pool\<close> is the memory behind the pointer the caller or the allocator provides.\<close>

definition new_mailbox :: "u8 \<Rightarrow> u8 \<Rightarrow> u32 list \<Rightarrow> u32 \<Rightarrow> mailbox" where
  "new_mailbox ty flag pool sz = \<lparr>ipc_type = ty, ipc_flag = flag, mb_pool = pool, mb_size = ucast sz, mb_entry = 0,
     mb_in = 0, mb_out = 0\<rparr>"

definition rt_mb_init :: "nat \<Rightarrow> u32 list \<Rightarrow> u32 \<Rightarrow> u8 \<Rightarrow> kernel \<Rightarrow> mailbox \<times> kernel" where
  "rt_mb_init i pool sz flag k =
    (new_mailbox (CLASS_MAILBOX OR CLASS_STATIC) flag pool sz, ipc_object_init (Senders i) (ipc_object_init (Waiting i) k))"

definition mb_resume_all :: "nat \<Rightarrow> kernel \<Rightarrow> kernel option" where
  "mb_resume_all i k = Option.bind (ipc_list_resume_all (Waiting i) k) (ipc_list_resume_all (Senders i))"

definition rt_mb_detach :: "nat \<Rightarrow> mailbox \<Rightarrow> kernel \<Rightarrow> (int \<times> mailbox \<times> kernel) option" where
  "rt_mb_detach i mb k = do {
     _ \<leftarrow> assert_that (obj_is CLASS_MAILBOX (ipc_type mb));
     _ \<leftarrow> assert_that (is_system (ipc_type mb));
     k1 \<leftarrow> mb_resume_all i k;
     Some (RT_EOK, mb\<lparr>ipc_type := 0\<rparr>, k1)
   }"

definition rt_mb_create :: "nat option \<Rightarrow> u32 list option \<Rightarrow> u32 \<Rightarrow> u8 \<Rightarrow> kernel \<Rightarrow> ((nat \<times> mailbox) option \<times> kernel) option" where
  "rt_mb_create object pool sz flag k = do {
     _ \<leftarrow> not_in_interrupt k;
     Some (case object of
       None \<Rightarrow> (None, k)
     | Some i \<Rightarrow>
         let k1 = ipc_object_init (Waiting i) k
         in case pool of
              None \<Rightarrow> (None, k1)
            | Some p \<Rightarrow> (Some (i, new_mailbox CLASS_MAILBOX flag p sz), ipc_object_init (Senders i) k1))
   }"

definition rt_mb_delete :: "nat \<Rightarrow> mailbox \<Rightarrow> kernel \<Rightarrow> (int \<times> mailbox \<times> kernel) option" where
  "rt_mb_delete i mb k = do {
     _ \<leftarrow> not_in_interrupt k;
     _ \<leftarrow> assert_that (obj_is CLASS_MAILBOX (ipc_type mb));
     _ \<leftarrow> assert_that (\<not> is_system (ipc_type mb));
     k1 \<leftarrow> mb_resume_all i k;
     Some (RT_EOK, mb\<lparr>ipc_type := 0\<rparr>, k1)
   }"

definition mb_next :: "u16 \<Rightarrow> u16 \<Rightarrow> u16" where
  "mb_next sz off = (if off + 1 \<ge> sz then 0 else off + 1)"

text \<open>A word is stored behind the last one; the flag is false when the count would overflow.\<close>

definition mb_put :: "u32 \<Rightarrow> mailbox \<Rightarrow> (bool \<times> mailbox) option" where
  "mb_put v mb = do {
     _ \<leftarrow> assert_that (unat (mb_in mb) < length (mb_pool mb));
     let mb1 = mb\<lparr>mb_pool := (mb_pool mb)[unat (mb_in mb) := v], mb_in := mb_next (mb_size mb) (mb_in mb)\<rparr>;
     Some (if mb_entry mb < RT_MB_ENTRY_MAX then (True, mb1\<lparr>mb_entry := mb_entry mb + 1\<rparr>) else (False, mb1))
   }"

definition mb_put_front :: "u32 \<Rightarrow> mailbox \<Rightarrow> mailbox option" where
  "mb_put_front v mb = do {
     let out = (if mb_out mb > 0 then mb_out mb - 1 else mb_size mb - 1);
     _ \<leftarrow> assert_that (unat out < length (mb_pool mb));
     Some (mb\<lparr>mb_out := out, mb_pool := (mb_pool mb)[unat out := v], mb_entry := mb_entry mb + 1\<rparr>)
   }"

definition mb_get :: "mailbox \<Rightarrow> (u32 \<times> mailbox) option" where
  "mb_get mb = do {
     _ \<leftarrow> assert_that (unat (mb_out mb) < length (mb_pool mb));
     Some (mb_pool mb ! unat (mb_out mb),
       mb\<lparr>mb_out := mb_next (mb_size mb) (mb_out mb), mb_entry := (if mb_entry mb > 0 then mb_entry mb - 1 else mb_entry mb)\<rparr>)
   }"

text \<open>From the head of the loop of \<open>rt_mb_send_wait\<close> to its end or to the point where it blocks.\<close>

definition mb_send_loop :: "nat \<Rightarrow> mailbox \<Rightarrow> u32 \<Rightarrow> int \<Rightarrow> kernel \<Rightarrow> (int outcome \<times> mailbox \<times> kernel) option" where
  "mb_send_loop i mb v timeout k =
    (if mb_entry mb = mb_size mb
     then do {
       t \<leftarrow> rt_thread_self k;
       let k1 = set_error t RT_EOK k;
       if timeout = 0 then Some (Done (- RT_EFULL), mb, k1)
       else do {
         _ \<leftarrow> in_thread_context k1;
         k2 \<leftarrow> ipc_block (Senders i) t (ipc_flag mb) timeout k1;
         Some (Blocked, mb, k2)
       }
     }
     else do {
       (ok, mb1) \<leftarrow> mb_put v mb;
       if \<not> ok then Some (Done (- RT_EFULL), mb1, k)
       else do {
         k1 \<leftarrow> wake_one (Waiting i) k;
         Some (Done RT_EOK, mb1, k1)
       }
     })"

definition rt_mb_send_wait :: "nat \<Rightarrow> mailbox \<Rightarrow> u32 \<Rightarrow> int \<Rightarrow> kernel \<Rightarrow> (int outcome \<times> mailbox \<times> kernel) option" where
  "rt_mb_send_wait i mb v timeout k = do {
     _ \<leftarrow> assert_that (obj_is CLASS_MAILBOX (ipc_type mb));
     if mb_entry mb = mb_size mb \<and> timeout = 0 then Some (Done (- RT_EFULL), mb, k)
     else mb_send_loop i mb v timeout k
   }"

definition mb_send_resume ::
  "nat \<Rightarrow> mailbox \<Rightarrow> u32 \<Rightarrow> int \<Rightarrow> u32 \<Rightarrow> nat \<Rightarrow> kernel \<Rightarrow> (int outcome \<times> mailbox \<times> kernel) option" where
  "mb_send_resume i mb v timeout tick_delta t k =
    (if th_error (threads k t) \<noteq> RT_EOK then Some (Done (th_error (threads k t)), mb, k)
     else mb_send_loop i mb v (time_left timeout tick_delta k) k)"

definition rt_mb_send :: "nat \<Rightarrow> mailbox \<Rightarrow> u32 \<Rightarrow> kernel \<Rightarrow> (int outcome \<times> mailbox \<times> kernel) option" where
  "rt_mb_send i mb v k = rt_mb_send_wait i mb v 0 k"

definition rt_mb_urgent :: "nat \<Rightarrow> mailbox \<Rightarrow> u32 \<Rightarrow> kernel \<Rightarrow> (int \<times> mailbox \<times> kernel) option" where
  "rt_mb_urgent i mb v k = do {
     _ \<leftarrow> assert_that (obj_is CLASS_MAILBOX (ipc_type mb));
     if mb_entry mb = mb_size mb then Some (- RT_EFULL, mb, k)
     else do {
       mb1 \<leftarrow> mb_put_front v mb;
       k1 \<leftarrow> wake_one (Waiting i) k;
       Some (RT_EOK, mb1, k1)
     }
   }"

definition mb_recv_loop :: "nat \<Rightarrow> mailbox \<Rightarrow> int \<Rightarrow> kernel \<Rightarrow> ((int \<times> u32 option) outcome \<times> mailbox \<times> kernel) option" where
  "mb_recv_loop i mb timeout k =
    (if mb_entry mb = 0
     then do {
       t \<leftarrow> rt_thread_self k;
       let k1 = set_error t RT_EOK k;
       if timeout = 0 then Some (Done (- RT_ETIMEOUT, None), mb, set_error t (- RT_ETIMEOUT) k1)
       else do {
         _ \<leftarrow> in_thread_context k1;
         k2 \<leftarrow> ipc_block (Waiting i) t (ipc_flag mb) timeout k1;
         Some (Blocked, mb, k2)
       }
     }
     else do {
       (v, mb1) \<leftarrow> mb_get mb;
       k1 \<leftarrow> wake_one (Senders i) k;
       Some (Done (RT_EOK, Some v), mb1, k1)
     })"

definition rt_mb_recv :: "nat \<Rightarrow> mailbox \<Rightarrow> int \<Rightarrow> kernel \<Rightarrow> ((int \<times> u32 option) outcome \<times> mailbox \<times> kernel) option" where
  "rt_mb_recv i mb timeout k = do {
     _ \<leftarrow> assert_that (obj_is CLASS_MAILBOX (ipc_type mb));
     if mb_entry mb = 0 \<and> timeout = 0 then Some (Done (- RT_ETIMEOUT, None), mb, k)
     else mb_recv_loop i mb timeout k
   }"

definition mb_recv_resume ::
  "nat \<Rightarrow> mailbox \<Rightarrow> int \<Rightarrow> u32 \<Rightarrow> nat \<Rightarrow> kernel \<Rightarrow> ((int \<times> u32 option) outcome \<times> mailbox \<times> kernel) option" where
  "mb_recv_resume i mb timeout tick_delta t k =
    (if th_error (threads k t) \<noteq> RT_EOK then Some (Done (th_error (threads k t), None), mb, k)
     else mb_recv_loop i mb (time_left timeout tick_delta k) k)"

definition rt_mb_control :: "nat \<Rightarrow> mailbox \<Rightarrow> ipc_cmd \<Rightarrow> kernel \<Rightarrow> (int \<times> mailbox \<times> kernel) option" where
  "rt_mb_control i mb cmd k = do {
     _ \<leftarrow> assert_that (obj_is CLASS_MAILBOX (ipc_type mb));
     case cmd of
       ResetCmd _ \<Rightarrow> do {
         k1 \<leftarrow> mb_resume_all i k;
         k2 \<leftarrow> rt_schedule k1;
         Some (RT_EOK, mb\<lparr>mb_entry := 0, mb_in := 0, mb_out := 0\<rparr>, k2)
       }
     | OtherIpcCmd \<Rightarrow> Some (- RT_ERROR, mb, k)
   }"

section \<open>The ring of words\<close>

text \<open>The two offsets are inside the pool, and the next free place is \<open>mb_entry\<close> places behind the
  oldest word.\<close>

definition mb_ok :: "mailbox \<Rightarrow> bool" where
  "mb_ok mb \<longleftrightarrow> obj_is CLASS_MAILBOX (ipc_type mb) \<and> ipc_flag mb \<in> {RT_IPC_FLAG_FIFO, RT_IPC_FLAG_PRIO} \<and>
     unat (mb_size mb) \<le> length (mb_pool mb) \<and> mb_in mb < mb_size mb \<and> mb_out mb < mb_size mb \<and> mb_entry mb \<le> mb_size mb \<and>
     unat (mb_in mb) = (unat (mb_out mb) + unat (mb_entry mb)) mod unat (mb_size mb)"

definition mb_contents :: "mailbox \<Rightarrow> u32 list" where
  "mb_contents mb = map (\<lambda>j. mb_pool mb ! ((unat (mb_out mb) + j) mod unat (mb_size mb))) [0..<unat (mb_entry mb)]"

lemma ring_places_differ: "j < e \<Longrightarrow> e < n \<Longrightarrow> (b + j) mod n \<noteq> (b + e) mod (n :: nat)"
proof
  assume "j < e" "e < n" "(b + j) mod n = (b + e) mod n"
  then have "n dvd (b + e) - (b + j)" using mod_eq_dvd_iff_nat [of "b + j" "b + e" n] by simp
  then have "n dvd e - j" by simp
  with \<open>j < e\<close> \<open>e < n\<close> show False using dvd_imp_le [of n "e - j"] by linarith
qed

lemma mb_next_eq: "off < sz \<Longrightarrow> unat (mb_next sz off) = (unat off + 1) mod unat sz"
proof -
  assume o: "off < sz"
  then have l: "unat off < unat sz" by (simp add: word_less_nat_alt)
  have "unat sz < 2 ^ 16" using unsigned_less [of sz] by simp
  then have s: "unat (off + 1) = unat off + 1" using l by (simp add: unat_word_ariths)
  show ?thesis
  proof (cases "unat off + 1 = unat sz")
    case True
    then have "off + 1 \<ge> sz" by (simp add: word_le_nat_alt s)
    with True show ?thesis by (simp add: mb_next_def)
  next
    case False
    then have "\<not> off + 1 \<ge> sz" using l by (simp add: word_le_nat_alt s)
    with False l show ?thesis by (simp add: mb_next_def s)
  qed
qed

lemma mb_entry_less:
  assumes "mb_ok mb" "length (mb_contents mb) < unat (mb_size mb)"
  shows "unat (mb_entry mb) < unat (mb_size mb)" "unat (mb_entry mb + 1) = unat (mb_entry mb) + 1" "mb_entry mb < RT_MB_ENTRY_MAX"
proof -
  show l: "unat (mb_entry mb) < unat (mb_size mb)" using assms by (simp add: mb_contents_def)
  have s: "unat (mb_size mb) < 2 ^ 16" using unsigned_less [of "mb_size mb"] by simp
  with l show "unat (mb_entry mb + 1) = unat (mb_entry mb) + 1" by (simp add: unat_word_ariths)
  from l s show "mb_entry mb < RT_MB_ENTRY_MAX" by (simp add: word_less_nat_alt)
qed

lemma mb_put_spec:
  assumes ok: "mb_ok mb" and l: "length (mb_contents mb) < unat (mb_size mb)"
  shows "\<exists>mb'. mb_put v mb = Some (True, mb') \<and> mb_ok mb' \<and> mb_size mb' = mb_size mb \<and> mb_contents mb' = mb_contents mb @ [v]"
proof -
  note e = mb_entry_less [OF ok l]
  define n where "n = unat (mb_size mb)"
  define b where "b = unat (mb_out mb)"
  define c where "c = unat (mb_entry mb)"
  note o = ok [unfolded mb_ok_def, folded n_def b_def c_def]
  have i: "unat (mb_in mb) = (b + c) mod n" "(b + c) mod n < length (mb_pool mb)" "0 < n" "c < n"
    using o e(1) by (auto simp: n_def c_def word_less_nat_alt)
  define mb' where "mb' = mb\<lparr>mb_pool := (mb_pool mb)[unat (mb_in mb) := v], mb_in := mb_next (mb_size mb) (mb_in mb), mb_entry := mb_entry mb + 1\<rparr>"
  have ne: "(b + c) mod n \<noteq> (b + j) mod n" if "j < c" for j using ring_places_differ [OF that i(4), of b] by simp
  have "mb_put v mb = Some (True, mb')" using i(1,2) e(3) by (simp add: mb_put_def mb'_def Let_def)
  moreover have "mb_contents mb' = mb_contents mb @ [v]"
    using i ne
    by (auto simp: mb_contents_def mb'_def e(2) n_def [symmetric] b_def [symmetric] c_def [symmetric])
  moreover have "unat (mb_in mb') = (b + unat (mb_entry mb')) mod n"
    using o mb_next_eq [of "mb_in mb" "mb_size mb"] by (simp add: mb'_def e(2) n_def [symmetric] c_def [symmetric] mod_simps add.assoc)
  moreover have "mb_in mb' < mb_size mb'" using calculation(3) i(3) by (simp add: word_less_nat_alt mb'_def n_def)
  moreover have "mb_entry mb' \<le> mb_size mb'" using e(1,2) by (simp add: mb'_def word_le_nat_alt)
  ultimately show ?thesis using o
    by (intro exI [of _ mb']) (simp add: mb_ok_def, simp add: mb'_def n_def b_def)
qed

lemma mb_put_front_spec:
  assumes ok: "mb_ok mb" and l: "length (mb_contents mb) < unat (mb_size mb)"
  shows "\<exists>mb'. mb_put_front v mb = Some mb' \<and> mb_ok mb' \<and> mb_size mb' = mb_size mb \<and> mb_contents mb' = v # mb_contents mb"
proof -
  note e = mb_entry_less [OF ok l]
  define n where "n = unat (mb_size mb)"
  define b where "b = unat (mb_out mb)"
  define c where "c = unat (mb_entry mb)"
  note o = ok [unfolded mb_ok_def, folded n_def b_def c_def]
  have i: "0 < n" "c < n" "b < n" "n \<le> length (mb_pool mb)" using o e(1) by (auto simp: n_def b_def c_def word_less_nat_alt)
  define out where "out = (if mb_out mb > 0 then mb_out mb - 1 else mb_size mb - 1)"
  have u: "unat out = (if b > 0 then b - 1 else n - 1)"
    using i(1) by (auto simp: out_def b_def n_def unat_minus_one unat_gt_0 word_neq_0_conv unat_eq_0)
  define mb' where "mb' = mb\<lparr>mb_out := out, mb_pool := (mb_pool mb)[unat out := v], mb_entry := mb_entry mb + 1\<rparr>"
  have ul: "unat out < n" using u i by auto
  have step: "Suc (unat out + j) mod n = (b + j) mod n" for j
    using u i by (cases "b > 0") simp_all
  have "mb_put_front v mb = Some mb'" using ul i(4) by (simp add: mb_put_front_def mb'_def Let_def out_def [symmetric])
  moreover have "mb_contents mb' = v # mb_contents mb"
  proof -
    have "mb_contents mb' = map (\<lambda>j. (mb_pool mb)[unat out := v] ! ((unat out + j) mod n)) (0 # map Suc [0..<c])"
      by (simp add: mb_contents_def mb'_def e(2) n_def c_def upt_conv_Cons map_Suc_upt del: upt_Suc)
    also have "\<dots> = v # map (\<lambda>j. (mb_pool mb)[unat out := v] ! ((b + j) mod n)) [0..<c]"
      using ul i(4) by (simp add: step)
    also have "map (\<lambda>j. (mb_pool mb)[unat out := v] ! ((b + j) mod n)) [0..<c] = mb_contents mb"
    proof -
      have "unat out \<noteq> (b + j) mod n" if "j < c" for j
      proof -
        have "unat out = (b + (n - 1)) mod n" using u i by (cases "b > 0") (auto simp: mod_if)
        moreover have "j < n - 1" using that i(2) by simp
        ultimately show ?thesis using ring_places_differ [of j "n - 1" n b] i(1) by auto
      qed
      then show ?thesis by (auto simp: mb_contents_def n_def b_def c_def)
    qed
    finally show ?thesis .
  qed
  moreover have "unat (mb_in mb') = (unat (mb_out mb') + unat (mb_entry mb')) mod unat (mb_size mb')"
    using o step [of c] by (simp add: mb'_def e(2) n_def [symmetric] c_def [symmetric] b_def [symmetric])
  moreover have "mb_out mb' < mb_size mb'" using ul by (simp add: word_less_nat_alt mb'_def n_def)
  moreover have "mb_entry mb' \<le> mb_size mb'" using e(1,2) by (simp add: mb'_def word_le_nat_alt)
  ultimately show ?thesis using o
    by (intro exI [of _ mb']) (simp add: mb_ok_def, simp add: mb'_def n_def)
qed

lemma mb_get_spec:
  assumes ok: "mb_ok mb" and l: "mb_contents mb = x # xs"
  shows "\<exists>mb'. mb_get mb = Some (x, mb') \<and> mb_ok mb' \<and> mb_size mb' = mb_size mb \<and> mb_contents mb' = xs"
proof -
  define n where "n = unat (mb_size mb)"
  define b where "b = unat (mb_out mb)"
  define c where "c = unat (mb_entry mb)"
  note o = ok [unfolded mb_ok_def, folded n_def b_def c_def]
  have c0: "0 < c" using l by (cases "unat (mb_entry mb)") (auto simp: mb_contents_def c_def)
  have i: "0 < n" "c \<le> n" "b < n" "n \<le> length (mb_pool mb)" using o by (auto simp: n_def b_def c_def word_less_nat_alt word_le_nat_alt)
  have en: "mb_entry mb > 0" using c0 by (simp add: c_def unat_gt_0 word_neq_0_conv)
  have u: "unat (mb_entry mb - 1) = c - 1" using en by (simp add: c_def unat_minus_one word_neq_0_conv)
  have nx: "unat (mb_next (mb_size mb) (mb_out mb)) = (b + 1) mod n" using o mb_next_eq by (simp add: n_def b_def)
  define mb' where "mb' = mb\<lparr>mb_out := mb_next (mb_size mb) (mb_out mb), mb_entry := mb_entry mb - 1\<rparr>"
  have cs: "mb_contents mb = map (\<lambda>j. mb_pool mb ! ((b + j) mod n)) (0 # map Suc [0..<c - 1])"
    using c0 by (simp add: mb_contents_def n_def b_def c_def upt_conv_Cons map_Suc_upt)
  then have x: "x = mb_pool mb ! b" "xs = map (\<lambda>j. mb_pool mb ! ((b + Suc j) mod n)) [0..<c - 1]" using l i(3) by simp_all
  have "mb_get mb = Some (x, mb')" using i en by (simp add: mb_get_def mb'_def x b_def)
  moreover have "mb_contents mb' = xs"
    by (simp add: mb_contents_def mb'_def u x nx n_def [symmetric] mod_simps)
  moreover have "unat (mb_in mb') = (unat (mb_out mb') + unat (mb_entry mb')) mod unat (mb_size mb')"
    using o mod_add_left_eq [of "b + 1" n "c - 1"] c0 by (simp add: mb'_def u nx n_def [symmetric])
  moreover have "mb_out mb' < mb_size mb'" using nx i(1) by (simp add: word_less_nat_alt mb'_def n_def)
  moreover have "mb_entry mb' \<le> mb_size mb'" using u i(2) by (simp add: mb'_def word_le_nat_alt n_def)
  ultimately show ?thesis using o
    by (intro exI [of _ mb']) (simp add: mb_ok_def, simp add: mb'_def n_def)
qed

interpretation mb: message_store mb_ok "\<lambda>mb. unat (mb_size mb)" mb_contents "\<lambda>_ _. True" "(=)"
  "\<lambda>mb. mb_entry mb = mb_size mb" "\<lambda>mb. mb_entry mb = 0"
  mb_put "\<lambda>v mb. map_option (Pair True) (mb_put_front v mb)" mb_get
proof unfold_locales
  fix mb :: mailbox and v x xs assume ok: "mb_ok mb"
  then have le: "unat (mb_entry mb) \<le> unat (mb_size mb)" by (simp add: mb_ok_def word_le_nat_alt)
  have len: "length (mb_contents mb) = unat (mb_entry mb)" by (simp add: mb_contents_def)
  show "length (mb_contents mb) \<le> unat (mb_size mb)" using le len by simp
  show "mb_entry mb = mb_size mb \<longleftrightarrow> length (mb_contents mb) = unat (mb_size mb)" by (simp add: len word_unat_eq_iff)
  show "mb_entry mb = 0 \<longleftrightarrow> mb_contents mb = []" by (simp add: mb_contents_def unat_eq_0)
  assume "length (mb_contents mb) < unat (mb_size mb)"
  then show "\<exists>s' x. mb_put v mb = Some (True, s') \<and> mb_ok s' \<and> unat (mb_size s') = unat (mb_size mb) \<and> v = x \<and> mb_contents s' = mb_contents mb @ [x]"
    "\<exists>s' x. map_option (Pair True) (mb_put_front v mb) = Some (True, s') \<and> mb_ok s' \<and> unat (mb_size s') = unat (mb_size mb) \<and> v = x \<and> mb_contents s' = x # mb_contents mb"
    using mb_put_spec [OF ok, of v] mb_put_front_spec [OF ok, of v] by auto
next
  show "\<exists>x. v = x" for v :: u32 by simp
next
  fix mb x xs assume "mb_ok mb" "mb_contents mb = x # xs"
  from mb_get_spec [OF this] show "\<exists>s'. mb_get mb = Some (x, s') \<and> mb_ok s' \<and> unat (mb_size s') = unat (mb_size mb) \<and> mb_contents s' = xs"
    by auto
qed

section \<open>The contract of a mailbox\<close>

lemma mb_send_loop_eq:
  "mb_send_loop i mb v timeout k = send_step (Senders i) (Waiting i) (ipc_flag mb) (mb_entry mb = mb_size mb) (mb_put v mb) mb timeout k"
  by (simp add: mb_send_loop_def send_step_def)

lemma mb_recv_loop_eq:
  "mb_recv_loop i mb timeout k = recv_step (Senders i) (Waiting i) (ipc_flag mb) (mb_entry mb = 0) (mb_get mb) mb timeout k"
  by (simp add: mb_recv_loop_def recv_step_def)

definition mb_abs :: "nat \<Rightarrow> mailbox \<Rightarrow> kernel \<Rightarrow> u32 list \<times> nat list \<times> nat list" where
  "mb_abs i mb k = (mb_contents mb, tlists k (Senders i), tlists k (Waiting i))"

lemma mb_okD: "mb_ok mb \<Longrightarrow> obj_is CLASS_MAILBOX (ipc_type mb)" "mb_ok mb \<Longrightarrow> ipc_flag mb \<in> {RT_IPC_FLAG_FIFO, RT_IPC_FLAG_PRIO}"
  by (simp_all add: mb_ok_def)

lemma mb_send_refines:
  assumes "kinv 1 k" "mb_ok mb" "runs t k" "timeout < 2 ^ 31 - 1"
  shows "\<exists>o' mb' k'. rt_mb_send_wait i mb v timeout k = Some (o', mb', k') \<and> kinv 1 k' \<and> mb_ok mb' \<and> mb_size mb' = mb_size mb \<and>
      ipc_frame {Senders i, Waiting i} {} k k' \<and>
      (o', mb_abs i mb' k') = spec_send_msg (ipc_flag mb) (\<lambda>x. current_priority (threads k x)) t timeout (unat (mb_size mb)) v (mb_abs i mb k)"
proof -
  note ty = mb_okD(1) [OF assms(2)]
  show ?thesis
  proof (cases "mb_entry mb = mb_size mb \<and> timeout = 0")
    case True
    then have "length (mb_contents mb) = unat (mb_size mb)" by (simp add: mb_contents_def)
    with True ty assms show ?thesis
      by (intro exI [of _ "Done (- RT_EFULL)"] exI [of _ mb] exI [of _ k]) (simp add: rt_mb_send_wait_def mb_abs_def spec_send_msg_def)
  next
    case False
    then have "rt_mb_send_wait i mb v timeout k = mb_send_loop i mb v timeout k" using ty by (auto simp: rt_mb_send_wait_def)
    with mb.send_refines [OF assms(1) _ assms(2) _ assms(3) mb_okD(2) [OF assms(2)] assms(4), where v = v and i = i] show ?thesis
      by (auto simp: mb_send_loop_eq mb_abs_def intro: word_unat_eq_iff [THEN iffD2])
  qed
qed

lemma mb_urgent_refines:
  assumes "kinv 1 k" "mb_ok mb" "current_thread k \<noteq> None"
  shows "\<exists>e mb' k'. rt_mb_urgent i mb v k = Some (e, mb', k') \<and> kinv 1 k' \<and> mb_ok mb' \<and> mb_size mb' = mb_size mb \<and>
      ipc_frame {Senders i, Waiting i} {} k k' \<and> (e, mb_abs i mb' k') = spec_push_msg (unat (mb_size mb)) v (mb_abs i mb k)"
proof -
  note ty = mb_okD(1) [OF assms(2)]
  show ?thesis
  proof (cases "mb_entry mb = mb_size mb")
    case True
    then have "length (mb_contents mb) = unat (mb_size mb)" by (simp add: mb_contents_def)
    with True ty assms show ?thesis
      by (intro exI [of _ "- RT_EFULL"] exI [of _ mb] exI [of _ k]) (simp add: rt_mb_urgent_def mb_abs_def spec_push_msg_def)
  next
    case False
    from mb.push_refines [OF assms(1,2) _ assms(3) False, where v = v and i = i] obtain mb' k' where
      "mb_put_front v mb = Some mb'" "wake_one (Waiting i) k = Some k'" "kinv 1 k'" "mb_ok mb'" "unat (mb_size mb') = unat (mb_size mb)"
      "ipc_frame {Senders i, Waiting i} {} k k'"
      "(RT_EOK, mb_contents mb', tlists k' (Senders i), tlists k' (Waiting i)) =
        spec_push_msg (unat (mb_size mb)) v (mb_contents mb, tlists k (Senders i), tlists k (Waiting i))"
      by auto
    with False ty show ?thesis
      by (intro exI [of _ RT_EOK] exI [of _ mb'] exI [of _ k']) (simp add: rt_mb_urgent_def mb_abs_def word_unat_eq_iff)
  qed
qed

lemma mb_recv_refines:
  assumes "kinv 1 k" "mb_ok mb" "runs t k" "timeout < 2 ^ 31 - 1"
  shows "\<exists>o' mb' k'. rt_mb_recv i mb timeout k = Some (o', mb', k') \<and> kinv 1 k' \<and> mb_ok mb' \<and> mb_size mb' = mb_size mb \<and>
      ipc_frame {Senders i, Waiting i} {} k k' \<and>
      (o', mb_abs i mb' k') = spec_recv_msg (ipc_flag mb) (\<lambda>x. current_priority (threads k x)) t timeout (mb_abs i mb k)"
proof -
  note ty = mb_okD(1) [OF assms(2)]
  show ?thesis
  proof (cases "mb_entry mb = 0 \<and> timeout = 0")
    case True
    then have "mb_contents mb = []" by (simp add: mb_contents_def)
    with True ty assms show ?thesis
      by (intro exI [of _ "Done (- RT_ETIMEOUT, None)"] exI [of _ mb] exI [of _ k]) (simp add: rt_mb_recv_def mb_abs_def spec_recv_msg_def)
  next
    case False
    then have "rt_mb_recv i mb timeout k = mb_recv_loop i mb timeout k" using ty by (auto simp: rt_mb_recv_def)
    with mb.recv_refines [OF assms(1) _ assms(2,3) mb_okD(2) [OF assms(2)] assms(4), where i = i] show ?thesis
      by (auto simp: mb_recv_loop_eq mb_abs_def intro: word_unat_eq_iff [THEN iffD2])
  qed
qed

text \<open>C18: a mailbox is a bounded queue of words. In a sound kernel, for a running thread,
  \<open>rt_mb_send_wait\<close>, \<open>rt_mb_urgent\<close> and \<open>rt_mb_recv\<close> do not go wrong, never touch memory outside of the pool,
  keep the kernel and the mailbox sound and refine the abstract queue with its two lists of suspended
  threads: words are received in the order they were sent, urgent ones first; a send or a
  receive that succeeds wakes the first thread of the other side; one that cannot proceed times out at once or queues in the order
  of the flag of the mailbox.\<close>

theorem mb_refines:
  assumes "kinv 1 k" "mb_ok mb" "runs t k" "timeout < 2 ^ 31 - 1"
  shows "(\<exists>o' mb' k'. rt_mb_send_wait i mb v timeout k = Some (o', mb', k') \<and> kinv 1 k' \<and> mb_ok mb' \<and> mb_size mb' = mb_size mb \<and>
      ipc_frame {Senders i, Waiting i} {} k k' \<and>
      (o', mb_abs i mb' k') = spec_send_msg (ipc_flag mb) (\<lambda>x. current_priority (threads k x)) t timeout (unat (mb_size mb)) v (mb_abs i mb k))
    \<and> (\<exists>e mb' k'. rt_mb_urgent i mb v k = Some (e, mb', k') \<and> kinv 1 k' \<and> mb_ok mb' \<and> mb_size mb' = mb_size mb \<and>
      ipc_frame {Senders i, Waiting i} {} k k' \<and> (e, mb_abs i mb' k') = spec_push_msg (unat (mb_size mb)) v (mb_abs i mb k))
    \<and> (\<exists>o' mb' k'. rt_mb_recv i mb timeout k = Some (o', mb', k') \<and> kinv 1 k' \<and> mb_ok mb' \<and> mb_size mb' = mb_size mb \<and>
      ipc_frame {Senders i, Waiting i} {} k k' \<and>
      (o', mb_abs i mb' k') = spec_recv_msg (ipc_flag mb) (\<lambda>x. current_priority (threads k x)) t timeout (mb_abs i mb k))"
  using mb_send_refines [OF assms] mb_urgent_refines [OF assms(1,2) runs_tail [OF assms(3)]] mb_recv_refines [OF assms] by (intro conjI)

definition demo_mb :: mailbox where
  "demo_mb = \<lparr>ipc_type = CLASS_MAILBOX, ipc_flag = RT_IPC_FLAG_FIFO, mb_pool = [7, 0, 5], mb_size = 3, mb_entry = 2, mb_in = 1, mb_out = 2\<rparr>"

lemma demo_mb_ok: "mb_ok demo_mb" "mb_contents demo_mb = [5, 7]"
  by (simp_all add: mb_ok_def demo_mb_def obj_is_def mb_contents_def upt_rec)

theorem mb_refines_witness:
  "\<exists>mb1 k1 mb2 k2. rt_mb_send_wait 0 demo_mb 9 4 one_waits = Some (Done RT_EOK, mb1, k1) \<and> mb_contents mb1 = [5, 7, 9] \<and> tlists k1 (Waiting 0) = [] \<and>
    rt_mb_recv 0 demo_mb 0 one_waits = Some (Done (RT_EOK, Some 5), mb2, k2) \<and> mb_contents mb2 = [7]"
proof -
  have s: "unat (mb_size demo_mb) = 3" by (simp add: demo_mb_def)
  note r = mb_refines [OF one_waits_inv demo_mb_ok(1) one_waits_simps(1)]
  show ?thesis
    using r [of 4 0 9] r [of 0 0 9]
    by (auto simp: mb_abs_def spec_send_msg_def spec_recv_msg_def demo_mb_ok(2) one_waits_simps s)
qed

text \<open>The life of a mailbox. \<open>rt_mb_init\<close> with memory for at least \<open>sz\<close> words, \<open>0 < sz < 2^16\<close>, on lists on
  which nobody waits, gives a sound mailbox of that capacity without messages and leaves the kernel as it
  is. Detaching a sound static mailbox and resetting any sound mailbox make all suspended senders and receivers
  return \<open>-RT_ERROR\<close> and empty both lists; the reset also drops all messages and leaves a sound mailbox.\<close>

theorem mb_life:
  assumes "kinv 1 k" "current_thread k \<noteq> None" "flag \<in> {RT_IPC_FLAG_FIFO, RT_IPC_FLAG_PRIO}" "0 < sz" "sz < 0x10000" "unat sz \<le> length pool"
    "mb_ok mb"
  shows "(tlists k (Waiting i) = [] \<and> tlists k (Senders i) = [] \<longrightarrow>
      (\<exists>mb0. rt_mb_init i pool sz flag k = (mb0, k) \<and> mb_ok mb0 \<and> mb_contents mb0 = [] \<and> unat (mb_size mb0) = unat sz))
    \<and> (is_system (ipc_type mb) \<longrightarrow> (\<exists>k'. rt_mb_detach i mb k = Some (RT_EOK, mb\<lparr>ipc_type := 0\<rparr>, k') \<and> kinv 1 k' \<and> tlists k' (Waiting i) = [] \<and>
      tlists k' (Senders i) = [] \<and>
      (\<forall>x \<in> set (tlists k (Waiting i)) \<union> set (tlists k (Senders i)). th_error (threads k' x) = - RT_ERROR)))
    \<and> (\<exists>mb' k'. rt_mb_control i mb (ResetCmd 0) k = Some (RT_EOK, mb', k') \<and> kinv 1 k' \<and> mb_ok mb' \<and> mb_contents mb' = [] \<and>
      tlists k' (Waiting i) = [] \<and> tlists k' (Senders i) = [] \<and>
      (\<forall>x \<in> set (tlists k (Waiting i)) \<union> set (tlists k (Senders i)). th_error (threads k' x) = - RT_ERROR))"
proof -
  have sz: "unat (ucast sz :: u16) = unat sz" using assms(5) by (simp add: unsigned_ucast_eq take_bit_eq_mod word_less_nat_alt)
  define mb0 where "mb0 = new_mailbox (CLASS_MAILBOX OR CLASS_STATIC) flag pool sz"
  have ok0: "mb_ok mb0" using assms(3,4,6) sz
    by (auto simp: mb_ok_def mb0_def new_mailbox_def obj_is_def word_less_nat_alt)
  have c0: "mb_contents mb0 = []" "unat (mb_size mb0) = unat sz" by (simp_all add: mb_contents_def mb0_def new_mailbox_def sz)
  note ty = mb_okD(1) [OF assms(7)]
  obtain k1 where k1: "mb_resume_all i k = Some k1" "kinv 1 k1"
    "current_thread k1 \<noteq> None" "ipc_frame {Senders i, Waiting i} {} k k1" "tlists k1 (Waiting i) = []" "tlists k1 (Senders i) = []"
    "\<And>x. x \<in> set (tlists k (Waiting i)) \<union> set (tlists k (Senders i)) \<Longrightarrow> th_error (threads k1 x) = - RT_ERROR"
    unfolding mb_resume_all_def by (rule resume_both_spec [OF assms(1,2), of i]) blast
  obtain k2 where k2: "rt_schedule k1 = Some k2" "kinv 1 k2" "kframe k1 k2" "\<And>l. wait_list l \<Longrightarrow> tlists k2 l = tlists k1 l"
    by (rule schedule_frame [OF k1(2,3)]) blast
  have e2: "th_error (threads k2 x) = - RT_ERROR" if "x \<in> set (tlists k (Waiting i)) \<union> set (tlists k (Senders i))" for x
    using k1(7) [OF that] kframe_threads(3) [OF k2(3), of x] by simp
  define mb' where "mb' = mb\<lparr>mb_entry := 0, mb_in := 0, mb_out := 0\<rparr>"
  have "mb_ok mb'" using assms(7) by (auto simp: mb_ok_def mb'_def word_less_nat_alt)
  moreover have "mb_contents mb' = []" by (simp add: mb_contents_def mb'_def)
  ultimately show ?thesis
    using ok0 c0 ty k1(1,2,5,6,7) k2(1,2,4) e2
    by (simp add: rt_mb_init_def mb0_def fresh_lists rt_mb_detach_def rt_mb_control_def mb'_def)
qed

theorem mb_life_witness:
  "\<exists>mb0. rt_mb_init 1 [0, 0, 0, 0] 4 RT_IPC_FLAG_FIFO one_waits = (mb0, one_waits) \<and> mb_ok mb0 \<and> unat (mb_size mb0) = 4"
proof -
  have "tlists one_waits (Waiting 1) = []" "tlists one_waits (Senders 1) = []" by (simp_all add: one_waits_def demo_facts)
  with mb_life [OF one_waits_inv _ _ _ _ _ demo_mb_ok(1), of RT_IPC_FLAG_FIFO 4 "[0, 0, 0, 0]" 1] show ?thesis
    by (auto simp: one_waits_simps)
qed

section \<open>Who gets the processor\<close>

lemma mb_fair:
  assumes "kinv 1 k" "mb_ok mb" "runs t k" "timeout < 2 ^ 31 - 1" "timeout \<noteq> 0 \<Longrightarrow> may_block t k"
  shows "rt_mb_send_wait i mb v timeout k = Some (o', mb', k') \<Longrightarrow> fair k k'"
    "rt_mb_recv i mb timeout k = Some (r', mb', k') \<Longrightarrow> fair k k'"
  using send_step_fair [OF assms(1,3) mb_okD(2) [OF assms(2)] assms(4,5), where i = i]
    recv_step_fair [OF assms(1,3) mb_okD(2) [OF assms(2)] assms(4,5), where i = i]
  by (auto simp: rt_mb_send_wait_def rt_mb_recv_def mb_send_loop_eq mb_recv_loop_eq fairI split: if_splits)

lemma mb_urgent_fair:
  assumes "kinv b k" "rt_mb_urgent i mb v k = Some (e, mb', k')"
  shows "fair k k'"
  using assms(2) wake_one_fair [OF assms(1) wait_list_simps(1), of i k']
  by (auto simp: rt_mb_urgent_def bind_eq_Some_conv fairI split: if_splits)


end
