(* ===== verification/MsgQueue.thy ===== *)
theory MsgQueue
  imports MsgStore
begin

text \<open>
  The message queues of \<^verbatim>\<open>rt-thread/src/ipc.c\<close>. The pool of a queue is divided into nodes, each a
  \<open>next\<close> pointer and room for one message; node \<open>n\<close> stands for the address
  \<open>msg_pool + n * (msg_size + sizeof(struct rt_mq_message))\<close> and \<open>None\<close> for the null pointer. The nodes
  are linked into the queue (\<open>mq_head\<close>, \<open>mq_tail\<close>) and the free list (\<open>mq_free\<close>).

  A send takes a node from the free list, copies the message with interrupts enabled and then links
  the node; a receive unlinks, copies and then frees. \<open>mq_alloc\<close>, \<open>mq_fill\<close>, \<open>mq_link_tail\<close>,
  \<open>mq_link_head\<close>, \<open>mq_unlink\<close> and \<open>mq_release\<close> are these sections; in the composed operations they follow
  each other.
\<close>

section \<open>Operations\<close>

record messagequeue = ipc_object +
  mq_msg_size :: u16
  mq_max_msgs :: u16
  mq_entry :: u16
  mq_head :: "nat option"
  mq_tail :: "nat option"
  mq_free :: "nat option"
  mq_nxt :: "nat \<Rightarrow> nat option"
  mq_data :: "nat \<Rightarrow> u8 list"

abbreviation RT_MQ_ENTRY_MAX :: u16 where "RT_MQ_ENTRY_MAX \<equiv> 0xffff"

text \<open>The loop that links all nodes into the free list.\<close>

definition mq_link_nodes :: "nat \<Rightarrow> nat option \<times> (nat \<Rightarrow> nat option) \<Rightarrow> nat option \<times> (nat \<Rightarrow> nat option)" where
  "mq_link_nodes cnt = fold (\<lambda>temp (free, nxt). (Some temp, nxt(temp := free))) [0..<cnt]"

text \<open>\<open>data\<close> and \<open>nxt\<close> are the memory of the pool.\<close>

definition new_mq :: "u8 \<Rightarrow> u8 \<Rightarrow> u16 \<Rightarrow> u16 \<Rightarrow> (nat \<Rightarrow> nat option) \<Rightarrow> (nat \<Rightarrow> u8 list) \<Rightarrow> messagequeue" where
  "new_mq ty flag msize msgs nxt data =
    (case mq_link_nodes (unat msgs) (None, nxt) of
       (free, nxt') \<Rightarrow> \<lparr>ipc_type = ty, ipc_flag = flag, mq_msg_size = msize, mq_max_msgs = msgs, mq_entry = 0,
         mq_head = None, mq_tail = None, mq_free = free, mq_nxt = nxt', mq_data = data\<rparr>)"

definition rt_mq_init ::
  "nat \<Rightarrow> (nat \<Rightarrow> nat option) \<Rightarrow> (nat \<Rightarrow> u8 list) \<Rightarrow> u32 \<Rightarrow> u32 \<Rightarrow> u8 \<Rightarrow> kernel \<Rightarrow> messagequeue \<times> kernel" where
  "rt_mq_init i nxt data msg_size pool_size flag k =
    (let msize = (ucast (RT_ALIGN msg_size RT_ALIGN_SIZE) :: u16);
         msgs = (ucast (pool_size div (ucast msize + 4)) :: u16)
     in (new_mq (CLASS_MESSAGEQUEUE OR CLASS_STATIC) flag msize msgs nxt data,
         ipc_object_init (Senders i) (ipc_object_init (Waiting i) k)))"

definition mq_resume_all :: "nat \<Rightarrow> kernel \<Rightarrow> kernel option" where
  "mq_resume_all i k = Option.bind (ipc_list_resume_all (Waiting i) k) (ipc_list_resume_all (Senders i))"

definition rt_mq_detach :: "nat \<Rightarrow> messagequeue \<Rightarrow> kernel \<Rightarrow> (int \<times> messagequeue \<times> kernel) option" where
  "rt_mq_detach i mq k = do {
     _ \<leftarrow> assert_that (obj_is CLASS_MESSAGEQUEUE (ipc_type mq));
     _ \<leftarrow> assert_that (is_system (ipc_type mq));
     k1 \<leftarrow> mq_resume_all i k;
     Some (RT_EOK, mq\<lparr>ipc_type := 0\<rparr>, k1)
   }"

definition rt_mq_create ::
  "nat option \<Rightarrow> ((nat \<Rightarrow> nat option) \<times> (nat \<Rightarrow> u8 list)) option \<Rightarrow> u32 \<Rightarrow> u32 \<Rightarrow> u8 \<Rightarrow> kernel \<Rightarrow>
     ((nat \<times> messagequeue) option \<times> kernel) option" where
  "rt_mq_create object pool msg_size max_msgs flag k = do {
     _ \<leftarrow> not_in_interrupt k;
     Some (case object of
       None \<Rightarrow> (None, k)
     | Some i \<Rightarrow>
         let k1 = ipc_object_init (Waiting i) k
         in case pool of
              None \<Rightarrow> (None, k1)
            | Some (nxt, data) \<Rightarrow>
                (Some (i, new_mq CLASS_MESSAGEQUEUE flag (ucast (RT_ALIGN msg_size RT_ALIGN_SIZE)) (ucast max_msgs) nxt data),
                 ipc_object_init (Senders i) k1))
   }"

definition rt_mq_delete :: "nat \<Rightarrow> messagequeue \<Rightarrow> kernel \<Rightarrow> (int \<times> messagequeue \<times> kernel) option" where
  "rt_mq_delete i mq k = do {
     _ \<leftarrow> not_in_interrupt k;
     _ \<leftarrow> assert_that (obj_is CLASS_MESSAGEQUEUE (ipc_type mq));
     _ \<leftarrow> assert_that (\<not> is_system (ipc_type mq));
     k1 \<leftarrow> mq_resume_all i k;
     Some (RT_EOK, mq\<lparr>ipc_type := 0\<rparr>, k1)
   }"

text \<open>The sections that work on the nodes.\<close>

definition mq_alloc :: "messagequeue \<Rightarrow> (nat \<times> messagequeue) option" where
  "mq_alloc mq = map_option (\<lambda>n. (n, mq\<lparr>mq_free := mq_nxt mq n\<rparr>)) (mq_free mq)"

definition mq_copy_in :: "nat \<Rightarrow> u8 list \<Rightarrow> messagequeue \<Rightarrow> messagequeue" where
  "mq_copy_in n buf mq = mq\<lparr>mq_data := (mq_data mq)(n := buf @ drop (length buf) (mq_data mq n))\<rparr>"

definition mq_fill :: "nat \<Rightarrow> u8 list \<Rightarrow> messagequeue \<Rightarrow> messagequeue" where
  "mq_fill n buf mq = mq_copy_in n buf (mq\<lparr>mq_nxt := (mq_nxt mq)(n := None)\<rparr>)"

definition mq_count :: "messagequeue \<Rightarrow> bool \<times> messagequeue" where
  "mq_count mq = (if mq_entry mq < RT_MQ_ENTRY_MAX then (True, mq\<lparr>mq_entry := mq_entry mq + 1\<rparr>) else (False, mq))"

definition mq_link_tail :: "nat \<Rightarrow> messagequeue \<Rightarrow> bool \<times> messagequeue" where
  "mq_link_tail n mq =
    (let mq1 = (case mq_tail mq of None \<Rightarrow> mq | Some l \<Rightarrow> mq\<lparr>mq_nxt := (mq_nxt mq)(l := Some n)\<rparr>);
         mq2 = mq1\<lparr>mq_tail := Some n\<rparr>;
         mq3 = (if mq_head mq2 = None then mq2\<lparr>mq_head := Some n\<rparr> else mq2)
     in mq_count mq3)"

definition mq_link_head :: "nat \<Rightarrow> messagequeue \<Rightarrow> bool \<times> messagequeue" where
  "mq_link_head n mq =
    (let mq1 = mq\<lparr>mq_nxt := (mq_nxt mq)(n := mq_head mq), mq_head := Some n\<rparr>;
         mq2 = (if mq_tail mq1 = None then mq1\<lparr>mq_tail := Some n\<rparr> else mq1)
     in mq_count mq2)"

definition mq_unlink :: "messagequeue \<Rightarrow> (nat \<times> messagequeue) option" where
  "mq_unlink mq = map_option (\<lambda>n.
     let mq1 = mq\<lparr>mq_head := mq_nxt mq n\<rparr>;
         mq2 = (if mq_tail mq1 = Some n then mq1\<lparr>mq_tail := None\<rparr> else mq1)
     in (n, if mq_entry mq2 > 0 then mq2\<lparr>mq_entry := mq_entry mq2 - 1\<rparr> else mq2)) (mq_head mq)"

definition mq_copy_out :: "nat \<Rightarrow> nat \<Rightarrow> messagequeue \<Rightarrow> u8 list" where
  "mq_copy_out n sz mq = take (if sz > unat (mq_msg_size mq) then unat (mq_msg_size mq) else sz) (mq_data mq n)"

definition mq_release :: "nat \<Rightarrow> messagequeue \<Rightarrow> messagequeue" where
  "mq_release n mq = mq\<lparr>mq_nxt := (mq_nxt mq)(n := mq_free mq), mq_free := Some n\<rparr>"

text \<open>The size of the message is the length of the list; the pointer to it is not null.\<close>

definition mq_send_loop :: "nat \<Rightarrow> messagequeue \<Rightarrow> u8 list \<Rightarrow> int \<Rightarrow> kernel \<Rightarrow> (int outcome \<times> messagequeue \<times> kernel) option" where
  "mq_send_loop i mq buffer timeout k =
    (case mq_alloc mq of
       None \<Rightarrow> do {
         t \<leftarrow> rt_thread_self k;
         let k1 = set_error t RT_EOK k;
         if timeout = 0 then Some (Done (- RT_EFULL), mq, k1)
         else do {
           _ \<leftarrow> in_thread_context k1;
           k2 \<leftarrow> ipc_block (Senders i) t (ipc_flag mq) timeout k1;
           Some (Blocked, mq, k2)
         }
       }
     | Some (n, mq1) \<Rightarrow>
         (case mq_link_tail n (mq_fill n buffer mq1) of
            (False, mq2) \<Rightarrow> Some (Done (- RT_EFULL), mq2, k)
          | (True, mq2) \<Rightarrow> do {
              k1 \<leftarrow> wake_one (Waiting i) k;
              Some (Done RT_EOK, mq2, k1)
            }))"

definition rt_mq_send_wait :: "nat \<Rightarrow> messagequeue \<Rightarrow> u8 list \<Rightarrow> int \<Rightarrow> kernel \<Rightarrow> (int outcome \<times> messagequeue \<times> kernel) option" where
  "rt_mq_send_wait i mq buffer timeout k = do {
     _ \<leftarrow> assert_that (obj_is CLASS_MESSAGEQUEUE (ipc_type mq));
     _ \<leftarrow> assert_that (buffer \<noteq> []);
     if length buffer > unat (mq_msg_size mq) then Some (Done (- RT_ERROR), mq, k)
     else if mq_free mq = None \<and> timeout = 0 then Some (Done (- RT_EFULL), mq, k)
     else mq_send_loop i mq buffer timeout k
   }"

definition mq_send_resume ::
  "nat \<Rightarrow> messagequeue \<Rightarrow> u8 list \<Rightarrow> int \<Rightarrow> u32 \<Rightarrow> nat \<Rightarrow> kernel \<Rightarrow> (int outcome \<times> messagequeue \<times> kernel) option" where
  "mq_send_resume i mq buffer timeout tick_delta t k =
    (if th_error (threads k t) \<noteq> RT_EOK then Some (Done (th_error (threads k t)), mq, k)
     else mq_send_loop i mq buffer (time_left timeout tick_delta k) k)"

definition rt_mq_send :: "nat \<Rightarrow> messagequeue \<Rightarrow> u8 list \<Rightarrow> kernel \<Rightarrow> (int outcome \<times> messagequeue \<times> kernel) option" where
  "rt_mq_send i mq buffer k = rt_mq_send_wait i mq buffer 0 k"

definition rt_mq_urgent :: "nat \<Rightarrow> messagequeue \<Rightarrow> u8 list \<Rightarrow> kernel \<Rightarrow> (int \<times> messagequeue \<times> kernel) option" where
  "rt_mq_urgent i mq buffer k = do {
     _ \<leftarrow> assert_that (obj_is CLASS_MESSAGEQUEUE (ipc_type mq));
     _ \<leftarrow> assert_that (buffer \<noteq> []);
     if length buffer > unat (mq_msg_size mq) then Some (- RT_ERROR, mq, k)
     else case mq_alloc mq of
       None \<Rightarrow> Some (- RT_EFULL, mq, k)
     | Some (n, mq1) \<Rightarrow>
         (case mq_link_head n (mq_copy_in n buffer mq1) of
            (False, mq2) \<Rightarrow> Some (- RT_EFULL, mq2, k)
          | (True, mq2) \<Rightarrow> do {
              k1 \<leftarrow> wake_one (Waiting i) k;
              Some (RT_EOK, mq2, k1)
            })
   }"

text \<open>The result of a receive is the error and the bytes written to the buffer of \<open>sz\<close> bytes.\<close>

definition mq_recv_loop ::
  "nat \<Rightarrow> messagequeue \<Rightarrow> nat \<Rightarrow> int \<Rightarrow> kernel \<Rightarrow> ((int \<times> u8 list option) outcome \<times> messagequeue \<times> kernel) option" where
  "mq_recv_loop i mq sz timeout k =
    (if mq_entry mq = 0
     then do {
       _ \<leftarrow> in_thread_context k;
       t \<leftarrow> rt_thread_self k;
       let k1 = set_error t RT_EOK k;
       if timeout = 0 then Some (Done (- RT_ETIMEOUT, None), mq, set_error t (- RT_ETIMEOUT) k1)
       else do {
         k2 \<leftarrow> ipc_block (Waiting i) t (ipc_flag mq) timeout k1;
         Some (Blocked, mq, k2)
       }
     }
     else do {
       (n, mq1) \<leftarrow> mq_unlink mq;
       k1 \<leftarrow> wake_one (Senders i) k;
       Some (Done (RT_EOK, Some (mq_copy_out n sz mq1)), mq_release n mq1, k1)
     })"

definition rt_mq_recv ::
  "nat \<Rightarrow> messagequeue \<Rightarrow> nat \<Rightarrow> int \<Rightarrow> kernel \<Rightarrow> ((int \<times> u8 list option) outcome \<times> messagequeue \<times> kernel) option" where
  "rt_mq_recv i mq sz timeout k = do {
     _ \<leftarrow> assert_that (obj_is CLASS_MESSAGEQUEUE (ipc_type mq));
     _ \<leftarrow> assert_that (sz \<noteq> 0);
     if mq_entry mq = 0 \<and> timeout = 0 then Some (Done (- RT_ETIMEOUT, None), mq, k)
     else mq_recv_loop i mq sz timeout k
   }"

definition mq_recv_resume ::
  "nat \<Rightarrow> messagequeue \<Rightarrow> nat \<Rightarrow> int \<Rightarrow> u32 \<Rightarrow> nat \<Rightarrow> kernel \<Rightarrow> ((int \<times> u8 list option) outcome \<times> messagequeue \<times> kernel) option" where
  "mq_recv_resume i mq sz timeout tick_delta t k =
    (if th_error (threads k t) \<noteq> RT_EOK then Some (Done (th_error (threads k t), None), mq, k)
     else mq_recv_loop i mq sz (time_left timeout tick_delta k) k)"

text \<open>The loop of \<open>RT_IPC_CMD_RESET\<close> that frees all messages.\<close>

partial_function (option) mq_reset_loop :: "messagequeue \<Rightarrow> messagequeue option" where
  "mq_reset_loop mq =
    (case mq_head mq of
       None \<Rightarrow> Some mq
     | Some n \<Rightarrow>
         let mq1 = mq\<lparr>mq_head := mq_nxt mq n\<rparr>;
             mq2 = (if mq_tail mq1 = Some n then mq1\<lparr>mq_tail := None\<rparr> else mq1)
         in mq_reset_loop (mq_release n mq2))"

definition rt_mq_control :: "nat \<Rightarrow> messagequeue \<Rightarrow> ipc_cmd \<Rightarrow> kernel \<Rightarrow> (int \<times> messagequeue \<times> kernel) option" where
  "rt_mq_control i mq cmd k = do {
     _ \<leftarrow> assert_that (obj_is CLASS_MESSAGEQUEUE (ipc_type mq));
     case cmd of
       ResetCmd _ \<Rightarrow> do {
         k1 \<leftarrow> mq_resume_all i k;
         mq1 \<leftarrow> mq_reset_loop mq;
         k2 \<leftarrow> rt_schedule k1;
         Some (RT_EOK, mq1\<lparr>mq_entry := 0\<rparr>, k2)
       }
     | OtherIpcCmd \<Rightarrow> Some (- RT_ERROR, mq, k)
   }"

section \<open>The linked nodes\<close>

text \<open>The nodes that are reached from a pointer, up to the null pointer.\<close>

fun mq_chain :: "(nat \<Rightarrow> nat option) \<Rightarrow> nat option \<Rightarrow> nat list \<Rightarrow> bool" where
  "mq_chain nxt p [] \<longleftrightarrow> p = None"
| "mq_chain nxt p (x # xs) \<longleftrightarrow> p = Some x \<and> mq_chain nxt (nxt x) xs"

text \<open>The first nodes from a pointer.\<close>

fun walk :: "nat \<Rightarrow> (nat \<Rightarrow> nat option) \<Rightarrow> nat option \<Rightarrow> nat list" where
  "walk (Suc c) nxt (Some x) = x # walk c nxt (nxt x)"
| "walk _ _ _ = []"

lemma mq_chain_walk: "mq_chain nxt p xs \<Longrightarrow> length xs \<le> c \<Longrightarrow> walk c nxt p = xs"
proof (induction xs arbitrary: p c)
  case Nil
  then show ?case by (cases c) auto
next
  case (Cons x xs)
  then show ?case by (cases c) auto
qed

lemma mq_chain_cong: "(\<And>x. x \<in> set xs \<Longrightarrow> nxt' x = nxt x) \<Longrightarrow> mq_chain nxt' p xs = mq_chain nxt p xs"
  by (induction xs arbitrary: p) auto

lemma mq_chain_upd [simp]: "n \<notin> set xs \<Longrightarrow> mq_chain (nxt(n := y)) p xs = mq_chain nxt p xs"
  by (rule mq_chain_cong) auto

lemma mq_chain_append: "mq_chain nxt p xs \<Longrightarrow> distinct (xs @ [n]) \<Longrightarrow> nxt n = None \<Longrightarrow> xs \<noteq> [] \<Longrightarrow>
    mq_chain (nxt(last xs := Some n)) p (xs @ [n])"
proof (induction xs arbitrary: p)
  case (Cons x xs)
  show ?case
  proof (cases "xs = []")
    case False
    have "mq_chain (nxt(last xs := Some n)) (nxt x) (xs @ [n])" by (rule Cons.IH) (use Cons.prems False in auto)
    moreover have "x \<noteq> last xs" using Cons.prems(2) last_in_set [OF False] by auto
    moreover have "last (x # xs) = last xs" using False by simp
    ultimately show ?thesis using Cons.prems(1) by (simp add: fun_upd_def)
  qed (use Cons.prems in simp)
qed simp

lemma mq_chain_head: "mq_chain nxt p xs \<Longrightarrow> p = (case xs of [] \<Rightarrow> None | x # _ \<Rightarrow> Some x)"
  by (cases xs) auto

text \<open>All nodes are in the queue, in the free list, or in the hands \<open>F\<close> of a sender or receiver between two
  of its sections.\<close>

definition mq_inv :: "nat set \<Rightarrow> messagequeue \<Rightarrow> nat list \<Rightarrow> nat list \<Rightarrow> bool" where
  "mq_inv F mq qs fs \<longleftrightarrow> mq_chain (mq_nxt mq) (mq_head mq) qs \<and> mq_chain (mq_nxt mq) (mq_free mq) fs \<and> distinct (qs @ fs) \<and>
     set (qs @ fs) \<inter> F = {} \<and> set (qs @ fs) \<union> F = {..<unat (mq_max_msgs mq)} \<and>
     mq_tail mq = (if qs = [] then None else Some (last qs)) \<and> unat (mq_entry mq) = length qs \<and>
     (\<forall>n < unat (mq_max_msgs mq). length (mq_data mq n) = unat (mq_msg_size mq))"

lemma mq_invD:
  assumes "mq_inv F mq qs fs"
  shows "mq_chain (mq_nxt mq) (mq_head mq) qs" "mq_chain (mq_nxt mq) (mq_free mq) fs" "distinct (qs @ fs)" "set (qs @ fs) \<inter> F = {}"
    "set (qs @ fs) \<union> F = {..<unat (mq_max_msgs mq)}" "mq_tail mq = (if qs = [] then None else Some (last qs))"
    "unat (mq_entry mq) = length qs" "n < unat (mq_max_msgs mq) \<Longrightarrow> length (mq_data mq n) = unat (mq_msg_size mq)"
  using assms by (simp_all add: mq_inv_def)

lemma mq_inv_card:
  assumes i: "mq_inv F mq qs fs"
  shows "length qs + length fs + card F = unat (mq_max_msgs mq)"
proof -
  note d = mq_invD [OF i]
  have fin: "finite F" using d(5) by (metis finite_Un finite_lessThan)
  have "card (set (qs @ fs) \<union> F) = card (set (qs @ fs)) + card F" using d(4) fin by (intro card_Un_disjoint) auto
  also have "card (set (qs @ fs)) = length qs + length fs" using distinct_card [OF d(3)] by simp
  finally show ?thesis using d(5) by simp
qed

text \<open>The count does not overflow while a node is in hand.\<close>

lemma mq_count_room:
  assumes i: "mq_inv F mq qs fs" and n: "n \<in> F"
  shows "mq_entry mq < RT_MQ_ENTRY_MAX" "unat (mq_entry mq + 1) = Suc (length qs)"
proof -
  have fin: "finite F" using mq_invD(5) [OF i] by (metis finite_Un finite_lessThan)
  then have "0 < card F" using n by (auto simp: card_gt_0_iff)
  then have "length qs < unat (mq_max_msgs mq)" using mq_inv_card [OF i] by simp
  moreover have "unat (mq_max_msgs mq) < 2 ^ 16" using unsigned_less [of "mq_max_msgs mq"] by simp
  ultimately have u: "unat (mq_entry mq) < 65535" using mq_invD(7) [OF i] by simp
  then show "mq_entry mq < RT_MQ_ENTRY_MAX" by (simp add: word_less_nat_alt)
  from u show "unat (mq_entry mq + 1) = Suc (length qs)" using mq_invD(7) [OF i] by (simp add: unat_word_ariths)
qed

section \<open>The sections keep the nodes together\<close>

lemma mq_alloc_spec:
  assumes i: "mq_inv F mq qs fs"
  shows "case fs of [] \<Rightarrow> mq_alloc mq = None
    | n # ns \<Rightarrow> \<exists>mq'. mq_alloc mq = Some (n, mq') \<and> mq_inv (insert n F) mq' qs ns \<and> mq_data mq' = mq_data mq \<and>
        mq_max_msgs mq' = mq_max_msgs mq \<and> mq_msg_size mq' = mq_msg_size mq \<and> ipc_type mq' = ipc_type mq \<and> ipc_flag mq' = ipc_flag mq"
proof (cases fs)
  case Nil
  then show ?thesis using mq_invD(2) [OF i] by (simp add: mq_alloc_def)
next
  case (Cons n ns)
  note d = mq_invD [OF i]
  have f: "mq_free mq = Some n" "mq_chain (mq_nxt mq) (mq_nxt mq n) ns" using d(2) Cons by auto
  have "mq_inv (insert n F) (mq\<lparr>mq_free := mq_nxt mq n\<rparr>) qs ns"
    using d f(2) unfolding mq_inv_def Cons by auto
  with f(1) Cons show ?thesis by (simp add: mq_alloc_def)
qed

lemma mq_copy_in_spec:
  assumes i: "mq_inv F mq qs fs" and n: "n \<in> F" and l: "length buf \<le> unat (mq_msg_size mq)"
  shows "mq_inv F (mq_copy_in n buf mq) qs fs" "mq_data (mq_copy_in n buf mq) n = buf @ drop (length buf) (mq_data mq n)"
    "\<And>x. x \<noteq> n \<Longrightarrow> mq_data (mq_copy_in n buf mq) x = mq_data mq x"
proof -
  note d = mq_invD [OF i]
  have "n < unat (mq_max_msgs mq)" using n d(5) by auto
  then have "length (mq_data mq n) = unat (mq_msg_size mq)" using d(8) by simp
  then show "mq_inv F (mq_copy_in n buf mq) qs fs" using d l unfolding mq_inv_def mq_copy_in_def by auto
qed (simp_all add: mq_copy_in_def)

lemma mq_fill_spec:
  assumes i: "mq_inv F mq qs fs" and n: "n \<in> F" and l: "length buf \<le> unat (mq_msg_size mq)"
  shows "mq_inv F (mq_fill n buf mq) qs fs" "mq_data (mq_fill n buf mq) n = buf @ drop (length buf) (mq_data mq n)"
    "\<And>x. x \<noteq> n \<Longrightarrow> mq_data (mq_fill n buf mq) x = mq_data mq x" "mq_nxt (mq_fill n buf mq) n = None"
proof -
  note d = mq_invD [OF i]
  have "n \<notin> set qs" "n \<notin> set fs" using n d(4) by auto
  then have "mq_inv F (mq\<lparr>mq_nxt := (mq_nxt mq)(n := None)\<rparr>) qs fs" using d unfolding mq_inv_def by auto
  then show "mq_inv F (mq_fill n buf mq) qs fs" unfolding mq_fill_def by (rule mq_copy_in_spec(1) [OF _ n]) (simp add: l)
qed (simp_all add: mq_fill_def mq_copy_in_def)

lemma mq_link_tail_spec:
  assumes i: "mq_inv F mq qs fs" and n: "n \<in> F" "mq_nxt mq n = None"
  shows "\<exists>mq'. mq_link_tail n mq = (True, mq') \<and> mq_inv (F - {n}) mq' (qs @ [n]) fs \<and> mq_data mq' = mq_data mq \<and>
    mq_max_msgs mq' = mq_max_msgs mq \<and> mq_msg_size mq' = mq_msg_size mq \<and> ipc_type mq' = ipc_type mq \<and> ipc_flag mq' = ipc_flag mq"
proof -
  note d = mq_invD [OF i]
  note c = mq_count_room [OF i n(1)]
  have nq: "n \<notin> set qs" "n \<notin> set fs" using n d(4) by auto
  show ?thesis
  proof (cases "qs = []")
    case True
    define mq' where "mq' = mq\<lparr>mq_tail := Some n, mq_head := Some n, mq_entry := mq_entry mq + 1\<rparr>"
    have "mq_link_tail n mq = (True, mq')" using True d(1,6) c(1) by (simp add: mq_link_tail_def mq_count_def mq'_def)
    moreover have "mq_inv (F - {n}) mq' (qs @ [n]) fs" using d c(2) n nq True unfolding mq_inv_def mq'_def by auto
    ultimately show ?thesis by (simp add: mq'_def)
  next
    case False
    define mq' where "mq' = mq\<lparr>mq_nxt := (mq_nxt mq)(last qs := Some n), mq_tail := Some n, mq_entry := mq_entry mq + 1\<rparr>"
    have h: "mq_head mq \<noteq> None" using d(1) False by (cases qs) auto
    have "mq_link_tail n mq = (True, mq')" using False h d(6) c(1) by (auto simp: mq_link_tail_def mq_count_def mq'_def Let_def)
    moreover have "mq_chain (mq_nxt mq') (mq_head mq') (qs @ [n])"
      using mq_chain_append [OF d(1) _ n(2) False] nq d(3) by (simp add: mq'_def)
    moreover have "last qs \<notin> set fs" using d(3) last_in_set [OF False] by auto
    then have "mq_chain (mq_nxt mq') (mq_free mq') fs" using d(2) by (simp add: mq'_def)
    ultimately have "mq_inv (F - {n}) mq' (qs @ [n]) fs"
      using d(3-8) c(2) n nq False unfolding mq_inv_def mq'_def by auto
    with \<open>mq_link_tail n mq = (True, mq')\<close> show ?thesis by (simp add: mq'_def)
  qed
qed

lemma mq_link_head_spec:
  assumes i: "mq_inv F mq qs fs" and n: "n \<in> F"
  shows "\<exists>mq'. mq_link_head n mq = (True, mq') \<and> mq_inv (F - {n}) mq' (n # qs) fs \<and> mq_data mq' = mq_data mq \<and>
    mq_max_msgs mq' = mq_max_msgs mq \<and> mq_msg_size mq' = mq_msg_size mq \<and> ipc_type mq' = ipc_type mq \<and> ipc_flag mq' = ipc_flag mq"
proof -
  note d = mq_invD [OF i]
  note c = mq_count_room [OF i n]
  have nq: "n \<notin> set qs" "n \<notin> set fs" using n d(4) by auto
  define mq' where "mq' = mq\<lparr>mq_nxt := (mq_nxt mq)(n := mq_head mq), mq_head := Some n,
    mq_tail := (if qs = [] then Some n else mq_tail mq), mq_entry := mq_entry mq + 1\<rparr>"
  have "mq_link_head n mq = (True, mq')" using d(6) c(1) by (simp add: mq_link_head_def mq_count_def mq'_def Let_def)
  moreover have "mq_inv (F - {n}) mq' (n # qs) fs" using d c(2) n nq unfolding mq_inv_def mq'_def by auto
  ultimately show ?thesis by (simp add: mq'_def)
qed

lemma mq_unlink_spec:
  assumes i: "mq_inv F mq (n # qs) fs"
  shows "\<exists>mq'. mq_unlink mq = Some (n, mq') \<and> mq_inv (insert n F) mq' qs fs \<and> mq_data mq' = mq_data mq \<and>
    mq_max_msgs mq' = mq_max_msgs mq \<and> mq_msg_size mq' = mq_msg_size mq \<and> ipc_type mq' = ipc_type mq \<and> ipc_flag mq' = ipc_flag mq"
proof -
  note d = mq_invD [OF i]
  have h: "mq_head mq = Some n" "mq_chain (mq_nxt mq) (mq_nxt mq n) qs" using d(1) by auto
  have e: "mq_entry mq > 0" "unat (mq_entry mq - 1) = length qs"
  proof -
    show "mq_entry mq > 0" using d(7) by (simp add: word_less_nat_alt)
    then show "unat (mq_entry mq - 1) = length qs" using d(7) by (simp add: unat_minus_one word_neq_0_conv)
  qed
  have t: "mq_tail mq = Some n \<longleftrightarrow> qs = []" using d(3,6) by (auto split: if_splits)
  define mq' where "mq' = mq\<lparr>mq_head := mq_nxt mq n, mq_tail := (if qs = [] then None else mq_tail mq), mq_entry := mq_entry mq - 1\<rparr>"
  have "mq_unlink mq = Some (n, mq')" using h(1) e(1) t by (auto simp: mq_unlink_def mq'_def Let_def)
  moreover have "mq_inv (insert n F) mq' qs fs" using d h(2) e(2) unfolding mq_inv_def mq'_def by auto
  ultimately show ?thesis by (simp add: mq'_def)
qed

lemma mq_release_spec:
  assumes i: "mq_inv F mq qs fs" and n: "n \<in> F"
  shows "mq_inv (F - {n}) (mq_release n mq) qs (n # fs)" "mq_data (mq_release n mq) = mq_data mq"
proof -
  note d = mq_invD [OF i]
  have "n \<notin> set qs" "n \<notin> set fs" using n d(4) by auto
  then show "mq_inv (F - {n}) (mq_release n mq) qs (n # fs)" using d n unfolding mq_inv_def mq_release_def by auto
qed (simp add: mq_release_def)

section \<open>The queue as a store of messages\<close>

definition mq_ok :: "messagequeue \<Rightarrow> bool" where
  "mq_ok mq \<longleftrightarrow> obj_is CLASS_MESSAGEQUEUE (ipc_type mq) \<and> ipc_flag mq \<in> {RT_IPC_FLAG_FIFO, RT_IPC_FLAG_PRIO} \<and>
     (\<exists>qs fs. mq_inv {} mq qs fs)"

definition mq_contents :: "messagequeue \<Rightarrow> u8 list list" where
  "mq_contents mq = map (mq_data mq) (walk (unat (mq_entry mq)) (mq_nxt mq) (mq_head mq))"

lemma mq_contents_eq: "mq_inv F mq qs fs \<Longrightarrow> mq_contents mq = map (mq_data mq) qs"
  using mq_invD(1,7) mq_chain_walk by (fastforce simp: mq_contents_def)

text \<open>The store operations: the sections of a send or a receive one after the other.\<close>

definition mq_put :: "u8 list \<Rightarrow> messagequeue \<Rightarrow> (bool \<times> messagequeue) option" where
  "mq_put v mq = map_option (\<lambda>(n, mq1). mq_link_tail n (mq_fill n v mq1)) (mq_alloc mq)"

definition mq_push :: "u8 list \<Rightarrow> messagequeue \<Rightarrow> (bool \<times> messagequeue) option" where
  "mq_push v mq = map_option (\<lambda>(n, mq1). mq_link_head n (mq_copy_in n v mq1)) (mq_alloc mq)"

definition mq_get :: "messagequeue \<Rightarrow> (u8 list \<times> messagequeue) option" where
  "mq_get mq = map_option (\<lambda>(n, mq1). (mq_data mq1 n, mq_release n mq1)) (mq_unlink mq)"

definition holds_msg :: "u8 list \<Rightarrow> u8 list \<Rightarrow> bool" where
  "holds_msg v x \<longleftrightarrow> take (length v) x = v"

lemma holds_append [simp]: "holds_msg v (v @ pad)"
  by (simp add: holds_msg_def)

lemma mq_put_spec:
  assumes ok: "mq_ok mq" and l: "length v \<le> unat (mq_msg_size mq)" "length (mq_contents mq) < unat (mq_max_msgs mq)"
  shows "\<exists>mq' x. mq_put v mq = Some (True, mq') \<and> mq_ok mq' \<and> mq_max_msgs mq' = mq_max_msgs mq \<and> holds_msg v x \<and>
      mq_contents mq' = mq_contents mq @ [x]"
    "\<exists>mq' x. mq_push v mq = Some (True, mq') \<and> mq_ok mq' \<and> mq_max_msgs mq' = mq_max_msgs mq \<and> holds_msg v x \<and>
      mq_contents mq' = x # mq_contents mq"
proof -
  obtain qs fs where i: "mq_inv {} mq qs fs" using ok by (auto simp: mq_ok_def)
  have "fs \<noteq> []" using l(2) mq_inv_card [OF i] by (auto simp: mq_contents_eq [OF i])
  then obtain n ns where fs: "fs = n # ns" by (cases fs) auto
  obtain mq1 where a: "mq_alloc mq = Some (n, mq1)" "mq_inv {n} mq1 qs ns" "mq_data mq1 = mq_data mq"
    "mq_max_msgs mq1 = mq_max_msgs mq" "mq_msg_size mq1 = mq_msg_size mq" "ipc_type mq1 = ipc_type mq" "ipc_flag mq1 = ipc_flag mq"
    using mq_alloc_spec [OF i] by (auto simp: fs)
  have nq: "n \<notin> set qs" using mq_invD(4) [OF a(2)] by simp
  have l1: "length v \<le> unat (mq_msg_size mq1)" using l a(5) by simp
  have same: "map (mq_data mqx) qs = mq_contents mq" if d: "\<And>x. x \<noteq> n \<Longrightarrow> mq_data mqx x = mq_data mq1 x" for mqx :: messagequeue
    unfolding mq_contents_eq [OF i] by (rule map_cong [OF refl]) (use d nq a(3) in metis)
  show "\<exists>mq' x. mq_put v mq = Some (True, mq') \<and> mq_ok mq' \<and> mq_max_msgs mq' = mq_max_msgs mq \<and> holds_msg v x \<and>
      mq_contents mq' = mq_contents mq @ [x]"
  proof -
    note f = mq_fill_spec [OF a(2) _ l1, of n]
    have fi: "mq_inv {n} (mq_fill n v mq1) qs ns" using f(1) by simp
    obtain mq' where b: "mq_link_tail n (mq_fill n v mq1) = (True, mq')" "mq_inv ({n} - {n}) mq' (qs @ [n]) ns"
      "mq_data mq' = mq_data (mq_fill n v mq1)" "mq_max_msgs mq' = mq_max_msgs (mq_fill n v mq1)" "ipc_type mq' = ipc_type (mq_fill n v mq1)"
      "ipc_flag mq' = ipc_flag (mq_fill n v mq1)"
      using mq_link_tail_spec [OF fi, of n] f(4) by auto
    have "mq_contents mq' = map (mq_data mq') qs @ [mq_data mq' n]" using mq_contents_eq [OF b(2)] by simp
    also have "map (mq_data mq') qs = mq_contents mq" by (rule same) (use f(3) b(3) in simp)
    finally show ?thesis
      using a b f(2) ok by (intro exI [of _ mq'] exI [of _ "mq_data mq' n"]) (auto simp: mq_put_def mq_ok_def, (simp add: mq_fill_def mq_copy_in_def)+)
  qed
  show "\<exists>mq' x. mq_push v mq = Some (True, mq') \<and> mq_ok mq' \<and> mq_max_msgs mq' = mq_max_msgs mq \<and> holds_msg v x \<and>
      mq_contents mq' = x # mq_contents mq"
  proof -
    note f = mq_copy_in_spec [OF a(2) _ l1, of n]
    have fi: "mq_inv {n} (mq_copy_in n v mq1) qs ns" using f(1) by simp
    obtain mq' where b: "mq_link_head n (mq_copy_in n v mq1) = (True, mq')" "mq_inv ({n} - {n}) mq' (n # qs) ns"
      "mq_data mq' = mq_data (mq_copy_in n v mq1)" "mq_max_msgs mq' = mq_max_msgs (mq_copy_in n v mq1)" "ipc_type mq' = ipc_type (mq_copy_in n v mq1)"
      "ipc_flag mq' = ipc_flag (mq_copy_in n v mq1)"
      using mq_link_head_spec [OF fi, of n] by auto
    have "mq_contents mq' = mq_data mq' n # map (mq_data mq') qs" using mq_contents_eq [OF b(2)] by simp
    also have "map (mq_data mq') qs = mq_contents mq" by (rule same) (use f(3) b(3) in simp)
    finally show ?thesis
      using a b f(2) ok by (intro exI [of _ mq'] exI [of _ "mq_data mq' n"]) (auto simp: mq_push_def mq_ok_def, (simp add: mq_copy_in_def)+)
  qed
qed

lemma mq_get_spec:
  assumes ok: "mq_ok mq" and l: "mq_contents mq = x # xs"
  shows "\<exists>mq'. mq_get mq = Some (x, mq') \<and> mq_ok mq' \<and> mq_max_msgs mq' = mq_max_msgs mq \<and> mq_contents mq' = xs"
proof -
  obtain qs0 fs where i: "mq_inv {} mq qs0 fs" using ok by (auto simp: mq_ok_def)
  obtain n qs where qs: "qs0 = n # qs" "x = mq_data mq n" "xs = map (mq_data mq) qs"
    using l by (auto simp: mq_contents_eq [OF i])
  obtain mq1 where a: "mq_unlink mq = Some (n, mq1)" "mq_inv {n} mq1 qs fs" "mq_data mq1 = mq_data mq"
    "mq_max_msgs mq1 = mq_max_msgs mq" "ipc_type mq1 = ipc_type mq" "ipc_flag mq1 = ipc_flag mq"
    using mq_unlink_spec [OF i [unfolded qs(1)]] by auto
  have r: "mq_inv {} (mq_release n mq1) qs (n # fs)" using mq_release_spec(1) [OF a(2), of n] by simp
  have "mq_get mq = Some (x, mq_release n mq1)" using a qs by (simp add: mq_get_def)
  moreover have "mq_contents (mq_release n mq1) = xs" using mq_contents_eq [OF r] a(3) qs(3) by (simp add: mq_release_def)
  moreover have "mq_ok (mq_release n mq1)" using ok a r by (auto simp: mq_ok_def mq_release_def)
  moreover have "mq_max_msgs (mq_release n mq1) = mq_max_msgs mq" by (simp add: mq_release_def a(4))
  ultimately show ?thesis by blast
qed

lemma mq_ok_full: "mq_ok mq \<Longrightarrow> mq_free mq = None \<longleftrightarrow> length (mq_contents mq) = unat (mq_max_msgs mq)"
  "mq_ok mq \<Longrightarrow> length (mq_contents mq) \<le> unat (mq_max_msgs mq)" "mq_ok mq \<Longrightarrow> mq_entry mq = 0 \<longleftrightarrow> mq_contents mq = []"
proof -
  assume "mq_ok mq"
  then obtain qs fs where i: "mq_inv {} mq qs fs" by (auto simp: mq_ok_def)
  note c = mq_inv_card [OF i]
  have f: "mq_free mq = None \<longleftrightarrow> fs = []" using mq_invD(2) [OF i] by (cases fs) auto
  show "mq_free mq = None \<longleftrightarrow> length (mq_contents mq) = unat (mq_max_msgs mq)" "length (mq_contents mq) \<le> unat (mq_max_msgs mq)"
    using c f by (auto simp: mq_contents_eq [OF i])
  show "mq_entry mq = 0 \<longleftrightarrow> mq_contents mq = []"
    using mq_invD(7) [OF i] by (auto simp: mq_contents_eq [OF i] unat_eq_0 [symmetric])
qed

interpretation mq: message_store mq_ok "\<lambda>mq. unat (mq_max_msgs mq)" mq_contents "\<lambda>mq v. length v \<le> unat (mq_msg_size mq)" holds_msg
  "\<lambda>mq. mq_free mq = None" "\<lambda>mq. mq_entry mq = 0" mq_put mq_push mq_get
proof unfold_locales
  fix mq :: messagequeue and v :: "u8 list" assume ok: "mq_ok mq"
  show "length (mq_contents mq) \<le> unat (mq_max_msgs mq)" "mq_free mq = None \<longleftrightarrow> length (mq_contents mq) = unat (mq_max_msgs mq)"
    "mq_entry mq = 0 \<longleftrightarrow> mq_contents mq = []" using mq_ok_full [OF ok] by blast+
  assume "length v \<le> unat (mq_msg_size mq)" "length (mq_contents mq) < unat (mq_max_msgs mq)"
  from mq_put_spec [OF ok this]
  show "\<exists>s' x. mq_put v mq = Some (True, s') \<and> mq_ok s' \<and> unat (mq_max_msgs s') = unat (mq_max_msgs mq) \<and> holds_msg v x \<and> mq_contents s' = mq_contents mq @ [x]"
    "\<exists>s' x. mq_push v mq = Some (True, s') \<and> mq_ok s' \<and> unat (mq_max_msgs s') = unat (mq_max_msgs mq) \<and> holds_msg v x \<and> mq_contents s' = x # mq_contents mq"
    by metis+
next
  show "\<exists>x. holds_msg v x" for v by (rule exI [of _ v]) (simp add: holds_msg_def)
next
  fix mq x xs assume "mq_ok mq" "mq_contents mq = x # xs"
  from mq_get_spec [OF this] show "\<exists>s'. mq_get mq = Some (x, s') \<and> mq_ok s' \<and> unat (mq_max_msgs s') = unat (mq_max_msgs mq) \<and> mq_contents s' = xs"
    by auto
qed

text \<open>The code's loops are the blocking send and receive of theory MsgStore on this store.\<close>

lemma mq_send_loop_eq:
  "mq_send_loop i mq v timeout k = send_step (Senders i) (Waiting i) (ipc_flag mq) (mq_free mq = None) (mq_put v mq) mq timeout k"
  by (cases "mq_free mq") (auto simp: mq_send_loop_def send_step_def mq_put_def mq_alloc_def Let_def split: prod.splits bool.splits)

lemma mq_recv_loop_eq:
  assumes "runs t k"
  shows "mq_recv_loop i mq sz timeout k = map_option (\<lambda>(o', s, k'). (map_outcome (\<lambda>(e, x). (e, map_option (take (min sz (unat (mq_msg_size mq)))) x)) o', s, k'))
    (recv_step (Senders i) (Waiting i) (ipc_flag mq) (mq_entry mq = 0) (mq_get mq) mq timeout k)"
proof (cases "mq_entry mq = 0")
  case True
  have "runs t (set_error t RT_EOK k)" using assms by (simp add: runs_def)
  from runs_context [OF this] runs_context [OF assms] True show ?thesis
    by (cases "ipc_block (Waiting i) t (ipc_flag mq) timeout (set_error t RT_EOK k)") (simp_all add: mq_recv_loop_def recv_step_def Let_def)
next
  case False
  have m: "mq_msg_size mq1 = mq_msg_size mq" if "mq_unlink mq = Some (n, mq1)" for n mq1
    using that by (auto simp: mq_unlink_def Let_def)
  show ?thesis
  proof (cases "mq_unlink mq")
    case (Some r)
    obtain n mq1 where r: "r = (n, mq1)" by (cases r)
    with Some have "mq_msg_size mq1 = mq_msg_size mq" using m by blast
    then have c: "mq_copy_out n sz mq1 = take (min sz (unat (mq_msg_size mq))) (mq_data mq1 n)"
      by (simp add: mq_copy_out_def min_def)
    with False Some r show ?thesis
      by (cases "wake_one (Senders i) k") (simp_all add: mq_recv_loop_def recv_step_def mq_get_def)
  qed (use False in \<open>simp add: mq_recv_loop_def recv_step_def mq_get_def\<close>)
qed

section \<open>The contract of a message queue\<close>

text \<open>C8: the nodes of a message queue stay together in every interleaving of sends and receives. A send and a
  receive work in sections with interrupts enabled in between, so other threads may run their
  sections in the meantime. Let \<open>F\<close> be the nodes that are in hand between two sections, and let queue and
  free list have the rest. Then each section keeps the two lists disjoint, duplicate free and complete, and count
  and tail right: taking a free node, filling a node in hand, linking it at either end, unlinking the
  first message and freeing a node in hand; and the count never overflows, so no message is
  dropped.\<close>

theorem mq_sections_safe:
  assumes i: "mq_inv F mq qs fs"
  shows "(\<forall>n ns. fs = n # ns \<longrightarrow> (\<exists>mq'. mq_alloc mq = Some (n, mq') \<and> mq_inv (insert n F) mq' qs ns))
    \<and> (\<forall>n \<in> F. \<forall>buf. length buf \<le> unat (mq_msg_size mq) \<longrightarrow> mq_inv F (mq_fill n buf mq) qs fs \<and> mq_inv F (mq_copy_in n buf mq) qs fs)
    \<and> (\<forall>n \<in> F. mq_nxt mq n = None \<longrightarrow> (\<exists>mq'. mq_link_tail n mq = (True, mq') \<and> mq_inv (F - {n}) mq' (qs @ [n]) fs))
    \<and> (\<forall>n \<in> F. \<exists>mq'. mq_link_head n mq = (True, mq') \<and> mq_inv (F - {n}) mq' (n # qs) fs)
    \<and> (\<forall>n ns. qs = n # ns \<longrightarrow> (\<exists>mq'. mq_unlink mq = Some (n, mq') \<and> mq_inv (insert n F) mq' ns fs))
    \<and> (\<forall>n \<in> F. mq_inv (F - {n}) (mq_release n mq) qs (n # fs))"
proof (intro conjI allI impI ballI)
  fix n ns assume "fs = n # ns"
  with mq_alloc_spec [OF i] show "\<exists>mq'. mq_alloc mq = Some (n, mq') \<and> mq_inv (insert n F) mq' qs ns" by auto
next
  fix n and buf :: "u8 list" assume "n \<in> F" "length buf \<le> unat (mq_msg_size mq)"
  from mq_fill_spec(1) [OF i this] show "mq_inv F (mq_fill n buf mq) qs fs" .
next
  fix n and buf :: "u8 list" assume "n \<in> F" "length buf \<le> unat (mq_msg_size mq)"
  from mq_copy_in_spec(1) [OF i this] show "mq_inv F (mq_copy_in n buf mq) qs fs" .
next
  fix n assume "n \<in> F" "mq_nxt mq n = None"
  from mq_link_tail_spec [OF i this] show "\<exists>mq'. mq_link_tail n mq = (True, mq') \<and> mq_inv (F - {n}) mq' (qs @ [n]) fs" by auto
next
  fix n assume "n \<in> F"
  from mq_link_head_spec [OF i this] show "\<exists>mq'. mq_link_head n mq = (True, mq') \<and> mq_inv (F - {n}) mq' (n # qs) fs" by auto
next
  fix n ns assume "qs = n # ns"
  with mq_unlink_spec [of F mq n ns fs] i show "\<exists>mq'. mq_unlink mq = Some (n, mq') \<and> mq_inv (insert n F) mq' ns fs" by auto
next
  fix n assume "n \<in> F"
  from mq_release_spec(1) [OF i this] show "mq_inv (F - {n}) (mq_release n mq) qs (n # fs)" .
qed

text \<open>Three nodes: 2 holds a message, 0 is free and 1 is in the hands of a sender.\<close>

definition demo_mq :: messagequeue where
  "demo_mq = \<lparr>ipc_type = CLASS_MESSAGEQUEUE, ipc_flag = RT_IPC_FLAG_FIFO, mq_msg_size = 4, mq_max_msgs = 3, mq_entry = 1,
     mq_head = Some 2, mq_tail = Some 2, mq_free = Some 0, mq_nxt = (\<lambda>_. None), mq_data = (\<lambda>_. [9, 8, 7, 6])\<rparr>"

lemma demo_mq_inv: "mq_inv {1} demo_mq [2] [0]"
  by (auto simp: mq_inv_def demo_mq_def lessThan_nat_numeral lessThan_Suc)

theorem mq_sections_safe_witness:
  "\<exists>mq'. mq_link_tail 1 demo_mq = (True, mq') \<and> mq_inv {} mq' [2, 1] [0]"
  using mq_sections_safe [OF demo_mq_inv] by (auto simp: demo_mq_def)

definition mq_abs :: "nat \<Rightarrow> messagequeue \<Rightarrow> kernel \<Rightarrow> u8 list list \<times> nat list \<times> nat list" where
  "mq_abs i mq k = (mq_contents mq, tlists k (Senders i), tlists k (Waiting i))"

lemma mq_okD: "mq_ok mq \<Longrightarrow> obj_is CLASS_MESSAGEQUEUE (ipc_type mq)" "mq_ok mq \<Longrightarrow> ipc_flag mq \<in> {RT_IPC_FLAG_FIFO, RT_IPC_FLAG_PRIO}"
  by (simp_all add: mq_ok_def)

lemma mq_ok_free: "mq_ok mq \<Longrightarrow> mq_free mq = None \<Longrightarrow> length (mq_contents mq) = unat (mq_max_msgs mq)"
  using mq_ok_full(1) by blast

lemma mq_ok_empty: "mq_ok mq \<Longrightarrow> mq_entry mq = 0 \<Longrightarrow> mq_contents mq = []"
  using mq_ok_full(3) by blast

lemma mq_send_refines:
  assumes "kinv 1 k" "mq_ok mq" "runs t k" "timeout < 2 ^ 31 - 1" "v \<noteq> []" and fits: "length v \<le> unat (mq_msg_size mq)"
  shows "\<exists>o' mq' k' x. rt_mq_send_wait i mq v timeout k = Some (o', mq', k') \<and> kinv 1 k' \<and> mq_ok mq' \<and> ipc_frame {Senders i, Waiting i} {} k k' \<and> holds_msg v x \<and>
        (o', mq_abs i mq' k') = spec_send_msg (ipc_flag mq) (\<lambda>x. current_priority (threads k x)) t timeout (unat (mq_max_msgs mq)) x (mq_abs i mq k)"
proof (cases "mq_free mq = None \<and> timeout = 0")
  case True
  with mq_ok_free [OF assms(2)] mq_okD(1) [OF assms(2)] fits assms show ?thesis
    by (intro exI [of _ "Done (- RT_EFULL)"] exI [of _ mq] exI [of _ k] exI [of _ v])
      (auto simp: rt_mq_send_wait_def mq_abs_def spec_send_msg_def holds_msg_def)
next
  case False
  then have "rt_mq_send_wait i mq v timeout k = mq_send_loop i mq v timeout k"
    using mq_okD(1) [OF assms(2)] fits assms(5) by (auto simp: rt_mq_send_wait_def)
  with mq.send_refines [OF assms(1) _ assms(2) fits assms(3) mq_okD(2) [OF assms(2)] assms(4), where i = i] show ?thesis
    by (simp add: mq_send_loop_eq mq_abs_def) blast
qed

lemma mq_urgent_refines:
  assumes "kinv 1 k" "mq_ok mq" "current_thread k \<noteq> None" "v \<noteq> []" and fits: "length v \<le> unat (mq_msg_size mq)"
  shows "\<exists>e mq' k' x. rt_mq_urgent i mq v k = Some (e, mq', k') \<and> kinv 1 k' \<and> mq_ok mq' \<and> ipc_frame {Senders i, Waiting i} {} k k' \<and> holds_msg v x \<and>
        (e, mq_abs i mq' k') = spec_push_msg (unat (mq_max_msgs mq)) x (mq_abs i mq k)"
proof (cases "mq_free mq = None")
  case True
  with mq_ok_free [OF assms(2)] mq_okD(1) [OF assms(2)] fits assms show ?thesis
    by (intro exI [of _ "- RT_EFULL"] exI [of _ mq] exI [of _ k] exI [of _ v])
      (simp add: rt_mq_urgent_def mq_abs_def spec_push_msg_def holds_msg_def mq_alloc_def)
next
  case False
  from mq.push_refines [OF assms(1,2) fits assms(3) False, where i = i] obtain mq' k' x where
    r: "mq_push v mq = Some (True, mq')" "wake_one (Waiting i) k = Some k'" "kinv 1 k'" "mq_ok mq'" "ipc_frame {Senders i, Waiting i} {} k k'" "holds_msg v x"
    "(RT_EOK, mq_contents mq', tlists k' (Senders i), tlists k' (Waiting i)) =
      spec_push_msg (unat (mq_max_msgs mq)) x (mq_contents mq, tlists k (Senders i), tlists k (Waiting i))"
    by auto
  from r(1) obtain n mq1 where a: "mq_alloc mq = Some (n, mq1)" "mq_link_head n (mq_copy_in n v mq1) = (True, mq')"
    by (auto simp: mq_push_def)
  have "rt_mq_urgent i mq v k = Some (RT_EOK, mq', k')"
    using mq_okD(1) [OF assms(2)] fits assms(4) a r(2) by (simp add: rt_mq_urgent_def)
  with r(3-7) show ?thesis by (intro exI [of _ RT_EOK] exI [of _ mq'] exI [of _ k'] exI [of _ x]) (simp add: mq_abs_def)
qed

lemma mq_recv_refines:
  assumes "kinv 1 k" "mq_ok mq" "runs t k" "timeout < 2 ^ 31 - 1" "sz \<noteq> 0"
  shows "\<exists>o' mq' k'. rt_mq_recv i mq sz timeout k = Some (map_outcome (\<lambda>(e, x). (e, map_option (take (min sz (unat (mq_msg_size mq)))) x)) o', mq', k') \<and>
      kinv 1 k' \<and> mq_ok mq' \<and> ipc_frame {Senders i, Waiting i} {} k k' \<and>
      (o', mq_abs i mq' k') = spec_recv_msg (ipc_flag mq) (\<lambda>x. current_priority (threads k x)) t timeout (mq_abs i mq k)"
proof (cases "mq_entry mq = 0 \<and> timeout = 0")
  case True
  with mq_ok_empty [OF assms(2)] mq_okD(1) [OF assms(2)] assms show ?thesis
    by (intro exI [of _ "Done (- RT_ETIMEOUT, None)"] exI [of _ mq] exI [of _ k]) (simp add: rt_mq_recv_def mq_abs_def spec_recv_msg_def)
next
  case False
  then have "rt_mq_recv i mq sz timeout k = mq_recv_loop i mq sz timeout k" using mq_okD(1) [OF assms(2)] assms(5) by (auto simp: rt_mq_recv_def)
  moreover obtain o' mq' k' where "recv_step (Senders i) (Waiting i) (ipc_flag mq) (mq_entry mq = 0) (mq_get mq) mq timeout k = Some (o', mq', k')"
    "kinv 1 k'" "mq_ok mq'" "ipc_frame {Senders i, Waiting i} {} k k'" "(o', mq_contents mq', tlists k' (Senders i), tlists k' (Waiting i)) =
    spec_recv_msg (ipc_flag mq) (\<lambda>x. current_priority (threads k x)) t timeout (mq_contents mq, tlists k (Senders i), tlists k (Waiting i))"
    using mq.recv_refines [OF assms(1) _ assms(2,3) mq_okD(2) [OF assms(2)] assms(4), where i = i] by auto
  ultimately show ?thesis
    by (intro exI [of _ o'] exI [of _ mq'] exI [of _ k']) (simp add: mq_recv_loop_eq [OF assms(3)] mq_abs_def)
qed

text \<open>C24: a message queue is a bounded queue of messages. In a sound kernel, for a running thread and a message of at most
  the message size, \<open>rt_mq_send_wait\<close>, \<open>rt_mq_urgent\<close> and \<open>rt_mq_recv\<close> do not go wrong, keep the
  kernel and the queue sound and refine the abstract queue with its two lists of suspended threads. A sent message is stored in a
  node \<open>x\<close> that begins with it; a receive gets the first bytes of the oldest node, as many as fit
  its buffer. A message longer than the message size is refused.\<close>

theorem mq_refines:
  assumes "kinv 1 k" "mq_ok mq" "runs t k" "timeout < 2 ^ 31 - 1" "v \<noteq> []" "sz \<noteq> 0"
  shows "(if length v \<le> unat (mq_msg_size mq)
     then (\<exists>o' mq' k' x. rt_mq_send_wait i mq v timeout k = Some (o', mq', k') \<and> kinv 1 k' \<and> mq_ok mq' \<and> ipc_frame {Senders i, Waiting i} {} k k' \<and> holds_msg v x \<and>
        (o', mq_abs i mq' k') = spec_send_msg (ipc_flag mq) (\<lambda>x. current_priority (threads k x)) t timeout (unat (mq_max_msgs mq)) x (mq_abs i mq k))
      \<and> (\<exists>e mq' k' x. rt_mq_urgent i mq v k = Some (e, mq', k') \<and> kinv 1 k' \<and> mq_ok mq' \<and> ipc_frame {Senders i, Waiting i} {} k k' \<and> holds_msg v x \<and>
        (e, mq_abs i mq' k') = spec_push_msg (unat (mq_max_msgs mq)) x (mq_abs i mq k))
     else rt_mq_send_wait i mq v timeout k = Some (Done (- RT_ERROR), mq, k) \<and> rt_mq_urgent i mq v k = Some (- RT_ERROR, mq, k))
    \<and> (\<exists>o' mq' k'. rt_mq_recv i mq sz timeout k = Some (map_outcome (\<lambda>(e, x). (e, map_option (take (min sz (unat (mq_msg_size mq)))) x)) o', mq', k') \<and>
      kinv 1 k' \<and> mq_ok mq' \<and> ipc_frame {Senders i, Waiting i} {} k k' \<and>
      (o', mq_abs i mq' k') = spec_recv_msg (ipc_flag mq) (\<lambda>x. current_priority (threads k x)) t timeout (mq_abs i mq k))"
  using mq_send_refines [OF assms(1-5)] mq_urgent_refines [OF assms(1,2) runs_tail [OF assms(3)] assms(5)]
    mq_recv_refines [OF assms(1-4,6)] mq_okD(1) [OF assms(2)] assms(5)
  by (cases "length v \<le> unat (mq_msg_size mq)") (simp_all add: rt_mq_send_wait_def rt_mq_urgent_def)

lemma mq_link_nodes_chain:
  "case mq_link_nodes cnt (None, nxt) of (free, nxt') \<Rightarrow> mq_chain nxt' free (rev [0..<cnt])"
proof (induction cnt)
  case (Suc cnt)
  obtain free nxt' where r: "mq_link_nodes cnt (None, nxt) = (free, nxt')" by (cases "mq_link_nodes cnt (None, nxt)")
  then have "mq_link_nodes (Suc cnt) (None, nxt) = (Some cnt, nxt'(cnt := free))" by (simp add: mq_link_nodes_def)
  with Suc r show ?case by simp
qed (simp add: mq_link_nodes_def)

text \<open>A new message queue has all its nodes free. \<open>rt_mq_init\<close> for messages of \<open>msg_size\<close> bytes in a pool of
  \<open>pool_size\<close> bytes rounds the size up to a multiple of 4 and divides the pool into as many nodes as it holds; the
  result is a sound, empty queue of that many messages, when both numbers fit 16 bits and the pool
  memory is there.\<close>

lemma mq_init_ready:
  assumes "unat (RT_ALIGN msg_size 4) < 2 ^ 16" "n = unat pool_size div (unat (RT_ALIGN msg_size 4) + 4)" "n < 2 ^ 16"
    "\<And>j. j < n \<Longrightarrow> length (data j) = unat (RT_ALIGN msg_size 4)" "flag \<in> {RT_IPC_FLAG_FIFO, RT_IPC_FLAG_PRIO}"
    "tlists k (Waiting i) = []" "tlists k (Senders i) = []"
  shows "\<exists>mq. rt_mq_init i nxt data msg_size pool_size flag k = (mq, k) \<and> mq_ok mq \<and> mq_contents mq = [] \<and>
    unat (mq_max_msgs mq) = n \<and> unat (mq_msg_size mq) = unat (RT_ALIGN msg_size 4) \<and> mq_inv {} mq [] (rev [0..<n])"
proof -
  define msize where "msize = (ucast (RT_ALIGN msg_size 4) :: u16)"
  have ms: "unat msize = unat (RT_ALIGN msg_size 4)" using assms(1) by (simp add: msize_def unsigned_ucast_eq take_bit_eq_mod)
  define msgs where "msgs = (ucast (pool_size div (ucast msize + 4)) :: u16)"
  have "unat (ucast msize :: u32) = unat msize" using assms(1) by (simp add: unsigned_ucast_eq take_bit_eq_mod ms)
  then have "unat (ucast msize + 4 :: u32) = unat (RT_ALIGN msg_size 4) + 4" using ms assms(1) by (simp add: unat_word_ariths)
  then have "unat (pool_size div (ucast msize + 4)) = n" by (simp add: unat_div assms(2))
  then have mg: "unat msgs = n" using assms(3) by (simp add: msgs_def unsigned_ucast_eq take_bit_eq_mod)
  obtain free nxt' where r: "mq_link_nodes n (None, nxt) = (free, nxt')" by (cases "mq_link_nodes n (None, nxt)")
  define mq where "mq = new_mq (CLASS_MESSAGEQUEUE OR CLASS_STATIC) flag msize msgs nxt data"
  have f: "mq_nxt mq = nxt'" "mq_free mq = free" "mq_head mq = None" "mq_tail mq = None" "mq_entry mq = 0" "mq_max_msgs mq = msgs"
    "mq_msg_size mq = msize" "mq_data mq = data" "ipc_type mq = CLASS_MESSAGEQUEUE OR CLASS_STATIC" "ipc_flag mq = flag"
    by (simp_all add: mq_def new_mq_def mg r)
  have i: "mq_inv {} mq [] (rev [0..<n])"
    using mq_link_nodes_chain [of n nxt] assms(4) by (auto simp: mq_inv_def f r mg ms)
  moreover have "mq_ok mq" using i assms(5) unfolding mq_ok_def f by (auto simp: obj_is_def)
  moreover have "rt_mq_init i nxt data msg_size pool_size flag k = (mq, k)"
    by (simp add: rt_mq_init_def Let_def fresh_lists assms(6,7)) (simp add: mq_def msize_def msgs_def)
  moreover have "mq_contents mq = []" using mq_contents_eq [OF i] by simp
  ultimately show ?thesis using f mg ms by auto
qed

lemma mq_init_ready_witness:
  "\<exists>mq. rt_mq_init 1 (\<lambda>_. None) (\<lambda>_. [1, 2, 3, 4, 5, 6, 7, 8]) 5 39 RT_IPC_FLAG_FIFO one_waits = (mq, one_waits) \<and> mq_ok mq \<and>
    unat (mq_max_msgs mq) = 3"
proof -
  have a: "unat (RT_ALIGN 5 4) = 8" by (simp add: unat_RT_ALIGN)
  have l: "tlists one_waits (Waiting 1) = []" "tlists one_waits (Senders 1) = []" by (simp_all add: one_waits_def demo_facts)
  show ?thesis
    using mq_init_ready [of 5 3 39 "\<lambda>_. [1, 2, 3, 4, 5, 6, 7, 8]" RT_IPC_FLAG_FIFO one_waits 1 "\<lambda>_. None"] l
    by (auto simp: a)
qed

theorem mq_refines_witness:
  "\<exists>mq' k' x. rt_mq_send_wait 0 (mq_release 1 demo_mq) [1, 2] 0 one_waits = Some (Done RT_EOK, mq', k') \<and>
    mq_contents mq' = [[9, 8, 7, 6], x] \<and> take 2 x = [1, 2] \<and> tlists k' (Waiting 0) = []"
proof -
  define q where "q = mq_release 1 demo_mq"
  have i: "mq_inv {} q [2] [1, 0]" using mq_release_spec(1) [OF demo_mq_inv, of 1] by (simp add: q_def)
  then have ok: "mq_ok q" by (auto simp: mq_ok_def q_def mq_release_def demo_mq_def obj_is_def)
  have c: "mq_contents q = [[9, 8, 7, 6]]" using mq_contents_eq [OF i] by (simp add: q_def mq_release_def demo_mq_def)
  have d: "unat (mq_msg_size q) = 4" "unat (mq_max_msgs q) = 3"
    by (simp_all add: q_def mq_release_def demo_mq_def)
  show ?thesis unfolding q_def [symmetric]
    using mq_refines [OF one_waits_inv ok one_waits_simps(1), of 0 "[1, 2]" 1 0]
    by (auto simp: d mq_abs_def c one_waits_simps spec_send_msg_def holds_msg_def numeral_2_eq_2)
qed

section \<open>Who gets the processor\<close>

lemma mq_fair:
  assumes "kinv 1 k" "mq_ok mq" "runs t k" "timeout < 2 ^ 31 - 1" "timeout \<noteq> 0 \<Longrightarrow> may_block t k"
  shows "rt_mq_send_wait i mq v timeout k = Some (o', mq', k') \<Longrightarrow> fair k k'"
    "rt_mq_recv i mq sz timeout k = Some (r', mq', k') \<Longrightarrow> fair k k'"
  using send_step_fair [OF assms(1,3) mq_okD(2) [OF assms(2)] assms(4,5), where i = i]
    recv_step_fair [OF assms(1,3) mq_okD(2) [OF assms(2)] assms(4,5), where i = i]
  by (auto simp: rt_mq_send_wait_def rt_mq_recv_def mq_send_loop_eq mq_recv_loop_eq [OF assms(3)] fairI split: if_splits)

lemma mq_urgent_fair:
  assumes "kinv b k" "rt_mq_urgent i mq v k = Some (e, mq', k')"
  shows "fair k k'"
  using assms(2) wake_one_fair [OF assms(1) wait_list_simps(1), of i k']
  by (auto simp: rt_mq_urgent_def bind_eq_Some_conv fairI split: if_splits option.splits prod.splits bool.splits)

end
