(* ===== verification/Boot.thy ===== *)
theory Boot
  imports Thread
begin

text \<open>
  The start of the system: \<open>rt_application_init\<close> and \<open>rtthread_startup\<close> of
  \<^verbatim>\<open>rt-thread/src/components.c\<close>, on the kernel as the loader leaves it, with the board initialisation done.
  The main thread has the number \<open>main\<close>; \<open>object\<close> and the stack addresses are the answers of the allocator and of the linker.
\<close>

section \<open>The code\<close>

definition rt_application_init :: "nat option \<Rightarrow> u32 option \<Rightarrow> kernel \<Rightarrow> kernel option" where
  "rt_application_init object stack k = do {
     (tid, k1) \<leftarrow> rt_thread_create object stack 32768 10 20 k;
     t \<leftarrow> tid;
     (_, k2) \<leftarrow> rt_thread_startup t k1;
     Some k2
   }"

definition rtthread_startup :: "nat option \<Rightarrow> u32 option \<Rightarrow> u32 \<Rightarrow> u32 \<Rightarrow> kernel \<Rightarrow> kernel option" where
  "rtthread_startup object stack timer_stack idle_stack k = do {
     let k1 = rt_system_scheduler_init (rt_system_timer_init k);
     k2 \<leftarrow> rt_application_init object stack k1;
     k3 \<leftarrow> rt_system_timer_thread_init timer_stack k2;
     k4 \<leftarrow> rt_thread_idle_init idle_stack k3;
     rt_system_scheduler_start k4
   }"

section \<open>A new thread\<close>

text \<open>A thread is initialised and started: it is ready, and where the scheduler runs already, it is called.\<close>

lemma thread_born:
  assumes k: "kinv b k" "\<not> live k x" and p: "p < RT_THREAD_PRIORITY_MAX" "unat start + unat sz < 2 ^ 32" "76 \<le> sz"
    and ty: "obj_is CLASS_THREAD ty"
  obtains k1 k' where "thread_init x start sz p tck (set_type ty x k) = Some k1" "rt_thread_startup x k1 = Some (RT_EOK, k')" "kinv b k'"
    "live k' x" "\<And>y. y \<noteq> x \<Longrightarrow> live k' y = live k y" "tmlists k' HardList = tmlists k HardList" "tmlists k' SoftList = tmlists k SoftList"
    "tick k' = tick k" "lock_nest k' = lock_nest k" "interrupt_nest k' = interrupt_nest k"
    "current_thread k' = None \<longleftrightarrow> current_thread k = None" "current_thread k \<noteq> None \<Longrightarrow> resched {} k k'"
    "\<And>y. current_thread k = None \<Longrightarrow> awake k' y \<longleftrightarrow> y = x \<or> awake k y"
    "\<And>i. tlists k' (Waiting i) = tlists k (Waiting i)" "\<And>i. tlists k' (Senders i) = tlists k (Senders i)"
    "\<And>y. event_set (threads k' y) = event_set (threads k y)" "\<And>y. event_info (threads k' y) = event_info (threads k y)"
proof -
  define k0 where "k0 = set_type ty x k"
  have k0: "kinv b k0" "\<not> live k0 x" using set_type_kinv [OF k] by (simp_all add: k0_def)
  obtain k1 where k1: "thread_init x start sz p tck k0 = Some k1" "kinv b k1" "state_of k1 x = RT_THREAD_INIT"
    "init_priority (threads k1 x) = p" "stack_sound (threads k1 x)" "th_type (threads k1 x) = th_type (threads k0 x)"
    "is_timer k1 (ThreadTimer x)" "is_system (tm_type (timers k1 (ThreadTimer x)))" "tlists k1 = tlists k0" "tmlists k1 = tmlists k0"
    "\<And>y. y \<noteq> x \<Longrightarrow> threads k1 y = threads k0 y" "current_thread k1 = current_thread k0" "tick k1 = tick k0"
    "lock_nest k1 = lock_nest k0" "interrupt_nest k1 = interrupt_nest k0"
    "event_set (threads k1 x) = event_set (threads k0 x)" "event_info (threads k1 x) = event_info (threads k0 x)"
    by (rule thread_init_spec [OF k0 p, where tck = tck]) blast
  have s0: "tlists k0 = tlists k" "tmlists k0 = tmlists k" "current_thread k0 = current_thread k" "tick k0 = tick k"
    "lock_nest k0 = lock_nest k" "interrupt_nest k0 = interrupt_nest k" "\<And>y. y \<noteq> x \<Longrightarrow> threads k0 y = threads k y"
    "event_set (threads k0 x) = event_set (threads k x)" "event_info (threads k0 x) = event_info (threads k x)"
    "th_type (threads k0 x) = ty"
    by (simp_all add: k0_def set_type_def)
  have t1: "is_thread k1 x" using ty by (simp add: k1(6) s0)
  have p1: "init_priority (threads k1 x) < RT_THREAD_PRIORITY_MAX" using p(1) k1(4) by simp
  obtain k' where k': "rt_thread_startup x k1 = Some (RT_EOK, k')" "kinv b k'" "live k' x" "tmlists k' HardList = tmlists k1 HardList"
    "tmlists k' SoftList = tmlists k1 SoftList" "\<And>y. y \<noteq> x \<Longrightarrow> live k' y = live k1 y"
    "current_thread k' \<noteq> None \<longleftrightarrow> current_thread k1 \<noteq> None" "tick k' = tick k1" "lock_nest k' = lock_nest k1"
    "interrupt_nest k' = interrupt_nest k1" "current_thread k1 \<noteq> None \<Longrightarrow> resched {} k1 k'"
    "\<And>y. current_thread k1 = None \<Longrightarrow> awake k' y \<longleftrightarrow> y = x \<or> awake k1 y"
    "\<And>i. tlists k' (Waiting i) = tlists k1 (Waiting i)" "\<And>i. tlists k' (Senders i) = tlists k1 (Senders i)"
    "\<And>y. event_set (threads k' y) = event_set (threads k1 y)" "\<And>y. event_info (threads k' y) = event_info (threads k1 y)"
    by (rule startup_spec [OF k1(2,3) p1 t1 k1(5,7,8)]) blast
  have nx: "state_of k y = state_of k1 y" if "awake k y \<or> state_of k y = RT_THREAD_RUNNING" for y
  proof -
    have "y \<noteq> x" using that k(2) by (auto simp: awake_def live_def)
    then show ?thesis by (simp add: k1(11) s0)
  qed
  have ks: "keeps k k1" using k1(12,14) s0(3,5) nx by (auto simp: keeps_def awake_def)
  have nw: "\<not> awake k1 x" using k1(3) by (simp add: awake_def)
  have aw: "awake k1 y \<longleftrightarrow> awake k y" if "y \<noteq> x" for y using that by (simp add: awake_def k1(11) s0)
  have rs: "current_thread k \<noteq> None \<Longrightarrow> resched {} k k'" by (rule keeps_resched [OF ks k'(11)]) (simp add: k1(12) s0)
  have aw': "awake k' y \<longleftrightarrow> y = x \<or> awake k y" if "current_thread k = None" for y
    using k'(12) [of y] that aw [of y] by (auto simp: k1(12) s0)
  have ev: "event_set (threads k' y) = event_set (threads k y)" "event_info (threads k' y) = event_info (threads k y)" for y
    using k'(15,16) k1(11,16,17) s0(7-9) by (cases "y = x"; simp)+
  have lv: "live k' y = live k y" if "y \<noteq> x" for y using that k'(6) k1(11) s0(7) by (simp add: live_def)
  have nn: "current_thread k' = None \<longleftrightarrow> current_thread k = None" using k'(7) k1(12) s0(3) by metis
  show thesis
    by (rule that [OF k1(1) [unfolded k0_def] k'(1,2,3)])
      (use k'(4-10,13,14) k1(9,10,12-15) s0(1-6) rs aw' ev lv nn in simp_all)
qed

section \<open>The first thread\<close>

text \<open>\<open>rt_system_scheduler_start\<close> gives the processor to the most urgent of the threads that are ready.\<close>

lemma scheduler_start_spec:
  assumes k: "kinv b k" and none: "current_thread k = None" and some: "awake k x"
  obtains t k' where "rt_system_scheduler_start k = Some k'" "kinv b k'" "current_thread k' = Some t" "state_of k' t = RT_THREAD_RUNNING"
    "\<And>y. awake k' y = awake k y" "urgent k'" "tmlists k' = tmlists k" "lock_nest k' = lock_nest k" "interrupt_nest k' = interrupt_nest k"
    "\<And>i. tlists k' (Waiting i) = tlists k (Waiting i)" "\<And>i. tlists k' (Senders i) = tlists k (Senders i)"
    "tick k' = tick k" "\<And>y. live k' y = live k y"
proof -
  note i = kinvD [OF k]
  have nr: "state_of k y \<noteq> RT_THREAD_RUNNING" for y using sched_invD(9) [OF i(1), of y] none by auto
  then have "state_of k x = RT_THREAD_READY" using some by (simp add: awake_def)
  then have "ready_group k \<noteq> 0" using ready_group_zero [OF i(1)] by auto
  then obtain t p ts where h: "highest_priority_thread k = Some (t, p)" "tlists k (Ready p) = t # ts" "state_of k t = RT_THREAD_READY"
    "current_priority (threads k t) = p" "prio_ok (threads k t)" "\<And>q. q < p \<Longrightarrow> tlists k (Ready q) = []"
    by (rule highest_spec [OF i(1)]) blast
  define k1 where "k1 = k\<lparr>current_thread := Some t\<rparr>"
  have "k1 = k\<lparr>current_prio := current_prio k, current_thread := Some t\<rparr>" by (simp add: k1_def)
  then have "sched_inv {} k1" using set_current_inv [OF i(1), of t "current_prio k"] none by simp
  moreover have "prio_ok (threads k1 t)" using h(5) by (simp add: k1_def)
  ultimately have "\<exists>g. rt_schedule_remove_thread t k1 = Some ((unlink t k1)\<lparr>ready_group := g\<rparr>) \<and>
    sched_inv {t} ((unlink t k1)\<lparr>ready_group := g\<rparr>)" by (rule remove_spec)
  then obtain g where g: "rt_schedule_remove_thread t k1 = Some ((unlink t k1)\<lparr>ready_group := g\<rparr>)"
    "sched_inv {t} ((unlink t k1)\<lparr>ready_group := g\<rparr>)" by blast
  define k2 where "k2 = (unlink t k1)\<lparr>ready_group := g\<rparr>"
  define k' where "k' = (upd_thread t (\<lambda>th. th\<lparr>stat := RT_THREAD_RUNNING\<rparr>) k2)\<lparr>switches := switches k2 @ [CtxSwitchTo t]\<rparr>"
  have run: "rt_system_scheduler_start k = Some k'"
    by (simp add: rt_system_scheduler_start_def h(1) k1_def [symmetric] g(1) k2_def k'_def)
  have st: "state_of k' y = (if y = t then RT_THREAD_RUNNING else state_of k y)" for y by (simp add: k'_def k2_def k1_def)
  have sched: "sched_inv {} k'"
  proof -
    have "sched_inv ({t} - {t}) (upd_thread t (\<lambda>th. th\<lparr>stat := RT_THREAD_RUNNING\<rparr>) k2)"
      by (rule set_state_inv [OF g(2) [folded k2_def], where s = RT_THREAD_RUNNING]) (use h(5) in \<open>simp_all add: k2_def k1_def\<close>)
    then show ?thesis by (subst sched_inv_cong [of _ "upd_thread t (\<lambda>th. th\<lparr>stat := RT_THREAD_RUNNING\<rparr>) k2"]) (simp_all add: k'_def)
  qed
  have lv: "live k' y = live k y" for y using h(3) by (simp add: live_def st)
  have same: "timers k' = timers k" "tmlists k' = tmlists k" "tick k' = tick k" "\<And>y. th_type (threads k' y) = th_type (threads k y)"
    by (simp_all add: k'_def k2_def k1_def)
  have "timer_inv b k'"
    by (rule timer_inv_cong [OF i(2) same(1-3)]) (use timer_invD(7) [OF i(2)] h(3) in \<open>auto simp: st same(4)\<close>)
  moreover have "obj_inv k'"
    using i(3) lv same(1) by (simp add: obj_inv_def k'_def k2_def k1_def stack_sound_def)
  moreover have "urgent k'"
  proof -
    have "p \<le> current_priority (threads k y)" if "state_of k y = RT_THREAD_READY" for y
      using sched_invD(8) [OF i(1), of y] that h(6) [of "current_priority (threads k y)"] by fastforce
    then show ?thesis using h(4) st by (auto simp: urgent_def k'_def k2_def k1_def)
  qed
  moreover have "filter (\<lambda>y. y \<noteq> t) (tlists k (Waiting j)) = tlists k (Waiting j)"
    "filter (\<lambda>y. y \<noteq> t) (tlists k (Senders j)) = tlists k (Senders j)" for j
    using sched_invD(5,6) [OF i(1), of t j] h(3) by (auto intro: filter_True)
  ultimately show thesis
    using run sched st h(3) by (intro that [of k' t]) (auto simp: kinv_def awake_def same lv, simp_all add: k'_def k2_def k1_def)
qed

section \<open>The start\<close>

lemma boot_kernel_inv: "kinv 1 boot_kernel"
  by (auto simp: kinv_def sched_inv_def timer_inv_def obj_inv_def group_ok_def live_def linked_def flagged_def boot_kernel_def
      zero_thread_def zero_timer_def)

lemma boot_init: "rt_system_scheduler_init (rt_system_timer_init boot_kernel) = boot_kernel"
  by (auto simp: rt_system_scheduler_init_def rt_system_timer_init_def boot_kernel_def fun_eq_iff split: lref.split)

text \<open>What the start leaves behind: the threads of the system are ready or run, nobody waits and no timer runs.\<close>

definition started :: "nat list \<Rightarrow> kernel \<Rightarrow> bool" where
  "started ts k \<longleftrightarrow> kinv 1 k \<and> tmlists k HardList = [] \<and> lock_nest k = 0 \<and> interrupt_nest k = 0 \<and> tick k = 0 \<and>
     (\<forall>x. live k x \<longleftrightarrow> x \<in> set ts) \<and> (\<forall>x. awake k x \<longleftrightarrow> x \<in> set ts) \<and>
     (\<forall>i. tlists k (Waiting i) = [] \<and> tlists k (Senders i) = [])"

lemma started_boot: "started [] boot_kernel"
  using boot_kernel_inv unfolding started_def by (intro conjI) (simp_all add: boot_kernel_def live_def awake_def zero_thread_def)

lemma started_born:
  assumes k: "started ts k" "current_thread k = None" "x \<notin> set ts" and p: "p < RT_THREAD_PRIORITY_MAX" "unat start + unat sz < 2 ^ 32" "76 \<le> sz"
    and ty: "obj_is CLASS_THREAD ty"
  obtains k1 k' where "thread_init x start sz p tck (set_type ty x k) = Some k1" "rt_thread_startup x k1 = Some (RT_EOK, k')"
    "started (x # ts) k'" "current_thread k' = None"
proof -
  have l: "kinv 1 k" "\<not> live k x" using k by (simp_all add: started_def)
  obtain k1 k' where b: "thread_init x start sz p tck (set_type ty x k) = Some k1" "rt_thread_startup x k1 = Some (RT_EOK, k')" "kinv 1 k'"
    "live k' x" "\<And>y. y \<noteq> x \<Longrightarrow> live k' y = live k y" "tmlists k' HardList = tmlists k HardList" "tick k' = tick k" "lock_nest k' = lock_nest k"
    "interrupt_nest k' = interrupt_nest k" "current_thread k' = None \<longleftrightarrow> current_thread k = None"
    "\<And>y. current_thread k = None \<Longrightarrow> awake k' y \<longleftrightarrow> y = x \<or> awake k y"
    "\<And>i. tlists k' (Waiting i) = tlists k (Waiting i)" "\<And>i. tlists k' (Senders i) = tlists k (Senders i)"
    by (rule thread_born [OF l p ty, where tck = tck]) metis
  have "live k' y \<longleftrightarrow> y \<in> set (x # ts)" for y using b(4,5) k(1) by (cases "y = x") (simp_all add: started_def)
  then have "started (x # ts) k'" using k(1,2) b by (simp add: started_def)
  then show thesis using that [OF b(1,2)] b(10) k(2) by simp
qed

lemma startup_runs:
  assumes m: "main \<noteq> timer_thread" "main \<noteq> idle_thread" and stk: "unat stack + 32768 < 2 ^ 32" "ts \<noteq> 0" "unat ts + 512 < 2 ^ 32" "is \<noteq> 0" "unat is + 256 < 2 ^ 32"
  obtains k where "rtthread_startup (Some main) (Some stack) ts is boot_kernel = Some k" "started [idle_thread, timer_thread, main] k" "busy k" "urgent k"
proof -
  have sz: "unat stack + unat (32768 :: u32) < 2 ^ 32" "unat ts + unat (512 :: u32) < 2 ^ 32" "unat is + unat (256 :: u32) < 2 ^ 32"
    using stk by simp_all
  have none: "current_thread boot_kernel = None" by (simp add: boot_kernel_def)
  obtain k1 k2 where k2: "thread_init main stack 32768 10 20 (set_type CLASS_THREAD main boot_kernel) = Some k1"
    "rt_thread_startup main k1 = Some (RT_EOK, k2)" "started [main] k2" "current_thread k2 = None"
    by (rule started_born [OF started_boot none, where x = main and p = 10 and sz = 32768 and start = stack and ty = CLASS_THREAD and tck = 20])
      (use sz in \<open>simp_all add: obj_is_def\<close>)
  have a: "rt_application_init (Some main) (Some stack) boot_kernel = Some k2"
    by (simp add: rt_application_init_def rt_thread_create_def k2(1,2))
  define k2' where "k2' = k2\<lparr>tmlists := (tmlists k2)(SoftList := [])\<rparr>"
  have "timer_inv 1 k2'"
    using timer_invD [OF kinvD(2)] k2(3) unfolding started_def timer_inv_def k2'_def flagged_def by auto
  then have "kinv 1 k2'" using k2(3) kinv_timers [of 1 k2 1 k2'] by (simp add: started_def k2'_def)
  then have st: "started [main] k2'" "current_thread k2' = None" using k2(3,4) by (simp_all add: started_def k2'_def live_def awake_def)
  obtain k3 k4 where k4: "thread_init timer_thread ts 512 4 10 (set_type (CLASS_THREAD OR CLASS_STATIC) timer_thread k2') = Some k3"
    "rt_thread_startup timer_thread k3 = Some (RT_EOK, k4)" "started [timer_thread, main] k4" "current_thread k4 = None"
    by (rule started_born [OF st, where x = timer_thread and p = 4 and sz = 512 and start = ts and ty = "CLASS_THREAD OR CLASS_STATIC" and tck = 10])
      (use sz m in \<open>simp_all add: obj_is_def\<close>)
  have b: "rt_system_timer_thread_init ts k2 = Some k4"
    using k4(1,2) stk(2) by (simp add: rt_system_timer_thread_init_def rt_thread_init_def k2'_def)
  obtain k5 k6 where k6: "thread_init idle_thread is 256 31 32 (set_type (CLASS_THREAD OR CLASS_STATIC) idle_thread k4) = Some k5"
    "rt_thread_startup idle_thread k5 = Some (RT_EOK, k6)" "started [idle_thread, timer_thread, main] k6" "current_thread k6 = None"
    by (rule started_born [OF k4(3,4), where x = idle_thread and p = 31 and sz = 256 and start = "is" and ty = "CLASS_THREAD OR CLASS_STATIC" and tck = 32])
      (use sz m in \<open>simp_all add: obj_is_def timer_thread_def idle_thread_def\<close>)
  have c: "rt_thread_idle_init is k4 = Some k6"
    using k6(1,2) stk(4) by (simp add: rt_thread_idle_init_def rt_thread_init_def)
  have ki: "kinv 1 k6" "awake k6 idle_thread" using k6(3) by (simp_all add: started_def)
  obtain t k where k: "rt_system_scheduler_start k6 = Some k" "kinv 1 k" "current_thread k = Some t" "state_of k t = RT_THREAD_RUNNING"
    "\<And>y. awake k y = awake k6 y" "urgent k" "tmlists k = tmlists k6" "lock_nest k = lock_nest k6" "interrupt_nest k = interrupt_nest k6"
    "\<And>i. tlists k (Waiting i) = tlists k6 (Waiting i)" "\<And>i. tlists k (Senders i) = tlists k6 (Senders i)" "tick k = tick k6" "\<And>y. live k y = live k6 y"
    by (rule scheduler_start_spec [OF ki(1) k6(4) ki(2)]) blast
  show thesis
  proof (rule that)
    show "rtthread_startup (Some main) (Some stack) ts is boot_kernel = Some k"
      by (simp add: rtthread_startup_def boot_init a b c k(1))
    show "started [idle_thread, timer_thread, main] k" using k6(3) k by (simp add: started_def)
    show "busy k" using k ki(2) by (simp add: busy_def)
    show "urgent k" by (rule k(6))
  qed
qed

text \<open>C39: the system starts. With a thread object for the main thread and stacks inside the address space, \<open>rtthread_startup\<close> does not
  go wrong: it ends in a sound kernel in which the idle thread, the timer thread and the main thread are ready or run and no other
  thread exists, the scheduler is not locked, and one of the three has the processor, with a priority at least as urgent as every ready thread's.\<close>

theorem system_starts:
  assumes "main \<noteq> timer_thread" "main \<noteq> idle_thread" "unat stack + 32768 < 2 ^ 32" "ts \<noteq> 0" "unat ts + 512 < 2 ^ 32" "is \<noteq> 0" "unat is + 256 < 2 ^ 32"
  shows "\<exists>k t. rtthread_startup (Some main) (Some stack) ts is boot_kernel = Some k \<and> kinv 1 k \<and> lock_nest k = 0 \<and>
    (\<forall>x. live k x \<longleftrightarrow> x \<in> {idle_thread, timer_thread, main}) \<and> (\<forall>x. awake k x \<longleftrightarrow> x \<in> {idle_thread, timer_thread, main}) \<and>
    current_thread k = Some t \<and> state_of k t = RT_THREAD_RUNNING \<and>
    (\<forall>x. state_of k x = RT_THREAD_READY \<longrightarrow> current_priority (threads k t) \<le> current_priority (threads k x))"
proof -
  obtain k where k: "rtthread_startup (Some main) (Some stack) ts is boot_kernel = Some k" "started [idle_thread, timer_thread, main] k"
    "busy k" "urgent k"
    by (rule startup_runs [OF assms])
  then obtain t where t: "current_thread k = Some t" "state_of k t = RT_THREAD_RUNNING" by (auto simp: busy_def)
  show ?thesis
    by (rule exI [of _ k], rule exI [of _ t]) (use k t in \<open>simp add: started_def urgent_def\<close>)
qed

lemma start_result: "map_option (\<lambda>k. (current_thread k, state_of k 1, state_of k 2)) (rtthread_startup (Some 2) (Some 0x20000000) 0x20010000 0x20020000 boot_kernel) =
    Some (Some timer_thread, RT_THREAD_READY, RT_THREAD_READY)"
  by code_simp

theorem system_starts_witness:
  "\<exists>k. rtthread_startup (Some 2) (Some 0x20000000) 0x20010000 0x20020000 boot_kernel = Some k \<and> kinv 1 k \<and>
    current_thread k = Some timer_thread \<and> state_of k 2 = RT_THREAD_READY \<and>
    current_priority (threads k timer_thread) \<le> current_priority (threads k 2)"
proof -
  obtain k t where "rtthread_startup (Some 2) (Some 0x20000000) 0x20010000 0x20020000 boot_kernel = Some k" "kinv 1 k"
    "current_thread k = Some t" "\<And>x. state_of k x = RT_THREAD_READY \<Longrightarrow> current_priority (threads k t) \<le> current_priority (threads k x)"
    using system_starts [of 2 "0x20000000" "0x20010000" "0x20020000"] by (auto simp: timer_thread_def idle_thread_def)
  then show ?thesis using start_result by auto
qed

end
