(* ===== verification/System.thy ===== *)
theory System
  imports Boot Ticks Semaphore Mutex Event Mailbox MsgQueue
begin

text \<open>
  The kernel at work: threads that call the operations of the other theories one after the other, in any order the
  scheduler allows, between tick interrupts and interrupts that signal. The state is the kernel with its IPC objects;
  a step is one call by the thread that has the processor (up to the point where it blocks), or one interrupt.

  A sender or receiver that is woken and has to wait again makes another call here; the time it then waits is one of
  the times a call may wait.
\<close>

section \<open>The state and the calls\<close>

datatype ipc = Sem semaphore | Mtx mutex | Evt event | Mbx mailbox | Msq messagequeue

record system =
  kern :: kernel
  objs :: "nat \<Rightarrow> ipc option"

datatype call =
    Yield | Sleep u32 | TimerWait | EnterCritical | ExitCritical | Exit | Spawn nat u32 u32 nat u32
  | SemInit nat u32 u8 | SemTake nat int | SemRelease nat
  | MutexInit nat u8 | MutexTake nat int | MutexRelease nat
  | EventInit nat u8 | EventSend nat u32 | EventRecv nat u32 u8 int
  | MbInit nat "u32 list" u32 u8 | MbSend nat u32 int | MbUrgent nat u32 | MbRecv nat int
  | MqInit nat "nat \<Rightarrow> nat option" "nat \<Rightarrow> u8 list" u32 u32 u8 | MqSend nat "u8 list" int | MqUrgent nat "u8 list" | MqRecv nat nat int
  | Detach nat

text \<open>The results that the caller gets are in the theories of the objects; here only the state counts.\<close>

definition on_kernel :: "kernel option \<Rightarrow> system \<Rightarrow> system option" where
  "on_kernel r s = map_option (\<lambda>k. s\<lparr>kern := k\<rparr>) r"

definition on_obj :: "nat \<Rightarrow> ('a \<Rightarrow> ipc) \<Rightarrow> ('r \<times> 'a \<times> kernel) option \<Rightarrow> system \<Rightarrow> system option" where
  "on_obj i con r s = map_option (\<lambda>(_, x, k). s\<lparr>kern := k, objs := (objs s)(i \<mapsto> con x)\<rparr>) r"

definition on_gone :: "nat \<Rightarrow> ('r \<times> 'a \<times> kernel) option \<Rightarrow> system \<Rightarrow> system option" where
  "on_gone i r s = map_option (\<lambda>(_, _, k). s\<lparr>kern := k, objs := (objs s)(i := None)\<rparr>) r"

definition the_sem :: "nat \<Rightarrow> system \<Rightarrow> semaphore option" where
  "the_sem i s = (case objs s i of Some (Sem x) \<Rightarrow> Some x | _ \<Rightarrow> None)"

definition the_mutex :: "nat \<Rightarrow> system \<Rightarrow> mutex option" where
  "the_mutex i s = (case objs s i of Some (Mtx x) \<Rightarrow> Some x | _ \<Rightarrow> None)"

definition the_event :: "nat \<Rightarrow> system \<Rightarrow> event option" where
  "the_event i s = (case objs s i of Some (Evt x) \<Rightarrow> Some x | _ \<Rightarrow> None)"

definition the_mb :: "nat \<Rightarrow> system \<Rightarrow> mailbox option" where
  "the_mb i s = (case objs s i of Some (Mbx x) \<Rightarrow> Some x | _ \<Rightarrow> None)"

definition the_mq :: "nat \<Rightarrow> system \<Rightarrow> messagequeue option" where
  "the_mq i s = (case objs s i of Some (Msq x) \<Rightarrow> Some x | _ \<Rightarrow> None)"

fun sys_call :: "call \<Rightarrow> system \<Rightarrow> system option" where
  "sys_call Yield s = on_kernel (rt_thread_yield (kern s)) s"
| "sys_call (Sleep n) s = on_kernel (rt_thread_sleep n (kern s)) s"
| "sys_call TimerWait s = on_kernel (timer_thread_wait (kern s)) s"
| "sys_call EnterCritical s = on_kernel (Some (rt_enter_critical (kern s))) s"
| "sys_call ExitCritical s = on_kernel (rt_exit_critical (kern s)) s"
| "sys_call Exit s = on_kernel (thread_exit (kern s)) s"
| "sys_call (Spawn t start sz p tck) s = on_kernel (do {
     k1 \<leftarrow> rt_thread_init t start sz p tck (kern s);
     (_, k2) \<leftarrow> rt_thread_startup t k1;
     Some k2 }) s"
| "sys_call (SemInit i v fl) s = on_obj i Sem (map_option (Pair ()) (rt_sem_init i v fl (kern s))) s"
| "sys_call (SemTake i time) s = Option.bind (the_sem i s) (\<lambda>x. on_obj i Sem (rt_sem_take i x time (kern s)) s)"
| "sys_call (SemRelease i) s = Option.bind (the_sem i s) (\<lambda>x. on_obj i Sem (rt_sem_release i x (kern s)) s)"
| "sys_call (MutexInit i fl) s = on_obj i Mtx (Some ((), rt_mutex_init i fl (kern s))) s"
| "sys_call (MutexTake i time) s = Option.bind (the_mutex i s) (\<lambda>x. on_obj i Mtx (rt_mutex_take i x time (kern s)) s)"
| "sys_call (MutexRelease i) s = Option.bind (the_mutex i s) (\<lambda>x. on_obj i Mtx (rt_mutex_release i x (kern s)) s)"
| "sys_call (EventInit i fl) s = on_obj i Evt (Some ((), rt_event_init i fl (kern s))) s"
| "sys_call (EventSend i flags) s = Option.bind (the_event i s) (\<lambda>x. on_obj i Evt (rt_event_send i x flags (kern s)) s)"
| "sys_call (EventRecv i flags opt time) s = Option.bind (the_event i s) (\<lambda>x. on_obj i Evt (rt_event_recv i x flags opt time (kern s)) s)"
| "sys_call (MbInit i pool sz fl) s = on_obj i Mbx (Some ((), rt_mb_init i pool sz fl (kern s))) s"
| "sys_call (MbSend i v time) s = Option.bind (the_mb i s) (\<lambda>x. on_obj i Mbx (rt_mb_send_wait i x v time (kern s)) s)"
| "sys_call (MbUrgent i v) s = Option.bind (the_mb i s) (\<lambda>x. on_obj i Mbx (rt_mb_urgent i x v (kern s)) s)"
| "sys_call (MbRecv i time) s = Option.bind (the_mb i s) (\<lambda>x. on_obj i Mbx (rt_mb_recv i x time (kern s)) s)"
| "sys_call (MqInit i nxt data msize psize fl) s = on_obj i Msq (Some ((), rt_mq_init i nxt data msize psize fl (kern s))) s"
| "sys_call (MqSend i v time) s = Option.bind (the_mq i s) (\<lambda>x. on_obj i Msq (rt_mq_send_wait i x v time (kern s)) s)"
| "sys_call (MqUrgent i v) s = Option.bind (the_mq i s) (\<lambda>x. on_obj i Msq (rt_mq_urgent i x v (kern s)) s)"
| "sys_call (MqRecv i sz time) s = Option.bind (the_mq i s) (\<lambda>x. on_obj i Msq (rt_mq_recv i x sz time (kern s)) s)"
| "sys_call (Detach i) s = (case objs s i of
     Some (Sem x) \<Rightarrow> on_gone i (rt_sem_detach i x (kern s)) s
   | Some (Mtx x) \<Rightarrow> on_gone i (rt_mutex_detach i x (kern s)) s
   | Some (Evt x) \<Rightarrow> on_gone i (rt_event_detach i x (kern s)) s
   | Some (Mbx x) \<Rightarrow> on_gone i (rt_mb_detach i x (kern s)) s
   | Some (Msq x) \<Rightarrow> on_gone i (rt_mq_detach i x (kern s)) s
   | None \<Rightarrow> None)"

fun type_of :: "ipc \<Rightarrow> u8" where
  "type_of (Sem x) = ipc_type x"
| "type_of (Mtx x) = ipc_type x"
| "type_of (Evt x) = ipc_type x"
| "type_of (Mbx x) = ipc_type x"
| "type_of (Msq x) = ipc_type x"

text \<open>What the code demands of its callers: the object exists, the times and numbers are in range, and only a thread that may
  block asks for it. A thread ends only when it owns no mutex.\<close>

definition in_time :: "nat \<Rightarrow> int \<Rightarrow> kernel \<Rightarrow> bool" where
  "in_time t time k \<longleftrightarrow> time < 2 ^ 31 - 1 \<and> (time \<noteq> 0 \<longrightarrow> may_block t k)"

fun legal :: "nat \<Rightarrow> call \<Rightarrow> system \<Rightarrow> bool" where
  "legal t Yield s = True"
| "legal t (Sleep n) s = (n < HALF_TICK \<and> may_block t (kern s))"
| "legal t TimerWait s = (t = timer_thread \<and> may_block t (kern s))"
| "legal t EnterCritical s = (lock_nest (kern s) < 2 ^ 15 - 1)"
| "legal t ExitCritical s = True"
| "legal t Exit s = (may_block t (kern s) \<and> (\<forall>i m. objs s i = Some (Mtx m) \<longrightarrow> mtx_owner m \<noteq> Some t))"
| "legal t (Spawn x start sz p tck) s =
     (\<not> live (kern s) x \<and> p < RT_THREAD_PRIORITY_MAX \<and> start \<noteq> 0 \<and> unat start + unat sz < 2 ^ 32 \<and> 76 \<le> sz)"
| "legal t (SemInit i v fl) s = (objs s i = None \<and> v < 0x10000 \<and> fl \<in> {RT_IPC_FLAG_FIFO, RT_IPC_FLAG_PRIO})"
| "legal t (SemTake i time) s = (the_sem i s \<noteq> None \<and> in_time t time (kern s))"
| "legal t (SemRelease i) s = (the_sem i s \<noteq> None)"
| "legal t (MutexInit i fl) s = (objs s i = None)"
| "legal t (MutexTake i time) s = (the_mutex i s \<noteq> None \<and> in_time t time (kern s))"
| "legal t (MutexRelease i) s = (the_mutex i s \<noteq> None)"
| "legal t (EventInit i fl) s = (objs s i = None \<and> fl \<in> {RT_IPC_FLAG_FIFO, RT_IPC_FLAG_PRIO})"
| "legal t (EventSend i flags) s = (the_event i s \<noteq> None \<and> flags \<noteq> 0)"
| "legal t (EventRecv i flags opt time) s = (the_event i s \<noteq> None \<and> flags \<noteq> 0 \<and> valid_info opt \<and> in_time t time (kern s))"
| "legal t (MbInit i pool sz fl) s =
     (objs s i = None \<and> 0 < sz \<and> unat sz < 2 ^ 16 \<and> unat sz \<le> length pool \<and> fl \<in> {RT_IPC_FLAG_FIFO, RT_IPC_FLAG_PRIO})"
| "legal t (MbSend i v time) s = (the_mb i s \<noteq> None \<and> in_time t time (kern s))"
| "legal t (MbUrgent i v) s = (the_mb i s \<noteq> None)"
| "legal t (MbRecv i time) s = (the_mb i s \<noteq> None \<and> in_time t time (kern s))"
| "legal t (MqInit i nxt data msize psize fl) s =
     (objs s i = None \<and> unat (RT_ALIGN msize 4) < 2 ^ 16 \<and> unat psize div (unat (RT_ALIGN msize 4) + 4) < 2 ^ 16 \<and>
      (\<forall>j < unat psize div (unat (RT_ALIGN msize 4) + 4). length (data j) = unat (RT_ALIGN msize 4)) \<and> fl \<in> {RT_IPC_FLAG_FIFO, RT_IPC_FLAG_PRIO})"
| "legal t (MqSend i v time) s = (the_mq i s \<noteq> None \<and> v \<noteq> [] \<and> in_time t time (kern s))"
| "legal t (MqUrgent i v) s = (the_mq i s \<noteq> None \<and> v \<noteq> [])"
| "legal t (MqRecv i sz time) s = (the_mq i s \<noteq> None \<and> sz \<noteq> 0 \<and> in_time t time (kern s))"
| "legal t (Detach i) s = (case objs s i of None \<Rightarrow> False | Some ob \<Rightarrow> is_system (type_of ob))"

text \<open>The calls that an interrupt may make.\<close>

fun from_interrupt :: "call \<Rightarrow> bool" where
  "from_interrupt (SemRelease i) = True"
| "from_interrupt (EventSend i flags) = True"
| "from_interrupt (MbUrgent i v) = True"
| "from_interrupt (MqUrgent i v) = True"
| "from_interrupt _ = False"

definition interrupt :: "call \<Rightarrow> system \<Rightarrow> system option" where
  "interrupt c s = map_option (\<lambda>s'. s'\<lparr>kern := rt_interrupt_leave (kern s')\<rparr>) (sys_call c (s\<lparr>kern := rt_interrupt_enter (kern s)\<rparr>))"

datatype action = Call nat call | Tick | Irq call

inductive sys_step :: "system \<Rightarrow> action \<Rightarrow> system \<Rightarrow> bool" where
  call: "runs t (kern s) \<Longrightarrow> legal t c s \<Longrightarrow> sys_call c s = Some s' \<Longrightarrow> sys_step s (Call t c) s'"
| tick: "SysTick_Handler (\<lambda>_ k. Some k) (kern s) = Some k' \<Longrightarrow> sys_step s Tick (s\<lparr>kern := k'\<rparr>)"
| irq: "from_interrupt c \<Longrightarrow> (\<exists>t. legal t c s) \<Longrightarrow> interrupt c s = Some s' \<Longrightarrow> sys_step s (Irq c) s'"

inductive_cases call_stepE: "sys_step s (Call t c) s'"
inductive_cases tick_stepE: "sys_step s Tick s'"
inductive_cases irq_stepE: "sys_step s (Irq c) s'"

section \<open>The invariant\<close>

fun obj_ok :: "nat \<Rightarrow> ipc option \<Rightarrow> kernel \<Rightarrow> bool" where
  "obj_ok i None k \<longleftrightarrow> tlists k (Waiting i) = [] \<and> tlists k (Senders i) = []"
| "obj_ok i (Some (Sem x)) k \<longleftrightarrow> sem_ok i x k \<and> tlists k (Senders i) = []"
| "obj_ok i (Some (Mtx x)) k \<longleftrightarrow> mutex_ok i x k \<and> tlists k (Senders i) = []"
| "obj_ok i (Some (Evt x)) k \<longleftrightarrow> event_ok i x k \<and> tlists k (Senders i) = []"
| "obj_ok i (Some (Mbx x)) k \<longleftrightarrow> mb_ok x"
| "obj_ok i (Some (Msq x)) k \<longleftrightarrow> mq_ok x"

definition kern_ok :: "kernel \<Rightarrow> bool" where
  "kern_ok k \<longleftrightarrow> kinv 1 k \<and> busy k \<and> only_thread_timers k \<and> 0 \<le> lock_nest k"

definition sys_ok :: "system \<Rightarrow> bool" where
  "sys_ok s \<longleftrightarrow> kern_ok (kern s) \<and> (\<forall>i. obj_ok i (objs s i) (kern s))"

definition sys_inv :: "system \<Rightarrow> bool" where
  "sys_inv s \<longleftrightarrow> sys_ok s \<and> interrupt_nest (kern s) = 0"

lemma kern_okD: "kern_ok k \<Longrightarrow> kinv 1 k" "kern_ok k \<Longrightarrow> busy k" "kern_ok k \<Longrightarrow> only_thread_timers k"
  "kern_ok k \<Longrightarrow> current_thread k \<noteq> None" "kern_ok k \<Longrightarrow> 0 \<le> lock_nest k"
  by (auto simp: kern_ok_def busy_def)

lemma sys_okD: "sys_ok s \<Longrightarrow> kern_ok (kern s)" "sys_ok s \<Longrightarrow> obj_ok i (objs s i) (kern s)"
  by (simp_all add: sys_ok_def)

lemma somebody_runs: "sys_inv s \<Longrightarrow> \<exists>t. runs t (kern s)"
  by (auto simp: sys_inv_def sys_ok_def kern_ok_def busy_def runs_def)

text \<open>What an object needs of the rest of the system.\<close>

lemma obj_ok_mono:
  assumes "obj_ok i ob k"
    and "set (tlists k' (Waiting i)) \<subseteq> set (tlists k (Waiting i))" "set (tlists k' (Senders i)) \<subseteq> set (tlists k (Senders i))"
    and "\<And>x. x \<in> set (tlists k (Waiting i)) \<Longrightarrow> event_set (threads k' x) = event_set (threads k x) \<and> event_info (threads k' x) = event_info (threads k x)"
    and "\<And>m t. ob = Some (Mtx m) \<Longrightarrow> mtx_owner m = Some t \<Longrightarrow> live k t \<Longrightarrow> live k' t"
  shows "obj_ok i ob k'"
proof (cases "(i, ob, k)" rule: obj_ok.cases)
  case (1 i k)
  then show ?thesis using assms(1-3) by simp
next
  case (2 i x k)
  then show ?thesis using assms(1-3) sem_ok_mono [of i x k k'] by simp
next
  case (3 i x k)
  then show ?thesis using assms by (auto simp: mutex_ok_def split: option.splits)
next
  case (4 i x k)
  then show ?thesis using assms(1-4) by (fastforce simp: event_ok_def)
qed (use assms(1) in simp_all)

lemma on_objI_other:
  assumes s: "sys_ok s" and f: "ipc_frame {Waiting i, Senders i} T (kern s) k'"
    and T: "\<And>j. j \<noteq> i \<Longrightarrow> T \<inter> set (tlists (kern s) (Waiting j)) = {}" and j: "j \<noteq> i"
  shows "obj_ok j (objs s j) k'"
proof (rule obj_ok_mono [OF sys_okD(2) [OF s]])
  have "tlists k' l = tlists (kern s) l" if "l \<in> {Waiting j, Senders j}" for l
    using that \<open>j \<noteq> i\<close> ipc_frameD(5) [OF f, of l] by auto
  then show "set (tlists k' (Waiting j)) \<subseteq> set (tlists (kern s) (Waiting j))" "set (tlists k' (Senders j)) \<subseteq> set (tlists (kern s) (Senders j))" by simp_all
  show "event_set (threads k' x) = event_set (threads (kern s) x) \<and> event_info (threads k' x) = event_info (threads (kern s) x)"
    if "x \<in> set (tlists (kern s) (Waiting j))" for x
    using T [OF j] that ipc_frameD(6,7) [OF f, of x] by blast
  show "live k' t" if "live (kern s) t" for t using that ipc_frameD(4) [OF f, of t] by simp
qed

lemma on_objI:
  assumes s: "sys_ok s" and r: "r = Some (e, x, k')" and k': "kern_ok k'" and ok: "obj_ok i (Some (con x)) k'"
    and f: "ipc_frame {Waiting i, Senders i} T (kern s) k'" and T: "\<And>j. j \<noteq> i \<Longrightarrow> T \<inter> set (tlists (kern s) (Waiting j)) = {}"
  shows "\<exists>s'. on_obj i con r s = Some s' \<and> sys_ok s' \<and> kern s' = k'"
proof -
  have "sys_ok (s\<lparr>kern := k', objs := (objs s)(i \<mapsto> con x)\<rparr>)"
    using k' ok on_objI_other [OF s f T] by (simp add: sys_ok_def)
  then show ?thesis by (simp add: on_obj_def r)
qed

text \<open>The kernel stays as it should be in a call on an object.\<close>

lemma kern_okI:
  assumes "kern_ok k" "kinv 1 k'" "ipc_frame L T k k'" "busy k'"
  shows "kern_ok k'"
  using assms ipc_frameD(2,8) [OF assms(3)] kern_okD(3,5) [OF assms(1)] by (simp add: kern_ok_def)

text \<open>Two calls do not reschedule where they should: a mutex that is given back with no waiting thread while its owner had
  borrowed a priority, and an object that is detached while threads wait for it.\<close>

definition quiet :: "call \<Rightarrow> system \<Rightarrow> bool" where
  "quiet c s \<longleftrightarrow> (\<exists>i m. c = MutexRelease i \<and> the_mutex i s = Some m \<and> quiet_release i m (kern s)) \<or>
     (\<exists>i. c = Detach i \<and> (tlists (kern s) (Waiting i) \<noteq> [] \<or> tlists (kern s) (Senders i) \<noteq> []))"

text \<open>A call that is served: it returns or blocks, the invariant holds again, and the most urgent thread runs.\<close>

definition served :: "call \<Rightarrow> system \<Rightarrow> bool" where
  "served c s \<longleftrightarrow> (\<exists>s'. sys_call c s = Some s' \<and> sys_ok s' \<and> interrupt_nest (kern s') = interrupt_nest (kern s) \<and>
     (\<not> quiet c s \<longrightarrow> urgent (kern s) \<longrightarrow> urgent (kern s')))"

lemma obj_served:
  assumes s: "sys_ok s" and r: "r = Some (e, x, k')" and kinv: "kinv 1 k'" and ok: "obj_ok i (Some (con x)) k'"
    and f: "ipc_frame L T (kern s) k'" and L: "L \<subseteq> {Waiting i, Senders i}" and T: "\<And>j. j \<noteq> i \<Longrightarrow> T \<inter> set (tlists (kern s) (Waiting j)) = {}"
    and call: "sys_call c s = on_obj i con r s" and fair: "fair (kern s) k'"
  shows "served c s"
proof -
  note k = sys_okD(1) [OF s]
  have "busy k'" using fair kern_okD(2) [OF k] by (simp add: fair_def)
  then have ko: "kern_ok k'" by (rule kern_okI [OF k kinv f])
  from on_objI [where con = con, OF s r ko ok ipc_frame_mono [OF f L order_refl] T] obtain s' where
    "sys_call c s = Some s'" "sys_ok s'" "kern s' = k'" using call by auto
  then show ?thesis using fair kern_okD(2) [OF k] ipc_frameD(3) [OF f] by (auto simp: served_def fair_def)
qed

lemma the_objD: "the_sem i s = Some x \<Longrightarrow> objs s i = Some (Sem x)" "the_mutex i s = Some m \<Longrightarrow> objs s i = Some (Mtx m)"
  "the_event i s = Some e \<Longrightarrow> objs s i = Some (Evt e)" "the_mb i s = Some mb \<Longrightarrow> objs s i = Some (Mbx mb)"
  "the_mq i s = Some mq \<Longrightarrow> objs s i = Some (Msq mq)"
  by (auto simp: the_sem_def the_mutex_def the_event_def the_mb_def the_mq_def split: option.splits ipc.splits)

lemma the_obj_ok:
  assumes "sys_ok s"
  shows "the_sem i s = Some x \<Longrightarrow> sem_ok i x (kern s)" "the_mutex i s = Some m \<Longrightarrow> mutex_ok i m (kern s)"
    "the_event i s = Some e \<Longrightarrow> event_ok i e (kern s)" "the_mb i s = Some mb \<Longrightarrow> mb_ok mb" "the_mq i s = Some mq \<Longrightarrow> mq_ok mq"
  using sys_okD(2) [OF assms, of i] the_objD [of i s] by auto

lemma no_senders:
  assumes "sys_ok s" "the_sem i s \<noteq> None \<or> the_mutex i s \<noteq> None \<or> the_event i s \<noteq> None" "ipc_frame {Waiting i} T (kern s) k'"
  shows "tlists k' (Senders i) = []"
  using sys_okD(2) [OF assms(1), of i] assms(2) ipc_frameD(5) [OF assms(3), of "Senders i"]
  by (auto dest!: the_objD [of i s])

lemma sem_served:
  assumes s: "sys_ok s" and x: "the_sem i s = Some x"
  shows "runs t (kern s) \<Longrightarrow> in_time t time (kern s) \<Longrightarrow> served (SemTake i time) s" "served (SemRelease i) s"
proof -
  note k = kern_okD [OF sys_okD(1) [OF s]] and ok = the_obj_ok(1) [OF s x]
  show "served (SemTake i time) s" if r: "runs t (kern s)" and a: "in_time t time (kern s)"
  proof -
    have time: "time < 2 ^ 31 - 1" "time \<noteq> 0 \<Longrightarrow> may_block t (kern s)" using a by (simp_all add: in_time_def)
    obtain o' x' k' where q: "rt_sem_take i x time (kern s) = Some (o', x', k')" "kinv 1 k'" "sem_ok i x' k'" "ipc_frame {Waiting i} {} (kern s) k'"
      by (rule sem_take_spec [OF k(1) order_refl ok r time(1)]) blast
    show ?thesis
      by (rule obj_served [where con = Sem, OF s q(1,2) _ q(4)]) (use q(3) no_senders [OF s _ q(4)] x sem_take_fair [OF k(1) ok r time q(1)] in simp_all)
  qed
  obtain e x' k' where q: "rt_sem_release i x (kern s) = Some (e, x', k')" "kinv 1 k'" "sem_ok i x' k'" "ipc_frame {Waiting i} {} (kern s) k'"
    by (rule sem_release_spec [OF k(1) ok k(4)]) blast
  show "served (SemRelease i) s"
    by (rule obj_served [where con = Sem, OF s q(1,2) _ q(4)]) (use q(3) no_senders [OF s _ q(4)] x sem_release_fair [OF k(1) q(1)] in simp_all)
qed

lemma mutex_served:
  assumes s: "sys_ok s" and r: "runs t (kern s)" and x: "the_mutex i s = Some m"
  shows "in_time t time (kern s) \<Longrightarrow> served (MutexTake i time) s" "served (MutexRelease i) s"
proof -
  note k = kern_okD [OF sys_okD(1) [OF s]] and ok = the_obj_ok(2) [OF s x]
  show "served (MutexTake i time) s" if "in_time t time (kern s)"
  proof -
    have time: "time < 2 ^ 31 - 1" "time \<noteq> 0 \<Longrightarrow> may_block t (kern s)" using that by (simp_all add: in_time_def)
    obtain o' m' k' where q: "rt_mutex_take i m time (kern s) = Some (o', m', k')" "kinv 1 k'" "mutex_ok i m' k'" "ipc_frame {Waiting i} {} (kern s) k'"
      by (rule mutex_take_spec [OF k(1) order_refl ok r time(1)]) blast
    show ?thesis
      by (rule obj_served [where con = Mtx, OF s q(1,2) _ q(4)]) (use q(3) no_senders [OF s _ q(4)] x mutex_take_fair [OF k(1) ok r time q(1)] in simp_all)
  qed
  obtain e m' k' where q: "rt_mutex_release i m (kern s) = Some (e, m', k')" "kinv 1 k'" "mutex_ok i m' k'" "ipc_frame {Waiting i} {} (kern s) k'"
    by (rule mutex_release_spec [OF k(1) ok r]) blast
  note f = mutex_release_fair [OF k(1) ok r q(1)]
  have "kern_ok k'" by (rule kern_okI [OF sys_okD(1) [OF s] q(2,4) f(1) [OF k(2)]])
  from on_objI [where con = Mtx, OF s q(1) this _ ipc_frame_mono [OF q(4)]] q(3) no_senders [OF s _ q(4)] obtain s' where
    s': "sys_call (MutexRelease i) s = Some s'" "sys_ok s'" "kern s' = k'" using x by auto
  have "fair (kern s) k'" if "\<not> quiet (MutexRelease i) s" using that f(2) x by (auto simp: quiet_def)
  with s' k(2) ipc_frameD(3) [OF q(4)] show "served (MutexRelease i) s" by (auto simp: served_def fair_def)
qed

lemma event_served:
  assumes s: "sys_ok s" and r: "runs t (kern s)" and x: "the_event i s = Some e" and fl: "flags \<noteq> 0"
  shows "in_time t time (kern s) \<Longrightarrow> valid_info options \<Longrightarrow> served (EventRecv i flags options time) s"
proof -
  assume a: "in_time t time (kern s)" and v: "valid_info options"
  note k = kern_okD [OF sys_okD(1) [OF s]] and ok = the_obj_ok(3) [OF s x]
  have time: "time < 2 ^ 31 - 1" "time \<noteq> 0 \<Longrightarrow> may_block t (kern s)" using a by (simp_all add: in_time_def)
  have free: "{t} \<inter> set (tlists (kern s) (Waiting j)) = {}" for j
    using waiting_suspended [OF k(1), of "Waiting j" t] r by (auto simp: runs_def)
  obtain o' e' k' where q: "rt_event_recv i e flags options time (kern s) = Some (o', e', k')" "kinv 1 k'" "event_ok i e' k'"
    "ipc_frame {Waiting i} {t} (kern s) k'"
    by (rule event_recv_spec [OF k(1) order_refl ok r v fl time(1)]) blast
  show "served (EventRecv i flags options time) s"
    by (rule obj_served [where con = Evt, OF s q(1,2) _ q(4) _ free])
      (use q(3) no_senders [OF s _ q(4)] x event_recv_fair [OF k(1) ok r time q(1)] in simp_all)
qed

lemma wait_lists_apart: "kinv b k \<Longrightarrow> i \<noteq> j \<Longrightarrow> set (tlists k (Waiting i)) \<inter> set (tlists k (Waiting j)) = {}"
  using sched_invD(3) [OF kinvD(1)] by fastforce

lemma event_send_served:
  assumes s: "sys_ok s" and x: "the_event i s = Some e" and fl: "flags \<noteq> 0"
  shows "served (EventSend i flags) s"
proof -
  note k = kern_okD [OF sys_okD(1) [OF s]] and ok = the_obj_ok(3) [OF s x]
  obtain s' q r where sp: "spec_send (map (view (kern s)) (tlists (kern s) (Waiting i))) (ev_set e OR flags) = (s', q, r)"
    by (metis prod_cases3)
  obtain k' where q: "rt_event_send i e flags (kern s) = Some (RT_EOK, e\<lparr>ev_set := s'\<rparr>, k')" "kinv 1 k'"
    "event_ok i (e\<lparr>ev_set := s'\<rparr>) k'" "ipc_frame {Waiting i} (set (tlists (kern s) (Waiting i))) (kern s) k'"
    by (rule event_send_spec [OF k(1,4) ok fl sp]) blast
  show ?thesis
    by (rule obj_served [where con = Evt, OF s q(1,2) _ q(4)])
      (use q(3) no_senders [OF s _ q(4)] x event_send_fair [OF k(1) ok q(1)] wait_lists_apart [OF k(1)] in simp_all)
qed

lemma mb_served:
  assumes s: "sys_ok s" and x: "the_mb i s = Some mb"
  shows "runs t (kern s) \<Longrightarrow> in_time t time (kern s) \<Longrightarrow> served (MbSend i v time) s" "served (MbUrgent i v) s"
    "runs t (kern s) \<Longrightarrow> in_time t time (kern s) \<Longrightarrow> served (MbRecv i time) s"
proof -
  note k = kern_okD [OF sys_okD(1) [OF s]] and ok = the_obj_ok(4) [OF s x]
  show "served (MbSend i v time) s" if r: "runs t (kern s)" and a: "in_time t time (kern s)"
  proof -
    have time: "time < 2 ^ 31 - 1" "time \<noteq> 0 \<Longrightarrow> may_block t (kern s)" using a by (simp_all add: in_time_def)
    obtain o' mb' k' where q: "rt_mb_send_wait i mb v time (kern s) = Some (o', mb', k')" "kinv 1 k'" "mb_ok mb'"
      "ipc_frame {Senders i, Waiting i} {} (kern s) k'"
      using mb_send_refines [OF k(1) ok r time(1)] by blast
    show ?thesis
      by (rule obj_served [where con = Mbx, OF s q(1,2) _ q(4)]) (use q(3) x mb_fair(1) [OF k(1) ok r time q(1)] in simp_all)
  qed
  show "served (MbRecv i time) s" if r: "runs t (kern s)" and a: "in_time t time (kern s)"
  proof -
    have time: "time < 2 ^ 31 - 1" "time \<noteq> 0 \<Longrightarrow> may_block t (kern s)" using a by (simp_all add: in_time_def)
    obtain o' mb' k' where q: "rt_mb_recv i mb time (kern s) = Some (o', mb', k')" "kinv 1 k'" "mb_ok mb'"
      "ipc_frame {Senders i, Waiting i} {} (kern s) k'"
      using mb_recv_refines [OF k(1) ok r time(1)] by blast
    show ?thesis
      by (rule obj_served [where con = Mbx, OF s q(1,2) _ q(4)]) (use q(3) x mb_fair(2) [OF k(1) ok r time q(1)] in simp_all)
  qed
  obtain e mb' k' where q: "rt_mb_urgent i mb v (kern s) = Some (e, mb', k')" "kinv 1 k'" "mb_ok mb'"
    "ipc_frame {Senders i, Waiting i} {} (kern s) k'"
    using mb_urgent_refines [OF k(1) ok k(4)] by blast
  show "served (MbUrgent i v) s"
    by (rule obj_served [where con = Mbx, OF s q(1,2) _ q(4)]) (use q(3) x mb_urgent_fair [OF k(1) q(1)] in simp_all)
qed

lemma mq_served:
  assumes s: "sys_ok s" and x: "the_mq i s = Some mq" and v: "v \<noteq> []" and sz: "sz \<noteq> 0"
  shows "runs t (kern s) \<Longrightarrow> in_time t time (kern s) \<Longrightarrow> served (MqSend i v time) s" "served (MqUrgent i v) s"
    "runs t (kern s) \<Longrightarrow> in_time t time (kern s) \<Longrightarrow> served (MqRecv i sz time) s"
proof -
  note k = kern_okD [OF sys_okD(1) [OF s]] and ok = the_obj_ok(5) [OF s x]
  show "served (MqSend i v time) s" if r: "runs t (kern s)" and a: "in_time t time (kern s)"
  proof -
    have time: "time < 2 ^ 31 - 1" "time \<noteq> 0 \<Longrightarrow> may_block t (kern s)" using a by (simp_all add: in_time_def)
    have "\<exists>o' mq' k'. rt_mq_send_wait i mq v time (kern s) = Some (o', mq', k') \<and> kinv 1 k' \<and> mq_ok mq' \<and>
      ipc_frame {Senders i, Waiting i} {} (kern s) k'"
    proof (cases "length v \<le> unat (mq_msg_size mq)")
      case True
      then show ?thesis using mq_send_refines [OF k(1) ok r time(1) v] by blast
    next
      case False
      then show ?thesis using mq_okD(1) [OF ok] v ok k(1) by (auto simp: rt_mq_send_wait_def)
    qed
    then obtain o' mq' k' where q: "rt_mq_send_wait i mq v time (kern s) = Some (o', mq', k')" "kinv 1 k'" "mq_ok mq'"
      "ipc_frame {Senders i, Waiting i} {} (kern s) k'" by blast
    show ?thesis
      by (rule obj_served [where con = Msq, OF s q(1,2) _ q(4)]) (use q(3) x mq_fair(1) [OF k(1) ok r time q(1)] in simp_all)
  qed
  show "served (MqRecv i sz time) s" if r: "runs t (kern s)" and a: "in_time t time (kern s)"
  proof -
    have time: "time < 2 ^ 31 - 1" "time \<noteq> 0 \<Longrightarrow> may_block t (kern s)" using a by (simp_all add: in_time_def)
    obtain o' mq' k' where q: "rt_mq_recv i mq sz time (kern s) = Some (o', mq', k')" "kinv 1 k'" "mq_ok mq'"
      "ipc_frame {Senders i, Waiting i} {} (kern s) k'"
      using mq_recv_refines [OF k(1) ok r time(1) sz] by blast
    show ?thesis
      by (rule obj_served [where con = Msq, OF s q(1,2) _ q(4)]) (use q(3) x mq_fair(2) [OF k(1) ok r time q(1)] in simp_all)
  qed
  have "\<exists>e mq' k'. rt_mq_urgent i mq v (kern s) = Some (e, mq', k') \<and> kinv 1 k' \<and> mq_ok mq' \<and>
    ipc_frame {Senders i, Waiting i} {} (kern s) k'"
  proof (cases "length v \<le> unat (mq_msg_size mq)")
    case True
    then show ?thesis using mq_urgent_refines [OF k(1) ok k(4) v] by blast
  next
    case False
    then show ?thesis using mq_okD(1) [OF ok] v ok k(1) by (auto simp: rt_mq_urgent_def)
  qed
  then obtain e mq' k' where q: "rt_mq_urgent i mq v (kern s) = Some (e, mq', k')" "kinv 1 k'" "mq_ok mq'"
    "ipc_frame {Senders i, Waiting i} {} (kern s) k'" by blast
  show "served (MqUrgent i v) s"
    by (rule obj_served [where con = Msq, OF s q(1,2) _ q(4)]) (use q(3) x mq_urgent_fair [OF k(1) q(1)] in simp_all)
qed

text \<open>A new object: nobody waits at its place, so that the kernel is left as it is.\<close>

lemma init_served:
  assumes s: "sys_ok s" and r: "r = Some (e, x, kern s)" and call: "sys_call c s = on_obj i con r s"
    and ok: "obj_ok i (Some (con x)) (kern s)"
  shows "served c s"
  by (rule obj_served [where con = con and L = "{}" and T = "{}", OF s r _ ok]) (use kern_okD(1) [OF sys_okD(1) [OF s]] call in \<open>simp_all add: fairI\<close>)

lemma free_place: "sys_ok s \<Longrightarrow> objs s i = None \<Longrightarrow> tlists (kern s) (Waiting i) = [] \<and> tlists (kern s) (Senders i) = []"
  using sys_okD(2) [of s i] by auto

lemma init_one: "tlists k (Waiting i) = [] \<Longrightarrow> ipc_object_init (Waiting i) k = k"
  by (auto simp: ipc_object_init_def intro!: kernel.equality)

lemma creation_served:
  assumes s: "sys_ok s" and n: "objs s i = None"
  shows "v < 0x10000 \<Longrightarrow> fl \<in> {RT_IPC_FLAG_FIFO, RT_IPC_FLAG_PRIO} \<Longrightarrow> served (SemInit i v fl) s"
    "served (MutexInit i fl) s" "fl \<in> {RT_IPC_FLAG_FIFO, RT_IPC_FLAG_PRIO} \<Longrightarrow> served (EventInit i fl) s"
proof -
  have e: "tlists (kern s) (Waiting i) = []" "tlists (kern s) (Senders i) = []" using free_place [OF s n] by simp_all
  show "served (SemInit i v fl) s" if "v < 0x10000" "fl \<in> {RT_IPC_FLAG_FIFO, RT_IPC_FLAG_PRIO}"
    by (rule init_served [OF s _ sys_call.simps(8), where x = "\<lparr>ipc_type = CLASS_SEMAPHORE OR CLASS_STATIC, ipc_flag = fl, sem_value = ucast v\<rparr>"])
      (use that e in \<open>simp_all add: rt_sem_init_def init_one sem_ok_def obj_is_def\<close>)
  show "served (MutexInit i fl) s"
    by (rule init_served [OF s _ sys_call.simps(11), where x = "new_mutex (CLASS_MUTEX OR CLASS_STATIC)"])
      (use e in \<open>simp_all add: rt_mutex_init_def init_one mutex_ok_def new_mutex_def obj_is_def\<close>)
  show "served (EventInit i fl) s" if "fl \<in> {RT_IPC_FLAG_FIFO, RT_IPC_FLAG_PRIO}"
    by (rule init_served [OF s _ sys_call.simps(14), where x = "\<lparr>ipc_type = CLASS_EVENT OR CLASS_STATIC, ipc_flag = fl, ev_set = 0\<rparr>"])
      (use that e in \<open>simp_all add: rt_event_init_def init_one event_ok_def obj_is_def\<close>)
qed

lemma queue_creation_served:
  assumes s: "sys_ok s" and l: "runs t (kern s)"
  shows "legal t (MbInit i pool sz fl) s \<Longrightarrow> served (MbInit i pool sz fl) s"
    "legal t (MqInit i nxt data msize psize fl) s \<Longrightarrow> served (MqInit i nxt data msize psize fl) s"
proof -
  show "served (MbInit i pool sz fl) s" if "legal t (MbInit i pool sz fl) s"
    by (rule init_served [OF s _ sys_call.simps(17), where x = "new_mailbox (CLASS_MAILBOX OR CLASS_STATIC) fl pool sz"])
      (use that free_place [OF s, of i] in \<open>auto simp: rt_mb_init_def new_mailbox_def fresh_lists mb_ok_def obj_is_def word_less_nat_alt word_le_nat_alt unsigned_ucast_eq take_bit_eq_mod\<close>)
  show "served (MqInit i nxt data msize psize fl) s" if a: "legal t (MqInit i nxt data msize psize fl) s"
  proof -
    obtain mq where mq: "rt_mq_init i nxt data msize psize fl (kern s) = (mq, kern s)" "mq_ok mq"
      using mq_init_ready [where k = "kern s" and i = i and msg_size = msize and pool_size = psize and data = data and flag = fl and nxt = nxt, OF _ refl]
        free_place [OF s, of i] a by auto
    show ?thesis by (rule init_served [OF s, where con = Msq and e = "()"]) (use mq in simp_all)
  qed
qed

section \<open>Calls on the kernel\<close>

lemma kern_served:
  assumes s: "sys_ok s" and call: "sys_call c s = on_kernel r s" and r: "r = Some k'" and kinv: "kinv 1 k'" and only: "only_thread_timers k'"
    and n: "interrupt_nest k' = interrupt_nest (kern s)" "0 \<le> lock_nest k'" and fair: "fair (kern s) k'"
    and l: "\<And>i. set (tlists k' (Waiting i)) \<subseteq> set (tlists (kern s) (Waiting i))" "\<And>i. set (tlists k' (Senders i)) \<subseteq> set (tlists (kern s) (Senders i))"
    and e: "\<And>x. event_set (threads k' x) = event_set (threads (kern s) x)" "\<And>x. event_info (threads k' x) = event_info (threads (kern s) x)"
    and lv: "\<And>i m t. objs s i = Some (Mtx m) \<Longrightarrow> mtx_owner m = Some t \<Longrightarrow> live (kern s) t \<Longrightarrow> live k' t"
  shows "served c s"
proof -
  note k = sys_okD(1) [OF s]
  have "kern_ok k'" using fair kern_okD(2) [OF k] kinv only n by (simp add: kern_ok_def fair_def)
  moreover have "obj_ok i (objs s i) k'" for i
    by (rule obj_ok_mono [OF sys_okD(2) [OF s] l]) (use e lv in simp_all)
  ultimately have "sys_ok (s\<lparr>kern := k'\<rparr>)" by (simp add: sys_ok_def)
  then show ?thesis using fair kern_okD(2) [OF k] n(1) by (simp add: served_def call on_kernel_def r fair_def)
qed

lemma only_thread_timersI: "only_thread_timers k \<Longrightarrow> set (tmlists k' HardList) \<subseteq> set (tmlists k HardList) \<union> range ThreadTimer \<Longrightarrow> only_thread_timers k'"
  by (fastforce simp: only_thread_timers_def)

lemma kframe_hard: "kframe k k' \<Longrightarrow> tmlists k' HardList = tmlists k HardList \<Longrightarrow> only_thread_timers k \<Longrightarrow> only_thread_timers k'"
  by (simp add: only_thread_timers_def)

text \<open>A call that changes no state and ends in the scheduler.\<close>

lemma schedule_served:
  assumes s: "sys_ok s" and call: "sys_call c s = on_kernel (rt_schedule k1) s" and k1: "kinv 1 k1" "calm (kern s) k1"
    and same: "tlists k1 = tlists (kern s)" "tmlists k1 = tmlists (kern s)" "interrupt_nest k1 = interrupt_nest (kern s)"
      "\<And>x. event_set (threads k1 x) = event_set (threads (kern s) x)" "\<And>x. event_info (threads k1 x) = event_info (threads (kern s) x)"
  shows "served c s"
proof -
  note k = kern_okD [OF sys_okD(1) [OF s]]
  have cur: "current_thread k1 \<noteq> None" "lock_nest k1 = lock_nest (kern s)" using k(4) k1(2) by (simp_all add: calm_def)
  obtain k' where k': "rt_schedule k1 = Some k'" "kinv 1 k'" "kframe k1 k'" "tmlists k' = tmlists k1" "\<And>x. live k' x = live k1 x"
    "\<And>i. tlists k' (Waiting i) = tlists k1 (Waiting i)" "\<And>i. tlists k' (Senders i) = tlists k1 (Senders i)"
    by (rule schedule_kinv [OF k1(1) cur(1)]) blast
  have f: "fair (kern s) k'"
    by (rule fairI(2), rule calm_resched [OF k1(2)], rule reschedI [OF k'(1) k1(1)]) simp_all
  have fr: "lock_nest k' = lock_nest k1" "interrupt_nest k' = interrupt_nest k1" using k'(3) by (simp_all add: kframe_def)
  have lv: "live k' x = live (kern s) x" for x using k'(5) k1(2) by (simp add: live_def calm_def)
  show ?thesis
    by (rule kern_served [OF s call k'(1,2) _ _ _ f])
      (use k k' fr cur same lv kframe_threads(10,11) [OF k'(3)] in \<open>simp_all add: only_thread_timers_def\<close>)
qed

lemma yield_served: "sys_ok s \<Longrightarrow> served Yield s"
proof -
  assume s: "sys_ok s"
  note k = kern_okD [OF sys_okD(1) [OF s]]
  obtain t where t: "current_thread (kern s) = Some t" using k(4) by blast
  define k1 where "k1 = upd_thread t (\<lambda>th. th\<lparr>remaining_tick := th_init_tick th, stat := stat th OR RT_THREAD_STAT_YIELD\<rparr>) (kern s)"
  have k1: "kinv 1 k1" unfolding k1_def by (rule upd_thread_kinv [OF k(1)]) (simp_all add: stack_sound_def)
  have c: "calm (kern s) k1" by (auto simp: k1_def calm_def)
  show "served Yield s"
    by (rule schedule_served [OF s _ k1 c]) (simp_all add: rt_thread_yield_def rt_thread_self_def t k1_def)
qed

lemma lock_kinv: "kinv b k \<Longrightarrow> kinv b (k\<lparr>lock_nest := n\<rparr>)"
  unfolding kinv_def sched_inv_def timer_inv_def obj_inv_def live_def linked_def group_ok_def flagged_def by simp

lemma critical_served:
  assumes s: "sys_ok s"
  shows "lock_nest (kern s) < 2 ^ 15 - 1 \<Longrightarrow> served EnterCritical s" "served ExitCritical s"
proof -
  note k = kern_okD [OF sys_okD(1) [OF s]]
  show "served EnterCritical s" if "lock_nest (kern s) < 2 ^ 15 - 1"
  proof -
    have f: "fair (kern s) (rt_enter_critical (kern s))"
      using k(5) that by (auto simp: fair_def busy_def urgent_def awake_def rt_enter_critical_def signed16_def)
    show ?thesis
      by (rule kern_served [OF s sys_call.simps(4) refl _ _ _ _ f])
        (use k that in \<open>simp_all add: lock_kinv rt_enter_critical_def signed16_def only_thread_timers_def live_def\<close>)
  qed
  define n where "n = signed16 (lock_nest (kern s) - 1)"
  show "served ExitCritical s"
  proof (cases "n \<le> 0")
    case True
    define k2 where "k2 = (kern s)\<lparr>lock_nest := 0\<rparr>"
    have k2: "kinv 1 k2" unfolding k2_def by (rule lock_kinv [OF k(1)])
    have cur: "current_thread k2 \<noteq> None" using k(4) by (simp add: k2_def)
    obtain k' where k': "rt_schedule k2 = Some k'" "kinv 1 k'" "kframe k2 k'" "tmlists k' = tmlists k2" "\<And>x. live k' x = live k2 x"
      "\<And>i. tlists k' (Waiting i) = tlists k2 (Waiting i)" "\<And>i. tlists k' (Senders i) = tlists k2 (Senders i)"
      by (rule schedule_kinv [OF k2 cur]) blast
    have f: "fair (kern s) k'"
      using schedule_unlocked [OF k2 cur _ _ k'(1)] k(2) by (auto simp: fair_def k2_def busy_def awake_def)
    have call: "sys_call ExitCritical s = on_kernel (rt_schedule k2) s"
      using True k(4) by (simp add: rt_exit_critical_def n_def k2_def)
    have fr: "lock_nest k' = lock_nest k2" "interrupt_nest k' = interrupt_nest k2" using k'(3) by (simp_all add: kframe_def)
    show ?thesis
      by (rule kern_served [OF s call k'(1,2) _ _ _ f])
        (use k k' fr kframe_threads(10,11) [OF k'(3)] in \<open>simp_all add: only_thread_timers_def k2_def live_def\<close>)
  next
    case False
    have f: "fair (kern s) ((kern s)\<lparr>lock_nest := n\<rparr>)"
      using False by (auto simp: fair_def busy_def urgent_def awake_def)
    have call: "sys_call ExitCritical s = on_kernel (Some ((kern s)\<lparr>lock_nest := n\<rparr>)) s"
      using False by (simp add: rt_exit_critical_def n_def)
    show ?thesis
      by (rule kern_served [OF s call refl _ _ _ _ f]) (use k False in \<open>simp_all add: lock_kinv only_thread_timers_def live_def\<close>)
  qed
qed

lemma sleep_for_served:
  assumes s: "sys_ok s" and r: "runs t (kern s)" and b: "may_block t (kern s)" and n: "n < HALF_TICK"
    and call: "sys_call c s = on_kernel (sleep_for t n (kern s)) s"
  shows "served c s"
proof -
  note k = kern_okD [OF sys_okD(1) [OF s]]
  have cur: "current_thread (kern s) = Some t" "state_of (kern s) t = RT_THREAD_RUNNING" using r by (simp_all add: runs_def)
  obtain k' where k': "sleep_for t n (kern s) = Some k'" "kinv 1 k'" "lock_nest k' = lock_nest (kern s)"
    "interrupt_nest k' = interrupt_nest (kern s)" "\<And>x. live k' x = live (kern s) x"
    "set (tmlists k' HardList) = insert (ThreadTimer t) (set (tmlists (kern s) HardList))" "kframe (kern s) k'"
    "\<And>i. tlists k' (Waiting i) = tlists (kern s) (Waiting i)" "\<And>i. tlists k' (Senders i) = tlists (kern s) (Senders i)" "resched {t} (kern s) k'"
    by (rule sleep_for_spec [OF k(1) order_refl cur n]) blast
  have f: "fair (kern s) k'" by (rule fairI(3) [OF k'(10)]) (use b in \<open>simp_all add: may_block_def\<close>)
  show ?thesis
    by (rule kern_served [OF s call k'(1,2) _ k'(4) _ f])
      (use k k' kframe_threads(10,11) [OF k'(7)] in \<open>auto simp: only_thread_timers_def\<close>)
qed

lemma sleep_served:
  assumes s: "sys_ok s" and r: "runs t (kern s)" and b: "may_block t (kern s)"
  shows "n < HALF_TICK \<Longrightarrow> served (Sleep n) s" "served TimerWait s"
proof -
  note k = kern_okD [OF sys_okD(1) [OF s]]
  have cur: "current_thread (kern s) = Some t" "state_of (kern s) t = RT_THREAD_RUNNING" using r by (simp_all add: runs_def)
  have sleep: "rt_thread_sleep n (kern s) = sleep_for t n (kern s)" for n
    using running_is_thread [OF k(1) cur(2)] runs_context(2) [OF r] by (simp add: rt_thread_sleep_def)
  show "served (Sleep n) s" if "n < HALF_TICK"
    by (rule sleep_for_served [OF s r b that]) (simp add: sleep)
  show "served TimerWait s"
  proof (cases "timer_list_next_timeout SoftList (kern s) = 0xffffffff")
    case True
    obtain k1 where k1: "rt_thread_suspend t (kern s) = Some (RT_EOK, k1)" "kinv 1 k1" "kframe (kern s) k1" "current_thread k1 = Some t"
      "state_of k1 t = RT_THREAD_SUSPEND" "\<And>x. x \<noteq> t \<Longrightarrow> threads k1 x = threads (kern s) x" "tlists k1 = tlists (unlink t (kern s))"
      "tmlists k1 HardList = tmlists (kern s) HardList"
      by (rule thread_suspend_spec [OF k(1) disjI2 [OF cur(2)]]) (use cur(1) in metis)
    have l1: "tlists k1 = tlists (kern s)" using k1(7) unlink_unlinked [OF running_unlinked [OF kinvD(1) [OF k(1)] cur(2)]] by simp
    have c1: "current_thread k1 \<noteq> None" using k1(4) by simp
    obtain k' where k': "rt_schedule k1 = Some k'" "kinv 1 k'" "kframe k1 k'" "tmlists k' = tmlists k1" "\<And>x. live k' x = live k1 x"
      "\<And>i. tlists k' (Waiting i) = tlists k1 (Waiting i)" "\<And>i. tlists k' (Senders i) = tlists k1 (Senders i)"
      by (rule schedule_kinv [OF k1(2) c1]) blast
    have "resched {t} (kern s) k'"
      by (rule reschedI [OF k'(1) k1(2)]) (use k1(3,4,6) cur(1) in \<open>auto simp: awake_def kframe_def\<close>)
    then have f: "fair (kern s) k'" by (rule fairI(3)) (use b in \<open>simp_all add: may_block_def\<close>)
    have fr: "lock_nest k' = lock_nest (kern s)" "interrupt_nest k' = interrupt_nest (kern s)" using k'(3) k1(3) by (simp_all add: kframe_def)
    have lv: "live k' x = live (kern s) x" for x
      using k'(5) k1(5,6) cur(2) by (cases "x = t") (simp_all add: live_def)
    have call: "sys_call TimerWait s = on_kernel (rt_schedule k1) s"
      using True runs_context(2) [OF r] by (simp add: timer_thread_wait_def k1(1))
    show ?thesis
      by (rule kern_served [OF s call k'(1,2) _ fr(2) _ f])
        (use k k' fr l1 lv k1(8) kframe_threads(10,11) [OF k'(3)] kframe_threads(10,11) [OF k1(3)] in \<open>simp_all add: only_thread_timers_def\<close>)
  next
    case False
    define d where "d = timer_list_next_timeout SoftList (kern s) - rt_tick_get (kern s)"
    show ?thesis
    proof (cases "d < HALF_TICK")
      case True
      show ?thesis
        by (rule sleep_for_served [OF s r b True]) (use True False sleep in \<open>simp add: timer_thread_wait_def Let_def d_def [symmetric] rt_thread_delay_def\<close>)
    next
      case f: False
      have "sys_call TimerWait s = on_kernel (Some (kern s)) s"
        using f False by (simp add: timer_thread_wait_def Let_def d_def [symmetric])
      then show ?thesis
        by (rule kern_served [OF s _ refl]) (use k in \<open>simp_all add: fairI\<close>)
    qed
  qed
qed

lemma exit_served:
  assumes s: "sys_ok s" and r: "runs t (kern s)" and l: "legal t Exit s"
  shows "served Exit s"
proof -
  note k = kern_okD [OF sys_okD(1) [OF s]]
  have cur: "current_thread (kern s) = Some t" "live (kern s) t" using r by (auto simp: runs_def live_def)
  have b: "may_block t (kern s)" using l by simp
  obtain k' where k': "thread_exit (kern s) = Some k'" "kinv 1 k'" "\<And>x. live k' x \<longleftrightarrow> live (kern s) x \<and> x \<noteq> t"
    "lock_nest k' = lock_nest (kern s)" "interrupt_nest k' = interrupt_nest (kern s)"
    "tmlists k' HardList = filter (\<lambda>x. x \<noteq> ThreadTimer t) (tmlists (kern s) HardList)" "resched {t} (kern s) k'"
    "\<And>i. tlists k' (Waiting i) = filter (\<lambda>x. x \<noteq> t) (tlists (kern s) (Waiting i))"
    "\<And>i. tlists k' (Senders i) = filter (\<lambda>x. x \<noteq> t) (tlists (kern s) (Senders i))"
    "\<And>x. event_set (threads k' x) = event_set (threads (kern s) x)" "\<And>x. event_info (threads k' x) = event_info (threads (kern s) x)"
    by (rule exit_spec [OF k(1) cur]) blast
  have f: "fair (kern s) k'" by (rule fairI(3) [OF k'(7)]) (use b in \<open>simp_all add: may_block_def\<close>)
  show ?thesis
    by (rule kern_served [OF s sys_call.simps(6) k'(1,2) _ k'(5) _ f]) (use k k' l in \<open>auto simp: only_thread_timers_def\<close>)
qed

lemma spawn_served:
  assumes s: "sys_ok s" and r: "runs t (kern s)" and l: "legal t (Spawn x start sz p tck) s"
  shows "served (Spawn x start sz p tck) s"
proof -
  note k = kern_okD [OF sys_okD(1) [OF s]]
  have a: "\<not> live (kern s) x" "p < RT_THREAD_PRIORITY_MAX" "unat start + unat sz < 2 ^ 32" "76 \<le> sz" "start \<noteq> 0"
    "obj_is CLASS_THREAD (CLASS_THREAD OR CLASS_STATIC)"
    using l by (simp_all add: obj_is_def)
  obtain k1 k' where b: "thread_init x start sz p tck (set_type (CLASS_THREAD OR CLASS_STATIC) x (kern s)) = Some k1"
    "rt_thread_startup x k1 = Some (RT_EOK, k')" "kinv 1 k'"
    "live k' x" "\<And>y. y \<noteq> x \<Longrightarrow> live k' y = live (kern s) y" "tmlists k' HardList = tmlists (kern s) HardList"
    "lock_nest k' = lock_nest (kern s)" "interrupt_nest k' = interrupt_nest (kern s)" "resched {} (kern s) k'"
    "\<And>i. tlists k' (Waiting i) = tlists (kern s) (Waiting i)" "\<And>i. tlists k' (Senders i) = tlists (kern s) (Senders i)"
    "\<And>y. event_set (threads k' y) = event_set (threads (kern s) y)" "\<And>y. event_info (threads k' y) = event_info (threads (kern s) y)"
    by (rule thread_born [OF k(1) a(1-4,6), where tck = tck]) (use k(4) in blast)
  have call: "sys_call (Spawn x start sz p tck) s = on_kernel (Some k') s"
    using a(5) b(1,2) by (simp add: rt_thread_init_def)
  have lv: "live k' y" if "live (kern s) y" for y using that b(4,5) by (cases "y = x") simp_all
  show ?thesis
    by (rule kern_served [OF s call refl b(3) _ b(8) _ fairI(2) [OF b(9)]])
      (use k b lv in \<open>simp_all add: only_thread_timers_def\<close>)
qed

section \<open>Objects that go away\<close>

text \<open>To wake every thread of a list takes nothing from anybody.\<close>

lemma resume_all_keeps:
  assumes k: "kinv b k" and wl: "wait_list l" and r: "ipc_list_resume_all l k = Some k'"
  shows "kinv b k'" "ipc_frame {l} {} k k'" "tlists k' l = []" "keeps k k'" "tlists k l = [] \<Longrightarrow> k' = k"
proof -
  from resume_all_spec [OF k wl] r have k': "kinv b k'" "current_thread k' = current_thread k" "ipc_frame {l} {} k k'" "tlists k' l = []"
    "\<And>x. x \<in> set (tlists k l) \<Longrightarrow> state_of k' x \<in> {RT_THREAD_READY, RT_THREAD_RUNNING}" "\<And>x. x \<notin> set (tlists k l) \<Longrightarrow> threads k' x = threads k x"
    by auto
  show "kinv b k'" "ipc_frame {l} {} k k'" "tlists k' l = []" by (fact k')+
  have "state_of k x = RT_THREAD_SUSPEND" if "x \<in> set (tlists k l)" for x by (rule waiting_suspended [OF k wl that])
  then have "(awake k x \<longrightarrow> awake k' x) \<and> (state_of k x = RT_THREAD_RUNNING \<longrightarrow> state_of k' x = RT_THREAD_RUNNING)" for x
    using k'(6) [of x] by (cases "x \<in> set (tlists k l)") (auto simp: awake_def)
  then show "keeps k k'" using k'(2) ipc_frameD(2) [OF k'(3)] by (simp add: keeps_def)
  show "k' = k" if "tlists k l = []" using r that by (subst (asm) ipc_list_resume_all.simps) simp
qed

lemma resume_all_total: "kinv b k \<Longrightarrow> wait_list l \<Longrightarrow> \<exists>k'. ipc_list_resume_all l k = Some k'"
  using resume_all_spec by blast

definition emptied :: "nat \<Rightarrow> kernel \<Rightarrow> kernel \<Rightarrow> bool" where
  "emptied i k k' \<longleftrightarrow> kinv 1 k' \<and> ipc_frame {Waiting i, Senders i} {} k k' \<and> tlists k' (Waiting i) = [] \<and> tlists k' (Senders i) = [] \<and>
     keeps k k' \<and> (tlists k (Waiting i) = [] \<longrightarrow> tlists k (Senders i) = [] \<longrightarrow> k' = k)"

lemma empty_one:
  assumes k: "kinv 1 k" and s: "tlists k (Senders i) = []"
  obtains k' where "ipc_list_resume_all (Waiting i) k = Some k'" "emptied i k k'"
proof -
  obtain k' where r: "ipc_list_resume_all (Waiting i) k = Some k'" using resume_all_total [OF k wait_list_simps(1)] by blast
  note q = resume_all_keeps [OF k wait_list_simps(1) r]
  show thesis
    using that [OF r] q s ipc_frameD(5) [OF q(2), of "Senders i"] ipc_frame_mono [OF q(2), of "{Waiting i, Senders i}" "{}"]
    by (simp add: emptied_def)
qed

lemma empty_both:
  assumes k: "kinv 1 k"
  obtains k' where "Option.bind (ipc_list_resume_all (Waiting i) k) (ipc_list_resume_all (Senders i)) = Some k'" "emptied i k k'"
proof -
  obtain k1 where r: "ipc_list_resume_all (Waiting i) k = Some k1" using resume_all_total [OF k wait_list_simps(1)] by blast
  note q = resume_all_keeps [OF k wait_list_simps(1) r]
  obtain k2 where r2: "ipc_list_resume_all (Senders i) k1 = Some k2" using resume_all_total [OF q(1) wait_list_simps(2)] by blast
  note q2 = resume_all_keeps [OF q(1) wait_list_simps(2) r2]
  have f: "ipc_frame {Waiting i, Senders i} {} k k2"
    by (rule ipc_frame_trans [OF ipc_frame_mono [OF q(2)] ipc_frame_mono [OF q2(2)]]) auto
  have w: "tlists k2 (Waiting i) = []" using q(3) ipc_frameD(5) [OF q2(2), of "Waiting i"] by simp
  have e: "k2 = k" if "tlists k (Waiting i) = []" "tlists k (Senders i) = []"
    using that q(5) q2(5) by simp
  show thesis
    using that [of k2] r r2 q2(1,3) f w e keeps_trans [OF q(4) q2(4)] by (simp add: emptied_def)
qed

lemma on_goneI:
  assumes s: "sys_ok s" and r: "r = Some (e, x, k')" and em: "emptied i (kern s) k'" and call: "sys_call (Detach i) s = on_gone i r s"
  shows "served (Detach i) s"
proof -
  note k = sys_okD(1) [OF s]
  have e: "kinv 1 k'" "ipc_frame {Waiting i, Senders i} {} (kern s) k'" "tlists k' (Waiting i) = []" "tlists k' (Senders i) = []"
    "keeps (kern s) k'" "tlists (kern s) (Waiting i) = [] \<Longrightarrow> tlists (kern s) (Senders i) = [] \<Longrightarrow> k' = kern s"
    using em unfolding emptied_def by blast+
  have ko: "kern_ok k'" by (rule kern_okI [OF k e(1,2) keeps_busy [OF e(5) kern_okD(2) [OF k]]])
  have "sys_ok (s\<lparr>kern := k', objs := (objs s)(i := None)\<rparr>)"
    using on_objI_other [OF s e(2)] ko e(3,4) by (simp add: sys_ok_def)
  then show ?thesis using e(6) ipc_frameD(3) [OF e(2)] unfolding served_def call by (auto simp: on_gone_def r quiet_def)
qed

lemma detach_served:
  assumes s: "sys_ok s" and l: "legal t (Detach i) s"
  shows "served (Detach i) s"
proof -
  have k: "kinv 1 (kern s)" by (rule kern_okD(1) [OF sys_okD(1) [OF s]])
  obtain ob where ob: "objs s i = Some ob" "is_system (type_of ob)" using l by (auto split: option.splits)
  note ok = sys_okD(2) [OF s, of i]
  obtain k1 where k1: "Option.bind (ipc_list_resume_all (Waiting i) (kern s)) (ipc_list_resume_all (Senders i)) = Some k1" "emptied i (kern s) k1"
    by (rule empty_both [OF k])
  have one: "\<exists>k2. ipc_list_resume_all (Waiting i) (kern s) = Some k2 \<and> emptied i (kern s) k2" if "tlists (kern s) (Senders i) = []"
    using empty_one [OF k that] by blast
  show ?thesis
  proof (cases ob)
    case (Sem x)
    then obtain k2 where "ipc_list_resume_all (Waiting i) (kern s) = Some k2" "emptied i (kern s) k2" using one ok ob(1) by auto
    then show ?thesis using ob ok Sem by (intro on_goneI [OF s]) (auto simp: rt_sem_detach_def sem_ok_def)
  next
    case (Mtx x)
    then obtain k2 where "ipc_list_resume_all (Waiting i) (kern s) = Some k2" "emptied i (kern s) k2" using one ok ob(1) by auto
    then show ?thesis using ob ok Mtx by (intro on_goneI [OF s]) (auto simp: rt_mutex_detach_def mutex_ok_def)
  next
    case (Evt x)
    then obtain k2 where "ipc_list_resume_all (Waiting i) (kern s) = Some k2" "emptied i (kern s) k2" using one ok ob(1) by auto
    then show ?thesis using ob ok Evt by (intro on_goneI [OF s]) (auto simp: rt_event_detach_def event_ok_def)
  next
    case (Mbx x)
    then show ?thesis using ob ok k1 by (intro on_goneI [OF s _ k1(2)]) (auto simp: rt_mb_detach_def mb_ok_def mb_resume_all_def)
  next
    case (Msq x)
    then show ?thesis using ob ok k1 by (intro on_goneI [OF s _ k1(2)]) (auto simp: rt_mq_detach_def mq_ok_def mq_resume_all_def)
  qed
qed

section \<open>Every step\<close>

lemma call_served:
  assumes s: "sys_inv s" and r: "runs t (kern s)" and l: "legal t c s"
  shows "served c s"
proof -
  have k: "sys_ok s" using s by (simp add: sys_inv_def)
  show ?thesis
  proof (cases c)
    case (Spawn x start sz p tck)
    then show ?thesis using spawn_served [OF k r] l by blast
  next
    case (SemInit i v fl)
    then show ?thesis using creation_served(1) [OF k] l by simp
  next
    case (MutexInit i fl)
    then show ?thesis using creation_served(2) [OF k] l by simp
  next
    case (EventInit i fl)
    then show ?thesis using creation_served(3) [OF k] l by simp
  next
    case (MbInit i pool sz fl)
    then show ?thesis using queue_creation_served(1) [OF k r] l by blast
  next
    case (MqInit i nxt data msize psize fl)
    then show ?thesis using queue_creation_served(2) [OF k r] l by blast
  next
    case (Detach i)
    then show ?thesis using detach_served [OF k] l by blast
  next
    case Exit
    then show ?thesis using exit_served [OF k r] l by blast
  qed (use l yield_served [OF k] critical_served [OF k] sleep_served [OF k r] sem_served [OF k] mutex_served [OF k r]
      event_served [OF k r] event_send_served [OF k] mb_served [OF k] mq_served(1,2) [OF k, where sz = 1] mq_served(3) [OF k, where v = "[0]"] r in auto)
qed

lemma interrupt_served:
  assumes s: "sys_inv s" and c: "from_interrupt c" "legal t c s"
  obtains s' where "interrupt c s = Some s'" "sys_inv s'" "urgent (kern s) \<Longrightarrow> urgent (kern s')"
proof -
  define s1 where "s1 = s\<lparr>kern := rt_interrupt_enter (kern s)\<rparr>"
  have n: "interrupt_nest (kern s1) = 1" "objs s1 = objs s" using s by (simp_all add: s1_def sys_inv_def rt_interrupt_enter_def)
  have same: "kern s1 = (kern s)\<lparr>interrupt_nest := 1\<rparr>" using s by (simp add: s1_def sys_inv_def rt_interrupt_enter_def)
  have ok: "obj_ok i ob (k\<lparr>interrupt_nest := m\<rparr>) = obj_ok i ob k" for i ob k m
    by (cases "(i, ob, k)" rule: obj_ok.cases)
      (simp_all add: sem_ok_def mutex_ok_def event_ok_def live_def cong: option.case_cong)
  have ko: "kern_ok (k\<lparr>interrupt_nest := m\<rparr>) = kern_ok k" for k m
    by (simp add: kern_ok_def nest_kinv busy_def awake_def only_thread_timers_def)
  have u: "urgent (k\<lparr>interrupt_nest := m\<rparr>) = urgent k" for k m by (simp add: urgent_def)
  have k1: "sys_ok s1" using s by (simp add: sys_inv_def sys_ok_def same n(2) ok ko)
  have the: "the_sem i s1 = the_sem i s" "the_event i s1 = the_event i s" "the_mb i s1 = the_mb i s" "the_mq i s1 = the_mq i s" for i
    by (simp_all add: the_sem_def the_event_def the_mb_def the_mq_def n(2))
  have "served c s1"
    using c sem_served(2) [OF k1] event_send_served [OF k1] mb_served(2) [OF k1] mq_served(2) [OF k1, where sz = 1]
    by (cases c) (auto simp: the)
  moreover have "\<not> quiet c s1" using c(1) by (cases c) (auto simp: quiet_def)
  ultimately obtain s2 where s2: "sys_call c s1 = Some s2" "sys_ok s2" "interrupt_nest (kern s2) = 1" "urgent (kern s1) \<Longrightarrow> urgent (kern s2)"
    using n(1) by (auto simp: served_def)
  define s' where "s' = s2\<lparr>kern := rt_interrupt_leave (kern s2)\<rparr>"
  have l: "kern s' = (kern s2)\<lparr>interrupt_nest := 0\<rparr>" "objs s' = objs s2"
    using s2(3) by (simp_all add: s'_def rt_interrupt_leave_def)
  show thesis
    by (rule that [of s']) (use s2 in \<open>simp_all add: interrupt_def s1_def [symmetric] s'_def [symmetric] sys_inv_def sys_ok_def l ok ko u same\<close>)
qed

lemma tick_served:
  assumes s: "sys_inv s"
  obtains k' where "SysTick_Handler (\<lambda>_ k. Some k) (kern s) = Some k'" "sys_inv (s\<lparr>kern := k'\<rparr>)" "urgent (kern s) \<Longrightarrow> urgent k'"
proof -
  have ok: "sys_ok s" "interrupt_nest (kern s) = 0" using s by (simp_all add: sys_inv_def)
  note k = kern_okD [OF sys_okD(1) [OF ok(1)]]
  have "interrupt_nest (kern s) < 256" using ok(2) by simp
  then obtain k' where k': "SysTick_Handler (\<lambda>_ k. Some k) (kern s) = Some k'" "kinv 1 k'" "only_thread_timers k'"
    "lock_nest k' = lock_nest (kern s)" "interrupt_nest k' = interrupt_nest (kern s)" "\<And>x. live k' x = live (kern s) x"
    by (rule systick_sleepers [OF k(1,4,3)]) blast
  have d: "drift (kern s) k'" by (rule systick_drift [OF k(1,4,3) k'(1)])
  have f: "busy k'" "urgent (kern s) \<Longrightarrow> urgent k'" using d k(2) by (simp_all add: drift_def fair_def)
  have "kern_ok k'" using k' f(1) k(5) by (simp add: kern_ok_def)
  moreover have "obj_ok i (objs s i) k'" for i
    by (rule obj_ok_mono [OF sys_okD(2) [OF ok(1)]]) (use d k'(6) in \<open>simp_all add: drift_def\<close>)
  ultimately show thesis using that [OF k'(1)] f(2) k'(5) ok(2) by (simp add: sys_inv_def sys_ok_def)
qed

section \<open>Every reachable state\<close>

text \<open>The system from its start on; \<open>P\<close> restricts the actions that are taken.\<close>

inductive sys_reach :: "(system \<Rightarrow> action \<Rightarrow> bool) \<Rightarrow> system \<Rightarrow> bool" for P :: "system \<Rightarrow> action \<Rightarrow> bool" where
  start: "main \<noteq> timer_thread \<Longrightarrow> main \<noteq> idle_thread \<Longrightarrow> unat stack + 32768 < 2 ^ 32 \<Longrightarrow> tstack \<noteq> 0 \<Longrightarrow> unat tstack + 512 < 2 ^ 32 \<Longrightarrow>
    istack \<noteq> 0 \<Longrightarrow> unat istack + 256 < 2 ^ 32 \<Longrightarrow> rtthread_startup (Some main) (Some stack) tstack istack boot_kernel = Some k \<Longrightarrow>
    sys_reach P \<lparr>kern = k, objs = (\<lambda>_. None)\<rparr>"
| step: "sys_reach P s \<Longrightarrow> P s a \<Longrightarrow> sys_step s a s' \<Longrightarrow> sys_reach P s'"

text \<open>The actions that reschedule where they should.\<close>

fun loud :: "system \<Rightarrow> action \<Rightarrow> bool" where
  "loud s (Call t c) = (\<not> quiet c s)"
| "loud s _ = True"

lemma start_inv:
  assumes "rtthread_startup (Some main) (Some stack) ts is boot_kernel = Some k"
    "main \<noteq> timer_thread" "main \<noteq> idle_thread" "unat stack + 32768 < 2 ^ 32" "ts \<noteq> 0" "unat ts + 512 < 2 ^ 32" "is \<noteq> 0" "unat is + 256 < 2 ^ 32"
  shows "sys_inv \<lparr>kern = k, objs = (\<lambda>_. None)\<rparr>" "urgent k"
proof -
  obtain k' where "rtthread_startup (Some main) (Some stack) ts is boot_kernel = Some k'" "started [idle_thread, timer_thread, main] k'" "busy k'" "urgent k'"
    by (rule startup_runs [OF assms(2-8)])
  with assms(1) show "sys_inv \<lparr>kern = k, objs = (\<lambda>_. None)\<rparr>" "urgent k"
    by (simp_all add: sys_inv_def sys_ok_def kern_ok_def started_def only_thread_timers_def)
qed

lemma step_inv:
  assumes s: "sys_inv s" and st: "sys_step s a s'"
  shows "sys_inv s'" "loud s a \<Longrightarrow> urgent (kern s) \<Longrightarrow> urgent (kern s')"
  using st
proof (induction rule: sys_step.cases)
  case (call t s1 c s2)
  { case 1
    then show ?case using call_served [of s1 t c] call s by (auto simp: served_def sys_inv_def)
  next
    case 2
    then show ?case using call_served [of s1 t c] call s by (auto simp: served_def) }
next
  case (tick s1 k')
  obtain k2 where "SysTick_Handler (\<lambda>_ k. Some k) (kern s) = Some k2" "sys_inv (s\<lparr>kern := k2\<rparr>)" "urgent (kern s) \<Longrightarrow> urgent k2"
    by (rule tick_served [OF s]) blast
  with tick show "sys_inv s'" "loud s a \<Longrightarrow> urgent (kern s) \<Longrightarrow> urgent (kern s')" by simp_all
next
  case (irq c s1 s2)
  then obtain t where "legal t c s" by auto
  then obtain s3 where "interrupt c s = Some s3" "sys_inv s3" "urgent (kern s) \<Longrightarrow> urgent (kern s3)"
    using interrupt_served [OF s, of c t] irq by blast
  with irq show "sys_inv s'" "loud s a \<Longrightarrow> urgent (kern s) \<Longrightarrow> urgent (kern s')" by simp_all
qed

lemma reach_inv: "sys_reach P s \<Longrightarrow> sys_inv s"
  by (induction rule: sys_reach.induct) (use start_inv(1) step_inv(1) in blast)+

lemma reach_urgent: "sys_reach loud s \<Longrightarrow> urgent (kern s)"
proof (induction rule: sys_reach.induct)
  case (start main stack tstack istack k)
  then show ?case using start_inv(2) by fastforce
next
  case (step s a s')
  then show ?case using step_inv(2) [OF reach_inv] by blast
qed

lemma reach_weaken: "sys_reach P s \<Longrightarrow> (\<And>s a. P s a \<Longrightarrow> Q s a) \<Longrightarrow> sys_reach Q s"
  by (induction rule: sys_reach.induct) (auto intro: sys_reach.intros)


text \<open>C2: the most urgent thread runs. In every state that the system reaches by actions that reschedule where they should, outside
  of a critical section, the running thread is at least as urgent as every thread that is ready.\<close>

theorem most_urgent_runs:
  assumes "sys_reach loud s" "lock_nest (kern s) = 0" "current_thread (kern s) = Some t" "state_of (kern s) x = RT_THREAD_READY"
  shows "current_priority (threads (kern s) t) \<le> current_priority (threads (kern s) x)"
  using reach_urgent [OF assms(1)] assms(2-4) by (auto simp: urgent_def)

text \<open>A first step, for concrete addresses: the timer thread waits, so that the main thread, number 2, gets the processor.\<close>

definition demo_start :: "kernel option" where
  "demo_start = rtthread_startup (Some 2) (Some 0x20000000) 0x20010000 0x20020000 boot_kernel"

lemma demo_first:
  "map_option (\<lambda>k. (current_thread k, state_of k 0, interrupt_nest k, lock_nest k)) demo_start = Some (Some 0, RT_THREAD_RUNNING, 0, 0)"
  "map_option (\<lambda>k. (current_thread k, state_of k 2, interrupt_nest k, lock_nest k, state_of k 1, live k 3)) (Option.bind demo_start timer_thread_wait) =
    Some (Some 2, RT_THREAD_RUNNING, 0, 0, RT_THREAD_READY, False)"
  by code_simp+

lemma demo_reached:
  obtains s where "sys_reach loud s" "runs 2 (kern s)" "lock_nest (kern s) = 0" "state_of (kern s) 1 = RT_THREAD_READY" "objs s = (\<lambda>_. None)"
    "\<not> live (kern s) 3"
proof -
  obtain k0 where k0: "demo_start = Some k0" "current_thread k0 = Some 0" "state_of k0 0 = RT_THREAD_RUNNING" "interrupt_nest k0 = 0" "lock_nest k0 = 0"
    using demo_first(1) by auto
  obtain k where k: "timer_thread_wait k0 = Some k" "current_thread k = Some 2" "state_of k 2 = RT_THREAD_RUNNING" "interrupt_nest k = 0"
    "lock_nest k = 0" "state_of k 1 = RT_THREAD_READY" "\<not> live k 3"
    using demo_first(2) unfolding k0(1) by auto
  define s0 where "s0 = \<lparr>kern = k0, objs = (\<lambda>_. None) :: nat \<Rightarrow> ipc option\<rparr>"
  have r0: "sys_reach loud s0"
    unfolding s0_def by (rule sys_reach.start [of 2 "0x20000000" "0x20010000" "0x20020000"])
      (use k0(1) in \<open>simp_all add: demo_start_def timer_thread_def idle_thread_def\<close>)
  have "sys_step s0 (Call 0 TimerWait) (s0\<lparr>kern := k\<rparr>)"
    by (rule sys_step.call) (use k0 k(1) in \<open>simp_all add: s0_def runs_def may_block_def timer_thread_def idle_thread_def on_kernel_def\<close>)
  then have "sys_reach loud (s0\<lparr>kern := k\<rparr>)" by (rule sys_reach.step [OF r0, rotated]) (simp add: quiet_def)
  then show thesis by (rule that) (use k in \<open>simp_all add: runs_def s0_def\<close>)
qed


theorem most_urgent_runs_witness:
  "\<exists>s. sys_reach loud s \<and> current_thread (kern s) = Some 2 \<and> state_of (kern s) 1 = RT_THREAD_READY \<and>
    current_priority (threads (kern s) 2) \<le> current_priority (threads (kern s) 1)"
proof -
  obtain s where s: "sys_reach loud s" "runs 2 (kern s)" "lock_nest (kern s) = 0" "state_of (kern s) 1 = RT_THREAD_READY"
    by (rule demo_reached)
  then have "current_thread (kern s) = Some 2" by (simp add: runs_def)
  with most_urgent_runs [OF s(1,3) this s(4)] s show ?thesis by blast
qed

end
