(* ===== verification/DfsPath.thy ===== *)
theory DfsPath
  imports KString "HOL-Library.Monad_Syntax"
begin

text \<open>
  The path functions of the device file system, \<^verbatim>\<open>rt-thread/components/dfs/src/dfs.c\<close>: \<open>dfs_normalize_path\<close>, which works in
  place on a copy of the path, and \<open>dfs_subdir\<close>. The buffer is the list of its bytes, the terminating 0 included; an access outside
  of it is \<open>None\<close>.
\<close>

section \<open>The code\<close>

abbreviation SLASH :: u8 where "SLASH \<equiv> 47"
abbreviation DOT :: u8 where "DOT \<equiv> 46"

text \<open>\<open>while (*src == '/') src++\<close>\<close>

function skip_slashes :: "u8 list \<Rightarrow> nat \<Rightarrow> nat option" where
  "skip_slashes buf src =
    (if src < length buf then if buf ! src = SLASH then skip_slashes buf (src + 1) else Some src else None)"
  by pat_completeness auto
termination by (relation "measure (\<lambda>(buf, src). length buf - src)") auto

text \<open>\<open>while ((c = *src++) != '\0' && c != '/') *dst ++ = c\<close>: the last character and the state.\<close>

function copy_name :: "u8 list \<Rightarrow> nat \<Rightarrow> nat \<Rightarrow> (u8 \<times> u8 list \<times> nat \<times> nat) option" where
  "copy_name buf src dst =
    (if src < length buf
     then let c = buf ! src
          in if c \<noteq> 0 \<and> c \<noteq> SLASH
             then if dst < length buf then copy_name (buf[dst := c]) (src + 1) (dst + 1) else None
             else Some (c, buf, src + 1, dst)
     else None)"
  by pat_completeness auto
termination by (relation "measure (\<lambda>(buf, src, dst). length buf - src)") auto

text \<open>\<open>while (dst0 < dst && dst[-1] != '/') dst --\<close>\<close>

fun back_up :: "u8 list \<Rightarrow> nat \<Rightarrow> nat" where
  "back_up buf 0 = 0"
| "back_up buf (Suc d) = (if buf ! d \<noteq> SLASH then back_up buf d else Suc d)"

text \<open>What the round of the loop begins with: a character to look at, a place to go on from, or a directory to leave.\<close>

datatype dot_case = Name nat | Skip nat | UpOne nat

definition look_at :: "u8 list \<Rightarrow> nat \<Rightarrow> dot_case option" where
  "look_at buf src = do {
     _ \<leftarrow> assert_that (src < length buf);
     if buf ! src = DOT
     then do {
       _ \<leftarrow> assert_that (src + 1 < length buf);
       if buf ! (src + 1) = 0 then Some (Name (src + 1))
       else if buf ! (src + 1) = SLASH then map_option Skip (skip_slashes buf (src + 2))
       else if buf ! (src + 1) = DOT
       then do {
         _ \<leftarrow> assert_that (src + 2 < length buf);
         if buf ! (src + 2) = 0 then Some (UpOne (src + 2))
         else if buf ! (src + 2) = SLASH then map_option UpOne (skip_slashes buf (src + 3))
         else Some (Name src)
       }
       else Some (Name src)
     }
     else Some (Name src)
   }"

text \<open>The loop. \<open>Some None\<close> is the way out with \<open>RT_NULL\<close>.\<close>

partial_function (option) normalize_loop :: "u8 list \<Rightarrow> nat \<Rightarrow> nat \<Rightarrow> (u8 list \<times> nat) option option" where
  "normalize_loop buf src dst =
    (case look_at buf src of
       None \<Rightarrow> None
     | Some (Skip s) \<Rightarrow> normalize_loop buf s dst
     | Some (UpOne s) \<Rightarrow> if dst = 0 then Some None else normalize_loop buf s (back_up buf (dst - 1))
     | Some (Name s) \<Rightarrow>
         Option.bind (copy_name buf s dst) (\<lambda>(c, buf1, s1, d1).
           if c = SLASH
           then if d1 < length buf1
                then Option.bind (skip_slashes (buf1[d1 := SLASH]) s1) (\<lambda>s2. normalize_loop (buf1[d1 := SLASH]) s2 (d1 + 1))
                else None
           else Some (Some (buf1, d1))))"

text \<open>The end: the terminating 0, a last slash goes, an empty path becomes the root.\<close>

definition normalize_end :: "u8 list \<Rightarrow> nat \<Rightarrow> u8 list option" where
  "normalize_end buf dst = do {
     _ \<leftarrow> assert_that (dst < length buf);
     let buf1 = buf[dst := 0];
     _ \<leftarrow> assert_that (0 < dst);
     let buf2 = (if dst - 1 \<noteq> 0 \<and> buf1 ! (dst - 1) = SLASH then buf1[dst - 1 := 0] else buf1);
     if buf2 ! 0 = 0
     then if 1 < length buf2 then Some (buf2[0 := SLASH, 1 := 0]) else None
     else Some buf2
   }"

definition c_string :: "u8 list \<Rightarrow> u8 list" where
  "c_string buf = takeWhile (\<lambda>c. c \<noteq> 0) buf"

text \<open>\<open>dfs_normalize_path\<close>: \<open>directory\<close> is \<open>None\<close> for \<open>RT_NULL\<close>, \<open>wd\<close> the working directory and \<open>mem_ok\<close> the answer of
  the allocator. The result is the string, or \<open>Some None\<close> for \<open>RT_NULL\<close>.\<close>

definition dfs_normalize_path :: "bool \<Rightarrow> u8 list \<Rightarrow> u8 list option \<Rightarrow> u8 list \<Rightarrow> u8 list option option" where
  "dfs_normalize_path mem_ok wd directory filename =
    (let dir = (case directory of None \<Rightarrow> wd | Some d \<Rightarrow> d);
         fullpath = (if hd (filename @ [0]) \<noteq> SLASH then dir @ [SLASH] @ filename @ [0] else filename @ [0])
     in if \<not> mem_ok then Some None
        else case normalize_loop fullpath 0 0 of
          None \<Rightarrow> None
        | Some None \<Rightarrow> Some None
        | Some (Some (buf, dst)) \<Rightarrow> map_option (\<lambda>b. Some (c_string b)) (normalize_end buf dst))"

text \<open>\<open>dfs_subdir\<close>: the rest of \<open>filename\<close> below \<open>directory\<close>, or \<open>Some None\<close>.\<close>

definition dfs_subdir :: "u8 list \<Rightarrow> u8 list \<Rightarrow> u8 list option option" where
  "dfs_subdir directory filename =
    (if length directory = length filename then Some None
     else do {
       _ \<leftarrow> assert_that (length directory \<le> length filename);
       let d = length directory;
       Some (Some (drop (if (filename @ [0]) ! d \<noteq> SLASH \<and> d \<noteq> 0 then d - 1 else d) filename))
     })"

section \<open>The reference\<close>

text \<open>The names between the slashes, and what a path leads to from a directory, given by its names, last first. The parent
  of the root is an error.\<close>

function names :: "u8 list \<Rightarrow> u8 list list" where
  "names xs = (case dropWhile (\<lambda>c. c = SLASH) xs of [] \<Rightarrow> [] | ys \<Rightarrow> takeWhile (\<lambda>c. c \<noteq> SLASH) ys # names (dropWhile (\<lambda>c. c \<noteq> SLASH) ys))"
  by pat_completeness auto
termination
proof (relation "measure length")
  fix xs y :: "u8 list" and c cs assume d: "dropWhile (\<lambda>c. c = SLASH) xs = c # cs"
  have "length (dropWhile (\<lambda>c. c = SLASH) xs) \<le> length xs" by (rule length_dropWhile_le)
  moreover have "c \<noteq> SLASH" using d hd_dropWhile [of "\<lambda>c. c = SLASH" xs] by auto
  moreover have "length (dropWhile (\<lambda>c. c \<noteq> SLASH) cs) \<le> length cs" by (rule length_dropWhile_le)
  ultimately show "(dropWhile (\<lambda>c. c \<noteq> SLASH) (c # cs), xs) \<in> measure length" by (simp add: d)
qed simp

fun resolve :: "u8 list list \<Rightarrow> u8 list list \<Rightarrow> u8 list list option" where
  "resolve st [] = Some (rev st)"
| "resolve st (c # cs) =
    (if c = [DOT] then resolve st cs
     else if c = [DOT, DOT] then case st of [] \<Rightarrow> None | _ # st' \<Rightarrow> resolve st' cs
     else resolve (c # st) cs)"

fun join :: "u8 list list \<Rightarrow> u8 list" where
  "join [] = [SLASH]"
| "join cs = concat (map (\<lambda>c. SLASH # c) cs)"

lemma names_blank: "dropWhile (\<lambda>c. c = SLASH) xs = [] \<Longrightarrow> names xs = []"
  by (simp only: names.simps [of xs] list.case)

lemma names_Nil [simp]: "names [] = []"
  by (rule names_blank) simp

lemma names_Cons:
  "dropWhile (\<lambda>c. c = SLASH) xs = y # ys \<Longrightarrow> names xs = takeWhile (\<lambda>c. c \<noteq> SLASH) (y # ys) # names (dropWhile (\<lambda>c. c \<noteq> SLASH) (y # ys))"
  by (simp only: names.simps [of xs] list.case)

section \<open>One round\<close>

declare skip_slashes.simps [simp del] copy_name.simps [simp del] names.simps [simp del]

text \<open>The text from a position on: its characters and the terminating 0.\<close>

definition text_at :: "u8 list \<Rightarrow> nat \<Rightarrow> u8 list \<Rightarrow> bool" where
  "text_at buf src rest \<longleftrightarrow> drop src buf = rest @ [0] \<and> 0 \<notin> set rest"

lemma text_at_nth:
  assumes "text_at buf src rest"
  shows "length buf = src + length rest + 1" "j < length rest \<Longrightarrow> buf ! (src + j) = rest ! j" "buf ! (src + length rest) = 0"
proof -
  have d: "drop src buf = rest @ [0]" using assms by (simp add: text_at_def)
  from arg_cong [OF d, of length] show l: "length buf = src + length rest + 1" by simp
  show "j < length rest \<Longrightarrow> buf ! (src + j) = rest ! j" using arg_cong [OF d, of "\<lambda>xs. xs ! j"] l by (simp add: nth_append)
  show "buf ! (src + length rest) = 0" using arg_cong [OF d, of "\<lambda>xs. xs ! length rest"] l by simp
qed

lemma text_at_drop: "text_at buf src (xs @ ys) \<Longrightarrow> text_at buf (src + length xs) ys"
  unfolding text_at_def by (metis append.assoc append_eq_conv_conj drop_drop add.commute set_append UnI2)

lemma text_at_Cons: "text_at buf src (x # ys) \<Longrightarrow> text_at buf (src + 1) ys \<and> buf ! src = x \<and> src < length buf \<and> x \<noteq> 0"
  using text_at_drop [of buf src "[x]" ys] text_at_nth(1) [of buf src "x # ys"] text_at_nth(2) [of buf src "x # ys" 0] by (auto simp: text_at_def)

lemma skip_slashes_text:
  "text_at buf src rest \<Longrightarrow> \<exists>s. skip_slashes buf src = Some s \<and> src \<le> s \<and> text_at buf s (dropWhile (\<lambda>c. c = SLASH) rest)"
proof (induction rest arbitrary: src)
  case Nil
  then show ?case using text_at_nth [OF Nil] by (subst skip_slashes.simps) simp
next
  case (Cons x xs)
  note t = text_at_Cons [OF Cons.prems]
  show ?case
  proof (cases "x = SLASH")
    case True
    obtain s where "skip_slashes buf (src + 1) = Some s" "src + 1 \<le> s" "text_at buf s (dropWhile (\<lambda>c. c = SLASH) xs)" using Cons.IH t by blast
    with True t show ?thesis by (subst skip_slashes.simps) auto
  next
    case False
    with t Cons.prems show ?thesis by (subst skip_slashes.simps) auto
  qed
qed

text \<open>The name is copied down, and the rest of the text is still there.\<close>

lemma copy_name_text:
  assumes "text_at buf src rest" "dst \<le> src"
  shows "\<exists>buf'. copy_name buf src dst = Some (if takeWhile (\<lambda>c. c \<noteq> SLASH) rest = rest then 0 else SLASH, buf',
      src + length (takeWhile (\<lambda>c. c \<noteq> SLASH) rest) + 1, dst + length (takeWhile (\<lambda>c. c \<noteq> SLASH) rest)) \<and>
    length buf' = length buf \<and> take (dst + length (takeWhile (\<lambda>c. c \<noteq> SLASH) rest)) buf' = take dst buf @ takeWhile (\<lambda>c. c \<noteq> SLASH) rest \<and>
    drop (src + length (takeWhile (\<lambda>c. c \<noteq> SLASH) rest)) buf' = drop (src + length (takeWhile (\<lambda>c. c \<noteq> SLASH) rest)) buf"
  using assms
proof (induction rest arbitrary: buf src dst)
  case Nil
  then show ?case using text_at_nth [OF Nil(1)] by (subst copy_name.simps) simp
next
  case (Cons x xs)
  note t = text_at_Cons [OF Cons.prems(1)]
  show ?case
  proof (cases "x = SLASH")
    case True
    with t show ?thesis by (subst copy_name.simps) simp
  next
    case False
    define w where "w = takeWhile (\<lambda>c. c \<noteq> SLASH) xs"
    define b1 where "b1 = buf[dst := x]"
    have "drop (src + 1) b1 = drop (src + 1) buf" using Cons.prems(2) by (simp add: b1_def)
    then have "text_at b1 (src + 1) xs" using t by (simp add: text_at_def)
    from Cons.IH [OF this, of "dst + 1"] Cons.prems(2) obtain buf' where b: "copy_name b1 (src + 1) (dst + 1) =
        Some (if w = xs then 0 else SLASH, buf', src + 1 + length w + 1, dst + 1 + length w)"
      "length buf' = length b1" "take (dst + 1 + length w) buf' = take (dst + 1) b1 @ w" "drop (src + 1 + length w) buf' = drop (src + 1 + length w) b1"
      unfolding w_def by auto
    have "dst < length buf" using t Cons.prems(2) by linarith
    then have "take (dst + 1) b1 = take dst buf @ [x]" by (simp add: b1_def take_Suc_conv_app_nth)
    moreover have "drop (src + 1 + length w) b1 = drop (src + 1 + length w) buf" using Cons.prems(2) by (simp add: b1_def)
    moreover have "copy_name buf src dst = copy_name b1 (src + 1) (dst + 1)"
      using t False \<open>dst < length buf\<close> by (subst copy_name.simps) (simp add: b1_def)
    ultimately show ?thesis using b False by (simp add: w_def [symmetric] b1_def)
  qed
qed

text \<open>What is looked at, by the first name of the text.\<close>

lemma look_at_text:
  assumes t: "text_at buf src rest" and w: "w = takeWhile (\<lambda>c. c \<noteq> SLASH) rest" and a: "after = dropWhile (\<lambda>c. c = SLASH) (dropWhile (\<lambda>c. c \<noteq> SLASH) rest)"
  shows "w = [DOT] \<Longrightarrow> (\<exists>s. look_at buf src = Some (Skip s) \<and> src < s \<and> text_at buf s after) \<or>
      look_at buf src = Some (Name (src + 1)) \<and> text_at buf (src + 1) [] \<and> after = []"
    "w = [DOT, DOT] \<Longrightarrow> \<exists>s. look_at buf src = Some (UpOne s) \<and> src < s \<and> text_at buf s after"
    "w \<noteq> [DOT] \<Longrightarrow> w \<noteq> [DOT, DOT] \<Longrightarrow> look_at buf src = Some (Name src)"
proof -
  obtain more where m: "rest = w @ more" "more = [] \<or> (\<exists>y. more = SLASH # y)" "after = dropWhile (\<lambda>c. c = SLASH) more"
  proof
    show "rest = w @ dropWhile (\<lambda>c. c \<noteq> SLASH) rest" by (simp add: w)
    show "dropWhile (\<lambda>c. c \<noteq> SLASH) rest = [] \<or> (\<exists>y. dropWhile (\<lambda>c. c \<noteq> SLASH) rest = SLASH # y)"
      using hd_dropWhile [of "\<lambda>c. c \<noteq> SLASH" rest] by (cases "dropWhile (\<lambda>c. c \<noteq> SLASH) rest") auto
  qed (rule a)
  have ns: "SLASH \<notin> set w" unfolding w by (auto dest: set_takeWhileD)
  note l = text_at_nth [OF t]
  show "(\<exists>s. look_at buf src = Some (Skip s) \<and> src < s \<and> text_at buf s after) \<or>
      look_at buf src = Some (Name (src + 1)) \<and> text_at buf (src + 1) [] \<and> after = []" if w1: "w = [DOT]"
  proof (cases more)
    case Nil
    then show ?thesis using text_at_drop [of buf src "[DOT]" "[]"] t l(1,3) l(2) [of 0] m w1 by (simp add: look_at_def)
  next
    case (Cons x y)
    then have x: "x = SLASH" using m(2) by auto
    have "text_at buf (src + 2) y" using text_at_drop [of buf src "[DOT, SLASH]" y] t m(1) w1 Cons x by simp
    from skip_slashes_text [OF this] obtain s where "skip_slashes buf (src + 2) = Some s" "src + 2 \<le> s" "text_at buf s after"
      using m(3) Cons x by auto
    then show ?thesis using l(1) l(2) [of 0] l(2) [of 1] m(1) w1 Cons x by (simp add: look_at_def)
  qed
  show "\<exists>s. look_at buf src = Some (UpOne s) \<and> src < s \<and> text_at buf s after" if w1: "w = [DOT, DOT]"
  proof (cases more)
    case Nil
    then show ?thesis
      using text_at_drop [of buf src "[DOT, DOT]" "[]"] t l(1,3) l(2) [of 0] l(2) [of 1] m w1 by (simp add: look_at_def)
  next
    case (Cons x y)
    then have x: "x = SLASH" using m(2) by auto
    have "text_at buf (src + 3) y" using text_at_drop [of buf src "[DOT, DOT, SLASH]" y] t m(1) w1 Cons x by (simp add: numeral_3_eq_3 [symmetric] del: One_nat_def)
    from skip_slashes_text [OF this] obtain s where "skip_slashes buf (src + 3) = Some s" "src + 3 \<le> s" "text_at buf s after"
      using m(3) Cons x by auto
    then show ?thesis using l(1) l(2) [of 0] l(2) [of 1] l(2) [of 2] m(1) w1 Cons x by (simp add: look_at_def)
  qed
  show "look_at buf src = Some (Name src)" if w1: "w \<noteq> [DOT]" "w \<noteq> [DOT, DOT]"
  proof (cases rest)
    case Nil
    then show ?thesis using l(1,3) by (simp add: look_at_def)
  next
    case (Cons x y)
    show ?thesis
    proof (cases "x = DOT")
      case False
      then show ?thesis using l(1) l(2) [of 0] Cons by (simp add: look_at_def)
    next
      case True
      then obtain x2 y2 where y: "y = x2 # y2" "x2 \<noteq> SLASH" using w1(1) Cons w by (cases y) (auto split: if_splits)
      have nz: "x2 \<noteq> 0" using t y Cons by (auto simp: text_at_def)
      show ?thesis
      proof (cases "x2 = DOT")
        case False
        then show ?thesis using l(1) l(2) [of 0] l(2) [of 1] Cons True y nz by (simp add: look_at_def)
      next
        case d: True
        then obtain x3 y3 where y3: "y2 = x3 # y3" "x3 \<noteq> SLASH" using w1(2) Cons w True y by (cases y2) (auto split: if_splits)
        have "x3 \<noteq> 0" using t y Cons y3 by (auto simp: text_at_def)
        then show ?thesis using l(1) l(2) [of 0] l(2) [of 1] l(2) [of 2] Cons True y d y3 by (simp add: look_at_def)
      qed
    qed
  qed
qed

section \<open>The loop\<close>

text \<open>What has been written so far: the names, each with its slash.\<close>

definition render :: "u8 list list \<Rightarrow> u8 list" where
  "render st = SLASH # concat (map (\<lambda>c. c @ [SLASH]) (rev st))"

lemma render_simps [simp]: "render [] = [SLASH]" "render (c # st) = render st @ c @ [SLASH]" "render st \<noteq> []" "last (render st) = SLASH"
proof -
  show n: "render st \<noteq> []" for st by (simp add: render_def)
  show c: "render (c # st) = render st @ c @ [SLASH]" for c st by (simp add: render_def)
  show "render [] = [SLASH]" by (simp add: render_def)
  show "last (render st) = SLASH" by (cases st) (simp add: render_def, simp add: c)
qed

lemma render_split: "\<exists>p. render st = p @ [SLASH]"
  by (metis append_butlast_last_id render_simps(3,4))

lemma back_up_to_slash:
  "k < d \<Longrightarrow> buf ! k = SLASH \<Longrightarrow> (\<And>j. k < j \<Longrightarrow> j < d \<Longrightarrow> buf ! j \<noteq> SLASH) \<Longrightarrow> back_up buf d = k + 1"
proof (induction d)
  case (Suc d)
  show ?case
  proof (cases "k = d")
    case False
    then have "k < d" using Suc.prems(1) by simp
    moreover have "buf ! d \<noteq> SLASH" using Suc.prems(3) [of d] \<open>k < d\<close> by simp
    ultimately show ?thesis using Suc.IH [OF \<open>k < d\<close> Suc.prems(2)] Suc.prems(3) by simp
  qed (use Suc.prems in simp)
qed simp

lemma back_up_render:
  assumes b: "take d buf = render (c # st)" "d \<le> length buf" and c: "SLASH \<notin> set c"
  shows "back_up buf (d - 1) = length (render st)"
proof -
  define k where "k = length (render st) - 1"
  have d: "d = length (render st) + length c + 1" using arg_cong [OF b(1), of length] b(2) by simp
  have nth: "buf ! j = (render st @ c @ [SLASH]) ! j" if "j < d" for j
    using b(1) that nth_take [of j d buf] by simp
  have k: "length (render st) = k + 1" by (simp add: k_def Suc_leI)
  obtain p where p: "render st = p @ [SLASH]" using render_split by blast
  have "buf ! k = SLASH" using nth [of k] d k p by (simp add: nth_append)
  moreover have "buf ! j \<noteq> SLASH" if "k < j" "j < d - 1" for j
  proof -
    have i: "j - length (render st) < length c" using that d k by linarith
    moreover have "\<not> j < length (render st)" "j < d" using that k by linarith+
    then have "buf ! j = c ! (j - length (render st))" using nth [of j] i by (simp add: nth_append)
    ultimately show ?thesis using c nth_mem by metis
  qed
  ultimately show ?thesis using back_up_to_slash [of k "d - 1" buf] d k by simp
qed

text \<open>The loop refines the reference: it ends with the names of the resolved path, with or without the last slash.\<close>

lemma names_first:
  assumes "rest \<noteq> []" "rest = [] \<or> hd rest \<noteq> SLASH"
  shows "names rest = takeWhile (\<lambda>c. c \<noteq> SLASH) rest # names (dropWhile (\<lambda>c. c = SLASH) (dropWhile (\<lambda>c. c \<noteq> SLASH) rest))"
proof -
  have "dropWhile (\<lambda>c. c = SLASH) rest = rest" using assms by (cases rest) auto
  moreover have "names (dropWhile (\<lambda>c. c = SLASH) xs) = names xs" for xs
    by (subst (1 2) names.simps) (simp add: dropWhile_idem)
  ultimately show ?thesis using assms(1) by (subst names.simps) (auto split: list.split)
qed

lemma first_name:
  assumes "rest \<noteq> []" "rest = [] \<or> hd rest \<noteq> SLASH"
  shows "takeWhile (\<lambda>c. c \<noteq> SLASH) rest \<noteq> []"
    "length (dropWhile (\<lambda>c. c = SLASH) (dropWhile (\<lambda>c. c \<noteq> SLASH) rest)) < length rest"
    "dropWhile (\<lambda>c. c = SLASH) (dropWhile (\<lambda>c. c \<noteq> SLASH) rest) = [] \<or>
     hd (dropWhile (\<lambda>c. c = SLASH) (dropWhile (\<lambda>c. c \<noteq> SLASH) rest)) \<noteq> SLASH"
    "SLASH \<notin> set (takeWhile (\<lambda>c. c \<noteq> SLASH) rest)"
proof -
  show w: "takeWhile (\<lambda>c. c \<noteq> SLASH) rest \<noteq> []" using assms by (cases rest) auto
  have "length (dropWhile (\<lambda>c. c = SLASH) (dropWhile (\<lambda>c. c \<noteq> SLASH) rest)) \<le> length (dropWhile (\<lambda>c. c \<noteq> SLASH) rest)"
    by (rule length_dropWhile_le)
  moreover have "length rest = length (takeWhile (\<lambda>c. c \<noteq> SLASH) rest) + length (dropWhile (\<lambda>c. c \<noteq> SLASH) rest)"
    by (metis length_append takeWhile_dropWhile_id)
  moreover have "0 < length (takeWhile (\<lambda>c. c \<noteq> SLASH) rest)" using w by simp
  ultimately show "length (dropWhile (\<lambda>c. c = SLASH) (dropWhile (\<lambda>c. c \<noteq> SLASH) rest)) < length rest" by linarith
  show "dropWhile (\<lambda>c. c = SLASH) (dropWhile (\<lambda>c. c \<noteq> SLASH) rest) = [] \<or>
     hd (dropWhile (\<lambda>c. c = SLASH) (dropWhile (\<lambda>c. c \<noteq> SLASH) rest)) \<noteq> SLASH"
    using hd_dropWhile [of "\<lambda>c. c = SLASH"] by auto
  show "SLASH \<notin> set (takeWhile (\<lambda>c. c \<noteq> SLASH) rest)" by (auto dest: set_takeWhileD)
qed

lemma render_prefix:
  "take d buf = render (c # st) \<Longrightarrow> length (render st) \<le> d \<and> take (length (render st)) buf = render st"
proof -
  assume a: "take d buf = render (c # st)"
  from arg_cong [OF a, of length] have "length (render st) \<le> d" by simp
  moreover from arg_cong [OF a, of "take (length (render st))"] this have "take (length (render st)) buf = render st" by simp
  ultimately show ?thesis by simp
qed

definition loop_done :: "u8 list \<Rightarrow> nat \<Rightarrow> nat \<Rightarrow> u8 list list \<Rightarrow> bool" where
  "loop_done buf src dst cs \<longleftrightarrow> (\<exists>buf' d. normalize_loop buf src dst = Some (Some (buf', d)) \<and> length buf' = length buf \<and> d < length buf \<and>
     (take d buf' = render (rev cs) \<or> cs \<noteq> [] \<and> take d buf' @ [SLASH] = render (rev cs)))"

lemma loop_done_step:
  "normalize_loop buf src dst = normalize_loop buf' s d \<Longrightarrow> length buf' = length buf \<Longrightarrow> loop_done buf' s d cs \<Longrightarrow> loop_done buf src dst cs"
  by (simp add: loop_done_def)

text \<open>The round at the end of the text.\<close>

lemma loop_ends:
  assumes "look_at buf src = Some (Name s)" "text_at buf s []" "take dst buf = render st" "dst \<le> s"
  shows "loop_done buf src dst (rev st)"
proof -
  from copy_name_text [OF assms(2,4)] obtain buf' where
    c: "copy_name buf s dst = Some (0, buf', s + 1, dst)" "length buf' = length buf" "take dst buf' = take dst buf" by auto
  then show ?thesis
    using assms text_at_nth(1) [OF assms(2)] unfolding loop_done_def by (subst normalize_loop.simps) simp
qed

text \<open>The round of a name, with a slash behind it or at the end of the text.\<close>

lemma loop_name:
  assumes t: "text_at buf src rest" and d: "take dst buf = render st" "dst \<le> src"
    and w: "w = takeWhile (\<lambda>c. c \<noteq> SLASH) rest" "w \<noteq> []" and la: "look_at buf src = Some (Name src)"
    and a: "after = dropWhile (\<lambda>c. c = SLASH) (dropWhile (\<lambda>c. c \<noteq> SLASH) rest)"
  shows "w = rest \<and> loop_done buf src dst (rev (w # st)) \<or>
    (\<exists>buf' s. normalize_loop buf src dst = normalize_loop buf' s (dst + length w + 1) \<and> length buf' = length buf \<and>
       dst + length w + 1 \<le> s \<and> text_at buf' s after \<and> take (dst + length w + 1) buf' = render (w # st))"
proof -
  note l = text_at_nth(1) [OF t]
  from copy_name_text [OF t d(2)] obtain buf' where
    c: "copy_name buf src dst = Some (if w = rest then 0 else SLASH, buf', src + length w + 1, dst + length w)" "length buf' = length buf"
      "take (dst + length w) buf' = render st @ w" "drop (src + length w) buf' = drop (src + length w) buf"
    unfolding w(1) [symmetric] d(1) by blast
  have wl: "length w \<le> length rest" unfolding w(1) by (rule length_takeWhile_le)
  show ?thesis
  proof (cases "w = rest")
    case True
    then have "normalize_loop buf src dst = Some (Some (buf', dst + length w))" using la c(1) by (subst normalize_loop.simps) simp
    moreover have "dst + length w < length buf" using l wl d(2) by linarith
    ultimately show ?thesis using True c(2,3) by (simp add: loop_done_def)
  next
    case False
    obtain y where y: "dropWhile (\<lambda>c. c \<noteq> SLASH) rest = SLASH # y"
      using False w(1) hd_dropWhile [of "\<lambda>c. c \<noteq> SLASH" rest] by (cases "dropWhile (\<lambda>c. c \<noteq> SLASH) rest") auto
    then have rest: "rest = (w @ [SLASH]) @ y" unfolding w(1) by (metis append.assoc append_Cons append_Nil takeWhile_dropWhile_id)
    define b2 where "b2 = buf'[dst + length w := SLASH]"
    have dl: "dst + length w < length buf'" using l c(2) d(2) rest by simp
    have "drop (src + length w + 1) b2 = drop (src + length w + 1) buf'" using d(2) by (simp add: b2_def)
    also have "\<dots> = drop (src + length w + 1) buf" using arg_cong [OF c(4), of "drop 1"] by simp
    finally have "text_at b2 (src + length w + 1) y" using text_at_drop [of buf src "w @ [SLASH]" y] t rest by (simp add: text_at_def)
    from skip_slashes_text [OF this] obtain s where s: "skip_slashes b2 (src + length w + 1) = Some s" "src + length w + 1 \<le> s"
      "text_at b2 s after" unfolding a y by auto
    have "normalize_loop buf src dst = normalize_loop b2 s (dst + length w + 1)"
      using la c(1) False dl s(1) by (subst normalize_loop.simps) (simp add: b2_def)
    moreover have "take (dst + length w + 1) b2 = render (w # st)"
      using c(3) dl by (simp add: b2_def take_Suc_conv_app_nth)
    ultimately show ?thesis using s d(2) c(2) by (auto simp: b2_def intro!: disjI2 exI [of _ b2] exI [of _ s])
  qed
qed

lemma loop_resolve:
  assumes "text_at buf src rest" "rest = [] \<or> hd rest \<noteq> SLASH" "take dst buf = render st" "dst \<le> src"
    "\<And>c. c \<in> set st \<Longrightarrow> SLASH \<notin> set c" "resolve st (names rest) = Some cs"
  shows "loop_done buf src dst cs"
  using assms
proof (induction "length rest" arbitrary: buf src dst rest st rule: less_induct)
  case less
  note t = less.prems(1) and l = text_at_nth [OF less.prems(1)]
  show ?case
  proof (cases "rest = []")
    case True
    have la: "look_at buf src = Some (Name src)" using look_at_text(3) [OF t refl refl] True by simp
    moreover have "cs = rev st" using less.prems(6) True by simp
    ultimately show ?thesis using loop_ends [OF la] t less.prems(3,4) True by simp
  next
    case False
    define w where "w = takeWhile (\<lambda>c. c \<noteq> SLASH) rest"
    define after where "after = dropWhile (\<lambda>c. c = SLASH) (dropWhile (\<lambda>c. c \<noteq> SLASH) rest)"
    note n = names_first [OF False less.prems(2), folded w_def after_def]
    note la = look_at_text [OF t w_def after_def]
    have wl: "w \<noteq> []" and al: "length after < length rest" and ah: "after = [] \<or> hd after \<noteq> SLASH" and ws: "SLASH \<notin> set w"
      using first_name [OF False less.prems(2)] by (simp_all add: w_def after_def)
    consider (Dot) "w = [DOT]" | (Up) "w = [DOT, DOT]" | (Name) "w \<noteq> [DOT]" "w \<noteq> [DOT, DOT]" by blast
    then show ?thesis
    proof cases
      case Dot
      then have r: "resolve st (names after) = Some cs" using less.prems(6) n by simp
      from la(1) [OF Dot] show ?thesis
      proof (elim disjE exE conjE)
        fix s assume s: "look_at buf src = Some (Skip s)" "src < s" "text_at buf s after"
        show ?thesis
          by (rule loop_done_step [of _ _ _ buf s dst], subst normalize_loop.simps, simp add: s, simp)
            (use less.hyps [OF al s(3) ah less.prems(3) _ less.prems(5) r] s(2) less.prems(4) in simp)
      next
        assume s: "look_at buf src = Some (Name (src + 1))" "text_at buf (src + 1) []" "after = []"
        then have "cs = rev st" using r by simp
        then show ?thesis using loop_ends [OF s(1,2) less.prems(3)] less.prems(4) by simp
      qed
    next
      case Up
      from la(2) [OF Up] obtain s where s: "look_at buf src = Some (UpOne s)" "src < s" "text_at buf s after" by blast
      from less.prems(6) n Up obtain c st' where st: "st = c # st'" and r: "resolve st' (names after) = Some cs" by (auto split: list.splits)
      have b: "back_up buf (dst - 1) = length (render st')"
        using back_up_render [of dst buf c st'] less.prems(3-5) l(1) st by simp
      have "dst \<noteq> 0" by (metis less.prems(3) render_simps(3) take0)
      then have "normalize_loop buf src dst = normalize_loop buf s (length (render st'))"
        using s(1) b by (subst normalize_loop.simps) simp
      moreover have "length (render st') \<le> dst" "take (length (render st')) buf = render st'"
        using render_prefix [OF less.prems(3) [unfolded st]] by auto
      ultimately show ?thesis
        using loop_done_step [OF _ refl less.hyps [OF al s(3) ah _ _ _ r, of "length (render st')"]] s(2) less.prems(4,5) st by simp
    next
      case Name
      have r: "resolve (w # st) (names after) = Some cs" using less.prems(6) n Name by simp
      from loop_name [OF t less.prems(3,4) w_def wl la(3) [OF Name] after_def] show ?thesis
      proof (elim disjE exE conjE)
        assume "w = rest" and e: "loop_done buf src dst (rev (w # st))"
        have "after = []" using \<open>w = rest\<close> 
          unfolding after_def w_def by (metis append_self_conv dropWhile.simps(1) takeWhile_dropWhile_id)
        then show ?thesis using e r by simp
      next
        fix buf' s
        assume a: "normalize_loop buf src dst = normalize_loop buf' s (dst + length w + 1)" "length buf' = length buf"
          "dst + length w + 1 \<le> s" "text_at buf' s after" "take (dst + length w + 1) buf' = render (w # st)"
        have "\<And>c. c \<in> set (w # st) \<Longrightarrow> SLASH \<notin> set c" using ws less.prems(5) by auto
        from less.hyps [OF al a(4) ah a(5,3) this r] show ?thesis by (rule loop_done_step [OF a(1,2)])
      qed
    qed
  qed
qed


section \<open>The end and the result\<close>

text \<open>The names a path is made of, and those of a path that is in its normal form.\<close>

definition name_ok :: "u8 list \<Rightarrow> bool" where
  "name_ok c \<longleftrightarrow> c \<noteq> [] \<and> SLASH \<notin> set c \<and> 0 \<notin> set c"

definition plain :: "u8 list list \<Rightarrow> bool" where
  "plain cs \<longleftrightarrow> (\<forall>c \<in> set cs. name_ok c \<and> c \<noteq> [DOT] \<and> c \<noteq> [DOT, DOT])"

lemma names_ok: "0 \<notin> set xs \<Longrightarrow> c \<in> set (names xs) \<Longrightarrow> name_ok c"
proof (induction xs rule: names.induct)
  case (1 xs)
  show ?case
  proof (cases "dropWhile (\<lambda>c. c = SLASH) xs")
    case Nil
    then show ?thesis using 1(3) names_blank by fastforce
  next
    case (Cons y ys)
    then have sub: "set (y # ys) \<subseteq> set xs" by (metis set_dropWhileD subsetI)
    have y: "y \<noteq> SLASH" using hd_dropWhile [of "\<lambda>c. c = SLASH" xs] Cons by auto
    have z: "0 \<notin> set (dropWhile (\<lambda>c. c \<noteq> SLASH) (y # ys))" using sub 1(2) by (meson set_dropWhileD subsetD)
    have "set (takeWhile (\<lambda>c. c \<noteq> SLASH) (y # ys)) \<subseteq> set xs - {SLASH}" using sub by (auto dest: set_takeWhileD)
    then have "name_ok (takeWhile (\<lambda>c. c \<noteq> SLASH) (y # ys))" using 1(2) y by (auto simp: name_ok_def)
    moreover note names_Cons [OF Cons]
    ultimately show ?thesis using 1(1) [OF Cons z] 1(3) by (metis set_ConsD)
  qed
qed

lemma resolve_plain:
  "resolve st ns = Some cs \<Longrightarrow> plain st \<Longrightarrow> (\<And>c. c \<in> set ns \<Longrightarrow> name_ok c) \<Longrightarrow> plain cs"
proof (induction ns arbitrary: st)
  case Nil
  then have "cs = rev st" by simp
  then show ?case using Nil.prems(2) by (simp add: plain_def)
next
  case (Cons c ns)
  have ok: "x \<in> set ns \<Longrightarrow> name_ok x" for x by (rule Cons.prems(3)) simp
  have c: "name_ok c" by (rule Cons.prems(3)) simp
  show ?case
  proof (cases "c = [DOT]")
    case True
    then have "resolve st ns = Some cs" using Cons.prems(1) by simp
    then show ?thesis by (rule Cons.IH [OF _ Cons.prems(2) ok])
  next
    case False
    note dot = this
    show ?thesis
    proof (cases "c = [DOT, DOT]")
      case True
      then obtain x st' where st: "st = x # st'" "resolve st' ns = Some cs" using Cons.prems(1) by (cases st) simp_all
      then have "plain st'" using Cons.prems(2) by (simp add: plain_def)
      then show ?thesis by (rule Cons.IH [OF st(2) _ ok])
    next
      case False
      then have "resolve (c # st) ns = Some cs" "plain (c # st)" using dot Cons.prems(1,2) c by (simp_all add: plain_def)
      then show ?thesis by (rule Cons.IH [OF _ _ ok])
    qed
  qed
qed

lemma resolve_self: "plain ns \<Longrightarrow> resolve st ns = Some (rev st @ ns)"
  by (induction ns arbitrary: st) (auto simp: plain_def)

lemma names_skip: "names (SLASH # xs) = names xs"
  by (subst (1 2) names.simps) simp

lemma names_append: "names (xs @ SLASH # ys) = names xs @ names ys"
proof (induction xs rule: names.induct)
  case (1 xs)
  show ?case
  proof (cases "dropWhile (\<lambda>c. c = SLASH) xs")
    case Nil
    then have "dropWhile (\<lambda>c. c = SLASH) (xs @ SLASH # ys) = dropWhile (\<lambda>c. c = SLASH) (SLASH # ys)" by (simp add: dropWhile_append)
    then have "names (xs @ SLASH # ys) = names (SLASH # ys)" by (simp only: names.simps [of "xs @ SLASH # ys"] names.simps [of "SLASH # ys"])
    then show ?thesis by (simp add: names_skip names_blank [OF Nil])
  next
    case (Cons y zs)
    note n = names_Cons [OF Cons]
    have "dropWhile (\<lambda>c. c = SLASH) (xs @ SLASH # ys) = y # zs @ SLASH # ys"
      using Cons by (metis append_Cons dropWhile_append1 dropWhile_eq_Nil_conv list.distinct(1))
    note c = names_Cons [OF this]
    show ?thesis
    proof (cases "SLASH \<in> set (y # zs)")
      case True
      then have "takeWhile (\<lambda>c. c \<noteq> SLASH) ((y # zs) @ SLASH # ys) = takeWhile (\<lambda>c. c \<noteq> SLASH) (y # zs)"
        "dropWhile (\<lambda>c. c \<noteq> SLASH) ((y # zs) @ SLASH # ys) = dropWhile (\<lambda>c. c \<noteq> SLASH) (y # zs) @ SLASH # ys"
        by (auto simp only: takeWhile_append1 dropWhile_append1)
      then show ?thesis using c n 1 [OF Cons] by simp
    next
      case False
      then have "takeWhile (\<lambda>c. c \<noteq> SLASH) ((y # zs) @ SLASH # ys) = y # zs"
        "dropWhile (\<lambda>c. c \<noteq> SLASH) ((y # zs) @ SLASH # ys) = SLASH # ys" "dropWhile (\<lambda>c. c \<noteq> SLASH) (y # zs) = []"
        "takeWhile (\<lambda>c. c \<noteq> SLASH) (y # zs) = y # zs"
        by (auto simp: takeWhile_append dropWhile_append simp del: append_Cons)
      then show ?thesis using c n by (simp add: names_skip)
    qed
  qed
qed

lemma names_name: "name_ok c \<Longrightarrow> names c = [c]"
proof -
  assume c: "name_ok c"
  then obtain x xs where x: "c = x # xs" "x \<noteq> SLASH" "SLASH \<notin> set c" by (cases c) (auto simp: name_ok_def)
  then have "dropWhile (\<lambda>c. c = SLASH) c = x # xs" by simp
  moreover have "takeWhile (\<lambda>c. c \<noteq> SLASH) c = c" "dropWhile (\<lambda>c. c \<noteq> SLASH) c = []"
    using x(3) by (auto simp: takeWhile_eq_all_conv dropWhile_eq_Nil_conv)
  ultimately show ?thesis using names_Cons [of c x xs] x(1) by simp
qed

lemma join_alt: "cs \<noteq> [] \<Longrightarrow> join cs = concat (map (\<lambda>c. SLASH # c) cs)"
  by (cases cs) simp_all

lemma names_join: "(\<And>c. c \<in> set cs \<Longrightarrow> name_ok c) \<Longrightarrow> names (join cs) = cs"
proof (induction cs rule: rev_induct)
  case Nil
  then show ?case by (simp add: names_skip)
next
  case (snoc c cs)
  have "names (join (cs @ [c])) = names (join cs @ SLASH # c)"
    by (cases "cs = []") (simp_all add: join_alt names_append names_name names_skip)
  then show ?case using snoc by (simp add: names_append names_name)
qed

lemma render_join: "render (rev cs) = (if cs = [] then [SLASH] else join cs @ [SLASH])"
  by (induction cs rule: rev_induct) (auto simp: join_alt render_def)

lemma join_chars:
  assumes "plain cs"
  shows "0 \<notin> set (join cs)" "hd (join cs) = SLASH" "join cs \<noteq> []" "cs \<noteq> [] \<Longrightarrow> last (join cs) \<noteq> SLASH \<and> 2 \<le> length (join cs)"
proof -
  show "0 \<notin> set (join cs)" using assms by (cases cs) (auto simp: plain_def name_ok_def)
  show "hd (join cs) = SLASH" "join cs \<noteq> []" by (cases cs; simp)+
  show "last (join cs) \<noteq> SLASH \<and> 2 \<le> length (join cs)" if "cs \<noteq> []"
  proof -
    obtain ds c where cs: "cs = ds @ [c]" using \<open>cs \<noteq> []\<close> by (metis append_butlast_last_id)
    then have c: "c \<noteq> []" "SLASH \<notin> set c" using assms by (auto simp: plain_def name_ok_def)
    then have "last c \<noteq> SLASH" by (metis last_in_set)
    moreover have "1 \<le> length c" using c(1) by (cases c) auto
    ultimately show ?thesis using c(1) cs by (simp add: join_alt)
  qed
qed

lemma c_string_take: "take n buf = xs \<Longrightarrow> n < length buf \<Longrightarrow> buf ! n = 0 \<Longrightarrow> 0 \<notin> set xs \<Longrightarrow> c_string buf = xs"
proof -
  assume a: "take n buf = xs" "n < length buf" "buf ! n = 0" "0 \<notin> set xs"
  then have "buf = xs @ 0 # drop (Suc n) buf" by (metis id_take_nth_drop)
  then have "c_string buf = takeWhile (\<lambda>c. c \<noteq> 0) (xs @ 0 # drop (Suc n) buf)" unfolding c_string_def by simp
  moreover have "\<forall>c \<in> set xs. c \<noteq> 0" using a(4) by blast
  ultimately show ?thesis by (simp add: takeWhile_append2)
qed

lemma normalize_end_join:
  assumes d: "d < length buf" and p: "plain cs"
    and t: "take d buf = render (rev cs) \<or> cs \<noteq> [] \<and> take d buf @ [SLASH] = render (rev cs)"
  shows "\<exists>b. normalize_end buf d = Some b \<and> c_string b = join cs"
proof -
  note j = join_chars [OF p]
  have z: "0 < d" using t j(3) by (cases d) (auto simp: render_join simp del: join.simps split: if_splits)
  have hd: "buf ! 0 = SLASH" if "take d buf = xs" "xs \<noteq> []" "hd xs = SLASH" for xs
    using that z d by (metis hd_conv_nth nth_take)
  consider (Root) "cs = []" "take d buf = [SLASH]" | (Slash) "cs \<noteq> []" "take d buf = join cs @ [SLASH]" | (No) "cs \<noteq> []" "take d buf = join cs"
    using t by (auto simp: render_join split: if_splits)
  then show ?thesis
  proof cases
    case Root
    from arg_cong [OF this(2), of length] d have "d = 1" by simp
    then show ?thesis using Root d hd [OF Root(2)] c_string_take [of 1 "buf[1 := 0]" "[SLASH]"]
      by (simp add: normalize_end_def)
  next
    case Slash
    from arg_cong [OF this(2), of length] d have l: "d = length (join cs) + 1" by simp
    have "buf ! (d - 1) = (join cs @ [SLASH]) ! (d - 1)" using Slash(2) l by (metis diff_less nth_take z zero_less_one)
    then have "buf ! (d - 1) = SLASH" using l by (simp add: nth_append)
    moreover have "buf ! 0 = SLASH" using hd [OF Slash(2)] j(2,3) by simp
    moreover have "take (d - 1) buf = join cs" using arg_cong [OF Slash(2), of "take (d - 1)"] l by simp
    then have "c_string (buf[d := 0, d - 1 := 0]) = join cs" using d j(1) l by (intro c_string_take [of "d - 1"]) auto
    ultimately show ?thesis using j(3) j(4) [OF Slash(1)] d z l by (simp add: normalize_end_def)
  next
    case No
    from arg_cong [OF this(2), of length] d have l: "d = length (join cs)" by simp
    have "buf ! (d - 1) = join cs ! (d - 1)" using No(2) by (metis diff_less nth_take z zero_less_one)
    then have "buf ! (d - 1) \<noteq> SLASH" using l j(3) j(4) [OF No(1)] by (simp add: last_conv_nth)
    moreover have "buf ! 0 = SLASH" using hd [OF No(2)] j(2,3) by simp
    moreover have "c_string (buf[d := 0]) = join cs" using d j(1) No(2) by (intro c_string_take) auto
    ultimately show ?thesis using d z by (simp add: normalize_end_def)
  qed
qed

text \<open>The whole function on a path that starts with a slash.\<close>

lemma normalize_absolute:
  assumes "0 \<notin> set p" "resolve [] (names p) = Some cs"
  shows "\<exists>buf d b. normalize_loop ((SLASH # p) @ [0]) 0 0 = Some (Some (buf, d)) \<and> normalize_end buf d = Some b \<and> c_string b = join cs"
proof -
  define buf where "buf = (SLASH # p) @ [0]"
  have "text_at buf 1 p" using assms(1) by (simp add: buf_def text_at_def)
  from skip_slashes_text [OF this] obtain s where s: "skip_slashes buf 1 = Some s" "1 \<le> s" "text_at buf s (dropWhile (\<lambda>c. c = SLASH) p)" by blast
  have c: "copy_name buf 0 0 = Some (SLASH, buf, 1, 0)" by (subst copy_name.simps) (simp add: buf_def)
  have n: "normalize_loop buf 0 0 = normalize_loop buf s 1"
    using c s(1) by (subst normalize_loop.simps) (simp add: look_at_def buf_def)
  have "names (dropWhile (\<lambda>c. c = SLASH) p) = names p" by (subst (1 2) names.simps) (simp add: dropWhile_idem)
  moreover have "dropWhile (\<lambda>c. c = SLASH) p = [] \<or> hd (dropWhile (\<lambda>c. c = SLASH) p) \<noteq> SLASH" using hd_dropWhile [of "\<lambda>c. c = SLASH"] by auto
  moreover have "take 1 buf = render []" by (simp add: buf_def)
  ultimately have "loop_done buf s 1 cs" using loop_resolve [OF s(3), of 1 "[]" cs] s(2) assms(2) by simp
  from loop_done_step [OF n refl this] obtain buf' d where
    l: "normalize_loop buf 0 0 = Some (Some (buf', d))" "length buf' = length buf" "d < length buf"
      "take d buf' = render (rev cs) \<or> cs \<noteq> [] \<and> take d buf' @ [SLASH] = render (rev cs)"
    unfolding loop_done_def by blast
  have "plain cs" using resolve_plain [OF assms(2)] names_ok [OF assms(1)] by (simp add: plain_def)
  from normalize_end_join [OF _ this l(4)] l(1-3) show ?thesis unfolding buf_def by auto
qed


section \<open>Correctness\<close>

text \<open>The names of the directory a path starts from: none for an absolute path.\<close>

definition from_dir :: "u8 list \<Rightarrow> u8 list option \<Rightarrow> u8 list \<Rightarrow> u8 list list" where
  "from_dir wd directory filename =
    (if hd (filename @ [0]) = SLASH then [] else names (case directory of None \<Rightarrow> wd | Some d \<Rightarrow> d))"

lemma normalize_resolves:
  assumes "0 \<notin> set filename" "0 \<notin> set (case directory of None \<Rightarrow> wd | Some d \<Rightarrow> d)"
    "hd ((case directory of None \<Rightarrow> wd | Some d \<Rightarrow> d) @ [0]) = SLASH" "resolve [] (from_dir wd directory filename @ names filename) = Some cs"
  shows "dfs_normalize_path True wd directory filename = Some (Some (join cs)) \<and> plain cs"
proof -
  define dir where "dir = (case directory of None \<Rightarrow> wd | Some d \<Rightarrow> d)"
  define p where "p = (if hd (filename @ [0]) = SLASH then tl filename else tl dir @ SLASH # filename)"
  obtain y where y: "dir = SLASH # y" using assms(3) unfolding dir_def [symmetric] by (cases dir) auto
  obtain full where f: "full = SLASH # p" "(if hd (filename @ [0]) \<noteq> SLASH then dir @ [SLASH] @ filename @ [0] else filename @ [0]) = full @ [0]"
    using y by (cases filename) (auto simp: p_def)
  have "0 \<notin> set p" using assms(1,2) y unfolding dir_def [symmetric] p_def by (cases filename) auto
  moreover have "names p = from_dir wd directory filename @ names filename"
    using y unfolding p_def from_dir_def dir_def [symmetric] by (cases filename) (auto simp: names_skip names_append)
  ultimately obtain buf d b where n: "normalize_loop (full @ [0]) 0 0 = Some (Some (buf, d))" "normalize_end buf d = Some b" "c_string b = join cs"
    using normalize_absolute [of p cs] assms(4) f(1) by auto
  have "plain cs" using resolve_plain [of "[]" "names p"] names_ok [OF \<open>0 \<notin> set p\<close>] assms(4) \<open>names p = _\<close> by (simp add: plain_def)
  then show ?thesis using n f(2) by (simp add: dfs_normalize_path_def dir_def [symmetric])
qed

lemma normalize_plain:
  assumes "plain cs"
  shows "dfs_normalize_path True wd directory (join cs) = Some (Some (join cs))"
proof -
  note j = join_chars [OF assms]
  have n: "names (join cs) = cs" using assms by (intro names_join) (simp add: plain_def)
  obtain y where y: "join cs = SLASH # y" using j(2,3) by (cases "join cs") auto
  then have "dfs_normalize_path True wd (Some [SLASH]) (join cs) = Some (Some (join cs))"
    using normalize_resolves [where filename = "join cs" and directory = "Some [SLASH]" and wd = wd and cs = cs] j(1) n resolve_self [OF assms, of "[]"] by (simp add: from_dir_def)
  then show ?thesis using y by (simp add: dfs_normalize_path_def)
qed

text \<open>C20: \<open>dfs_normalize_path\<close> computes what a path leads to. The text is rewritten in place by one pass of two pointers; when the
  names of the starting directory and of the path resolve (\<open>.\<close> stays, \<open>..\<close> leaves the last directory, doubled slashes are one)
  to \<open>cs\<close>, the result is the list \<open>cs\<close>, each name with one slash before it, or the root. The loop ends, no access leaves
  the buffer, a second normalisation from any directory changes nothing, and the names can be read back.\<close>

theorem normalize_path_correct:
  assumes "0 \<notin> set filename" "0 \<notin> set (case directory of None \<Rightarrow> wd | Some d \<Rightarrow> d)"
    "hd ((case directory of None \<Rightarrow> wd | Some d \<Rightarrow> d) @ [0]) = SLASH" "resolve [] (from_dir wd directory filename @ names filename) = Some cs"
  shows "dfs_normalize_path True wd directory filename = Some (Some (join cs)) \<and>
    dfs_normalize_path True wd' directory' (join cs) = Some (Some (join cs)) \<and> names (join cs) = cs"
  using normalize_resolves [OF assms] normalize_plain [of cs wd' directory'] names_join [of cs] by (simp add: plain_def)

text \<open>The path "b//.././c/" from the directory "/a".\<close>

lemma normalize_path_correct_witness:
  "dfs_normalize_path True [SLASH] (Some [SLASH, 97]) [98, SLASH, SLASH, DOT, DOT, SLASH, DOT, SLASH, 99, SLASH] = Some (Some [SLASH, 97, SLASH, 99])"
  using normalize_path_correct [where filename = "[98, SLASH, SLASH, DOT, DOT, SLASH, DOT, SLASH, 99, SLASH]" and directory = "Some [SLASH, 97]"
    and wd = "[SLASH]" and cs = "[[97], [99]]" and wd' = "[]" and directory' = None]
  by (simp add: from_dir_def names_Cons names_skip)

lemma length_join: "cs \<noteq> [] \<Longrightarrow> length (join cs) = sum_list (map (\<lambda>c. length c + 1) cs)"
  by (simp add: join_alt length_concat comp_def)

lemma subdir_append:
  assumes "plain (ds @ cs)"
  shows "dfs_subdir (join ds) (join (ds @ cs)) = Some (if cs = [] then None else Some (join cs))"
proof (cases "cs = []")
  case True
  then show ?thesis by (simp add: dfs_subdir_def)
next
  case cs: False
  obtain y where y: "join cs = SLASH # y" by (cases cs) auto
  show ?thesis
  proof (cases "ds = []")
    case True
    obtain c cs' where c: "cs = c # cs'" "c \<noteq> []" "SLASH \<notin> set c" using assms cs by (cases cs) (auto simp: plain_def name_ok_def)
    then obtain x xs where "c = x # xs" "x \<noteq> SLASH" by (cases c) auto
    then show ?thesis using True cs c by (simp add: dfs_subdir_def)
  next
    case False
    then have "join (ds @ cs) = join ds @ join cs" using cs by (simp add: join_alt)
    then show ?thesis using y cs by (simp add: dfs_subdir_def nth_append)
  qed
qed

text \<open>\<open>dfs_subdir\<close> cuts the path of a mount point off: for a directory and a path below it, both in normal form, what is left is
  the path from the mount point on, again in normal form and with its slash (also when the directory is the root itself, whose
  slash is shared); for the directory itself there is nothing.\<close>

theorem subdir_below:
  assumes "plain (ds @ cs)"
  shows "dfs_subdir (join ds) (join (ds @ cs)) = Some (if cs = [] then None else Some (join cs))"
  by (rule subdir_append [OF assms])

text \<open>The mount point "/sd" and the file "/sd/a".\<close>

lemma subdir_below_witness: "dfs_subdir [SLASH, 115, 100] [SLASH, 115, 100, SLASH, 97] = Some (Some [SLASH, 97])"
  using subdir_below [of "[[115, 100]]" "[[97]]"] by (simp add: plain_def name_ok_def)

text \<open>The parent of the root is not \<open>RT_NULL\<close> the first time: the pointer goes back over the slash of the root. "/../x" is then "x",
  which is not absolute, and for "/.." the end of the function looks at the byte before the buffer.\<close>

lemma parent_of_root_is_relative: "dfs_normalize_path True wd directory [SLASH, DOT, DOT, SLASH, 120] = Some (Some [120])"
  by (simp add: dfs_normalize_path_def normalize_loop.simps look_at_def copy_name.simps skip_slashes.simps normalize_end_def c_string_def)

lemma parent_of_root_before_buffer: "dfs_normalize_path True wd directory [SLASH, DOT, DOT] = None"
  by (simp add: dfs_normalize_path_def normalize_loop.simps look_at_def copy_name.simps skip_slashes.simps normalize_end_def c_string_def)

lemma parent_twice: "dfs_normalize_path True wd directory [SLASH, DOT, DOT, SLASH, DOT, DOT] = Some None"
  by (simp add: dfs_normalize_path_def normalize_loop.simps look_at_def copy_name.simps skip_slashes.simps)

end
