(* ===== verification/DfsFs.thy ===== *)
theory DfsFs
  imports DfsPath "HOL-Library.Sublist"
begin

text \<open>
  The tables of the device file system, \<^verbatim>\<open>rt-thread/components/dfs/src/dfs.c\<close> and \<^verbatim>\<open>dfs_fs.c\<close>: the registered file systems, the
  mounted ones and the file descriptors. The heap objects \<open>struct dfs_fd\<close> have numbers that are never used twice, \<open>objs\<close>; an access
  to an object that has been released, or through \<open>NULL\<close>, is \<open>None\<close>. The answers of the allocator are \<open>mem\<close>, one for each
  request in order. The mutex \<open>fslock\<close> is recursive, \<open>lock_depth\<close> is how often the caller holds it: taking it is the business of
  the theory of mutexes, here it is that each way out gives it back.
\<close>

section \<open>Data\<close>

abbreviation ENOENT :: int where "ENOENT \<equiv> 2"
abbreviation EIO :: int where "EIO \<equiv> 5"
abbreviation ENXIO :: int where "ENXIO \<equiv> 6"
abbreviation EBADF :: int where "EBADF \<equiv> 9"
abbreviation ENOMEM :: int where "ENOMEM \<equiv> 12"
abbreviation EBUSY :: int where "EBUSY \<equiv> 16"
abbreviation EEXIST :: int where "EEXIST \<equiv> 17"
abbreviation EXDEV :: int where "EXDEV \<equiv> 18"
abbreviation ENODEV :: int where "ENODEV \<equiv> 19"
abbreviation ENOTDIR :: int where "ENOTDIR \<equiv> 20"
abbreviation EINVAL :: int where "EINVAL \<equiv> 22"
abbreviation ENOSPC :: int where "ENOSPC \<equiv> 28"
abbreviation ENOSYS :: int where "ENOSYS \<equiv> 88"

abbreviation DFS_FILESYSTEM_TYPES_MAX :: nat where "DFS_FILESYSTEM_TYPES_MAX \<equiv> 4"
abbreviation DFS_FILESYSTEMS_MAX :: nat where "DFS_FILESYSTEMS_MAX \<equiv> 4"
abbreviation DFS_FD_MAX :: nat where "DFS_FD_MAX \<equiv> 16"
abbreviation DFS_FD_OFFSET :: int where "DFS_FD_OFFSET \<equiv> 3"
abbreviation DFS_FD_MAGIC :: u16 where "DFS_FD_MAGIC \<equiv> 0xfdfd"
abbreviation DFS_PATH_MAX :: nat where "DFS_PATH_MAX \<equiv> 256"
abbreviation DFS_FS_FLAG_FULLPATH :: u32 where "DFS_FS_FLAG_FULLPATH \<equiv> 1"
abbreviation FT_REGULAR :: u16 where "FT_REGULAR \<equiv> 0"
abbreviation FT_DIRECTORY :: u16 where "FT_DIRECTORY \<equiv> 2"
abbreviation FT_DEVICE :: u16 where "FT_DEVICE \<equiv> 4"
abbreviation DFS_F_OPEN :: u32 where "DFS_F_OPEN \<equiv> 0x01000000"
abbreviation DFS_F_DIRECTORY :: u32 where "DFS_F_DIRECTORY \<equiv> 0x02000000"
abbreviation DFS_F_EOF :: u32 where "DFS_F_EOF \<equiv> 0x04000000"

text \<open>The pointers that the descriptors and the mounted file systems keep for the drivers.\<close>

datatype ptr = NullPtr | FsEntry nat | Ptr nat

record dfs_fd =
  fd_magic :: u16
  fd_type :: u16
  fd_path :: "u8 list option"
  fd_ref :: int
  fd_fs :: "nat option"
  fd_fops :: "nat option"
  fd_flags :: u32
  fd_size :: u32
  fd_pos :: int
  fd_data :: ptr

definition zero_fd :: dfs_fd where
  "zero_fd = \<lparr>fd_magic = 0, fd_type = 0, fd_path = None, fd_ref = 0, fd_fs = None, fd_fops = None, fd_flags = 0, fd_size = 0,
     fd_pos = 0, fd_data = NullPtr\<rparr>"

record dfs_filesystem =
  fs_dev :: "nat option"
  fs_path :: "u8 list option"
  fs_ops :: "nat option"
  fs_data :: ptr

definition zero_fs :: dfs_filesystem where
  "zero_fs = \<lparr>fs_dev = None, fs_path = None, fs_ops = None, fs_data = NullPtr\<rparr>"

text \<open>The mode and the size that \<open>stat\<close> fills in; the other members are 0 for all file systems here.\<close>

record file_stat =
  st_mode :: u32
  st_size :: u32

text \<open>The operations of a file system driver. They see the mounted file systems and work on the descriptor and on their own
  state \<open>'s\<close>, with the devices; a result \<open>None\<close> is a run into undefined behaviour. A \<open>None\<close> in a table is a missing
  operation.\<close>

type_synonym ('r, 's) file_op = "dfs_filesystem list \<Rightarrow> 's \<Rightarrow> dfs_fd \<Rightarrow> ('r \<times> dfs_fd \<times> 's) option"

record 's dfs_file_ops =
  op_open :: "(int, 's) file_op option"
  op_close :: "(int, 's) file_op option"
  op_ioctl :: "(int \<Rightarrow> int \<Rightarrow> (int, 's) file_op) option"
  op_read :: "(nat \<Rightarrow> (int \<times> u8 list, 's) file_op) option"
  op_write :: "(u8 list \<Rightarrow> (int, 's) file_op) option"
  op_flush :: "(int, 's) file_op option"
  op_lseek :: "(int \<Rightarrow> (int, 's) file_op) option"
  op_getdents :: "(nat \<Rightarrow> (int \<times> u8 list, 's) file_op) option"

record 's dfs_filesystem_ops =
  ops_name :: "u8 list"
  ops_flags :: u32
  ops_fops :: nat
  ops_mount :: "(nat \<Rightarrow> ptr \<Rightarrow> 's \<Rightarrow> dfs_filesystem \<Rightarrow> int \<times> dfs_filesystem \<times> 's) option"
  ops_unmount :: "('s \<Rightarrow> dfs_filesystem \<Rightarrow> int \<times> dfs_filesystem \<times> 's) option"
  ops_mkfs :: "('s \<Rightarrow> nat \<Rightarrow> int \<times> 's) option"
  ops_statfs :: "('s \<Rightarrow> dfs_filesystem \<Rightarrow> int \<times> 's) option"
  ops_unlink :: "('s \<Rightarrow> dfs_filesystem \<Rightarrow> u8 list \<Rightarrow> int \<times> 's) option"
  ops_stat :: "('s \<Rightarrow> dfs_filesystem \<Rightarrow> u8 list \<Rightarrow> ((int \<times> file_stat option) \<times> 's) option) option"
  ops_rename :: "('s \<Rightarrow> dfs_filesystem \<Rightarrow> u8 list option \<Rightarrow> u8 list option \<Rightarrow> int \<times> 's) option"

text \<open>What is linked into the image: the operation tables by their addresses, and the device layer.\<close>

record 's drivers =
  ops_at :: "nat \<Rightarrow> 's dfs_filesystem_ops"
  fops_at :: "nat \<Rightarrow> 's dfs_file_ops"
  dev_find :: "'s \<Rightarrow> u8 list \<Rightarrow> nat option"
  dev_open :: "'s \<Rightarrow> nat \<Rightarrow> int \<times> 's"
  dev_close :: "'s \<Rightarrow> nat \<Rightarrow> int \<times> 's"

record 's dfs =
  fs_types :: "nat option list"
  fs_table :: "dfs_filesystem list"
  fds :: "nat option list"
  objs :: "nat \<Rightarrow> dfs_fd option"
  next_obj :: nat
  work_dir :: "u8 list"
  lock_depth :: nat
  errno :: int
  console :: int
  mem :: "nat \<Rightarrow> bool"
  asked :: nat
  world :: 's

definition dfs_lock :: "'s dfs \<Rightarrow> 's dfs" where "dfs_lock s = s\<lparr>lock_depth := lock_depth s + 1\<rparr>"
definition dfs_unlock :: "'s dfs \<Rightarrow> 's dfs" where "dfs_unlock s = s\<lparr>lock_depth := lock_depth s - 1\<rparr>"
definition set_errno :: "int \<Rightarrow> 's dfs \<Rightarrow> 's dfs" where "set_errno e s = s\<lparr>errno := e\<rparr>"

text \<open>A request to the allocator and a call of a path function with the working directory.\<close>

definition ask :: "'s dfs \<Rightarrow> bool \<times> 's dfs" where
  "ask s = (mem s (asked s), s\<lparr>asked := asked s + 1\<rparr>)"

definition full_path :: "u8 list \<Rightarrow> 's dfs \<Rightarrow> (u8 list option \<times> 's dfs) option" where
  "full_path path s = (case ask s of (ok, s1) \<Rightarrow> map_option (\<lambda>r. (r, s1)) (dfs_normalize_path ok (work_dir s) None path))"

text \<open>\<open>dfs_init\<close> without the mount of devfs, which follows the registration of its driver.\<close>

definition dfs_init_tables :: "'s dfs \<Rightarrow> 's dfs" where
  "dfs_init_tables s = s\<lparr>fs_types := replicate DFS_FILESYSTEM_TYPES_MAX None, fs_table := replicate DFS_FILESYSTEMS_MAX zero_fs,
     fds := [], work_dir := [SLASH]\<rparr>"

section \<open>File systems\<close>

text \<open>\<open>dfs_register\<close>: the first empty place and whether the name is there; the search stops at the name.\<close>

fun register_scan :: "'s drivers \<Rightarrow> u8 list \<Rightarrow> nat \<Rightarrow> nat option list \<Rightarrow> nat option \<Rightarrow> nat option \<times> bool" where
  "register_scan E name i [] free = (free, False)"
| "register_scan E name i (None # ts) free = register_scan E name (i + 1) ts (if free = None then Some i else free)"
| "register_scan E name i (Some t # ts) free =
    (if ops_name (ops_at E t) = name then (free, True) else register_scan E name (i + 1) ts free)"

definition dfs_register :: "'s drivers \<Rightarrow> nat \<Rightarrow> 's dfs \<Rightarrow> int \<times> 's dfs" where
  "dfs_register E ops s =
    (let s1 = dfs_lock s;
         (free, found) = register_scan E (ops_name (ops_at E ops)) 0 (fs_types s1) None;
         s2 = (if found then set_errno (- EEXIST) s1 else s1)
     in case free of
          None \<Rightarrow> (- 1, dfs_unlock (set_errno (- ENOSPC) s2))
        | Some i \<Rightarrow> if \<not> found then (0, dfs_unlock (s2\<lparr>fs_types := (fs_types s2)[i := Some ops]\<rparr>)) else (- 1, dfs_unlock s2))"

text \<open>\<open>dfs_filesystem_lookup\<close>: the entry and the length of its path, for the entries from number \<open>i\<close> on.\<close>

fun lookup_scan :: "u8 list \<Rightarrow> nat \<Rightarrow> dfs_filesystem list \<Rightarrow> nat option \<Rightarrow> nat \<Rightarrow> nat option" where
  "lookup_scan path i [] fs prefixlen = fs"
| "lookup_scan path i (e # es) fs prefixlen =
    (case (fs_path e, fs_ops e) of
       (Some p, Some _) \<Rightarrow>
         if length p < prefixlen \<or> take (length p) path \<noteq> p \<or> 1 < length p \<and> length p < length path \<and> path ! length p \<noteq> SLASH
         then lookup_scan path (i + 1) es fs prefixlen
         else lookup_scan path (i + 1) es (Some i) (length p)
     | _ \<Rightarrow> lookup_scan path (i + 1) es fs prefixlen)"

definition dfs_filesystem_lookup :: "u8 list \<Rightarrow> 's dfs \<Rightarrow> nat option \<times> 's dfs" where
  "dfs_filesystem_lookup path s =
    (let s1 = dfs_lock s in (lookup_scan path 0 (fs_table s1) None 0, dfs_unlock s1))"

fun mounted_scan :: "nat \<Rightarrow> dfs_filesystem list \<Rightarrow> u8 list option" where
  "mounted_scan device [] = None"
| "mounted_scan device (e # es) =
    (if fs_ops e = None then mounted_scan device es else if fs_dev e = Some device then fs_path e else mounted_scan device es)"

definition dfs_filesystem_get_mounted_path :: "nat \<Rightarrow> 's dfs \<Rightarrow> u8 list option \<times> 's dfs" where
  "dfs_filesystem_get_mounted_path device s = (let s1 = dfs_lock s in (mounted_scan device (fs_table s1), dfs_unlock s1))"

text \<open>\<open>dfs_filesystem_get_partition\<close> on a sector of 512 bytes: the type, and the offset and the size, of 32 bits, in sectors.
  An entry outside of the sector is an access outside of the buffer.\<close>

definition word_at :: "u8 list \<Rightarrow> nat \<Rightarrow> u32" where
  "word_at buf i = ucast (buf ! i) OR push_bit 8 (ucast (buf ! (i + 1))) OR push_bit 16 (ucast (buf ! (i + 2))) OR
     push_bit 24 (ucast (buf ! (i + 3)))"

definition dfs_filesystem_get_partition :: "u8 list \<Rightarrow> nat \<Rightarrow> (int + u8 \<times> u32 \<times> u32) option" where
  "dfs_filesystem_get_partition buf pindex =
    (let dpt = 0x1be + pindex * 16
     in if length buf \<le> dpt + 15 then None
        else if buf ! dpt \<noteq> 0x80 \<and> buf ! dpt \<noteq> 0 then Some (Inl (- EIO))
        else if buf ! (dpt + 4) = 0 then Some (Inl (- EIO))
        else Some (Inr (buf ! (dpt + 4), word_at buf (dpt + 8), word_at buf (dpt + 12))))"

section \<open>Descriptors\<close>

text \<open>\<open>fd_alloc\<close>: the first place from \<open>startfd\<close> on that is empty or has no references; the table grows by 4 up to 16.\<close>

fun find_slot :: "(nat \<Rightarrow> dfs_fd option) \<Rightarrow> nat \<Rightarrow> nat option list \<Rightarrow> nat option" where
  "find_slot ob i [] = Some i"
| "find_slot ob i (None # xs) = Some i"
| "find_slot ob i (Some a # xs) = (case ob a of None \<Rightarrow> None | Some d \<Rightarrow> if fd_ref d = 0 then Some i else find_slot ob (i + 1) xs)"

definition fd_grow :: "nat \<Rightarrow> 's dfs \<Rightarrow> bool \<times> 's dfs" where
  "fd_grow idx s =
    (if idx = length (fds s) \<and> length (fds s) < DFS_FD_MAX
     then case ask s of (ok, s1) \<Rightarrow>
       if ok then (True, s1\<lparr>fds := fds s1 @ replicate (min (length (fds s1) + 4) DFS_FD_MAX - length (fds s1)) None\<rparr>) else (False, s1)
     else (True, s))"

definition fd_alloc :: "nat \<Rightarrow> 's dfs \<Rightarrow> (nat \<times> 's dfs) option" where
  "fd_alloc startfd s = do {
     idx \<leftarrow> find_slot (objs s) startfd (drop startfd (fds s));
     let (ok, s1) = fd_grow idx s;
     if \<not> ok then Some (idx, s1)
     else if idx < length (fds s1) \<and> fds s1 ! idx = None
     then case ask s1 of (ok, s2) \<Rightarrow>
       if ok then Some (idx, s2\<lparr>fds := (fds s2)[idx := Some (next_obj s2)], objs := (objs s2)(next_obj s2 \<mapsto> zero_fd), next_obj := next_obj s2 + 1\<rparr>)
       else Some (length (fds s2), s2)
     else Some (idx, s1)
   }"

definition fd_new :: "'s dfs \<Rightarrow> (int \<times> 's dfs) option" where
  "fd_new s = do {
     let s1 = dfs_lock s;
     (idx, s2) \<leftarrow> fd_alloc 0 s1;
     if idx = length (fds s2) then Some (- (1 + DFS_FD_OFFSET) + DFS_FD_OFFSET, dfs_unlock s2)
     else do {
       _ \<leftarrow> assert_that (idx < length (fds s2));
       a \<leftarrow> fds s2 ! idx;
       d \<leftarrow> objs s2 a;
       Some (int idx + DFS_FD_OFFSET, dfs_unlock (s2\<lparr>objs := (objs s2)(a \<mapsto> d\<lparr>fd_ref := 1, fd_magic := DFS_FD_MAGIC\<rparr>)\<rparr>))
     }
   }"

text \<open>\<open>fd_get\<close> gives the object, \<open>None\<close> for \<open>NULL\<close>; 0, 1 and 2 are the console.\<close>

definition fd_get :: "int \<Rightarrow> 's dfs \<Rightarrow> (nat option \<times> 's dfs) option" where
  "fd_get fd s =
    (let fd1 = (if 0 \<le> fd \<and> fd \<le> 2 then console s else fd) - DFS_FD_OFFSET
     in if fd1 < 0 \<or> int (length (fds s)) \<le> fd1 then Some (None, s)
        else let s1 = dfs_lock s
          in case fds s1 ! nat fd1 of
            None \<Rightarrow> Some (None, dfs_unlock s1)
          | Some a \<Rightarrow> (case objs s1 a of
              None \<Rightarrow> None
            | Some d \<Rightarrow> if fd_magic d \<noteq> DFS_FD_MAGIC then Some (None, dfs_unlock s1)
                else Some (Some a, dfs_unlock (s1\<lparr>objs := (objs s1)(a \<mapsto> d\<lparr>fd_ref := fd_ref d + 1\<rparr>)\<rparr>))))"

fun clear_slot :: "nat \<Rightarrow> nat option list \<Rightarrow> bool \<times> nat option list" where
  "clear_slot a [] = (False, [])"
| "clear_slot a (x # xs) = (if x = Some a then (True, None # xs) else map_prod id (\<lambda>ys. x # ys) (clear_slot a xs))"

definition fd_put :: "nat \<Rightarrow> 's dfs \<Rightarrow> 's dfs option" where
  "fd_put a s =
    (let s1 = dfs_lock s
     in case objs s1 a of
       None \<Rightarrow> None
     | Some d \<Rightarrow>
         let s2 = s1\<lparr>objs := (objs s1)(a \<mapsto> d\<lparr>fd_ref := fd_ref d - 1\<rparr>)\<rparr>
         in if fd_ref d - 1 = 0
            then case clear_slot a (fds s2) of (found, fds') \<Rightarrow>
              Some (dfs_unlock (if found then s2\<lparr>objs := (objs s2)(a := None), fds := fds'\<rparr> else s2))
            else Some (dfs_unlock s2))"

text \<open>\<open>fd_is_open\<close>: 0 when a descriptor of the file system has the path below the mount point.\<close>

fun open_scan :: "(nat \<Rightarrow> dfs_fd option) \<Rightarrow> nat \<Rightarrow> u8 list \<Rightarrow> nat option list \<Rightarrow> bool option" where
  "open_scan ob fs mountpath [] = Some False"
| "open_scan ob fs mountpath (None # xs) = open_scan ob fs mountpath xs"
| "open_scan ob fs mountpath (Some a # xs) =
    (case ob a of
       None \<Rightarrow> None
     | Some d \<Rightarrow> if fd_fops d = None \<or> fd_path d = None then open_scan ob fs mountpath xs
         else if fd_fs d = Some fs \<and> fd_path d = Some mountpath then Some True
         else open_scan ob fs mountpath xs)"

definition fd_is_open :: "u8 list \<Rightarrow> 's dfs \<Rightarrow> (int \<times> 's dfs) option" where
  "fd_is_open pathname s = do {
     (full, s1) \<leftarrow> full_path pathname s;
     case full of
       None \<Rightarrow> Some (- 1, s1)
     | Some fullpath \<Rightarrow>
         (case dfs_filesystem_lookup fullpath s1 of
            (None, s2) \<Rightarrow> Some (- 1, s2)
          | (Some fs, s2) \<Rightarrow> do {
              p \<leftarrow> fs_path (fs_table s2 ! fs);
              let mountpath = (if p = [SLASH] then fullpath else drop (length p) fullpath);
              let s3 = dfs_lock s2;
              found \<leftarrow> open_scan (objs s3) fs mountpath (fds s3);
              Some (if found then 0 else - 1, dfs_unlock s3)
            })
   }"


section \<open>The lookup\<close>

lemma lock_unlock [simp]: "dfs_unlock (dfs_lock s) = s" "lock_depth (dfs_lock s) = lock_depth s + 1"
  by (simp_all add: dfs_lock_def dfs_unlock_def)

lemma join_append: "ds \<noteq> [] \<Longrightarrow> es \<noteq> [] \<Longrightarrow> join (ds @ es) = join ds @ join es"
  by (simp add: join_alt)

lemma join_starts: "cs \<noteq> [] \<Longrightarrow> \<exists>y. join cs = SLASH # y"
  by (cases cs) simp_all

lemma plain_append [simp]: "plain (ds @ es) \<longleftrightarrow> plain ds \<and> plain es"
  by (auto simp: plain_def)

lemma plain_names: "plain cs \<Longrightarrow> names (join cs) = cs"
  by (rule names_join) (simp add: plain_def)

lemma join_inject: "plain ds \<Longrightarrow> plain cs \<Longrightarrow> join ds = join cs \<longleftrightarrow> ds = cs"
  using plain_names by metis

text \<open>The test on the strings is the one on the names.\<close>

lemma prefix_test:
  assumes p: "plain ds" "plain cs"
  shows "take (length (join ds)) (join cs) = join ds \<and>
      \<not> (1 < length (join ds) \<and> length (join ds) < length (join cs) \<and> join cs ! length (join ds) \<noteq> SLASH) \<longleftrightarrow> prefix ds cs"
    (is "?t \<longleftrightarrow> _")
proof (cases "ds = []")
  case True
  then show ?thesis using join_starts [of cs] by (cases "cs = []") auto
next
  case ds: False
  then have l: "1 < length (join ds)" using join_chars(4) [OF p(1)] by simp
  show ?thesis
  proof
    assume t: ?t
    then obtain r where r: "join cs = join ds @ r" by (metis append_take_drop_id)
    show "prefix ds cs"
    proof (cases r)
      case Nil
      then show ?thesis using r join_inject [OF p] by simp
    next
      case (Cons x y)
      then have "x = SLASH" using t r l by (auto simp: nth_append)
      then have "cs = ds @ names y" using r Cons names_append [of "join ds" y] plain_names p by metis
      then show ?thesis by simp
    qed
  next
    assume "prefix ds cs"
    then obtain es where es: "cs = ds @ es" by (auto elim: prefixE)
    show ?t
    proof (cases "es = []")
      case False
      then show ?thesis using join_append [OF ds False] join_starts [OF False] es by (auto simp: nth_append)
    qed (simp add: es)
  qed
qed

lemma prefix_join_length:
  assumes "plain cs" "prefix ds cs" "prefix es cs"
  shows "length (join ds) \<le> length (join es) \<longleftrightarrow> length ds \<le> length es"
proof -
  have less: "length (join xs) < length (join (xs @ ys))" if "plain (xs @ ys)" "ys \<noteq> []" for xs ys
  proof (cases "xs = []")
    case True
    then show ?thesis using join_chars(4) [of ys] that by simp
  next
    case False
    then show ?thesis using join_append [OF False that(2)] join_starts [OF that(2)] by auto
  qed
  from assms(2,3) consider (1) ys where "es = ds @ ys" | (2) ys where "ds = es @ ys" by (metis prefixE prefix_same_cases)
  then show ?thesis
  proof cases
    case 1
    then have "plain (ds @ ys)" using assms(1,3) by (auto elim!: prefixE)
    then show ?thesis using less [of ds ys] 1 by (cases "ys = []") auto
  next
    case 2
    then have "plain (es @ ys)" using assms(1,2) by (auto elim!: prefixE)
    then show ?thesis using less [of es ys] 2 by (cases "ys = []") auto
  qed
qed

text \<open>An entry that is in use, and the table: entries in use have a path in normal form, no two of them the same, and the others
  are cleared.\<close>

definition mounted_at :: "dfs_filesystem list \<Rightarrow> nat \<Rightarrow> u8 list list \<Rightarrow> bool" where
  "mounted_at t i ds \<longleftrightarrow> i < length t \<and> fs_ops (t ! i) \<noteq> None \<and> fs_path (t ! i) = Some (join ds) \<and> plain ds"

definition fs_inv :: "dfs_filesystem list \<Rightarrow> bool" where
  "fs_inv t \<longleftrightarrow> length t = DFS_FILESYSTEMS_MAX \<and> (\<forall>i < length t. t ! i = zero_fs \<or> (\<exists>ds. mounted_at t i ds)) \<and>
     (\<forall>i j ds. mounted_at t i ds \<and> mounted_at t j ds \<longrightarrow> i = j)"

definition below :: "u8 list list \<Rightarrow> dfs_filesystem \<Rightarrow> bool" where
  "below cs e \<longleftrightarrow> fs_ops e \<noteq> None \<and> (\<exists>ds. plain ds \<and> fs_path e = Some (join ds) \<and> prefix ds cs)"

abbreviation path_len :: "dfs_filesystem \<Rightarrow> nat" where "path_len e \<equiv> length (the (fs_path e))"

lemma lookup_scan_best:
  assumes "plain cs" "\<And>e. e \<in> set es \<Longrightarrow> e = zero_fs \<or> (\<exists>ds. plain ds \<and> fs_path e = Some (join ds))"
  shows "lookup_scan (join cs) i es fs pl = fs \<and> (\<forall>e \<in> set es. below cs e \<longrightarrow> path_len e < pl) \<or>
    (\<exists>j < length es. lookup_scan (join cs) i es fs pl = Some (i + j) \<and> below cs (es ! j) \<and> pl \<le> path_len (es ! j) \<and>
       (\<forall>e \<in> set es. below cs e \<longrightarrow> path_len e \<le> path_len (es ! j)))"
  using assms(2)
proof (induction es arbitrary: i fs pl)
  case (Cons e es)
  have e: "e = zero_fs \<or> (\<exists>ds. plain ds \<and> fs_path e = Some (join ds))" using Cons.prems by simp
  have step: "lookup_scan (join cs) i (e # es) fs pl =
      (if below cs e \<and> pl \<le> path_len e then lookup_scan (join cs) (i + 1) es (Some i) (path_len e) else lookup_scan (join cs) (i + 1) es fs pl)"
  proof (cases "\<exists>ds t. plain ds \<and> fs_path e = Some (join ds) \<and> fs_ops e = Some t")
    case True
    then obtain ds t where d: "plain ds" "fs_path e = Some (join ds)" "fs_ops e = Some t" by blast
    then have "below cs e \<longleftrightarrow> prefix ds cs" using join_inject by (auto simp: below_def)
    then show ?thesis using prefix_test [OF d(1) assms(1)] d by auto
  next
    case False
    then have "\<not> below cs e" by (auto simp: below_def)
    moreover have "fs_ops e = None \<or> fs_path e = None" using e False by (auto simp: zero_fs_def)
    ultimately show ?thesis by (auto split: option.split)
  qed
  note IH = Cons.IH [OF Cons.prems, simplified]
  show ?case
  proof (cases "below cs e \<and> pl \<le> path_len e")
    case True
    from IH [of "i + 1" "Some i" "path_len e"] show ?thesis
    proof (elim disjE conjE exE)
      assume "lookup_scan (join cs) (i + 1) es (Some i) (path_len e) = Some i" "\<forall>x \<in> set es. below cs x \<longrightarrow> path_len x < path_len e"
      then show ?thesis using True step by (intro disjI2 exI [of _ 0]) auto
    next
      fix j assume "j < length es" "lookup_scan (join cs) (i + 1) es (Some i) (path_len e) = Some (i + 1 + j)" "below cs (es ! j)"
        "path_len e \<le> path_len (es ! j)" "\<forall>x \<in> set es. below cs x \<longrightarrow> path_len x \<le> path_len (es ! j)"
      then show ?thesis using True step by (intro disjI2 exI [of _ "Suc j"]) auto
    qed
  next
    case False
    from IH [of "i + 1" fs pl] show ?thesis
    proof (elim disjE conjE exE)
      assume "lookup_scan (join cs) (i + 1) es fs pl = fs" "\<forall>x \<in> set es. below cs x \<longrightarrow> path_len x < pl"
      then show ?thesis using False step by (intro disjI1) auto
    next
      fix j assume "j < length es" "lookup_scan (join cs) (i + 1) es fs pl = Some (i + 1 + j)" "below cs (es ! j)"
        "pl \<le> path_len (es ! j)" "\<forall>x \<in> set es. below cs x \<longrightarrow> path_len x \<le> path_len (es ! j)"
      then show ?thesis using False step by (intro disjI2 exI [of _ "Suc j"]) auto
    qed
  qed
qed simp

lemma lookup_best:
  assumes t: "fs_inv (fs_table s)" and cs: "plain cs"
  obtains (Nowhere) "dfs_filesystem_lookup (join cs) s = (None, s)" "\<And>i ds. mounted_at (fs_table s) i ds \<Longrightarrow> \<not> prefix ds cs"
  | (Mounted) i ds where "dfs_filesystem_lookup (join cs) s = (Some i, s)" "mounted_at (fs_table s) i ds" "prefix ds cs"
      "\<And>j es. mounted_at (fs_table s) j es \<Longrightarrow> prefix es cs \<Longrightarrow> length es \<le> length ds"
proof -
  let ?t = "fs_table s"
  have l: "dfs_filesystem_lookup (join cs) s = (lookup_scan (join cs) 0 ?t None 0, s)"
    by (simp add: dfs_filesystem_lookup_def Let_def) (simp add: dfs_lock_def)
  have w: "\<And>e. e \<in> set ?t \<Longrightarrow> e = zero_fs \<or> (\<exists>ds. plain ds \<and> fs_path e = Some (join ds))"
    using t by (auto simp: fs_inv_def mounted_at_def in_set_conv_nth)
  have b: "below cs (?t ! j) \<and> ?t ! j \<in> set ?t \<and> path_len (?t ! j) = length (join es)" if "mounted_at ?t j es" "prefix es cs" for j es
    using that by (auto simp: mounted_at_def below_def)
  have "lookup_scan (join cs) 0 ?t None 0 = None \<and> (\<forall>e \<in> set ?t. below cs e \<longrightarrow> path_len e < 0) \<or>
    (\<exists>j < length ?t. lookup_scan (join cs) 0 ?t None 0 = Some (0 + j) \<and> below cs (?t ! j) \<and> 0 \<le> path_len (?t ! j) \<and>
       (\<forall>e \<in> set ?t. below cs e \<longrightarrow> path_len e \<le> path_len (?t ! j)))"
    by (rule lookup_scan_best [OF cs]) (use w in blast)
  then show thesis
  proof (elim disjE conjE exE)
    assume a: "lookup_scan (join cs) 0 ?t None 0 = None" "\<forall>e \<in> set ?t. below cs e \<longrightarrow> path_len e < 0"
    show thesis by (rule Nowhere) (use a b l in fastforce)+
  next
    fix j assume j: "j < length ?t" "lookup_scan (join cs) 0 ?t None 0 = Some (0 + j)" "below cs (?t ! j)"
      "\<forall>e \<in> set ?t. below cs e \<longrightarrow> path_len e \<le> path_len (?t ! j)"
    then obtain ds where m: "mounted_at ?t j ds" "prefix ds cs" by (auto simp: below_def mounted_at_def)
    have "length es \<le> length ds" if "mounted_at ?t k es" "prefix es cs" for k es
      using j(4) b [OF that] b [OF m] prefix_join_length [OF cs that(2) m(2)] by metis
    then show thesis using Mounted [of j ds] l j(2) m by simp
  qed
qed


section \<open>The descriptors\<close>

text \<open>The table with references: \<open>H a\<close> of them are held on the object \<open>a\<close>, one by the descriptor itself and one by every call that is
  at work on it. The objects on the heap are those of the table: nothing is lost, and nothing is used after its release.\<close>

definition slots_differ :: "nat option list \<Rightarrow> bool" where
  "slots_differ xs \<longleftrightarrow> (\<forall>i j. i < length xs \<and> j < length xs \<and> xs ! i = xs ! j \<and> xs ! i \<noteq> None \<longrightarrow> i = j)"

definition fds_inv :: "(nat \<Rightarrow> nat) \<Rightarrow> 's dfs \<Rightarrow> bool" where
  "fds_inv H s \<longleftrightarrow> length (fds s) \<le> DFS_FD_MAX \<and> (\<forall>a. objs s a \<noteq> None \<longleftrightarrow> Some a \<in> set (fds s)) \<and>
     (\<forall>a d. objs s a = Some d \<longrightarrow> fd_magic d = DFS_FD_MAGIC \<and> fd_ref d = int (H a) \<and> 0 < H a \<and> a < next_obj s) \<and>
     slots_differ (fds s)"

text \<open>The object in a place, and what only the descriptor functions change.\<close>

definition slot :: "'s dfs \<Rightarrow> nat \<Rightarrow> nat option" where
  "slot s n = (if n < length (fds s) then fds s ! n else None)"

definition fd_view :: "'s dfs \<Rightarrow> nat \<Rightarrow> dfs_fd option" where
  "fd_view s n = Option.bind (slot s n) (objs s)"

definition fds_frame :: "'s dfs \<Rightarrow> 's dfs \<Rightarrow> bool" where
  "fds_frame s s' \<longleftrightarrow> fs_types s' = fs_types s \<and> fs_table s' = fs_table s \<and> work_dir s' = work_dir s \<and> lock_depth s' = lock_depth s \<and>
     errno s' = errno s \<and> console s' = console s \<and> mem s' = mem s \<and> asked s \<le> asked s' \<and> world s' = world s"

definition fresh_fd :: dfs_fd where
  "fresh_fd = zero_fd\<lparr>fd_ref := 1, fd_magic := DFS_FD_MAGIC\<rparr>"

lemma fds_frame_simps:
  assumes "fds_frame s s'"
  shows "fs_types s' = fs_types s" "fs_table s' = fs_table s" "work_dir s' = work_dir s" "lock_depth s' = lock_depth s" "errno s' = errno s"
    "console s' = console s" "mem s' = mem s" "world s' = world s"
  using assms by (simp_all add: fds_frame_def)

lemma lock_simps [simp]:
  "fds (dfs_lock s) = fds s" "objs (dfs_lock s) = objs s" "next_obj (dfs_lock s) = next_obj s" "asked (dfs_lock s) = asked s"
  "mem (dfs_lock s) = mem s" "fds (dfs_unlock s) = fds s" "objs (dfs_unlock s) = objs s" "next_obj (dfs_unlock s) = next_obj s"
  by (simp_all add: dfs_lock_def dfs_unlock_def)

lemma same_fds:
  assumes "fds s' = fds s" "objs s' = objs s" "next_obj s' = next_obj s"
  shows "slot s' = slot s" "fd_view s' = fd_view s" "fds_inv H s' = fds_inv H s"
proof -
  show sl: "slot s' = slot s" using assms(1) by (simp add: slot_def fun_eq_iff)
  show "fd_view s' = fd_view s" by (rule ext) (simp add: fd_view_def sl assms(2))
  show "fds_inv H s' = fds_inv H s" using assms by (simp add: fds_inv_def)
qed

lemma frame_locked: "fds_frame (dfs_lock s) s2 \<Longrightarrow> fds_frame s (dfs_unlock s2)"
  by (simp add: fds_frame_def dfs_lock_def dfs_unlock_def)

lemma frame_trans: "fds_frame s s1 \<Longrightarrow> fds_frame s1 s2 \<Longrightarrow> fds_frame s s2"
  by (simp add: fds_frame_def)

lemma slot_obj: "fds_inv H s \<Longrightarrow> slot s n = Some a \<Longrightarrow> \<exists>d. objs s a = Some d"
  unfolding fds_inv_def slot_def by (metis (no_types, lifting) not_None_eq nth_mem option.distinct(1))

lemma fds_inj: "fds_inv H s \<Longrightarrow> i < length (fds s) \<Longrightarrow> j < length (fds s) \<Longrightarrow> fds s ! i = fds s ! j \<Longrightarrow> fds s ! i \<noteq> None \<Longrightarrow> i = j"
  unfolding fds_inv_def slots_differ_def by blast

lemma slot_inj: "fds_inv H s \<Longrightarrow> slot s n = Some a \<Longrightarrow> slot s m = Some a \<Longrightarrow> n = m"
  using fds_inj [of H s n m] by (auto simp: slot_def split: if_splits)

lemma slot_bound: "fds_inv H s \<Longrightarrow> slot s n = Some a \<Longrightarrow> n < length (fds s) \<and> n < DFS_FD_MAX"
  unfolding fds_inv_def slot_def by (auto split: if_splits)

lemma obj_slot: "fds_inv H s \<Longrightarrow> objs s a = Some d \<Longrightarrow> \<exists>n. slot s n = Some a"
  unfolding fds_inv_def slot_def by (metis in_set_conv_nth option.distinct(1))

lemma view_None: "fds_inv H s \<Longrightarrow> fd_view s n = None \<longleftrightarrow> slot s n = None"
  using slot_obj [of H s n] by (cases "slot s n") (auto simp: fd_view_def)

lemma find_slot_spec:
  assumes "\<And>a. Some a \<in> set xs \<Longrightarrow> \<exists>d. ob a = Some d \<and> fd_ref d \<noteq> 0"
  shows "\<exists>j \<le> length xs. find_slot ob i xs = Some (i + j) \<and> (\<forall>k < j. xs ! k \<noteq> None) \<and> (j < length xs \<longrightarrow> xs ! j = None)"
  using assms
proof (induction xs arbitrary: i)
  case (Cons x xs)
  show ?case
  proof (cases x)
    case None
    then show ?thesis by (intro exI [of _ 0]) simp
  next
    case (Some a)
    then obtain d where d: "ob a = Some d" "fd_ref d \<noteq> 0" using Cons.prems by auto
    from Cons.IH [of "i + 1"] Cons.prems obtain j where "j \<le> length xs" "find_slot ob (i + 1) xs = Some (i + 1 + j)" "\<forall>k < j. xs ! k \<noteq> None"
      "j < length xs \<longrightarrow> xs ! j = None" by auto
    then show ?thesis using d Some by (intro exI [of _ "Suc j"]) (auto simp: less_Suc_eq_0_disj)
  qed
qed simp

text \<open>The table has grown by empty places, with room for the place that was found, unless the allocator or the limit forbids it.\<close>

lemma fd_grow_spec:
  assumes "fds_inv H s" "idx \<le> length (fds s)" "fd_grow idx s = (ok, s')"
  shows "fds_frame s s' \<and> fds_inv H s' \<and> asked s \<le> asked s' \<and> slot s' = slot s \<and> objs s' = objs s \<and> next_obj s' = next_obj s \<and>
    (if ok then idx < length (fds s') \<or> idx = length (fds s') \<and> idx = DFS_FD_MAX else s' = s\<lparr>asked := asked s + 1\<rparr> \<and> idx = length (fds s) \<and> \<not> mem s (asked s))"
proof (cases "idx = length (fds s) \<and> length (fds s) < DFS_FD_MAX \<and> mem s (asked s)")
  case False
  then show ?thesis using assms by (auto simp: fd_grow_def ask_def fds_frame_def fds_inv_def slot_def split: if_splits)
next
  case True
  define m where "m = min (length (fds s) + 4) DFS_FD_MAX - length (fds s)"
  have s': "ok" "s' = s\<lparr>asked := asked s + 1, fds := fds s @ replicate m None\<rparr>" using True assms(3) by (auto simp: fd_grow_def ask_def m_def)
  have m: "0 < m" "length (fds s) + m \<le> DFS_FD_MAX" using True by (auto simp: m_def)
  have n: "(fds s @ replicate m None) ! i = (if i < length (fds s) then fds s ! i else None)" if "i < length (fds s) + m" for i
    using that by (simp add: nth_append)
  have "slot s' = slot s" using n by (auto simp: slot_def s' fun_eq_iff)
  moreover have "fds_inv H s'"
    unfolding fds_inv_def slots_differ_def
  proof (intro conjI allI impI)
    fix i j assume a: "i < length (fds s') \<and> j < length (fds s') \<and> fds s' ! i = fds s' ! j \<and> fds s' ! i \<noteq> None"
    then have "i < length (fds s)" "j < length (fds s)" using n [of i] n [of j] by (auto simp: s' split: if_splits)
    then show "i = j" using a n by (auto simp: s' intro: fds_inj [OF assms(1)])
  qed (use assms(1) m(2) in \<open>auto simp: fds_inv_def s'\<close>)
  ultimately show ?thesis using s' m True by (simp add: fds_frame_def)
qed

text \<open>A new object in an empty place.\<close>

lemma set_fill: "n < length xs \<Longrightarrow> xs ! n = None \<Longrightarrow> Some a \<in> set (xs[n := Some x]) \<longleftrightarrow> a = x \<or> Some a \<in> set xs"
proof (induction xs arbitrary: n)
  case (Cons y xs)
  then show ?case by (cases n) auto
qed simp

lemma fds_inv_insert:
  assumes "fds_inv H s" "n < length (fds s)" "fds s ! n = None" "s' = s\<lparr>asked := k, fds := (fds s)[n := Some (next_obj s)],
      next_obj := next_obj s + 1, objs := (objs s)(next_obj s \<mapsto> d)\<rparr>" "fd_magic d = DFS_FD_MAGIC" "fd_ref d = 1" "asked s \<le> k"
  shows "fds_inv (H(next_obj s := 1)) s' \<and> fd_view s' = (fd_view s)(n \<mapsto> d) \<and> slot s' = (slot s)(n \<mapsto> next_obj s) \<and> fds_frame s s'"
proof -
  have new: "objs s (next_obj s) = None" using assms(1) by (cases "objs s (next_obj s)") (auto simp: fds_inv_def)
  then have nin: "Some (next_obj s) \<notin> set (fds s)" using assms(1) by (auto simp: fds_inv_def)
  have sl: "slot s' = (slot s)(n \<mapsto> next_obj s)" using assms(2) by (auto simp: slot_def assms(4) fun_eq_iff)
  have ob: "objs s' = (objs s)(next_obj s \<mapsto> d)" by (simp add: assms(4))
  have "fd_view s' m = ((fd_view s)(n \<mapsto> d)) m" for m
  proof (cases "m = n")
    case False
    moreover have "slot s m \<noteq> Some (next_obj s)" using slot_obj [OF assms(1)] new by fastforce
    ultimately show ?thesis by (cases "slot s m") (auto simp: fd_view_def sl ob)
  qed (simp add: fd_view_def sl ob)
  moreover have "fds_inv (H(next_obj s := 1)) s'"
    unfolding fds_inv_def slots_differ_def
  proof (intro conjI allI)
    show "length (fds s') \<le> DFS_FD_MAX" using assms(1,4) by (simp add: fds_inv_def)
  next
    fix a
    have "Some a \<in> set ((fds s)[n := Some (next_obj s)]) \<longleftrightarrow> a = next_obj s \<or> Some a \<in> set (fds s)"
      using set_fill [OF assms(2,3)] .
    then show "objs s' a \<noteq> None \<longleftrightarrow> Some a \<in> set (fds s')" using assms(1) by (auto simp: assms(4) fds_inv_def)
  next
    fix a d'
    show "objs s' a = Some d' \<longrightarrow> fd_magic d' = DFS_FD_MAGIC \<and> fd_ref d' = int ((H(next_obj s := 1)) a) \<and> 0 < (H(next_obj s := 1)) a \<and> a < next_obj s'"
      using assms(1,5,6) by (auto simp: assms(4) fds_inv_def less_Suc_eq)
  next
    fix i j
    have "fds s' ! k = (if k = n then Some (next_obj s) else fds s ! k) \<and> fds s ! k \<noteq> Some (next_obj s)" if "k < length (fds s)" for k
    proof
      show "fds s' ! k = (if k = n then Some (next_obj s) else fds s ! k)" using that by (simp add: assms(4))
      show "fds s ! k \<noteq> Some (next_obj s)" using nin nth_mem [OF that] by metis
    qed
    moreover have "length (fds s') = length (fds s)" by (simp add: assms(4))
    ultimately show "i < length (fds s') \<and> j < length (fds s') \<and> fds s' ! i = fds s' ! j \<and> fds s' ! i \<noteq> None \<longrightarrow> i = j"
      using fds_inj [OF assms(1), of i j] by (metis (no_types, lifting))
  qed
  ultimately show ?thesis using sl assms(7) by (auto simp: fds_frame_def assms(4))
qed


text \<open>An object is changed, or released together with its place.\<close>

lemma fds_inv_update:
  assumes "fds_inv H s" "objs s a = Some d" "fd_magic d' = DFS_FD_MAGIC" "fd_ref d' = int h" "0 < h"
  shows "fds_inv (H(a := h)) (s\<lparr>objs := (objs s)(a \<mapsto> d')\<rparr>)"
    "slot (s\<lparr>objs := (objs s)(a \<mapsto> d')\<rparr>) = slot s"
    "slot s n = Some a \<Longrightarrow> fd_view (s\<lparr>objs := (objs s)(a \<mapsto> d')\<rparr>) = (fd_view s)(n \<mapsto> d')"
proof -
  show sl: "slot (s\<lparr>objs := (objs s)(a \<mapsto> d')\<rparr>) = slot s" by (simp add: slot_def fun_eq_iff)
  show "fds_inv (H(a := h)) (s\<lparr>objs := (objs s)(a \<mapsto> d')\<rparr>)" using assms by (auto simp: fds_inv_def)
  assume n: "slot s n = Some a"
  have "fd_view (s\<lparr>objs := (objs s)(a \<mapsto> d')\<rparr>) m = ((fd_view s)(n \<mapsto> d')) m" for m
    using slot_inj [OF assms(1) n, of m] n by (cases "slot s m") (auto simp: fd_view_def sl)
  then show "fd_view (s\<lparr>objs := (objs s)(a \<mapsto> d')\<rparr>) = (fd_view s)(n \<mapsto> d')" by blast
qed

lemma clear_slot_nth:
  "n < length xs \<Longrightarrow> xs ! n = Some a \<Longrightarrow> (\<And>m. m < n \<Longrightarrow> xs ! m \<noteq> Some a) \<Longrightarrow> clear_slot a xs = (True, xs[n := None])"
proof (induction xs arbitrary: n)
  case (Cons x xs)
  show ?case
  proof (cases n)
    case (Suc m)
    have "x \<noteq> Some a" using Cons.prems(3) [of 0] Suc by simp
    moreover have "clear_slot a xs = (True, xs[m := None])" using Cons.prems Suc by (intro Cons.IH) force+
    ultimately show ?thesis using Suc by simp
  qed (use Cons.prems in simp)
qed simp

lemma fds_inv_clear:
  assumes "fds_inv H s" "slot s n = Some a" and s': "s' = s\<lparr>objs := (objs s)(a := None), fds := (fds s)[n := None]\<rparr>"
  shows "clear_slot a (fds s) = (True, (fds s)[n := None])" "fds_inv H s'" "fd_view s' = (fd_view s)(n := None)" "slot s' = (slot s)(n := None)"
proof -
  have n: "n < length (fds s)" "fds s ! n = Some a" using assms(2) by (auto simp: slot_def split: if_splits)
  have first: "fds s ! m \<noteq> Some a" if "m < length (fds s)" "m \<noteq> n" for m
    using slot_inj [OF assms(1,2), of m] that by (auto simp: slot_def)
  then show "clear_slot a (fds s) = (True, (fds s)[n := None])" using n by (intro clear_slot_nth) auto
  show sl: "slot s' = (slot s)(n := None)" using n by (auto simp: slot_def s' fun_eq_iff)
  have "fd_view s' m = ((fd_view s)(n := None)) m" for m
    using slot_inj [OF assms(1,2), of m] by (cases "slot s m") (auto simp: fd_view_def sl, auto simp: s')
  then show "fd_view s' = (fd_view s)(n := None)" by blast
  show "fds_inv H s'"
    unfolding fds_inv_def slots_differ_def
  proof (intro conjI allI)
    show "length (fds s') \<le> DFS_FD_MAX" using assms(1) by (simp add: s' fds_inv_def)
  next
    fix b
    have "Some b \<in> set (fds s') \<longleftrightarrow> b \<noteq> a \<and> Some b \<in> set (fds s)"
      using first n by (auto simp: s' in_set_conv_nth nth_list_update) (metis option.distinct(1) option.inject)+
    then show "objs s' b \<noteq> None \<longleftrightarrow> Some b \<in> set (fds s')" using assms(1) by (auto simp: s' fds_inv_def)
  next
    fix b d
    show "objs s' b = Some d \<longrightarrow> fd_magic d = DFS_FD_MAGIC \<and> fd_ref d = int (H b) \<and> 0 < H b \<and> b < next_obj s'"
      using assms(1) by (auto simp: s' fds_inv_def)
  next
    fix i j
    have "fds s' ! k = (if k = n then None else fds s ! k)" if "k < length (fds s)" for k using that by (simp add: s')
    moreover have "length (fds s') = length (fds s)" by (simp add: s')
    ultimately show "i < length (fds s') \<and> j < length (fds s') \<and> fds s' ! i = fds s' ! j \<and> fds s' ! i \<noteq> None \<longrightarrow> i = j"
      using fds_inj [OF assms(1), of i j] by (metis (no_types, lifting))
  qed
qed

text \<open>The three operations. A new descriptor is the smallest free one; without one the table is as before, and either the allocator
  failed or all 16 are in use.\<close>

lemma fd_new_spec:
  assumes "fds_inv H s"
  obtains (Fail) s' where "fd_new s = Some (- 1, s')" "fds_frame s s'" "fds_inv H s'" "slot s' = slot s" "fd_view s' = fd_view s"
      "(\<forall>n < DFS_FD_MAX. fd_view s n \<noteq> None) \<or> (\<exists>k \<ge> asked s. \<not> mem s k)"
  | (New) s' n where "fd_new s = Some (int n + DFS_FD_OFFSET, s')" "fds_frame s s'" "n < DFS_FD_MAX" "fd_view s n = None"
      "\<forall>m < n. fd_view s m \<noteq> None" "fds_inv (H(next_obj s := 1)) s'" "fd_view s' = (fd_view s)(n \<mapsto> fresh_fd)" "slot s' = (slot s)(n \<mapsto> next_obj s)"
proof -
  have live: "\<exists>d. objs s a = Some d \<and> fd_ref d \<noteq> 0" if "Some a \<in> set (fds s)" for a
    using assms that unfolding fds_inv_def by (metis (no_types, lifting) less_numeral_extra(3) not_Some_eq of_nat_0_eq_iff)
  from find_slot_spec [of "fds s" "objs s" 0] live obtain idx where
    i: "idx \<le> length (fds s)" "find_slot (objs s) 0 (fds s) = Some idx" "\<forall>k < idx. fds s ! k \<noteq> None" "idx < length (fds s) \<longrightarrow> fds s ! idx = None"
    by auto
  obtain ok s1 where g: "fd_grow idx (dfs_lock s) = (ok, s1)" by fastforce
  have ls: "fds_inv H (dfs_lock s)" "fds (dfs_lock s) = fds s" "slot (dfs_lock s) = slot s" "objs (dfs_lock s) = objs s" "next_obj (dfs_lock s) = next_obj s"
      "asked (dfs_lock s) = asked s" "mem (dfs_lock s) = mem s"
    using assms same_fds [of "dfs_lock s" s] by simp_all
  note gs = fd_grow_spec [OF ls(1) _ g, unfolded ls(2-7)]
  have full: "fd_view s m \<noteq> None" if "m < idx" for m
    using i(1,3) that view_None [OF assms, of m] by (simp add: slot_def)
  have keep: "fd_view (dfs_unlock s2) = fd_view s \<and> slot (dfs_unlock s2) = slot s \<and> fds_frame s (dfs_unlock s2) \<and> fds_inv H (dfs_unlock s2)"
    if "s2 = s1\<lparr>asked := k\<rparr>" "asked s1 \<le> k" for s2 k
  proof -
    have "slot s1 = slot s" "objs s1 = objs s" using gs i(1) by blast+
    then have "fd_view s1 = fd_view s" by (intro ext) (simp add: fd_view_def)
    moreover have "fds_frame (dfs_lock s) s2" using gs i(1) that by (simp add: fds_frame_def)
    ultimately show ?thesis using gs i(1) same_fds [of "dfs_unlock s2" s1] frame_locked [of s s2] that by simp
  qed
  consider (NoTable) "\<not> ok" | (Max) "ok" "idx = length (fds s1)" "idx = DFS_FD_MAX" | (Place) "ok" "idx < length (fds s1)"
    using gs i(1) by (auto split: if_splits)
  then show thesis
  proof cases
    case NoTable
    then have "fd_new s = Some (- 1, dfs_unlock s1)" using gs i(1,2) g ls by (simp add: fd_new_def fd_alloc_def)
    moreover have "\<not> mem s (asked s)" using NoTable gs i(1) by simp
    ultimately show thesis using Fail [of "dfs_unlock s1"] keep [of s1 "asked s1"] by auto
  next
    case Max
    then have "fd_new s = Some (- 1, dfs_unlock s1)" using i(2) g ls by (simp add: fd_new_def fd_alloc_def)
    then show thesis using Fail [of "dfs_unlock s1"] keep [of s1 "asked s1"] full Max(3) by auto
  next
    case Place
    have e: "slot s idx = None" using i(4) by (simp add: slot_def)
    then have e1: "fds s1 ! idx = None" using gs i(1) Place(2) by (metis slot_def)
    have n: "idx < DFS_FD_MAX" using gs i(1) Place(2) by (auto simp: fds_inv_def)
    show thesis
    proof (cases "mem s1 (asked s1)")
      case False
      then have "fd_new s = Some (- 1, dfs_unlock (s1\<lparr>asked := asked s1 + 1\<rparr>))"
        using i(2) g ls e1 Place by (simp add: fd_new_def fd_alloc_def ask_def)
      moreover have "mem s1 = mem s" "asked s \<le> asked s1" using gs i(1) fds_frame_simps(7) [of "dfs_lock s" s1] ls by auto
      ultimately show thesis using Fail [of "dfs_unlock (s1\<lparr>asked := asked s1 + 1\<rparr>)"] keep [of "s1\<lparr>asked := asked s1 + 1\<rparr>"] False by auto
    next
      case True
      define s2 where "s2 = s1\<lparr>asked := asked s1 + 1, fds := (fds s1)[idx := Some (next_obj s1)], next_obj := next_obj s1 + 1, objs := (objs s1)(next_obj s1 \<mapsto> fresh_fd)\<rparr>"
      have "fd_new s = Some (int idx + DFS_FD_OFFSET, dfs_unlock s2)"
        using i(2) g ls e1 Place True by (simp add: fd_new_def fd_alloc_def ask_def s2_def fresh_fd_def)
      moreover have "fds_inv (H(next_obj s1 := 1)) s2 \<and> fd_view s2 = (fd_view s1)(idx \<mapsto> fresh_fd) \<and> slot s2 = (slot s1)(idx \<mapsto> next_obj s1) \<and> fds_frame s1 s2"
        using gs i(1) e1 by (intro fds_inv_insert [OF _ Place(2) _ s2_def]) (simp_all add: fresh_fd_def zero_fd_def)
      then have "fds_inv (H(next_obj s := 1)) (dfs_unlock s2) \<and> fd_view (dfs_unlock s2) = (fd_view s)(idx \<mapsto> fresh_fd) \<and>
          slot (dfs_unlock s2) = (slot s)(idx \<mapsto> next_obj s) \<and> fds_frame s (dfs_unlock s2)"
        using gs i(1) same_fds [of "dfs_unlock s2" s2] frame_locked [OF frame_trans [of "dfs_lock s" s1 s2]]
          keep [of s1 "asked s1"] same_fds [of "dfs_unlock s1" s1] by simp
      ultimately show thesis using New [of idx "dfs_unlock s2"] n full e view_None [OF assms] by metis
    qed
  qed
qed

lemma fd_get_spec:
  assumes inv: "fds_inv H s" and fd: "fd1 = (if 0 \<le> fd \<and> fd \<le> 2 then console s else fd) - DFS_FD_OFFSET"
  obtains (Bad) "fd_get fd s = Some (None, s)" "fd1 < 0 \<or> fd_view s (nat fd1) = None"
  | (Got) a d s' where "fd_get fd s = Some (Some a, s')" "0 \<le> fd1" "slot s (nat fd1) = Some a" "objs s a = Some d" "fd_view s (nat fd1) = Some d"
      "s' = s\<lparr>objs := (objs s)(a \<mapsto> d\<lparr>fd_ref := fd_ref d + 1\<rparr>)\<rparr>" "fds_inv (H(a := H a + 1)) s'"
proof (cases "0 \<le> fd1 \<and> slot s (nat fd1) \<noteq> None")
  case False
  then have "fd_get fd s = Some (None, s)" using fd by (auto simp: fd_get_def Let_def slot_def dfs_lock_def dfs_unlock_def split: if_splits)
  then show ?thesis using Bad False view_None [OF inv] by force
next
  case True
  then obtain a where a: "slot s (nat fd1) = Some a" by blast
  from slot_obj [OF inv a] obtain d where d: "objs s a = Some d" by blast
  have m: "fd_magic d = DFS_FD_MAGIC" "fd_ref d = int (H a)" using inv d by (auto simp: fds_inv_def)
  define s' where "s' = s\<lparr>objs := (objs s)(a \<mapsto> d\<lparr>fd_ref := fd_ref d + 1\<rparr>)\<rparr>"
  have "nat fd1 < length (fds s)" "fds s ! nat fd1 = Some a" using a by (auto simp: slot_def split: if_splits)
  then have "fd_get fd s = Some (Some a, s')"
    using True d m fd by (auto simp: fd_get_def Let_def dfs_lock_def dfs_unlock_def s'_def)
  moreover have "fds_inv (H(a := H a + 1)) s'" unfolding s'_def by (rule fds_inv_update [OF inv d]) (simp_all add: m)
  ultimately show ?thesis using Got [of a s' d] True a d by (simp add: s'_def fd_view_def)
qed

lemma fd_put_spec:
  assumes inv: "fds_inv H s" and a: "slot s n = Some a" "objs s a = Some d"
  obtains (Kept) s' where "fd_put a s = Some s'" "1 < H a" "s' = s\<lparr>objs := (objs s)(a \<mapsto> d\<lparr>fd_ref := fd_ref d - 1\<rparr>)\<rparr>" "fds_inv (H(a := H a - 1)) s'"
  | (Freed) s' where "fd_put a s = Some s'" "H a = 1" "fds_inv H s'" "fds_frame s s'" "fd_view s' = (fd_view s)(n := None)" "slot s' = (slot s)(n := None)"
proof -
  have h: "fd_magic d = DFS_FD_MAGIC" "fd_ref d = int (H a)" "0 < H a" using inv a(2) by (auto simp: fds_inv_def)
  show thesis
  proof (cases "H a = 1")
    case True
    define s' where "s' = s\<lparr>objs := (objs s)(a := None), fds := (fds s)[n := None]\<rparr>"
    note c = fds_inv_clear [OF inv a(1) s'_def]
    have "fd_put a s = Some s'"
      using a(2) h True c(1) by (simp add: fd_put_def dfs_lock_def dfs_unlock_def s'_def)
    moreover have "fds_frame s s'" by (simp add: fds_frame_def s'_def)
    ultimately show thesis using Freed [of s'] True c(2-4) by blast
  next
    case False
    define s' where "s' = s\<lparr>objs := (objs s)(a \<mapsto> d\<lparr>fd_ref := fd_ref d - 1\<rparr>)\<rparr>"
    have "fd_put a s = Some s'" using a(2) h False by (simp add: fd_put_def dfs_lock_def dfs_unlock_def s'_def)
    moreover have "fds_inv (H(a := H a - 1)) s'"
      unfolding s'_def by (rule fds_inv_update [OF inv a(2)]) (use h False in auto)
    ultimately show thesis using Kept [of s'] False h(3) s'_def by simp
  qed
qed

section \<open>Correctness of the lookup\<close>

text \<open>C15: a path belongs to the file system that is mounted deepest above it. On a path in normal form \<open>dfs_filesystem_lookup\<close> finds the
  entry whose mount point is the longest one of which the names are the first names of the path: "/sdcard/a" is on "/sdcard" and
  not on "/", "/sdcards" is not on "/sdcard". It finds no entry exactly when there is none, and it changes nothing, the lock included.\<close>

theorem lookup_longest:
  assumes "fs_inv (fs_table s)" "plain cs"
  shows "\<exists>r. dfs_filesystem_lookup (join cs) s = (r, s) \<and>
    (case r of
       None \<Rightarrow> \<forall>i ds. mounted_at (fs_table s) i ds \<longrightarrow> \<not> prefix ds cs
     | Some i \<Rightarrow> \<exists>ds. mounted_at (fs_table s) i ds \<and> prefix ds cs \<and>
         (\<forall>j es. mounted_at (fs_table s) j es \<and> prefix es cs \<and> length ds \<le> length es \<longrightarrow> j = i))"
  using assms
proof (cases rule: lookup_best)
  case Nowhere
  then show ?thesis by simp
next
  case (Mounted i ds)
  have "j = i" if m: "mounted_at (fs_table s) j es" "prefix es cs" "length ds \<le> length es" for j es
  proof -
    have "length es = length ds" using Mounted(4) [OF m(1,2)] m(3) by simp
    then have "es = ds" using m(2) Mounted(3) by (auto simp: prefix_def append_eq_append_conv)
    then show ?thesis using assms(1) m(1) Mounted(2) unfolding fs_inv_def by blast
  qed
  then have "\<exists>ds. mounted_at (fs_table s) i ds \<and> prefix ds cs \<and>
      (\<forall>j es. mounted_at (fs_table s) j es \<and> prefix es cs \<and> length ds \<le> length es \<longrightarrow> j = i)"
    using Mounted(2,3) by blast
  with Mounted(1) show ?thesis by simp
qed

text \<open>The tables of this system: "/" and "/sdcard" are mounted.\<close>

definition two_mounts :: "dfs_filesystem list" where
  "two_mounts = [zero_fs\<lparr>fs_path := Some (join []), fs_ops := Some 0\<rparr>,
     zero_fs\<lparr>fs_path := Some (join [[115, 100]]), fs_ops := Some 1\<rparr>, zero_fs, zero_fs]"

definition idle_dfs :: "unit dfs" where
  "idle_dfs = \<lparr>fs_types = [Some 0, Some 1, None, None], fs_table = two_mounts, fds = [], objs = (\<lambda>a. None), next_obj = 0,
     work_dir = [SLASH], lock_depth = 0, errno = 0, console = - 1, mem = (\<lambda>k. True), asked = 0, world = ()\<rparr>"

lemma two_mounts_at: "mounted_at two_mounts i ds \<longleftrightarrow> i = 0 \<and> ds = [] \<or> i = 1 \<and> ds = [[115, 100]]"
proof -
  have p: "plain []" "plain [[115, 100]]" by (simp_all add: plain_def name_ok_def)
  have "i < 4 \<longleftrightarrow> i = 0 \<or> i = 1 \<or> i = 2 \<or> i = 3" by auto
  then show ?thesis
    using join_inject [OF p(1), of ds] join_inject [OF p(2), of ds] p
    by (auto simp: mounted_at_def two_mounts_def zero_fs_def simp del: join.simps)
qed

lemma two_mounts_inv: "fs_inv two_mounts"
  unfolding fs_inv_def two_mounts_at
proof (intro conjI allI impI)
  fix i assume "i < length two_mounts"
  then have "i = 0 \<or> i = 1 \<or> i = 2 \<or> i = 3" by (auto simp: two_mounts_def)
  then show "two_mounts ! i = zero_fs \<or> (\<exists>ds. i = 0 \<and> ds = [] \<or> i = 1 \<and> ds = [[115, 100]])" by (auto simp: two_mounts_def)
qed (auto simp: two_mounts_def)

lemma lookup_longest_witness: "fst (dfs_filesystem_lookup (join [[115, 100], [97]]) idle_dfs) = Some 1"
proof -
  have "fs_inv (fs_table idle_dfs)" "plain [[115, 100], [97]]" using two_mounts_inv by (simp_all add: idle_dfs_def plain_def name_ok_def)
  note l = lookup_longest [OF this]
  have t: "fs_table idle_dfs = two_mounts" by (simp add: idle_dfs_def)
  from l obtain r where r: "dfs_filesystem_lookup (join [[115, 100], [97]]) idle_dfs = (r, idle_dfs)"
    "case r of None \<Rightarrow> \<forall>i ds. mounted_at two_mounts i ds \<longrightarrow> \<not> prefix ds [[115, 100], [97]]
     | Some i \<Rightarrow> \<exists>ds. mounted_at two_mounts i ds \<and> prefix ds [[115, 100], [97]] \<and>
         (\<forall>j es. mounted_at two_mounts j es \<and> prefix es [[115, 100], [97]] \<and> length ds \<le> length es \<longrightarrow> j = i)"
    unfolding t by blast
  have "r = Some 1"
  proof (cases r)
    case None
    note n = r(2) [unfolded None option.case, rule_format, of 0 "[]"]
    then show ?thesis using two_mounts_at [of 0 "[]"] by simp
  next
    case (Some i)
    from r(2) [unfolded Some option.case] obtain ds where d: "mounted_at two_mounts i ds"
      "\<forall>j es. mounted_at two_mounts j es \<and> prefix es [[115, 100], [97]] \<and> length ds \<le> length es \<longrightarrow> j = i" by blast
    have "length ds \<le> 1" using d(1) by (auto simp: two_mounts_at)
    then have "1 = i" using d(2) [rule_format, of 1 "[[115, 100]]"] two_mounts_at [of 1 "[[115, 100]]"] by simp
    then show ?thesis using Some by simp
  qed
  then show ?thesis using r(1) by simp
qed

end
