(* ===== verification/DfsFile.thy ===== *)
theory DfsFile
  imports DfsFs
begin

text \<open>
  Files, \<^verbatim>\<open>rt-thread/components/dfs/src/dfs_file.c\<close>. The operations get the descriptor as a value and give it back; the callers put it
  back in its object, or drop it when it is on the stack.
\<close>

section \<open>The code\<close>

abbreviation O_CREAT :: u32 where "O_CREAT \<equiv> 0x40"
abbreviation O_APPEND :: u32 where "O_APPEND \<equiv> 0x400"
abbreviation O_NONBLOCK :: u32 where "O_NONBLOCK \<equiv> 0x800"
abbreviation O_DIRECTORY :: u32 where "O_DIRECTORY \<equiv> 0x10000"
abbreviation F_GETFL :: int where "F_GETFL \<equiv> 3"
abbreviation F_SETFL :: int where "F_SETFL \<equiv> 4"
abbreviation RT_FIOFTRUNCATE :: int where "RT_FIOFTRUNCATE \<equiv> 0x52540000"

text \<open>A call of a driver's operation on the descriptor.\<close>

definition call_op :: "('r, 's) file_op \<Rightarrow> dfs_fd \<Rightarrow> 's dfs \<Rightarrow> ('r \<times> dfs_fd \<times> 's dfs) option" where
  "call_op f d s = map_option (\<lambda>(r, d', w). (r, d', s\<lparr>world := w\<rparr>)) (f (fs_table s) (world s) d)"

text \<open>\<open>fd->fops->op\<close>: the pointer to the table has to be there, the operation does not.\<close>

definition fops :: "'s drivers \<Rightarrow> dfs_fd \<Rightarrow> 's dfs_file_ops option" where
  "fops E d = map_option (fops_at E) (fd_fops d)"

definition dfs_file_open :: "'s drivers \<Rightarrow> u8 list \<Rightarrow> u32 \<Rightarrow> dfs_fd \<Rightarrow> 's dfs \<Rightarrow> (int \<times> dfs_fd \<times> 's dfs) option" where
  "dfs_file_open E path flags d s = do {
     (full, s1) \<leftarrow> full_path path s;
     case full of
       None \<Rightarrow> Some (- ENOMEM, d, s1)
     | Some fullpath \<Rightarrow>
         (case dfs_filesystem_lookup fullpath s1 of
            (None, s2) \<Rightarrow> Some (- ENOENT, d, s2)
          | (Some i, s2) \<Rightarrow> do {
              t \<leftarrow> fs_ops (fs_table s2 ! i);
              p \<leftarrow> fs_path (fs_table s2 ! i);
              let ops = ops_at E t;
              let d1 = d\<lparr>fd_fs := Some i, fd_fops := Some (ops_fops ops), fd_type := FT_REGULAR, fd_flags := flags, fd_size := 0,
                fd_pos := 0, fd_data := FsEntry i\<rparr>;
              sub \<leftarrow> dfs_subdir p fullpath;
              let (path1, s3) = (if ops_flags ops AND DFS_FS_FLAG_FULLPATH = 0
                 then case ask s2 of (ok, s3) \<Rightarrow> (if ok then Some (case sub of None \<Rightarrow> [SLASH] | Some q \<Rightarrow> q) else None, s3)
                 else (Some fullpath, s2));
              let d2 = d1\<lparr>fd_path := path1\<rparr>;
              case op_open (fops_at E (ops_fops ops)) of
                None \<Rightarrow> Some (- ENOSYS, d2\<lparr>fd_path := None\<rparr>, s3)
              | Some f \<Rightarrow> do {
                  (result, d3, s4) \<leftarrow> call_op f d2 s3;
                  if result < 0 then Some (result, d3\<lparr>fd_path := None\<rparr>, s4)
                  else if flags AND O_DIRECTORY \<noteq> 0
                  then Some (0, d3\<lparr>fd_flags := fd_flags d3 OR DFS_F_OPEN OR DFS_F_DIRECTORY, fd_type := FT_DIRECTORY\<rparr>, s4)
                  else Some (0, d3\<lparr>fd_flags := fd_flags d3 OR DFS_F_OPEN\<rparr>, s4)
                }
            })
   }"

definition dfs_file_close :: "'s drivers \<Rightarrow> dfs_fd \<Rightarrow> 's dfs \<Rightarrow> (int \<times> dfs_fd \<times> 's dfs) option" where
  "dfs_file_close E d s = do {
     ops \<leftarrow> fops E d;
     (result, d1, s1) \<leftarrow> (case op_close ops of None \<Rightarrow> Some (0, d, s) | Some f \<Rightarrow> call_op f d s);
     if result < 0 then Some (result, d1, s1) else Some (result, d1\<lparr>fd_path := None\<rparr>, s1)
   }"

definition dfs_file_ioctl :: "'s drivers \<Rightarrow> int \<Rightarrow> int \<Rightarrow> dfs_fd \<Rightarrow> 's dfs \<Rightarrow> (int \<times> dfs_fd \<times> 's dfs) option" where
  "dfs_file_ioctl E cmd args d s =
    (if fd_type d = FT_REGULAR \<and> cmd = F_GETFL then Some (sint (fd_flags d), d, s)
     else if fd_type d = FT_REGULAR \<and> cmd = F_SETFL
     then let mask = O_NONBLOCK OR O_APPEND
          in Some (0, d\<lparr>fd_flags := (fd_flags d AND NOT mask) OR (of_int args AND mask)\<rparr>, s)
     else do {
       ops \<leftarrow> fops E d;
       case op_ioctl ops of None \<Rightarrow> Some (- ENOSYS, d, s) | Some f \<Rightarrow> call_op (f cmd args) d s
     })"

definition dfs_file_read :: "'s drivers \<Rightarrow> nat \<Rightarrow> dfs_fd \<Rightarrow> 's dfs \<Rightarrow> ((int \<times> u8 list) \<times> dfs_fd \<times> 's dfs) option" where
  "dfs_file_read E len d s = do {
     ops \<leftarrow> fops E d;
     case op_read ops of
       None \<Rightarrow> Some ((- ENOSYS, []), d, s)
     | Some f \<Rightarrow> do {
         ((result, buf), d1, s1) \<leftarrow> call_op (f len) d s;
         Some ((result, buf), (if result < 0 then d1\<lparr>fd_flags := fd_flags d1 OR DFS_F_EOF\<rparr> else d1), s1)
       }
   }"

definition dfs_file_getdents :: "'s drivers \<Rightarrow> nat \<Rightarrow> dfs_fd \<Rightarrow> 's dfs \<Rightarrow> ((int \<times> u8 list) \<times> dfs_fd \<times> 's dfs) option" where
  "dfs_file_getdents E nbytes d s =
    (if fd_type d \<noteq> FT_DIRECTORY then Some ((- EINVAL, []), d, s)
     else do {
       ops \<leftarrow> fops E d;
       case op_getdents ops of None \<Rightarrow> Some ((- ENOSYS, []), d, s) | Some f \<Rightarrow> call_op (f nbytes) d s
     })"

definition dfs_file_write :: "'s drivers \<Rightarrow> u8 list \<Rightarrow> dfs_fd \<Rightarrow> 's dfs \<Rightarrow> (int \<times> dfs_fd \<times> 's dfs) option" where
  "dfs_file_write E buf d s = do {
     ops \<leftarrow> fops E d;
     case op_write ops of None \<Rightarrow> Some (- ENOSYS, d, s) | Some f \<Rightarrow> call_op (f buf) d s
   }"

definition dfs_file_flush :: "'s drivers \<Rightarrow> dfs_fd \<Rightarrow> 's dfs \<Rightarrow> (int \<times> dfs_fd \<times> 's dfs) option" where
  "dfs_file_flush E d s = do {
     ops \<leftarrow> fops E d;
     case op_flush ops of None \<Rightarrow> Some (- ENOSYS, d, s) | Some f \<Rightarrow> call_op f d s
   }"

definition dfs_file_lseek :: "'s drivers \<Rightarrow> int \<Rightarrow> dfs_fd \<Rightarrow> 's dfs \<Rightarrow> (int \<times> dfs_fd \<times> 's dfs) option" where
  "dfs_file_lseek E offset d s = do {
     ops \<leftarrow> fops E d;
     case op_lseek ops of
       None \<Rightarrow> Some (- ENOSYS, d, s)
     | Some f \<Rightarrow> do {
         (result, d1, s1) \<leftarrow> call_op (f offset) d s;
         Some (result, (if 0 \<le> result then d1\<lparr>fd_pos := result\<rparr> else d1), s1)
       }
   }"

definition dfs_file_ftruncate :: "'s drivers \<Rightarrow> int \<Rightarrow> dfs_fd \<Rightarrow> 's dfs \<Rightarrow> (int \<times> dfs_fd \<times> 's dfs) option" where
  "dfs_file_ftruncate E len d s =
    (if fd_type d \<noteq> FT_REGULAR \<or> len < 0 then Some (- EINVAL, d, s)
     else do {
       ops \<leftarrow> fops E d;
       case op_ioctl ops of
         None \<Rightarrow> Some (- ENOSYS, d, s)
       | Some f \<Rightarrow> do {
           (result, d1, s1) \<leftarrow> call_op (f RT_FIOFTRUNCATE len) d s;
           Some (result, (if result = 0 then d1\<lparr>fd_size := of_int len\<rparr> else d1), s1)
         }
     })"

text \<open>The path that a file system gets: the whole one, or the one below its mount point.\<close>

definition unlink_path :: "'s dfs_filesystem_ops \<Rightarrow> u8 list \<Rightarrow> u8 list \<Rightarrow> u8 list option" where
  "unlink_path ops p fullpath =
    (if ops_flags ops AND DFS_FS_FLAG_FULLPATH = 0
     then map_option (\<lambda>sub. case sub of None \<Rightarrow> [SLASH] | Some q \<Rightarrow> q) (dfs_subdir p fullpath)
     else Some fullpath)"

definition dfs_file_unlink :: "'s drivers \<Rightarrow> u8 list \<Rightarrow> 's dfs \<Rightarrow> (int \<times> 's dfs) option" where
  "dfs_file_unlink E path s = do {
     (full, s1) \<leftarrow> full_path path s;
     case full of
       None \<Rightarrow> Some (- EINVAL, s1)
     | Some fullpath \<Rightarrow>
         (case dfs_filesystem_lookup fullpath s1 of
            (None, s2) \<Rightarrow> Some (- ENOENT, s2)
          | (Some i, s2) \<Rightarrow> do {
              (open, s3) \<leftarrow> fd_is_open fullpath s2;
              if open = 0 then Some (- EBUSY, s3)
              else do {
                t \<leftarrow> fs_ops (fs_table s3 ! i);
                case ops_unlink (ops_at E t) of
                  None \<Rightarrow> Some (- ENOSYS, s3)
                | Some f \<Rightarrow> do {
                    p \<leftarrow> fs_path (fs_table s3 ! i);
                    q \<leftarrow> unlink_path (ops_at E t) p fullpath;
                    case f (world s3) (fs_table s3 ! i) q of (result, w) \<Rightarrow> Some (result, s3\<lparr>world := w\<rparr>)
                  }
              }
            })
   }"

definition root_stat :: file_stat where
  "root_stat = \<lparr>st_mode = 0x41ff, st_size = 0\<rparr>"

definition dfs_file_stat :: "'s drivers \<Rightarrow> u8 list \<Rightarrow> 's dfs \<Rightarrow> ((int \<times> file_stat option) \<times> 's dfs) option" where
  "dfs_file_stat E path s = do {
     (full, s1) \<leftarrow> full_path path s;
     case full of
       None \<Rightarrow> Some ((- 1, None), s1)
     | Some fullpath \<Rightarrow>
         (case dfs_filesystem_lookup fullpath s1 of
            (None, s2) \<Rightarrow> Some ((- ENOENT, None), s2)
          | (Some i, s2) \<Rightarrow> do {
              p \<leftarrow> fs_path (fs_table s2 ! i);
              sub \<leftarrow> (if fullpath = [SLASH] then Some None else dfs_subdir p fullpath);
              case sub of
                None \<Rightarrow> Some ((0, Some root_stat), s2)
              | Some q \<Rightarrow> do {
                  t \<leftarrow> fs_ops (fs_table s2 ! i);
                  case ops_stat (ops_at E t) of
                    None \<Rightarrow> Some ((- ENOSYS, None), s2)
                  | Some f \<Rightarrow> do {
                      ((result, st), w) \<leftarrow> f (world s2) (fs_table s2 ! i) (if ops_flags (ops_at E t) AND DFS_FS_FLAG_FULLPATH \<noteq> 0 then fullpath else q);
                      Some ((result, st), s2\<lparr>world := w\<rparr>)
                    }
                }
            })
   }"

text \<open>\<open>dfs_file_rename\<close>: two lookups that fail give the same \<open>NULL\<close>, which is then used.\<close>

definition dfs_file_rename :: "'s drivers \<Rightarrow> u8 list \<Rightarrow> u8 list \<Rightarrow> 's dfs \<Rightarrow> (int \<times> 's dfs) option" where
  "dfs_file_rename E oldpath newpath s = do {
     (old, s1) \<leftarrow> full_path oldpath s;
     case old of
       None \<Rightarrow> Some (- ENOENT, s1)
     | Some oldfull \<Rightarrow> do {
         (new, s2) \<leftarrow> full_path newpath s1;
         case new of
           None \<Rightarrow> Some (- ENOENT, s2)
         | Some newfull \<Rightarrow> do {
             let (oldfs, s3) = dfs_filesystem_lookup oldfull s2;
             let (newfs, s4) = dfs_filesystem_lookup newfull s3;
             if oldfs \<noteq> newfs then Some (- EXDEV, s4)
             else do {
               i \<leftarrow> oldfs;
               t \<leftarrow> fs_ops (fs_table s4 ! i);
               case ops_rename (ops_at E t) of
                 None \<Rightarrow> Some (- ENOSYS, s4)
               | Some f \<Rightarrow> do {
                   p \<leftarrow> fs_path (fs_table s4 ! i);
                   oldsub \<leftarrow> dfs_subdir p oldfull;
                   newsub \<leftarrow> dfs_subdir p newfull;
                   case (if ops_flags (ops_at E t) AND DFS_FS_FLAG_FULLPATH \<noteq> 0
                         then f (world s4) (fs_table s4 ! i) (Some oldfull) (Some newfull)
                         else f (world s4) (fs_table s4 ! i) oldsub newsub)
                   of (result, w) \<Rightarrow> Some (result, s4\<lparr>world := w\<rparr>)
                 }
             }
           }
       }
   }"


section \<open>What the operations keep\<close>

text \<open>The contract of a driver: its operations leave the magic number, the count of references and the path of a descriptor alone,
  and the descriptor always has a table of operations.\<close>

definition fd_kept :: "dfs_fd \<Rightarrow> dfs_fd \<Rightarrow> bool" where
  "fd_kept d d' \<longleftrightarrow> fd_magic d' = fd_magic d \<and> fd_ref d' = fd_ref d \<and> fd_path d' = fd_path d \<and> (fd_fops d \<noteq> None \<longrightarrow> fd_fops d' \<noteq> None)"

definition op_keeps :: "('r, 's) file_op \<Rightarrow> bool" where
  "op_keeps f \<longleftrightarrow> (\<forall>t w d r d' w'. f t w d = Some (r, d', w') \<longrightarrow> fd_kept d d')"

definition fops_ok :: "'s dfs_file_ops \<Rightarrow> bool" where
  "fops_ok o1 \<longleftrightarrow> (\<forall>f. op_open o1 = Some f \<longrightarrow> op_keeps f) \<and> (\<forall>f. op_close o1 = Some f \<longrightarrow> op_keeps f) \<and>
     (\<forall>f c a. op_ioctl o1 = Some f \<longrightarrow> op_keeps (f c a)) \<and> (\<forall>f n. op_read o1 = Some f \<longrightarrow> op_keeps (f n)) \<and>
     (\<forall>f b. op_write o1 = Some f \<longrightarrow> op_keeps (f b)) \<and> (\<forall>f. op_flush o1 = Some f \<longrightarrow> op_keeps f) \<and>
     (\<forall>f n. op_lseek o1 = Some f \<longrightarrow> op_keeps (f n)) \<and> (\<forall>f n. op_getdents o1 = Some f \<longrightarrow> op_keeps (f n))"

definition drivers_ok :: "'s drivers \<Rightarrow> bool" where
  "drivers_ok E \<longleftrightarrow> (\<forall>n. fops_ok (fops_at E n))"

text \<open>An operation on a descriptor that changes of the system the drivers' state only, and does not look at the objects.\<close>

type_synonym ('r, 's) fd_fun = "dfs_fd \<Rightarrow> 's dfs \<Rightarrow> ('r \<times> dfs_fd \<times> 's dfs) option"

definition fun_keeps :: "('r, 's) fd_fun \<Rightarrow> bool" where
  "fun_keeps f \<longleftrightarrow> (\<forall>d s r d' s'. f d s = Some (r, d', s') \<longrightarrow> fd_kept d d' \<and> s' = s\<lparr>world := world s'\<rparr>)"

definition fun_local :: "('r, 's) fd_fun \<Rightarrow> bool" where
  "fun_local f \<longleftrightarrow> (\<forall>d s ob. f d (s\<lparr>objs := ob\<rparr>) = map_option (\<lambda>(r, d', s'). (r, d', s'\<lparr>objs := ob\<rparr>)) (f d s))"

lemma fd_kept_refl [simp]: "fd_kept d d"
  by (simp add: fd_kept_def)

lemma fd_kept_update [simp]:
  "fd_kept d (d'\<lparr>fd_flags := x\<rparr>) = fd_kept d d'" "fd_kept d (d'\<lparr>fd_pos := p\<rparr>) = fd_kept d d'"
  "fd_kept d (d'\<lparr>fd_size := y\<rparr>) = fd_kept d d'" "fd_kept d (d'\<lparr>fd_type := z\<rparr>) = fd_kept d d'"
  by (simp_all add: fd_kept_def)

lemma call_kept:
  assumes "call_op f d s = Some (r, d', s')" "op_keeps f"
  shows "fd_kept d d' \<and> s' = s\<lparr>world := world s'\<rparr>"
proof -
  obtain w where "f (fs_table s) (world s) d = Some (r, d', w)" "s' = s\<lparr>world := w\<rparr>" using assms(1) by (auto simp: call_op_def)
  moreover from this have "fd_kept d d'" using assms(2) unfolding op_keeps_def by blast
  ultimately show ?thesis by simp
qed

lemma world_objs: "(s :: 's dfs)\<lparr>objs := ob, world := w\<rparr> = s\<lparr>world := w, objs := ob\<rparr>"
  by (cases s) simp

lemma call_local: "call_op f d (s\<lparr>objs := ob\<rparr>) = map_option (\<lambda>(r, d', s'). (r, d', s'\<lparr>objs := ob\<rparr>)) (call_op f d s)"
  by (simp add: call_op_def option.map_comp comp_def split_def world_objs)

lemma op_keepsI:
  assumes "drivers_ok E" "fops E d = Some o1"
  shows "op_open o1 = Some f \<Longrightarrow> op_keeps f" "op_close o1 = Some f \<Longrightarrow> op_keeps f" "op_flush o1 = Some f \<Longrightarrow> op_keeps f"
    "op_ioctl o1 = Some g \<Longrightarrow> op_keeps (g c a)" "op_read o1 = Some h \<Longrightarrow> op_keeps (h n)" "op_getdents o1 = Some h \<Longrightarrow> op_keeps (h n)"
    "op_write o1 = Some k \<Longrightarrow> op_keeps (k b)" "op_lseek o1 = Some m \<Longrightarrow> op_keeps (m x)"
proof -
  have "fops_ok o1" using assms by (auto simp: drivers_ok_def fops_def)
  then show "op_open o1 = Some f \<Longrightarrow> op_keeps f" "op_close o1 = Some f \<Longrightarrow> op_keeps f" "op_flush o1 = Some f \<Longrightarrow> op_keeps f"
    "op_ioctl o1 = Some g \<Longrightarrow> op_keeps (g c a)" "op_read o1 = Some h \<Longrightarrow> op_keeps (h n)" "op_getdents o1 = Some h \<Longrightarrow> op_keeps (h n)"
    "op_write o1 = Some k \<Longrightarrow> op_keeps (k b)" "op_lseek o1 = Some m \<Longrightarrow> op_keeps (m x)"
    by (simp_all add: fops_ok_def)
qed

lemma fun_keeps_ops:
  assumes "drivers_ok E"
  shows "fun_keeps (dfs_file_read E n)" "fun_keeps (dfs_file_write E buf)" "fun_keeps (dfs_file_flush E)" "fun_keeps (dfs_file_lseek E off)"
    "fun_keeps (dfs_file_ioctl E cmd args)" "fun_keeps (dfs_file_ftruncate E len)" "fun_keeps (dfs_file_getdents E n)"
  unfolding fun_keeps_def dfs_file_read_def dfs_file_write_def dfs_file_flush_def dfs_file_lseek_def dfs_file_ioctl_def
    dfs_file_ftruncate_def dfs_file_getdents_def Let_def
  by (auto split: option.splits bind_splits if_splits dest!: call_kept dest: op_keepsI [OF assms])

lemma fun_local_ops:
  "fun_local (dfs_file_read E n)" "fun_local (dfs_file_write E buf)" "fun_local (dfs_file_flush E)" "fun_local (dfs_file_lseek E off)"
  "fun_local (dfs_file_ioctl E cmd args)" "fun_local (dfs_file_ftruncate E len)" "fun_local (dfs_file_getdents E n)" "fun_local (dfs_file_close E)"
  unfolding fun_local_def dfs_file_read_def dfs_file_write_def dfs_file_flush_def dfs_file_lseek_def dfs_file_ioctl_def
    dfs_file_ftruncate_def dfs_file_getdents_def dfs_file_close_def Let_def
  by (auto simp: call_local option.map_comp comp_def split_def map_option_bind if_distrib option.case_distrib
      split: option.split Option.bind_split)

lemma file_close_keeps:
  assumes "drivers_ok E" "dfs_file_close E d s = Some (r, d', s')"
  shows "s' = s\<lparr>world := world s'\<rparr>" "fd_magic d' = fd_magic d" "fd_ref d' = fd_ref d" "r < 0 \<Longrightarrow> fd_kept d d'"
  using assms(2) unfolding dfs_file_close_def
  by (auto split: option.splits bind_splits if_splits dest!: call_kept dest: op_keepsI [OF assms(1)] simp: fd_kept_def)

section \<open>Opening\<close>

text \<open>Where a path leads, and the working directory.\<close>

definition goes_to :: "'s dfs \<Rightarrow> u8 list \<Rightarrow> u8 list list \<Rightarrow> bool" where
  "goes_to s path cs \<longleftrightarrow> 0 \<notin> set path \<and> resolve [] (from_dir (work_dir s) None path @ names path) = Some cs"

definition wd_ok :: "'s dfs \<Rightarrow> bool" where
  "wd_ok s \<longleftrightarrow> (\<exists>ws. plain ws \<and> work_dir s = join ws)"

lemma full_path_goes:
  assumes "wd_ok s" "goes_to s path cs"
  shows "full_path path s = Some (if mem s (asked s) then Some (join cs) else None, s\<lparr>asked := asked s + 1\<rparr>)" "plain cs"
proof -
  obtain ws where w: "plain ws" "work_dir s = join ws" using assms(1) by (auto simp: wd_ok_def)
  note n = normalize_resolves [where filename = path and directory = None and wd = "work_dir s" and cs = cs]
  have "dfs_normalize_path True (work_dir s) None path = Some (Some (join cs)) \<and> plain cs"
    using n assms(2) w join_chars(1-3) [OF w(1)] by (cases "join ws") (simp_all add: goes_to_def)
  then show "full_path path s = Some (if mem s (asked s) then Some (join cs) else None, s\<lparr>asked := asked s + 1\<rparr>)" "plain cs"
    by (simp_all add: full_path_def ask_def dfs_normalize_path_def Let_def)
qed

text \<open>What the driver's open operation gets: the descriptor, with the path below the mount point.\<close>

definition path_for :: "'s dfs_filesystem_ops \<Rightarrow> u8 list list \<Rightarrow> u8 list list \<Rightarrow> u8 list" where
  "path_for ops ds cs = (if ops_flags ops AND DFS_FS_FLAG_FULLPATH = 0 then join (drop (length ds) cs) else join cs)"

definition asked_fd :: "'s dfs_filesystem_ops \<Rightarrow> nat \<Rightarrow> u8 list \<Rightarrow> u32 \<Rightarrow> dfs_fd \<Rightarrow> dfs_fd" where
  "asked_fd ops i path flags d = d\<lparr>fd_fs := Some i, fd_fops := Some (ops_fops ops), fd_type := FT_REGULAR, fd_flags := flags,
     fd_size := 0, fd_pos := 0, fd_data := FsEntry i, fd_path := Some path\<rparr>"

text \<open>What open makes of the answer.\<close>

definition opened_fd :: "u32 \<Rightarrow> dfs_fd \<Rightarrow> dfs_fd" where
  "opened_fd flags d = (if flags AND O_DIRECTORY \<noteq> 0 then d\<lparr>fd_flags := fd_flags d OR DFS_F_OPEN OR DFS_F_DIRECTORY, fd_type := FT_DIRECTORY\<rparr>
     else d\<lparr>fd_flags := fd_flags d OR DFS_F_OPEN\<rparr>)"

lemma subdir_prefix: "plain cs \<Longrightarrow> prefix ds cs \<Longrightarrow>
    dfs_subdir (join ds) (join cs) = Some (if cs = ds then None else Some (join (drop (length ds) cs)))"
proof -
  assume "plain cs" "prefix ds cs"
  then obtain es where es: "cs = ds @ es" "plain (ds @ es)" by (auto elim: prefixE)
  show ?thesis unfolding es(1) subdir_append [OF es(2)] by simp
qed

lemma file_open_cases:
  assumes inv: "fs_inv (fs_table s)" "wd_ok s" "goes_to s path cs" and m: "\<forall>k. asked s \<le> k \<longrightarrow> mem s k"
  obtains (NoFs) k where "dfs_file_open E path flags d s = Some (- ENOENT, d, s\<lparr>asked := k\<rparr>)" "asked s \<le> k" "\<And>i ds. mounted_at (fs_table s) i ds \<Longrightarrow> \<not> prefix ds cs"
  | (NoOpen) i ds t k where "mounted_at (fs_table s) i ds" "prefix ds cs" "\<And>j es. mounted_at (fs_table s) j es \<Longrightarrow> prefix es cs \<Longrightarrow> length es \<le> length ds"
      "fs_ops (fs_table s ! i) = Some t" "op_open (fops_at E (ops_fops (ops_at E t))) = None"
      "dfs_file_open E path flags d s = Some (- ENOSYS, (asked_fd (ops_at E t) i (path_for (ops_at E t) ds cs) flags d)\<lparr>fd_path := None\<rparr>, s\<lparr>asked := k\<rparr>)"
      "asked s \<le> k"
  | (Open) i ds t f k where "mounted_at (fs_table s) i ds" "prefix ds cs" "\<And>j es. mounted_at (fs_table s) j es \<Longrightarrow> prefix es cs \<Longrightarrow> length es \<le> length ds"
      "fs_ops (fs_table s ! i) = Some t" "op_open (fops_at E (ops_fops (ops_at E t))) = Some f" "asked s \<le> k"
      "dfs_file_open E path flags d s = map_option (\<lambda>(r, d', w). if r < 0 then (r, d'\<lparr>fd_path := None\<rparr>, s\<lparr>asked := k, world := w\<rparr>)
         else (0, opened_fd flags d', s\<lparr>asked := k, world := w\<rparr>))
       (f (fs_table s) (world s) (asked_fd (ops_at E t) i (path_for (ops_at E t) ds cs) flags d))"
proof -
  let ?t = "fs_table s"
  define s1 where "s1 = s\<lparr>asked := asked s + 1\<rparr>"
  have f: "full_path path s = Some (Some (join cs), s1)" using full_path_goes(1) [OF inv(2,3)] m by (simp add: s1_def)
  have t: "fs_inv (fs_table s1)" "fs_table s1 = ?t" using inv by (simp_all add: s1_def)
  have cs: "plain cs" by (rule full_path_goes(2) [OF inv(2,3)])
  from t(1) cs show thesis
  proof (cases rule: lookup_best)
    case Nowhere
    then show thesis using NoFs [of "asked s + 1"] f t(2) by (simp add: dfs_file_open_def s1_def)
  next
    case (Mounted i ds)
    note M = Mounted [unfolded t(2)]
    obtain t where o: "fs_ops (?t ! i) = Some t" "fs_path (?t ! i) = Some (join ds)" using M(2) by (auto simp: mounted_at_def)
    define k where "k = (if ops_flags (ops_at E t) AND DFS_FS_FLAG_FULLPATH = 0 then asked s + 2 else asked s + 1)"
    note u = subdir_prefix [OF cs M(3)]
    have p: "(case (if cs = ds then None else Some (join (drop (length ds) cs))) of None \<Rightarrow> [SLASH] | Some q \<Rightarrow> q) = join (drop (length ds) cs)" by simp
    have e: "dfs_file_open E path flags d s = (case op_open (fops_at E (ops_fops (ops_at E t))) of
         None \<Rightarrow> Some (- ENOSYS, (asked_fd (ops_at E t) i (path_for (ops_at E t) ds cs) flags d)\<lparr>fd_path := None\<rparr>, s\<lparr>asked := k\<rparr>)
       | Some f \<Rightarrow> map_option (\<lambda>(r, d', w). if r < 0 then (r, d'\<lparr>fd_path := None\<rparr>, s\<lparr>asked := k, world := w\<rparr>)
           else (0, opened_fd flags d', s\<lparr>asked := k, world := w\<rparr>))
         (f ?t (world s) (asked_fd (ops_at E t) i (path_for (ops_at E t) ds cs) flags d)))"
    proof (cases "op_open (fops_at E (ops_fops (ops_at E t)))")
      case None
      then show ?thesis using f M(1) o u m by (simp add: dfs_file_open_def t(2) asked_fd_def path_for_def k_def s1_def ask_def p)
    next
      case (Some g)
      then show ?thesis using f M(1) o u m
        by (cases "ops_flags (ops_at E t) AND DFS_FS_FLAG_FULLPATH = 0";
            cases "g ?t (world s) (asked_fd (ops_at E t) i (path_for (ops_at E t) ds cs) flags d)")
          (auto simp: dfs_file_open_def t(2) asked_fd_def path_for_def k_def s1_def ask_def call_op_def opened_fd_def p)
    qed
    have "asked s \<le> k" by (simp add: k_def)
    then show thesis using NoOpen [OF M(2,3,4) o(1)] Open [OF M(2,3,4) o(1)] e by (cases "op_open (fops_at E (ops_fops (ops_at E t)))") auto
  qed
qed

end
