(* ===== verification/DfsCalls.thy ===== *)
theory DfsCalls
  imports DfsFile
begin

text \<open>
  The calls of \<^verbatim>\<open>rt-thread/components/dfs/src/dfs_posix.c\<close>. \<open>open\<close>, \<open>close\<close>, \<open>read\<close> and the others are \<open>posix_open\<close>,
  \<open>posix_close\<close> and so on. Every call takes a reference to the object of its descriptor, works on it, and gives the reference back.
\<close>

section \<open>The code\<close>

definition on_fd :: "nat \<Rightarrow> ('r, 's) fd_fun \<Rightarrow> 's dfs \<Rightarrow> ('r \<times> 's dfs) option" where
  "on_fd a f s = do {
     d \<leftarrow> objs s a;
     (r, d', s') \<leftarrow> f d s;
     Some (r, s'\<lparr>objs := (objs s')(a \<mapsto> d')\<rparr>)
   }"

definition posix_open :: "'s drivers \<Rightarrow> u8 list \<Rightarrow> u32 \<Rightarrow> 's dfs \<Rightarrow> (int \<times> 's dfs) option" where
  "posix_open E path flags s = do {
     (fd, s1) \<leftarrow> fd_new s;
     if fd < 0 then Some (- 1, set_errno (- ENOMEM) s1)
     else do {
       (g, s2) \<leftarrow> fd_get fd s1;
       d \<leftarrow> g;
       (result, s3) \<leftarrow> on_fd d (dfs_file_open E path flags) s2;
       if result < 0
       then do { s4 \<leftarrow> fd_put d s3; s5 \<leftarrow> fd_put d s4; Some (- 1, set_errno result s5) }
       else do { s4 \<leftarrow> fd_put d s3; Some (fd, s4) }
     }
   }"

definition posix_close :: "'s drivers \<Rightarrow> int \<Rightarrow> 's dfs \<Rightarrow> (int \<times> 's dfs) option" where
  "posix_close E fd s = do {
     (g, s1) \<leftarrow> fd_get fd s;
     case g of
       None \<Rightarrow> Some (- 1, set_errno (- EBADF) s1)
     | Some d \<Rightarrow> do {
         (result, s2) \<leftarrow> on_fd d (dfs_file_close E) s1;
         s3 \<leftarrow> fd_put d s2;
         if result < 0 then Some (- 1, set_errno result s3)
         else do { s4 \<leftarrow> fd_put d s3; Some (0, s4) }
       }
   }"

definition posix_read :: "'s drivers \<Rightarrow> int \<Rightarrow> nat \<Rightarrow> 's dfs \<Rightarrow> ((int \<times> u8 list) \<times> 's dfs) option" where
  "posix_read E fd len s = do {
     (g, s1) \<leftarrow> fd_get fd s;
     case g of
       None \<Rightarrow> Some ((- 1, []), set_errno (- EBADF) s1)
     | Some d \<Rightarrow> do {
         ((result, buf), s2) \<leftarrow> on_fd d (dfs_file_read E len) s1;
         s3 \<leftarrow> fd_put d s2;
         if result < 0 then Some ((- 1, buf), set_errno result s3) else Some ((result, buf), s3)
       }
   }"

definition posix_write :: "'s drivers \<Rightarrow> int \<Rightarrow> u8 list \<Rightarrow> 's dfs \<Rightarrow> (int \<times> 's dfs) option" where
  "posix_write E fd buf s = do {
     (g, s1) \<leftarrow> fd_get fd s;
     case g of
       None \<Rightarrow> Some (- 1, set_errno (- EBADF) s1)
     | Some d \<Rightarrow> do {
         (result, s2) \<leftarrow> on_fd d (dfs_file_write E buf) s1;
         s3 \<leftarrow> fd_put d s2;
         if result < 0 then Some (- 1, set_errno result s3) else Some (result, s3)
       }
   }"

text \<open>\<open>lseek\<close>: \<open>off_t\<close> has 32 bits; the sum with the position is signed, the one with the size is unsigned and wraps. The result is
  the offset that was asked for, not the one that the driver reached.\<close>

definition seek_offset :: "int \<Rightarrow> int \<Rightarrow> dfs_fd \<Rightarrow> int option option" where
  "seek_offset offset whence d =
    (if whence = 0 then Some (Some offset)
     else if whence = 1 then (if - (2 ^ 31) \<le> offset + fd_pos d \<and> offset + fd_pos d < 2 ^ 31 then Some (Some (offset + fd_pos d)) else None)
     else if whence = 2 then Some (Some (sint (of_int offset + fd_size d)))
     else Some None)"

definition posix_lseek :: "'s drivers \<Rightarrow> int \<Rightarrow> int \<Rightarrow> int \<Rightarrow> 's dfs \<Rightarrow> (int \<times> 's dfs) option" where
  "posix_lseek E fd offset whence s = do {
     (g, s1) \<leftarrow> fd_get fd s;
     case g of
       None \<Rightarrow> Some (- 1, set_errno (- EBADF) s1)
     | Some a \<Rightarrow> do {
         d \<leftarrow> objs s1 a;
         off \<leftarrow> seek_offset offset whence d;
         case off of
           None \<Rightarrow> do { s2 \<leftarrow> fd_put a s1; Some (- 1, set_errno (- EINVAL) s2) }
         | Some offset1 \<Rightarrow>
             if offset1 < 0 then do { s2 \<leftarrow> fd_put a s1; Some (- 1, set_errno (- EINVAL) s2) }
             else do {
               (result, s2) \<leftarrow> on_fd a (dfs_file_lseek E offset1) s1;
               s3 \<leftarrow> fd_put a s2;
               if result < 0 then Some (- 1, set_errno result s3) else Some (offset1, s3)
             }
       }
   }"

definition errno_result :: "(int \<times> 's dfs) option \<Rightarrow> (int \<times> 's dfs) option" where
  "errno_result x = map_option (\<lambda>(result, s). if result < 0 then (- 1, set_errno result s) else (0, s)) x"

definition posix_rename :: "'s drivers \<Rightarrow> u8 list \<Rightarrow> u8 list \<Rightarrow> 's dfs \<Rightarrow> (int \<times> 's dfs) option" where
  "posix_rename E old_file new_file s = errno_result (dfs_file_rename E old_file new_file s)"

definition posix_unlink :: "'s drivers \<Rightarrow> u8 list \<Rightarrow> 's dfs \<Rightarrow> (int \<times> 's dfs) option" where
  "posix_unlink E pathname s = errno_result (dfs_file_unlink E pathname s)"

definition posix_rmdir :: "'s drivers \<Rightarrow> u8 list \<Rightarrow> 's dfs \<Rightarrow> (int \<times> 's dfs) option" where
  "posix_rmdir E pathname s = errno_result (dfs_file_unlink E pathname s)"

definition posix_stat :: "'s drivers \<Rightarrow> u8 list \<Rightarrow> 's dfs \<Rightarrow> ((int \<times> file_stat option) \<times> 's dfs) option" where
  "posix_stat E file s = map_option (\<lambda>((result, st), s1). if result < 0 then ((- 1, st), set_errno result s1) else ((result, st), s1))
     (dfs_file_stat E file s)"

definition posix_access :: "'s drivers \<Rightarrow> u8 list \<Rightarrow> 's dfs \<Rightarrow> (int \<times> 's dfs) option" where
  "posix_access E path s = map_option (\<lambda>((result, st), s1). (if result < 0 then - 1 else 0, s1)) (posix_stat E path s)"

text \<open>\<open>fstat\<close>: \<open>S_IFREG\<close> is 0x8000, \<open>S_IFDIR\<close> 0x4000, the permissions 0x1b6 and 0x49.\<close>

definition posix_fstat :: "int \<Rightarrow> 's dfs \<Rightarrow> ((int \<times> file_stat option) \<times> 's dfs) option" where
  "posix_fstat fildes s = do {
     (g, s1) \<leftarrow> fd_get fildes s;
     case g of
       None \<Rightarrow> Some ((- 1, None), set_errno (- EBADF) s1)
     | Some a \<Rightarrow> do {
         d \<leftarrow> objs s1 a;
         s2 \<leftarrow> fd_put a s1;
         let mode = 0x8000 OR 0x1b6;
         Some ((0, Some \<lparr>st_mode = (if fd_type d = FT_DIRECTORY then (mode AND NOT 0x8000) OR 0x4000 OR 0x49 else mode), st_size = fd_size d\<rparr>), s2)
       }
   }"

definition posix_fsync :: "'s drivers \<Rightarrow> int \<Rightarrow> 's dfs \<Rightarrow> (int \<times> 's dfs) option" where
  "posix_fsync E fildes s = do {
     (g, s1) \<leftarrow> fd_get fildes s;
     case g of
       None \<Rightarrow> Some (- 1, set_errno (- EBADF) s1)
     | Some d \<Rightarrow> do {
         (ret, s2) \<leftarrow> on_fd d (dfs_file_flush E) s1;
         s3 \<leftarrow> fd_put d s2;
         Some (ret, s3)
       }
   }"

definition posix_fcntl :: "'s drivers \<Rightarrow> int \<Rightarrow> int \<Rightarrow> int \<Rightarrow> 's dfs \<Rightarrow> (int \<times> 's dfs) option" where
  "posix_fcntl E fildes cmd arg s = do {
     (g, s1) \<leftarrow> fd_get fildes s;
     (ret, s2) \<leftarrow> (case g of
         None \<Rightarrow> Some (- EBADF, s1)
       | Some d \<Rightarrow> do { (ret, s2) \<leftarrow> on_fd d (dfs_file_ioctl E cmd arg) s1; s3 \<leftarrow> fd_put d s2; Some (ret, s3) });
     if ret < 0 then Some (- 1, set_errno ret s2) else Some (ret, s2)
   }"

definition posix_ioctl :: "'s drivers \<Rightarrow> int \<Rightarrow> int \<Rightarrow> int \<Rightarrow> 's dfs \<Rightarrow> (int \<times> 's dfs) option" where
  "posix_ioctl E fildes cmd arg s = posix_fcntl E fildes cmd arg s"

definition posix_ftruncate :: "'s drivers \<Rightarrow> int \<Rightarrow> int \<Rightarrow> 's dfs \<Rightarrow> (int \<times> 's dfs) option" where
  "posix_ftruncate E fd len s = do {
     (g, s1) \<leftarrow> fd_get fd s;
     case g of
       None \<Rightarrow> Some (- 1, set_errno (- EBADF) s1)
     | Some d \<Rightarrow>
         if len < 0 then do { s2 \<leftarrow> fd_put d s1; Some (- 1, set_errno (- EINVAL) s2) }
         else do {
           (result, s2) \<leftarrow> on_fd d (dfs_file_ftruncate E len) s1;
           s3 \<leftarrow> fd_put d s2;
           if result < 0 then Some (- 1, set_errno result s3) else Some (0, s3)
         }
   }"

definition posix_mkdir :: "'s drivers \<Rightarrow> u8 list \<Rightarrow> 's dfs \<Rightarrow> (int \<times> 's dfs) option" where
  "posix_mkdir E path s = do {
     (fd, s1) \<leftarrow> fd_new s;
     if fd = - 1 then Some (- 1, set_errno (- ENOMEM) s1)
     else do {
       (g, s2) \<leftarrow> fd_get fd s1;
       d \<leftarrow> g;
       (result, s3) \<leftarrow> on_fd d (dfs_file_open E path (O_DIRECTORY OR O_CREAT)) s2;
       if result < 0
       then do { s4 \<leftarrow> fd_put d s3; s5 \<leftarrow> fd_put d s4; Some (- 1, set_errno result s5) }
       else do { (r, s4) \<leftarrow> on_fd d (dfs_file_close E) s3; s5 \<leftarrow> fd_put d s4; s6 \<leftarrow> fd_put d s5; Some (0, s6) }
     }
   }"

section \<open>Directory streams\<close>

record dir_stream =
  dir_fd :: int
  dir_buf :: "u8 list"
  dir_num :: int
  dir_cur :: int

definition posix_opendir :: "'s drivers \<Rightarrow> u8 list \<Rightarrow> 's dfs \<Rightarrow> (dir_stream option \<times> 's dfs) option" where
  "posix_opendir E name s = do {
     (fd, s1) \<leftarrow> fd_new s;
     if fd = - 1 then Some (None, set_errno (- ENOMEM) s1)
     else do {
       (g, s2) \<leftarrow> fd_get fd s1;
       d \<leftarrow> g;
       (result, s3) \<leftarrow> on_fd d (dfs_file_open E name O_DIRECTORY) s2;
       if 0 \<le> result
       then (case ask s3 of (ok, s4) \<Rightarrow>
         if \<not> ok then do { (r, s5) \<leftarrow> on_fd d (dfs_file_close E) s4; s6 \<leftarrow> fd_put d s5; s7 \<leftarrow> fd_put d s6; Some (None, s7) }
         else do { s5 \<leftarrow> fd_put d s4; Some (Some \<lparr>dir_fd = fd, dir_buf = replicate 512 0, dir_num = 0, dir_cur = 0\<rparr>, s5) })
       else do { s4 \<leftarrow> fd_put d s3; s5 \<leftarrow> fd_put d s4; Some (None, set_errno result s5) }
     }
   }"

text \<open>\<open>readdir\<close>: the entry is a place in the buffer, its length is the 16 bits at offset 2 of it.\<close>

definition entry_len :: "u8 list \<Rightarrow> int \<Rightarrow> int option" where
  "entry_len buf cur = (if 0 \<le> cur \<and> nat cur + 3 < length buf then Some (uint (buf ! (nat cur + 2)) + 256 * uint (buf ! (nat cur + 3))) else None)"

definition posix_readdir :: "'s drivers \<Rightarrow> dir_stream \<Rightarrow> 's dfs \<Rightarrow> (int option \<times> dir_stream \<times> 's dfs) option" where
  "posix_readdir E d s = do {
     (g, s1) \<leftarrow> fd_get (dir_fd d) s;
     case g of
       None \<Rightarrow> Some (None, d, set_errno (- EBADF) s1)
     | Some a \<Rightarrow> do {
         d1 \<leftarrow> (if dir_num d \<noteq> 0 then map_option (\<lambda>l. d\<lparr>dir_cur := dir_cur d + l\<rparr>) (entry_len (dir_buf d) (dir_cur d)) else Some d);
         if dir_num d1 = 0 \<or> dir_num d1 \<le> dir_cur d1
         then do {
           ((result, buf), s2) \<leftarrow> on_fd a (dfs_file_getdents E 511) s1;
           s3 \<leftarrow> fd_put a s2;
           let d2 = d1\<lparr>dir_buf := buf @ drop (length buf) (dir_buf d1)\<rparr>;
           if result \<le> 0 then Some (None, d2, set_errno result s3)
           else Some (Some 0, d2\<lparr>dir_num := result, dir_cur := 0\<rparr>, s3)
         }
         else do { s2 \<leftarrow> fd_put a s1; Some (Some (dir_cur d1), d1, s2) }
       }
   }"

definition posix_telldir :: "dir_stream \<Rightarrow> 's dfs \<Rightarrow> (int \<times> 's dfs) option" where
  "posix_telldir d s = do {
     (g, s1) \<leftarrow> fd_get (dir_fd d) s;
     case g of
       None \<Rightarrow> Some (0, set_errno (- EBADF) s1)
     | Some a \<Rightarrow> do {
         fd \<leftarrow> objs s1 a;
         s2 \<leftarrow> fd_put a s1;
         Some (fd_pos fd - dir_num d + dir_cur d, s2)
       }
   }"

definition posix_seekdir :: "'s drivers \<Rightarrow> dir_stream \<Rightarrow> int \<Rightarrow> 's dfs \<Rightarrow> (dir_stream \<times> 's dfs) option" where
  "posix_seekdir E d offset s = do {
     (g, s1) \<leftarrow> fd_get (dir_fd d) s;
     case g of
       None \<Rightarrow> Some (d, set_errno (- EBADF) s1)
     | Some a \<Rightarrow> do {
         (result, s2) \<leftarrow> on_fd a (dfs_file_lseek E offset) s1;
         s3 \<leftarrow> fd_put a s2;
         Some (if 0 \<le> result then d\<lparr>dir_num := 0, dir_cur := 0\<rparr> else d, s3)
       }
   }"

definition posix_rewinddir :: "'s drivers \<Rightarrow> dir_stream \<Rightarrow> 's dfs \<Rightarrow> (dir_stream \<times> 's dfs) option" where
  "posix_rewinddir E d s = posix_seekdir E d 0 s"

text \<open>\<open>closedir\<close> gives the descriptor back whatever the driver answers.\<close>

definition posix_closedir :: "'s drivers \<Rightarrow> dir_stream \<Rightarrow> 's dfs \<Rightarrow> (int \<times> 's dfs) option" where
  "posix_closedir E d s = do {
     (g, s1) \<leftarrow> fd_get (dir_fd d) s;
     case g of
       None \<Rightarrow> Some (- 1, set_errno (- EBADF) s1)
     | Some a \<Rightarrow> do {
         (result, s2) \<leftarrow> on_fd a (dfs_file_close E) s1;
         s3 \<leftarrow> fd_put a s2;
         s4 \<leftarrow> fd_put a s3;
         if result < 0 then Some (- 1, set_errno result s4) else Some (0, s4)
       }
   }"

text \<open>\<open>chdir\<close> on a path: the new directory is copied by \<open>strncpy\<close> into \<open>working_directory\<close> of 256 bytes; without room for the 0
  the string has no end.\<close>

definition posix_chdir :: "'s drivers \<Rightarrow> u8 list \<Rightarrow> 's dfs \<Rightarrow> (int \<times> 's dfs) option" where
  "posix_chdir E path s =
    (if DFS_PATH_MAX < length path then Some (- 1, set_errno (- ENOTDIR) s)
     else do {
       (full, s1) \<leftarrow> full_path path s;
       case full of
         None \<Rightarrow> Some (- 1, set_errno (- ENOTDIR) s1)
       | Some fullpath \<Rightarrow> do {
           (d, s2) \<leftarrow> posix_opendir E fullpath (dfs_lock s1);
           case d of
             None \<Rightarrow> Some (- 1, dfs_unlock s2)
           | Some dir \<Rightarrow> do {
               (r, s3) \<leftarrow> posix_closedir E dir s2;
               if DFS_PATH_MAX \<le> length fullpath then None
               else Some (0, dfs_unlock (s3\<lparr>work_dir := fullpath\<rparr>))
             }
         }
     })"

definition posix_getcwd :: "nat \<Rightarrow> 's dfs \<Rightarrow> u8 list \<times> 's dfs" where
  "posix_getcwd size1 s = (let s1 = dfs_lock s in (take size1 (work_dir s1 @ replicate (size1 - length (work_dir s1)) 0), dfs_unlock s1))"


section \<open>The table between the calls\<close>

text \<open>Between the calls each object has the one reference of its descriptor, and is a file that is open; the mount table and the
  working directory are in order.\<close>

definition dfs_inv :: "'s dfs \<Rightarrow> bool" where
  "dfs_inv s \<longleftrightarrow> fds_inv (\<lambda>a. 1) s \<and> (\<forall>n d. fd_view s n = Some d \<longrightarrow> fd_path d \<noteq> None \<and> fd_fops d \<noteq> None) \<and>
     fs_inv (fs_table s) \<and> wd_ok s"

text \<open>The number of the place that a descriptor stands for: 0, 1 and 2 are the console.\<close>

definition place :: "'s dfs \<Rightarrow> int \<Rightarrow> int" where
  "place s fd = (if 0 \<le> fd \<and> fd \<le> 2 then console s else fd) - DFS_FD_OFFSET"

definition open_at :: "'s dfs \<Rightarrow> int \<Rightarrow> dfs_fd option" where
  "open_at s fd = (if place s fd < 0 then None else fd_view s (nat (place s fd)))"

text \<open>What a call leaves alone: everything but the descriptors, the error number, the drivers' state and the count of requests.\<close>

definition call_frame :: "'s dfs \<Rightarrow> 's dfs \<Rightarrow> bool" where
  "call_frame s s' \<longleftrightarrow> fs_types s' = fs_types s \<and> fs_table s' = fs_table s \<and> work_dir s' = work_dir s \<and> lock_depth s' = lock_depth s \<and>
     console s' = console s \<and> mem s' = mem s \<and> asked s \<le> asked s'"

lemma call_frame_refl [simp]: "call_frame s s"
  by (simp add: call_frame_def)

lemma frame_call: "fds_frame s s' \<Longrightarrow> call_frame s s'"
  by (simp add: fds_frame_def call_frame_def)

lemma call_frame_trans: "call_frame s s1 \<Longrightarrow> call_frame s1 s2 \<Longrightarrow> call_frame s s2"
  by (simp add: call_frame_def)

lemma set_errno_simps [simp]:
  "fds (set_errno e s) = fds s" "objs (set_errno e s) = objs s" "next_obj (set_errno e s) = next_obj s" "fs_table (set_errno e s) = fs_table s"
  "errno (set_errno e s) = e" "call_frame s (set_errno e s') = call_frame s s'" "wd_ok (set_errno e s) = wd_ok s" "work_dir (set_errno e s) = work_dir s"
  "world (set_errno e s) = world s" "mem (set_errno e s) = mem s" "asked (set_errno e s) = asked s" "console (set_errno e s) = console s"
  by (simp_all add: set_errno_def call_frame_def wd_ok_def)

lemma set_errno_view [simp]:
  "fd_view (set_errno e s) = fd_view s" "slot (set_errno e s) = slot s" "fds_inv H (set_errno e s) = fds_inv H s" "dfs_inv (set_errno e s) = dfs_inv s"
proof -
  show 1: "fd_view (set_errno e s) = fd_view s" "slot (set_errno e s) = slot s" "fds_inv H (set_errno e s) = fds_inv H s" for H
    using same_fds [of "set_errno e s" s] by simp_all
  show "dfs_inv (set_errno e s) = dfs_inv s" by (simp add: dfs_inv_def 1)
qed

text \<open>The work of a call on the object, with the tables as they are.\<close>

lemma on_fd_step:
  assumes "fds_inv H s" "slot s n = Some a" "objs s a = Some d" "f d s = Some (r, d', s')" "fds s' = fds s" "objs s' = objs s" "next_obj s' = next_obj s"
    "fd_magic d' = fd_magic d" "fd_ref d' = fd_ref d"
  obtains s1 where "on_fd a f s = Some (r, s1)" "s1 = s'\<lparr>objs := (objs s')(a \<mapsto> d')\<rparr>" "fds_inv H s1" "slot s1 = slot s" "objs s1 a = Some d'"
    "fd_view s1 = (fd_view s)(n \<mapsto> d')"
proof -
  note same = same_fds [OF assms(5-7)]
  have "fd_magic d' = DFS_FD_MAGIC" "fd_ref d' = int (H a)" "0 < H a" using assms(1,3,8,9) by (auto simp: fds_inv_def)
  note u = fds_inv_update [of H s' a d d' "H a", unfolded same assms(6), OF assms(1,3) this]
  have "H(a := H a) = H" by simp
  then show thesis using that [of "s'\<lparr>objs := (objs s')(a \<mapsto> d')\<rparr>"] u(1,2) u(3) [OF assms(2)] assms(3,4,6) by (simp add: on_fd_def)
qed

text \<open>A whole call: the reference is taken, the work done and the reference given back. In the object it is as if the work had been done on the
  descriptor with one reference more.\<close>

abbreviation more_refs :: "dfs_fd \<Rightarrow> dfs_fd" where "more_refs d \<equiv> d\<lparr>fd_ref := fd_ref d + 1\<rparr>"
abbreviation less_refs :: "dfs_fd \<Rightarrow> dfs_fd" where "less_refs d \<equiv> d\<lparr>fd_ref := fd_ref d - 1\<rparr>"

lemma fd_call:
  assumes inv: "fds_inv (\<lambda>a. 1) s"
  obtains (Bad) "fd_get fd s = Some (None, s)" "open_at s fd = None"
  | (Got) a d s1 where "fd_get fd s = Some (Some a, s1)" "open_at s fd = Some d" "slot s (nat (place s fd)) = Some a" "objs s1 a = Some (more_refs d)"
      "s1 = s\<lparr>objs := (objs s)(a \<mapsto> more_refs d)\<rparr>" "fds_inv ((\<lambda>a. 1)(a := 2)) s1" "slot s1 = slot s"
      "fd_view s1 = (fd_view s)(nat (place s fd) \<mapsto> more_refs d)" "fd_ref d = 1"
proof -
  from inv place_def [of s fd] show thesis
  proof (cases rule: fd_get_spec)
    case Bad
    then show ?thesis using that(1) by (auto simp: open_at_def)
  next
    case (Got a d s')
    have r: "fd_magic d = DFS_FD_MAGIC" "fd_ref d = 1" using inv Got(4) by (auto simp: fds_inv_def)
    note u = fds_inv_update [OF inv Got(4), of "more_refs d" 2, simplified r, simplified]
    show ?thesis using that(2) [OF Got(1), of d] Got u r by (simp add: open_at_def)
  qed
qed


text \<open>The work on the object between taking and giving back the reference.\<close>

lemma fd_work:
  assumes inv: "fds_inv (\<lambda>a. 1) s" and s1: "s1 = s\<lparr>objs := (objs s)(a \<mapsto> more_refs d)\<rparr>" "fds_inv ((\<lambda>a. 1)(a := 2)) s1" "slot s n = Some a" "fd_ref d = 1"
    and f: "fun_local f" "f (more_refs d) s = Some (r, d', s')" "s' = s\<lparr>world := world s'\<rparr>" "fd_magic d' = fd_magic d" "fd_ref d' = 2"
  obtains s2 s3 where "on_fd a f s1 = Some (r, s2)" "fd_put a s2 = Some s3" "fds_inv (\<lambda>a. 1) s3" "fd_view s3 = (fd_view s)(n \<mapsto> less_refs d')"
    "slot s3 = slot s" "s3 = s\<lparr>world := world s', objs := (objs s)(a \<mapsto> less_refs d')\<rparr>"
proof -
  define sw where "sw = s\<lparr>world := world s', objs := (objs s)(a \<mapsto> more_refs d)\<rparr>"
  have "s'\<lparr>objs := (objs s)(a \<mapsto> more_refs d)\<rparr> = sw" unfolding sw_def by (subst (1) f(3)) (rule refl)
  moreover have "f (more_refs d) s1 = map_option (\<lambda>(r, d', s'). (r, d', s'\<lparr>objs := (objs s)(a \<mapsto> more_refs d)\<rparr>)) (f (more_refs d) s)"
    using f(1) unfolding fun_local_def s1(1) by blast
  ultimately have fa: "f (more_refs d) s1 = Some (r, d', sw)" unfolding f(2) by simp
  have o: "objs s1 a = Some (more_refs d)" "slot s1 n = Some a" using s1(1,3) by (auto simp: slot_def split: if_splits)
  have eq: "fds sw = fds s1" "objs sw = objs s1" "next_obj sw = next_obj s1" by (simp_all add: sw_def s1(1))
  obtain s2 where s2: "on_fd a f s1 = Some (r, s2)" "s2 = sw\<lparr>objs := (objs sw)(a \<mapsto> d')\<rparr>" "fds_inv ((\<lambda>a. 1)(a := 2)) s2" "slot s2 = slot s1"
      "objs s2 a = Some d'" "fd_view s2 = (fd_view s1)(n \<mapsto> d')"
    by (rule on_fd_step [where f = f and s' = sw and d' = d' and r = r, OF s1(2) o(2,1) fa eq]) (use f(4,5) s1(4) in simp_all)
  have sl: "slot s2 n = Some a" using s2(4) o(2) by simp
  from s2(3) sl s2(5) show thesis
  proof (cases rule: fd_put_spec)
    case (Kept s3)
    have h: "((\<lambda>a. 1 :: nat)(a := 2))(a := ((\<lambda>a. 1)(a := 2)) a - 1) = (\<lambda>a. 1)" by (simp add: fun_eq_iff)
    have e: "s3 = s\<lparr>world := world s', objs := (objs s)(a \<mapsto> less_refs d')\<rparr>" using Kept(3) by (simp add: s2(2) sw_def)
    have inv3: "fds_inv (\<lambda>a. 1) s3" using Kept(4) unfolding h .
    have "objs s a \<noteq> None" using inv s1(3) slot_obj by fastforce
    then obtain d0 where d0: "objs s a = Some d0" by blast
    have sn: "slot s3 = slot s" using e by (simp add: slot_def fun_eq_iff)
    have "fd_view s3 m = ((fd_view s)(n \<mapsto> less_refs d')) m" for m
      using slot_inj [OF inv s1(3), of m] s1(3) by (cases "slot s m") (auto simp: fd_view_def sn, auto simp: e)
    then have "fd_view s3 = (fd_view s)(n \<mapsto> less_refs d')" by blast
    then show thesis using that [OF s2(1) Kept(1) inv3 _ sn e] by blast
  next
    case (Freed s3)
    then show thesis by simp
  qed
qed

lemma dfs_invD:
  assumes "dfs_inv s"
  shows "fds_inv (\<lambda>a. 1) s" "fs_inv (fs_table s)" "wd_ok s" "fd_view s n = Some d \<Longrightarrow> fd_path d \<noteq> None \<and> fd_fops d \<noteq> None"
  using assms by (auto simp: dfs_inv_def)

lemma open_at_ok: "dfs_inv s \<Longrightarrow> open_at s fd = Some d \<Longrightarrow> fd_path d \<noteq> None \<and> fd_fops d \<noteq> None \<and> fd_view s (nat (place s fd)) = Some d"
  by (auto simp: open_at_def dfs_inv_def split: if_splits)

lemma dfs_inv_view:
  assumes "dfs_inv s" "fds_inv (\<lambda>a. 1) s'" "fd_view s' = (fd_view s)(n \<mapsto> d')" "fd_path d' \<noteq> None" "fd_fops d' \<noteq> None" "fs_table s' = fs_table s"
    "work_dir s' = work_dir s"
  shows "dfs_inv s'"
  using assms by (auto simp: dfs_inv_def wd_ok_def)

text \<open>The calls that read, write, seek and control: the outcome on a descriptor that is not open, and on one that is.\<close>

lemma fd_io:
  assumes inv: "dfs_inv s" and k: "fun_keeps f" "fun_local f"
  obtains (Bad) "fd_get fd s = Some (None, s)" "open_at s fd = None"
  | (Stuck) d a s1 where "open_at s fd = Some d" "f (more_refs d) s = None" "fd_get fd s = Some (Some a, s1)" "on_fd a f s1 = None"
  | (Done) a d s1 r d' s' s2 s3 where "open_at s fd = Some d" "f (more_refs d) s = Some (r, d', s')" "fd_get fd s = Some (Some a, s1)"
      "objs s1 a = Some (more_refs d)" "fd_put a s1 = Some s" "on_fd a f s1 = Some (r, s2)" "fd_put a s2 = Some s3" "dfs_inv s3" "call_frame s s3" "world s3 = world s'"
      "errno s3 = errno s" "fd_view s3 = (fd_view s)(nat (place s fd) \<mapsto> less_refs d')"
proof -
  from dfs_invD(1) [OF inv] show thesis
  proof (cases rule: fd_call [where fd = fd])
    case Bad
    then show ?thesis using that(1) by blast
  next
    case (Got a d s1)
    note 2 = Got
    show ?thesis
    proof (cases "f (more_refs d) s")
      case None
      then have "f (more_refs d) (s\<lparr>objs := (objs s)(a \<mapsto> more_refs d)\<rparr>) = None"
        using k(2) [unfolded fun_local_def, THEN spec, THEN spec, THEN spec] by simp
      then have "on_fd a f s1 = None" using 2(4,5) by (simp add: on_fd_def)
      then show ?thesis using that(2) 2(1,2) None by blast
    next
      case (Some x)
      then obtain r d' s' where x: "f (more_refs d) s = Some (r, d', s')" by (cases x) auto
      then have k': "fd_kept (more_refs d) d'" "s' = s\<lparr>world := world s'\<rparr>" using k(1) unfolding fun_keeps_def by blast+
      have ok: "fd_path d \<noteq> None \<and> fd_fops d \<noteq> None" using open_at_ok [OF inv 2(2)] by simp
      obtain s2 s3 where w: "on_fd a f s1 = Some (r, s2)" "fd_put a s2 = Some s3" "fds_inv (\<lambda>a. 1) s3"
          "fd_view s3 = (fd_view s)(nat (place s fd) \<mapsto> less_refs d')" "s3 = s\<lparr>world := world s', objs := (objs s)(a \<mapsto> less_refs d')\<rparr>"
        by (rule fd_work [OF dfs_invD(1) [OF inv] 2(5,6,3,9) k(2) x k'(2)]) (use k'(1) 2(9) in \<open>auto simp: fd_kept_def\<close>)
      have i: "dfs_inv s3"
        by (rule dfs_inv_view [OF inv w(3,4)]) (use k'(1) ok in \<open>auto simp: fd_kept_def w(5)\<close>)
      have f3: "call_frame s s3" "world s3 = world s'" "errno s3 = errno s" by (simp_all add: w(5) call_frame_def)
      have "objs s a = Some d" using 2(2,3) by (auto simp: open_at_def fd_view_def split: if_splits)
      then have "s1\<lparr>objs := (objs s1)(a \<mapsto> less_refs (more_refs d))\<rparr> = s" by (simp add: 2(5) map_upd_triv)
      then have "fd_put a s1 = Some s" using 2(4,9) by (simp add: fd_put_def dfs_lock_def dfs_unlock_def)
      then show ?thesis using Done [OF 2(2) x 2(1,4) _ w(1,2) i f3 w(4)] by blast
    qed
  qed
qed


section \<open>Reading, writing, seeking\<close>

text \<open>A call that has worked on the descriptor \<open>fd\<close>: only its object is different, as the operation has left it, and the drivers' state.\<close>

definition io_done :: "'s dfs \<Rightarrow> int \<Rightarrow> dfs_fd \<Rightarrow> 's \<Rightarrow> 's dfs \<Rightarrow> bool" where
  "io_done s fd d' w s' \<longleftrightarrow> dfs_inv s' \<and> call_frame s s' \<and> fd_view s' = (fd_view s)(nat (place s fd) \<mapsto> less_refs d') \<and> world s' = w"

lemma io_done_errno [simp]: "io_done s fd d' w (set_errno e s') = io_done s fd d' w s'"
  by (simp add: io_done_def)

text \<open>The common shape of the calls.\<close>

definition fd_use :: "int \<Rightarrow> 'r \<Rightarrow> ('q, 's) fd_fun \<Rightarrow> ('q \<Rightarrow> 's dfs \<Rightarrow> 'r \<times> 's dfs) \<Rightarrow> 's dfs \<Rightarrow> ('r \<times> 's dfs) option" where
  "fd_use fd bad f finish s = do {
     (g, s1) \<leftarrow> fd_get fd s;
     case g of
       None \<Rightarrow> Some (bad, set_errno (- EBADF) s1)
     | Some d \<Rightarrow> do { (r, s2) \<leftarrow> on_fd d f s1; s3 \<leftarrow> fd_put d s2; Some (finish r s3) }
   }"

lemma fd_use_bad: "dfs_inv s \<Longrightarrow> open_at s fd = None \<Longrightarrow> fd_use fd bad f finish s = Some (bad, set_errno (- EBADF) s)"
  using fd_call [of s fd "fd_use fd bad f finish s = Some (bad, set_errno (- EBADF) s)"] dfs_invD(1) [of s] by (simp add: fd_use_def)

lemma fd_use_open:
  assumes "dfs_inv s" "fun_keeps f" "fun_local f" "open_at s fd = Some d"
  shows "f (more_refs d) s = None \<Longrightarrow> fd_use fd bad f finish s = None"
    "f (more_refs d) s = Some (r, d', s1) \<Longrightarrow>
      \<exists>s3. fd_use fd bad f finish s = Some (finish r s3) \<and> io_done s fd d' (world s1) s3 \<and> errno s3 = errno s"
  using assms(4) by (cases rule: fd_io [OF assms(1-3), where fd = fd]; force simp: fd_use_def io_done_def)+

abbreviation errno_of :: "int \<Rightarrow> 's dfs \<Rightarrow> int \<times> 's dfs" where
  "errno_of r s \<equiv> (if r < 0 then (- 1, set_errno r s) else (r, s))"

lemma calls_as_uses:
  "posix_read E fd n = fd_use fd (- 1, []) (dfs_file_read E n) (\<lambda>(r, buf) s. if r < 0 then ((- 1, buf), set_errno r s) else ((r, buf), s))"
  "posix_write E fd buf = fd_use fd (- 1) (dfs_file_write E buf) errno_of"
  "posix_fsync E fd = fd_use fd (- 1) (dfs_file_flush E) Pair"
  "posix_fcntl E fd cmd arg = fd_use fd (- 1) (dfs_file_ioctl E cmd arg) errno_of"
  by (auto simp: fun_eq_iff posix_read_def posix_write_def posix_fsync_def posix_fcntl_def fd_use_def split: option.split bind_splits)


text \<open>The two calls that look at the descriptor or at their arguments first.\<close>

definition seek_work :: "'s drivers \<Rightarrow> int \<Rightarrow> int \<Rightarrow> ((int \<times> int) option, 's) fd_fun" where
  "seek_work E offset whence d s = do {
     off \<leftarrow> seek_offset offset whence d;
     case off of
       None \<Rightarrow> Some (None, d, s)
     | Some o1 \<Rightarrow> if o1 < 0 then Some (None, d, s) else map_option (\<lambda>(r, d', s'). (Some (r, o1), d', s')) (dfs_file_lseek E o1 d s)
   }"

definition truncate_work :: "'s drivers \<Rightarrow> int \<Rightarrow> (int, 's) fd_fun" where
  "truncate_work E len d s = (if len < 0 then Some (- EINVAL, d, s) else dfs_file_ftruncate E len d s)"

lemma put_back: "objs s a = Some d \<Longrightarrow> s\<lparr>objs := (objs s)(a \<mapsto> d)\<rparr> = s"
  by (simp add: map_upd_triv)

lemma fd_put_obj: "fd_put a s = Some s' \<Longrightarrow> objs s a = None \<Longrightarrow> False"
  by (simp add: fd_put_def)

lemma more_calls_as_uses:
  "posix_lseek E fd offset whence = fd_use fd (- 1) (seek_work E offset whence)
     (\<lambda>x s. case x of None \<Rightarrow> (- 1, set_errno (- EINVAL) s) | Some (r, o1) \<Rightarrow> if r < 0 then (- 1, set_errno r s) else (o1, s))"
  "posix_ftruncate E fd len = fd_use fd (- 1) (truncate_work E len) (\<lambda>r s. if r < 0 then (- 1, set_errno r s) else (0, s))"
  by (auto simp: fun_eq_iff posix_lseek_def posix_ftruncate_def fd_use_def seek_work_def truncate_work_def on_fd_def put_back
      split: option.split bind_splits dest: fd_put_obj)

lemma more_keeps:
  assumes "drivers_ok E"
  shows "fun_keeps (seek_work E offset whence)" "fun_keeps (truncate_work E len)"
proof -
  note k = fun_keeps_ops(4,6) [OF assms, unfolded fun_keeps_def, THEN spec, THEN spec, THEN spec, THEN spec, THEN spec, THEN mp]
  show "fun_keeps (seek_work E offset whence)"
    unfolding fun_keeps_def seek_work_def by (auto split: option.splits bind_splits if_splits dest!: k(1))
  show "fun_keeps (truncate_work E len)"
    unfolding fun_keeps_def truncate_work_def by (auto split: if_splits dest!: k(2))
qed

lemma more_local: "fun_local (seek_work E offset whence)" "fun_local (truncate_work E len)"
proof -
  note l = fun_local_ops(4,6) [unfolded fun_local_def, THEN spec, THEN spec, THEN spec]
  show "fun_local (seek_work E offset whence)"
    unfolding fun_local_def seek_work_def by (auto simp: l option.map_comp comp_def split_def split: option.split bind_splits)
  show "fun_local (truncate_work E len)"
    unfolding fun_local_def truncate_work_def by (auto simp: l)
qed

section \<open>Opening and closing\<close>

text \<open>The open operations of the drivers answer on what they are asked: the descriptor as the file layer has filled it in, with a path in
  normal form below the mount point.\<close>

definition open_answers :: "'s drivers \<Rightarrow> 's dfs \<Rightarrow> bool" where
  "open_answers E s \<longleftrightarrow> (\<forall>i ds t f cs flags d. mounted_at (fs_table s) i ds \<and> plain cs \<and> prefix ds cs \<and> fs_ops (fs_table s ! i) = Some t \<and>
     op_open (fops_at E (ops_fops (ops_at E t))) = Some f \<longrightarrow>
     f (fs_table s) (world s) (asked_fd (ops_at E t) i (path_for (ops_at E t) ds cs) flags d) \<noteq> None)"

text \<open>The entry that is mounted deepest above a path.\<close>

definition deepest :: "dfs_filesystem list \<Rightarrow> u8 list list \<Rightarrow> nat \<Rightarrow> u8 list list \<Rightarrow> bool" where
  "deepest t cs i ds \<longleftrightarrow> mounted_at t i ds \<and> prefix ds cs \<and> (\<forall>j es. mounted_at t j es \<and> prefix es cs \<longrightarrow> length es \<le> length ds)"

lemma same_world: "(s :: 's dfs)\<lparr>asked := k, world := world s\<rparr> = s\<lparr>asked := k\<rparr>"
  by (cases s) simp

text \<open>The driver's open operation, of the file system that the path is on, answers \<open>q\<close> with the descriptor \<open>e\<close>.\<close>

definition driver_opens :: "'s drivers \<Rightarrow> u32 \<Rightarrow> u8 list list \<Rightarrow> 's dfs \<Rightarrow> dfs_fd \<Rightarrow> int \<Rightarrow> dfs_fd \<Rightarrow> 's \<Rightarrow> bool" where
  "driver_opens E flags cs s d q e w \<longleftrightarrow> (\<exists>i ds t f. deepest (fs_table s) cs i ds \<and> fs_ops (fs_table s ! i) = Some t \<and>
     op_open (fops_at E (ops_fops (ops_at E t))) = Some f \<and>
     f (fs_table s) (world s) (asked_fd (ops_at E t) i (path_for (ops_at E t) ds cs) flags d) = Some (q, e, w))"

lemma driver_opens_cong: "fs_table s' = fs_table s \<Longrightarrow> world s' = world s \<Longrightarrow> driver_opens E flags cs s' = driver_opens E flags cs s"
  by (simp add: driver_opens_def fun_eq_iff)

lemma deepest_unique:
  assumes "fs_inv t" "deepest t cs i ds" "deepest t cs j es"
  shows "i = j \<and> ds = es"
proof -
  have "length ds = length es" "prefix ds cs" "prefix es cs" using assms(2,3) unfolding deepest_def by (meson order_antisym)+
  then have "ds = es" by (auto simp: prefix_def append_eq_append_conv)
  then show ?thesis using assms unfolding deepest_def fs_inv_def by blast
qed

lemma file_open_outcome:
  assumes E: "drivers_ok E" "open_answers E s" and inv: "fs_inv (fs_table s)" "wd_ok s" "goes_to s path cs" and m: "\<forall>k. asked s \<le> k \<longrightarrow> mem s k"
  shows "\<exists>r d' k w. dfs_file_open E path flags d s = Some (r, d', s\<lparr>asked := k, world := w\<rparr>) \<and> asked s \<le> k \<and>
    fd_magic d' = fd_magic d \<and> fd_ref d' = fd_ref d \<and>
    (r < 0 \<and> (\<forall>q e w. driver_opens E flags cs s d q e w \<longrightarrow> q < 0) \<or>
     r = 0 \<and> fd_fops d' \<noteq> None \<and> (\<exists>i ds t. deepest (fs_table s) cs i ds \<and> fs_ops (fs_table s ! i) = Some t \<and>
       fd_path d' = Some (path_for (ops_at E t) ds cs)) \<and> (\<exists>q e. driver_opens E flags cs s d q e w \<and> 0 \<le> q \<and> d' = opened_fd flags e))"
  using inv m
proof (cases rule: file_open_cases [where E = E and flags = flags and d = d])
  case (NoFs k)
  have "\<not> driver_opens E flags cs s d q e w" for q e w using NoFs(3) by (auto simp: driver_opens_def deepest_def)
  then show ?thesis
    using NoFs(2) by (intro exI [of _ "- ENOENT"] exI [of _ d] exI [of _ k] exI [of _ "world s"]) (simp add: same_world NoFs(1))
next
  case (NoOpen i ds t k)
  have "deepest (fs_table s) cs i ds" using NoOpen(1-3) by (auto simp: deepest_def)
  then have "\<not> driver_opens E flags cs s d q e w" for q e w
    using deepest_unique [OF inv(1)] NoOpen(4,5) unfolding driver_opens_def by (metis option.distinct(1) option.inject)
  then show ?thesis
    using NoOpen(7)
    by (intro exI [of _ "- ENOSYS"] exI [of _ "(asked_fd (ops_at E t) i (path_for (ops_at E t) ds cs) flags d)\<lparr>fd_path := None\<rparr>"] exI [of _ k]
        exI [of _ "world s"]) (simp add: same_world asked_fd_def NoOpen(6))
next
  case (Open i ds t f k)
  let ?d = "asked_fd (ops_at E t) i (path_for (ops_at E t) ds cs) flags d"
  have "f (fs_table s) (world s) ?d \<noteq> None"
    using E(2) Open(1,2,4,5) full_path_goes(2) [OF inv(2,3)] unfolding open_answers_def by blast
  then obtain r d' w where a: "f (fs_table s) (world s) ?d = Some (r, d', w)" by auto
  have "op_keeps f" using E(1) Open(5) by (auto simp: drivers_ok_def fops_ok_def)
  then have "fd_kept ?d d'" using a unfolding op_keeps_def by blast
  then have kept: "fd_magic d' = fd_magic d" "fd_ref d' = fd_ref d" "fd_path d' = Some (path_for (ops_at E t) ds cs)" "fd_fops d' \<noteq> None"
    by (auto simp: fd_kept_def asked_fd_def)
  have dp: "deepest (fs_table s) cs i ds" using Open(1-3) by (auto simp: deepest_def)
  have once: "q = r \<and> e = d' \<and> v = w" if q: "driver_opens E flags cs s d q e v" for q e v
  proof -
    obtain j es t' f' where x: "deepest (fs_table s) cs j es" "fs_ops (fs_table s ! j) = Some t'" "op_open (fops_at E (ops_fops (ops_at E t'))) = Some f'"
        "f' (fs_table s) (world s) (asked_fd (ops_at E t') j (path_for (ops_at E t') es cs) flags d) = Some (q, e, v)"
      using q unfolding driver_opens_def by blast
    have "j = i" "es = ds" using deepest_unique [OF inv(1) x(1) dp] by simp_all
    then show ?thesis using x(2-4) Open(4,5) a by simp
  qed
  show ?thesis
  proof (cases "r < 0")
    case True
    then show ?thesis
      using Open(6,7) a kept once by (intro exI [of _ r] exI [of _ "d'\<lparr>fd_path := None\<rparr>"] exI [of _ k] exI [of _ w]) auto
  next
    case False
    have "fd_magic (opened_fd flags d') = fd_magic d" "fd_ref (opened_fd flags d') = fd_ref d" "fd_fops (opened_fd flags d') \<noteq> None"
      "fd_path (opened_fd flags d') = Some (path_for (ops_at E t) ds cs)" using kept by (simp_all add: opened_fd_def)
    moreover have "driver_opens E flags cs s d r d' w" unfolding driver_opens_def using dp Open(4,5) a by blast
    moreover have "dfs_file_open E path flags d s = Some (0, opened_fd flags d', s\<lparr>asked := k, world := w\<rparr>)" using Open(7) a False by simp
    moreover have "0 \<le> r" using False by simp
    ultimately show ?thesis using Open(4,6) dp by blast
  qed
qed


lemma file_open_returns:
  assumes "drivers_ok E" "open_answers E s" "fs_inv (fs_table s)" "wd_ok s" "goes_to s path cs" "\<forall>k. asked s \<le> k \<longrightarrow> mem s k"
  shows "\<exists>r d' k w. dfs_file_open E path flags d s = Some (r, d', s\<lparr>asked := k, world := w\<rparr>) \<and> (r < 0 \<or> fd_fops d' \<noteq> None)"
  using file_open_outcome [OF assms, of flags d] by blast

text \<open>A new descriptor, and the reference of the call that made it.\<close>

lemma open_start:
  assumes inv: "dfs_inv s"
  obtains (Fail) s1 where "fd_new s = Some (- 1, s1)" "dfs_inv s1" "fds_frame s s1" "fd_view s1 = fd_view s"
      "(\<forall>n < DFS_FD_MAX. fd_view s n \<noteq> None) \<or> (\<exists>k \<ge> asked s. \<not> mem s k)"
  | (New) s1 s2 n a where "fd_new s = Some (int n + DFS_FD_OFFSET, s1)" "fd_get (int n + DFS_FD_OFFSET) s1 = Some (Some a, s2)" "n < DFS_FD_MAX"
      "fd_view s n = None" "\<forall>m < n. fd_view s m \<noteq> None" "fds_frame s s2" "fds_inv ((\<lambda>a. 1)(a := 2)) s2" "slot s2 n = Some a"
      "objs s2 a = Some (more_refs fresh_fd)" "fd_view s2 = (fd_view s)(n \<mapsto> more_refs fresh_fd)"
proof -
  from dfs_invD(1) [OF inv] show thesis
  proof (cases rule: fd_new_spec)
    case (Fail s')
    then have "dfs_inv s'" using inv fds_frame_simps [OF Fail(2)] by (simp add: dfs_inv_def wd_ok_def)
    then show thesis using that(1) Fail by blast
  next
    case (New s1 n)
    have i: "fds_inv (\<lambda>a. 1) s1" using New(6) by (simp add: fun_upd_idem)
    have p: "place s1 (int n + DFS_FD_OFFSET) = int n" by (simp add: place_def)
    have v: "open_at s1 (int n + DFS_FD_OFFSET) = Some fresh_fd" using New(7) by (simp add: open_at_def p)
    from i show thesis
    proof (cases rule: fd_call [where fd = "int n + DFS_FD_OFFSET"])
      case Bad
      then show thesis using v by simp
    next
      case (Got a d s2)
      have d: "d = fresh_fd" using v Got(2) by simp
      have "fds_frame s s2" using New(2) Got(5) by (simp add: fds_frame_def)
      moreover have "slot s2 n = Some a" "fd_view s2 = (fd_view s)(n \<mapsto> more_refs fresh_fd)" using Got New(7) by (simp_all add: p d)
      ultimately show thesis using that(2) [of n s1 a s2] New(1,3,4,5) Got(1,4,6) d by simp
    qed
  qed
qed

text \<open>The reference of the call is given back; then, when the open has failed, the one of the descriptor.\<close>

lemma put_call:
  assumes "fds_inv ((\<lambda>a. 1)(a := 2)) s" "slot s n = Some a" "objs s a = Some d"
  obtains s' where "fd_put a s = Some s'" "fds_inv (\<lambda>a. 1) s'" "fds_frame s s'" "slot s' = slot s" "objs s' a = Some (less_refs d)" "fd_view s' = (fd_view s)(n \<mapsto> less_refs d)"
  using assms
proof (cases rule: fd_put_spec)
  case (Kept s')
  have h: "((\<lambda>a. 1 :: nat)(a := 2))(a := ((\<lambda>a. 1)(a := 2)) a - 1) = (\<lambda>a. 1)" by (simp add: fun_eq_iff)
  have sl: "slot s' = slot s" by (simp add: Kept(3) slot_def fun_eq_iff)
  have "fd_view s' m = ((fd_view s)(n \<mapsto> less_refs d)) m" for m
    using slot_inj [OF assms(1,2), of m] assms(2) by (cases "slot s m") (auto simp: fd_view_def sl, auto simp: Kept(3))
  then have "fd_view s' = (fd_view s)(n \<mapsto> less_refs d)" by blast
  then show ?thesis using that [OF Kept(1)] Kept(4) sl unfolding h by (simp add: Kept(3) fds_frame_def)
next
  case (Freed s')
  then show ?thesis by simp
qed

lemma put_last:
  assumes "fds_inv (\<lambda>a. 1) s" "slot s n = Some a" "objs s a = Some d"
  obtains s' where "fd_put a s = Some s'" "fds_inv (\<lambda>a. 1) s'" "fds_frame s s'" "fd_view s' = (fd_view s)(n := None)"
  using assms
proof (cases rule: fd_put_spec)
  case (Kept s')
  then show ?thesis by simp
next
  case (Freed s')
  then show ?thesis using that by blast
qed


text \<open>What \<open>open\<close> has done: nothing but an error number, or a new descriptor at the smallest free place, for the file.\<close>

definition open_done :: "'s drivers \<Rightarrow> u32 \<Rightarrow> u8 list list \<Rightarrow> 's dfs \<Rightarrow> int \<Rightarrow> 's dfs \<Rightarrow> bool" where
  "open_done E flags cs s r s' \<longleftrightarrow> dfs_inv s' \<and> call_frame s s' \<and>
     (r = - 1 \<and> errno s' < 0 \<and> fd_view s' = fd_view s \<and>
      ((\<forall>n < DFS_FD_MAX. fd_view s n \<noteq> None) \<or> (\<forall>q e w. driver_opens E flags cs s (more_refs fresh_fd) q e w \<longrightarrow> q < 0)) \<or>
      (\<exists>n d i ds t. r = int n + DFS_FD_OFFSET \<and> n < DFS_FD_MAX \<and> fd_view s n = None \<and> (\<forall>m < n. fd_view s m \<noteq> None) \<and>
        fd_view s' = (fd_view s)(n \<mapsto> d) \<and> deepest (fs_table s) cs i ds \<and> fs_ops (fs_table s ! i) = Some t \<and>
        fd_path d = Some (path_for (ops_at E t) ds cs) \<and>
        (\<exists>q e. driver_opens E flags cs s (more_refs fresh_fd) q e (world s') \<and> 0 \<le> q \<and> d = less_refs (opened_fd flags e))))"

lemma open_file_work:
  assumes E: "drivers_ok E" "open_answers E s" and inv: "dfs_inv s" "goes_to s path cs" and m: "\<forall>k. asked s \<le> k \<longrightarrow> mem s k"
    and s2: "fds_frame s s2" "fds_inv ((\<lambda>a. 1)(a := 2)) s2" "slot s2 n = Some a" "objs s2 a = Some (more_refs fresh_fd)"
      "fd_view s2 = (fd_view s)(n \<mapsto> more_refs fresh_fd)"
  obtains r d' s3 s4 where "on_fd a (dfs_file_open E path flags) s2 = Some (r, s3)" "fd_put a s3 = Some s4" "fds_inv (\<lambda>a. 1) s4" "call_frame s s4"
    "slot s4 n = Some a" "objs s4 a = Some (less_refs d')" "fd_view s4 = (fd_view s)(n \<mapsto> less_refs d')"
    "r < 0 \<and> (\<forall>q e w. driver_opens E flags cs s (more_refs fresh_fd) q e w \<longrightarrow> q < 0) \<or>
      r = 0 \<and> fd_fops d' \<noteq> None \<and> (\<exists>i ds t. deepest (fs_table s) cs i ds \<and> fs_ops (fs_table s ! i) = Some t \<and> fd_path d' = Some (path_for (ops_at E t) ds cs)) \<and>
        (\<exists>q e. driver_opens E flags cs s (more_refs fresh_fd) q e (world s4) \<and> 0 \<le> q \<and> d' = opened_fd flags e)"
proof -
  note fr = fds_frame_simps [OF s2(1)]
  have a: "asked s \<le> asked s2" using s2(1) by (simp add: fds_frame_def)
  have pre: "open_answers E s2" "fs_inv (fs_table s2)" "wd_ok s2" "goes_to s2 path cs" "\<forall>k. asked s2 \<le> k \<longrightarrow> mem s2 k"
    using E(2) inv m a by (simp_all add: open_answers_def goes_to_def wd_ok_def dfs_inv_def fr)
  from file_open_outcome [OF E(1) pre, where flags = flags and d = "more_refs fresh_fd"] obtain r d' k w where
    o: "dfs_file_open E path flags (more_refs fresh_fd) s2 = Some (r, d', s2\<lparr>asked := k, world := w\<rparr>)" "asked s2 \<le> k"
      "fd_magic d' = fd_magic (more_refs fresh_fd)" "fd_ref d' = fd_ref (more_refs fresh_fd)"
      "r < 0 \<and> (\<forall>q e w. driver_opens E flags cs s2 (more_refs fresh_fd) q e w \<longrightarrow> q < 0) \<or>
      r = 0 \<and> fd_fops d' \<noteq> None \<and> (\<exists>i ds t. deepest (fs_table s2) cs i ds \<and> fs_ops (fs_table s2 ! i) = Some t \<and> fd_path d' = Some (path_for (ops_at E t) ds cs)) \<and>
        (\<exists>q e. driver_opens E flags cs s2 (more_refs fresh_fd) q e (w) \<and> 0 \<le> q \<and> d' = opened_fd flags e)" by blast
  define sw where "sw = s2\<lparr>asked := k, world := w\<rparr>"
  have e: "fds sw = fds s2" "objs sw = objs s2" "next_obj sw = next_obj s2" by (simp_all add: sw_def)
  obtain s3 where s3: "on_fd a (dfs_file_open E path flags) s2 = Some (r, s3)" "s3 = sw\<lparr>objs := (objs sw)(a \<mapsto> d')\<rparr>"
      "fds_inv ((\<lambda>a. 1)(a := 2)) s3" "slot s3 = slot s2" "objs s3 a = Some d'" "fd_view s3 = (fd_view s2)(n \<mapsto> d')"
    by (rule on_fd_step [where f = "dfs_file_open E path flags", OF s2(2,3,4) o(1) [folded sw_def] e o(3,4)])
  have "slot s3 n = Some a" using s3(4) s2(3) by simp
  from put_call [OF s3(3) this s3(5)] obtain s4 where s4: "fd_put a s3 = Some s4" "fds_inv (\<lambda>a. 1) s4" "fds_frame s3 s4" "slot s4 = slot s3"
      "objs s4 a = Some (less_refs d')" "fd_view s4 = (fd_view s3)(n \<mapsto> less_refs d')" by blast
  have "call_frame s s4" using s4(3) o(2) a by (simp add: call_frame_def fds_frame_def s3(2) fr sw_def)
  moreover have "fd_view s4 = (fd_view s)(n \<mapsto> less_refs d')" using s4(6) s3(6) s2(5) by simp
  moreover have "slot s4 n = Some a" using s4(4) s3(4) s2(3) by simp
  moreover have "world s4 = w" using s4(3) by (simp add: fds_frame_def s3(2) sw_def)
  moreover have "driver_opens E flags cs s2 = driver_opens E flags cs s" by (rule driver_opens_cong) (use s2(1) in \<open>simp_all add: fds_frame_def\<close>)
  ultimately show thesis using that [OF s3(1) s4(1,2) _ _ s4(5)] o(5) unfolding fr by metis
qed

lemma open_call:
  assumes E: "drivers_ok E" "open_answers E s" and inv: "dfs_inv s" "goes_to s path cs" and m: "\<forall>k. asked s \<le> k \<longrightarrow> mem s k"
  shows "\<exists>r s'. posix_open E path flags s = Some (r, s') \<and> open_done E flags cs s r s'"
  using inv(1)
proof (cases rule: open_start)
  case (Fail s1)
  then have "posix_open E path flags s = Some (- 1, set_errno (- ENOMEM) s1)" by (simp add: posix_open_def)
  moreover have "\<forall>n < DFS_FD_MAX. fd_view s n \<noteq> None" using Fail(5) m by blast
  ultimately show ?thesis using Fail(2-4) by (auto simp: open_done_def frame_call set_errno_simps)
next
  case (New s1 s2 n a)
  obtain r d' s3 s4 where w: "on_fd a (dfs_file_open E path flags) s2 = Some (r, s3)" "fd_put a s3 = Some s4" "fds_inv (\<lambda>a. 1) s4" "call_frame s s4"
    "slot s4 n = Some a" "objs s4 a = Some (less_refs d')" "fd_view s4 = (fd_view s)(n \<mapsto> less_refs d')"
    "r < 0 \<and> (\<forall>q e w. driver_opens E flags cs s (more_refs fresh_fd) q e w \<longrightarrow> q < 0) \<or>
      r = 0 \<and> fd_fops d' \<noteq> None \<and> (\<exists>i ds t. deepest (fs_table s) cs i ds \<and> fs_ops (fs_table s ! i) = Some t \<and> fd_path d' = Some (path_for (ops_at E t) ds cs)) \<and>
        (\<exists>q e. driver_opens E flags cs s (more_refs fresh_fd) q e (world s4) \<and> 0 \<le> q \<and> d' = opened_fd flags e)"
    by (rule open_file_work [OF E inv m New(6,7,8,9,10)])
  have fr: "fs_table s4 = fs_table s" "work_dir s4 = work_dir s" using w(4) by (simp_all add: call_frame_def)
  show ?thesis
  proof (cases "r < 0")
    case True
    from put_last [OF w(3,5,6)] obtain s5 where s5: "fd_put a s4 = Some s5" "fds_inv (\<lambda>a. 1) s5" "fds_frame s4 s5" "fd_view s5 = (fd_view s4)(n := None)" by blast
    have v: "fd_view s5 = fd_view s" using s5(4) w(7) New(4) by (simp add: fun_upd_idem)
    have f5: "call_frame s s5" using call_frame_trans [OF w(4) frame_call [OF s5(3)]] .
    then have "dfs_inv s5" using inv(1) s5(2) v by (simp add: dfs_inv_def wd_ok_def call_frame_def)
    moreover have "posix_open E path flags s = Some (- 1, set_errno r s5)" using New(1,2) w(1,2) s5(1) True by (simp add: posix_open_def)
    moreover have "\<forall>q e w. driver_opens E flags cs s (more_refs fresh_fd) q e w \<longrightarrow> q < 0" using w(8) True by simp
    ultimately show ?thesis using True f5 v by (auto simp: open_done_def)
  next
    case False
    then obtain i ds t where f: "fd_fops d' \<noteq> None" "deepest (fs_table s) cs i ds" "fs_ops (fs_table s ! i) = Some t" "fd_path d' = Some (path_for (ops_at E t) ds cs)"
      using w(8) by blast
    obtain q e where q: "driver_opens E flags cs s (more_refs fresh_fd) q e (world s4)" "0 \<le> q" "d' = opened_fd flags e" using w(8) False by blast
    have "dfs_inv s4" by (rule dfs_inv_view [OF inv(1) w(3,7) _ _ fr]) (use f in simp_all)
    moreover have "posix_open E path flags s = Some (int n + DFS_FD_OFFSET, s4)" using New(1,2) w(1,2) False by (simp add: posix_open_def)
    moreover have "fd_path (less_refs d') = Some (path_for (ops_at E t) ds cs)" using f(4) by simp
    moreover have "less_refs d' = less_refs (opened_fd flags e)" using q(3) by simp
    ultimately show ?thesis using w(4,7) New(3-5) f(2,3) q(1,2) unfolding open_done_def by blast
  qed
qed


definition close_done :: "'s dfs \<Rightarrow> int \<Rightarrow> int \<Rightarrow> dfs_fd \<Rightarrow> 's dfs \<Rightarrow> bool" where
  "close_done s fd r d' s' \<longleftrightarrow> dfs_inv s' \<and> call_frame s s' \<and>
     (if r < 0 then errno s' = r \<and> fd_view s' = (fd_view s)(nat (place s fd) \<mapsto> less_refs d')
      else fd_view s' = (fd_view s)(nat (place s fd) := None))"

lemma close_bad: "dfs_inv s \<Longrightarrow> open_at s fd = None \<Longrightarrow> posix_close E fd s = Some (- 1, set_errno (- EBADF) s)"
  using fd_call [of s fd "posix_close E fd s = Some (- 1, set_errno (- EBADF) s)"] dfs_invD(1) [of s] by (simp add: posix_close_def)

lemma close_open:
  assumes inv: "dfs_inv s" and E: "drivers_ok E" and o: "open_at s fd = Some d" and c: "dfs_file_close E (more_refs d) s = Some (r, d', s1)"
  shows "\<exists>s'. posix_close E fd s = Some (if r < 0 then - 1 else 0, s') \<and> close_done s fd r d' s' \<and> world s' = world s1"
proof -
  note k = file_close_keeps [OF E c]
  note ok = open_at_ok [OF inv o]
  from dfs_invD(1) [OF inv] show ?thesis
  proof (cases rule: fd_call [where fd = fd])
    case Bad
    then show ?thesis using o by simp
  next
    case (Got a d0 s0)
    have d: "d0 = d" using o Got(2) by simp
    obtain s2 s3 where w: "on_fd a (dfs_file_close E) s0 = Some (r, s2)" "fd_put a s2 = Some s3" "fds_inv (\<lambda>a. 1) s3"
        "fd_view s3 = (fd_view s)(nat (place s fd) \<mapsto> less_refs d')" "slot s3 = slot s" "s3 = s\<lparr>world := world s1, objs := (objs s)(a \<mapsto> less_refs d')\<rparr>"
      by (rule fd_work [OF dfs_invD(1) [OF inv] Got(5,6,3,9) fun_local_ops(8) [of E] c [folded d] k(1)]) (use k(2,3) Got(9) d in simp_all)
    have f3: "call_frame s s3" "fs_table s3 = fs_table s" "work_dir s3 = work_dir s" "world s3 = world s1" by (simp_all add: w(6) call_frame_def)
    show ?thesis
    proof (cases "r < 0")
      case True
      have "dfs_inv s3" by (rule dfs_inv_view [OF inv w(3,4)]) (use k(4) [OF True] ok f3 in \<open>auto simp: fd_kept_def\<close>)
      then show ?thesis using Got(1) w(1,2,4) True f3 by (simp add: posix_close_def close_done_def)
    next
      case False
      have "slot s3 (nat (place s fd)) = Some a" "objs s3 a = Some (less_refs d')" using w(5,6) Got(3) by simp_all
      from put_last [OF w(3) this] obtain s4 where s4: "fd_put a s3 = Some s4" "fds_inv (\<lambda>a. 1) s4" "fds_frame s3 s4"
        "fd_view s4 = (fd_view s3)(nat (place s fd) := None)" by blast
      have v: "fd_view s4 = (fd_view s)(nat (place s fd) := None)" using s4(4) w(4) by simp
      have "dfs_inv s4" using inv s4(2) v fds_frame_simps [OF s4(3)] f3 by (auto simp: dfs_inv_def wd_ok_def split: if_splits)
      moreover have "call_frame s s4" using call_frame_trans [OF f3(1) frame_call [OF s4(3)]] .
      ultimately show ?thesis using Got(1) w(1,2) s4(1) False v f3(4) fds_frame_simps(8) [OF s4(3)] by (simp add: posix_close_def close_done_def)
    qed
  qed
qed

lemma close_stuck:
  assumes inv: "dfs_inv s" and o: "open_at s fd = Some d" and c: "dfs_file_close E (more_refs d) s = None"
  shows "posix_close E fd s = None"
  using dfs_invD(1) [OF inv]
proof (cases rule: fd_call [where fd = fd])
  case (Got a d0 s0)
  have "dfs_file_close E (more_refs d) (s\<lparr>objs := (objs s)(a \<mapsto> more_refs d)\<rparr>) = None"
    using c fun_local_ops(8) [of E, unfolded fun_local_def, THEN spec, THEN spec, THEN spec] by simp
  then show ?thesis using Got o by (simp add: posix_close_def on_fd_def)
qed (use o in simp)

section \<open>Correctness of the calls\<close>

text \<open>C10: \<open>open\<close> is the one of POSIX, on every way out. It returns (no lock is left held, no descriptor object is lost or used after its
  release), and either answers -1 with an error number and leaves the open files as they were, or makes a descriptor with the
  smallest number from 3 on that is free, for the file that the path leads to: the driver of the file system mounted deepest
  above the path gets the part of the path below the mount point, and the descriptor is what it makes of a new one. It answers -1
  only when all 16 descriptors are in use or this driver refuses. The working directory decides for relative paths; the allocator
  does not fail and the drivers answer.\<close>

theorem open_smallest:
  assumes "drivers_ok E" "open_answers E s" "dfs_inv s" "goes_to s path cs" "\<forall>k. asked s \<le> k \<longrightarrow> mem s k"
  shows "\<exists>r s'. posix_open E path flags s = Some (r, s') \<and> open_done E flags cs s r s' \<and> ((\<forall>n < DFS_FD_MAX. fd_view s n \<noteq> None) \<longrightarrow> r = - 1)"
proof -
  obtain r s' where o: "posix_open E path flags s = Some (r, s')" "open_done E flags cs s r s'" using open_call [OF assms] by blast
  moreover have "r = - 1" if "\<forall>n < DFS_FD_MAX. fd_view s n \<noteq> None" using o(2) that unfolding open_done_def by blast
  ultimately show ?thesis by blast
qed


text \<open>A driver that always answers: reading gives nothing, writing takes everything. With it the state of a system that has mounted
  its two file systems.\<close>

definition null_fops :: "unit dfs_file_ops" where
  "null_fops = \<lparr>op_open = Some (\<lambda>t w d. Some (0, d, w)), op_close = Some (\<lambda>t w d. Some (0, d, w)), op_ioctl = None,
     op_read = Some (\<lambda>n t w d. Some ((0, []), d, w)), op_write = Some (\<lambda>b t w d. Some (int (length b), d, w)), op_flush = None,
     op_lseek = Some (\<lambda>n t w d. Some (n, d, w)), op_getdents = None\<rparr>"

definition null_drivers :: "unit drivers" where
  "null_drivers = \<lparr>ops_at = (\<lambda>n. \<lparr>ops_name = [], ops_flags = 0, ops_fops = 0, ops_mount = None, ops_unmount = None, ops_mkfs = None,
     ops_statfs = None, ops_unlink = None, ops_stat = None, ops_rename = None\<rparr>), fops_at = (\<lambda>n. null_fops),
     dev_find = (\<lambda>w n. None), dev_open = (\<lambda>w n. (0, w)), dev_close = (\<lambda>w n. (0, w))\<rparr>"

lemma null_drivers_ok: "drivers_ok null_drivers" "open_answers null_drivers s"
  by (simp_all add: drivers_ok_def fops_ok_def null_drivers_def null_fops_def op_keeps_def open_answers_def)

lemma idle_dfs_inv: "dfs_inv idle_dfs"
proof -
  have "fds_inv (\<lambda>a. 1) idle_dfs" by (simp add: fds_inv_def idle_dfs_def slots_differ_def)
  moreover have "fd_view idle_dfs n = None" for n by (simp add: fd_view_def slot_def idle_dfs_def)
  moreover have "fs_inv (fs_table idle_dfs)" using two_mounts_inv by (simp add: idle_dfs_def)
  moreover have "wd_ok idle_dfs" unfolding wd_ok_def by (intro exI [of _ "[]"]) (simp add: idle_dfs_def plain_def)
  ultimately show ?thesis by (simp add: dfs_inv_def)
qed

lemma idle_goes: "goes_to idle_dfs [SLASH, 97] [[97]]"
  by (simp add: goes_to_def from_dir_def names_Cons)

lemma open_smallest_witness: "\<exists>s'. posix_open null_drivers [SLASH, 97] 0 idle_dfs = Some (3, s')"
proof -
  have m: "\<forall>k. asked idle_dfs \<le> k \<longrightarrow> mem idle_dfs k" by (simp add: idle_dfs_def)
  from open_smallest [OF null_drivers_ok idle_dfs_inv idle_goes m, of 0] obtain r s' where
    o: "posix_open null_drivers [SLASH, 97] 0 idle_dfs = Some (r, s')" "open_done null_drivers 0 [[97]] idle_dfs r s'" by blast
  have v: "fd_view idle_dfs 0 = None" by (simp add: fd_view_def slot_def idle_dfs_def)
  have "r \<noteq> - 1"
    using o(1)
    by (simp add: posix_open_def fd_new_def fd_alloc_def fd_grow_def ask_def fd_get_def on_fd_def dfs_file_open_def full_path_def dfs_normalize_path_def
      normalize_loop.simps look_at_def copy_name.simps skip_slashes.simps normalize_end_def c_string_def idle_dfs_def two_mounts_def
      dfs_filesystem_lookup_def dfs_lock_def dfs_unlock_def zero_fs_def zero_fd_def null_drivers_def null_fops_def dfs_subdir_def call_op_def fd_put_def Let_def)
  then obtain n where n: "r = int n + DFS_FD_OFFSET" "\<forall>m < n. fd_view idle_dfs m \<noteq> None" using o(2) unfolding open_done_def by blast
  then have "n = 0" using v by (metis gr0I)
  then show ?thesis using o(1) n(1) by simp
qed


text \<open>\<open>close\<close> on every way out. A number that is not open is refused with \<open>EBADF\<close> and nothing changes. Otherwise the driver is asked
  once, on the descriptor; when it refuses, the descriptor stays open and the error number is the driver's, when it agrees the
  place is free again and its object is gone. No other descriptor is touched; the call goes on for ever only if the driver does.\<close>

theorem close_releases:
  assumes "dfs_inv s" "drivers_ok E"
  shows "case open_at s fd of
      None \<Rightarrow> posix_close E fd s = Some (- 1, set_errno (- EBADF) s)
    | Some d \<Rightarrow> (case dfs_file_close E (more_refs d) s of
          None \<Rightarrow> posix_close E fd s = None
        | Some (r, d', s1) \<Rightarrow> \<exists>s'. posix_close E fd s = Some (if r < 0 then - 1 else 0, s') \<and> close_done s fd r d' s' \<and> world s' = world s1)"
  using close_bad [OF assms(1)] close_open [OF assms] close_stuck [OF assms(1)] by (auto split: option.split)

text \<open>Descriptor 5 is not open.\<close>

lemma close_releases_witness: "posix_close null_drivers 5 idle_dfs = Some (- 1, set_errno (- EBADF) idle_dfs)"
proof -
  have "open_at idle_dfs 5 = None" by (simp add: open_at_def place_def fd_view_def slot_def idle_dfs_def)
  then show ?thesis using close_releases [OF idle_dfs_inv null_drivers_ok(1), of 5] by simp
qed

lemma io_calls:
  assumes "dfs_inv s" "drivers_ok E"
  shows "open_at s fd = None \<Longrightarrow>
      posix_read E fd len s = Some ((- 1, []), set_errno (- EBADF) s) \<and> posix_write E fd buf s = Some (- 1, set_errno (- EBADF) s) \<and>
      posix_lseek E fd off whence s = Some (- 1, set_errno (- EBADF) s)"
    and "open_at s fd = Some d \<Longrightarrow> dfs_file_read E len (more_refs d) s = Some ((r, bytes), d', s1) \<Longrightarrow>
      \<exists>s'. posix_read E fd len s = Some ((if r < 0 then - 1 else r, bytes), s') \<and> io_done s fd d' (world s1) s' \<and>
        errno s' = (if r < 0 then r else errno s)"
    and "open_at s fd = Some d \<Longrightarrow> dfs_file_write E buf (more_refs d) s = Some (r, d', s1) \<Longrightarrow>
      \<exists>s'. posix_write E fd buf s = Some (if r < 0 then - 1 else r, s') \<and> io_done s fd d' (world s1) s' \<and>
        errno s' = (if r < 0 then r else errno s)"
    and "open_at s fd = Some d \<Longrightarrow> seek_offset off whence (more_refs d) = Some (Some o1) \<Longrightarrow> 0 \<le> o1 \<Longrightarrow>
      dfs_file_lseek E o1 (more_refs d) s = Some (r, d', s1) \<Longrightarrow>
      \<exists>s'. posix_lseek E fd off whence s = Some (if r < 0 then - 1 else o1, s') \<and> io_done s fd d' (world s1) s' \<and>
        errno s' = (if r < 0 then r else errno s)"
proof -
  note k = fun_keeps_ops [OF assms(2)] more_keeps [OF assms(2)]
  show "posix_read E fd len s = Some ((- 1, []), set_errno (- EBADF) s) \<and> posix_write E fd buf s = Some (- 1, set_errno (- EBADF) s) \<and>
      posix_lseek E fd off whence s = Some (- 1, set_errno (- EBADF) s)" if "open_at s fd = None"
    by (simp add: calls_as_uses more_calls_as_uses fd_use_bad [OF assms(1) that])
  show "\<exists>s'. posix_read E fd len s = Some ((if r < 0 then - 1 else r, bytes), s') \<and> io_done s fd d' (world s1) s' \<and>
        errno s' = (if r < 0 then r else errno s)"
    if "open_at s fd = Some d" "dfs_file_read E len (more_refs d) s = Some ((r, bytes), d', s1)"
    using fd_use_open(2) [OF assms(1) k(1) fun_local_ops(1) that, where bad = "(- 1, [])"
        and finish = "\<lambda>(r, buf) s. if r < 0 then ((- 1, buf), set_errno r s) else ((r, buf), s)"]
    unfolding calls_as_uses by (auto split: if_splits)
  show "\<exists>s'. posix_write E fd buf s = Some (if r < 0 then - 1 else r, s') \<and> io_done s fd d' (world s1) s' \<and>
        errno s' = (if r < 0 then r else errno s)"
    if "open_at s fd = Some d" "dfs_file_write E buf (more_refs d) s = Some (r, d', s1)"
    using fd_use_open(2) [OF assms(1) k(2) fun_local_ops(2) that, where bad = "- 1" and finish = errno_of]
    unfolding calls_as_uses by (auto split: if_splits)
  show "\<exists>s'. posix_lseek E fd off whence s = Some (if r < 0 then - 1 else o1, s') \<and> io_done s fd d' (world s1) s' \<and>
        errno s' = (if r < 0 then r else errno s)"
    if "open_at s fd = Some d" "seek_offset off whence (more_refs d) = Some (Some o1)" "0 \<le> o1" "dfs_file_lseek E o1 (more_refs d) s = Some (r, d', s1)"
  proof -
    have "seek_work E off whence (more_refs d) s = Some (Some (r, o1), d', s1)" using that by (simp add: seek_work_def)
    from fd_use_open(2) [OF assms(1) k(8) more_local(1) that(1) this, where bad = "- 1" and finish =
        "\<lambda>x s. case x of None \<Rightarrow> (- 1, set_errno (- EINVAL) s) | Some (r, o1) \<Rightarrow> if r < 0 then (- 1, set_errno r s) else (o1, s)"]
    show ?thesis unfolding more_calls_as_uses by (auto split: if_splits)
  qed
qed



section \<open>Any sequence of calls\<close>

text \<open>The calls on descriptors, as they come from the threads: the lock serialises the table, and a call of one thread does its work
  between two others.\<close>

datatype file_call = Open "u8 list" u32 | Close int | Read int nat | Write int "u8 list" | Seek int int int | Truncate int int | Sync int | Control int int int

fun file_step :: "'s drivers \<Rightarrow> file_call \<Rightarrow> 's dfs \<Rightarrow> 's dfs option" where
  "file_step E (Open path flags) s = map_option snd (posix_open E path flags s)"
| "file_step E (Close fd) s = map_option snd (posix_close E fd s)"
| "file_step E (Read fd n) s = map_option snd (posix_read E fd n s)"
| "file_step E (Write fd buf) s = map_option snd (posix_write E fd buf s)"
| "file_step E (Seek fd off whence) s = map_option snd (posix_lseek E fd off whence s)"
| "file_step E (Truncate fd len) s = map_option snd (posix_ftruncate E fd len s)"
| "file_step E (Sync fd) s = map_option snd (posix_fsync E fd s)"
| "file_step E (Control fd cmd arg) s = map_option snd (posix_fcntl E fd cmd arg s)"

text \<open>What is asked of a call: a path leads somewhere, there is memory, and the driver answers.\<close>

definition driver_answers :: "'s dfs \<Rightarrow> int \<Rightarrow> ('r, 's) fd_fun \<Rightarrow> bool" where
  "driver_answers s fd f \<longleftrightarrow> (\<forall>d. open_at s fd = Some d \<longrightarrow> f (more_refs d) s \<noteq> None)"

fun call_ok :: "'s drivers \<Rightarrow> 's dfs \<Rightarrow> file_call \<Rightarrow> bool" where
  "call_ok E s (Open path flags) \<longleftrightarrow> (\<exists>cs. goes_to s path cs) \<and> (\<forall>k. asked s \<le> k \<longrightarrow> mem s k) \<and> open_answers E s"
| "call_ok E s (Close fd) \<longleftrightarrow> driver_answers s fd (dfs_file_close E)"
| "call_ok E s (Read fd n) \<longleftrightarrow> driver_answers s fd (dfs_file_read E n)"
| "call_ok E s (Write fd buf) \<longleftrightarrow> driver_answers s fd (dfs_file_write E buf)"
| "call_ok E s (Seek fd off whence) \<longleftrightarrow> driver_answers s fd (seek_work E off whence)"
| "call_ok E s (Truncate fd len) \<longleftrightarrow> driver_answers s fd (truncate_work E len)"
| "call_ok E s (Sync fd) \<longleftrightarrow> driver_answers s fd (dfs_file_flush E)"
| "call_ok E s (Control fd cmd arg) \<longleftrightarrow> driver_answers s fd (dfs_file_ioctl E cmd arg)"

lemma fd_use_step:
  assumes "dfs_inv s" "fun_keeps f" "fun_local f" "driver_answers s fd f"
    "\<And>q t. dfs_inv (snd (finish q t)) = dfs_inv t \<and> call_frame s (snd (finish q t)) = call_frame s t"
  shows "\<exists>s'. map_option snd (fd_use fd bad f finish s) = Some s' \<and> dfs_inv s' \<and> call_frame s s'"
proof (cases "open_at s fd")
  case None
  then show ?thesis using fd_use_bad [OF assms(1) None, of bad f finish] assms(1) by simp
next
  case (Some d)
  then obtain q d' s1 where "f (more_refs d) s = Some (q, d', s1)" using assms(4) by (auto simp: driver_answers_def)
  from fd_use_open(2) [OF assms(1-3) Some this, of bad finish] obtain s3 where
    "fd_use fd bad f finish s = Some (finish q s3)" "io_done s fd d' (world s1) s3" by blast
  then show ?thesis using assms(5) [of q s3] by (auto simp: io_done_def)
qed


lemma file_step_ok:
  assumes inv: "dfs_inv s" and E: "drivers_ok E" and c: "call_ok E s c"
  shows "\<exists>s'. file_step E c s = Some s' \<and> dfs_inv s' \<and> call_frame s s'"
proof -
  note k = fun_keeps_ops [OF E] more_keeps [OF E]
  note use = fd_use_step [OF inv]
  note d = calls_as_uses more_calls_as_uses
  show ?thesis
  proof (cases c)
    case (Open path flags)
    then obtain cs where "goes_to s path cs" using c by auto
    then show ?thesis using open_call [OF E _ inv, of path cs flags] c Open by (auto simp: open_done_def)
  next
    case (Close fd)
    show ?thesis
    proof (cases "open_at s fd")
      case None
      then show ?thesis using close_bad [OF inv None] inv Close by simp
    next
      case (Some d)
      then obtain r d' s1 where "dfs_file_close E (more_refs d) s = Some (r, d', s1)" using c Close by (auto simp: driver_answers_def)
      from close_open [OF inv E Some this] show ?thesis using Close by (auto simp: close_done_def)
    qed
  next
    case (Read fd n)
    show ?thesis
      unfolding Read file_step.simps d
      by (rule use [OF k(1) fun_local_ops(1)]) (use c Read in \<open>auto split: prod.split option.split\<close>)
  next
    case (Write fd buf)
    show ?thesis
      unfolding Write file_step.simps d
      by (rule use [OF k(2) fun_local_ops(2)]) (use c Write in \<open>auto split: prod.split option.split\<close>)
  next
    case (Seek fd off whence)
    show ?thesis
      unfolding Seek file_step.simps d
      by (rule use [OF k(8) more_local(1)]) (use c Seek in \<open>auto split: prod.split option.split\<close>)
  next
    case (Truncate fd len)
    show ?thesis
      unfolding Truncate file_step.simps d
      by (rule use [OF k(9) more_local(2)]) (use c Truncate in \<open>auto split: prod.split option.split\<close>)
  next
    case (Sync fd)
    show ?thesis
      unfolding Sync file_step.simps d
      by (rule use [OF k(3) fun_local_ops(3)]) (use c Sync in \<open>auto split: prod.split option.split\<close>)
  next
    case (Control fd cmd arg)
    show ?thesis
      unfolding Control file_step.simps d
      by (rule use [OF k(5) fun_local_ops(5)]) (use c Control in \<open>auto split: prod.split option.split\<close>)
  qed
qed

text \<open>The states that the calls lead to.\<close>

inductive file_reach :: "'s drivers \<Rightarrow> 's dfs \<Rightarrow> 's dfs \<Rightarrow> bool" for E s0 where
  start: "file_reach E s0 s0"
| call: "file_reach E s0 s \<Longrightarrow> call_ok E s c \<Longrightarrow> file_step E c s = Some s' \<Longrightarrow> file_reach E s0 s'"

lemma file_reach_inv:
  assumes "file_reach E s0 s" "dfs_inv s0" "drivers_ok E"
  shows "dfs_inv s \<and> call_frame s0 s"
  using assms
proof (induction rule: file_reach.induct)
  case (call s c s')
  then have "dfs_inv s" "call_frame s0 s" by simp_all
  moreover from file_step_ok [OF this(1) call.prems(2) call.hyps(2)] have "dfs_inv s'" "call_frame s s'" using call.hyps(3) by auto
  ultimately show ?case using call_frame_trans by blast
qed simp



end
