(* ===== verification/DfsMount.thy ===== *)
theory DfsMount
  imports DfsCalls
begin

text \<open>
  Mounting, \<^verbatim>\<open>rt-thread/components/dfs/src/dfs_fs.c\<close>: \<open>dfs_mount\<close>, \<open>dfs_unmount\<close>, \<open>dfs_mkfs\<close> and \<open>dfs_statfs\<close>. The mount table
  of \<open>RT_USING_DFS_MNTTABLE\<close> is not compiled in this configuration.
\<close>

section \<open>The code\<close>

text \<open>The first registered file system of the name.\<close>

fun find_type :: "'s drivers \<Rightarrow> u8 list \<Rightarrow> nat option list \<Rightarrow> nat option" where
  "find_type E name [] = None"
| "find_type E name (None # ts) = find_type E name ts"
| "find_type E name (Some t # ts) = (if ops_name (ops_at E t) = name then Some t else find_type E name ts)"

text \<open>The search for a free entry; \<open>Some None\<close> when the path is mounted already, which goes by the path as it was given.\<close>

fun mount_scan :: "u8 list \<Rightarrow> nat \<Rightarrow> dfs_filesystem list \<Rightarrow> nat option \<Rightarrow> nat option option option" where
  "mount_scan path i [] free = Some (Some free)"
| "mount_scan path i (e # es) free =
    (if fs_ops e = None then mount_scan path (i + 1) es (if free = None then Some i else free)
     else case fs_path e of
       None \<Rightarrow> None
     | Some p \<Rightarrow> if p = path then Some None else mount_scan path (i + 1) es free)"

definition clear_entry :: "nat \<Rightarrow> 's dfs \<Rightarrow> 's dfs" where
  "clear_entry i s = s\<lparr>fs_table := (fs_table s)[i := zero_fs]\<rparr>"

text \<open>The mount point has to be a directory, but for "/" and "/dev". The descriptor \<open>g\<close> is on the stack.\<close>

abbreviation DEV_PATH :: "u8 list" where "DEV_PATH \<equiv> [SLASH, 100, 101, 118]"

definition check_mount_point :: "'s drivers \<Rightarrow> dfs_fd \<Rightarrow> u8 list \<Rightarrow> 's dfs \<Rightarrow> (bool \<times> 's dfs) option" where
  "check_mount_point E g fullpath s =
    (if fullpath \<noteq> [SLASH] \<and> fullpath \<noteq> DEV_PATH
     then do {
       (r, fd, s1) \<leftarrow> dfs_file_open E fullpath O_DIRECTORY g s;
       if r < 0 then Some (False, s1)
       else do { (_, _, s2) \<leftarrow> dfs_file_close E fd s1; Some (True, s2) }
     }
     else Some (True, s))"

definition open_device :: "'s drivers \<Rightarrow> nat option \<Rightarrow> 's dfs \<Rightarrow> bool \<times> 's dfs" where
  "open_device E dev s = (case dev of None \<Rightarrow> (True, s) | Some dv \<Rightarrow> (case dev_open E (world s) dv of (r, w) \<Rightarrow> (r = 0, s\<lparr>world := w\<rparr>)))"

definition close_device :: "'s drivers \<Rightarrow> nat option \<Rightarrow> 's dfs \<Rightarrow> 's dfs" where
  "close_device E dev s = (case dev of None \<Rightarrow> s | Some dv \<Rightarrow> s\<lparr>world := snd (dev_close E (world s) dv)\<rparr>)"

text \<open>From the registration of the entry on.\<close>

definition mount_at ::
  "'s drivers \<Rightarrow> (nat \<Rightarrow> ptr \<Rightarrow> 's \<Rightarrow> dfs_filesystem \<Rightarrow> int \<times> dfs_filesystem \<times> 's) \<Rightarrow> nat option \<Rightarrow> nat \<Rightarrow> u8 list \<Rightarrow> nat \<Rightarrow> ptr \<Rightarrow> nat \<Rightarrow> 's dfs \<Rightarrow> int \<times> 's dfs" where
  "mount_at E mnt dev_id t fullpath rwflag data i s =
    (let s1 = dfs_unlock (s\<lparr>fs_table := (fs_table s)[i := (fs_table s ! i)\<lparr>fs_path := Some fullpath, fs_ops := Some t, fs_dev := dev_id\<rparr>]\<rparr>)
     in case open_device E dev_id s1 of (ok, s2) \<Rightarrow>
       if \<not> ok then (- 1, dfs_unlock (clear_entry i (dfs_lock s2)))
       else case mnt rwflag data (world s2) (fs_table s2 ! i) of (r, e, w) \<Rightarrow>
         let s3 = s2\<lparr>fs_table := (fs_table s2)[i := e], world := w\<rparr>
         in if r < 0 then (- 1, dfs_unlock (clear_entry i (dfs_lock (close_device E (if dev_id = None then None else fs_dev e) s3))))
            else (0, s3))"

definition dfs_mount :: "'s drivers \<Rightarrow> dfs_fd \<Rightarrow> u8 list option \<Rightarrow> u8 list \<Rightarrow> u8 list \<Rightarrow> nat \<Rightarrow> ptr \<Rightarrow> 's dfs \<Rightarrow> (int \<times> 's dfs) option" where
  "dfs_mount E g device_name path filesystemtype rwflag data s =
    (let dev_id = Option.bind device_name (dev_find E (world s))
     in if device_name \<noteq> None \<and> dev_id = None then Some (- 1, set_errno (- ENODEV) s)
        else case find_type E filesystemtype (fs_types s) of
          None \<Rightarrow> Some (- 1, set_errno (- ENODEV) s)
        | Some t \<Rightarrow>
            (case ops_mount (ops_at E t) of
               None \<Rightarrow> Some (- 1, set_errno (- ENOSYS) s)
             | Some mnt \<Rightarrow> do {
                 (full, s1) \<leftarrow> full_path path s;
                 case full of
                   None \<Rightarrow> Some (- 1, set_errno (- ENOTDIR) s1)
                 | Some fullpath \<Rightarrow> do {
                     (dir, s2) \<leftarrow> check_mount_point E g fullpath s1;
                     if \<not> dir then Some (- 1, set_errno (- ENOTDIR) s2)
                     else do {
                       let s3 = dfs_lock s2;
                       found \<leftarrow> mount_scan path 0 (fs_table s3) None;
                       case found of
                         None \<Rightarrow> Some (- 1, dfs_unlock (set_errno (- EINVAL) s3))
                       | Some None \<Rightarrow> Some (- 1, dfs_unlock (set_errno (- ENOSPC) s3))
                       | Some (Some i) \<Rightarrow> Some (mount_at E mnt dev_id t fullpath rwflag data i s3)
                     }
                   }
               }))"

text \<open>\<open>dfs_unmount\<close>: the first entry with the path.\<close>

fun unmount_scan :: "u8 list \<Rightarrow> nat \<Rightarrow> dfs_filesystem list \<Rightarrow> nat option" where
  "unmount_scan path i [] = None"
| "unmount_scan path i (e # es) = (if fs_path e = Some path then Some i else unmount_scan path (i + 1) es)"

definition dfs_unmount :: "'s drivers \<Rightarrow> u8 list \<Rightarrow> 's dfs \<Rightarrow> (int \<times> 's dfs) option" where
  "dfs_unmount E specialfile s = do {
     (full, s1) \<leftarrow> full_path specialfile s;
     case full of
       None \<Rightarrow> Some (- 1, set_errno (- ENOTDIR) s1)
     | Some fullpath \<Rightarrow>
         let s2 = dfs_lock s1
         in case unmount_scan fullpath 0 (fs_table s2) of
           None \<Rightarrow> Some (- 1, dfs_unlock s2)
         | Some i \<Rightarrow> do {
             t \<leftarrow> fs_ops (fs_table s2 ! i);
             case ops_unmount (ops_at E t) of
               None \<Rightarrow> Some (- 1, dfs_unlock s2)
             | Some f \<Rightarrow>
                 (case f (world s2) (fs_table s2 ! i) of (r, e, w) \<Rightarrow>
                   let s3 = s2\<lparr>fs_table := (fs_table s2)[i := e], world := w\<rparr>
                   in if r < 0 then Some (- 1, dfs_unlock s3)
                      else Some (0, dfs_unlock (clear_entry i (close_device E (fs_dev e) s3))))
           }
   }"

definition dfs_mkfs :: "'s drivers \<Rightarrow> u8 list \<Rightarrow> u8 list option \<Rightarrow> 's dfs \<Rightarrow> int \<times> 's dfs" where
  "dfs_mkfs E fs_name device_name s =
    (case Option.bind device_name (dev_find E (world s)) of
       None \<Rightarrow> (- 1, set_errno (- ENODEV) s)
     | Some dv \<Rightarrow>
         (case find_type E fs_name (fs_types s) of
            None \<Rightarrow> (- 1, s)
          | Some t \<Rightarrow>
              (case ops_mkfs (ops_at E t) of
                 None \<Rightarrow> (- 1, set_errno (- ENOSYS) s)
               | Some f \<Rightarrow> (case f (world s) dv of (r, w) \<Rightarrow> (r, s\<lparr>world := w\<rparr>)))))"

text \<open>\<open>dfs_statfs\<close> looks the path up as it is given; what the driver writes into the caller's buffer stays with the driver.\<close>

definition dfs_statfs :: "'s drivers \<Rightarrow> u8 list \<Rightarrow> 's dfs \<Rightarrow> (int \<times> 's dfs) option" where
  "dfs_statfs E path s =
    (case dfs_filesystem_lookup path s of
       (None, s1) \<Rightarrow> Some (- 1, s1)
     | (Some i, s1) \<Rightarrow> do {
         t \<leftarrow> fs_ops (fs_table s1 ! i);
         case ops_statfs (ops_at E t) of
           None \<Rightarrow> Some (- 1, s1)
         | Some f \<Rightarrow> (case f (world s1) (fs_table s1 ! i) of (r, w) \<Rightarrow> Some (r, s1\<lparr>world := w\<rparr>))
       })"


text \<open>\<open>statfs\<close> of \<^verbatim>\<open>dfs_posix.c\<close>.\<close>

definition posix_statfs :: "'s drivers \<Rightarrow> u8 list \<Rightarrow> 's dfs \<Rightarrow> (int \<times> 's dfs) option" where
  "posix_statfs E path s = map_option (\<lambda>(result, s1). if result < 0 then (- 1, set_errno result s1) else (result, s1)) (dfs_statfs E path s)"

section \<open>The mount table\<close>

text \<open>What a driver has to do for mounting: close operations answer, and mounting and unmounting leave the path and the operations of the
  entry to this component.\<close>

definition close_answers :: "'s drivers \<Rightarrow> bool" where
  "close_answers E \<longleftrightarrow> (\<forall>n f t w d. op_close (fops_at E n) = Some f \<longrightarrow> f t w d \<noteq> None)"

definition entry_kept :: "dfs_filesystem \<Rightarrow> dfs_filesystem \<Rightarrow> bool" where
  "entry_kept e e' \<longleftrightarrow> fs_path e' = fs_path e \<and> fs_ops e' = fs_ops e"

definition mounts_keep :: "'s drivers \<Rightarrow> bool" where
  "mounts_keep E \<longleftrightarrow> (\<forall>t f rw data w e. ops_mount (ops_at E t) = Some f \<longrightarrow> entry_kept e (fst (snd (f rw data w e)))) \<and>
     (\<forall>t f w e. ops_unmount (ops_at E t) = Some f \<longrightarrow> entry_kept e (fst (snd (f w e))))"

text \<open>The descriptors, the working directory and the lock are as before.\<close>

definition files_same :: "'s dfs \<Rightarrow> 's dfs \<Rightarrow> bool" where
  "files_same s s' \<longleftrightarrow> fds s' = fds s \<and> objs s' = objs s \<and> next_obj s' = next_obj s \<and> work_dir s' = work_dir s \<and> lock_depth s' = lock_depth s \<and>
     fs_types s' = fs_types s"

lemma goes_join: "plain ds \<Longrightarrow> goes_to s (join ds) ds"
  using join_chars(1-3) [of ds] by (simp add: goes_to_def from_dir_def plain_names resolve_self)

lemma full_path_join: "plain ds \<Longrightarrow> mem s (asked s) \<Longrightarrow> full_path (join ds) s = Some (Some (join ds), s\<lparr>asked := asked s + 1\<rparr>)"
  by (simp add: full_path_def ask_def normalize_plain)

lemma close_returns:
  assumes "close_answers E" "fd_fops d \<noteq> None"
  shows "\<exists>r d' s'. dfs_file_close E d s = Some (r, d', s')"
proof -
  obtain n where n: "fd_fops d = Some n" using assms(2) by blast
  show ?thesis
  proof (cases "op_close (fops_at E n)")
    case None
    then show ?thesis using n by (simp add: dfs_file_close_def fops_def)
  next
    case (Some f)
    then have "f (fs_table s) (world s) d \<noteq> None" using assms(1) unfolding close_answers_def by blast
    then obtain r d' w where "f (fs_table s) (world s) d = Some (r, d', w)" by auto
    then show ?thesis using n Some by (cases "r < 0") (simp_all add: dfs_file_close_def fops_def call_op_def)
  qed
qed

lemma check_mount_point_outcome:
  assumes E: "drivers_ok E" "open_answers E s" "close_answers E" and inv: "fs_inv (fs_table s)" "wd_ok s" "plain ds" and m: "\<forall>k. asked s \<le> k \<longrightarrow> mem s k"
  shows "\<exists>b k w. check_mount_point E g (join ds) s = Some (b, s\<lparr>asked := k, world := w\<rparr>)"
proof (cases "join ds \<noteq> [SLASH] \<and> join ds \<noteq> DEV_PATH")
  case False
  then have "check_mount_point E g (join ds) s = Some (True, s\<lparr>asked := asked s, world := world s\<rparr>)" unfolding check_mount_point_def by auto
  then show ?thesis by blast
next
  case True
  note ne = this
  obtain r d k w where o: "dfs_file_open E (join ds) O_DIRECTORY g s = Some (r, d, s\<lparr>asked := k, world := w\<rparr>)" "r < 0 \<or> fd_fops d \<noteq> None"
    using file_open_returns [OF E(1,2) inv(1,2) goes_join [OF inv(3)] m, of O_DIRECTORY g] by blast
  show ?thesis
  proof (cases "r < 0")
    case True
    then have "check_mount_point E g (join ds) s = Some (False, s\<lparr>asked := k, world := w\<rparr>)"
      using o(1) ne unfolding check_mount_point_def by simp
    then show ?thesis by blast
  next
    case False
    let ?s = "s\<lparr>asked := k, world := w\<rparr>"
    obtain q d' s' where c: "dfs_file_close E d ?s = Some (q, d', s')" using close_returns [OF E(3), of d ?s] o(2) False by auto
    have "s' = s\<lparr>asked := k, world := world s'\<rparr>" using file_close_keeps(1) [OF E(1) c] by simp
    moreover have "check_mount_point E g (join ds) s = Some (True, s')"
      using o(1) c False ne unfolding check_mount_point_def by simp
    ultimately show ?thesis by metis
  qed
qed

lemma mount_scan_found:
  "\<forall>e \<in> set es. fs_ops e \<noteq> None \<longrightarrow> fs_path e \<noteq> None \<Longrightarrow> e \<in> set es \<Longrightarrow> fs_ops e \<noteq> None \<Longrightarrow> fs_path e = Some path \<Longrightarrow>
   mount_scan path i es free = Some None"
  by (induction path i es free rule: mount_scan.induct) auto

lemma mount_scan_free:
  "\<forall>e \<in> set es. fs_ops e \<noteq> None \<longrightarrow> fs_path e \<noteq> None \<and> fs_path e \<noteq> Some path \<Longrightarrow>
   \<exists>r. mount_scan path i es free = Some (Some r) \<and> (\<forall>k. r = Some k \<longrightarrow> free = Some k \<or> (i \<le> k \<and> k < i + length es \<and> fs_ops (es ! (k - i)) = None))"
proof (induction es arbitrary: i free)
  case (Cons e es)
  define free1 where "free1 = (if fs_ops e = None \<and> free = None then Some i else free)"
  have step: "mount_scan path i (e # es) free = mount_scan path (i + 1) es free1"
    using Cons.prems by (auto simp: free1_def split: option.split)
  from Cons.IH [of "i + 1" free1] Cons.prems obtain r where r: "mount_scan path (i + 1) es free1 = Some (Some r)"
    "\<forall>k. r = Some k \<longrightarrow> free1 = Some k \<or> (i + 1 \<le> k \<and> k < i + 1 + length es \<and> fs_ops (es ! (k - (i + 1))) = None)" by auto
  have "free = Some k \<or> (i \<le> k \<and> k < i + length (e # es) \<and> fs_ops ((e # es) ! (k - i)) = None)" if "r = Some k" for k
    using r(2) [rule_format, OF that] by (auto simp: free1_def nth_Cons' split: if_splits)
  then show ?case using step r(1) by metis
qed simp


text \<open>The table with one entry more: the entry was free and the directory was not a mount point.\<close>

definition mounted_new :: "dfs_filesystem list \<Rightarrow> nat \<Rightarrow> u8 list list \<Rightarrow> dfs_filesystem list \<Rightarrow> bool" where
  "mounted_new t i ds t' \<longleftrightarrow> i < length t \<and> t ! i = zero_fs \<and> (\<forall>j. \<not> mounted_at t j ds) \<and> (\<exists>e. t' = t[i := e]) \<and> mounted_at t' i ds"

lemma zero_not_mounted: "t ! i = zero_fs \<Longrightarrow> \<not> mounted_at t i ds"
  by (simp add: mounted_at_def zero_fs_def)

lemma mounted_new_at:
  assumes "mounted_new t i ds t'"
  shows "mounted_at t' j es \<longleftrightarrow> (if j = i then es = ds else mounted_at t j es)"
proof -
  obtain e where e: "i < length t" "t' = t[i := e]" "mounted_at t' i ds" using assms by (auto simp: mounted_new_def)
  show ?thesis
  proof (cases "j = i")
    case True
    have "es = ds" if "mounted_at t' i es"
    proof -
      have "plain es" "plain ds" "join es = join ds" using that e(3) by (simp_all add: mounted_at_def del: join.simps)
      then show ?thesis by (metis join_inject)
    qed
    then show ?thesis using e(3) True by auto
  next
    case False
    then show ?thesis using e(2) by (simp add: mounted_at_def)
  qed
qed

lemma fs_invI:
  "length t = DFS_FILESYSTEMS_MAX \<Longrightarrow> (\<And>j. j < length t \<Longrightarrow> t ! j = zero_fs \<or> (\<exists>ds. mounted_at t j ds)) \<Longrightarrow>
   (\<And>j k ds. mounted_at t j ds \<Longrightarrow> mounted_at t k ds \<Longrightarrow> j = k) \<Longrightarrow> fs_inv t"
  unfolding fs_inv_def by blast

lemma fs_invD:
  "fs_inv t \<Longrightarrow> length t = DFS_FILESYSTEMS_MAX" "fs_inv t \<Longrightarrow> j < length t \<Longrightarrow> t ! j = zero_fs \<or> (\<exists>ds. mounted_at t j ds)"
  "fs_inv t \<Longrightarrow> mounted_at t j ds \<Longrightarrow> mounted_at t k ds \<Longrightarrow> j = k"
  unfolding fs_inv_def by blast+

lemma mounted_new_inv:
  assumes "fs_inv t" "mounted_new t i ds t'"
  shows "fs_inv t'"
proof (rule fs_invI)
  note at = mounted_new_at [OF assms(2)]
  obtain e where e: "i < length t" "t' = t[i := e]" "\<forall>j. \<not> mounted_at t j ds" using assms(2) by (auto simp: mounted_new_def)
  show "length t' = DFS_FILESYSTEMS_MAX" using fs_invD(1) [OF assms(1)] e(2) by simp
  show "t' ! j = zero_fs \<or> (\<exists>ds. mounted_at t' j ds)" if "j < length t'" for j
    using fs_invD(2) [OF assms(1), of j] that e(2) unfolding at by (cases "j = i") simp_all
  show "j = k" if "mounted_at t' j es" "mounted_at t' k es" for j k es
    using that e(3) fs_invD(3) [OF assms(1)] unfolding at by (metis (full_types))
qed

lemma cleared_at: "mounted_at (t[i := zero_fs]) j es \<longleftrightarrow> j \<noteq> i \<and> mounted_at t j es"
  by (cases "i < length t"; cases "j = i") (auto simp: mounted_at_def zero_fs_def)

lemma cleared_inv:
  assumes "fs_inv t"
  shows "fs_inv (t[i := zero_fs])"
proof (rule fs_invI)
  show "length (t[i := zero_fs]) = DFS_FILESYSTEMS_MAX" using fs_invD(1) [OF assms] by simp
  show "t[i := zero_fs] ! j = zero_fs \<or> (\<exists>ds. mounted_at (t[i := zero_fs]) j ds)" if "j < length (t[i := zero_fs])" for j
    using fs_invD(2) [OF assms, of j] that unfolding cleared_at by (cases "j = i") simp_all
  show "j = k" if "mounted_at (t[i := zero_fs]) j es" "mounted_at (t[i := zero_fs]) k es" for j k es
    using that fs_invD(3) [OF assms] unfolding cleared_at by blast
qed

text \<open>From the registration of the entry on.\<close>

lemma mount_at_outcome:
  assumes E: "mounts_keep E" "ops_mount (ops_at E t) = Some mnt" and inv: "fs_inv (fs_table s)" "plain ds" and i: "i < length (fs_table s)"
    "fs_table s ! i = zero_fs" "\<forall>j. \<not> mounted_at (fs_table s) j ds"
  shows "\<exists>r s'. mount_at E mnt dev t (join ds) rw data i s = (r, s') \<and> files_same (dfs_unlock s) s' \<and>
    (r = - 1 \<and> fs_table s' = fs_table s \<or> r = 0 \<and> mounted_new (fs_table s) i ds (fs_table s'))"
proof -
  define e1 where "e1 = (fs_table s ! i)\<lparr>fs_path := Some (join ds), fs_ops := Some t, fs_dev := dev\<rparr>"
  define s1 where "s1 = dfs_unlock (s\<lparr>fs_table := (fs_table s)[i := e1]\<rparr>)"
  obtain ok s2 where o: "open_device E dev s1 = (ok, s2)" by fastforce
  then have s2: "files_same s1 s2" "fs_table s2 = (fs_table s)[i := e1]"
    by (auto simp: open_device_def files_same_def s1_def dfs_unlock_def split: option.splits prod.splits)
  have sm: "files_same (dfs_unlock s) s1" by (simp add: files_same_def s1_def dfs_unlock_def)
  have undo: "((fs_table s)[i := x])[i := zero_fs] = fs_table s" for x using i(2) by (metis list_update_id list_update_overwrite)
  show ?thesis
  proof (cases ok)
    case False
    then have "mount_at E mnt dev t (join ds) rw data i s = (- 1, dfs_unlock (clear_entry i (dfs_lock s2)))"
      using o by (simp add: mount_at_def Let_def e1_def s1_def)
    then show ?thesis using sm s2 undo by (auto simp: files_same_def clear_entry_def dfs_lock_def dfs_unlock_def)
  next
    case True
    obtain r e w where m: "mnt rw data (world s2) (fs_table s2 ! i) = (r, e, w)" by (cases "mnt rw data (world s2) (fs_table s2 ! i)")
    define s3 where "s3 = s2\<lparr>fs_table := (fs_table s2)[i := e], world := w\<rparr>"
    have s3: "files_same (dfs_unlock s) s3" "fs_table s3 = (fs_table s)[i := e]" using sm s2 by (simp_all add: s3_def files_same_def)
    have "entry_kept (fs_table s2 ! i) e" using E m unfolding mounts_keep_def by (metis fst_conv snd_conv)
    then have e: "fs_path e = Some (join ds)" "fs_ops e = Some t" using s2(2) i(1) by (simp_all add: entry_kept_def e1_def)
    show ?thesis
    proof (cases "r < 0")
      case True
      define s4 where "s4 = close_device E (if dev = None then None else fs_dev e) s3"
      have s4: "files_same s3 s4" "fs_table s4 = fs_table s3" by (simp_all add: s4_def close_device_def files_same_def split: option.split)
      have "mount_at E mnt dev t (join ds) rw data i s = (- 1, dfs_unlock (clear_entry i (dfs_lock s4)))"
        using o \<open>ok\<close> m True by (simp add: mount_at_def Let_def e1_def s1_def s3_def s4_def)
      moreover have "files_same (dfs_unlock s) (dfs_unlock (clear_entry i (dfs_lock s4)))" "fs_table (dfs_unlock (clear_entry i (dfs_lock s4))) = fs_table s"
        using s3 s4 undo by (simp_all add: files_same_def clear_entry_def dfs_lock_def dfs_unlock_def)
      ultimately show ?thesis by blast
    next
      case False
      have "mount_at E mnt dev t (join ds) rw data i s = (0, s3)"
        using o \<open>ok\<close> m False by (simp add: mount_at_def Let_def e1_def s1_def s3_def)
      moreover have "mounted_new (fs_table s) i ds (fs_table s3)"
        using i inv(2) e s3(2) by (auto simp: mounted_new_def mounted_at_def)
      ultimately show ?thesis using s3(1) by blast
    qed
  qed
qed


section \<open>Correctness of mounting\<close>

lemma lookup_deepest:
  assumes "fs_inv (fs_table s)" "plain cs" "deepest (fs_table s) cs i ds"
  shows "dfs_filesystem_lookup (join cs) s = (Some i, s)"
  using assms(1,2)
proof (cases rule: lookup_best)
  case Nowhere
  then show ?thesis using assms(3) by (auto simp: deepest_def)
next
  case (Mounted j es)
  have m: "mounted_at (fs_table s) i ds" "prefix ds cs" "length es \<le> length ds" using assms(3) Mounted(2,3) by (auto simp: deepest_def)
  then have "length es = length ds" using Mounted(4) [OF m(1,2)] by simp
  then have "es = ds" using m(2) Mounted(3) by (auto simp: prefix_def append_eq_append_conv)
  then have "j = i" using fs_invD(3) [OF assms(1) Mounted(2)] m(1) by simp
  then show ?thesis using Mounted(1) by simp
qed

text \<open>What the lookup finds in a table with one entry more.\<close>

lemma lookup_new_below:
  assumes "fs_inv (fs_table s')" "mounted_new t i ds (fs_table s')" "plain cs" "prefix ds cs"
    "\<forall>j es. mounted_at t j es \<and> prefix es cs \<longrightarrow> length es < length ds"
  shows "dfs_filesystem_lookup (join cs) s' = (Some i, s')"
proof (rule lookup_deepest [OF assms(1,3)])
  show "deepest (fs_table s') cs i ds"
    using assms(4,5) unfolding deepest_def mounted_new_at [OF assms(2)] by (auto intro: less_imp_le)
qed

lemma lookup_new_other:
  assumes "fs_inv (fs_table s)" "fs_inv (fs_table s')" "mounted_new (fs_table s) i ds (fs_table s')" "plain cs" "\<not> prefix ds cs"
  shows "fst (dfs_filesystem_lookup (join cs) s') = fst (dfs_filesystem_lookup (join cs) s)"
  using assms(1,4)
proof (cases rule: lookup_best)
  case Nowhere
  have n: "\<not> prefix es cs" if "mounted_at (fs_table s') j es" for j es
    using that Nowhere(2) assms(5) unfolding mounted_new_at [OF assms(3)] by (auto split: if_splits)
  from assms(2,4) have "fst (dfs_filesystem_lookup (join cs) s') = None"
    by (cases rule: lookup_best) (use n in auto)
  then show ?thesis using Nowhere(1) by simp
next
  case (Mounted j es)
  have "j \<noteq> i" using Mounted(2) assms(3) zero_not_mounted unfolding mounted_new_def by blast
  then have "deepest (fs_table s') cs j es"
    using Mounted(2-4) assms(5) unfolding deepest_def mounted_new_at [OF assms(3)] by (auto split: if_splits)
  then show ?thesis using lookup_deepest [OF assms(2,4)] Mounted(1) by simp
qed

definition mount_done :: "'s dfs \<Rightarrow> u8 list list \<Rightarrow> int \<Rightarrow> 's dfs \<Rightarrow> bool" where
  "mount_done s ds r s' \<longleftrightarrow> files_same s s' \<and> (r = - 1 \<and> fs_table s' = fs_table s \<or> r = 0 \<and> (\<exists>i. mounted_new (fs_table s) i ds (fs_table s')))"

lemma mount_failed: "files_same s s' \<Longrightarrow> fs_table s' = fs_table s \<Longrightarrow> mount_done s ds (- 1) s'"
  by (simp add: mount_done_def)

lemma files_same_simps [simp]:
  "files_same s s" "files_same s (set_errno e s') = files_same s s'" "files_same s (s'\<lparr>asked := k\<rparr>) = files_same s s'"
  "files_same s (s'\<lparr>world := w\<rparr>) = files_same s s'" "fs_table (set_errno e s') = fs_table s'" "fs_table (dfs_lock s') = fs_table s'"
  "fs_table (dfs_unlock s') = fs_table s'" "dfs_unlock (set_errno e (dfs_lock s')) = set_errno e s'"
  by (simp_all add: files_same_def set_errno_def dfs_lock_def dfs_unlock_def)

lemma mount_outcome:
  assumes E: "drivers_ok E" "open_answers E s" "close_answers E" "mounts_keep E" and inv: "dfs_inv s" "plain ds" and m: "\<forall>k. asked s \<le> k \<longrightarrow> mem s k"
  shows "\<exists>r s'. dfs_mount E g dev (join ds) type rw data s = Some (r, s') \<and> mount_done s ds r s'"
proof -
  define dev_id where "dev_id = Option.bind dev (dev_find E (world s))"
  define s1 where "s1 = s\<lparr>asked := asked s + 1\<rparr>"
  have f: "full_path (join ds) s = Some (Some (join ds), s1)" using full_path_join [OF inv(2), of s] m by (simp add: s1_def)
  have t: "fs_inv (fs_table s)" "wd_ok s" using inv(1) by (simp_all add: dfs_inv_def)
  have "\<exists>b k w. check_mount_point E g (join ds) s1 = Some (b, s1\<lparr>asked := k, world := w\<rparr>)"
    by (rule check_mount_point_outcome [OF E(1) _ E(3) _ _ inv(2)]) (use E(2) t m in \<open>simp_all add: s1_def open_answers_def wd_ok_def\<close>)
  then obtain b k w where c: "check_mount_point E g (join ds) s1 = Some (b, s\<lparr>asked := k, world := w\<rparr>)" by (auto simp: s1_def)
  define s2 where "s2 = s\<lparr>asked := k, world := w\<rparr>"
  have s2: "files_same s s2" "fs_table s2 = fs_table s" by (simp_all add: s2_def)
  have full: "\<forall>e \<in> set (fs_table s). fs_ops e \<noteq> None \<longrightarrow> fs_path e \<noteq> None"
    using fs_invD(2) [OF t(1)] by (fastforce simp: in_set_conv_nth mounted_at_def zero_fs_def)
  consider (Dev) "dev \<noteq> None \<and> dev_id = None" | (Type) "\<not> (dev \<noteq> None \<and> dev_id = None)" "find_type E type (fs_types s) = None"
    | (Op) ft where "\<not> (dev \<noteq> None \<and> dev_id = None)" "find_type E type (fs_types s) = Some ft" "ops_mount (ops_at E ft) = None"
    | (Dir) ft mnt where "\<not> (dev \<noteq> None \<and> dev_id = None)" "find_type E type (fs_types s) = Some ft" "ops_mount (ops_at E ft) = Some mnt" "\<not> b"
    | (Go) ft mnt where "\<not> (dev \<noteq> None \<and> dev_id = None)" "find_type E type (fs_types s) = Some ft" "ops_mount (ops_at E ft) = Some mnt" "b"
    by fastforce
  then show ?thesis
  proof cases
    case (Go ft mnt)
    have d: "dfs_mount E g dev (join ds) type rw data s = do {
        found \<leftarrow> mount_scan (join ds) 0 (fs_table s) None;
        case found of
          None \<Rightarrow> Some (- 1, set_errno (- EINVAL) s2)
        | Some None \<Rightarrow> Some (- 1, set_errno (- ENOSPC) s2)
        | Some (Some i) \<Rightarrow> Some (mount_at E mnt dev_id ft (join ds) rw data i (dfs_lock s2)) }"
      using Go f c s2 unfolding dfs_mount_def Let_def dev_id_def [symmetric] s2_def [symmetric] by auto
    show ?thesis
    proof (cases "\<exists>j. mounted_at (fs_table s) j ds")
      case True
      then obtain j where "mounted_at (fs_table s) j ds" by blast
      then have j: "fs_table s ! j \<in> set (fs_table s)" "fs_ops (fs_table s ! j) \<noteq> None" "fs_path (fs_table s ! j) = Some (join ds)"
        by (simp_all add: mounted_at_def)
      have "dfs_mount E g dev (join ds) type rw data s = Some (- 1, set_errno (- EINVAL) s2)"
        using d mount_scan_found [OF full j, of 0 None] by simp
      then show ?thesis using mount_failed [of s "set_errno (- EINVAL) s2"] s2 by simp
    next
      case False
      have "fs_path e \<noteq> Some (join ds)" if "e \<in> set (fs_table s)" "fs_ops e \<noteq> None" for e
        using False that inv(2) by (auto simp: in_set_conv_nth mounted_at_def)
      then have "\<forall>e \<in> set (fs_table s). fs_ops e \<noteq> None \<longrightarrow> fs_path e \<noteq> None \<and> fs_path e \<noteq> Some (join ds)" using full by blast
      from mount_scan_free [OF this, of 0 None] obtain r where r: "mount_scan (join ds) 0 (fs_table s) None = Some (Some r)"
        "\<forall>k. r = Some k \<longrightarrow> k < length (fs_table s) \<and> fs_ops (fs_table s ! k) = None" by auto
      show ?thesis
      proof (cases r)
        case None
        then have "dfs_mount E g dev (join ds) type rw data s = Some (- 1, set_errno (- ENOSPC) s2)" using d r(1) by simp
        then show ?thesis using mount_failed [of s "set_errno (- ENOSPC) s2"] s2 by simp
      next
        case (Some i)
        then have i: "i < length (fs_table s)" "fs_ops (fs_table s ! i) = None" using r(2) by blast+
        then have z: "fs_table s ! i = zero_fs" using fs_invD(2) [OF t(1) i(1)] by (auto simp: mounted_at_def)
        have "\<exists>q s'. mount_at E mnt dev_id ft (join ds) rw data i (dfs_lock s2) = (q, s') \<and> files_same (dfs_unlock (dfs_lock s2)) s' \<and>
            (q = - 1 \<and> fs_table s' = fs_table (dfs_lock s2) \<or> q = 0 \<and> mounted_new (fs_table (dfs_lock s2)) i ds (fs_table s'))"
          by (rule mount_at_outcome [OF E(4) Go(3)]) (use t(1) s2(2) inv(2) i(1) z False in simp_all)
        then obtain q s' where q: "mount_at E mnt dev_id ft (join ds) rw data i (dfs_lock s2) = (q, s')" "files_same s2 s'"
            "q = - 1 \<and> fs_table s' = fs_table s \<or> q = 0 \<and> mounted_new (fs_table s) i ds (fs_table s')" using s2(2) by auto
        have "mount_done s ds q s'" using q(2,3) s2(1) by (auto simp: mount_done_def files_same_def)
        then show ?thesis using d r(1) Some q(1) by simp
      qed
    qed
  next
    case Dev
    then have "dfs_mount E g dev (join ds) type rw data s = Some (- 1, set_errno (- ENODEV) s)" unfolding dfs_mount_def Let_def dev_id_def [symmetric] by auto
    then show ?thesis using mount_failed [of s "set_errno (- ENODEV) s"] by simp
  next
    case Type
    then have "dfs_mount E g dev (join ds) type rw data s = Some (- 1, set_errno (- ENODEV) s)" unfolding dfs_mount_def Let_def dev_id_def [symmetric] by auto
    then show ?thesis using mount_failed [of s "set_errno (- ENODEV) s"] by simp
  next
    case Op
    then have "dfs_mount E g dev (join ds) type rw data s = Some (- 1, set_errno (- ENOSYS) s)" unfolding dfs_mount_def Let_def dev_id_def [symmetric] by auto
    then show ?thesis using mount_failed [of s "set_errno (- ENOSYS) s"] by simp
  next
    case Dir
    then have "dfs_mount E g dev (join ds) type rw data s = Some (- 1, set_errno (- ENOTDIR) s2)"
      using f c unfolding dfs_mount_def Let_def dev_id_def [symmetric] s2_def [symmetric] by auto
    then show ?thesis using mount_failed [of s "set_errno (- ENOTDIR) s2"] s2 by simp
  qed
qed

lemma mount_done_inv: "dfs_inv s \<Longrightarrow> mount_done s ds r s' \<Longrightarrow> dfs_inv s'"
  using same_fds [of s' s] mounted_new_inv [of "fs_table s" _ ds "fs_table s'"]
  by (auto simp: mount_done_def files_same_def dfs_inv_def wd_ok_def)


lemma unmount_scan_spec:
  "unmount_scan p i es = None \<and> (\<forall>e \<in> set es. fs_path e \<noteq> Some p) \<or>
   (\<exists>k. unmount_scan p i es = Some k \<and> i \<le> k \<and> k < i + length es \<and> fs_path (es ! (k - i)) = Some p)"
proof (induction p i es rule: unmount_scan.induct)
  case (2 p i e es)
  show ?case
  proof (cases "fs_path e = Some p")
    case False
    from 2 [OF False] False show ?thesis by (elim disjE conjE exE) (auto simp: nth_Cons')
  qed simp
qed simp

lemma kept_at: "entry_kept (t ! i) e \<Longrightarrow> mounted_at (t[i := e]) j es = mounted_at t j es"
  by (cases "i < length t"; cases "j = i") (auto simp: mounted_at_def entry_kept_def)

lemma kept_inv:
  assumes "fs_inv t" "entry_kept (t ! i) e" "mounted_at t i ds"
  shows "fs_inv (t[i := e])"
proof (rule fs_invI)
  show "length (t[i := e]) = DFS_FILESYSTEMS_MAX" using fs_invD(1) [OF assms(1)] by simp
  show "t[i := e] ! j = zero_fs \<or> (\<exists>ds. mounted_at (t[i := e]) j ds)" if "j < length (t[i := e])" for j
    using fs_invD(2) [OF assms(1), of j] that assms(3) unfolding kept_at [OF assms(2)] by (cases "j = i") auto
  show "j = k" if "mounted_at (t[i := e]) j es" "mounted_at (t[i := e]) k es" for j k es
    using that fs_invD(3) [OF assms(1)] unfolding kept_at [OF assms(2)] by blast
qed

definition unmount_done :: "'s dfs \<Rightarrow> u8 list list \<Rightarrow> int \<Rightarrow> 's dfs \<Rightarrow> bool" where
  "unmount_done s ds r s' \<longleftrightarrow> files_same s s' \<and> fs_inv (fs_table s') \<and>
     (r = - 1 \<and> (\<forall>j es. mounted_at (fs_table s') j es = mounted_at (fs_table s) j es) \<or>
      r = 0 \<and> (\<exists>i. mounted_at (fs_table s) i ds \<and> fs_table s' = (fs_table s)[i := zero_fs]))"

lemma unmount_outcome:
  assumes E: "mounts_keep E" and inv: "fs_inv (fs_table s)" "plain ds" and m: "mem s (asked s)"
  shows "\<exists>r s'. dfs_unmount E (join ds) s = Some (r, s') \<and> unmount_done s ds r s'"
proof -
  define s1 where "s1 = s\<lparr>asked := asked s + 1\<rparr>"
  have f: "full_path (join ds) s = Some (Some (join ds), s1)" using full_path_join [OF inv(2), of s] m by (simp add: s1_def)
  have s1: "files_same s s1" "fs_table s1 = fs_table s" by (simp_all add: s1_def)
  have refused: ?thesis if "dfs_unmount E (join ds) s = Some (- 1, s1)"
    using that s1 inv(1) by (simp add: unmount_done_def)
  from unmount_scan_spec [of "join ds" 0 "fs_table s"] show ?thesis
  proof (elim disjE conjE exE)
    assume "unmount_scan (join ds) 0 (fs_table s) = None"
    then show ?thesis using f s1(2) by (intro refused) (simp add: dfs_unmount_def Let_def)
  next
    fix i assume i: "unmount_scan (join ds) 0 (fs_table s) = Some i" "i < 0 + length (fs_table s)" "fs_path (fs_table s ! (i - 0)) = Some (join ds)"
    then have "fs_table s ! i \<noteq> zero_fs" by (auto simp: zero_fs_def)
    then have at: "mounted_at (fs_table s) i ds" using fs_invD(2) [OF inv(1), of i] i inv(2) by (auto simp: mounted_at_def)
    then obtain t where t: "fs_ops (fs_table s ! i) = Some t" by (auto simp: mounted_at_def)
    show ?thesis
    proof (cases "ops_unmount (ops_at E t)")
      case None
      then show ?thesis using f s1(2) i(1) t by (intro refused) (simp add: dfs_unmount_def Let_def)
    next
      case (Some u)
      obtain r e w where u: "u (world s1) (fs_table s ! i) = (r, e, w)" by (cases "u (world s1) (fs_table s ! i)")
      have kept: "entry_kept (fs_table s ! i) e" using E Some u unfolding mounts_keep_def by (metis fst_conv snd_conv)
      define s2 where "s2 = (dfs_lock s1)\<lparr>fs_table := (fs_table s)[i := e], world := w\<rparr>"
      have d: "dfs_unmount E (join ds) s = (if r < 0 then Some (- 1, dfs_unlock s2) else Some (0, dfs_unlock (clear_entry i (close_device E (fs_dev e) s2))))"
        using f s1(2) i(1) t Some u by (simp add: dfs_unmount_def Let_def s2_def) (simp add: dfs_lock_def)
      show ?thesis
      proof (cases "r < 0")
        case True
        have "files_same s (dfs_unlock s2)" "fs_table (dfs_unlock s2) = (fs_table s)[i := e]"
          using s1(1) by (simp_all add: s2_def files_same_def dfs_lock_def dfs_unlock_def)
        then have "unmount_done s ds (- 1) (dfs_unlock s2)"
          unfolding unmount_done_def using kept_inv [OF inv(1) kept at] kept_at [OF kept] by simp
        then show ?thesis using d True by simp
      next
        case False
        define s3 where "s3 = dfs_unlock (clear_entry i (close_device E (fs_dev e) s2))"
        have "files_same s s3" "fs_table s3 = (fs_table s)[i := zero_fs]"
          using s1(1) by (simp_all add: s3_def s2_def files_same_def dfs_lock_def dfs_unlock_def clear_entry_def close_device_def split: option.split)
        then have "unmount_done s ds 0 s3" unfolding unmount_done_def using cleared_inv [OF inv(1)] at by auto
        then show ?thesis using d False by (simp add: s3_def)
      qed
    qed
  qed
qed

text \<open>C16: mounting puts one file system into the name space, or changes nothing. On a directory with a path in normal form \<open>dfs_mount\<close>
  returns, with the lock given back and every descriptor as it was, and the table in order. If it answers -1 the table is the one
  before, whatever failed: no such device or file system, no directory, a directory that is a mount point already, no room, the
  device or the driver. If it answers 0 a free entry stands for the directory; from then on the paths below it that are on no
  file system mounted deeper belong to it, and all other paths belong to the file system they were on.\<close>

theorem mount_takes_over:
  assumes "drivers_ok E" "open_answers E s" "close_answers E" "mounts_keep E" "dfs_inv s" "plain ds" "\<forall>k. asked s \<le> k \<longrightarrow> mem s k"
  shows "\<exists>r s'. dfs_mount E g dev (join ds) type rw data s = Some (r, s') \<and> files_same s s' \<and> dfs_inv s' \<and>
    (r = - 1 \<and> fs_table s' = fs_table s \<or>
     r = 0 \<and> (\<exists>i. mounted_new (fs_table s) i ds (fs_table s') \<and>
       (\<forall>cs. plain cs \<and> prefix ds cs \<and> (\<forall>j es. mounted_at (fs_table s) j es \<and> prefix es cs \<longrightarrow> length es < length ds) \<longrightarrow>
         dfs_filesystem_lookup (join cs) s' = (Some i, s')) \<and>
       (\<forall>cs. plain cs \<and> \<not> prefix ds cs \<longrightarrow> fst (dfs_filesystem_lookup (join cs) s') = fst (dfs_filesystem_lookup (join cs) s))))"
proof -
  obtain r s' where m: "dfs_mount E g dev (join ds) type rw data s = Some (r, s')" "mount_done s ds r s'" using mount_outcome [OF assms] by blast
  note inv = mount_done_inv [OF assms(5) m(2)]
  have t: "fs_inv (fs_table s)" "fs_inv (fs_table s')" using assms(5) inv by (simp_all add: dfs_inv_def)
  have "files_same s s'" "r = - 1 \<and> fs_table s' = fs_table s \<or> r = 0 \<and> (\<exists>i. mounted_new (fs_table s) i ds (fs_table s'))"
    using m(2) by (simp_all add: mount_done_def)
  then show ?thesis using m(1) inv lookup_new_below [OF t(2)] lookup_new_other [OF t] by blast
qed

text \<open>Unmounting takes one file system out of the name space, or leaves the mount points as they are. \<open>dfs_unmount\<close> returns with the
  lock given back, the descriptors as they were and the table in order; it answers 0 only if the directory was a mount point, and
  then the entry is cleared and no other has changed; it answers -1 if the directory is none or the driver refuses.\<close>

theorem unmount_gives_back:
  assumes "mounts_keep E" "dfs_inv s" "plain ds" "mem s (asked s)"
  shows "\<exists>r s'. dfs_unmount E (join ds) s = Some (r, s') \<and> files_same s s' \<and> dfs_inv s' \<and>
    (if r = 0 then \<exists>i. mounted_at (fs_table s) i ds \<and> fs_table s' = (fs_table s)[i := zero_fs] \<and>
         (\<forall>j es. mounted_at (fs_table s') j es \<longleftrightarrow> j \<noteq> i \<and> mounted_at (fs_table s) j es)
     else r = - 1 \<and> (\<forall>j es. mounted_at (fs_table s') j es = mounted_at (fs_table s) j es))"
proof -
  obtain r s' where u: "dfs_unmount E (join ds) s = Some (r, s')" "unmount_done s ds r s'"
    using unmount_outcome [of E s ds] assms by (auto simp: dfs_inv_def)
  have "dfs_inv s'" using u(2) assms(2) same_fds [of s' s] by (auto simp: unmount_done_def files_same_def dfs_inv_def wd_ok_def)
  then show ?thesis using u by (auto simp: unmount_done_def cleared_at)
qed

text \<open>C28: unmounting undoes mounting. If both calls succeed on a directory, with nothing in between, the mount table is again the one
  before, to the entry, and the descriptors have not changed.\<close>

theorem mount_unmount_roundtrip:
  assumes "drivers_ok E" "open_answers E s" "close_answers E" "mounts_keep E" "dfs_inv s" "plain ds" "\<forall>k. asked s \<le> k \<longrightarrow> mem s k"
    "dfs_mount E g dev (join ds) type rw data s = Some (0, s1)" "dfs_unmount E (join ds) s1 = Some (0, s2)" "mem s1 (asked s1)"
  shows "fs_table s2 = fs_table s \<and> files_same s s2 \<and> dfs_inv s2"
proof -
  have m: "mount_done s ds 0 s1" using mount_outcome [OF assms(1-7), of g dev type rw data] assms(8) by simp
  note inv = mount_done_inv [OF assms(5) m]
  have u: "unmount_done s1 ds 0 s2" using unmount_outcome [OF assms(4) _ assms(6,10)] assms(9) inv by (simp add: dfs_inv_def)
  obtain i where i: "mounted_new (fs_table s) i ds (fs_table s1)" using m by (auto simp: mount_done_def)
  obtain j where j: "mounted_at (fs_table s1) j ds" "fs_table s2 = (fs_table s1)[j := zero_fs]" using u by (auto simp: unmount_done_def)
  have "j = i" using j(1) i unfolding mounted_new_at [OF i] by (auto simp: mounted_new_def split: if_splits)
  then have t: "fs_table s2 = fs_table s" using j(2) i unfolding mounted_new_def by (metis list_update_id list_update_overwrite)
  have "files_same s s2" using m u by (simp add: mount_done_def unmount_done_def files_same_def)
  then show ?thesis using t assms(5) same_fds [of s2 s] by (simp add: files_same_def dfs_inv_def wd_ok_def)
qed


text \<open>A driver with a file system "d" that can be mounted and unmounted, and the directory "/dev".\<close>

definition mount_drivers :: "unit drivers" where
  "mount_drivers = null_drivers\<lparr>ops_at := (\<lambda>n. (ops_at null_drivers n)\<lparr>ops_name := [100], ops_mount := Some (\<lambda>rw data w e. (0, e, w)),
     ops_unmount := Some (\<lambda>w e. (0, e, w))\<rparr>)\<rparr>"

abbreviation DEV_DIR :: "u8 list list" where "DEV_DIR \<equiv> [[100, 101, 118]]"

lemma mount_drivers_ok: "drivers_ok mount_drivers" "open_answers mount_drivers s" "close_answers mount_drivers" "mounts_keep mount_drivers"
  by (simp_all add: mount_drivers_def drivers_ok_def fops_ok_def null_drivers_def null_fops_def op_keeps_def open_answers_def close_answers_def
    mounts_keep_def entry_kept_def)

lemma dev_dir_plain: "plain DEV_DIR" "plain [[100, 101, 118], [97]]"
  by (simp_all add: plain_def name_ok_def)

lemma dev_mounts:
  "\<exists>s'. dfs_mount mount_drivers zero_fd None (join DEV_DIR) [100] 0 NullPtr idle_dfs = Some (0, s') \<and> mem s' (asked s')"
  using full_path_join [OF dev_dir_plain(1), of idle_dfs]
  by (simp add: idle_dfs_def dfs_mount_def mount_drivers_def null_drivers_def check_mount_point_def two_mounts_def zero_fs_def Let_def dfs_lock_def
    mount_at_def open_device_def dfs_unlock_def)

lemma mount_takes_over_witness:
  "\<exists>s'. dfs_mount mount_drivers zero_fd None (join DEV_DIR) [100] 0 NullPtr idle_dfs = Some (0, s') \<and>
     (\<exists>i. dfs_filesystem_lookup (join [[100, 101, 118], [97]]) s' = (Some i, s'))"
proof -
  have m: "\<forall>k. asked idle_dfs \<le> k \<longrightarrow> mem idle_dfs k" by (simp add: idle_dfs_def)
  obtain s' where s: "dfs_mount mount_drivers zero_fd None (join DEV_DIR) [100] 0 NullPtr idle_dfs = Some (0, s')" using dev_mounts by blast
  have d: "\<forall>j es. mounted_at (fs_table idle_dfs) j es \<and> prefix es [[100, 101, 118], [97]] \<longrightarrow> length es < length DEV_DIR"
  proof (intro allI impI)
    fix j es assume a: "mounted_at (fs_table idle_dfs) j es \<and> prefix es [[100, 101, 118], [97]]"
    then have "mounted_at two_mounts j es" by (simp add: idle_dfs_def)
    then have "es = [] \<or> es = [[115, 100]]" unfolding two_mounts_at by blast
    then show "length es < length DEV_DIR" using a by auto
  qed
  from mount_takes_over [OF mount_drivers_ok idle_dfs_inv dev_dir_plain(1) m, of zero_fd None "[100]" 0 NullPtr] show ?thesis
  proof (elim exE conjE disjE)
    fix r s1 assume "dfs_mount mount_drivers zero_fd None (join DEV_DIR) [100] 0 NullPtr idle_dfs = Some (r, s1)" "r = - 1"
    then show ?thesis using s by simp
  next
    fix r s1 i assume a: "dfs_mount mount_drivers zero_fd None (join DEV_DIR) [100] 0 NullPtr idle_dfs = Some (r, s1)"
      "\<forall>cs. plain cs \<and> prefix DEV_DIR cs \<and> (\<forall>j es. mounted_at (fs_table idle_dfs) j es \<and> prefix es cs \<longrightarrow> length es < length DEV_DIR) \<longrightarrow>
         dfs_filesystem_lookup (join cs) s1 = (Some i, s1)"
    have "s1 = s'" using a(1) s by simp
    moreover have "dfs_filesystem_lookup (join [[100, 101, 118], [97]]) s1 = (Some i, s1)"
      by (rule a(2) [THEN spec, THEN mp]) (use d dev_dir_plain(2) in simp)
    ultimately show ?thesis using s by blast
  qed
qed

lemma unmount_gives_back_witness: "\<exists>s'. dfs_unmount mount_drivers (join [[115, 100]]) idle_dfs = Some (0, s') \<and> \<not> mounted_at (fs_table s') 1 [[115, 100]]"
proof -
  have p: "plain [[115, 100]]" by (simp add: plain_def name_ok_def)
  have f: "full_path (join [[115, 100]]) idle_dfs = Some (Some [SLASH, 115, 100], idle_dfs\<lparr>asked := 1\<rparr>)"
    using full_path_join [OF p, of idle_dfs] by (simp add: idle_dfs_def)
  obtain s' where s: "dfs_unmount mount_drivers (join [[115, 100]]) idle_dfs = Some (0, s')"
    unfolding dfs_unmount_def f by (simp add: idle_dfs_def two_mounts_def zero_fs_def dfs_lock_def mount_drivers_def null_drivers_def Let_def)
  from unmount_gives_back [OF mount_drivers_ok(4) idle_dfs_inv p] s obtain i where
    "mounted_at (fs_table idle_dfs) i [[115, 100]]" "\<forall>j es. mounted_at (fs_table s') j es \<longleftrightarrow> j \<noteq> i \<and> mounted_at (fs_table idle_dfs) j es"
    by (auto simp: idle_dfs_def)
  moreover from this(1) have "i = 1" using two_mounts_at [of i "[[115, 100]]"] by (simp add: idle_dfs_def)
  ultimately have "\<not> mounted_at (fs_table s') 1 [[115, 100]]" by simp
  then show ?thesis using s by blast
qed

lemma mount_unmount_roundtrip_witness:
  "\<exists>s1 s2. dfs_mount mount_drivers zero_fd None (join DEV_DIR) [100] 0 NullPtr idle_dfs = Some (0, s1) \<and>
     dfs_unmount mount_drivers (join DEV_DIR) s1 = Some (0, s2) \<and> fs_table s2 = two_mounts"
proof -
  have m: "\<forall>k. asked idle_dfs \<le> k \<longrightarrow> mem idle_dfs k" by (simp add: idle_dfs_def)
  obtain s1 where s1: "dfs_mount mount_drivers zero_fd None (join DEV_DIR) [100] 0 NullPtr idle_dfs = Some (0, s1)" "mem s1 (asked s1)"
      "dfs_unmount mount_drivers (join DEV_DIR) s1 \<noteq> None" "fst (the (dfs_unmount mount_drivers (join DEV_DIR) s1)) = 0"
  proof -
    define s1 where "s1 = idle_dfs\<lparr>asked := 1, fs_table := two_mounts[2 := zero_fs\<lparr>fs_path := Some (join DEV_DIR), fs_ops := Some 0\<rparr>]\<rparr>"
    have "dfs_mount mount_drivers zero_fd None (join DEV_DIR) [100] 0 NullPtr idle_dfs = Some (0, s1)"
      using full_path_join [OF dev_dir_plain(1), of idle_dfs]
      by (simp add: idle_dfs_def dfs_mount_def mount_drivers_def null_drivers_def check_mount_point_def two_mounts_def zero_fs_def Let_def dfs_lock_def
        mount_at_def open_device_def dfs_unlock_def s1_def)
    moreover have "dfs_unmount mount_drivers (join DEV_DIR) s1 \<noteq> None \<and> fst (the (dfs_unmount mount_drivers (join DEV_DIR) s1)) = 0"
      using full_path_join [OF dev_dir_plain(1), of s1]
      by (simp add: idle_dfs_def dfs_unmount_def mount_drivers_def null_drivers_def two_mounts_def zero_fs_def Let_def dfs_lock_def dfs_unlock_def s1_def)
    moreover have "mem s1 (asked s1)" by (simp add: s1_def idle_dfs_def)
    ultimately show thesis using that by blast
  qed
  then obtain s2 where s2: "dfs_unmount mount_drivers (join DEV_DIR) s1 = Some (0, s2)" by (cases "dfs_unmount mount_drivers (join DEV_DIR) s1") auto
  have "fs_table s2 = two_mounts"
    using mount_unmount_roundtrip [OF mount_drivers_ok idle_dfs_inv dev_dir_plain(1) m s1(1) s2 s1(2)] by (simp add: idle_dfs_def)
  then show ?thesis using s1(1) s2 by blast
qed

text \<open>The search for the mount point goes by the path as it was given, not by its normal form: "/sd/" is mounted a second time.\<close>

lemma mounted_twice: "full_path [SLASH, 115, 100, SLASH] idle_dfs = Some (Some [SLASH, 115, 100], idle_dfs\<lparr>asked := 1\<rparr>) \<and>
    mounted_at (fs_table idle_dfs) 1 [[115, 100]] \<and> mount_scan [SLASH, 115, 100, SLASH] 0 (fs_table idle_dfs) None = Some (Some (Some 2))"
proof -
  have "full_path [SLASH, 115, 100, SLASH] idle_dfs = Some (Some [SLASH, 115, 100], idle_dfs\<lparr>asked := 1\<rparr>)"
    by (simp add: full_path_def ask_def dfs_normalize_path_def normalize_loop.simps look_at_def copy_name.simps skip_slashes.simps normalize_end_def
      c_string_def idle_dfs_def)
  moreover have "mounted_at (fs_table idle_dfs) 1 [[115, 100]]" using two_mounts_at [of 1 "[[115, 100]]"] by (simp add: idle_dfs_def)
  moreover have "mount_scan [SLASH, 115, 100, SLASH] 0 (fs_table idle_dfs) None = Some (Some (Some 2))"
    by (simp add: idle_dfs_def two_mounts_def zero_fs_def)
  ultimately show ?thesis by blast
qed

end
