(* ===== verification/Romfs.thy ===== *)
theory Romfs
  imports DfsMount
begin

text \<open>
  The read-only file system in flash, \<^verbatim>\<open>rt-thread/components/dfs/filesystems/romfs/dfs_romfs.c\<close>, which is mounted on "/": the driver's
  operations, and that its search for a path is the walk down a tree of directories.
\<close>

section \<open>The code\<close>

abbreviation O_WRONLY :: u32 where "O_WRONLY \<equiv> 1"
abbreviation O_RDWR :: u32 where "O_RDWR \<equiv> 2"
abbreviation O_TRUNC :: u32 where "O_TRUNC \<equiv> 0x200"
abbreviation ROMFS_DIRENT_FILE :: u32 where "ROMFS_DIRENT_FILE \<equiv> 0"
abbreviation ROMFS_DIRENT_DIR :: u32 where "ROMFS_DIRENT_DIR \<equiv> 1"
abbreviation DT_REG :: u8 where "DT_REG \<equiv> 1"
abbreviation DT_DIR :: u8 where "DT_DIR \<equiv> 2"

text \<open>An entry: the name without its 0, and the address of the bytes of a file or of the entries of a directory. The image
  gives the constant entries and bytes by their addresses.\<close>

record romfs_dirent =
  rd_type :: u32
  rd_name :: "u8 list"
  rd_data :: "nat option"
  rd_size :: u32

record rom =
  rom_dirents :: "nat \<Rightarrow> romfs_dirent option"
  rom_bytes :: "nat \<Rightarrow> u8 option"

definition check_dirent :: "romfs_dirent \<Rightarrow> int" where
  "check_dirent d = (if rd_type d \<noteq> ROMFS_DIRENT_FILE \<and> rd_type d \<noteq> ROMFS_DIRENT_DIR \<or> rd_size d = - 1 then - 1 else 0)"

text \<open>From \<open>subpath_end\<close> to the next \<open>subpath\<close> and its end.\<close>

definition next_name :: "u8 list \<Rightarrow> u8 list \<times> u8 list" where
  "next_name p = (let q = dropWhile (\<lambda>c. c = SLASH) p in (takeWhile (\<lambda>c. c \<noteq> SLASH) q, dropWhile (\<lambda>c. c \<noteq> SLASH) q))"

text \<open>The search in a directory: \<open>Some None\<close> for a return of \<open>NULL\<close> and for the end of the loop, which come to the same.\<close>

fun search_dir :: "rom \<Rightarrow> u8 list \<Rightarrow> u8 list \<Rightarrow> nat \<Rightarrow> nat \<Rightarrow> nat option option" where
  "search_dir m sub rest a 0 = Some None"
| "search_dir m sub rest a (Suc n) = do {
     d \<leftarrow> rom_dirents m a;
     if check_dirent d \<noteq> 0 then Some None
     else do {
       l \<leftarrow> rt_strlen (rd_name d @ [0]);
       found \<leftarrow> (if l = length sub then map_option (\<lambda>r. r = 0) (rt_strncmp (rd_name d @ [0]) (sub @ rest @ [0]) (length sub)) else Some False);
       if found then Some (Some a) else search_dir m sub rest (a + 1) n
     }
   }"

lemma next_name_shorter: "fst (next_name p) \<noteq> [] \<Longrightarrow> length (snd (next_name p)) < length p"
proof -
  assume a: "fst (next_name p) \<noteq> []"
  define q where "q = dropWhile (\<lambda>c. c = SLASH) p"
  have "q = takeWhile (\<lambda>c. c \<noteq> SLASH) q @ dropWhile (\<lambda>c. c \<noteq> SLASH) q" by simp
  then have "length (dropWhile (\<lambda>c. c \<noteq> SLASH) q) < length q" using a by (metis next_name_def q_def fst_conv length_append length_greater_0_conv less_add_same_cancel2)
  moreover have "length q \<le> length p" by (simp add: q_def length_dropWhile_le)
  ultimately show ?thesis by (simp add: next_name_def q_def Let_def)
qed

text \<open>The outer loop: a name is found in the directory, and what follows decides.\<close>

function lookup_loop :: "rom \<Rightarrow> nat option \<Rightarrow> u32 \<Rightarrow> u8 list \<Rightarrow> u8 list \<Rightarrow> (nat \<times> u32) option option" where
  "lookup_loop m dirent size1 sub rest =
    (case dirent of
       None \<Rightarrow> Some None
     | Some a \<Rightarrow>
         (case search_dir m sub rest a (unat size1) of
            None \<Rightarrow> None
          | Some None \<Rightarrow> Some None
          | Some (Some e) \<Rightarrow>
              (case rom_dirents m e of
                 None \<Rightarrow> None
               | Some d \<Rightarrow>
                   if fst (next_name rest) = [] then Some (Some (e, rd_size d))
                   else if rd_type d = ROMFS_DIRENT_DIR then lookup_loop m (rd_data d) (rd_size d) (fst (next_name rest)) (snd (next_name rest))
                   else Some None)))"
  by pat_completeness auto
termination
  by (relation "measure (\<lambda>(m, d, z, sub, rest). length rest)") (auto dest: next_name_shorter split: prod.split)

declare lookup_loop.simps [simp del]

definition dfs_romfs_lookup :: "rom \<Rightarrow> nat \<Rightarrow> u8 list \<Rightarrow> (nat \<times> u32) option option" where
  "dfs_romfs_lookup m root path = do {
     d \<leftarrow> rom_dirents m root;
     if check_dirent d \<noteq> 0 then Some None
     else if path = [SLASH] then Some (Some (root, rd_size d))
     else lookup_loop m (rd_data d) (rd_size d) (fst (next_name path)) (snd (next_name path))
   }"

text \<open>The operations, in the form that the device file system calls them. \<open>data\<close> of a mounted entry is the root, \<open>data\<close> of an
  open file its entry.\<close>

definition dfs_romfs_mount :: "nat \<Rightarrow> ptr \<Rightarrow> 's \<Rightarrow> dfs_filesystem \<Rightarrow> int \<times> dfs_filesystem \<times> 's" where
  "dfs_romfs_mount rwflag data w e = (if data = NullPtr then (- EIO, e, w) else (0, e\<lparr>fs_data := data\<rparr>, w))"

definition dfs_romfs_unmount :: "'s \<Rightarrow> dfs_filesystem \<Rightarrow> int \<times> dfs_filesystem \<times> 's" where
  "dfs_romfs_unmount w e = (0, e, w)"

definition dfs_romfs_ioctl :: "int \<Rightarrow> int \<Rightarrow> (int, 's) file_op" where
  "dfs_romfs_ioctl cmd args t w d = Some (- EIO, d, w)"

definition rom_ptr :: "ptr \<Rightarrow> nat option" where
  "rom_ptr p = (case p of Ptr a \<Rightarrow> Some a | _ \<Rightarrow> None)"

definition dfs_romfs_open :: "rom \<Rightarrow> (int, 's) file_op" where
  "dfs_romfs_open m t w d = do {
     i \<leftarrow> (case fd_data d of FsEntry i \<Rightarrow> Some i | _ \<Rightarrow> None);
     root \<leftarrow> rom_ptr (fs_data (t ! i));
     rd \<leftarrow> rom_dirents m root;
     if check_dirent rd \<noteq> 0 then Some (- EIO, d, w)
     else if fd_flags d AND (O_CREAT OR O_WRONLY OR O_APPEND OR O_TRUNC OR O_RDWR) \<noteq> 0 then Some (- EINVAL, d, w)
     else do {
       path \<leftarrow> fd_path d;
       found \<leftarrow> dfs_romfs_lookup m root path;
       case found of
         None \<Rightarrow> Some (- ENOENT, d, w)
       | Some (e, size1) \<Rightarrow> do {
           de \<leftarrow> rom_dirents m e;
           if (rd_type de = ROMFS_DIRENT_DIR) \<noteq> (fd_flags d AND O_DIRECTORY \<noteq> 0) then Some (- ENOENT, d, w)
           else Some (0, d\<lparr>fd_data := Ptr e, fd_size := size1, fd_pos := 0\<rparr>, w)
         }
     }
   }"

definition dfs_romfs_close :: "(int, 's) file_op" where
  "dfs_romfs_close t w d = Some (0, d\<lparr>fd_data := NullPtr\<rparr>, w)"

fun rom_read :: "rom \<Rightarrow> nat \<Rightarrow> nat \<Rightarrow> u8 list option" where
  "rom_read m a 0 = Some []"
| "rom_read m a (Suc n) = do { b \<leftarrow> rom_bytes m a; bs \<leftarrow> rom_read m (a + 1) n; Some (b # bs) }"

text \<open>The length has 32 bits, the position is signed. Reading a directory would copy the entries themselves, which is left undefined.\<close>

definition dfs_romfs_read :: "rom \<Rightarrow> nat \<Rightarrow> (int \<times> u8 list, 's) file_op" where
  "dfs_romfs_read m count t w d = do {
     e \<leftarrow> rom_ptr (fd_data d);
     de \<leftarrow> rom_dirents m e;
     if check_dirent de \<noteq> 0 then Some ((- EIO, []), d, w)
     else do {
       let left = unat (fd_size d - of_int (fd_pos d));
       let len = (if count < left then count else left);
       bs \<leftarrow> (if 0 < len then do { a \<leftarrow> rd_data de; _ \<leftarrow> assert_that (0 \<le> fd_pos d \<and> rd_type de = ROMFS_DIRENT_FILE); rom_read m (a + nat (fd_pos d)) len }
         else Some []);
       Some ((sint (of_nat len :: u32), bs), d\<lparr>fd_pos := sint (of_int (fd_pos d) + of_nat len :: u32)\<rparr>, w)
     }
   }"

definition dfs_romfs_lseek :: "int \<Rightarrow> (int, 's) file_op" where
  "dfs_romfs_lseek offset t w d =
    (if (of_int offset :: u32) \<le> fd_size d then Some (offset, d\<lparr>fd_pos := offset\<rparr>, w) else Some (- EIO, d, w))"

definition dfs_romfs_stat :: "rom \<Rightarrow> 's \<Rightarrow> dfs_filesystem \<Rightarrow> u8 list \<Rightarrow> ((int \<times> file_stat option) \<times> 's) option" where
  "dfs_romfs_stat m w e path = do {
     root \<leftarrow> rom_ptr (fs_data e);
     found \<leftarrow> dfs_romfs_lookup m root path;
     case found of
       None \<Rightarrow> Some ((- ENOENT, None), w)
     | Some (a, size1) \<Rightarrow> do {
         de \<leftarrow> rom_dirents m a;
         Some ((0, Some \<lparr>st_mode = (if rd_type de = ROMFS_DIRENT_DIR then 0x41ff else 0x81b6), st_size = rd_size de\<rparr>), w)
       }
   }"

text \<open>\<open>getdents\<close>: records of 260 bytes, of type, length of the name, length of the record, and the name padded to 256 bytes.\<close>

fun rom_dents :: "rom \<Rightarrow> nat option \<Rightarrow> u32 \<Rightarrow> nat \<Rightarrow> int \<Rightarrow> (u8 list \<times> int) option" where
  "rom_dents m base size1 0 pos = Some ([], pos)"
| "rom_dents m base size1 (Suc n) pos =
    (if (of_int pos :: u32) < size1
     then do {
       a \<leftarrow> base;
       sd \<leftarrow> rom_dirents m (a + nat pos);
       l \<leftarrow> rt_strlen (rd_name sd @ [0]);
       name \<leftarrow> rt_strncpy (replicate DFS_PATH_MAX 0) (rd_name sd @ [0]) DFS_PATH_MAX;
       (recs, pos') \<leftarrow> rom_dents m base size1 n (pos + 1);
       Some ([if rd_type sd = ROMFS_DIRENT_DIR then DT_DIR else DT_REG, of_nat l, 4, 1] @ name @ recs, pos')
     }
     else Some ([], pos))"

definition dfs_romfs_getdents :: "rom \<Rightarrow> nat \<Rightarrow> (int \<times> u8 list, 's) file_op" where
  "dfs_romfs_getdents m count t w d = do {
     e \<leftarrow> rom_ptr (fd_data d);
     de \<leftarrow> rom_dirents m e;
     if check_dirent de \<noteq> 0 then Some ((- EIO, []), d, w)
     else do {
       _ \<leftarrow> assert_that (rd_type de = ROMFS_DIRENT_DIR);
       if count div 260 = 0 then Some ((- EINVAL, []), d, w)
       else do {
         (recs, pos) \<leftarrow> rom_dents m (rd_data de) (fd_size d) (count div 260) (fd_pos d);
         Some ((int (length recs), recs), d\<lparr>fd_pos := pos\<rparr>, w)
       }
     }
   }"

definition rom_fops :: "rom \<Rightarrow> 's dfs_file_ops" where
  "rom_fops m = \<lparr>op_open = Some (dfs_romfs_open m), op_close = Some dfs_romfs_close, op_ioctl = Some dfs_romfs_ioctl,
     op_read = Some (dfs_romfs_read m), op_write = None, op_flush = None, op_lseek = Some dfs_romfs_lseek, op_getdents = Some (dfs_romfs_getdents m)\<rparr>"

text \<open>The table \<open>_romfs\<close>; \<open>k\<close> is the address of \<open>_rom_fops\<close>.\<close>

definition romfs :: "rom \<Rightarrow> nat \<Rightarrow> 's dfs_filesystem_ops" where
  "romfs m k = \<lparr>ops_name = [114, 111, 109], ops_flags = 0, ops_fops = k, ops_mount = Some dfs_romfs_mount, ops_unmount = Some dfs_romfs_unmount,
     ops_mkfs = None, ops_statfs = None, ops_unlink = None, ops_stat = Some (dfs_romfs_stat m), ops_rename = None\<rparr>"


section \<open>The tree\<close>

text \<open>What an image stands for: files with their bytes, and folders with named entries.\<close>

datatype node = File (file_bytes: "u8 list") | Folder (entries: "(u8 list \<times> node) list")

fun walk :: "node \<Rightarrow> u8 list list \<Rightarrow> node option" where
  "walk t [] = Some t"
| "walk (File bs) (c # cs) = None"
| "walk (Folder es) (c # cs) = (case map_of es c of None \<Rightarrow> None | Some t \<Rightarrow> walk t cs)"

inductive stored :: "rom \<Rightarrow> nat \<Rightarrow> node \<Rightarrow> bool" for m where
  stored_file: "rom_dirents m a = Some d \<Longrightarrow> rd_type d = ROMFS_DIRENT_FILE \<Longrightarrow> rd_size d \<noteq> - 1 \<Longrightarrow> length bs = unat (rd_size d) \<Longrightarrow>
    (bs \<noteq> [] \<longrightarrow> (\<exists>p. rd_data d = Some p \<and> rom_read m p (length bs) = Some bs)) \<Longrightarrow> stored m a (File bs)"
| stored_folder: "rom_dirents m a = Some d \<Longrightarrow> rd_type d = ROMFS_DIRENT_DIR \<Longrightarrow> rd_size d \<noteq> - 1 \<Longrightarrow> length es = unat (rd_size d) \<Longrightarrow>
    (rd_data d = None \<longrightarrow> es = []) \<Longrightarrow>
    (\<forall>p i. rd_data d = Some p \<and> i < length es \<longrightarrow> 0 \<notin> set (fst (es ! i)) \<and>
      map_option rd_name (rom_dirents m (p + i)) = Some (fst (es ! i)) \<and> stored m (p + i) (snd (es ! i))) \<Longrightarrow> stored m a (Folder es)"

inductive_cases stored_fileE: "stored m a (File bs)"
inductive_cases stored_folderE: "stored m a (Folder es)"

text \<open>The entries of a directory, from the address \<open>p\<close> on.\<close>

definition stored_entries :: "rom \<Rightarrow> nat \<Rightarrow> (u8 list \<times> node) list \<Rightarrow> bool" where
  "stored_entries m p es \<longleftrightarrow> (\<forall>i < length es. 0 \<notin> set (fst (es ! i)) \<and>
     map_option rd_name (rom_dirents m (p + i)) = Some (fst (es ! i)) \<and> stored m (p + i) (snd (es ! i)))"

lemma stored_entries_Cons:
  "stored_entries m p (e # es) \<longleftrightarrow> 0 \<notin> set (fst e) \<and> map_option rd_name (rom_dirents m p) = Some (fst e) \<and> stored m p (snd e) \<and> stored_entries m (p + 1) es"
  unfolding stored_entries_def by (simp add: All_less_Suc2)

lemma stored_entry: "stored m a t \<Longrightarrow> \<exists>d. rom_dirents m a = Some d \<and> check_dirent d = 0 \<and> (rd_type d = ROMFS_DIRENT_DIR \<longleftrightarrow> (\<exists>es. t = Folder es))"
  by (cases rule: stored.cases) (auto simp: check_dirent_def)

lemma strlen_name: "0 \<notin> set name \<Longrightarrow> rt_strlen (name @ [0]) = Some (length name)"
  by (induction name) auto

lemma c_string_text: "0 \<notin> set xs \<Longrightarrow> KString.c_string (length xs) (xs @ [0])"
  by (metis strlen_name rt_strlen_iff)

lemma name_test:
  assumes "0 \<notin> set name" "0 \<notin> set (sub @ rest)" "length name = length sub"
  shows "\<exists>r. rt_strncmp (name @ [0]) (sub @ rest @ [0]) (length sub) = Some r \<and> (r = 0 \<longleftrightarrow> name = sub)"
  using rt_strncmp_zero [OF c_string_text [OF assms(1)] c_string_text [OF assms(2)], of "length sub"] assms(3) by simp

lemma search_dir_spec:
  assumes "stored_entries m p es" "0 \<notin> set (sub @ rest)"
  shows "case map_of es sub of
      None \<Rightarrow> search_dir m sub rest p (length es) = Some None
    | Some t \<Rightarrow> \<exists>a. search_dir m sub rest p (length es) = Some (Some a) \<and> stored m a t"
  using assms(1)
proof (induction es arbitrary: p)
  case (Cons e es)
  obtain nm t where e: "e = (nm, t)" by (cases e)
  have h: "0 \<notin> set nm" "map_option rd_name (rom_dirents m p) = Some nm" "stored m p t" "stored_entries m (p + 1) es"
    using Cons.prems by (simp_all add: stored_entries_Cons e)
  obtain d where d: "rom_dirents m p = Some d" "check_dirent d = 0" "rd_name d = nm" using stored_entry [OF h(3)] h(2) by auto
  have step: "search_dir m sub rest p (length (e # es)) = (if nm = sub then Some (Some p) else search_dir m sub rest (p + 1) (length es))"
  proof (cases "length nm = length sub")
    case True
    then show ?thesis using name_test [OF h(1) assms(2) True] d strlen_name [OF h(1)] by auto
  next
    case False
    then show ?thesis using d strlen_name [OF h(1)] by auto
  qed
  show ?case
  proof (cases "nm = sub")
    case True
    then show ?thesis unfolding step using h(3) e by simp
  next
    case False
    then show ?thesis unfolding step using Cons.IH [OF h(4)] e by (simp split: option.splits)
  qed
qed simp

lemma next_name_names:
  "fst (next_name p) = [] \<Longrightarrow> names p = []" "fst (next_name p) \<noteq> [] \<Longrightarrow> names p = fst (next_name p) # names (snd (next_name p))"
proof -
  show "names p = []" if "fst (next_name p) = []"
  proof (cases "dropWhile (\<lambda>c. c = SLASH) p")
    case Nil
    then show ?thesis by (rule names_blank)
  next
    case (Cons y ys)
    then have "y \<noteq> SLASH" using hd_dropWhile [of "\<lambda>c. c = SLASH" p] by simp
    then show ?thesis using that Cons by (simp add: next_name_def)
  qed
  show "names p = fst (next_name p) # names (snd (next_name p))" if "fst (next_name p) \<noteq> []"
  proof (cases "dropWhile (\<lambda>c. c = SLASH) p")
    case Nil
    have "fst (next_name p) = []" unfolding next_name_def Nil by simp
    then show ?thesis using that by simp
  next
    case (Cons y ys)
    then show ?thesis using names_Cons [OF Cons] by (simp add: next_name_def)
  qed
qed

lemma next_name_set: "set (fst (next_name p) @ snd (next_name p)) \<subseteq> set p"
  unfolding next_name_def Let_def by (auto dest!: set_dropWhileD set_takeWhileD)

text \<open>The answer of the search for the node \<open>t\<close> below.\<close>

definition finds :: "rom \<Rightarrow> node option \<Rightarrow> (nat \<times> u32) option option \<Rightarrow> bool" where
  "finds m t r \<longleftrightarrow> (case t of
     None \<Rightarrow> r = Some None
   | Some n \<Rightarrow> \<exists>e d. r = Some (Some (e, rd_size d)) \<and> rom_dirents m e = Some d \<and> stored m e n)"

lemma lookup_loop_walks:
  assumes "stored m a (Folder es)" "rom_dirents m a = Some d" "0 \<notin> set (sub @ rest)"
  shows "finds m (walk (Folder es) (sub # names rest)) (lookup_loop m (rd_data d) (rd_size d) sub rest)"
  using assms
proof (induction "length rest" arbitrary: a es d sub rest rule: less_induct)
  case less
  have size: "length es = unat (rd_size d)" "rd_data d = None \<Longrightarrow> es = []"
    and all: "\<And>p. rd_data d = Some p \<Longrightarrow> stored_entries m p es"
    using less.prems(1,2) by (auto elim!: stored_folderE simp: stored_entries_def)
  show ?case
  proof (cases "rd_data d")
    case None
    then show ?thesis using size(2) by (simp add: finds_def lookup_loop.simps)
  next
    case (Some p)
    note s = search_dir_spec [OF all [OF Some] less.prems(3)]
    show ?thesis
    proof (cases "map_of es sub")
      case None
      then show ?thesis using s Some size(1) by (simp add: finds_def lookup_loop.simps)
    next
      case (Some t)
      then obtain e where e: "search_dir m sub rest p (length es) = Some (Some e)" "stored m e t" using s by auto
      obtain f where f: "rom_dirents m e = Some f" "rd_type f = ROMFS_DIRENT_DIR \<longleftrightarrow> (\<exists>es. t = Folder es)" using stored_entry [OF e(2)] by blast
      let ?n = "next_name rest"
      have l: "lookup_loop m (rd_data d) (rd_size d) sub rest =
          (if fst ?n = [] then Some (Some (e, rd_size f))
           else if rd_type f = ROMFS_DIRENT_DIR then lookup_loop m (rd_data f) (rd_size f) (fst ?n) (snd ?n) else Some None)"
        using e(1) f(1) size(1) \<open>rd_data d = Some p\<close> by (subst lookup_loop.simps) simp
      have w: "walk (Folder es) (sub # names rest) = walk t (names rest)" using Some by simp
      show ?thesis
      proof (cases "fst ?n = []")
        case True
        then show ?thesis unfolding l w using e(2) f(1) next_name_names(1) [OF True] by (auto simp: finds_def)
      next
        case False
        have n: "walk (Folder es) (sub # names rest) = walk t (fst ?n # names (snd ?n))" using w next_name_names(2) [OF False] by simp
        show ?thesis
        proof (cases t)
          case (File bs)
          then show ?thesis unfolding l n using False f(2) by (simp add: finds_def)
        next
          case (Folder fs)
          have z: "0 \<notin> set (fst ?n @ snd ?n)" using next_name_set [of rest] less.prems(3) by auto
          have "finds m (walk (Folder fs) (fst ?n # names (snd ?n))) (lookup_loop m (rd_data f) (rd_size f) (fst ?n) (snd ?n))"
            by (rule less.hyps [OF next_name_shorter [OF False] _ f(1) z]) (use e(2) Folder in simp)
          then show ?thesis unfolding l n using False f(2) Folder by simp
        qed
      qed
    qed
  qed
qed

lemma lookup_walks:
  assumes "stored m a (Folder es)" "0 \<notin> set path" "path = [SLASH] \<or> names path \<noteq> []"
  shows "finds m (walk (Folder es) (names path)) (dfs_romfs_lookup m a path)"
proof -
  obtain d where d: "rom_dirents m a = Some d" "check_dirent d = 0" using stored_entry [OF assms(1)] by blast
  show ?thesis
  proof (cases "path = [SLASH]")
    case True
    then show ?thesis using assms(1) d by (simp add: dfs_romfs_lookup_def finds_def names_skip)
  next
    case False
    then have n: "fst (next_name path) \<noteq> []" using next_name_names(1) assms(3) by blast
    have z: "0 \<notin> set (fst (next_name path) @ snd (next_name path))" using next_name_set [of path] assms(2) by auto
    show ?thesis
      using lookup_loop_walks [OF assms(1) d(1) z] d False unfolding next_name_names(2) [OF n] by (simp add: dfs_romfs_lookup_def)
  qed
qed


section \<open>The driver keeps its contract\<close>

lemma rom_fops_ok: "fops_ok (rom_fops m)"
  unfolding fops_ok_def rom_fops_def op_keeps_def
  by (auto simp: dfs_romfs_open_def dfs_romfs_close_def dfs_romfs_ioctl_def dfs_romfs_read_def dfs_romfs_lseek_def dfs_romfs_getdents_def fd_kept_def Let_def
    split: ptr.splits option.splits bind_splits if_splits)

text \<open>What the open operation is asked, on a mounted image: the answer, and the descriptor it makes for a file.\<close>

abbreviation rom_asked :: "rom \<Rightarrow> nat \<Rightarrow> nat \<Rightarrow> u8 list list \<Rightarrow> u32 \<Rightarrow> dfs_fd \<Rightarrow> dfs_fd" where
  "rom_asked m k i rel flags d \<equiv> asked_fd (romfs m k :: unit dfs_filesystem_ops) i (join rel) flags d"

lemma asked_romfs: "asked_fd (romfs m k) i p flags d = asked_fd (romfs m k :: unit dfs_filesystem_ops) i p flags d"
  by (simp add: asked_fd_def romfs_def)

lemma path_for_romfs: "path_for (romfs m k) ds cs = join (drop (length ds) cs)"
  by (simp add: path_for_def romfs_def)

lemma rom_lookup_join:
  assumes "stored m a (Folder es)" "plain rel"
  shows "finds m (walk (Folder es) rel) (dfs_romfs_lookup m a (join rel))"
proof -
  have "join rel = [SLASH] \<or> names (join rel) \<noteq> []" using plain_names [OF assms(2)] by (cases rel) simp_all
  then show ?thesis using lookup_walks [OF assms(1) join_chars(1) [OF assms(2)]] plain_names [OF assms(2)] by simp
qed

lemma rom_open_answers:
  assumes "stored m root (Folder es)" "fs_data (t ! i) = Ptr root" "plain rel"
  shows "dfs_romfs_open m t w (rom_asked m k i rel flags d) \<noteq> None"
proof -
  obtain rd where rd: "rom_dirents m root = Some rd" "check_dirent rd = 0" using stored_entry [OF assms(1)] by blast
  note f = rom_lookup_join [OF assms(1,3)]
  obtain r where r: "dfs_romfs_lookup m root (join rel) = Some r" "\<And>e z. r = Some (e, z) \<Longrightarrow> \<exists>de. rom_dirents m e = Some de"
    using f unfolding finds_def by (cases "walk (Folder es) rel") auto
  show ?thesis
  proof (cases r)
    case None
    then show ?thesis using rd r(1) assms(2) by (simp add: dfs_romfs_open_def asked_fd_def rom_ptr_def)
  next
    case (Some x)
    then obtain e z de where "r = Some (e, z)" "rom_dirents m e = Some de" using r(2) by (cases x) auto
    then show ?thesis using rd r(1) assms(2) by (simp add: dfs_romfs_open_def asked_fd_def rom_ptr_def)
  qed
qed

text \<open>An open file of the image, at the position \<open>p\<close>.\<close>

definition rom_open :: "rom \<Rightarrow> u8 list \<Rightarrow> nat \<Rightarrow> dfs_fd \<Rightarrow> bool" where
  "rom_open m bs p d \<longleftrightarrow> (\<exists>e. fd_data d = Ptr e \<and> stored m e (File bs)) \<and> fd_size d = of_nat (length bs) \<and> fd_pos d = int p \<and> p \<le> length bs"

abbreviation RDONLY_FILE :: "u32 \<Rightarrow> bool" where
  "RDONLY_FILE flags \<equiv> flags AND (O_CREAT OR O_WRONLY OR O_APPEND OR O_TRUNC OR O_RDWR) = 0 \<and> flags AND O_DIRECTORY = 0"

lemma rom_opens_file:
  assumes "stored m root (Folder es)" "fs_data (t ! i) = Ptr root" "plain rel" "walk (Folder es) rel = Some (File bs)" "RDONLY_FILE flags"
  shows "\<exists>d'. dfs_romfs_open m t w (rom_asked m k i rel flags d) = Some (0, d', w) \<and> rom_open m bs 0 d' \<and> fd_fops d' = Some k"
proof -
  obtain rd where rd: "rom_dirents m root = Some rd" "check_dirent rd = 0" using stored_entry [OF assms(1)] by blast
  obtain e de where e: "dfs_romfs_lookup m root (join rel) = Some (Some (e, rd_size de))" "rom_dirents m e = Some de" "stored m e (File bs)"
    using rom_lookup_join [OF assms(1,3)] assms(4) unfolding finds_def by auto
  have de: "rd_type de \<noteq> ROMFS_DIRENT_DIR" "length bs = unat (rd_size de)" using e(2,3) by (auto elim!: stored_fileE)
  have size1: "rd_size de = of_nat (length bs)" using de(2) by simp
  have "dfs_romfs_open m t w (rom_asked m k i rel flags d) = Some (0, (rom_asked m k i rel flags d)\<lparr>fd_data := Ptr e, fd_size := rd_size de, fd_pos := 0\<rparr>, w)"
    using rd e(1,2) de(1) assms(2,5) by (simp add: dfs_romfs_open_def asked_fd_def rom_ptr_def)
  then show ?thesis using e(3) size1 by (simp add: rom_open_def asked_fd_def romfs_def)
qed

lemma rom_read_slice: "rom_read m a (length bs) = Some bs \<Longrightarrow> i + n \<le> length bs \<Longrightarrow> rom_read m (a + i) n = Some (take n (drop i bs))"
proof (induction bs arbitrary: a i n)
  case (Cons b bs)
  then have r: "rom_bytes m a = Some b" "rom_read m (a + 1) (length bs) = Some bs" by (auto split: bind_splits)
  show ?case
  proof (cases i)
    case 0
    show ?thesis
    proof (cases n)
      case (Suc n')
      then show ?thesis using Cons.IH [OF r(2), of 0 n'] Cons.prems(2) r(1) 0 by simp
    qed simp
  next
    case (Suc j)
    then show ?thesis using Cons.IH [OF r(2), of j n] Cons.prems(2) by simp
  qed
qed simp

lemma rom_reads:
  assumes "rom_open m bs p d" "length bs < 2 ^ 31"
  shows "\<exists>d'. dfs_romfs_read m n t w d = Some ((int (length (take n (drop p bs))), take n (drop p bs)), d', w) \<and>
    rom_open m bs (min (p + n) (length bs)) d' \<and> fd_fops d' = fd_fops d"
proof -
  obtain e de where e: "fd_data d = Ptr e" "stored m e (File bs)" "rom_dirents m e = Some de" "check_dirent de = 0"
    using assms(1) stored_entry unfolding rom_open_def by blast
  have d: "fd_size d = of_nat (length bs)" "fd_pos d = int p" "p \<le> length bs" using assms(1) by (simp_all add: rom_open_def)
  have ty: "rd_type de = ROMFS_DIRENT_FILE" and data: "bs \<noteq> [] \<Longrightarrow> \<exists>a. rd_data de = Some a \<and> rom_read m a (length bs) = Some bs"
    using e(2,3) by (auto elim!: stored_fileE)
  define len where "len = min n (length bs - p)"
  have "fd_size d - of_int (fd_pos d) = of_nat (length bs - p)" using d by (simp add: of_nat_diff)
  then have left: "unat (fd_size d - of_int (fd_pos d)) = length bs - p" using assms(2) by (simp add: unsigned_of_nat take_bit_nat_eq_self)
  have sint_nat: "sint (of_nat k :: u32) = int k" if "k < 2 ^ 31" for k
    using that by (simp add: signed_of_nat signed_take_bit_int_eq_self)
  have "of_int (fd_pos d) + of_nat len = (of_nat (p + len) :: u32)" using d(2) by simp
  then have small: "sint (of_nat len :: u32) = int len" "sint (of_int (fd_pos d) + of_nat len :: u32) = int (p + len)"
    using sint_nat [of len] sint_nat [of "p + len"] assms(2) d(3) by (simp_all add: len_def)
  have bytes: "(if 0 < len then do { a \<leftarrow> rd_data de; _ \<leftarrow> assert_that (0 \<le> fd_pos d \<and> rd_type de = ROMFS_DIRENT_FILE); rom_read m (a + nat (fd_pos d)) len } else Some [])
      = Some (take n (drop p bs))"
  proof (cases "0 < len")
    case True
    then have "bs \<noteq> []" by (auto simp: len_def)
    then obtain a where a: "rd_data de = Some a" "rom_read m a (length bs) = Some bs" using data by blast
    have "rom_read m (a + p) len = Some (take len (drop p bs))" by (rule rom_read_slice [OF a(2)]) (use d(3) in \<open>simp add: len_def\<close>)
    moreover have "take len (drop p bs) = take n (drop p bs)" by (simp add: len_def min_def)
    ultimately show ?thesis using True a(1) d(2) ty by simp
  next
    case False
    then show ?thesis by (auto simp: len_def)
  qed
  have cut: "(if n < length bs - p then n else length bs - p) = len" by (simp add: len_def)
  have "dfs_romfs_read m n t w d = Some ((int len, take n (drop p bs)), d\<lparr>fd_pos := int (p + len)\<rparr>, w)"
    using e(1,3,4) bytes unfolding dfs_romfs_read_def Let_def left cut small by (simp add: rom_ptr_def)
  moreover have "length (take n (drop p bs)) = len" "p + len = min (p + n) (length bs)" using d(3) by (simp_all add: len_def)
  ultimately show ?thesis using e(1,2) d(1) by (simp add: rom_open_def)
qed


section \<open>Reading files through the calls\<close>

text \<open>The image is mounted as the entry \<open>i\<close>; the descriptor \<open>fd\<close> is a file of it, at the position \<open>p\<close>.\<close>

definition rom_on :: "'s drivers \<Rightarrow> rom \<Rightarrow> nat \<Rightarrow> 's dfs \<Rightarrow> nat \<Rightarrow> bool" where
  "rom_on E m root s i \<longleftrightarrow> fs_data (fs_table s ! i) = Ptr root \<and>
     (\<exists>t k. fs_ops (fs_table s ! i) = Some t \<and> ops_at E t = romfs m k \<and> fops_at E k = rom_fops m)"

definition rom_file :: "'s drivers \<Rightarrow> rom \<Rightarrow> u8 list \<Rightarrow> nat \<Rightarrow> 's dfs \<Rightarrow> int \<Rightarrow> bool" where
  "rom_file E m bs p s fd \<longleftrightarrow> (\<exists>d k. open_at s fd = Some d \<and> fd_fops d = Some k \<and> fops_at E k = rom_fops m \<and> rom_open m bs p d)"

lemma rom_open_refs [simp]: "rom_open m bs p (d\<lparr>fd_ref := r\<rparr>) = rom_open m bs p d"
  by (simp add: rom_open_def)

lemma io_done_place: "io_done s fd d' w s' \<Longrightarrow> 0 \<le> place s fd \<Longrightarrow> open_at s' fd = Some (less_refs d')"
proof -
  assume a: "io_done s fd d' w s'" "0 \<le> place s fd"
  then have "place s' fd = place s fd" by (simp add: place_def io_done_def call_frame_def)
  then show ?thesis using a by (simp add: open_at_def io_done_def)
qed

lemma open_at_place: "open_at s fd = Some d \<Longrightarrow> 0 \<le> place s fd"
  by (simp add: open_at_def split: if_splits)

lemma posix_read_rom:
  assumes "dfs_inv s" "drivers_ok E" "rom_file E m bs p s fd" "length bs < 2 ^ 31"
  shows "\<exists>s'. posix_read E fd n s = Some ((int (length (take n (drop p bs))), take n (drop p bs)), s') \<and> dfs_inv s' \<and>
    rom_file E m bs (min (p + n) (length bs)) s' fd"
proof -
  obtain d k where d: "open_at s fd = Some d" "fd_fops d = Some k" "fops_at E k = rom_fops m" "rom_open m bs p d"
    using assms(3) unfolding rom_file_def by blast
  obtain d' where r: "dfs_romfs_read m n (fs_table s) (world s) (more_refs d) = Some ((int (length (take n (drop p bs))), take n (drop p bs)), d', world s)"
      "rom_open m bs (min (p + n) (length bs)) d'" "fd_fops d' = Some k"
    using rom_reads [of m bs p "more_refs d" n "fs_table s" "world s"] d assms(4) by auto
  have "dfs_file_read E n (more_refs d) s = Some ((int (length (take n (drop p bs))), take n (drop p bs)), d', s\<lparr>world := world s\<rparr>)"
    using d(2,3) r(1) by (simp add: dfs_file_read_def fops_def call_op_def rom_fops_def del: length_take)
  from io_calls(2) [OF assms(1,2) d(1) this] obtain s' where
    s': "posix_read E fd n s = Some ((int (length (take n (drop p bs))), take n (drop p bs)), s')" "io_done s fd d' (world s) s'" by auto
  have "rom_file E m bs (min (p + n) (length bs)) s' fd"
    using io_done_place [OF s'(2) open_at_place [OF d(1)]] r(2,3) d(3) by (auto simp: rom_file_def)
  then show ?thesis using s' by (auto simp: io_done_def)
qed

lemma posix_lseek_rom:
  assumes "dfs_inv s" "drivers_ok E" "rom_file E m bs p s fd" "length bs < 2 ^ 31" "x \<le> length bs"
  shows "\<exists>s'. posix_lseek E fd (int x) 0 s = Some (int x, s') \<and> dfs_inv s' \<and> rom_file E m bs x s' fd"
proof -
  obtain d k where d: "open_at s fd = Some d" "fd_fops d = Some k" "fops_at E k = rom_fops m" "rom_open m bs p d"
    using assms(3) unfolding rom_file_def by blast
  define d' where "d' = (more_refs d)\<lparr>fd_pos := int x\<rparr>"
  have "(of_nat x :: u32) \<le> of_nat (length bs)"
    using assms(4,5) by (simp add: word_le_nat_alt unsigned_of_nat take_bit_nat_eq_self)
  then have "dfs_file_lseek E (int x) (more_refs d) s = Some (int x, d', s\<lparr>world := world s\<rparr>)"
    using d by (simp add: dfs_file_lseek_def fops_def call_op_def rom_fops_def dfs_romfs_lseek_def rom_open_def d'_def)
  from io_calls(4) [OF assms(1,2) d(1) _ _ this, of "int x" 0] obtain s' where
    s': "posix_lseek E fd (int x) 0 s = Some (int x, s')" "io_done s fd d' (world s) s'" by (auto simp: seek_offset_def)
  have "rom_open m bs x d'" using d(4) assms(5) by (simp add: rom_open_def d'_def)
  then have "rom_file E m bs x s' fd"
    using io_done_place [OF s'(2) open_at_place [OF d(1)]] d(2,3) by (auto simp: rom_file_def rom_open_def d'_def)
  then show ?thesis using s' by (auto simp: io_done_def)
qed

text \<open>A sequence of reads, with what they have put into the buffers.\<close>

fun reads :: "'s drivers \<Rightarrow> int \<Rightarrow> nat list \<Rightarrow> 's dfs \<Rightarrow> (u8 list list \<times> 's dfs) option" where
  "reads E fd [] s = Some ([], s)"
| "reads E fd (n # ns) s = do {
     ((r, buf), s1) \<leftarrow> posix_read E fd n s;
     (bufs, s2) \<leftarrow> reads E fd ns s1;
     Some (take (nat r) buf # bufs, s2)
   }"

lemma reads_rom:
  assumes "dfs_inv s" "drivers_ok E" "rom_file E m bs p s fd" "length bs < 2 ^ 31"
  shows "\<exists>bufs s'. reads E fd ns s = Some (bufs, s') \<and> concat bufs = take (sum_list ns) (drop p bs) \<and> dfs_inv s'"
  using assms(1,3)
proof (induction ns arbitrary: s p)
  case (Cons n ns)
  define buf where "buf = take n (drop p bs)"
  from posix_read_rom [OF Cons.prems(1) assms(2) Cons.prems(2) assms(4), of n] obtain s1 where
    s1: "posix_read E fd n s = Some ((int (length buf), buf), s1)" "dfs_inv s1" "rom_file E m bs (min (p + n) (length bs)) s1 fd"
    unfolding buf_def by blast
  from Cons.IH [OF s1(2,3)] obtain bufs s2 where
    s2: "reads E fd ns s1 = Some (bufs, s2)" "concat bufs = take (sum_list ns) (drop (min (p + n) (length bs)) bs)" "dfs_inv s2" by blast
  have "drop (min (p + n) (length bs)) bs = drop (p + n) bs" by (simp add: min_def)
  then have "buf @ concat bufs = take (n + sum_list ns) (drop p bs)" unfolding s2(2) buf_def by (simp add: take_add add.commute)
  then show ?case using s1(1) s2(1,3) by simp
qed simp

lemma rom_file_opens:
  assumes E: "drivers_ok E" "open_answers E s" "dfs_inv s" "goes_to s path cs" "\<forall>k. asked s \<le> k \<longrightarrow> mem s k"
    and rom: "deepest (fs_table s) cs i ds" "rom_on E m root s i" "stored m root (Folder es)" "walk (Folder es) (drop (length ds) cs) = Some (File bs)"
    and free: "n < DFS_FD_MAX" "fd_view s n = None" and flags: "RDONLY_FILE flags"
  shows "\<exists>fd s'. posix_open E path flags s = Some (fd, s') \<and> 3 \<le> fd \<and> dfs_inv s' \<and> rom_file E m bs 0 s' fd"
proof -
  have "plain cs" using full_path_goes(2) E(3,4) by (auto simp: dfs_inv_def)
  then have rel: "plain (drop (length ds) cs)" by (auto simp: plain_def dest: in_set_dropD)
  obtain t k where t: "fs_ops (fs_table s ! i) = Some t" "ops_at E t = romfs m k" "fops_at E k = rom_fops m" "fs_data (fs_table s ! i) = Ptr root"
    using rom(2) unfolding rom_on_def by blast
  from rom_opens_file [OF rom(3) t(4) rel rom(4) flags, of "world s" k "more_refs fresh_fd"] obtain e where
    e: "dfs_romfs_open m (fs_table s) (world s) (rom_asked m k i (drop (length ds) cs) flags (more_refs fresh_fd)) = Some (0, e, world s)"
      "rom_open m bs 0 e" "fd_fops e = Some k" by blast
  have op: "op_open (fops_at E (ops_fops (ops_at E t))) = Some (dfs_romfs_open m)" using t(2,3) by (simp add: romfs_def rom_fops_def)
  have ask: "asked_fd (ops_at E t) i (path_for (ops_at E t) ds cs) flags d = rom_asked m k i (drop (length ds) cs) flags d" for d
    by (simp add: t(2) path_for_romfs) (simp add: asked_fd_def romfs_def)
  have opens: "driver_opens E flags cs s (more_refs fresh_fd) 0 e (world s)"
    unfolding driver_opens_def using rom(1) t(1) op e(1) ask by metis
  have only: "e' = e" if dop: "driver_opens E flags cs s (more_refs fresh_fd) q e' w" for q e' w
  proof -
    obtain j es' t' f where x: "deepest (fs_table s) cs j es'" "fs_ops (fs_table s ! j) = Some t'" "op_open (fops_at E (ops_fops (ops_at E t'))) = Some f"
        "f (fs_table s) (world s) (asked_fd (ops_at E t') j (path_for (ops_at E t') es' cs) flags (more_refs fresh_fd)) = Some (q, e', w)"
      using dop unfolding driver_opens_def by blast
    have "j = i" "es' = ds" using deepest_unique [OF _ x(1) rom(1)] E(3) by (auto simp: dfs_inv_def)
    then show ?thesis using x(2-4) t(1) op ask e(1) by simp
  qed
  obtain r s' where o: "posix_open E path flags s = Some (r, s')" "open_done E flags cs s r s'" using open_call [OF E] by blast
  have "\<not> ((\<forall>n < DFS_FD_MAX. fd_view s n \<noteq> None) \<or> (\<forall>q e w. driver_opens E flags cs s (more_refs fresh_fd) q e w \<longrightarrow> q < 0))"
    using free opens by (metis less_irrefl)
  then obtain l d q e' where l: "r = int l + DFS_FD_OFFSET" "fd_view s' = (fd_view s)(l \<mapsto> d)"
      "driver_opens E flags cs s (more_refs fresh_fd) q e' (world s')" "d = less_refs (opened_fd flags e')" and inv: "dfs_inv s'"
    using o(2) unfolding open_done_def by blast
  have d: "d = less_refs (opened_fd flags e)" using only [OF l(3)] l(4) by simp
  have "open_at s' r = Some d" using l(1,2) by (simp add: open_at_def place_def)
  moreover have "rom_open m bs 0 d" "fd_fops d = Some k" using e(2,3) by (simp_all add: d opened_fd_def rom_open_def)
  ultimately have "rom_file E m bs 0 s' r" using t(3) unfolding rom_file_def by blast
  then show ?thesis using o(1) inv l(1) by auto
qed

lemma rom_only_answers:
  assumes "\<forall>i ds. mounted_at (fs_table s) i ds \<longrightarrow> rom_on E m root s i" "stored m root (Folder es)"
  shows "open_answers E s"
  unfolding open_answers_def
proof (intro allI impI)
  fix i ds t f cs flags d
  assume a: "mounted_at (fs_table s) i ds \<and> plain cs \<and> prefix ds cs \<and> fs_ops (fs_table s ! i) = Some t \<and>
    op_open (fops_at E (ops_fops (ops_at E t))) = Some f"
  then obtain k where k: "fs_data (fs_table s ! i) = Ptr root" "ops_at E t = romfs m k" "fops_at E k = rom_fops m"
    using assms(1) unfolding rom_on_def by auto
  have f: "f = dfs_romfs_open m" using a k by (simp add: romfs_def rom_fops_def)
  have ask: "asked_fd (ops_at E t) i (path_for (ops_at E t) ds cs) flags d = rom_asked m k i (drop (length ds) cs) flags d"
    by (simp add: k(2) path_for_romfs) (simp add: asked_fd_def romfs_def)
  have "plain (drop (length ds) cs)" using a by (auto simp: plain_def dest: in_set_dropD)
  then show "f (fs_table s) (world s) (asked_fd (ops_at E t) i (path_for (ops_at E t) ds cs) flags d) \<noteq> None"
    unfolding f ask by (rule rom_open_answers [OF assms(2) k(1)])
qed

text \<open>C13: a file of the image reads back. On a system that has the image mounted, with a free descriptor, \<open>open\<close> of a path that leads to a
  file of the image succeeds, and the reads from its descriptor, whatever their sizes and however many, give the bytes of the
  file one after the other up to its end; after \<open>lseek\<close> to any place they go on from there. No call ends in undefined behaviour. The
  path is looked up over two components: the mount table finds the image, the image walks its directories.\<close>

theorem rom_file_reads_back:
  assumes "drivers_ok E" "open_answers E s" "dfs_inv s" "goes_to s path cs" "\<forall>k. asked s \<le> k \<longrightarrow> mem s k"
    "deepest (fs_table s) cs i ds" "rom_on E m root s i" "stored m root (Folder es)" "walk (Folder es) (drop (length ds) cs) = Some (File bs)"
    "n < DFS_FD_MAX" "fd_view s n = None" "RDONLY_FILE flags" "length bs < 2 ^ 31" "x \<le> length bs"
  shows "\<exists>fd s1. posix_open E path flags s = Some (fd, s1) \<and> 3 \<le> fd \<and>
    (\<exists>bufs s2 s3. reads E fd ns s1 = Some (bufs, s2) \<and> concat bufs = take (sum_list ns) bs \<and>
      posix_lseek E fd (int x) 0 s1 = Some (int x, s3) \<and>
      (\<exists>bufs' s4. reads E fd ns s3 = Some (bufs', s4) \<and> concat bufs' = take (sum_list ns) (drop x bs)))"
proof -
  obtain fd s1 where o: "posix_open E path flags s = Some (fd, s1)" "3 \<le> fd" "dfs_inv s1" "rom_file E m bs 0 s1 fd"
    using rom_file_opens [OF assms(1-12)] by blast
  from posix_lseek_rom [OF o(3) assms(1) o(4) assms(13,14)] obtain s3 where
    s3: "posix_lseek E fd (int x) 0 s1 = Some (int x, s3)" "dfs_inv s3" "rom_file E m bs x s3 fd" by blast
  show ?thesis
    using o(1,2) s3(1) reads_rom [OF o(3) assms(1) o(4) assms(13), of ns] reads_rom [OF s3(2) assms(1) s3(3) assms(13), of ns] by fastforce
qed


text \<open>C17: the search of \<open>dfs_romfs_lookup\<close>, which goes through the path with two pointers and through the directories by their
  addresses, is the walk down the tree that the image stands for: it finds an entry exactly when the names of the path lead to a
  node, the entry is the one of this node and the size is its size; repeated slashes do not matter. It never reads outside of the image.\<close>

theorem romfs_lookup_walks:
  assumes "stored m a (Folder es)" "0 \<notin> set path" "path = [SLASH] \<or> names path \<noteq> []"
  shows "case walk (Folder es) (names path) of
      None \<Rightarrow> dfs_romfs_lookup m a path = Some None
    | Some t \<Rightarrow> \<exists>e d. dfs_romfs_lookup m a path = Some (Some (e, rd_size d)) \<and> rom_dirents m e = Some d \<and> stored m e t"
  using lookup_walks [OF assms] by (simp add: finds_def)

lemma rom_opens_folder:
  assumes "stored m root (Folder es)" "fs_data (t ! i) = Ptr root" "plain rel" "walk (Folder es) rel = Some (Folder fs)"
  shows "\<exists>d'. dfs_romfs_open m t w (rom_asked m k i rel O_DIRECTORY d) = Some (0, d', w)"
proof -
  obtain rd where rd: "rom_dirents m root = Some rd" "check_dirent rd = 0" using stored_entry [OF assms(1)] by blast
  obtain e de where e: "dfs_romfs_lookup m root (join rel) = Some (Some (e, rd_size de))" "rom_dirents m e = Some de" "stored m e (Folder fs)"
    using rom_lookup_join [OF assms(1,3)] assms(4) unfolding finds_def by auto
  have "rd_type de = ROMFS_DIRENT_DIR" using e(2,3) by (auto elim!: stored_folderE)
  then show ?thesis using rd e(1,2) assms(2) by (simp add: dfs_romfs_open_def asked_fd_def rom_ptr_def)
qed

text \<open>A table with one entry, for the root.\<close>

lemma root_plain: "plain []"
  by (simp add: plain_def)

lemma four_nth: "j < 4 \<Longrightarrow> [e, z, z, z] ! j = (if j = 0 then e else z)"
proof -
  assume "j < 4"
  then have "j = 0 \<or> j = 1 \<or> j = 2 \<or> j = 3" by auto
  then show ?thesis by (elim disjE) simp_all
qed

lemma root_mounted_at:
  assumes "fs_path e = Some (join [])" "fs_ops e = Some t"
  shows "mounted_at [e, zero_fs, zero_fs, zero_fs] j es \<longleftrightarrow> j = 0 \<and> es = []"
proof (cases "j < 4")
  case True
  have "mounted_at [e, zero_fs, zero_fs, zero_fs] j es \<longleftrightarrow> j = 0 \<and> join [] = join es \<and> plain es"
    using True assms four_nth [OF True, of e zero_fs] by (simp add: mounted_at_def zero_fs_def del: join.simps)
  then show ?thesis using join_inject [OF root_plain, of es] root_plain by metis
next
  case False
  then show ?thesis by (simp add: mounted_at_def)
qed

lemma root_mounted_inv:
  assumes "fs_path e = Some (join [])" "fs_ops e = Some t"
  shows "fs_inv [e, zero_fs, zero_fs, zero_fs]"
proof (rule fs_invI)
  show "[e, zero_fs, zero_fs, zero_fs] ! j = zero_fs \<or> (\<exists>ds. mounted_at [e, zero_fs, zero_fs, zero_fs] j ds)"
    if "j < length [e, zero_fs, zero_fs, zero_fs]" for j
    using that four_nth [of j e zero_fs] unfolding root_mounted_at [OF assms] by (cases "j = 0") simp_all
  show "j = k" if "mounted_at [e, zero_fs, zero_fs, zero_fs] j ds" "mounted_at [e, zero_fs, zero_fs, zero_fs] k ds" for j k ds
    using that unfolding root_mounted_at [OF assms] by simp
qed simp

text \<open>An image with the file "/a" of three bytes, mounted on "/".\<close>

definition demo_rom :: rom where
  "demo_rom = \<lparr>rom_dirents = [0 \<mapsto> \<lparr>rd_type = ROMFS_DIRENT_DIR, rd_name = [SLASH], rd_data = Some 1, rd_size = 1\<rparr>,
     1 \<mapsto> \<lparr>rd_type = ROMFS_DIRENT_FILE, rd_name = [97], rd_data = Some 0, rd_size = 3\<rparr>],
     rom_bytes = [0 \<mapsto> 7, 1 \<mapsto> 8, 2 \<mapsto> 9]\<rparr>"

definition demo_drivers :: "unit drivers" where
  "demo_drivers = null_drivers\<lparr>ops_at := (\<lambda>n. romfs demo_rom 0), fops_at := (\<lambda>n. rom_fops demo_rom)\<rparr>"

definition rom_dfs :: "unit dfs" where
  "rom_dfs = idle_dfs\<lparr>fs_table := [zero_fs\<lparr>fs_path := Some (join []), fs_ops := Some 0, fs_data := Ptr 0\<rparr>, zero_fs, zero_fs, zero_fs]\<rparr>"

lemma demo_rom_stored: "stored demo_rom 0 (Folder [([97], File [7, 8, 9])])"
proof -
  have d: "rom_dirents demo_rom 0 = Some \<lparr>rd_type = ROMFS_DIRENT_DIR, rd_name = [SLASH], rd_data = Some 1, rd_size = 1\<rparr>"
    "rom_dirents demo_rom 1 = Some \<lparr>rd_type = ROMFS_DIRENT_FILE, rd_name = [97], rd_data = Some 0, rd_size = 3\<rparr>"
    by (simp_all add: demo_rom_def)
  have "stored demo_rom 1 (File [7, 8, 9])" by (intro stored_file [OF d(2)]) (simp_all add: demo_rom_def)
  then show ?thesis by (intro stored_folder [OF d(1)]) (use d(2) in simp_all)
qed

lemma rom_dfs_facts:
  "dfs_inv rom_dfs" "goes_to rom_dfs [SLASH, 97] [[97]]" "\<forall>i ds. mounted_at (fs_table rom_dfs) i ds \<longleftrightarrow> i = 0 \<and> ds = []"
  "rom_on demo_drivers demo_rom 0 rom_dfs 0" "fd_view rom_dfs 0 = None" "mem rom_dfs k"
proof -
  let ?e = "zero_fs\<lparr>fs_path := Some (join []), fs_ops := Some 0, fs_data := Ptr 0\<rparr>"
  have e: "fs_path ?e = Some (join [])" "fs_ops ?e = Some 0" by simp_all
  have t: "fs_table rom_dfs = [?e, zero_fs, zero_fs, zero_fs]" by (simp add: rom_dfs_def)
  show "\<forall>i ds. mounted_at (fs_table rom_dfs) i ds \<longleftrightarrow> i = 0 \<and> ds = []" unfolding t using root_mounted_at [OF e] by blast
  show "goes_to rom_dfs [SLASH, 97] [[97]]" using idle_goes by (simp add: goes_to_def rom_dfs_def)
  show "rom_on demo_drivers demo_rom 0 rom_dfs 0" by (simp add: rom_on_def t demo_drivers_def) (rule exI [of _ 0], simp)
  show "fd_view rom_dfs 0 = None" "mem rom_dfs k" by (simp_all add: fd_view_def slot_def rom_dfs_def idle_dfs_def)
  show "dfs_inv rom_dfs"
    using idle_dfs_inv root_mounted_inv [OF e] same_fds [of rom_dfs idle_dfs] t by (simp add: dfs_inv_def wd_ok_def rom_dfs_def)
qed

lemma rom_file_reads_back_witness:
  "\<exists>fd s1 bufs s2. posix_open demo_drivers [SLASH, 97] 0 rom_dfs = Some (fd, s1) \<and> reads demo_drivers fd [2, 2] s1 = Some (bufs, s2) \<and> concat bufs = [7, 8, 9]"
proof -
  have E: "drivers_ok demo_drivers" using rom_fops_ok by (simp add: drivers_ok_def demo_drivers_def)
  have "\<forall>i ds. mounted_at (fs_table rom_dfs) i ds \<longrightarrow> rom_on demo_drivers demo_rom 0 rom_dfs i" using rom_dfs_facts(3,4) by simp
  then have a: "open_answers demo_drivers rom_dfs" by (rule rom_only_answers [OF _ demo_rom_stored])
  have d: "deepest (fs_table rom_dfs) [[97]] 0 []" using rom_dfs_facts(3) by (simp add: deepest_def)
  have w: "walk (Folder [([97], File [7, 8, 9])]) (drop (length ([] :: u8 list list)) [[97]]) = Some (File [7, 8, 9])" by simp
  from rom_file_reads_back [OF E a rom_dfs_facts(1,2) _ d rom_dfs_facts(4) demo_rom_stored w _ rom_dfs_facts(5), of 0 0 "[2, 2]"] rom_dfs_facts(6)
  show ?thesis by auto
qed

lemma romfs_lookup_walks_witness: "\<exists>e z. dfs_romfs_lookup demo_rom 0 [SLASH, SLASH, 97] = Some (Some (e, z)) \<and> stored demo_rom e (File [7, 8, 9])"
  using romfs_lookup_walks [OF demo_rom_stored, of "[SLASH, SLASH, 97]"] by (auto simp: names_skip names_Cons)

end
