(* ===== verification/BoardFs.thy ===== *)
theory BoardFs
  imports Romfs
begin

text \<open>
  The file systems of the board, \<^verbatim>\<open>drivers/filesystem.c\<close>: the image that is mounted on "/", the card on "/sdcard", and the thread that
  follows the card pin. The delays are left out, the MMC layer is a parameter.
\<close>


section \<open>The code\<close>

text \<open>The image of the root, with a directory for each of the other file systems.\<close>

abbreviation FLASH_NAME :: "u8 list" where "FLASH_NAME \<equiv> [102, 108, 97, 115, 104]"
abbreviation SDCARD_NAME :: "u8 list" where "SDCARD_NAME \<equiv> [115, 100, 99, 97, 114, 100]"
abbreviation ROM_TYPE :: "u8 list" where "ROM_TYPE \<equiv> [114, 111, 109]"
abbreviation ELM_TYPE :: "u8 list" where "ELM_TYPE \<equiv> [101, 108, 109]"
abbreviation SD0 :: "u8 list" where "SD0 \<equiv> [115, 100, 48]"

definition board_rom :: rom where
  "board_rom = \<lparr>rom_dirents = [0 \<mapsto> \<lparr>rd_type = ROMFS_DIRENT_DIR, rd_name = [SLASH], rd_data = Some 1, rd_size = 2\<rparr>,
     1 \<mapsto> \<lparr>rd_type = ROMFS_DIRENT_DIR, rd_name = FLASH_NAME, rd_data = None, rd_size = 0\<rparr>,
     2 \<mapsto> \<lparr>rd_type = ROMFS_DIRENT_DIR, rd_name = SDCARD_NAME, rd_data = None, rd_size = 0\<rparr>], rom_bytes = (\<lambda>a. None)\<rparr>"

text \<open>The first part of \<open>mount_init\<close>; a failure is only logged.\<close>

definition mount_root :: "'s drivers \<Rightarrow> dfs_fd \<Rightarrow> 's dfs \<Rightarrow> (int \<times> 's dfs) option" where
  "mount_root E g s = dfs_mount E g None [SLASH] ROM_TYPE 0 (Ptr 0) s"

text \<open>\<open>wait_card\<close> stands for the calls of the MMC layer that wait for a change of the card.\<close>

definition sdcard_mount :: "('s \<Rightarrow> 's) \<Rightarrow> 's drivers \<Rightarrow> dfs_fd \<Rightarrow> 's dfs \<Rightarrow> (int option \<times> 's dfs) option" where
  "sdcard_mount wait_card E g s =
    (let s1 = (if dev_find E (world s) SD0 = None then s\<lparr>world := wait_card (world s)\<rparr> else s)
     in if dev_find E (world s1) SD0 = None then Some (None, s1)
        else map_option (\<lambda>(r, s2). (Some r, s2)) (dfs_mount E g (Some SD0) (SLASH # SDCARD_NAME) ELM_TYPE 0 NullPtr s1))"

definition sdcard_unmount :: "('s \<Rightarrow> 's) \<Rightarrow> 's drivers \<Rightarrow> 's dfs \<Rightarrow> (int \<times> 's dfs) option" where
  "sdcard_unmount wait_card E s = map_option (\<lambda>(r, s1). (r, s1\<lparr>world := wait_card (world s1)\<rparr>)) (dfs_unmount E (SLASH # SDCARD_NAME) s)"

text \<open>The thread \<open>sd_mount\<close>: what it does on the samples of the card pin. One round of its loop, with \<open>re_sd_check_pin\<close>, takes one or two
  samples; without enough samples it is not over.\<close>

datatype card_action = MountCard | UnmountCard

definition card_round :: "bool \<Rightarrow> bool list \<Rightarrow> (card_action list \<times> bool \<times> bool list) option" where
  "card_round re ps = do {
     (acts, re1, ps1) \<leftarrow> (if \<not> re then (case ps of [] \<Rightarrow> None | p # ps' \<Rightarrow> Some (if p then [UnmountCard] else [], p, ps')) else Some ([], re, ps));
     if re1 then (case ps1 of [] \<Rightarrow> None | p # ps' \<Rightarrow> Some (if \<not> p then acts @ [MountCard] else acts, p, ps')) else Some (acts, re1, ps1)
   }"

fun card_rounds :: "nat \<Rightarrow> bool \<Rightarrow> bool list \<Rightarrow> card_action list option" where
  "card_rounds 0 re ps = Some []"
| "card_rounds (Suc n) re ps = do { (acts, re1, ps1) \<leftarrow> card_round re ps; rest \<leftarrow> card_rounds n re1 ps1; Some (acts @ rest) }"

definition sd_mount :: "nat \<Rightarrow> bool list \<Rightarrow> card_action list option" where
  "sd_mount n ps = (case ps of [] \<Rightarrow> None | p # ps' \<Rightarrow> map_option ((@) (if p then [MountCard] else [])) (card_rounds n True ps'))"

section \<open>The board's file systems together\<close>

lemma board_rom_dirents:
  "rom_dirents board_rom 0 = Some \<lparr>rd_type = ROMFS_DIRENT_DIR, rd_name = [SLASH], rd_data = Some 1, rd_size = 2\<rparr>"
  "rom_dirents board_rom 1 = Some \<lparr>rd_type = ROMFS_DIRENT_DIR, rd_name = FLASH_NAME, rd_data = None, rd_size = 0\<rparr>"
  "rom_dirents board_rom 2 = Some \<lparr>rd_type = ROMFS_DIRENT_DIR, rd_name = SDCARD_NAME, rd_data = None, rd_size = 0\<rparr>"
  by (simp_all add: board_rom_def)

lemma board_rom_stored: "stored board_rom 0 (Folder [(FLASH_NAME, Folder []), (SDCARD_NAME, Folder [])])"
proof (rule stored_folder [OF board_rom_dirents(1)])
  have leaf: "stored board_rom 1 (Folder [])" "stored board_rom 2 (Folder [])"
    by (rule stored_folder [OF board_rom_dirents(2)]; simp) (rule stored_folder [OF board_rom_dirents(3)]; simp)
  show "\<forall>p i. rd_data \<lparr>rd_type = ROMFS_DIRENT_DIR, rd_name = [SLASH], rd_data = Some 1, rd_size = 2\<rparr> = Some p \<and>
      i < length [(FLASH_NAME, Folder []), (SDCARD_NAME, Folder [])] \<longrightarrow>
      0 \<notin> set (fst ([(FLASH_NAME, Folder []), (SDCARD_NAME, Folder [])] ! i)) \<and>
      map_option rd_name (rom_dirents board_rom (p + i)) = Some (fst ([(FLASH_NAME, Folder []), (SDCARD_NAME, Folder [])] ! i)) \<and>
      stored board_rom (p + i) (snd ([(FLASH_NAME, Folder []), (SDCARD_NAME, Folder [])] ! i))"
  proof (intro allI impI)
    fix p i assume "rd_data \<lparr>rd_type = ROMFS_DIRENT_DIR, rd_name = [SLASH], rd_data = Some 1, rd_size = 2\<rparr> = Some p \<and>
      i < length [(FLASH_NAME, Folder []), (SDCARD_NAME, Folder [])]"
    then have "p = 1" "i = 0 \<or> i = 1" by auto
    moreover have "(1 :: nat) + 1 = 2" by simp
    ultimately show "0 \<notin> set (fst ([(FLASH_NAME, Folder []), (SDCARD_NAME, Folder [])] ! i)) \<and>
        map_option rd_name (rom_dirents board_rom (p + i)) = Some (fst ([(FLASH_NAME, Folder []), (SDCARD_NAME, Folder [])] ! i)) \<and>
        stored board_rom (p + i) (snd ([(FLASH_NAME, Folder []), (SDCARD_NAME, Folder [])] ! i))"
      using leaf board_rom_dirents(2,3) by (elim disjE) (simp_all only: add_0_right nth_Cons_0 nth_Cons_Suc One_nat_def [symmetric], simp_all)
  qed
qed simp_all

lemma check_mount_point_dir:
  assumes E: "drivers_ok E" "open_answers E s" "close_answers E" and inv: "fs_inv (fs_table s)" "wd_ok s" "plain ds" and m: "\<forall>k. asked s \<le> k \<longrightarrow> mem s k"
    and dir: "driver_opens E O_DIRECTORY ds s g 0 e w"
  shows "\<exists>k w. check_mount_point E g (join ds) s = Some (True, s\<lparr>asked := k, world := w\<rparr>)"
proof (cases "join ds \<noteq> [SLASH] \<and> join ds \<noteq> DEV_PATH")
  case False
  then have "check_mount_point E g (join ds) s = Some (True, s\<lparr>asked := asked s, world := world s\<rparr>)" unfolding check_mount_point_def by auto
  then show ?thesis by blast
next
  case True
  obtain d k w where o: "dfs_file_open E (join ds) O_DIRECTORY g s = Some (0, d, s\<lparr>asked := k, world := w\<rparr>)" "fd_fops d \<noteq> None"
    using file_open_outcome [OF E(1,2) inv(1,2) goes_join [OF inv(3)] m, of O_DIRECTORY g] dir by (metis less_irrefl)
  obtain q d' s' where c: "dfs_file_close E d (s\<lparr>asked := k, world := w\<rparr>) = Some (q, d', s')" using close_returns [OF E(3) o(2)] by blast
  have "s' = s\<lparr>asked := k, world := world s'\<rparr>" using file_close_keeps(1) [OF E(1) c] by simp
  moreover have "check_mount_point E g (join ds) s = Some (True, s')" using o(1) c True unfolding check_mount_point_def by simp
  ultimately show ?thesis by metis
qed

text \<open>The drivers that are linked into this system, and a card that can be used.\<close>

definition board_drivers :: "'s drivers \<Rightarrow> bool" where
  "board_drivers E \<longleftrightarrow> drivers_ok E \<and> close_answers E \<and> mounts_keep E \<and> ops_at E 0 = romfs board_rom 0 \<and> fops_at E 0 = rom_fops board_rom"

definition card_usable :: "'s drivers \<Rightarrow> bool" where
  "card_usable E \<longleftrightarrow> (\<exists>dv. \<forall>w. dev_find E w SD0 = Some dv \<and> fst (dev_open E w dv) = 0) \<and>
     (\<exists>mnt. ops_mount (ops_at E 1) = Some mnt \<and> (\<forall>w e. 0 \<le> fst (mnt 0 NullPtr w e)))"

lemma sdcard_plain: "plain [SDCARD_NAME]" "plain []"
  by (simp_all add: plain_def name_ok_def)

text \<open>The table after the first mount.\<close>

lemma root_mounts:
  assumes E: "board_drivers E" and s: "dfs_inv s" "fs_table s = replicate 4 zero_fs" "find_type E ROM_TYPE (fs_types s) = Some 0" "mem s (asked s)"
  shows "\<exists>e. mount_root E g s = Some (0, s\<lparr>asked := asked s + 1, fs_table := [e, zero_fs, zero_fs, zero_fs]\<rparr>) \<and>
    fs_path e = Some (join []) \<and> fs_ops e = Some 0 \<and> fs_data e = Ptr 0"
proof -
  have o: "ops_at E 0 = romfs board_rom 0" using E by (simp add: board_drivers_def)
  have t: "fs_table s = [zero_fs, zero_fs, zero_fs, zero_fs]" using s(2) by (simp add: numeral_eq_Suc)
  have f: "full_path [SLASH] s = Some (Some [SLASH], s\<lparr>asked := asked s + 1\<rparr>)" using full_path_join [OF sdcard_plain(2) s(4)] by simp
  show ?thesis
    unfolding mount_root_def dfs_mount_def
    using o s(3) by (intro exI [of _ "zero_fs\<lparr>fs_path := Some [SLASH], fs_ops := Some 0, fs_data := Ptr 0\<rparr>"]) (simp add: f t romfs_def check_mount_point_def dfs_lock_def dfs_unlock_def mount_at_def open_device_def dfs_romfs_mount_def zero_fs_def Let_def)
qed


lemma mount_at_succeeds:
  assumes "mounts_keep E" "ops_mount (ops_at E t) = Some mnt" "i < length (fs_table s)" "\<And>s. fst (open_device E dev s)" "\<And>w e. 0 \<le> fst (mnt rw data w e)"
  shows "\<exists>s'. mount_at E mnt dev t path rw data i s = (0, s') \<and> fs_ops (fs_table s' ! i) = Some t"
proof -
  define e1 where "e1 = (fs_table s ! i)\<lparr>fs_path := Some path, fs_ops := Some t, fs_dev := dev\<rparr>"
  define s1 where "s1 = dfs_unlock (s\<lparr>fs_table := (fs_table s)[i := e1]\<rparr>)"
  obtain ok s2 where o: "open_device E dev s1 = (ok, s2)" by fastforce
  have ok: "ok" using assms(4) [of s1] o by simp
  have t: "fs_table s2 = (fs_table s)[i := e1]" using o by (auto simp: open_device_def s1_def dfs_unlock_def split: option.splits prod.splits)
  obtain r e w where m: "mnt rw data (world s2) (fs_table s2 ! i) = (r, e, w)" by (cases "mnt rw data (world s2) (fs_table s2 ! i)")
  have "\<not> r < 0" using assms(5) [of "world s2" "fs_table s2 ! i"] m by simp
  then have "mount_at E mnt dev t path rw data i s = (0, s2\<lparr>fs_table := (fs_table s2)[i := e], world := w\<rparr>)"
    using o ok m by (simp add: mount_at_def Let_def e1_def s1_def)
  moreover have "entry_kept (fs_table s2 ! i) e" using assms(1,2) m unfolding mounts_keep_def by (metis fst_conv snd_conv)
  ultimately show ?thesis using t assms(3) by (simp add: entry_kept_def e1_def)
qed

text \<open>The second mount: the directory is found in the image.\<close>

lemma card_mounts:
  assumes E: "board_drivers E" "card_usable E" and e: "fs_path e = Some (join [])" "fs_ops e = Some 0" "fs_data e = Ptr 0"
    and s: "dfs_inv s" "fs_table s = [e, zero_fs, zero_fs, zero_fs]" "find_type E ELM_TYPE (fs_types s) = Some 1" "\<forall>k. asked s \<le> k \<longrightarrow> mem s k"
  shows "\<exists>s'. sdcard_mount wait_card E g s = Some (Some 0, s') \<and> files_same s s' \<and> mounted_new (fs_table s) 1 [SDCARD_NAME] (fs_table s') \<and>
    fs_ops (fs_table s' ! 1) = Some 1"
proof -
  have D: "drivers_ok E" "close_answers E" "mounts_keep E" "ops_at E 0 = romfs board_rom 0" "fops_at E 0 = rom_fops board_rom"
    using E(1) by (simp_all add: board_drivers_def)
  obtain mnt where mnt: "ops_mount (ops_at E 1) = Some mnt" "\<And>w e. 0 \<le> fst (mnt 0 NullPtr w e)" using E(2) unfolding card_usable_def by blast
  obtain dv where dv: "\<And>w. dev_find E w SD0 = Some dv" "\<And>w. fst (dev_open E w dv) = 0" using E(2) unfolding card_usable_def by blast
  note at = root_mounted_at [OF e(1,2)]
  have fi: "fs_inv (fs_table s)" "wd_ok s" using s(1) by (simp_all add: dfs_inv_def)
  have op: "op_open (fops_at E (ops_fops (ops_at E 0))) = Some (dfs_romfs_open board_rom)" by (simp add: D(4,5) romfs_def rom_fops_def)
  have ask: "asked_fd (ops_at E 0) 0 (path_for (ops_at E 0) [] cs) flags d = rom_asked board_rom 0 0 cs flags d" for cs flags d
    by (simp add: D(4) path_for_romfs) (simp add: asked_fd_def romfs_def)
  define s1 where "s1 = s\<lparr>asked := asked s + 1\<rparr>"
  have s1: "fs_table s1 = fs_table s" "world s1 = world s" "wd_ok s1" "\<forall>k. asked s1 \<le> k \<longrightarrow> mem s1 k"
    using fi(2) s(4) by (simp_all add: s1_def wd_ok_def)
  have data: "fs_data (fs_table s ! 0) = Ptr 0" "fs_ops (fs_table s ! 0) = Some 0" using s(2) e by simp_all
  have "rom_on E board_rom 0 s1 i" if "mounted_at (fs_table s1) i ds" for i ds
    using that at D(4,5) s(2) e(2,3) unfolding s1(1) by (auto simp: rom_on_def s1(1))
  then have answers: "open_answers E s1" using rom_only_answers [OF _ board_rom_stored] by blast
  have "\<exists>d'. dfs_romfs_open board_rom (fs_table s) (world s) (rom_asked board_rom 0 0 [SDCARD_NAME] O_DIRECTORY g) = Some (0, d', world s)"
    by (rule rom_opens_folder [OF board_rom_stored data(1) sdcard_plain(1)]) simp
  then obtain d' where "dfs_romfs_open board_rom (fs_table s) (world s) (rom_asked board_rom 0 0 [SDCARD_NAME] O_DIRECTORY g) = Some (0, d', world s)" by blast
  moreover have "deepest (fs_table s) [SDCARD_NAME] 0 []" using at s(2) by (simp add: deepest_def)
  ultimately have "driver_opens E O_DIRECTORY [SDCARD_NAME] s1 g 0 d' (world s)"
    unfolding driver_opens_def s1(1,2) using op ask data(2) by metis
  from check_mount_point_dir [OF D(1) answers D(2) _ s1(3) sdcard_plain(1) s1(4) this] fi(1) obtain k w where
    c: "check_mount_point E g (join [SDCARD_NAME]) s1 = Some (True, s\<lparr>asked := k, world := w\<rparr>)" by (auto simp: s1_def)
  define s2 where "s2 = dfs_lock (s\<lparr>asked := k, world := w\<rparr>)"
  have s2: "fs_table s2 = fs_table s" "files_same s (dfs_unlock s2)" by (simp_all add: s2_def)
  have "full_path (join [SDCARD_NAME]) s = Some (Some (join [SDCARD_NAME]), s1)"
    unfolding s1_def by (rule full_path_join [OF sdcard_plain(1)]) (use s(4) in simp)
  moreover have "mount_scan (SLASH # SDCARD_NAME) 0 (fs_table s2) None = Some (Some (Some 1))" using s(2) e by (simp add: s2(1) zero_fs_def)
  ultimately have m: "dfs_mount E g (Some SD0) (SLASH # SDCARD_NAME) ELM_TYPE 0 NullPtr s = Some (mount_at E mnt (Some dv) 1 (SLASH # SDCARD_NAME) 0 NullPtr 1 s2)"
    unfolding dfs_mount_def using c dv s(3) mnt(1) by (simp add: Let_def s2_def)
  have dev: "fst (open_device E (Some dv) s')" for s' using dv(2) [of "world s'"] by (cases "dev_open E (world s') dv") (simp add: open_device_def)
  have len: "1 < length (fs_table s2)" using s(2) by (simp add: s2(1))
  obtain s' where r: "mount_at E mnt (Some dv) 1 (SLASH # SDCARD_NAME) 0 NullPtr 1 s2 = (0, s')" "fs_ops (fs_table s' ! 1) = Some 1"
    using mount_at_succeeds [where i = 1 and s = s2 and E = E and t = 1 and mnt = mnt and dev = "Some dv" and rw = 0 and data = NullPtr, OF D(3) mnt(1) len dev mnt(2)] by blast
  have free: "fs_table s2 ! 1 = zero_fs" "\<forall>j. \<not> mounted_at (fs_table s2) j [SDCARD_NAME]" using s(2) at by (simp_all add: s2(1))
  have "fs_inv (fs_table s2)" using fi(1) s2(1) by simp
  from mount_at_outcome [OF D(3) mnt(1) this sdcard_plain(1) len free, of "Some dv" 0 NullPtr] r(1)
  have "files_same (dfs_unlock s2) s'" "mounted_new (fs_table s2) 1 [SDCARD_NAME] (fs_table s')" by auto
  moreover have "sdcard_mount wait_card E g s = Some (Some 0, s')" using dv(1) m r(1) by (simp add: sdcard_mount_def)
  moreover have "files_same s s'" using s2(2) calculation(1) by (simp add: files_same_def)
  ultimately show ?thesis using r(2) s2(1) by simp
qed



text \<open>A system before its first mount, with a driver for the card that always answers.\<close>

definition card_drivers :: "unit drivers" where
  "card_drivers = mount_drivers\<lparr>ops_at := (\<lambda>n. if n = 0 then romfs board_rom 0 else (ops_at mount_drivers n)\<lparr>ops_name := ELM_TYPE, ops_fops := 1\<rparr>),
     fops_at := (\<lambda>n. if n = 0 then rom_fops board_rom else null_fops), dev_find := (\<lambda>w n. Some 0)\<rparr>"

definition new_dfs :: "unit dfs" where
  "new_dfs = idle_dfs\<lparr>fs_types := [Some 1, Some 0, None, None], fs_table := replicate 4 zero_fs\<rparr>"

lemma card_drivers_ok: "board_drivers card_drivers" "card_usable card_drivers"
proof -
  have "fops_ok null_fops" using null_drivers_ok(1) by (simp add: drivers_ok_def null_drivers_def)
  then have "drivers_ok card_drivers" using rom_fops_ok by (simp add: drivers_ok_def card_drivers_def)
  moreover have "close_answers card_drivers"
    by (auto simp: close_answers_def card_drivers_def null_fops_def rom_fops_def dfs_romfs_close_def split: if_splits)
  moreover have "mounts_keep card_drivers"
    by (auto simp: mounts_keep_def card_drivers_def romfs_def dfs_romfs_mount_def dfs_romfs_unmount_def entry_kept_def mount_drivers_def null_drivers_def split: if_splits)
  ultimately show "board_drivers card_drivers" by (simp add: board_drivers_def) (simp add: card_drivers_def)
  show "card_usable card_drivers" by (simp add: card_usable_def card_drivers_def mount_drivers_def null_drivers_def)
qed


section \<open>The card pin\<close>

text \<open>In the loop, mounting and unmounting alternate, and \<open>re_sd_check_pin\<close> is 0 exactly while the card is mounted.\<close>

fun alternates :: "bool \<Rightarrow> card_action list \<Rightarrow> bool" where
  "alternates out [] = True"
| "alternates out (a # as) = (a = (if out then MountCard else UnmountCard) \<and> alternates (\<not> out) as)"

lemma alternates_append: "alternates out (as @ bs) \<longleftrightarrow> alternates out as \<and> alternates (out = even (length as)) bs"
  by (induction as arbitrary: out) auto

lemma card_round_alternates:
  assumes "card_round re ps = Some (acts, re1, ps1)"
  shows "alternates re acts" "re1 = (re = even (length acts))"
  using assms unfolding card_round_def by (auto split: if_splits list.splits)

text \<open>In the thread \<open>sd_mount\<close>, in any number of rounds and on any samples of the card pin, the loop mounts and unmounts the card in turn,
  a mount first; so a card is never mounted twice in the loop nor unmounted without having been mounted.\<close>

theorem card_actions_alternate:
  assumes "card_rounds n re ps = Some acts"
  shows "alternates re acts"
  using assms
proof (induction n arbitrary: re ps acts)
  case (Suc n)
  from Suc.prems obtain a re1 ps1 rest where h: "card_round re ps = Some (a, re1, ps1)" "card_rounds n re1 ps1 = Some rest" "acts = a @ rest"
    by (auto split: bind_splits)
  show ?case using card_round_alternates [OF h(1)] Suc.IH [OF h(2)] by (simp add: h(3) alternates_append)
qed simp

lemma card_actions_alternate_witness: "alternates True [MountCard, UnmountCard, MountCard]"
proof -
  have "card_rounds 4 True [True, False, True, False, False] = Some [MountCard, UnmountCard, MountCard]"
    by (simp add: card_round_def numeral_eq_Suc)
  then show ?thesis by (rule card_actions_alternate)
qed

text \<open>But before the loop the pin is read the other way round: with the pin high at the start the card is mounted, and at the first low
  sample mounted again.\<close>

lemma card_mounted_twice: "sd_mount 1 [True, False] = Some [MountCard, MountCard]"
  by (simp add: sd_mount_def card_round_def)

end
