(* ===== verification/Spec2Isabelle.thy ===== *)
theory Spec2Isabelle
  imports Prelude AppMain KString KPrintf RingBuffer RtList KState Scheduler Timer Clock Dispatch Thread IpcBase Ticks MsgStore Heap HeapLayout HeapOps HeapSpec Mempool Semaphore Mutex Event Mailbox MsgQueue Boot System DfsPath DfsFs DfsFile DfsCalls DfsMount Romfs BoardFs
begin

text \<open>
  A verification library for a firmware that shows Live2D characters on an STM32H743: an application over the RT-Thread kernel, with
  the kernel's device file system for the model files on the SD card. The program is built from four layers.

    \<^item> \<^verbatim>\<open>applications/main.c\<close>: loads the model, drives the animation, converts each frame for the display.
    \<^item> \<^verbatim>\<open>rt-thread/components\<close>: the device file system \<^verbatim>\<open>dfs\<close> and the ring buffer of the device drivers.
    \<^item> \<^verbatim>\<open>rt-thread/src\<close>: the kernel: scheduler, threads, timers, the five kinds of IPC objects, heap, memory pools, services.
    \<^item> \<^verbatim>\<open>rt-thread/libcpu\<close>, \<^verbatim>\<open>drivers\<close>, \<^verbatim>\<open>libraries\<close>: the processor port, the board and the vendor's code.

  The threads call the kernel; the kernel's objects suspend them on their lists and start their timers; the tick interrupt runs the
  timers, which make the threads ready again; the scheduler gives the processor to the first of the most urgent ready threads. File
  system calls run in the thread that makes them, on tables behind one lock.

  \<^bold>\<open>Conventions.\<close> A machine integer is a word of its width where it may wrap (\<open>u8\<close>, \<open>u16\<close>, \<open>u32\<close>); an \<open>int\<close> of C that stays in range is
  \<open>int\<close>. An operation on the state returns \<open>None\<close> where the source runs into a failed assertion, a null pointer, an access out of
  bounds or a signed overflow, so a theorem that an operation gives \<open>Some\<close> says that it returns and does none of this. Error codes and
  \<open>errno\<close> are values, under the names and with the numbers of the source. Every loop is a terminating recursion; no fuel is used. What
  the allocator answers is an argument, or an oracle that counts the requests. The configuration is that of \<^verbatim>\<open>rtconfig.h\<close>: one processor,
  32 priorities, 1000 ticks a second, \<open>RT_USING_SMALL_MEM\<close>, \<open>RT_USING_TIMER_SOFT\<close>, \<open>RT_USING_OVERFLOW_CHECK\<close>, 16 descriptors, 4 mount
  points; branches of other configurations are not modelled. The hooks that \<open>RT_USING_HOOK\<close> allows are not set by the program and
  are left out, but for those of the idle thread.

  \<^bold>\<open>Theories, in the order of use.\<close>

    \<^item> \<open>Prelude\<close>: integers, error codes, alignment, byte memory.
    \<^item> \<open>AppMain\<close> (\<^verbatim>\<open>main.c\<close>): file loading into the memory pool with its release, the schedule of the animations, the conversion of a frame to
      RGB 565. The renderer's calls are parameters.
    \<^item> \<open>KString\<close>, \<open>KPrintf\<close> (\<^verbatim>\<open>kservice.c\<close>): memory and string functions in the word-at-a-time form, with the plain loops as reference; the
      \<open>printf\<close> family into a buffer, with its bound, and decimal conversion as a round trip.
    \<^item> \<open>RingBuffer\<close> (\<^verbatim>\<open>ringbuffer.c\<close>): indices with mirror bits; interprets the locale \<open>byte_queue\<close> of a bounded queue.
    \<^item> \<open>RtList\<close> (\<^verbatim>\<open>rtservice.h\<close>): the intrusive lists with their links; refines lists. In the theories that follow, the lists of the kernel are
      lists of thread or timer numbers under the names \<open>lref\<close> of their heads.
    \<^item> \<open>KState\<close>: the structures of \<^verbatim>\<open>rtdef.h\<close> and the globals, as the record \<open>kernel\<close>, and its invariant \<open>kinv\<close>.
    \<^item> \<open>Scheduler\<close> (\<^verbatim>\<open>scheduler.c\<close>), \<open>Timer\<close> (\<^verbatim>\<open>timer.c\<close>, with \<open>rt_thread_suspend\<close>, \<open>rt_thread_resume\<close> and the time-out of \<^verbatim>\<open>thread.c\<close>),
      \<open>Clock\<close> (\<^verbatim>\<open>clock.c\<close>, \<^verbatim>\<open>irq.c\<close>, \<open>SysTick_Handler\<close>), \<open>Thread\<close> (\<^verbatim>\<open>thread.c\<close>, \<^verbatim>\<open>idle.c\<close>, the stack frame of \<^verbatim>\<open>cpuport.c\<close>). The scheduler's search
      for the first set bit is the port's \<open>CLZ\<close> instruction, with the function of the table in \<^verbatim>\<open>kservice.c\<close>.
      The timers are proved over what a time-out function may do, the locales \<open>timeout_functions\<close> and \<open>timer_callbacks\<close>.
    \<^item> \<open>Dispatch\<close>, \<open>Ticks\<close>: who has the processor after a call, and what a tick does behind the back of the threads. They give the IPC
      theories the two interfaces they prove against.
    \<^item> \<open>IpcBase\<close>, \<open>MsgStore\<close>, \<open>Semaphore\<close>, \<open>Mutex\<close>, \<open>Event\<close>, \<open>Mailbox\<close>, \<open>MsgQueue\<close> (\<^verbatim>\<open>ipc.c\<close>): each object over the shared suspend list. A call that
      blocks ends in an outcome of its own; what the thread returns when it runs again is a second function. Mailbox and
      message queue share the locale \<open>message_store\<close>, which each of them interprets.
    \<^item> \<open>Heap\<close>, \<open>HeapLayout\<close>, \<open>HeapOps\<close>, \<open>HeapSpec\<close> (\<^verbatim>\<open>mem.c\<close>): the allocator on bytes; the blocks read back from the memory; the contracts.
    \<^item> \<open>Mempool\<close> (\<^verbatim>\<open>mempool.c\<close>): pools of equal blocks on bytes.
    \<^item> \<open>Boot\<close> (\<^verbatim>\<open>components.c\<close>): the start up to the first thread. \<open>System\<close>: all of the kernel as one step relation.
    \<^item> \<open>DfsPath\<close> (\<open>dfs_normalize_path\<close>, \<open>dfs_subdir\<close> of \<^verbatim>\<open>dfs.c\<close>), \<open>DfsFs\<close> (the tables of \<^verbatim>\<open>dfs.c\<close> and \<^verbatim>\<open>dfs_fs.c\<close>), \<open>DfsFile\<close> (\<^verbatim>\<open>dfs_file.c\<close>),
      \<open>DfsCalls\<close> (\<^verbatim>\<open>dfs_posix.c\<close>), \<open>DfsMount\<close> (mounting, \<^verbatim>\<open>dfs_fs.c\<close>): the state is the record \<open>dfs\<close>; a descriptor object is a cell of the heap
      \<open>objs\<close>, so that references to it are counted and their loss or double release shows.
    \<^item> \<open>Romfs\<close> (\<^verbatim>\<open>dfs_romfs.c\<close>): the driver of the image in flash; its search as a walk down a tree; reading its files through the calls.
      \<open>BoardFs\<close> (\<^verbatim>\<open>drivers/filesystem.c\<close>): the image on "/", the card on "/sdcard", the thread that follows the card pin.

  \<^bold>\<open>What is shown.\<close> For every component an invariant and that each operation keeps it (\<open>kinv\<close> of the kernel, the block list of the heap,
  the node lists of a message queue, \<open>fs_inv\<close> and \<open>dfs_inv\<close> of the file system), and what the operations do on each way out.
  The ring buffer, the lists, semaphore, mutex, mailbox, message queue and memory pool refine an abstract object; the path
  functions, memory functions and \<open>printf\<close> agree with a reference; the timer check ends and a thread that waits is woken in
  time. Over all of it, \<open>System\<close> shows that in any order of calls and interrupts the invariant holds and the thread that has
  the processor is a most urgent one, \<open>DfsCalls\<close> that any sequence of file calls keeps the descriptors sound, \<open>Romfs\<close> that
  a file of the image reads back through all the layers, and \<open>BoardFs\<close> that the two file systems of the board share the name space.

  \<^bold>\<open>Modelled by abstraction.\<close> The context switch is assembly; its calls are recorded in order. A critical section (\<open>rt_hw_interrupt_disable\<close>
  up to \<open>rt_hw_interrupt_enable\<close>) is one step, the sections of a message queue are steps of their own. The mutex of the file system is the
  counter \<open>lock_depth\<close>. The drivers of the file system are tables of functions over a state of their own, with the contract
  \<open>drivers_ok\<close>: an operation of a driver does not touch the path, the magic number and the reference count of a descriptor.
  \<open>errno\<close> has the numbers of newlib.

  \<^bold>\<open>Not modelled.\<close> The renderer is a git submodule that is not in the tree. Board drivers, the ST HAL, CMSIS and the CubeMX code are
  register programming or vendor code. The exception frames and the context switch of the Cortex-M7 port are assembly. The drivers
  elmfat, which is FatFs, and devfs, and the device layer are parameters of the file system. The shell and the console
  are input and output; the libc layer is glue over newlib. Network, virtualisation and the other components are not
  enabled. SMP, signals, memheap, slab and modules are not compiled in this configuration.
\<close>

end
